(* ===== verification/Weave_Prelude.thy ===== *)
theory Weave_Prelude
  imports Main "HOL-Library.Char_ord" "HOL-Library.List_Lexorder" "HOL-Library.Product_Lexorder"
    "HOL-Library.Option_ord"
begin

text \<open>
  Shared vocabulary of the development: the result type of the fallible Rust functions, the
  standard library's ordered maps and sets, UTF-8 strings, saturating and checked machine
  arithmetic, and the generic lemmas every component uses.

  A Rust \<open>Result<T>\<close> is \<open>error_code + 'a\<close>: \<open>Inl\<close> holds the error code of the source
  (\<open>err("E_CONFLICT", ...)\<close> is \<open>Err E_CONFLICT\<close>; the human-readable message is not modelled) and
  \<open>Inr\<close> the value. The \<open>?\<close> operator is \<open>rbind\<close>; a \<open>return Err(..)\<close> is the
  branch of an \<open>if\<close>.
\<close>

section \<open>Results\<close>

text \<open>The codes of the operators over graph values are a part of their own.\<close>

datatype (plugins only: code size) graph_code =
    E_CONTEXT_BUDGET | E_CONTEXT_TYPING | E_CONTEXT_SCHEMA | E_HISTORY_SELECTOR | E_ACCEPTED_SELECTOR
  | E_INFLUENCE_PROFILE | E_ALGEBRA_AUTH | E_ALGEBRA_LIMIT | E_ALGEBRA_PROFILE | E_SOURCE_REVISION
  | E_SCHEMA_COLLISION | E_SCHEMA_ALGEBRA | E_ORIGIN_MISSING | E_ORIGIN_CONFLICT | E_ENDPOINT
  | E_ATTACHMENT_HOST | E_PROJECT_MEMBER | E_SCHEMA_REQUIRED | E_SCHEMA_PROPERTY_TYPE | E_SCHEMA_PROPERTY
  | E_ASSERTION_PROFILE | E_ASSERTION_ID | E_ASSERTION_EDGE | E_ASSERTION_SOURCE | E_ASSERTION_INTERVAL
  | E_SCHEMA_ENDPOINT | E_SCHEMA_MISSING | E_SCHEMA_ID | E_SCHEMA_ENDPOINT_TYPE | E_SCHEMA_NODE_TYPE
  | E_SCHEMA_SPACE | E_SCHEMA_EDGE_TYPE | E_SCHEMA_CROSS_SPACE | E_TEMPORAL_BUDGET | E_TEMPORAL_AUTH
  | E_TEMPORAL_ID | E_PROVENANCE | E_IDENTITY_LIMIT

datatype (plugins only: code size) error_code =
    E_ATTENUATION | E_AUDIENCE | E_BUDGET | E_CAPABILITY | E_CHAIN | E_CLOCK_UNAVAILABLE
  | E_CONFLICT | E_DEPENDENT_FACT | E_ENCODING | E_EXPIRED | E_FACT_WRITE | E_FORBIDDEN | E_HISTORY_CLOCK | E_HOST_CONTEXT
  | E_HW_INPUT | E_HW_TIME | E_ID | E_INFLUENCE | E_INFLUENCE_BUDGET
  | E_INFLUENCE_DISJUNCTION_PROFILE | E_INFLUENCE_EMPTY_GROUP | E_INTEGRITY | E_INTERVAL
  | E_INTERVAL_BOUNDS | E_KEY | E_POLICY_CHANGED | E_PROOF_BUDGET | E_PROOF_FORMAT | E_QUOTA | E_READERS_WIDENED
  | E_REGISTRY | E_REGISTRY_DISABLED | E_RULE_BUDGET | E_RULE_CONTEXT | E_RULE_DOMAIN | E_RULE_ID | E_RULE_INPUT
  | E_RULE_PROFILE | E_RULE_PROVENANCE | E_RULE_RANGE | E_RULE_SHAPE | E_RULE_SPACE | E_REPLAY | E_REQUEST | E_REQUEST_BINDING | E_RESERVED_NAMESPACE | E_REVOKED
  | E_SCIENCE_BUDGET | E_SCIENCE_SOURCE | E_SCIENCE_TARGET | E_SCIENCE_TOPOLOGY | E_SCOPE
  | E_SIGNATURE | E_TRUST_ROOT | E_UNAVAILABLE
  | E_CONTEXT_REFERENCE | E_CONTEXT_REQUIRED | E_CONTEXT_SCOPE | E_CONTEXT_INCOMPATIBLE
  | E_CLUSTER_BUDGET | E_CLUSTER_INPUT | E_CLUSTER_UNAVAILABLE | E_CLUSTER_CURSOR
  | E_CLUSTER_SCOPE
  | GraphError graph_code

type_synonym 'a result = "error_code + 'a"

abbreviation Err :: "'e \<Rightarrow> 'e + 'a" where
  "Err \<equiv> Inl"

abbreviation Ok :: "'a \<Rightarrow> 'e + 'a" where
  "Ok \<equiv> Inr"

definition rbind :: "'e + 'a \<Rightarrow> ('a \<Rightarrow> 'e + 'b) \<Rightarrow> 'e + 'b" where
  "rbind r k = (case r of Inl e \<Rightarrow> Inl e | Inr x \<Rightarrow> k x)"

definition ok_or :: "'a option \<Rightarrow> 'e \<Rightarrow> 'e + 'a" where
  "ok_or x e = (case x of None \<Rightarrow> Inl e | Some y \<Rightarrow> Inr y)"

definition is_ok :: "'e + 'a \<Rightarrow> bool" where
  "is_ok r = (case r of Inl _ \<Rightarrow> False | Inr _ \<Rightarrow> True)"

named_theorems result_simps \<open>equations that evaluate a result\<close>

lemma rbind_Inl [simp, result_simps]: "rbind (Inl e) k = Inl e"
  by (simp add: rbind_def)

lemma rbind_Inr [simp, result_simps]: "rbind (Inr x) k = k x"
  by (simp add: rbind_def)

lemma rbind_eq_Inr [simp]: "rbind r k = Inr y \<longleftrightarrow> (\<exists>x. r = Inr x \<and> k x = Inr y)"
  by (cases r) auto

lemma rbind_eq_Inl: "rbind r k = Inl e \<longleftrightarrow> r = Inl e \<or> (\<exists>x. r = Inr x \<and> k x = Inl e)"
  by (cases r) auto

lemma rbind_if_Inl [simp]:
  "(if c then Inl e else r) = Inr y \<longleftrightarrow> \<not> c \<and> r = Inr y"
  by simp

lemma ok_or_simps [simp, result_simps]: "ok_or None e = Inl e" "ok_or (Some y) e = Inr y"
  by (simp_all add: ok_or_def)

lemma ok_or_eq_Inr [simp]: "ok_or x e = Inr y \<longleftrightarrow> x = Some y"
  by (cases x) auto

lemma is_ok_simps [simp, result_simps]: "\<not> is_ok (Inl e)" "is_ok (Inr x)"
  by (simp_all add: is_ok_def)

text \<open>Threading a state through a list, stopping at the first error: a \<open>for\<close> loop with \<open>?\<close>.\<close>

fun try_fold :: "('s \<Rightarrow> 'a \<Rightarrow> 'e + 's) \<Rightarrow> 's \<Rightarrow> 'a list \<Rightarrow> 'e + 's" where
  "try_fold f s [] = Inr s"
| "try_fold f s (x # xs) = rbind (f s x) (\<lambda>s'. try_fold f s' xs)"

lemma try_fold_append:
  "try_fold f s (xs @ ys) = rbind (try_fold f s xs) (\<lambda>s'. try_fold f s' ys)"
proof (induction xs arbitrary: s)
  case Nil
  show ?case by simp
next
  case (Cons x xs)
  show ?case by (cases "f s x") (simp_all add: Cons.IH)
qed

lemma try_fold_invariant:
  assumes step: "\<And>s x s'. x \<in> set xs \<Longrightarrow> P s \<Longrightarrow> f s x = Inr s' \<Longrightarrow> P s'"
    and start: "P s"
    and run: "try_fold f s xs = Inr s'"
  shows "P s'"
  using assms
proof (induction xs arbitrary: s)
  case Nil
  then show ?case by simp
next
  case (Cons x xs)
  from Cons.prems(3) obtain t where t: "f s x = Inr t" and rest: "try_fold f t xs = Inr s'"
    by auto
  have "P t" using Cons.prems(1) [of x s t] Cons.prems(2) t by simp
  with rest show ?case using Cons.IH Cons.prems(1) by (metis list.set_intros(2))
qed

lemma try_fold_cong [fundef_cong]:
  "xs = ys \<Longrightarrow> s = t \<Longrightarrow> (\<And>s x. x \<in> set ys \<Longrightarrow> f s x = g s x) \<Longrightarrow> try_fold f s xs = try_fold g t ys"
proof (induction xs arbitrary: s ys t)
  case (Cons x xs)
  then show ?case by (cases "g s x") auto
qed auto

text \<open>A guard: \<open>if !condition { return Err(..) }\<close>, and a loop of fallible checks.\<close>

definition ensure :: "bool \<Rightarrow> error_code \<Rightarrow> unit result" where
  "ensure c e = (if c then Ok () else Err e)"

definition check_each :: "('a \<Rightarrow> unit result) \<Rightarrow> 'a list \<Rightarrow> unit result" where
  "check_each f xs = try_fold (\<lambda>_ x. f x) () xs"

lemma ensure_Ok [simp]: "ensure c e = Inr u \<longleftrightarrow> c"
  by (simp add: ensure_def)

lemma check_each_Ok [simp]: "check_each f xs = Inr u \<longleftrightarrow> (\<forall>x \<in> set xs. f x = Inr ())"
  unfolding check_each_def by (induction xs) auto

section \<open>Ordered maps and sets of the standard library\<close>

text \<open>
  A \<open>BTreeMap\<close> is its entries in key order, each key once; \<open>bm_ok\<close> states that order, which
  every operation keeps. Lookup is \<open>map_of\<close>. A \<open>BTreeSet\<close> is its strictly sorted list of elements.
\<close>

type_synonym ('k, 'v) btree_map = "('k \<times> 'v) list"
type_synonym 'a btree_set = "'a list"

fun bm_insert :: "'k::linorder \<Rightarrow> 'v \<Rightarrow> ('k, 'v) btree_map \<Rightarrow> ('k, 'v) btree_map" where
  "bm_insert k v [] = [(k, v)]"
| "bm_insert k v ((k', v') # m) =
     (if k < k' then (k, v) # (k', v') # m
      else if k = k' then (k, v) # m
      else (k', v') # bm_insert k v m)"

definition bm_remove :: "'k \<Rightarrow> ('k, 'v) btree_map \<Rightarrow> ('k, 'v) btree_map" where
  "bm_remove k m = filter (\<lambda>p. fst p \<noteq> k) m"

definition bm_ok :: "('k::linorder, 'v) btree_map \<Rightarrow> bool" where
  "bm_ok m \<longleftrightarrow> sorted_wrt (<) (map fst m)"

definition bm_or_default :: "'v \<Rightarrow> ('k, 'v) btree_map \<Rightarrow> 'k \<Rightarrow> 'v" where
  "bm_or_default d m k = (case map_of m k of None \<Rightarrow> d | Some v \<Rightarrow> v)"

lemma map_of_bm_insert [simp]: "map_of (bm_insert k v m) = (map_of m)(k \<mapsto> v)"
  by (induction k v m rule: bm_insert.induct) (auto simp: fun_eq_iff)

lemma map_of_bm_remove [simp]: "map_of (bm_remove k m) = (map_of m)(k := None)"
  by (induction m) (auto simp: bm_remove_def fun_eq_iff)

lemma set_bm_insert_keys: "fst ` set (bm_insert k v m) = insert k (fst ` set m)"
  by (induction k v m rule: bm_insert.induct) auto

lemma bm_ok_Nil [simp]: "bm_ok []"
  by (simp add: bm_ok_def)

lemma bm_ok_insert [simp]: "bm_ok m \<Longrightarrow> bm_ok (bm_insert k v m)"
proof (induction k v m rule: bm_insert.induct)
  case (1 k v)
  then show ?case by (simp add: bm_ok_def)
next
  case (2 k v k' v' m)
  have keys: "set (map fst (bm_insert k v m)) = insert k (fst ` set m)"
    by (simp add: set_bm_insert_keys)
  from "2.prems" have m: "bm_ok m" and lt: "\<forall>x \<in> fst ` set m. k' < x"
    by (auto simp: bm_ok_def)
  show ?case
  proof (cases "k' < k")
    case True
    then have ih: "bm_ok (bm_insert k v m)" using "2.IH" m by simp
    have "\<forall>x \<in> set (map fst (bm_insert k v m)). k' < x"
      unfolding keys using lt True by simp
    with True ih show ?thesis by (auto simp: bm_ok_def)
  next
    case False
    then show ?thesis using "2.prems" lt by (auto simp: bm_ok_def)
  qed
qed

lemma bm_ok_remove [simp]: "bm_ok m \<Longrightarrow> bm_ok (bm_remove k m)"
  by (induction m) (auto simp: bm_ok_def bm_remove_def)

lemma bm_ok_distinct: "bm_ok m \<Longrightarrow> distinct (map fst m)"
  unfolding bm_ok_def by (rule strict_sorted_iff [THEN iffD1, THEN conjunct2])

lemma bm_ok_map_of: "bm_ok m \<Longrightarrow> (k, v) \<in> set m \<longleftrightarrow> map_of m k = Some v"
  using map_of_eq_Some_iff [OF bm_ok_distinct] by metis

lemma bm_ext:
  assumes "bm_ok m" and "bm_ok n" and "\<And>k. map_of m k = map_of n k"
  shows "m = n"
proof -
  have sets: "set m = set n" using bm_ok_map_of [OF assms(1)] bm_ok_map_of [OF assms(2)] assms(3) by auto
  then have "map fst m = map fst n"
    using assms(1,2) unfolding bm_ok_def by (intro strict_sorted_equal) simp_all
  moreover have "map (\<lambda>k. (k, the (map_of m k))) (map fst m) = m" if "bm_ok m" for m :: "('a \<times> 'b) list"
    unfolding map_map
  proof (rule map_idI)
    fix x assume "x \<in> set m"
    then have "map_of m (fst x) = Some (snd x)" using bm_ok_map_of [OF that, of "fst x" "snd x"] by simp
    then show "((\<lambda>k. (k, the (map_of m k))) \<circ> fst) x = x" by simp
  qed
  note this [OF assms(1)] this [OF assms(2)]
  moreover have "map_of m = map_of n" using assms(3) by blast
  ultimately show ?thesis by metis
qed

lemma bm_or_default_insert [simp]:
  "bm_or_default d (bm_insert k v m) k' = (if k' = k then v else bm_or_default d m k')"
  by (simp add: bm_or_default_def)

definition bs_insert :: "'a::linorder \<Rightarrow> 'a btree_set \<Rightarrow> 'a btree_set" where
  "bs_insert = insort_insert"

lemma set_bs_insert [simp]: "set (bs_insert x xs) = insert x (set xs)"
  by (simp add: bs_insert_def set_insort_insert)

lemma distinct_bs_insert [simp]: "distinct xs \<Longrightarrow> distinct (bs_insert x xs)"
  by (simp add: bs_insert_def distinct_insort_insert)

lemma sorted_bs_insert [simp]: "sorted xs \<Longrightarrow> sorted (bs_insert x xs)"
  by (simp add: bs_insert_def sorted_insort_insert)

lemma bs_insert_code [code]:
  "bs_insert x [] = [x]"
  "bs_insert x (y # ys) = (if x = y \<or> x \<in> set ys then y # ys else insort x (y # ys))"
  by (auto simp: bs_insert_def insort_insert_key_def)

section \<open>Machine arithmetic\<close>

definition u64_max :: nat where
  "u64_max = 2 ^ 64 - 1"

definition usize_max :: nat where
  "usize_max = 2 ^ 64 - 1"

definition saturating_add :: "nat \<Rightarrow> nat \<Rightarrow> nat" where
  "saturating_add a b = min (a + b) usize_max"

definition checked_sub :: "nat \<Rightarrow> nat \<Rightarrow> nat option" where
  "checked_sub a b = (if b \<le> a then Some (a - b) else None)"

lemma checked_sub_Some [simp]: "checked_sub a b = Some c \<longleftrightarrow> b \<le> a \<and> c = a - b"
  by (auto simp: checked_sub_def)

definition usize_add :: "nat \<Rightarrow> nat \<Rightarrow> nat option" where
  "usize_add a b = (if a + b \<le> usize_max then Some (a + b) else None)"

definition usize_mul :: "nat \<Rightarrow> nat \<Rightarrow> nat option" where
  "usize_mul a b = (if a * b \<le> usize_max then Some (a * b) else None)"

lemma usize_add_Some [simp]: "usize_add x y = Some z \<longleftrightarrow> z = x + y \<and> x + y \<le> usize_max"
  by (auto simp: usize_add_def)

lemma usize_mul_Some [simp]: "usize_mul x y = Some z \<longleftrightarrow> z = x * y \<and> x * y \<le> usize_max"
  by (auto simp: usize_mul_def)

lemma saturating_add_le_iff: "n < usize_max \<Longrightarrow> saturating_add a b \<le> n \<longleftrightarrow> a + b \<le> n"
  by (auto simp: saturating_add_def)

definition i64_min :: int where
  "i64_min = - (2 ^ 63)"

definition i64_max :: int where
  "i64_max = 2 ^ 63 - 1"

definition in_i64 :: "int \<Rightarrow> bool" where
  "in_i64 x \<longleftrightarrow> i64_min \<le> x \<and> x \<le> i64_max"

section \<open>Strings\<close>

text \<open>
  A Rust \<open>String\<close> is UTF-8; here it is its list of bytes, so \<open>length\<close> is \<open>str::len\<close> and the list
  order is \<open>str\<close>'s order. \<open>char::is_control\<close> is Unicode's category Cc: U+0000 to U+001F, U+007F and
  U+0080 to U+009F, the last group being the byte pairs C2 80 to C2 9F.
\<close>

fun has_control :: "string \<Rightarrow> bool" where
  "has_control [] = False"
| "has_control (c # cs) =
     ((of_char c :: nat) < 32 \<or> (of_char c :: nat) = 127
      \<or> ((of_char c :: nat) = 194 \<and>
          (case cs of [] \<Rightarrow> False
           | d # _ \<Rightarrow> 128 \<le> (of_char d :: nat) \<and> (of_char d :: nat) < 160))
      \<or> has_control cs)"

text \<open>Identifiers: \<open>valid_id\<close> and the check built on it.\<close>

definition valid_id :: "string \<Rightarrow> bool" where
  "valid_id i \<longleftrightarrow> i \<noteq> [] \<and> length i \<le> 512"

definition check_id :: "string \<Rightarrow> unit result" where
  "check_id i = (if valid_id i then Ok () else Err E_ID)"

lemma check_id_Ok [simp]: "check_id i = Inr u \<longleftrightarrow> valid_id i"
  by (simp add: check_id_def)

definition starts_with :: "string \<Rightarrow> string \<Rightarrow> bool" where
  "starts_with s p \<longleftrightarrow> take (length p) s = p"

fun strictly_increasing :: "'a::ord list \<Rightarrow> bool" where
  "strictly_increasing [] = True"
| "strictly_increasing [x] = True"
| "strictly_increasing (x # y # zs) = (x < y \<and> strictly_increasing (y # zs))"

lemma strictly_increasing_iff:
  "strictly_increasing (xs :: 'a::linorder list) \<longleftrightarrow> sorted_wrt (<) xs"
  by (induction xs rule: strictly_increasing.induct) (auto intro: less_trans)

section \<open>Sorting and deduplication\<close>

text \<open>
  The idiom \<open>v.sort(); v.dedup();\<close>. After sorting, \<open>dedup\<close> (which drops consecutive equal elements)
  is \<open>remdups_adj\<close>; the result is the strictly sorted list of the elements.
\<close>

definition sort_dedup :: "'a::linorder list \<Rightarrow> 'a list" where
  "sort_dedup xs = remdups_adj (sort xs)"

lemma set_sort_dedup [simp]: "set (sort_dedup xs) = set xs"
  by (simp add: sort_dedup_def)

lemma distinct_remdups_adj_sorted: "sorted xs \<Longrightarrow> distinct (remdups_adj xs)"
  by (induction xs rule: remdups_adj.induct) (auto simp: less_le)

lemma sort_dedup_eq: "sort_dedup xs = sorted_list_of_set (set xs)"
proof -
  have "sorted (sort_dedup xs)" by (simp add: sort_dedup_def sorted_remdups_adj)
  moreover have "distinct (sort_dedup xs)"
    by (simp add: sort_dedup_def distinct_remdups_adj_sorted)
  ultimately show ?thesis
    by (metis set_sort_dedup sorted_list_of_set.idem_if_sorted_distinct)
qed

lemma sort_dedup_cong: "set xs = set ys \<Longrightarrow> sort_dedup xs = sort_dedup ys"
  by (simp add: sort_dedup_eq)

lemma sort_dedup_idem [simp]: "sort_dedup (sort_dedup xs) = sort_dedup xs"
  by (rule sort_dedup_cong) simp

lemma length_sort_dedup_le: "length (sort_dedup xs) \<le> length xs"
  by (metis sort_dedup_def length_sort remdups_adj_length)

lemma sort_dedup_eq_Nil [simp]: "sort_dedup xs = [] \<longleftrightarrow> xs = []"
  by (metis set_sort_dedup set_empty)

end
