(* ===== verification/Fact_Model.thy ===== *)
theory Fact_Model
  imports Weave_Prelude
begin

text \<open>
  The data of the fact log (\<open>crates/weave-engine/src/fact_store/mod.rs\<close>): kinds and namespaces with
  their declaration order, index keys, versions, operations, revisions and filters; what a filter
  matches; and the input validation every storage backend shares. Record fields carry a prefix per
  struct (\<open>fv_\<close> for \<open>FactVersion\<close>, \<open>ri_\<close> for \<open>RevisionInfo\<close>, and so on). \<open>i64\<close> values are \<open>int\<close>.
\<close>

section \<open>Kinds and namespaces\<close>

datatype (plugins only: code size) namespace = NsNode | NsRecord | NsSpace

datatype (plugins only: code size) fact_kind =
    FkNode | FkEdge | FkStructuralEdge | FkAssertion | FkAttachment | FkEmbeddingSpace | FkEmbedding

definition all_kinds :: "fact_kind list" where
  "all_kinds = [FkNode, FkEdge, FkStructuralEdge, FkAssertion, FkAttachment, FkEmbeddingSpace,
     FkEmbedding]"

fun kind_namespace :: "fact_kind \<Rightarrow> namespace" where
  "kind_namespace FkNode = NsNode"
| "kind_namespace FkEmbeddingSpace = NsSpace"
| "kind_namespace _ = NsRecord"

fun kind_as_str :: "fact_kind \<Rightarrow> string" where
  "kind_as_str FkNode = ''node''"
| "kind_as_str FkEdge = ''edge''"
| "kind_as_str FkStructuralEdge = ''structural_edge''"
| "kind_as_str FkAssertion = ''assertion''"
| "kind_as_str FkAttachment = ''attachment''"
| "kind_as_str FkEmbeddingSpace = ''embedding_space''"
| "kind_as_str FkEmbedding = ''embedding''"

definition kind_parse :: "string \<Rightarrow> fact_kind option" where
  "kind_parse s = List.find (\<lambda>k. kind_as_str k = s) all_kinds"

fun is_graph_kind :: "fact_kind \<Rightarrow> bool" where
  "is_graph_kind FkEmbeddingSpace = False"
| "is_graph_kind FkEmbedding = False"
| "is_graph_kind _ = True"

fun namespace_as_str :: "namespace \<Rightarrow> string" where
  "namespace_as_str NsNode = ''node''"
| "namespace_as_str NsRecord = ''record''"
| "namespace_as_str NsSpace = ''space''"

definition namespace_parse :: "string \<Rightarrow> namespace option" where
  "namespace_parse s =
     (if s = ''node'' then Some NsNode
      else if s = ''record'' then Some NsRecord
      else if s = ''space'' then Some NsSpace
      else None)"

text \<open>The derived \<open>Ord\<close>: declaration order, which is the materialization order.\<close>

fun kind_rank :: "fact_kind \<Rightarrow> nat" where
  "kind_rank FkNode = 0"
| "kind_rank FkEdge = 1"
| "kind_rank FkStructuralEdge = 2"
| "kind_rank FkAssertion = 3"
| "kind_rank FkAttachment = 4"
| "kind_rank FkEmbeddingSpace = 5"
| "kind_rank FkEmbedding = 6"

fun namespace_rank :: "namespace \<Rightarrow> nat" where
  "namespace_rank NsNode = 0"
| "namespace_rank NsRecord = 1"
| "namespace_rank NsSpace = 2"

lemma kind_rank_inj: "kind_rank a = kind_rank b \<longleftrightarrow> a = b"
  by (cases a; cases b) simp_all

lemma namespace_rank_inj: "namespace_rank a = namespace_rank b \<longleftrightarrow> a = b"
  by (cases a; cases b) simp_all

instantiation fact_kind :: linorder
begin
definition less_eq_fact_kind :: "fact_kind \<Rightarrow> fact_kind \<Rightarrow> bool" where
  "less_eq_fact_kind a b \<longleftrightarrow> kind_rank a \<le> kind_rank b"
definition less_fact_kind :: "fact_kind \<Rightarrow> fact_kind \<Rightarrow> bool" where
  "less_fact_kind a b \<longleftrightarrow> kind_rank a < kind_rank b"
instance
  by standard (auto simp: less_eq_fact_kind_def less_fact_kind_def kind_rank_inj)
end

instantiation namespace :: linorder
begin
definition less_eq_namespace :: "namespace \<Rightarrow> namespace \<Rightarrow> bool" where
  "less_eq_namespace a b \<longleftrightarrow> namespace_rank a \<le> namespace_rank b"
definition less_namespace :: "namespace \<Rightarrow> namespace \<Rightarrow> bool" where
  "less_namespace a b \<longleftrightarrow> namespace_rank a < namespace_rank b"
instance
  by standard (auto simp: less_eq_namespace_def less_namespace_def namespace_rank_inj)
end

section \<open>Facts, operations and revisions\<close>

record valid_time =
  vt_start :: int
  vt_end :: "int option"

definition vt_contains :: "valid_time \<Rightarrow> int \<Rightarrow> bool" where
  "vt_contains v t \<longleftrightarrow> vt_start v \<le> t \<and> (case vt_end v of None \<Rightarrow> True | Some e \<Rightarrow> t < e)"

record index_keys =
  ik_entity :: "string option"
  ik_subject :: "string option"
  ik_object :: "string option"
  ik_predicate :: "string option"
  ik_valid :: "valid_time option"
  ik_carrier :: bool

record fact_version =
  fv_kind :: fact_kind
  fv_id :: string
  fv_body :: string
  fv_keys :: index_keys

record recording =
  rc_writer :: string
  rc_on_behalf_of :: "string option"
  rc_recorded_at_ms :: int
  rc_revision :: string

datatype fact_op = AssertOp fact_version | RetractOp fact_kind string

fun op_kind :: "fact_op \<Rightarrow> fact_kind" where
  "op_kind (AssertOp v) = fv_kind v"
| "op_kind (RetractOp k _) = k"

fun op_id :: "fact_op \<Rightarrow> string" where
  "op_id (AssertOp v) = fv_id v"
| "op_id (RetractOp _ i) = i"

record new_revision =
  nr_revision :: string
  nr_graph_id :: string
  nr_branch_id :: string
  nr_parent :: "string option"
  nr_writer :: string
  nr_on_behalf_of :: "string option"
  nr_recorded_at_ms :: int
  nr_ops :: "fact_op list"

record base_state =
  bs_header :: string
  bs_facts :: "(fact_version \<times> recording) list"

record revision_info =
  ri_revision :: string
  ri_graph_id :: string
  ri_branch_id :: string
  ri_parent :: "string option"
  ri_line :: int
  ri_seq :: int
  ri_first_position :: int
  ri_op_count :: int
  ri_writer :: string
  ri_on_behalf_of :: "string option"
  ri_recorded_at_ms :: int

record stored_fact =
  sf_position :: int
  sf_version :: fact_version
  sf_recording :: recording

record logged_op =
  lo_position :: int
  lo_op :: fact_op

text \<open>The key of a fact inside one line: its namespace and ID.\<close>

definition version_key :: "fact_version \<Rightarrow> namespace \<times> string" where
  "version_key v = (kind_namespace (fv_kind v), fv_id v)"

definition op_key :: "fact_op \<Rightarrow> namespace \<times> string" where
  "op_key p = (kind_namespace (op_kind p), op_id p)"

lemma op_key_AssertOp [simp]: "op_key (AssertOp v) = version_key v"
  by (simp add: op_key_def version_key_def)

section \<open>Filters\<close>

record fact_filter =
  ff_kind :: "fact_kind option"
  ff_entity :: "string option"
  ff_subject :: "string option"
  ff_object :: "string option"
  ff_predicate :: "string option"
  ff_valid_at :: "int option"
  ff_recorded :: "(int \<times> int) option"
  ff_carrier :: bool
  ff_unanchored :: bool
  ff_graph_only :: bool

definition same_key :: "string option \<Rightarrow> string option \<Rightarrow> bool" where
  "same_key want have \<longleftrightarrow> (case want of None \<Rightarrow> True | Some w \<Rightarrow> have = Some w)"

definition filter_matches :: "fact_filter \<Rightarrow> stored_fact \<Rightarrow> bool" where
  "filter_matches f sf \<longleftrightarrow>
     (let v = sf_version sf; keys = fv_keys v in
        (case ff_kind f of None \<Rightarrow> True | Some k \<Rightarrow> k = fv_kind v)
        \<and> same_key (ff_entity f) (ik_entity keys)
        \<and> same_key (ff_subject f) (ik_subject keys)
        \<and> same_key (ff_object f) (ik_object keys)
        \<and> same_key (ff_predicate f) (ik_predicate keys)
        \<and> (case ff_valid_at f of None \<Rightarrow> True
           | Some t \<Rightarrow> (case ik_valid keys of None \<Rightarrow> True | Some iv \<Rightarrow> vt_contains iv t))
        \<and> (\<not> ff_carrier f \<or> ik_carrier keys)
        \<and> (\<not> ff_unanchored f \<or> (ik_subject keys = None \<and> ik_entity keys = None))
        \<and> (\<not> ff_graph_only f \<or> is_graph_kind (fv_kind v))
        \<and> (case ff_recorded f of None \<Rightarrow> True
           | Some (s, e) \<Rightarrow>
               s \<le> rc_recorded_at_ms (sf_recording sf) \<and> rc_recorded_at_ms (sf_recording sf) < e))"

section \<open>Shared input validation\<close>

definition max_body_bytes :: nat where
  "max_body_bytes = 4 * 1024 * 1024"

definition max_checkpoint_bytes :: nat where
  "max_checkpoint_bytes = 256 * 1024 * 1024"

definition max_key_bytes :: nat where
  "max_key_bytes = 512"

definition bounded :: "string \<Rightarrow> bool" where
  "bounded s \<longleftrightarrow> s \<noteq> [] \<and> length s \<le> max_key_bytes"

definition bounded_delegation :: "string \<Rightarrow> bool" where
  "bounded_delegation s \<longleftrightarrow> s \<noteq> [] \<and> length s \<le> 8 * (max_key_bytes * 6 + 3) + 2"

definition none_or :: "('a \<Rightarrow> bool) \<Rightarrow> 'a option \<Rightarrow> bool" where
  "none_or P x \<longleftrightarrow> (case x of None \<Rightarrow> True | Some y \<Rightarrow> P y)"

definition validate_version :: "fact_version \<Rightarrow> unit result" where
  "validate_version v =
     (let keys = fv_keys v in
      if \<not> bounded (fv_id v) \<or> \<not> none_or bounded (ik_entity keys)
         \<or> \<not> none_or bounded (ik_subject keys) \<or> \<not> none_or bounded (ik_object keys)
         \<or> \<not> none_or bounded (ik_predicate keys)
      then Err E_ID
      else if (case ik_valid keys of None \<Rightarrow> False
               | Some iv \<Rightarrow> (case vt_end iv of None \<Rightarrow> False | Some e \<Rightarrow> e \<le> vt_start iv))
      then Err E_INTERVAL
      else if max_body_bytes < length (fv_body v) then Err E_BUDGET
      else Ok ())"

fun validate_ops :: "(namespace \<times> string) set \<Rightarrow> fact_op list \<Rightarrow> unit result" where
  "validate_ops seen [] = Ok ()"
| "validate_ops seen (p # ps) =
     (if op_key p \<in> seen then Err E_CONFLICT
      else rbind
        (case p of
           AssertOp v \<Rightarrow> validate_version v
         | RetractOp k i \<Rightarrow> if \<not> bounded i then Err E_ID else Ok ())
        (\<lambda>_. validate_ops (insert (op_key p) seen) ps))"

fun validate_base_facts ::
  "(namespace \<times> string) set \<Rightarrow> (fact_version \<times> recording) list \<Rightarrow> unit result" where
  "validate_base_facts seen [] = Ok ()"
| "validate_base_facts seen ((v, r) # fs) =
     rbind (validate_version v) (\<lambda>_.
       if \<not> bounded (rc_writer r)
          \<or> (case rc_on_behalf_of r of None \<Rightarrow> False | Some p \<Rightarrow> \<not> bounded_delegation p)
          \<or> \<not> bounded (rc_revision r) \<or> rc_recorded_at_ms r < 0
       then Err E_ID
       else if version_key v \<in> seen then Err E_CONFLICT
       else validate_base_facts (insert (version_key v) seen) fs)"

definition validate_new :: "new_revision \<Rightarrow> base_state option \<Rightarrow> unit result" where
  "validate_new r base =
     (if \<not> (bounded (nr_revision r) \<and> bounded (nr_graph_id r) \<and> bounded (nr_branch_id r)
            \<and> bounded (nr_writer r) \<and> none_or bounded_delegation (nr_on_behalf_of r)
            \<and> none_or bounded (nr_parent r) \<and> 0 \<le> nr_recorded_at_ms r)
      then Err E_ID
      else if nr_ops r = [] then Err E_CONFLICT
      else rbind (validate_ops {} (nr_ops r)) (\<lambda>_.
        case base of
          None \<Rightarrow> Ok ()
        | Some b \<Rightarrow>
            if max_body_bytes < length (bs_header b) then Err E_BUDGET
            else validate_base_facts {} (bs_facts b)))"

definition order_facts :: "stored_fact list \<Rightarrow> stored_fact list" where
  "order_facts = sort_key (\<lambda>f. (fv_kind (sf_version f), fv_id (sf_version f)))"

section \<open>What the validation guarantees\<close>

lemma kind_parse_as_str [simp]: "kind_parse (kind_as_str k) = Some k"
  by (cases k) (simp_all add: kind_parse_def all_kinds_def)

lemma namespace_parse_as_str [simp]: "namespace_parse (namespace_as_str n) = Some n"
  by (cases n) (simp_all add: namespace_parse_def)

lemma validate_ops_distinct:
  "validate_ops seen ps = Ok () \<Longrightarrow> distinct (map op_key ps) \<and> op_key ` set ps \<inter> seen = {}"
proof (induction ps arbitrary: seen)
  case Nil
  then show ?case by simp
next
  case (Cons p ps)
  from Cons.prems have fresh: "op_key p \<notin> seen"
    and rest: "validate_ops (insert (op_key p) seen) ps = Ok ()"
    by (auto split: if_splits)
  from Cons.IH [OF rest] fresh show ?case by auto
qed

lemma validate_base_facts_distinct:
  "validate_base_facts seen fs = Ok () \<Longrightarrow>
     distinct (map (version_key \<circ> fst) fs) \<and> (version_key \<circ> fst) ` set fs \<inter> seen = {}"
proof (induction fs arbitrary: seen)
  case Nil
  then show ?case by simp
next
  case (Cons f fs)
  obtain v r where f: "f = (v, r)" by (cases f)
  from Cons.prems f have fresh: "version_key v \<notin> seen"
    and rest: "validate_base_facts (insert (version_key v) seen) fs = Ok ()"
    by (auto split: if_splits)
  from Cons.IH [OF rest] fresh f show ?case by auto
qed

lemma validate_new_ops:
  "validate_new r base = Ok () \<Longrightarrow> nr_ops r \<noteq> [] \<and> distinct (map op_key (nr_ops r))"
  by (auto simp: validate_new_def dest!: validate_ops_distinct split: if_splits)

lemma validate_new_base:
  "validate_new r (Some b) = Ok () \<Longrightarrow> distinct (map (version_key \<circ> fst) (bs_facts b))"
  by (auto simp: validate_new_def dest!: validate_base_facts_distinct split: if_splits)

end
