(* ===== verification/Memory_Store.thy ===== *)
theory Memory_Store
  imports Fact_Model
begin

text \<open>
  The reference storage backend (\<open>crates/weave-engine/src/fact_store/memory.rs\<close>): lines of
  revisions, versions with the sequence interval in which they are live, the operation log and the
  checkpoints, with every operation of the \<open>FactBackend\<close> trait. The \<open>&mut self\<close> methods return
  the new state with their result.
\<close>

section \<open>State\<close>

record line =
  ln_graph_id :: string
  ln_header :: string
  ln_base_parent :: "string option"
  ln_tip :: int

record version =
  mv_line :: int
  mv_from_seq :: int
  mv_until_seq :: "int option"
  mv_fact :: stored_fact

record mem_state =
  next_position :: int
  lines :: "(int, line) btree_map"
  revisions :: "(string, revision_info) btree_map"
  log :: "(int, fact_op) btree_map"
  versions :: "version list"
  checkpoints :: "(string, string) btree_map"

record memory_store =
  state :: mem_state
  saved :: "mem_state option"

definition empty_state :: mem_state where
  "empty_state = \<lparr>next_position = 0, lines = [], revisions = [], log = [], versions = [],
     checkpoints = []\<rparr>"

definition new_store :: memory_store where
  "new_store = \<lparr>state = empty_state, saved = None\<rparr>"

section \<open>Lookup\<close>

definition st_info :: "mem_state \<Rightarrow> string \<Rightarrow> revision_info result" where
  "st_info st r = ok_or (map_of (revisions st) r) E_UNAVAILABLE"

definition live :: "int \<Rightarrow> int \<Rightarrow> version \<Rightarrow> bool" where
  "live ln sq v \<longleftrightarrow> mv_line v = ln \<and> mv_from_seq v \<le> sq
     \<and> (case mv_until_seq v of None \<Rightarrow> True | Some u \<Rightarrow> sq < u)"

definition mv_key :: "version \<Rightarrow> namespace \<times> string" where
  "mv_key v = version_key (sf_version (mv_fact v))"

definition live_at :: "mem_state \<Rightarrow> int \<Rightarrow> int \<Rightarrow> version list" where
  "live_at st ln sq = filter (live ln sq) (versions st)"

text \<open>\<open>Iterator::position\<close>.\<close>

fun find_position :: "('a \<Rightarrow> bool) \<Rightarrow> 'a list \<Rightarrow> nat option" where
  "find_position P [] = None"
| "find_position P (x # xs) = (if P x then Some 0 else map_option Suc (find_position P xs))"

definition live_index :: "mem_state \<Rightarrow> int \<Rightarrow> int \<Rightarrow> namespace \<times> string \<Rightarrow> nat option" where
  "live_index st ln sq k = find_position (\<lambda>v. live ln sq v \<and> mv_key v = k) (versions st)"

section \<open>Appending a revision\<close>

definition push_version ::
  "int \<Rightarrow> int \<Rightarrow> fact_version \<Rightarrow> recording \<Rightarrow> mem_state \<Rightarrow> mem_state \<times> int" where
  "push_version ln sq v rc st =
     (let position = next_position st in
      (st\<lparr>next_position := position + 1,
          versions := versions st @
            [\<lparr>mv_line = ln, mv_from_seq = sq, mv_until_seq = None,
              mv_fact = \<lparr>sf_position = position, sf_version = v, sf_recording = rc\<rparr>\<rparr>]\<rparr>,
       position))"

definition end_version :: "nat \<Rightarrow> int \<Rightarrow> mem_state \<Rightarrow> mem_state" where
  "end_version i sq st =
     st\<lparr>versions := (versions st)[i := (versions st ! i)\<lparr>mv_until_seq := Some sq\<rparr>]\<rparr>"

definition apply_op :: "int \<Rightarrow> int \<Rightarrow> recording \<Rightarrow> mem_state \<Rightarrow> fact_op \<Rightarrow> mem_state result" where
  "apply_op ln sq rc st p =
     (let found = live_index st ln (sq - 1) (op_key p) in
      rbind
        (case found of
           None \<Rightarrow> Ok st
         | Some i \<Rightarrow>
             if fv_kind (sf_version (mv_fact (versions st ! i))) \<noteq> op_kind p then Err E_CONFLICT
             else Ok (end_version i sq st))
        (\<lambda>st'.
           case p of
             AssertOp v \<Rightarrow>
               (let (st'', position) = push_version ln sq v rc st' in
                Ok (st''\<lparr>log := bm_insert position p (log st'')\<rparr>))
           | RetractOp k i \<Rightarrow>
               if found = None then Err E_CONFLICT
               else Ok (st'\<lparr>next_position := next_position st' + 1,
                            log := bm_insert (next_position st') p (log st')\<rparr>)))"

definition push_base :: "int \<Rightarrow> (fact_version \<times> recording) list \<Rightarrow> mem_state \<Rightarrow> mem_state" where
  "push_base ln fs st = fold (\<lambda>(v, rc) s. fst (push_version ln 0 v rc s)) fs st"

definition next_line :: "mem_state \<Rightarrow> int" where
  "next_line st = (if lines st = [] then 1 else fst (last (lines st)) + 1)"

definition parent_info :: "mem_state \<Rightarrow> new_revision \<Rightarrow> revision_info option" where
  "parent_info st r = (case nr_parent r of None \<Rightarrow> None | Some p \<Rightarrow> map_of (revisions st) p)"

definition continues :: "mem_state \<Rightarrow> revision_info option \<Rightarrow> bool" where
  "continues st parent =
     (case parent of None \<Rightarrow> False
      | Some p \<Rightarrow> (case map_of (lines st) (ri_line p) of None \<Rightarrow> False
                  | Some l \<Rightarrow> ln_tip l = ri_seq p))"

text \<open>The line and sequence number of the new revision, after starting a line where one is needed.\<close>

definition place_revision ::
  "mem_state \<Rightarrow> new_revision \<Rightarrow> base_state option \<Rightarrow> (mem_state \<times> int \<times> int) result" where
  "place_revision st r base =
     (let parent = parent_info st r in
      if continues st parent then
        rbind (ok_or parent E_UNAVAILABLE) (\<lambda>p.
          if base \<noteq> None then Err E_INTEGRITY
          else if nr_recorded_at_ms r < ri_recorded_at_ms p then Err E_HISTORY_CLOCK
          else Ok (st, ri_line p, ri_seq p + 1))
      else
        rbind (ok_or base E_INTEGRITY) (\<lambda>b.
          if \<exists>x \<in> set (bs_facts b). nr_recorded_at_ms r < rc_recorded_at_ms (snd x)
          then Err E_HISTORY_CLOCK
          else
            (let ln = next_line st;
                 st' = st\<lparr>lines := bm_insert ln
                   \<lparr>ln_graph_id = nr_graph_id r, ln_header = bs_header b,
                    ln_base_parent = nr_parent r, ln_tip = 0\<rparr> (lines st)\<rparr>
             in Ok (push_base ln (bs_facts b) st', ln, 1))))"

definition revision_recording :: "new_revision \<Rightarrow> recording" where
  "revision_recording r =
     \<lparr>rc_writer = nr_writer r, rc_on_behalf_of = nr_on_behalf_of r,
      rc_recorded_at_ms = nr_recorded_at_ms r, rc_revision = nr_revision r\<rparr>"

definition revision_info_of :: "new_revision \<Rightarrow> int \<Rightarrow> int \<Rightarrow> int \<Rightarrow> revision_info" where
  "revision_info_of r ln sq first =
     \<lparr>ri_revision = nr_revision r, ri_graph_id = nr_graph_id r, ri_branch_id = nr_branch_id r,
      ri_parent = nr_parent r, ri_line = ln, ri_seq = sq, ri_first_position = first,
      ri_op_count = int (length (nr_ops r)), ri_writer = nr_writer r,
      ri_on_behalf_of = nr_on_behalf_of r, ri_recorded_at_ms = nr_recorded_at_ms r\<rparr>"

text \<open>The end of \<open>append\<close>: the operations are logged, the tip moves and the revision is recorded.\<close>

definition finish_revision ::
  "new_revision \<Rightarrow> mem_state \<Rightarrow> int \<Rightarrow> int \<Rightarrow> (mem_state \<times> revision_info) result" where
  "finish_revision r st ln sq =
     rbind (try_fold (apply_op ln sq (revision_recording r)) st (nr_ops r)) (\<lambda>st'.
     rbind (ok_or (map_of (lines st') ln) E_UNAVAILABLE) (\<lambda>l.
       if ln_graph_id l \<noteq> nr_graph_id r then Err E_INTEGRITY
       else
         (let info = revision_info_of r ln sq (next_position st) in
          Ok (st'\<lparr>lines := bm_insert ln (l\<lparr>ln_tip := sq\<rparr>) (lines st'),
                  revisions := bm_insert (nr_revision r) info (revisions st')\<rparr>, info))))"

definition state_append ::
  "mem_state \<Rightarrow> new_revision \<Rightarrow> base_state option \<Rightarrow> (mem_state \<times> revision_info) result" where
  "state_append st0 r base =
     rbind (validate_new r base) (\<lambda>_.
       if map_of (revisions st0) (nr_revision r) \<noteq> None then Err E_CONFLICT
       else
         (let st = (if next_position st0 = 0 then st0\<lparr>next_position := 1\<rparr> else st0) in
          if (case parent_info st r of None \<Rightarrow> False | Some p \<Rightarrow> ri_graph_id p \<noteq> nr_graph_id r)
          then Err E_INTEGRITY
          else rbind (place_revision st r base) (\<lambda>(st', ln, sq). finish_revision r st' ln sq)))"

section \<open>The backend interface\<close>

definition durable :: "memory_store \<Rightarrow> bool" where
  "durable m = False"

definition begin_tx :: "memory_store \<Rightarrow> unit result \<times> memory_store" where
  "begin_tx m =
     (if saved m \<noteq> None then (Err E_INTEGRITY, m)
      else (Ok (), m\<lparr>saved := Some (state m)\<rparr>))"

definition commit_tx :: "memory_store \<Rightarrow> unit result \<times> memory_store" where
  "commit_tx m =
     (case saved m of None \<Rightarrow> (Err E_INTEGRITY, m)
      | Some _ \<Rightarrow> (Ok (), m\<lparr>saved := None\<rparr>))"

definition rollback_tx :: "memory_store \<Rightarrow> unit result \<times> memory_store" where
  "rollback_tx m =
     (case saved m of None \<Rightarrow> (Err E_INTEGRITY, m)
      | Some s \<Rightarrow> (Ok (), m\<lparr>state := s, saved := None\<rparr>))"

definition store_revision :: "memory_store \<Rightarrow> string \<Rightarrow> revision_info option result" where
  "store_revision m r = Ok (map_of (revisions (state m)) r)"

definition store_is_tip :: "memory_store \<Rightarrow> string \<Rightarrow> bool result" where
  "store_is_tip m r =
     Ok (case map_of (revisions (state m)) r of None \<Rightarrow> False
         | Some i \<Rightarrow> (case map_of (lines (state m)) (ri_line i) of None \<Rightarrow> False
                     | Some l \<Rightarrow> ln_tip l = ri_seq i))"

text \<open>\<open>append\<close> works on a copy, so a failure leaves the store as it was.\<close>

definition store_append ::
  "memory_store \<Rightarrow> new_revision \<Rightarrow> base_state option \<Rightarrow> revision_info result \<times> memory_store" where
  "store_append m r base =
     (case state_append (state m) r base of
        Inl e \<Rightarrow> (Err e, m)
      | Inr (st, info) \<Rightarrow> (Ok info, m\<lparr>state := st\<rparr>))"

definition store_header :: "memory_store \<Rightarrow> string \<Rightarrow> string result" where
  "store_header m r =
     rbind (st_info (state m) r) (\<lambda>i.
     rbind (ok_or (map_of (lines (state m)) (ri_line i)) E_UNAVAILABLE) (\<lambda>l. Ok (ln_header l)))"

definition store_get ::
  "memory_store \<Rightarrow> string \<Rightarrow> namespace \<Rightarrow> string \<Rightarrow> stored_fact option result" where
  "store_get m r ns i =
     rbind (st_info (state m) r) (\<lambda>info.
       Ok (map_option (\<lambda>ix. mv_fact (versions (state m) ! ix))
             (live_index (state m) (ri_line info) (ri_seq info) (ns, i))))"

definition store_select ::
  "memory_store \<Rightarrow> string \<Rightarrow> fact_filter \<Rightarrow> nat \<Rightarrow> stored_fact list result" where
  "store_select m r f limit =
     rbind (st_info (state m) r) (\<lambda>info.
       (let facts = map mv_fact (filter (\<lambda>v. filter_matches f (mv_fact v))
              (live_at (state m) (ri_line info) (ri_seq info)))
        in if limit < length facts then Err E_BUDGET else Ok (order_facts facts)))"

text \<open>The trait's default \<open>scan\<close>: it materializes the selection and visits it in order.\<close>

definition store_scan ::
  "memory_store \<Rightarrow> string \<Rightarrow> fact_filter \<Rightarrow> ('s \<Rightarrow> stored_fact \<Rightarrow> 's result) \<Rightarrow> 's \<Rightarrow> 's result" where
  "store_scan m r f visit s =
     rbind (store_select m r f (usize_max - 1)) (\<lambda>facts. try_fold visit s facts)"

definition log_range :: "mem_state \<Rightarrow> revision_info \<Rightarrow> (int \<times> fact_op) list" where
  "log_range st i =
     filter (\<lambda>(pos, p). ri_first_position i \<le> pos \<and> pos < ri_first_position i + ri_op_count i) (log st)"

definition store_ops :: "memory_store \<Rightarrow> string \<Rightarrow> logged_op list result" where
  "store_ops m r =
     rbind (st_info (state m) r) (\<lambda>info.
       Ok (map (\<lambda>(pos, p). \<lparr>lo_position = pos, lo_op = p\<rparr>) (log_range (state m) info)))"

text \<open>The window of sequence numbers whose operations may differ between the two states.\<close>

definition change_window ::
  "mem_state \<Rightarrow> string option \<Rightarrow> revision_info \<Rightarrow> line \<Rightarrow> (int \<times> int) option" where
  "change_window st from_rev info l =
     (case (case from_rev of None \<Rightarrow> None | Some f \<Rightarrow> map_of (revisions st) f) of
        Some other \<Rightarrow>
          if ri_line other = ri_line info
          then Some (min (ri_seq other) (ri_seq info), max (ri_seq other) (ri_seq info))
          else if from_rev = ln_base_parent l then Some (0, ri_seq info)
          else None
      | None \<Rightarrow> if from_rev = ln_base_parent l then Some (0, ri_seq info) else None)"

definition window_keys :: "mem_state \<Rightarrow> int \<Rightarrow> int \<Rightarrow> int \<Rightarrow> (namespace \<times> string) btree_set" where
  "window_keys st ln low high =
     fold (\<lambda>(_, i) keys.
       if ri_line i \<noteq> ln \<or> ri_seq i \<le> low \<or> high < ri_seq i then keys
       else fold (\<lambda>(_, p) ks. bs_insert (op_key p) ks) (log_range st i) keys)
       (revisions st) []"

definition store_changed_keys ::
  "memory_store \<Rightarrow> string option \<Rightarrow> string \<Rightarrow> nat \<Rightarrow> (namespace \<times> string) list option result" where
  "store_changed_keys m from_rev to limit =
     rbind (st_info (state m) to) (\<lambda>info.
     rbind (ok_or (map_of (lines (state m)) (ri_line info)) E_UNAVAILABLE) (\<lambda>l.
       case change_window (state m) from_rev info l of
         None \<Rightarrow> Ok None
       | Some (low, high) \<Rightarrow>
           (let keys = window_keys (state m) (ri_line info) low high in
            if limit < length keys then Err E_BUDGET else Ok (Some keys))))"

definition put_checkpoint :: "memory_store \<Rightarrow> string \<Rightarrow> string \<Rightarrow> unit result \<times> memory_store" where
  "put_checkpoint m r body =
     (case st_info (state m) r of
        Inl e \<Rightarrow> (Err e, m)
      | Inr _ \<Rightarrow>
          if max_checkpoint_bytes < length body then (Err E_BUDGET, m)
          else (Ok (), m\<lparr>state := (state m)\<lparr>checkpoints := bm_insert r body (checkpoints (state m))\<rparr>\<rparr>))"

definition get_checkpoint :: "memory_store \<Rightarrow> string \<Rightarrow> string option result" where
  "get_checkpoint m r = rbind (st_info (state m) r) (\<lambda>_. Ok (map_of (checkpoints (state m)) r))"

definition drop_checkpoint :: "memory_store \<Rightarrow> string \<Rightarrow> bool result \<times> memory_store" where
  "drop_checkpoint m r =
     (Ok (map_of (checkpoints (state m)) r \<noteq> None),
      m\<lparr>state := (state m)\<lparr>checkpoints := bm_remove r (checkpoints (state m))\<rparr>\<rparr>)"

end
