(* ===== verification/Memory_Snapshots.thy ===== *)
theory Memory_Snapshots
  imports Memory_Store
begin

text \<open>
  The abstract view of the memory backend: the facts live at a point of a line (\<open>snapshot\<close>) and the
  map from keys to facts they form (\<open>content\<close>). The lemmas give the effect of each step of
  \<open>append\<close> on every snapshot: earlier points never change, the new point is the old content with the
  operations applied.
\<close>

section \<open>Snapshots and contents\<close>

definition fkey :: "stored_fact \<Rightarrow> namespace \<times> string" where
  "fkey f = version_key (sf_version f)"

definition snapshot :: "mem_state \<Rightarrow> int \<Rightarrow> int \<Rightarrow> stored_fact list" where
  "snapshot st ln sq = map mv_fact (live_at st ln sq)"

definition content :: "mem_state \<Rightarrow> int \<Rightarrow> int \<Rightarrow> namespace \<times> string \<Rightarrow> stored_fact option" where
  "content st ln sq k = List.find (\<lambda>f. fkey f = k) (snapshot st ln sq)"

lemma mv_key_fkey: "mv_key v = fkey (mv_fact v)"
  by (simp add: mv_key_def fkey_def)

lemma find_position_find:
  "map_option (\<lambda>i. xs ! i) (find_position P xs) = List.find P xs"
  by (induction xs) (auto simp: option.map_comp o_def)

lemma find_map_filter:
  "map_option g (List.find (\<lambda>x. P x \<and> Q (g x)) xs) = List.find Q (map g (filter P xs))"
  by (induction xs) auto

lemma live_index_content:
  "map_option (\<lambda>i. mv_fact (versions st ! i)) (live_index st ln sq k) = content st ln sq k"
proof -
  have "map_option (\<lambda>i. mv_fact (versions st ! i)) (live_index st ln sq k)
      = map_option mv_fact (List.find (\<lambda>v. live ln sq v \<and> mv_key v = k) (versions st))"
    unfolding live_index_def
    by (subst find_position_find [symmetric]) (simp add: option.map_comp o_def)
  also have "\<dots> = content st ln sq k"
    unfolding content_def snapshot_def live_at_def mv_key_fkey
    by (rule find_map_filter [where Q = "\<lambda>f. fkey f = k"])
  finally show ?thesis .
qed

lemma store_get_content:
  "store_get m r ns i =
     rbind (st_info (state m) r)
       (\<lambda>info. Ok (content (state m) (ri_line info) (ri_seq info) (ns, i)))"
  by (simp add: store_get_def live_index_content)

lemma store_select_snapshot:
  "store_select m r f limit =
     rbind (st_info (state m) r) (\<lambda>info.
       (let facts = filter (filter_matches f) (snapshot (state m) (ri_line info) (ri_seq info)) in
        if limit < length facts then Err E_BUDGET else Ok (order_facts facts)))"
  by (simp add: store_select_def snapshot_def filter_map o_def)

lemma find_Some_iff_distinct:
  assumes "distinct (map key xs)"
  shows "List.find (\<lambda>x. key x = k) xs = Some y \<longleftrightarrow> y \<in> set xs \<and> key y = k"
  using assms by (induction xs) force+

lemma content_Some_iff:
  assumes "distinct (map fkey (snapshot st ln sq))"
  shows "content st ln sq k = Some f \<longleftrightarrow> f \<in> set (snapshot st ln sq) \<and> fkey f = k"
  unfolding content_def by (rule find_Some_iff_distinct [OF assms])

lemma content_None_iff: "content st ln sq k = None \<longleftrightarrow> k \<notin> fkey ` set (snapshot st ln sq)"
  by (auto simp: content_def find_None_iff)

lemma find_filter_ne:
  "List.find (\<lambda>x. key x = k) (filter (\<lambda>x. key x \<noteq> k') xs) =
     (if k = k' then None else List.find (\<lambda>x. key x = k) xs)"
  by (induction xs) auto

lemma find_append:
  "List.find P (xs @ ys) = (case List.find P xs of None \<Rightarrow> List.find P ys | Some x \<Rightarrow> Some x)"
  by (induction xs) auto

section \<open>Pushing and ending versions\<close>

definition new_version :: "int \<Rightarrow> int \<Rightarrow> int \<Rightarrow> fact_version \<Rightarrow> recording \<Rightarrow> version" where
  "new_version ln sq pos v rc =
     \<lparr>mv_line = ln, mv_from_seq = sq, mv_until_seq = None,
      mv_fact = \<lparr>sf_position = pos, sf_version = v, sf_recording = rc\<rparr>\<rparr>"

lemma push_version_eq:
  "push_version ln sq v rc st =
     (st\<lparr>next_position := next_position st + 1,
         versions := versions st @ [new_version ln sq (next_position st) v rc]\<rparr>,
      next_position st)"
  by (simp add: push_version_def new_version_def Let_def)

lemma new_version_simps [simp]:
  "mv_line (new_version ln sq pos v rc) = ln"
  "mv_from_seq (new_version ln sq pos v rc) = sq"
  "mv_until_seq (new_version ln sq pos v rc) = None"
  "mv_fact (new_version ln sq pos v rc) = \<lparr>sf_position = pos, sf_version = v, sf_recording = rc\<rparr>"
  "live l s (new_version ln sq pos v rc) \<longleftrightarrow> l = ln \<and> sq \<le> s"
  by (auto simp: new_version_def live_def)

text \<open>The versions list alone decides the snapshots.\<close>

definition facts_at :: "version list \<Rightarrow> int \<Rightarrow> int \<Rightarrow> stored_fact list" where
  "facts_at vs ln sq = map mv_fact (filter (live ln sq) vs)"

lemma snapshot_facts_at: "snapshot st ln sq = facts_at (versions st) ln sq"
  by (simp add: snapshot_def live_at_def facts_at_def)

lemma facts_at_append [simp]: "facts_at (xs @ ys) ln sq = facts_at xs ln sq @ facts_at ys ln sq"
  by (simp add: facts_at_def)

lemma facts_at_simps [simp]:
  "facts_at [] ln sq = []"
  "facts_at (v # vs) ln sq = (if live ln sq v then [mv_fact v] else []) @ facts_at vs ln sq"
  by (simp_all add: facts_at_def)

text \<open>Ending, from sequence \<open>sq\<close> on, a version live at \<open>sq - 1\<close>.\<close>

lemma live_ended_earlier:
  assumes "live ln (sq - 1) v" and "l \<noteq> ln \<or> s < sq"
  shows "live l s (v\<lparr>mv_until_seq := Some sq\<rparr>) = live l s v"
  using assms by (auto simp: live_def split: option.splits)

lemma facts_at_end_earlier:
  assumes "i < length vs" and "live ln (sq - 1) (vs ! i)" and "l \<noteq> ln \<or> s < sq"
  shows "facts_at (vs[i := (vs ! i)\<lparr>mv_until_seq := Some sq\<rparr>]) l s = facts_at vs l s"
proof -
  have split: "vs = take i vs @ vs ! i # drop (Suc i) vs"
    using assms(1) by (rule id_take_nth_drop)
  have upd: "vs[i := w] = take i vs @ w # drop (Suc i) vs" for w
    using assms(1) by (rule upd_conv_take_nth_drop)
  have "facts_at vs l s = facts_at (take i vs @ vs ! i # drop (Suc i) vs) l s"
    by (rule arg_cong [OF split])
  then show ?thesis
    unfolding upd by (simp add: live_ended_earlier [OF assms(2,3)])
qed

lemma live_ended_now: "\<not> live ln sq (v\<lparr>mv_until_seq := Some sq\<rparr>)"
  by (simp add: live_def)

lemma facts_at_end_now:
  assumes i: "i < length vs"
    and cur: "fkey (mv_fact (vs ! i)) = k"
    and only: "\<And>j. j < length vs \<Longrightarrow> live ln sq (vs ! j) \<Longrightarrow> fkey (mv_fact (vs ! j)) = k \<Longrightarrow> j = i"
  shows "facts_at (vs[i := (vs ! i)\<lparr>mv_until_seq := Some sq\<rparr>]) ln sq
       = filter (\<lambda>f. fkey f \<noteq> k) (facts_at vs ln sq)"
proof -
  have split: "vs = take i vs @ vs ! i # drop (Suc i) vs"
    using i by (rule id_take_nth_drop)
  have upd: "vs[i := w] = take i vs @ w # drop (Suc i) vs" for w
    using i by (rule upd_conv_take_nth_drop)
  have other_position: thesis
    if "v \<in> set ws" and "ws = take i vs \<or> ws = drop (Suc i) vs"
      and found: "\<And>j. j < length vs \<Longrightarrow> j \<noteq> i \<Longrightarrow> v = vs ! j \<Longrightarrow> thesis"
    for v ws thesis
    using that(2)
  proof
    assume "ws = take i vs"
    with that(1) obtain j where "j < i" "j < length vs" "v = vs ! j"
      by (auto simp: in_set_conv_nth)
    with found show thesis by simp
  next
    assume "ws = drop (Suc i) vs"
    with that(1) obtain j where j: "j < length vs - Suc i" "v = drop (Suc i) vs ! j"
      by (auto simp: in_set_conv_nth)
    then have "Suc i + j < length vs" and "v = vs ! (Suc i + j)" by simp_all
    with found [of "Suc i + j"] show thesis by simp
  qed
  have keep: "filter (\<lambda>f. fkey f \<noteq> k) (facts_at ws ln sq) = facts_at ws ln sq"
    if part: "ws = take i vs \<or> ws = drop (Suc i) vs" for ws
  proof -
    have "fkey (mv_fact v) \<noteq> k" if v: "v \<in> set ws" and lv: "live ln sq v" for v
    proof
      assume key: "fkey (mv_fact v) = k"
      from v part obtain j where "j < length vs" "j \<noteq> i" "v = vs ! j"
        by (rule other_position)
      with only lv key show False by blast
    qed
    then show ?thesis by (induction ws) (auto simp: facts_at_def filter_empty_conv)
  qed
  have "facts_at vs ln sq = facts_at (take i vs @ vs ! i # drop (Suc i) vs) ln sq"
    by (rule arg_cong [OF split])
  then show ?thesis
    unfolding upd by (simp add: live_ended_now keep cur)
qed

section \<open>The effect of one operation\<close>

text \<open>
  While the operations of sequence \<open>sq\<close> run on line \<open>ln\<close>, no version of the line starts or ends
  after \<open>sq\<close>; \<open>started\<close> collects the keys the revision has asserted so far.
\<close>

definition line_bounded :: "version list \<Rightarrow> int \<Rightarrow> int \<Rightarrow> bool" where
  "line_bounded vs ln sq \<longleftrightarrow>
     (\<forall>v \<in> set vs. mv_line v = ln \<longrightarrow> mv_from_seq v \<le> sq
        \<and> (case mv_until_seq v of None \<Rightarrow> True | Some u \<Rightarrow> u \<le> sq))"

definition started :: "version list \<Rightarrow> int \<Rightarrow> int \<Rightarrow> (namespace \<times> string) set" where
  "started vs ln sq = mv_key ` {v \<in> set vs. mv_line v = ln \<and> mv_from_seq v = sq}"

fun op_fact :: "int \<Rightarrow> recording \<Rightarrow> fact_op \<Rightarrow> stored_fact list" where
  "op_fact pos rc (AssertOp v) = [\<lparr>sf_position = pos, sf_version = v, sf_recording = rc\<rparr>]"
| "op_fact pos rc (RetractOp k i) = []"

lemma started_append [simp]: "started (xs @ ys) ln sq = started xs ln sq \<union> started ys ln sq"
  by (auto simp: started_def)

lemma started_Cons [simp]:
  "started (v # vs) ln sq =
     (if mv_line v = ln \<and> mv_from_seq v = sq then {mv_key v} else {}) \<union> started vs ln sq"
  by (auto simp: started_def)

lemma started_Nil [simp]: "started [] ln sq = {}"
  by (simp add: started_def)

lemma started_update:
  assumes i: "i < length vs" and "mv_from_seq (vs ! i) \<noteq> sq" and "mv_from_seq w \<noteq> sq"
  shows "started (vs[i := w]) ln sq = started vs ln sq"
proof -
  have "started vs ln sq = started (take i vs @ vs ! i # drop (Suc i) vs) ln sq"
    using id_take_nth_drop [OF i] by metis
  with assms show ?thesis by (simp add: upd_conv_take_nth_drop)
qed

lemma distinct_facts_index:
  assumes "distinct (map fkey (facts_at vs ln sq))"
    and "i < length vs" "live ln sq (vs ! i)" "j < length vs" "live ln sq (vs ! j)"
    and "fkey (mv_fact (vs ! i)) = fkey (mv_fact (vs ! j))"
  shows "i = j"
  using assms
proof (induction vs arbitrary: i j)
  case Nil
  then show ?case by simp
next
  case (Cons v vs)
  have mem: "fkey (mv_fact (vs ! n)) \<in> fkey ` set (facts_at vs ln sq)"
    if "n < length vs" "live ln sq (vs ! n)" for n
    using that by (auto simp: facts_at_def)
  have dist: "distinct (map fkey (facts_at vs ln sq))"
    using Cons.prems(1) by (auto split: if_splits)
  have head: "fkey (mv_fact v) \<notin> fkey ` set (facts_at vs ln sq)" if "live ln sq v"
    using Cons.prems(1) that by simp
  show ?case
  proof (cases i; cases j)
    fix m n assume "i = Suc m" "j = Suc n"
    with Cons.prems Cons.IH [OF dist, of m n] show "i = j" by simp
  next
    fix n assume "i = 0" "j = Suc n"
    with Cons.prems mem [of n] head show "i = j" by auto
  next
    fix n assume "i = Suc n" "j = 0"
    with Cons.prems mem [of n] head show "i = j" by auto
  qed simp
qed

lemma find_position_SomeD:
  "find_position P xs = Some i \<Longrightarrow> i < length xs \<and> P (xs ! i)"
  by (induction xs arbitrary: i) (auto split: if_splits)

lemma find_position_NoneD: "find_position P xs = None \<Longrightarrow> x \<in> set xs \<Longrightarrow> \<not> P x"
  by (induction xs) (auto split: if_splits)

lemma live_now_live_before:
  assumes "line_bounded vs ln sq" and "v \<in> set vs" and "live ln sq v" and "mv_key v \<notin> started vs ln sq"
  shows "live ln (sq - 1) v"
  using assms by (force simp: line_bounded_def started_def live_def split: option.splits)

lemma filter_other_keys:
  assumes "\<And>v. v \<in> set vs \<Longrightarrow> live ln sq v \<Longrightarrow> mv_key v \<noteq> k"
  shows "filter (\<lambda>f. fkey f \<noteq> k) (facts_at vs ln sq) = facts_at vs ln sq"
  using assms by (auto simp: facts_at_def filter_id_conv mv_key_fkey)

text \<open>What ending the live version of a key, if there is one, does.\<close>

definition end_key :: "int \<Rightarrow> int \<Rightarrow> namespace \<times> string \<Rightarrow> mem_state \<Rightarrow> mem_state" where
  "end_key ln sq k st =
     (case live_index st ln (sq - 1) k of None \<Rightarrow> st | Some i \<Rightarrow> end_version i sq st)"

lemma end_key_frame [simp]:
  "lines (end_key ln sq k st) = lines st"
  "revisions (end_key ln sq k st) = revisions st"
  "checkpoints (end_key ln sq k st) = checkpoints st"
  "next_position (end_key ln sq k st) = next_position st"
  "log (end_key ln sq k st) = log st"
  by (auto simp: end_key_def end_version_def split: option.splits)

lemma end_key_versions:
  assumes bounded: "line_bounded (versions st) ln sq"
    and dist: "distinct (map fkey (snapshot st ln (sq - 1)))"
    and fresh: "k \<notin> started (versions st) ln sq"
  shows "l \<noteq> ln \<or> s < sq \<Longrightarrow> snapshot (end_key ln sq k st) l s = snapshot st l s"
    and "snapshot (end_key ln sq k st) ln sq = filter (\<lambda>f. fkey f \<noteq> k) (snapshot st ln sq)"
    and "line_bounded (versions (end_key ln sq k st)) ln sq"
    and "started (versions (end_key ln sq k st)) ln sq = started (versions st) ln sq"
proof -
  let ?vs = "versions st"
  have all: "(l \<noteq> ln \<or> s < sq \<longrightarrow> snapshot (end_key ln sq k st) l s = snapshot st l s)
    \<and> snapshot (end_key ln sq k st) ln sq = filter (\<lambda>f. fkey f \<noteq> k) (snapshot st ln sq)
    \<and> line_bounded (versions (end_key ln sq k st)) ln sq
    \<and> started (versions (end_key ln sq k st)) ln sq = started ?vs ln sq" for l s
  proof (cases "live_index st ln (sq - 1) k")
    case None
    have "mv_key v \<noteq> k" if "v \<in> set ?vs" "live ln sq v" for v
      using find_position_NoneD [OF None [unfolded live_index_def] that(1)]
        live_now_live_before [OF bounded that] fresh by auto
    then show ?thesis
      using bounded by (simp add: end_key_def None snapshot_facts_at filter_other_keys)
  next
    case (Some i)
    then have i: "i < length ?vs" and live: "live ln (sq - 1) (?vs ! i)" and key: "mv_key (?vs ! i) = k"
      using find_position_SomeD unfolding live_index_def by force+
    let ?w = "(?vs ! i)\<lparr>mv_until_seq := Some sq\<rparr>"
    have only: "j = i" if "j < length ?vs" "live ln sq (?vs ! j)" "fkey (mv_fact (?vs ! j)) = k" for j
    proof -
      have "live ln (sq - 1) (?vs ! j)"
        using that fresh by (intro live_now_live_before [OF bounded]) (auto simp: mv_key_fkey)
      with that i live key dist show ?thesis
        by (intro distinct_facts_index [of ?vs ln "sq - 1"]) (auto simp: snapshot_facts_at mv_key_fkey)
    qed
    have sub: "set (?vs[i := ?w]) \<subseteq> insert ?w (set ?vs)"
      by (rule set_update_subset_insert)
    have w: "mv_line ?w = ln" "mv_from_seq ?w < sq" "mv_until_seq ?w = Some sq"
      using live by (auto simp: live_def)
    have starts: "started (?vs[i := ?w]) ln sq = started ?vs ln sq"
      using w(2) by (intro started_update [OF i]) auto
    have "line_bounded (?vs[i := ?w]) ln sq"
      using bounded sub w unfolding line_bounded_def by fastforce
    with i key live only starts show ?thesis
      by (simp add: end_key_def Some end_version_def snapshot_facts_at facts_at_end_earlier
          facts_at_end_now mv_key_fkey)
  qed
  show "l \<noteq> ln \<or> s < sq \<Longrightarrow> snapshot (end_key ln sq k st) l s = snapshot st l s"
    using all by blast
  show "snapshot (end_key ln sq k st) ln sq = filter (\<lambda>f. fkey f \<noteq> k) (snapshot st ln sq)"
    and "line_bounded (versions (end_key ln sq k st)) ln sq"
    and "started (versions (end_key ln sq k st)) ln sq = started ?vs ln sq"
    using all by blast+
qed

end
