(* ===== verification/Memory_Laws.thy ===== *)
theory Memory_Laws
  imports Memory_Snapshots
begin

text \<open>
  The invariant of the memory backend and what \<open>append\<close> does under it: the operations of a
  revision as a map update, the frame of every earlier point, and the preservation of the invariant.
\<close>

section \<open>A list of operations\<close>

fun apply_facts :: "int \<Rightarrow> recording \<Rightarrow> stored_fact list \<Rightarrow> fact_op list \<Rightarrow> stored_fact list" where
  "apply_facts pos rc fs [] = fs"
| "apply_facts pos rc fs (p # ps) =
     apply_facts (pos + 1) rc (filter (\<lambda>f. fkey f \<noteq> op_key p) fs @ op_fact pos rc p) ps"

fun op_outcome ::
  "int \<Rightarrow> recording \<Rightarrow> fact_op list \<Rightarrow> namespace \<times> string \<Rightarrow> stored_fact option option" where
  "op_outcome pos rc [] k = None"
| "op_outcome pos rc (p # ps) k =
     (if op_key p = k then
        Some (case p of AssertOp v \<Rightarrow> Some \<lparr>sf_position = pos, sf_version = v, sf_recording = rc\<rparr>
              | RetractOp _ _ \<Rightarrow> None)
      else op_outcome (pos + 1) rc ps k)"

fun enum_ops :: "int \<Rightarrow> fact_op list \<Rightarrow> (int \<times> fact_op) list" where
  "enum_ops pos [] = []"
| "enum_ops pos (p # ps) = (pos, p) # enum_ops (pos + 1) ps"

lemma op_outcome_None_iff: "op_outcome pos rc ps k = None \<longleftrightarrow> k \<notin> op_key ` set ps"
  by (induction ps arbitrary: pos) auto

lemma set_enum_ops: "snd ` set (enum_ops pos ps) = set ps"
  by (induction ps arbitrary: pos) auto

lemma enum_ops_positions: "(q, p) \<in> set (enum_ops pos ps) \<Longrightarrow> pos \<le> q \<and> q < pos + int (length ps)"
  by (induction ps arbitrary: pos) force+

lemma fkey_op_fact: "f \<in> set (op_fact pos rc p) \<Longrightarrow> fkey f = op_key p"
  by (cases p) (auto simp: fkey_def)

lemma find_op_fact:
  "List.find (\<lambda>f. fkey f = k) (op_fact pos rc p) =
     (if op_key p = k
      then (case p of AssertOp v \<Rightarrow> Some \<lparr>sf_position = pos, sf_version = v, sf_recording = rc\<rparr>
            | RetractOp _ _ \<Rightarrow> None)
      else None)"
  by (cases p) (auto simp: fkey_def)

lemma find_apply_facts:
  "distinct (map op_key ps) \<Longrightarrow>
   List.find (\<lambda>f. fkey f = k) (apply_facts pos rc fs ps) =
     (case op_outcome pos rc ps k of None \<Rightarrow> List.find (\<lambda>f. fkey f = k) fs | Some r \<Rightarrow> r)"
proof (induction ps arbitrary: pos fs)
  case Nil
  then show ?case by simp
next
  case (Cons p ps)
  have "op_outcome (pos + 1) rc ps (op_key p) = None"
    using Cons.prems by (simp add: op_outcome_None_iff)
  with Cons show ?case
    by (auto simp: find_append find_filter_ne find_op_fact split: option.splits)
qed

lemma distinct_apply_facts:
  "distinct (map fkey fs) \<Longrightarrow> distinct (map fkey (apply_facts pos rc fs ps))"
proof (induction ps arbitrary: pos fs)
  case Nil
  then show ?case by simp
next
  case (Cons p ps)
  have one: "distinct (map fkey (op_fact pos rc p))" by (cases p) simp_all
  have "distinct (map fkey (filter (\<lambda>f. fkey f \<noteq> op_key p) fs @ op_fact pos rc p))"
    using Cons.prems one fkey_op_fact by (fastforce simp: distinct_map_filter)
  with Cons.IH show ?case by simp
qed

definition op_versions :: "int \<Rightarrow> int \<Rightarrow> recording \<Rightarrow> int \<Rightarrow> fact_op \<Rightarrow> version list" where
  "op_versions ln sq rc pos p =
     (case p of AssertOp v \<Rightarrow> [new_version ln sq pos v rc] | RetractOp _ _ \<Rightarrow> [])"

text \<open>A successful operation in closed form.\<close>

definition op_step :: "int \<Rightarrow> int \<Rightarrow> recording \<Rightarrow> fact_op \<Rightarrow> mem_state \<Rightarrow> mem_state" where
  "op_step ln sq rc p st =
     (let s = end_key ln sq (op_key p) st in
      s\<lparr>next_position := next_position s + 1,
        versions := versions s @ op_versions ln sq rc (next_position s) p,
        log := bm_insert (next_position s) p (log s)\<rparr>)"

lemma apply_op_step: "apply_op ln sq rc st p = Inr st' \<Longrightarrow> st' = op_step ln sq rc p st"
  by (cases p)
    (auto simp: apply_op_def op_step_def end_key_def op_versions_def push_version_eq Let_def
      split: option.splits if_splits)

lemma op_versions_facts:
  "facts_at (op_versions ln sq rc pos p) l s =
     (if l = ln \<and> sq \<le> s then op_fact pos rc p else [])"
  by (cases p) (auto simp: op_versions_def)

lemma op_versions_started: "started (op_versions ln sq rc pos p) ln sq \<subseteq> {op_key p}"
  by (cases p) (auto simp: op_versions_def mv_key_def)

lemma line_bounded_append [simp]:
  "line_bounded (xs @ ys) ln sq \<longleftrightarrow> line_bounded xs ln sq \<and> line_bounded ys ln sq"
  by (auto simp: line_bounded_def)

lemma op_versions_bounded: "line_bounded (op_versions ln sq rc pos p) ln sq"
  by (cases p) (auto simp: op_versions_def line_bounded_def)

lemma op_step_frame [simp]:
  "lines (op_step ln sq rc p st) = lines st"
  "revisions (op_step ln sq rc p st) = revisions st"
  "checkpoints (op_step ln sq rc p st) = checkpoints st"
  "next_position (op_step ln sq rc p st) = next_position st + 1"
  "log (op_step ln sq rc p st) = bm_insert (next_position st) p (log st)"
  by (simp_all add: op_step_def Let_def)

lemma op_step_effect:
  assumes "line_bounded (versions st) ln sq"
    and "distinct (map fkey (snapshot st ln (sq - 1)))"
    and "op_key p \<notin> started (versions st) ln sq"
  shows "l \<noteq> ln \<or> s < sq \<Longrightarrow> snapshot (op_step ln sq rc p st) l s = snapshot st l s"
    and "snapshot (op_step ln sq rc p st) ln sq
         = filter (\<lambda>f. fkey f \<noteq> op_key p) (snapshot st ln sq) @ op_fact (next_position st) rc p"
    and "line_bounded (versions (op_step ln sq rc p st)) ln sq"
    and "started (versions (op_step ln sq rc p st)) ln sq \<subseteq> insert (op_key p) (started (versions st) ln sq)"
proof -
  note ended = end_key_versions [OF assms]
  show "snapshot (op_step ln sq rc p st) l s = snapshot st l s" if "l \<noteq> ln \<or> s < sq"
    using ended(1) [OF that] that
    by (auto simp: op_step_def Let_def snapshot_facts_at op_versions_facts)
  show "snapshot (op_step ln sq rc p st) ln sq
      = filter (\<lambda>f. fkey f \<noteq> op_key p) (snapshot st ln sq) @ op_fact (next_position st) rc p"
    using ended(2) by (simp add: op_step_def Let_def snapshot_facts_at op_versions_facts)
  show "line_bounded (versions (op_step ln sq rc p st)) ln sq"
    using ended(3) by (simp add: op_step_def Let_def op_versions_bounded)
  show "started (versions (op_step ln sq rc p st)) ln sq \<subseteq> insert (op_key p) (started (versions st) ln sq)"
    using ended(4) op_versions_started [of ln sq rc "next_position st" p]
    by (auto simp: op_step_def Let_def)
qed

lemma bm_insert_last:
  "\<forall>x \<in> fst ` set m. x < k \<Longrightarrow> bm_insert k v m = m @ [(k, v)]"
  by (induction m) auto

lemma apply_ops_frame:
  "try_fold (apply_op ln sq rc) st ps = Inr st' \<Longrightarrow>
     lines st' = lines st \<and> revisions st' = revisions st \<and> checkpoints st' = checkpoints st
     \<and> next_position st' = next_position st + int (length ps)"
  by (induction ps arbitrary: st) (auto dest!: apply_op_step)

lemma apply_ops_log:
  "try_fold (apply_op ln sq rc) st ps = Inr st' \<Longrightarrow> \<forall>x \<in> fst ` set (log st). x < next_position st \<Longrightarrow>
     log st' = log st @ enum_ops (next_position st) ps
     \<and> (\<forall>x \<in> fst ` set (log st'). x < next_position st')"
proof (induction ps arbitrary: st)
  case Nil
  then show ?case by simp
next
  case (Cons p ps)
  then obtain s where s: "s = op_step ln sq rc p st" and rest: "try_fold (apply_op ln sq rc) s ps = Inr st'"
    by (auto dest!: apply_op_step)
  have log: "log s = log st @ [(next_position st, p)]"
    using Cons.prems(2) by (simp add: s bm_insert_last)
  with Cons.prems(2) have "\<forall>x \<in> fst ` set (log s). x < next_position s"
    by (fastforce simp: s)
  note ih = Cons.IH [OF rest this]
  have "log st' = log st @ enum_ops (next_position st) (p # ps)"
    using ih log by (simp add: s)
  with ih show ?case by blast
qed

lemma disjoint_grown: "x \<notin> A \<Longrightarrow> A \<inter> B = {} \<Longrightarrow> C \<subseteq> insert x B \<Longrightarrow> A \<inter> C = {}"
  by blast

lemma apply_ops_effect:
  assumes "try_fold (apply_op ln sq rc) st ps = Inr st'"
    and "line_bounded (versions st) ln sq"
    and "distinct (map fkey (snapshot st ln (sq - 1)))"
    and "distinct (map op_key ps)"
    and "op_key ` set ps \<inter> started (versions st) ln sq = {}"
  shows "(\<forall>l s. l \<noteq> ln \<or> s < sq \<longrightarrow> snapshot st' l s = snapshot st l s)
       \<and> snapshot st' ln sq = apply_facts (next_position st) rc (snapshot st ln sq) ps
       \<and> line_bounded (versions st') ln sq"
  using assms
proof (induction ps arbitrary: st)
  case Nil
  then show ?case by simp
next
  case (Cons p ps)
  then obtain s where s: "s = op_step ln sq rc p st" and rest: "try_fold (apply_op ln sq rc) s ps = Inr st'"
    by (auto dest!: apply_op_step)
  have fresh: "op_key p \<notin> started (versions st) ln sq" using Cons.prems(5) by auto
  note eff = op_step_effect [OF Cons.prems(2,3) fresh, where rc = rc, folded s]
  have "distinct (map fkey (snapshot s ln (sq - 1)))"
    using eff(1) [of ln "sq - 1"] Cons.prems(3) by simp
  moreover have "op_key ` set ps \<inter> started (versions s) ln sq = {}"
  proof -
    have "op_key p \<notin> op_key ` set ps" using Cons.prems(4) by simp
    moreover have "op_key ` set ps \<inter> started (versions st) ln sq = {}"
      using Cons.prems(5) by simp
    ultimately show ?thesis using eff(4) by (rule disjoint_grown)
  qed
  ultimately have "(\<forall>l t. l \<noteq> ln \<or> t < sq \<longrightarrow> snapshot st' l t = snapshot s l t)
       \<and> snapshot st' ln sq = apply_facts (next_position s) rc (snapshot s ln sq) ps
       \<and> line_bounded (versions st') ln sq"
    using Cons.IH [OF rest eff(3)] Cons.prems(4) by simp
  with eff(1,2) show ?case by (simp add: s)
qed

end
