(* ===== verification/Memory_Invariant.thy ===== *)
theory Memory_Invariant
  imports Memory_Laws
begin

text \<open>
  The well-formedness of the memory backend, and its preservation by \<open>append\<close>: revisions sit on
  existing lines at or below the tip, versions stay inside their line, every point of a line holds
  each key once, each point above a line's base is the work of a recorded revision and differs from
  the point before it only in that revision's keys, and recorded time never decreases along a line.
\<close>

section \<open>The invariant\<close>

definition info_ok :: "mem_state \<Rightarrow> revision_info \<Rightarrow> bool" where
  "info_ok st i \<longleftrightarrow>
     (\<exists>l. map_of (lines st) (ri_line i) = Some l \<and> 1 \<le> ri_seq i \<and> ri_seq i \<le> ln_tip l
          \<and> ln_graph_id l = ri_graph_id i)
     \<and> 0 \<le> ri_op_count i \<and> ri_first_position i + ri_op_count i \<le> next_position st"

definition version_ok :: "mem_state \<Rightarrow> version \<Rightarrow> bool" where
  "version_ok st v \<longleftrightarrow>
     (\<exists>l. map_of (lines st) (mv_line v) = Some l \<and> line_bounded [v] (mv_line v) (ln_tip l))"

definition made_by :: "mem_state \<Rightarrow> int \<Rightarrow> int \<Rightarrow> revision_info \<Rightarrow> bool" where
  "made_by st ln sq i \<longleftrightarrow> ri_line i = ln \<and> ri_seq i = sq
     \<and> (\<forall>k. k \<notin> op_key ` snd ` set (log_range st i) \<longrightarrow> content st ln sq k = content st ln (sq - 1) k)"

definition line_ok :: "mem_state \<Rightarrow> int \<Rightarrow> line \<Rightarrow> bool" where
  "line_ok st ln l \<longleftrightarrow> 0 \<le> ln_tip l
     \<and> (\<forall>s. 0 \<le> s \<longrightarrow> s \<le> ln_tip l \<longrightarrow> distinct (map fkey (snapshot st ln s)))
     \<and> (\<forall>s. 1 \<le> s \<longrightarrow> s \<le> ln_tip l \<longrightarrow> (\<exists>r i. map_of (revisions st) r = Some i \<and> made_by st ln s i))"

definition clock_ok :: "mem_state \<Rightarrow> bool" where
  "clock_ok st \<longleftrightarrow>
     (\<forall>r i r' j. map_of (revisions st) r = Some i \<longrightarrow> map_of (revisions st) r' = Some j \<longrightarrow>
        ri_line i = ri_line j \<longrightarrow> ri_seq i \<le> ri_seq j \<longrightarrow> ri_recorded_at_ms i \<le> ri_recorded_at_ms j)"

definition store_inv :: "mem_state \<Rightarrow> bool" where
  "store_inv st \<longleftrightarrow>
     bm_ok (lines st) \<and> bm_ok (revisions st) \<and> 0 \<le> next_position st
     \<and> (\<forall>x \<in> fst ` set (log st). x < next_position st)
     \<and> (\<forall>r i. map_of (revisions st) r = Some i \<longrightarrow> ri_revision i = r \<and> info_ok st i)
     \<and> (\<forall>v \<in> set (versions st). version_ok st v)
     \<and> (\<forall>ln l. map_of (lines st) ln = Some l \<longrightarrow> line_ok st ln l)
     \<and> clock_ok st"

lemma store_inv_empty: "store_inv empty_state"
  by (simp add: store_inv_def empty_state_def clock_ok_def)

lemma line_bounded_all:
  "line_bounded vs ln sq \<longleftrightarrow> (\<forall>v \<in> set vs. mv_line v = ln \<longrightarrow> line_bounded [v] ln sq)"
  by (auto simp: line_bounded_def)

lemma line_bounded_mono: "line_bounded vs ln sq \<Longrightarrow> sq \<le> sq' \<Longrightarrow> line_bounded vs ln sq'"
  by (fastforce simp: line_bounded_def split: option.splits)

lemma line_bounded_line:
  assumes "store_inv st" and "map_of (lines st) ln = Some l"
  shows "line_bounded (versions st) ln (ln_tip l)"
  using assms unfolding line_bounded_all [of "versions st"] store_inv_def version_ok_def by fastforce

lemma line_bounded_started: "line_bounded vs ln sq \<Longrightarrow> sq < sq' \<Longrightarrow> started vs ln sq' = {}"
  by (fastforce simp: line_bounded_def started_def)

lemma snapshot_at_tip:
  assumes "line_bounded (versions st) ln sq" and "sq \<le> s"
  shows "snapshot st ln s = snapshot st ln sq"
proof -
  have "live ln s v = live ln sq v" if "v \<in> set (versions st)" for v
    using assms that by (fastforce simp: line_bounded_def live_def split: option.splits)
  then show ?thesis
    unfolding snapshot_facts_at facts_at_def by (simp cong: filter_cong)
qed

section \<open>Starting a line\<close>

definition base_facts :: "int \<Rightarrow> (fact_version \<times> recording) list \<Rightarrow> stored_fact list" where
  "base_facts pos fs =
     map (\<lambda>(n, v, rc). \<lparr>sf_position = pos + int n, sf_version = v, sf_recording = rc\<rparr>)
       (zip [0..<length fs] fs)"

lemma base_facts_Cons:
  "base_facts pos ((v, rc) # fs) =
     \<lparr>sf_position = pos, sf_version = v, sf_recording = rc\<rparr> # base_facts (pos + 1) fs"
proof -
  have "zip [0..<Suc (length fs)] ((v, rc) # fs)
      = (0, v, rc) # map (\<lambda>(n, x). (Suc n, x)) (zip [0..<length fs] fs)"
    by (simp add: upt_conv_Cons map_Suc_upt [symmetric] zip_map1 del: upt_Suc)
  then show ?thesis
    by (simp add: base_facts_def case_prod_unfold o_def add_ac)
qed

lemma push_base_Cons:
  "push_base ln ((v, rc) # fs) st = push_base ln fs (fst (push_version ln 0 v rc st))"
  by (simp add: push_base_def)

lemma push_base_effect:
  "lines (push_base ln fs st) = lines st \<and> revisions (push_base ln fs st) = revisions st
   \<and> log (push_base ln fs st) = log st \<and> checkpoints (push_base ln fs st) = checkpoints st
   \<and> next_position (push_base ln fs st) = next_position st + int (length fs)
   \<and> (\<exists>vs. versions (push_base ln fs st) = versions st @ vs
        \<and> (\<forall>v \<in> set vs. mv_line v = ln \<and> mv_from_seq v = 0 \<and> mv_until_seq v = None)
        \<and> map mv_fact vs = base_facts (next_position st) fs)"
proof (induction fs arbitrary: st)
  case Nil
  show ?case by (simp add: push_base_def base_facts_def)
next
  case (Cons f fs)
  obtain v rc where f: "f = (v, rc)" by (cases f)
  let ?s = "fst (push_version ln 0 v rc st)"
  from Cons.IH [of ?s] obtain vs where
    vs: "versions (push_base ln fs ?s) = versions ?s @ vs"
      "\<forall>v \<in> set vs. mv_line v = ln \<and> mv_from_seq v = 0 \<and> mv_until_seq v = None"
      "map mv_fact vs = base_facts (next_position ?s) fs" by blast
  have "versions (push_base ln (f # fs) st) = versions st @ (new_version ln 0 (next_position st) v rc # vs)"
    using vs(1) by (simp add: f push_base_Cons push_version_eq)
  moreover have "map mv_fact (new_version ln 0 (next_position st) v rc # vs) = base_facts (next_position st) (f # fs)"
    using vs(3) by (simp add: f base_facts_Cons push_version_eq)
  moreover have "\<forall>w \<in> set (new_version ln 0 (next_position st) v rc # vs).
      mv_line w = ln \<and> mv_from_seq w = 0 \<and> mv_until_seq w = None"
    using vs(2) by simp
  ultimately show ?case
    using Cons.IH [of ?s] unfolding f push_base_Cons by (auto simp: push_version_eq)
qed

lemma map_fkey_base_facts: "map fkey (base_facts pos fs) = map (version_key \<circ> fst) fs"
  by (rule nth_equalityI) (auto simp: base_facts_def fkey_def case_prod_unfold)

lemma next_line_fresh:
  assumes "bm_ok (lines st)"
  shows "map_of (lines st) (next_line st) = None"
proof (cases "lines st" rule: rev_cases)
  case Nil
  then show ?thesis by (simp add: next_line_def)
next
  case (snoc m p)
  have "\<forall>x \<in> fst ` set (lines st). x < next_line st"
    using assms unfolding bm_ok_def snoc next_line_def
    by (auto simp: sorted_wrt_append intro: less_trans)
  then show ?thesis unfolding map_of_eq_None_iff by fastforce
qed

lemma made_by_cong:
  assumes "log_range st' i = log_range st i"
    and "snapshot st' ln s = snapshot st ln s" and "snapshot st' ln (s - 1) = snapshot st ln (s - 1)"
  shows "made_by st' ln s i = made_by st ln s i"
  using assms by (simp add: made_by_def content_def)

definition start_line :: "int \<Rightarrow> new_revision \<Rightarrow> base_state \<Rightarrow> mem_state \<Rightarrow> mem_state" where
  "start_line ln r b st =
     push_base ln (bs_facts b)
       (st\<lparr>lines := bm_insert ln
          \<lparr>ln_graph_id = nr_graph_id r, ln_header = bs_header b,
           ln_base_parent = nr_parent r, ln_tip = 0\<rparr> (lines st)\<rparr>)"

lemma no_versions_on_fresh_line:
  assumes "store_inv st" and "map_of (lines st) ln = None" and "v \<in> set (versions st)"
  shows "mv_line v \<noteq> ln"
  using assms unfolding store_inv_def version_ok_def by force

lemma start_line_versions:
  "\<exists>vs. versions (start_line ln r b st) = versions st @ vs
     \<and> (\<forall>v \<in> set vs. mv_line v = ln \<and> mv_from_seq v = 0 \<and> mv_until_seq v = None)
     \<and> map mv_fact vs = base_facts (next_position st) (bs_facts b)"
  unfolding start_line_def
  using push_base_effect [of ln "bs_facts b" "st\<lparr>lines := bm_insert ln
    \<lparr>ln_graph_id = nr_graph_id r, ln_header = bs_header b, ln_base_parent = nr_parent r, ln_tip = 0\<rparr>
    (lines st)\<rparr>"]
  by simp

lemma start_line_snapshots:
  assumes inv: "store_inv st" and fresh: "map_of (lines st) ln = None"
  shows "l \<noteq> ln \<Longrightarrow> snapshot (start_line ln r b st) l s = snapshot st l s"
    and "snapshot (start_line ln r b st) ln 0 = base_facts (next_position st) (bs_facts b)"
proof -
  obtain vs where vs: "versions (start_line ln r b st) = versions st @ vs"
    "\<forall>v \<in> set vs. mv_line v = ln \<and> mv_from_seq v = 0 \<and> mv_until_seq v = None"
    "map mv_fact vs = base_facts (next_position st) (bs_facts b)"
    using start_line_versions by blast
  show "snapshot (start_line ln r b st) l s = snapshot st l s" if "l \<noteq> ln"
    using vs(1,2) that by (auto simp: snapshot_facts_at facts_at_def filter_empty_conv live_def)
  have old: "facts_at (versions st) ln 0 = []"
    using no_versions_on_fresh_line [OF inv fresh] by (auto simp: facts_at_def filter_empty_conv live_def)
  have "filter (live ln 0) vs = vs"
    using vs(2) by (auto simp: filter_id_conv live_def)
  then show "snapshot (start_line ln r b st) ln 0 = base_facts (next_position st) (bs_facts b)"
    using vs(1,3) old by (simp add: snapshot_facts_at) (simp add: facts_at_def)
qed

lemma start_line_frame:
  "lines (start_line ln r b st) = bm_insert ln
     \<lparr>ln_graph_id = nr_graph_id r, ln_header = bs_header b, ln_base_parent = nr_parent r, ln_tip = 0\<rparr>
     (lines st)"
  "revisions (start_line ln r b st) = revisions st"
  "log (start_line ln r b st) = log st"
  "next_position (start_line ln r b st) = next_position st + int (length (bs_facts b))"
  by (simp_all add: start_line_def push_base_effect)

lemma start_line_inv:
  assumes inv: "store_inv st" and fresh: "map_of (lines st) ln = None"
    and dist: "distinct (map (version_key \<circ> fst) (bs_facts b))"
  shows "store_inv (start_line ln r b st)"
proof -
  let ?st = "start_line ln r b st"
  note frame = start_line_frame [of ln r b st]
  have "info_ok ?st i" if "info_ok st i" for i
    using that fresh by (auto simp: info_ok_def frame)
  moreover have "version_ok ?st v" if v: "v \<in> set (versions ?st)" for v
  proof -
    from start_line_versions [of ln r b st] v
    consider "v \<in> set (versions st)" | "mv_line v = ln \<and> mv_from_seq v = 0 \<and> mv_until_seq v = None"
      by auto
    then show ?thesis
    proof cases
      case 1
      with inv have "version_ok st v" by (simp add: store_inv_def)
      with no_versions_on_fresh_line [OF inv fresh 1] show ?thesis
        by (simp add: version_ok_def frame)
    next
      case 2
      then show ?thesis by (simp add: version_ok_def frame line_bounded_def)
    qed
  qed
  moreover have "line_ok ?st l x" if x: "map_of (lines ?st) l = Some x" for l x
  proof (cases "l = ln")
    case True
    then have "ln_tip x = 0" using x by (auto simp: frame)
    with True show ?thesis
      using start_line_snapshots(2) [OF inv fresh, of r b] dist
      by (auto simp: line_ok_def map_fkey_base_facts dest!: antisym)
  next
    case False
    then have "map_of (lines st) l = Some x" using x by (simp add: frame)
    with inv have "line_ok st l x" by (simp add: store_inv_def)
    moreover have "made_by ?st l s i = made_by st l s i" for s i
      using False by (intro made_by_cong start_line_snapshots(1) [OF inv fresh]) (simp_all add: log_range_def frame)
    ultimately show ?thesis
      using start_line_snapshots(1) [OF inv fresh False] by (simp add: line_ok_def frame)
  qed
  moreover have "clock_ok ?st" using inv by (simp add: store_inv_def clock_ok_def frame)
  ultimately show ?thesis
    using inv by (auto simp: store_inv_def frame)
qed

section \<open>Finishing a revision\<close>

lemma end_key_other_lines:
  "v \<in> set (versions (end_key ln sq k st)) \<Longrightarrow> mv_line v \<noteq> ln \<Longrightarrow> v \<in> set (versions st)"
proof (cases "live_index st ln (sq - 1) k")
  case None
  then show "v \<in> set (versions (end_key ln sq k st)) \<Longrightarrow> v \<in> set (versions st)"
    by (simp add: end_key_def)
next
  case (Some i)
  then have "mv_line (versions st ! i) = ln"
    using find_position_SomeD unfolding live_index_def by (force simp: live_def)
  with Some show "v \<in> set (versions (end_key ln sq k st)) \<Longrightarrow> mv_line v \<noteq> ln \<Longrightarrow> v \<in> set (versions st)"
    using set_update_subset_insert [of "versions st" i] by (fastforce simp: end_key_def end_version_def)
qed

lemma apply_ops_other_lines:
  "try_fold (apply_op ln sq rc) st ps = Inr st' \<Longrightarrow>
     v \<in> set (versions st') \<Longrightarrow> mv_line v \<noteq> ln \<Longrightarrow> v \<in> set (versions st)"
proof (induction ps arbitrary: st)
  case Nil
  then show ?case by simp
next
  case (Cons p ps)
  then obtain s where s: "s = op_step ln sq rc p st" and rest: "try_fold (apply_op ln sq rc) s ps = Inr st'"
    by (auto dest!: apply_op_step)
  have "v \<in> set (versions s)" using Cons.IH [OF rest Cons.prems(2,3)] .
  with Cons.prems(3) show ?case
    unfolding s by (cases p) (auto simp: op_step_def Let_def op_versions_def dest: end_key_other_lines)
qed

lemma log_range_append:
  "\<forall>x \<in> fst ` set new. ri_first_position i + ri_op_count i \<le> x \<Longrightarrow>
   log st' = log st @ new \<Longrightarrow> log_range st' i = log_range st i"
  by (fastforce simp: log_range_def filter_empty_conv)

lemma log_range_new:
  assumes "\<forall>x \<in> fst ` set (log st). x < pos"
    and "log st' = log st @ enum_ops pos ps"
    and "ri_first_position i = pos" and "ri_op_count i = int (length ps)"
  shows "log_range st' i = enum_ops pos ps"
proof -
  have "filter (\<lambda>(q, p). pos \<le> q \<and> q < pos + int (length ps)) (log st) = []"
    using assms(1) by (fastforce simp: filter_empty_conv)
  moreover have "filter (\<lambda>(q, p). pos \<le> q \<and> q < pos + int (length ps)) (enum_ops pos ps) = enum_ops pos ps"
    by (auto simp: filter_id_conv dest: enum_ops_positions)
  ultimately show ?thesis using assms(2-4) by (simp add: log_range_def)
qed

text \<open>Everything a successful \<open>finish_revision\<close> does, under the invariant.\<close>

lemma finish_effect:
  assumes inv: "store_inv st" and l: "map_of (lines st) ln = Some l" and tip: "ln_tip l = sq - 1"
    and ops: "distinct (map op_key (nr_ops r))"
    and fin: "finish_revision r st ln sq = Inr (st', info)"
  shows "info = revision_info_of r ln sq (next_position st)"
    and "lines st' = bm_insert ln (l\<lparr>ln_tip := sq\<rparr>) (lines st)"
    and "revisions st' = bm_insert (nr_revision r) info (revisions st)"
    and "next_position st' = next_position st + int (length (nr_ops r))"
    and "log st' = log st @ enum_ops (next_position st) (nr_ops r)"
    and "ln_graph_id l = nr_graph_id r"
    and "x \<noteq> ln \<or> s < sq \<Longrightarrow> snapshot st' x s = snapshot st x s"
    and "snapshot st' ln sq
         = apply_facts (next_position st) (revision_recording r) (snapshot st ln (sq - 1)) (nr_ops r)"
    and "line_bounded (versions st') ln sq"
    and "v \<in> set (versions st') \<Longrightarrow> mv_line v \<noteq> ln \<Longrightarrow> v \<in> set (versions st)"
proof -
  let ?rc = "revision_recording r"
  from fin obtain s where run: "try_fold (apply_op ln sq ?rc) st (nr_ops r) = Inr s"
    by (auto simp: finish_revision_def)
  note frame = apply_ops_frame [OF run]
  have st': "st' = s\<lparr>lines := bm_insert ln (l\<lparr>ln_tip := sq\<rparr>) (lines s),
      revisions := bm_insert (nr_revision r) info (revisions s)\<rparr>"
    and info: "info = revision_info_of r ln sq (next_position st)"
    and graph: "ln_graph_id l = nr_graph_id r"
    using fin run frame l by (auto simp: finish_revision_def Let_def split: if_splits)
  have keys: "\<forall>x \<in> fst ` set (log st). x < next_position st" using inv by (simp add: store_inv_def)
  have bounded: "line_bounded (versions st) ln (sq - 1)"
    using line_bounded_line [OF inv l] tip by simp
  have tip0: "0 \<le> ln_tip l" using inv l by (auto simp: store_inv_def line_ok_def)
  then have dist: "distinct (map fkey (snapshot st ln (sq - 1)))"
    using inv l tip by (auto simp: store_inv_def line_ok_def)
  have none: "started (versions st) ln sq = {}"
    using line_bounded_started [OF bounded] by simp
  have eff: "(\<forall>l t. l \<noteq> ln \<or> t < sq \<longrightarrow> snapshot s l t = snapshot st l t)
      \<and> snapshot s ln sq = apply_facts (next_position st) ?rc (snapshot st ln sq) (nr_ops r)
      \<and> line_bounded (versions s) ln sq"
    using apply_ops_effect [OF run _ dist ops] line_bounded_mono [OF bounded, of sq] none by simp
  have same: "snapshot st ln sq = snapshot st ln (sq - 1)"
    using snapshot_at_tip [OF bounded, of sq] by simp
  show "info = revision_info_of r ln sq (next_position st)" by (fact info)
  show "lines st' = bm_insert ln (l\<lparr>ln_tip := sq\<rparr>) (lines st)"
    and "revisions st' = bm_insert (nr_revision r) info (revisions st)"
    and "next_position st' = next_position st + int (length (nr_ops r))"
    using frame by (simp_all add: st')
  show "log st' = log st @ enum_ops (next_position st) (nr_ops r)"
    using apply_ops_log [OF run keys] by (simp add: st')
  show "ln_graph_id l = nr_graph_id r" by (fact graph)
  show "x \<noteq> ln \<or> s < sq \<Longrightarrow> snapshot st' x s = snapshot st x s" for x s
    using eff by (simp add: st' snapshot_facts_at)
  show "snapshot st' ln sq = apply_facts (next_position st) ?rc (snapshot st ln (sq - 1)) (nr_ops r)"
    and "line_bounded (versions st') ln sq"
    using eff same by (simp_all add: st' snapshot_facts_at)
  show "v \<in> set (versions st') \<Longrightarrow> mv_line v \<noteq> ln \<Longrightarrow> v \<in> set (versions st)"
    using apply_ops_other_lines [OF run] by (simp add: st')
qed

lemma finish_inv:
  assumes inv: "store_inv st" and l: "map_of (lines st) ln = Some l" and tip: "ln_tip l = sq - 1"
    and sq: "1 \<le> sq"
    and ops: "distinct (map op_key (nr_ops r))"
    and new: "map_of (revisions st) (nr_revision r) = None"
    and clock: "\<And>r' i. map_of (revisions st) r' = Some i \<Longrightarrow> ri_line i = ln \<Longrightarrow>
      ri_recorded_at_ms i \<le> nr_recorded_at_ms r"
    and fin: "finish_revision r st ln sq = Inr (st', info)"
  shows "store_inv st'"
proof -
  note eff = finish_effect [OF inv l tip ops fin]
  have info: "ri_line info = ln" "ri_seq info = sq" "ri_revision info = nr_revision r"
    "ri_graph_id info = nr_graph_id r" "ri_first_position info = next_position st"
    "ri_op_count info = int (length (nr_ops r))" "ri_recorded_at_ms info = nr_recorded_at_ms r"
    by (simp_all add: eff(1) revision_info_of_def)
  have keys: "\<forall>x \<in> fst ` set (log st). x < next_position st" using inv by (simp add: store_inv_def)
  have below: "ri_line i \<noteq> ln \<or> ri_seq i < sq" if "map_of (revisions st) r' = Some i" for r' i
    using inv that l tip by (fastforce simp: store_inv_def info_ok_def)
  have range_old: "log_range st' i = log_range st i" if "info_ok st i" for i
  proof (rule log_range_append [OF _ eff(5)])
    show "\<forall>x \<in> fst ` set (enum_ops (next_position st) (nr_ops r)). ri_first_position i + ri_op_count i \<le> x"
      using that by (auto simp: info_ok_def dest!: enum_ops_positions)
  qed
  have range_new: "log_range st' info = enum_ops (next_position st) (nr_ops r)"
    by (rule log_range_new [OF keys eff(5) info(5,6)])
  have "info_ok st' i" if "info_ok st i" for i
    using that l tip eff(4) by (auto simp: info_ok_def eff(2))
  moreover have "info_ok st' info"
    using sq eff(4,6) by (simp add: info_ok_def eff(2) info)
  moreover have "version_ok st' v" if v: "v \<in> set (versions st')" for v
  proof (cases "mv_line v = ln")
    case True
    with v eff(9) show ?thesis
      unfolding line_bounded_all [of "versions st'"] by (simp add: version_ok_def eff(2))
  next
    case False
    with v eff(10) inv have "version_ok st v" by (simp add: store_inv_def)
    with False show ?thesis by (simp add: version_ok_def eff(2))
  qed
  moreover have "line_ok st' x m" if x: "map_of (lines st') x = Some m" for x m
  proof -
    have old: "made_by st' x s i" if "map_of (revisions st) r' = Some i" "made_by st x s i"
      "x \<noteq> ln \<or> s < sq" for r' s i
    proof -
      have "info_ok st i" using inv that(1) by (simp add: store_inv_def)
      moreover have "snapshot st' x s = snapshot st x s" using that(3) by (rule eff(7))
      moreover have "snapshot st' x (s - 1) = snapshot st x (s - 1)" using that(3) by (intro eff(7)) auto
      ultimately show ?thesis using that(2) by (simp add: range_old made_by_cong [of st' i st])
    qed
    have keep: "map_of (revisions st') r' = Some i" if "map_of (revisions st) r' = Some i" for r' i
      using that new by (auto simp: eff(3))
    show ?thesis
    proof (cases "x = ln")
      case False
      then have "line_ok st x m" using x inv by (simp add: eff(2) store_inv_def)
      with False old keep show ?thesis unfolding line_ok_def by (simp add: eff(7)) blast
    next
      case True
      then have m: "ln_tip m = sq" using x by (auto simp: eff(2))
      have lok: "line_ok st ln l" using inv l by (simp add: store_inv_def)
      have "made_by st' ln sq info"
      proof -
        have "content st' ln sq k = content st' ln (sq - 1) k" if "k \<notin> op_key ` set (nr_ops r)" for k
        proof -
          have "op_outcome (next_position st) (revision_recording r) (nr_ops r) k = None"
            using that by (simp add: op_outcome_None_iff)
          then show ?thesis
            using find_apply_facts [OF ops] by (simp add: content_def eff(7,8))
        qed
        then show ?thesis by (simp add: made_by_def info range_new set_enum_ops)
      qed
      moreover have "distinct (map fkey (snapshot st' ln sq))"
        unfolding eff(8) using lok tip sq by (intro distinct_apply_facts) (simp add: line_ok_def)
      moreover have "map_of (revisions st') (nr_revision r) = Some info" by (simp add: eff(3))
      moreover have "distinct (map fkey (snapshot st' ln s))" if "0 \<le> s" "s < sq" for s
        using lok tip that by (simp add: eff(7) line_ok_def)
      moreover have "\<exists>r i. map_of (revisions st') r = Some i \<and> made_by st' ln s i" if "1 \<le> s" "s < sq" for s
        using lok tip that old keep True unfolding line_ok_def by (metis (no_types) zle_diff1_eq)
      ultimately show ?thesis
        unfolding line_ok_def m True using sq by (metis order_le_less order_trans zero_le_one)
    qed
  qed
  moreover have "clock_ok st'"
  proof -
    have "clock_ok st" using inv by (simp add: store_inv_def)
    then show ?thesis
      using below clock unfolding clock_ok_def eff(3) by (fastforce simp: info split: if_splits)
  qed
  moreover have "0 \<le> next_position st'" using inv eff(4) by (simp add: store_inv_def)
  moreover have "\<forall>x \<in> fst ` set (log st'). x < next_position st'"
    using keys eff(4) by (fastforce simp: eff(5) dest: enum_ops_positions)
  ultimately show ?thesis
    using inv new by (auto simp: store_inv_def eff(2,3) info split: if_splits)
qed

end
