(* ===== verification/Memory_Contract.thy ===== *)
theory Memory_Contract
  imports Memory_Invariant
begin

text \<open>
  What the \<open>FactBackend\<close> trait promises, proved of the memory backend: a locale states the contract
  of an append-only fact log, the interpretation proves it for the model, and the properties follow.
\<close>

section \<open>Appending, decomposed\<close>

lemma store_inv_bump: "store_inv st \<Longrightarrow> next_position st = 0 \<Longrightarrow> store_inv (st\<lparr>next_position := 1\<rparr>)"
  by (fastforce simp: store_inv_def info_ok_def version_ok_def line_ok_def made_by_def log_range_def
      content_def snapshot_facts_at clock_ok_def)

text \<open>The state the operations of the new revision run on, its line and its sequence number.\<close>

lemma state_append_cases:
  assumes inv: "store_inv st" and app: "state_append st r base = Inr (st', info)"
  obtains st1 ln sq l where
    "store_inv st1" "map_of (lines st1) ln = Some l" "ln_tip l = sq - 1" "1 \<le> sq"
    "revisions st1 = revisions st" "log st1 = log st" "next_position st \<le> next_position st1"
    "1 \<le> next_position st1"
    "distinct (map op_key (nr_ops r))" "map_of (revisions st) (nr_revision r) = None"
    "\<And>r' i. map_of (revisions st) r' = Some i \<Longrightarrow> ri_line i = ln \<Longrightarrow>
       ri_seq i < sq \<and> ri_recorded_at_ms i \<le> nr_recorded_at_ms r"
    "\<And>r' i s. map_of (revisions st) r' = Some i \<Longrightarrow> snapshot st1 (ri_line i) s = snapshot st (ri_line i) s"
    "\<And>r' i. map_of (revisions st) r' = Some i \<Longrightarrow>
       map_of (lines st1) (ri_line i) = map_of (lines st) (ri_line i)"
    "continues st (parent_info st r) \<Longrightarrow>
       (\<exists>p. parent_info st r = Some p \<and> ri_line p = ln \<and> ri_seq p = sq - 1
          \<and> snapshot st1 ln (sq - 1) = snapshot st ln (sq - 1))"
    "\<not> continues st (parent_info st r) \<Longrightarrow>
       (\<exists>b. base = Some b \<and> sq = 1 \<and> snapshot st1 ln 0 = base_facts (max 1 (next_position st)) (bs_facts b))"
    "finish_revision r st1 ln sq = Inr (st', info)"
proof -
  define st0 where "st0 = (if next_position st = 0 then st\<lparr>next_position := 1\<rparr> else st)"
  have inv0: "store_inv st0" using inv store_inv_bump by (simp add: st0_def)
  have np: "next_position st0 = max 1 (next_position st)"
    using inv by (auto simp: st0_def store_inv_def)
  have same: "revisions st0 = revisions st" "lines st0 = lines st" "log st0 = log st"
    "\<And>l s. snapshot st0 l s = snapshot st l s"
    by (simp_all add: st0_def snapshot_facts_at)
  have par: "parent_info st0 r = parent_info st r" "\<And>p. continues st0 p = continues st p"
    by (simp_all add: parent_info_def continues_def same split: option.split)
  from app obtain x where val: "validate_new r base = Inr ()"
    and new: "map_of (revisions st) (nr_revision r) = None"
    and place: "place_revision st0 r base = Inr x"
    and fin: "(\<lambda>(st1, ln, sq). finish_revision r st1 ln sq) x = Inr (st', info)"
    by (auto simp: state_append_def Let_def st0_def split: if_splits)
  have ops: "distinct (map op_key (nr_ops r))" using validate_new_ops [OF val] by simp
  show thesis
  proof (cases "continues st (parent_info st r)")
    case True
    with place obtain p where p: "parent_info st r = Some p"
      and x: "x = (st0, ri_line p, ri_seq p + 1)"
      and cl: "ri_recorded_at_ms p \<le> nr_recorded_at_ms r"
      by (auto simp: place_revision_def par Let_def split: if_splits)
    from True p obtain l where l: "map_of (lines st) (ri_line p) = Some l" and tip: "ln_tip l = ri_seq p"
      by (auto simp: continues_def split: option.splits)
    from p obtain q where q: "map_of (revisions st) q = Some p"
      by (auto simp: parent_info_def split: option.splits)
    have pseq: "1 \<le> ri_seq p" using inv q by (auto simp: store_inv_def info_ok_def)
    have below: "ri_seq i < ri_seq p + 1 \<and> ri_recorded_at_ms i \<le> nr_recorded_at_ms r"
      if "map_of (revisions st) r' = Some i" "ri_line i = ri_line p" for r' i
    proof -
      have "ri_seq i \<le> ri_seq p" using inv that l tip by (fastforce simp: store_inv_def info_ok_def)
      moreover from this have "ri_recorded_at_ms i \<le> ri_recorded_at_ms p"
        using inv that q unfolding store_inv_def clock_ok_def by blast
      ultimately show ?thesis using cl by simp
    qed
    show thesis
      by (rule that [of st0 "ri_line p" l "ri_seq p + 1"])
        (use inv0 l tip pseq ops new below fin x p True np in \<open>auto simp: same\<close>)
  next
    case False
    with place obtain b where b: "base = Some b"
      and x: "x = (start_line (next_line st0) r b st0, next_line st0, 1)"
      by (auto simp: place_revision_def par Let_def start_line_def split: if_splits)
    let ?ln = "next_line st0" let ?st1 = "start_line ?ln r b st0"
    have fresh: "map_of (lines st0) ?ln = None"
      using inv0 by (intro next_line_fresh) (simp add: store_inv_def)
    have dist: "distinct (map (version_key \<circ> fst) (bs_facts b))"
      using validate_new_base val b by simp
    have other: "ri_line i \<noteq> ?ln" if "map_of (revisions st) r' = Some i" for r' i
      using inv that fresh same(2) by (force simp: store_inv_def info_ok_def)
    note snaps = start_line_snapshots [OF inv0 fresh, where r = r and b = b]
    show thesis
      by (rule that [of ?st1 ?ln "\<lparr>ln_graph_id = nr_graph_id r, ln_header = bs_header b,
             ln_base_parent = nr_parent r, ln_tip = 0\<rparr>" 1])
        (use start_line_inv [OF inv0 fresh dist] ops new other fin x b False np
          in \<open>auto simp: start_line_frame same snaps\<close>)
  qed
qed

lemma state_append_inv:
  assumes "store_inv st" and "state_append st r base = Inr (st', info)"
  shows "store_inv st'"
proof -
  from assms show ?thesis
  proof (rule state_append_cases)
    fix st1 ln sq l
    assume *: "store_inv st1" "map_of (lines st1) ln = Some l" "ln_tip l = sq - 1" "1 \<le> sq"
      "revisions st1 = revisions st"
      "distinct (map op_key (nr_ops r))" "map_of (revisions st) (nr_revision r) = None"
      "\<And>r' i. map_of (revisions st) r' = Some i \<Longrightarrow> ri_line i = ln \<Longrightarrow>
         ri_seq i < sq \<and> ri_recorded_at_ms i \<le> nr_recorded_at_ms r"
      "finish_revision r st1 ln sq = Inr (st', info)"
    then show "store_inv st'"
      by (intro finish_inv [OF *(1-4,6) _ _ *(9)]) auto
  qed
qed

text \<open>Appending leaves every recorded revision, its facts and its operations as they were.\<close>

lemma state_append_frame:
  assumes inv: "store_inv st" and app: "state_append st r base = Inr (st', info)"
    and old: "map_of (revisions st) q = Some i"
  shows "map_of (revisions st') q = Some i"
    and "snapshot st' (ri_line i) (ri_seq i) = snapshot st (ri_line i) (ri_seq i)"
    and "log_range st' i = log_range st i"
    and "map_option ln_header (map_of (lines st') (ri_line i)) = map_option ln_header (map_of (lines st) (ri_line i))"
proof -
  have "map_of (revisions st') q = Some i
      \<and> snapshot st' (ri_line i) (ri_seq i) = snapshot st (ri_line i) (ri_seq i)
      \<and> log_range st' i = log_range st i
      \<and> map_option ln_header (map_of (lines st') (ri_line i)) = map_option ln_header (map_of (lines st) (ri_line i))"
    using inv app
  proof (rule state_append_cases)
    fix st1 ln sq l
    assume *: "store_inv st1" "map_of (lines st1) ln = Some l" "ln_tip l = sq - 1"
      "revisions st1 = revisions st" "log st1 = log st" "next_position st \<le> next_position st1"
      "distinct (map op_key (nr_ops r))" "map_of (revisions st) (nr_revision r) = None"
      "\<And>r' i. map_of (revisions st) r' = Some i \<Longrightarrow> ri_line i = ln \<Longrightarrow>
         ri_seq i < sq \<and> ri_recorded_at_ms i \<le> nr_recorded_at_ms r"
      "\<And>r' i s. map_of (revisions st) r' = Some i \<Longrightarrow> snapshot st1 (ri_line i) s = snapshot st (ri_line i) s"
      "\<And>r' i. map_of (revisions st) r' = Some i \<Longrightarrow>
         map_of (lines st1) (ri_line i) = map_of (lines st) (ri_line i)"
      "finish_revision r st1 ln sq = Inr (st', info)"
    note eff = finish_effect [OF *(1-3,7,12)]
    have "snapshot st' (ri_line i) (ri_seq i) = snapshot st1 (ri_line i) (ri_seq i)"
      by (rule eff(7)) (use *(9) [OF old] in blast)
    moreover have "log_range st' i = log_range st1 i"
    proof (rule log_range_append [OF _ eff(5)])
      have "info_ok st i" using inv old by (simp add: store_inv_def)
      then have "ri_first_position i + ri_op_count i \<le> next_position st1"
        using *(6) by (simp add: info_ok_def)
      then show "\<forall>x \<in> fst ` set (enum_ops (next_position st1) (nr_ops r)).
          ri_first_position i + ri_op_count i \<le> x"
        by (auto dest!: enum_ops_positions)
    qed
    moreover have "map_option ln_header (map_of (lines st') (ri_line i)) = map_option ln_header (map_of (lines st) (ri_line i))"
      using *(2) *(11) [OF old, symmetric] by (cases "ri_line i = ln") (simp_all add: eff(2))
    ultimately show ?thesis
      using old *(4,5,8,10) by (auto simp: eff(3) log_range_def)
  qed
  then show "map_of (revisions st') q = Some i"
    and "snapshot st' (ri_line i) (ri_seq i) = snapshot st (ri_line i) (ri_seq i)"
    and "log_range st' i = log_range st i"
    and "map_option ln_header (map_of (lines st') (ri_line i)) = map_option ln_header (map_of (lines st) (ri_line i))"
    by auto
qed

section \<open>The contract of an append-only fact log\<close>

text \<open>
  A client of a fact log sees the views of the recorded revisions. The laws are the trait's
  immutability guarantee; the client's lemma is that history is stable under any run of appends.
\<close>

locale fact_log =
  fixes ok :: "'s \<Rightarrow> bool"
    and append1 :: "'s \<Rightarrow> 'a \<Rightarrow> 'e + 's"
    and known :: "'s \<Rightarrow> 'q \<Rightarrow> bool"
    and view :: "'s \<Rightarrow> 'q \<Rightarrow> 'v"
  assumes ok_append1: "ok s \<Longrightarrow> append1 s a = Inr s' \<Longrightarrow> ok s'"
    and known_append1: "ok s \<Longrightarrow> append1 s a = Inr s' \<Longrightarrow> known s q \<Longrightarrow> known s' q"
    and view_append1: "ok s \<Longrightarrow> append1 s a = Inr s' \<Longrightarrow> known s q \<Longrightarrow> view s' q = view s q"
begin

lemma run_ok: "ok s \<Longrightarrow> try_fold append1 s xs = Inr s' \<Longrightarrow> ok s'"
  using ok_append1 by (auto intro: try_fold_invariant [where P = ok])

lemma run_stable:
  "ok s \<Longrightarrow> known s q \<Longrightarrow> try_fold append1 s xs = Inr s' \<Longrightarrow> known s' q \<and> view s' q = view s q"
proof (induction xs arbitrary: s)
  case Nil
  then show ?case by simp
next
  case (Cons a xs)
  then obtain t where t: "append1 s a = Inr t" and run: "try_fold append1 t xs = Inr s'" by auto
  have "known s' q \<and> view s' q = view t q"
    using Cons.IH [OF ok_append1 [OF Cons.prems(1) t] known_append1 [OF Cons.prems(1) t Cons.prems(2)] run] .
  with view_append1 [OF Cons.prems(1) t Cons.prems(2)] show ?case by simp
qed

end

definition append_request :: "mem_state \<Rightarrow> new_revision \<times> base_state option \<Rightarrow> mem_state result" where
  "append_request st a = rbind (state_append st (fst a) (snd a)) (\<lambda>x. Ok (fst x))"

definition revision_known :: "mem_state \<Rightarrow> string \<Rightarrow> bool" where
  "revision_known st q \<longleftrightarrow> map_of (revisions st) q \<noteq> None"

text \<open>All a reader can see of a revision: its record, its facts, its operations and its header.\<close>

definition revision_view ::
  "mem_state \<Rightarrow> string \<Rightarrow> (revision_info \<times> stored_fact list \<times> (int \<times> fact_op) list \<times> string option) option" where
  "revision_view st q = map_option (\<lambda>i. (i, snapshot st (ri_line i) (ri_seq i), log_range st i,
     map_option ln_header (map_of (lines st) (ri_line i)))) (map_of (revisions st) q)"

interpretation mem: fact_log store_inv append_request revision_known revision_view
proof unfold_locales
  fix s s' a q
  assume inv: "store_inv s" and app: "append_request s a = Inr s'"
  then obtain info where app': "state_append s (fst a) (snd a) = Inr (s', info)"
    by (auto simp: append_request_def)
  show "store_inv s'" by (rule state_append_inv [OF inv app'])
  assume "revision_known s q"
  then obtain i where i: "map_of (revisions s) q = Some i" by (auto simp: revision_known_def)
  note frame = state_append_frame [OF inv app' i]
  show "revision_known s' q" using frame(1) by (simp add: revision_known_def)
  show "revision_view s' q = revision_view s q"
    using frame i by (simp add: revision_view_def)
qed

text \<open>The reads are functions of the view.\<close>

lemma reads_of_view:
  assumes "revision_known (state m) q" and "revision_view (state m') q = revision_view (state m) q"
  shows "store_get m' q ns i = store_get m q ns i"
    and "store_select m' q f limit = store_select m q f limit"
    and "store_ops m' q = store_ops m q"
    and "store_header m' q = store_header m q"
    and "store_revision m' q = store_revision m q"
proof -
  from assms obtain j where j: "map_of (revisions (state m)) q = Some j"
    "map_of (revisions (state m')) q = Some j"
    "snapshot (state m') (ri_line j) (ri_seq j) = snapshot (state m) (ri_line j) (ri_seq j)"
    "log_range (state m') j = log_range (state m) j"
    "map_option ln_header (map_of (lines (state m')) (ri_line j))
     = map_option ln_header (map_of (lines (state m)) (ri_line j))"
    by (auto simp: revision_view_def revision_known_def)
  then show "store_get m' q ns i = store_get m q ns i"
    and "store_select m' q f limit = store_select m q f limit"
    and "store_ops m' q = store_ops m q"
    and "store_revision m' q = store_revision m q"
    by (simp_all add: store_get_content content_def store_select_snapshot store_ops_def st_info_def
        store_revision_def)
  show "store_header m' q = store_header m q"
    using j by (cases "map_of (lines (state m')) (ri_line j)"; cases "map_of (lines (state m)) (ri_line j)")
      (auto simp: store_header_def st_info_def)
qed

section \<open>Reachable stores\<close>

datatype store_write =
    AppendRevision new_revision "base_state option"
  | PutCheckpoint string string
  | DropCheckpoint string

fun run_write :: "memory_store \<Rightarrow> store_write \<Rightarrow> memory_store" where
  "run_write m (AppendRevision r base) = snd (store_append m r base)"
| "run_write m (PutCheckpoint r body) = snd (put_checkpoint m r body)"
| "run_write m (DropCheckpoint r) = snd (drop_checkpoint m r)"

inductive reachable_store :: "memory_store \<Rightarrow> bool" where
  fresh: "reachable_store new_store"
| written: "reachable_store m \<Longrightarrow> reachable_store (run_write m w)"
| begin_transaction: "reachable_store m \<Longrightarrow> reachable_store (snd (begin_tx m))"
| commit: "reachable_store m \<Longrightarrow> reachable_store (snd (commit_tx m))"
| rollback: "reachable_store m \<Longrightarrow> reachable_store (snd (rollback_tx m))"

definition store_ok :: "memory_store \<Rightarrow> bool" where
  "store_ok m \<longleftrightarrow> store_inv (state m) \<and> none_or store_inv (saved m)"

lemma store_inv_checkpoints: "store_inv (st\<lparr>checkpoints := c\<rparr>) = store_inv st"
  by (simp add: store_inv_def info_ok_def version_ok_def line_ok_def made_by_def log_range_def
      content_def snapshot_facts_at clock_ok_def)

lemma store_append_Ok:
  "store_append m r base = (Ok info, m') \<longleftrightarrow>
     (\<exists>st. state_append (state m) r base = Inr (st, info) \<and> m' = m\<lparr>state := st\<rparr>)"
  by (auto simp: store_append_def split: sum.splits)

lemma run_write_ok: "store_ok m \<Longrightarrow> store_ok (run_write m w)"
  by (cases w)
    (auto simp: store_ok_def store_append_def put_checkpoint_def drop_checkpoint_def store_inv_checkpoints
      intro: state_append_inv split: sum.splits)

lemma run_write_saved [simp]: "saved (run_write m w) = saved m"
  by (cases w) (auto simp: store_append_def put_checkpoint_def drop_checkpoint_def split: sum.splits)

lemma reachable_store_ok: "reachable_store m \<Longrightarrow> store_ok m"
proof (induction rule: reachable_store.induct)
  case fresh
  show ?case by (simp add: store_ok_def new_store_def store_inv_empty none_or_def)
next
  case (written m w)
  then show ?case by (simp add: run_write_ok)
qed (auto simp: store_ok_def none_or_def begin_tx_def commit_tx_def rollback_tx_def split: option.splits)

lemma reachable_store_inv: "reachable_store m \<Longrightarrow> store_inv (state m)"
  using reachable_store_ok by (simp add: store_ok_def)

end
