(* ===== verification/Memory_Theorems.thy ===== *)
theory Memory_Theorems
  imports Memory_Contract
begin

text \<open>
  The properties of the memory backend, each over a store reachable from the empty one by any
  sequence of appends, checkpoints and transactions, with the concrete store the witnesses use.
\<close>

section \<open>A concrete store\<close>

definition no_keys :: index_keys where
  "no_keys = \<lparr>ik_entity = None, ik_subject = None, ik_object = None, ik_predicate = None,
     ik_valid = None, ik_carrier = False\<rparr>"

definition demo_version :: "fact_kind \<Rightarrow> string \<Rightarrow> string \<Rightarrow> fact_version" where
  "demo_version k i b = \<lparr>fv_kind = k, fv_id = i, fv_body = b, fv_keys = no_keys\<rparr>"

definition demo_revision :: "string \<Rightarrow> string option \<Rightarrow> int \<Rightarrow> fact_op list \<Rightarrow> new_revision" where
  "demo_revision r p t ops = \<lparr>nr_revision = r, nr_graph_id = ''g'', nr_branch_id = ''main'',
     nr_parent = p, nr_writer = ''w'', nr_on_behalf_of = None, nr_recorded_at_ms = t, nr_ops = ops\<rparr>"

definition demo_base :: base_state where
  "demo_base = \<lparr>bs_header = ''h'', bs_facts = []\<rparr>"

definition demo_first :: new_revision where
  "demo_first = demo_revision ''r1'' None 1
     [AssertOp (demo_version FkNode ''a'' ''1''), AssertOp (demo_version FkEdge ''e'' ''2'')]"

definition demo_second :: new_revision where
  "demo_second = demo_revision ''r2'' (Some ''r1'') 5
     [RetractOp FkEdge ''e'', AssertOp (demo_version FkNode ''a'' ''3'')]"

definition demo1 :: memory_store where
  "demo1 = run_write new_store (AppendRevision demo_first (Some demo_base))"

definition demo2 :: memory_store where
  "demo2 = run_write demo1 (AppendRevision demo_second None)"

lemmas demo_defs = demo_first_def demo_second_def demo_revision_def demo_version_def demo_base_def
  no_keys_def

lemmas store_defs = store_append_def state_append_def validate_new_def validate_version_def bounded_def
  bounded_delegation_def none_or_def max_key_bytes_def max_body_bytes_def op_key_def version_key_def
  new_store_def empty_state_def parent_info_def place_revision_def continues_def next_line_def
  push_base_def finish_revision_def apply_op_def live_index_def push_version_def
  revision_recording_def revision_info_of_def live_def mv_key_def end_version_def Let_def less_char_def

lemmas demo_eval = demo1_def demo2_def demo_defs store_defs

lemma reachable_demo1: "reachable_store demo1"
  unfolding demo1_def by (intro reachable_store.intros)

lemma reachable_demo2: "reachable_store demo2"
  unfolding demo2_def by (intro reachable_store.intros reachable_demo1)

lemma demo_appends:
  "is_ok (fst (store_append new_store demo_first (Some demo_base)))"
  "is_ok (fst (store_append demo1 demo_second None))"
  by (simp_all add: demo_eval)

lemma store_append_pair:
  "is_ok (fst (store_append m r base)) \<Longrightarrow>
   store_append m r base = (Ok (projr (fst (store_append m r base))), snd (store_append m r base))"
  by (cases "fst (store_append m r base)") (auto simp: prod_eq_iff)

lemma store_append_OkD:
  "store_append m r base = (Ok info, m') \<Longrightarrow> state_append (state m) r base = Inr (state m', info) \<and> saved m' = saved m"
  by (auto simp: store_append_Ok)

lemma demo2_append: "store_append demo1 demo_second None = (Ok (projr (fst (store_append demo1 demo_second None))), demo2)"
  using store_append_pair [OF demo_appends(2)] by (simp add: demo2_def)

lemma demo1_append:
  "store_append new_store demo_first (Some demo_base) =
     (Ok (projr (fst (store_append new_store demo_first (Some demo_base)))), demo1)"
  using store_append_pair [OF demo_appends(1)] by (simp add: demo1_def)

section \<open>Immutability\<close>

text \<open>
  C2: history is immutable. Whatever list of revisions is appended to a reachable store, every
  revision recorded before keeps its record, its header, its operations and the result of every
  \<open>get\<close> and \<open>select\<close>.
\<close>

theorem history_immutable:
  assumes "reachable_store m" and "store_revision m q = Ok (Some i)"
    and "try_fold append_request (state m) rs = Inr st'"
  shows "store_revision (m\<lparr>state := st'\<rparr>) q = store_revision m q
       \<and> store_header (m\<lparr>state := st'\<rparr>) q = store_header m q
       \<and> store_ops (m\<lparr>state := st'\<rparr>) q = store_ops m q
       \<and> store_get (m\<lparr>state := st'\<rparr>) q ns fid = store_get m q ns fid
       \<and> store_select (m\<lparr>state := st'\<rparr>) q f limit = store_select m q f limit"
proof -
  have known: "revision_known (state m) q"
    using assms(2) by (auto simp: store_revision_def revision_known_def)
  have "revision_view st' q = revision_view (state m) q"
    using mem.run_stable [OF reachable_store_inv [OF assms(1)] known assms(3)] by blast
  then show ?thesis
    using reads_of_view [OF known, of "m\<lparr>state := st'\<rparr>"] by simp
qed

theorem history_immutable_witness:
  "store_get demo2 ''r1'' NsNode ''a'' = store_get demo1 ''r1'' NsNode ''a''"
proof -
  have run: "try_fold append_request (state demo1) [(demo_second, None)] = Inr (state demo2)"
    using store_append_OkD [OF demo2_append] by (simp add: append_request_def)
  have rev: "store_revision demo1 ''r1'' = Ok (map_of (revisions (state demo1)) ''r1'')"
    by (simp add: store_revision_def)
  have "map_of (revisions (state demo1)) ''r1'' \<noteq> None" by (simp add: demo_eval)
  then obtain i where "store_revision demo1 ''r1'' = Ok (Some i)" using rev by auto
  from history_immutable [OF reachable_demo1 this run] have
    "store_get (demo1\<lparr>state := state demo2\<rparr>) ''r1'' NsNode ''a'' = store_get demo1 ''r1'' NsNode ''a''"
    by blast
  then show ?thesis by (simp add: store_get_def)
qed

section \<open>Appending as a map update\<close>

lemma append_content:
  assumes inv: "store_inv st" and app: "state_append st r base = Inr (st', info)"
  obtains ln sq old first where
    "ri_line info = ln" "ri_seq info = sq" "ri_first_position info = first"
    "map_of (revisions st') (nr_revision r) = Some info"
    "\<And>k. content st' ln sq k =
       (case op_outcome first (revision_recording r) (nr_ops r) k of
          None \<Rightarrow> List.find (\<lambda>f. fkey f = k) old | Some x \<Rightarrow> x)"
    "log_range st' info = enum_ops first (nr_ops r)"
    "continues st (parent_info st r) \<Longrightarrow>
       \<exists>p. parent_info st r = Some p \<and> ri_line p = ln \<and> ri_seq p = sq - 1 \<and> old = snapshot st ln (sq - 1)"
    "\<not> continues st (parent_info st r) \<Longrightarrow>
       \<exists>b. base = Some b \<and> old = base_facts (max 1 (next_position st)) (bs_facts b)"
proof -
  from inv app show thesis
  proof (rule state_append_cases)
    fix st1 ln sq l
    assume *: "store_inv st1" "map_of (lines st1) ln = Some l" "ln_tip l = sq - 1"
      "distinct (map op_key (nr_ops r))"
      "continues st (parent_info st r) \<Longrightarrow>
         (\<exists>p. parent_info st r = Some p \<and> ri_line p = ln \<and> ri_seq p = sq - 1
            \<and> snapshot st1 ln (sq - 1) = snapshot st ln (sq - 1))"
      "\<not> continues st (parent_info st r) \<Longrightarrow>
         (\<exists>b. base = Some b \<and> sq = 1 \<and> snapshot st1 ln 0 = base_facts (max 1 (next_position st)) (bs_facts b))"
      "finish_revision r st1 ln sq = Inr (st', info)"
    note eff = finish_effect [OF *(1-4,7)]
    have keys: "\<forall>x \<in> fst ` set (log st1). x < next_position st1" using *(1) by (simp add: store_inv_def)
    show thesis
    proof (rule that [of ln sq "next_position st1" "snapshot st1 ln (sq - 1)"])
      show "content st' ln sq k =
          (case op_outcome (next_position st1) (revision_recording r) (nr_ops r) k of
             None \<Rightarrow> List.find (\<lambda>f. fkey f = k) (snapshot st1 ln (sq - 1)) | Some x \<Rightarrow> x)" for k
        unfolding content_def eff(8) by (rule find_apply_facts [OF *(4)])
      show "log_range st' info = enum_ops (next_position st1) (nr_ops r)"
        by (rule log_range_new [OF keys eff(5)]) (simp_all add: eff(1) revision_info_of_def)
    qed (use *(5,6) in \<open>auto simp: eff(1,3) revision_info_of_def\<close>)
  qed
qed

lemma continues_tip:
  "nr_parent r = Some p \<Longrightarrow>
   continues (state m) (parent_info (state m) r) \<longleftrightarrow> store_is_tip m p = Ok True"
  by (simp add: continues_def parent_info_def store_is_tip_def split: option.split)



text \<open> The operations of an appended revision are read back exactly: in their order, at contiguous
  positions starting at the revision's first position, as many as its operation count.
\<close>

theorem appended_ops_read_back:
  assumes "reachable_store m" and "store_append m r base = (Ok info, m')"
  shows "store_ops m' (nr_revision r) =
      Ok (map (\<lambda>(pos, p). \<lparr>lo_position = pos, lo_op = p\<rparr>) (enum_ops (ri_first_position info) (nr_ops r)))
    \<and> ri_op_count info = int (length (nr_ops r))"
proof -
  have app: "state_append (state m) r base = Inr (state m', info)"
    using store_append_OkD [OF assms(2)] by simp
  from app have "ri_op_count info = int (length (nr_ops r))"
    by (auto simp: state_append_def finish_revision_def Let_def revision_info_of_def split: if_splits)
  moreover from reachable_store_inv [OF assms(1)] app
  have "map_of (revisions (state m')) (nr_revision r) = Some info
      \<and> log_range (state m') info = enum_ops (ri_first_position info) (nr_ops r)"
    by (rule append_content) auto
  ultimately show ?thesis by (simp add: store_ops_def st_info_def)
qed

theorem appended_ops_read_back_witness:
  "store_ops demo2 ''r2'' = Ok
     [\<lparr>lo_position = 3, lo_op = RetractOp FkEdge ''e''\<rparr>,
      \<lparr>lo_position = 4, lo_op = AssertOp (demo_version FkNode ''a'' ''3'')\<rparr>]"
proof -
  have name: "nr_revision demo_second = ''r2''"
    and ops: "nr_ops demo_second = [RetractOp FkEdge ''e'', AssertOp (demo_version FkNode ''a'' ''3'')]"
    by (simp_all add: demo_defs)
  have first: "ri_first_position (projr (fst (store_append demo1 demo_second None))) = 3"
    by (simp add: demo_eval)
  from appended_ops_read_back [OF reachable_demo1 demo2_append] show ?thesis
    by (simp add: name ops first)
qed

section \<open>Change sets\<close>

lemma fold_insert_ops:
  "set (fold (\<lambda>(_, p) ks. bs_insert (op_key p) ks) xs keys) = op_key ` snd ` set xs \<union> set keys"
  by (induction xs arbitrary: keys) auto

lemma set_window_keys:
  "set (window_keys st ln low high) =
     (\<Union>x \<in> set (revisions st).
        if ri_line (snd x) = ln \<and> low < ri_seq (snd x) \<and> ri_seq (snd x) \<le> high
        then op_key ` snd ` set (log_range st (snd x)) else {})"
proof -
  define step where "step = (\<lambda>(_ :: string, i) keys.
    if ri_line i \<noteq> ln \<or> ri_seq i \<le> low \<or> high < ri_seq i then keys
    else fold (\<lambda>(_, p) ks. bs_insert (op_key p) ks) (log_range st i) keys)"
  define part where "part = (\<lambda>x :: string \<times> revision_info.
    if ri_line (snd x) = ln \<and> low < ri_seq (snd x) \<and> ri_seq (snd x) \<le> high
    then op_key ` snd ` set (log_range st (snd x)) else {})"
  have one: "set (step x keys) = part x \<union> set keys" for x keys
    by (cases x) (simp add: step_def part_def fold_insert_ops)
  have "set (fold step xs keys) = set keys \<union> (\<Union>x \<in> set xs. part x)" for xs keys
    by (induction xs arbitrary: keys) (simp_all add: one Un_ac)
  from this [of "revisions st" "[]"] show ?thesis
    unfolding window_keys_def step_def part_def by simp
qed

lemma unchanged_outside_window:
  assumes inv: "store_inv st" and l: "map_of (lines st) ln = Some l"
    and k: "k \<notin> set (window_keys st ln low high)"
    and low: "0 \<le> low" and high: "high \<le> ln_tip l"
  shows "low \<le> s \<Longrightarrow> s \<le> high \<Longrightarrow> content st ln s k = content st ln low k"
proof (induction s rule: int_ge_induct)
  case base
  show ?case by simp
next
  case (step s)
  then have "1 \<le> s + 1" "s + 1 \<le> ln_tip l" using low high by auto
  then obtain r i where i: "map_of (revisions st) r = Some i" "made_by st ln (s + 1) i"
    using inv l unfolding store_inv_def line_ok_def by blast
  then have "ri_line i = ln" "ri_seq i = s + 1" by (auto simp: made_by_def)
  moreover have "(r, i) \<in> set (revisions st)" using i(1) by (rule map_of_SomeD)
  ultimately have "k \<notin> op_key ` snd ` set (log_range st i)"
    using k step(1,3) unfolding set_window_keys by force
  with i(2) have "content st ln (s + 1) k = content st ln (s + 1 - 1) k"
    unfolding made_by_def by blast
  with step show ?case by simp
qed

text \<open> A change set is complete. For two recorded revisions of one line, in either order, every key
  whose \<open>get\<close> differs between them is listed.
\<close>

theorem changed_keys_complete:
  assumes "reachable_store m"
    and "store_revision m f = Ok (Some j)" and "store_revision m t = Ok (Some i)"
    and "ri_line j = ri_line i"
    and "store_changed_keys m (Some f) t limit = Ok (Some keys)"
    and "store_get m f ns fid \<noteq> store_get m t ns fid"
  shows "(ns, fid) \<in> set keys"
proof (rule ccontr)
  assume out: "(ns, fid) \<notin> set keys"
  let ?st = "state m" let ?low = "min (ri_seq j) (ri_seq i)" let ?high = "max (ri_seq j) (ri_seq i)"
  have inv: "store_inv ?st" by (rule reachable_store_inv [OF assms(1)])
  have j: "map_of (revisions ?st) f = Some j" and i: "map_of (revisions ?st) t = Some i"
    using assms(2,3) by (auto simp: store_revision_def)
  have "info_ok ?st j" and "info_ok ?st i" using inv i j by (simp_all add: store_inv_def)
  then obtain l where l: "map_of (lines ?st) (ri_line i) = Some l"
    and seqs: "1 \<le> ri_seq i" "ri_seq i \<le> ln_tip l" "1 \<le> ri_seq j" "ri_seq j \<le> ln_tip l"
    using assms(4) by (auto simp: info_ok_def)
  have "change_window ?st (Some f) i l = Some (?low, ?high)"
    using assms(4) j by (simp add: change_window_def)
  then have "keys = window_keys ?st (ri_line i) ?low ?high"
    using assms(5) i l by (simp add: store_changed_keys_def st_info_def Let_def split: if_splits)
  with out have k: "(ns, fid) \<notin> set (window_keys ?st (ri_line i) ?low ?high)" by simp
  have same: "content ?st (ri_line i) s (ns, fid) = content ?st (ri_line i) ?low (ns, fid)"
    if "s = ri_seq i \<or> s = ri_seq j" for s
    using that seqs by (intro unchanged_outside_window [OF inv l k]) auto
  have "content ?st (ri_line i) (ri_seq j) (ns, fid) = content ?st (ri_line i) (ri_seq i) (ns, fid)"
    using same [of "ri_seq i"] same [of "ri_seq j"] by simp
  with assms(4,6) i j show False by (simp add: store_get_content st_info_def)
qed

theorem changed_keys_complete_witness:
  "\<exists>keys. store_changed_keys demo2 (Some ''r1'') ''r2'' 10 = Ok (Some keys) \<and> (NsRecord, ''e'') \<in> set keys"
proof -
  obtain j where j: "store_revision demo2 ''r1'' = Ok (Some j)" "ri_line j = 1"
    by (simp add: store_revision_def demo_eval)
  obtain i where i: "store_revision demo2 ''r2'' = Ok (Some i)" "ri_line i = 1"
    by (simp add: store_revision_def demo_eval)
  obtain keys where keys: "store_changed_keys demo2 (Some ''r1'') ''r2'' 10 = Ok (Some keys)"
    by (simp add: store_changed_keys_def st_info_def change_window_def window_keys_def log_range_def
        bs_insert_code demo_eval less_namespace_def less_eq_namespace_def)
  have "store_get demo2 ''r1'' NsRecord ''e'' \<noteq> store_get demo2 ''r2'' NsRecord ''e''"
    by (simp add: store_get_def st_info_def demo_eval)
  with changed_keys_complete [OF reachable_demo2 j(1) i(1) _ keys] j(2) i(2) keys show ?thesis
    by simp
qed

section \<open>Reads, clocks, transactions and rejected operations\<close>

lemma reachable_distinct:
  assumes "reachable_store m" and "map_of (revisions (state m)) q = Some i"
  shows "distinct (map fkey (snapshot (state m) (ri_line i) (ri_seq i)))"
proof -
  have inv: "store_inv (state m)" by (rule reachable_store_inv [OF assms(1)])
  then have "info_ok (state m) i" using assms(2) by (simp add: store_inv_def)
  then obtain l where l: "map_of (lines (state m)) (ri_line i) = Some l"
    and seqs: "1 \<le> ri_seq i" "ri_seq i \<le> ln_tip l" by (auto simp: info_ok_def)
  then have "line_ok (state m) (ri_line i) l" using inv by (simp add: store_inv_def)
  with seqs show ?thesis by (simp add: line_ok_def)
qed

text \<open>
  C3: a selection is exact. When it does not exceed its limit it returns, each once and in
  (kind, ID) order, precisely the facts that \<open>get\<close> shows at the revision and the filter matches.
\<close>

theorem select_exact:
  assumes "reachable_store m" and "store_select m q flt limit = Ok facts"
  shows "(\<forall>f. f \<in> set facts \<longleftrightarrow>
            store_get m q (fst (fkey f)) (snd (fkey f)) = Ok (Some f) \<and> filter_matches flt f)
       \<and> distinct facts \<and> length facts \<le> limit
       \<and> sorted (map (\<lambda>f. (fv_kind (sf_version f), fv_id (sf_version f))) facts)"
proof -
  obtain i where i: "map_of (revisions (state m)) q = Some i"
    using assms(2) by (auto simp: store_select_snapshot st_info_def)
  let ?snap = "snapshot (state m) (ri_line i) (ri_seq i)"
  have dist: "distinct (map fkey ?snap)" by (rule reachable_distinct [OF assms(1) i])
  have facts: "facts = order_facts (filter (filter_matches flt) ?snap)"
    and limit: "length (filter (filter_matches flt) ?snap) \<le> limit"
    using assms(2) i by (auto simp: store_select_snapshot st_info_def Let_def split: if_splits)
  have "f \<in> set facts \<longleftrightarrow>
      store_get m q (fst (fkey f)) (snd (fkey f)) = Ok (Some f) \<and> filter_matches flt f" for f
    using content_Some_iff [OF dist] i by (auto simp: facts order_facts_def store_get_content st_info_def)
  moreover have "distinct facts"
    using dist by (simp add: facts order_facts_def distinct_map)
  ultimately show ?thesis
    using limit by (simp add: facts order_facts_def)
qed

definition any_filter :: fact_filter where
  "any_filter = \<lparr>ff_kind = None, ff_entity = None, ff_subject = None, ff_object = None,
     ff_predicate = None, ff_valid_at = None, ff_recorded = None, ff_carrier = False,
     ff_unanchored = False, ff_graph_only = False\<rparr>"

theorem select_exact_witness:
  "\<exists>facts. store_select demo1 ''r1'' any_filter 5 = Ok facts \<and> length facts = 2 \<and> distinct facts"
proof -
  obtain facts where facts: "store_select demo1 ''r1'' any_filter 5 = Ok facts" and two: "length facts = 2"
    by (simp add: store_select_def st_info_def live_at_def filter_matches_def same_key_def any_filter_def
        order_facts_def demo_eval)
  from select_exact [OF reachable_demo1 facts] facts two show ?thesis by blast
qed

text \<open> Along a line recorded time never decreases: of two recorded revisions of one line, the one with
  the smaller sequence number was not recorded later.
\<close>

theorem recorded_time_monotone:
  assumes "reachable_store m"
    and "store_revision m q = Ok (Some i)" and "store_revision m q' = Ok (Some j)"
    and "ri_line i = ri_line j" and "ri_seq i \<le> ri_seq j"
  shows "ri_recorded_at_ms i \<le> ri_recorded_at_ms j"
proof -
  have "clock_ok (state m)" using reachable_store_inv [OF assms(1)] by (simp add: store_inv_def)
  then show ?thesis using assms(2-) unfolding clock_ok_def store_revision_def by blast
qed

theorem recorded_time_monotone_witness:
  "\<exists>i j. store_revision demo2 ''r1'' = Ok (Some i) \<and> store_revision demo2 ''r2'' = Ok (Some j)
     \<and> ri_recorded_at_ms i \<le> ri_recorded_at_ms j"
proof -
  obtain i where i: "store_revision demo2 ''r1'' = Ok (Some i)" "ri_line i = 1" "ri_seq i = 1"
    by (simp add: store_revision_def demo_eval)
  obtain j where j: "store_revision demo2 ''r2'' = Ok (Some j)" "ri_line j = 1" "ri_seq j = 2"
    by (simp add: store_revision_def demo_eval)
  from recorded_time_monotone [OF reachable_demo2 i(1) j(1)] i j show ?thesis by auto
qed

lemma run_write_state:
  assumes "state t = state t'"
  shows "state (run_write t w) = state (run_write t' w)"
proof (cases w)
  case (AppendRevision r base)
  then show ?thesis using assms by (simp add: store_append_def split: sum.split prod.split)
next
  case (PutCheckpoint r body)
  then show ?thesis using assms by (simp add: put_checkpoint_def split: sum.split)
next
  case (DropCheckpoint r)
  then show ?thesis using assms by (simp add: drop_checkpoint_def)
qed

text \<open> A transaction is atomic. Rolling back after any list of writes made since \<open>begin\<close> restores
  the store exactly; committing keeps the writes and closes the transaction.
\<close>

theorem transaction_atomic:
  assumes "saved m = None"
  shows "rollback_tx (fold (\<lambda>w s. run_write s w) ws (snd (begin_tx m))) = (Ok (), m)
       \<and> state (snd (commit_tx (fold (\<lambda>w s. run_write s w) ws (snd (begin_tx m)))))
           = state (fold (\<lambda>w s. run_write s w) ws m)
       \<and> saved (snd (commit_tx (fold (\<lambda>w s. run_write s w) ws (snd (begin_tx m))))) = None"
proof -
  have saved_run: "saved (fold (\<lambda>w s. run_write s w) ws t) = saved t" for t
    by (induction ws arbitrary: t) simp_all
  have state_run: "state t = state t' \<Longrightarrow>
      state (fold (\<lambda>w s. run_write s w) ws t) = state (fold (\<lambda>w s. run_write s w) ws t')" for t t'
  proof (induction ws arbitrary: t t')
    case (Cons w ws)
    show ?case using Cons.IH [OF run_write_state [OF Cons.prems]] by simp
  qed simp
  have run: "rollback_tx s = (Ok (), m)" if "saved s = Some (state m)" for s
    using that assms by (cases m) (simp add: rollback_tx_def)
  have "saved (snd (begin_tx m)) = Some (state m)" "state (snd (begin_tx m)) = state m"
    using assms by (simp_all add: begin_tx_def)
  then show ?thesis
    using run [of "fold (\<lambda>w s. run_write s w) ws (snd (begin_tx m))"] saved_run [of "snd (begin_tx m)"]
      state_run [of "snd (begin_tx m)" m]
    by (simp add: commit_tx_def)
qed

theorem transaction_atomic_witness:
  "rollback_tx (run_write (snd (begin_tx new_store)) (AppendRevision demo_first (Some demo_base)))
     = (Ok (), new_store)"
proof -
  have "saved new_store = None" by (simp add: new_store_def)
  from transaction_atomic [OF this, of "[AppendRevision demo_first (Some demo_base)]"] show ?thesis
    by simp
qed

lemma apply_op_accepts:
  "apply_op ln sq rc st p = Inr st' \<Longrightarrow>
     (case content st ln (sq - 1) (op_key p) of
        None \<Rightarrow> \<exists>v. p = AssertOp v | Some f \<Rightarrow> fv_kind (sf_version f) = op_kind p)"
  unfolding live_index_content [symmetric]
  by (cases p) (auto simp: apply_op_def Let_def split: option.splits if_splits)

lemma apply_ops_accept:
  assumes "try_fold (apply_op ln sq rc) st ps = Inr st'"
    and "line_bounded (versions st) ln sq"
    and "distinct (map fkey (snapshot st ln (sq - 1)))"
    and "distinct (map op_key ps)"
    and "op_key ` set ps \<inter> started (versions st) ln sq = {}"
    and "p \<in> set ps" and "1 \<le> sq"
  shows "case content st ln (sq - 1) (op_key p) of
        None \<Rightarrow> \<exists>v. p = AssertOp v | Some f \<Rightarrow> fv_kind (sf_version f) = op_kind p"
proof -
  obtain xs ys where ps: "ps = xs @ p # ys" using assms(6) by (meson split_list)
  from assms(1) obtain s where run: "try_fold (apply_op ln sq rc) st xs = Inr s"
    and one: "\<exists>t. apply_op ln sq rc s p = Inr t"
    by (auto simp: ps try_fold_append)
  have "op_key ` set xs \<subseteq> op_key ` set ps" by (auto simp: ps)
  with assms(5) have free: "op_key ` set xs \<inter> started (versions st) ln sq = {}" by blast
  have "distinct (map op_key xs)" using assms(4) by (simp add: ps)
  from apply_ops_effect [OF run assms(2,3) this free]
  have "snapshot s ln (sq - 1) = snapshot st ln (sq - 1)" using assms(7) by simp
  with one show ?thesis by (auto simp: content_def dest!: apply_op_accepts)
qed

text \<open> An accepted operation fits the live state. If an append that continues the line of \<open>p\<close>
  succeeds, every key it retracts is live at \<open>p\<close>, and every operation on a live key has the live
  fact's kind.
\<close>

theorem accepted_operations_fit:
  assumes "reachable_store m" and "store_append m r base = (Ok info, m')"
    and "nr_parent r = Some p" and "store_is_tip m p = Ok True"
    and "q \<in> set (nr_ops r)"
  shows "case store_get m p (fst (op_key q)) (snd (op_key q)) of
      Inr (Some f) \<Rightarrow> fv_kind (sf_version f) = op_kind q
    | Inr None \<Rightarrow> (\<exists>v. q = AssertOp v)
    | Inl _ \<Rightarrow> False"
proof -
  have app: "state_append (state m) r base = Inr (state m', info)"
    using store_append_OkD [OF assms(2)] by simp
  have cont: "continues (state m) (parent_info (state m) r)"
    using continues_tip [OF assms(3)] assms(4) by simp
  from reachable_store_inv [OF assms(1)] app show ?thesis
  proof (rule state_append_cases)
    fix st1 ln sq l
    assume *: "store_inv st1" "map_of (lines st1) ln = Some l" "ln_tip l = sq - 1" "1 \<le> sq"
      "distinct (map op_key (nr_ops r))"
      "continues (state m) (parent_info (state m) r) \<Longrightarrow>
         (\<exists>p. parent_info (state m) r = Some p \<and> ri_line p = ln \<and> ri_seq p = sq - 1
            \<and> snapshot st1 ln (sq - 1) = snapshot (state m) ln (sq - 1))"
      "finish_revision r st1 ln sq = Inr (state m', info)"
    from *(7) obtain s where run: "try_fold (apply_op ln sq (revision_recording r)) st1 (nr_ops r) = Inr s"
      by (auto simp: finish_revision_def)
    have bounded: "line_bounded (versions st1) ln (sq - 1)"
      using line_bounded_line [OF *(1,2)] *(3) by simp
    have "line_ok st1 ln l" using *(1,2) by (simp add: store_inv_def)
    then have dist: "distinct (map fkey (snapshot st1 ln (sq - 1)))"
      using *(3,4) by (simp add: line_ok_def)
    have "case content st1 ln (sq - 1) (op_key q) of
        None \<Rightarrow> \<exists>v. q = AssertOp v | Some f \<Rightarrow> fv_kind (sf_version f) = op_kind q"
      using apply_ops_accept [OF run line_bounded_mono [OF bounded] dist *(5) _ assms(5) *(4)]
        line_bounded_started [OF bounded, of sq] by simp
    moreover from *(6) [OF cont] assms(3) obtain pi where "map_of (revisions (state m)) p = Some pi"
      "ri_line pi = ln" "ri_seq pi = sq - 1" "snapshot st1 ln (sq - 1) = snapshot (state m) ln (sq - 1)"
      by (auto simp: parent_info_def)
    ultimately show ?thesis
      by (simp add: store_get_content st_info_def content_def split: option.splits)
  qed
qed

theorem accepted_operations_fit_witness:
  "\<exists>f. store_get demo1 ''r1'' NsRecord ''e'' = Ok (Some f) \<and> fv_kind (sf_version f) = FkEdge"
proof -
  have tip: "store_is_tip demo1 ''r1'' = Ok True" by (simp add: store_is_tip_def demo_eval)
  have parent: "nr_parent demo_second = Some ''r1''" by (simp add: demo_defs)
  have "RetractOp FkEdge ''e'' \<in> set (nr_ops demo_second)" by (simp add: demo_defs)
  from accepted_operations_fit [OF reachable_demo1 demo2_append parent tip this] show ?thesis
    by (simp add: op_key_def split: sum.splits option.splits)
qed

end
