(* ===== verification/Visibility.thy ===== *)
theory Visibility
  imports Weave_Prelude
begin

text \<open>
  The record visibility rule (\<open>crates/weave-engine/src/visibility.rs\<close>): the identity of a request
  as a conjunction of reader clauses, the predicate that admits a record, and the restriction of a
  record derived from several records. \<open>BTreeSet\<close>s are sorted lists.
\<close>

section \<open>Identity of a request\<close>

record clause =
  cl_principals :: "string btree_set"
  cl_groups :: "string btree_set"

text \<open>The list is the field \<open>clauses\<close> of \<open>Access\<close>; the last clause is the principal's own.\<close>

type_synonym access = "clause list"

definition clause_default :: clause where
  "clause_default = \<lparr>cl_principals = [], cl_groups = []\<rparr>"

definition admits :: "clause \<Rightarrow> string list \<Rightarrow> string list \<Rightarrow> bool" where
  "admits c readers reader_groups \<longleftrightarrow>
     list_ex (\<lambda>r. r \<in> set (cl_principals c)) readers \<or> list_ex (\<lambda>g. g \<in> set (cl_groups c)) reader_groups"

definition access_literal :: "string \<Rightarrow> access" where
  "access_literal p = [\<lparr>cl_principals = [p], cl_groups = []\<rparr>]"

definition access_nobody :: access where
  "access_nobody = [clause_default]"

definition from_clauses :: "clause list \<Rightarrow> access" where
  "from_clauses cs = (if cs = [] then access_nobody else cs)"

definition has_group :: "access \<Rightarrow> string \<Rightarrow> bool" where
  "has_group acc g \<longleftrightarrow> list_all (\<lambda>c. g \<in> set (cl_groups c)) acc"

definition record_admits :: "string list \<Rightarrow> string list \<Rightarrow> access \<Rightarrow> bool" where
  "record_admits readers reader_groups acc \<longleftrightarrow>
     readers = [] \<and> reader_groups = [] \<or> list_all (\<lambda>c. admits c readers reader_groups) acc"

definition readers_admit :: "string list \<Rightarrow> access \<Rightarrow> bool" where
  "readers_admit readers acc = record_admits readers [] acc"

section \<open>Derived restrictions\<close>

record restriction =
  rs_readers :: "string list"
  rs_reader_groups :: "string list"

definition rs_public :: "restriction \<Rightarrow> bool" where
  "rs_public r \<longleftrightarrow> rs_readers r = [] \<and> rs_reader_groups r = []"

datatype derived = Literal "string list" | Conjunction "(string list \<times> string list) list"

fun encode :: "derived \<Rightarrow> string list \<times> string list" where
  "encode (Literal readers) = (readers, [])"
| "encode (Conjunction clauses) = (case clauses of [] \<Rightarrow> ([], []) | c # _ \<Rightarrow> c)"

definition matches_no_one :: string where
  "matches_no_one = ''weave:no-reader''"

definition intersect_readers :: "string list \<Rightarrow> string list \<Rightarrow> string list" where
  "intersect_readers left right =
     (if left = [] then right
      else if right = [] then left
      else (let common = filter (\<lambda>p. p \<in> set right) left in
            if common = [] then [matches_no_one] else common))"

definition intersect :: "restriction list \<Rightarrow> derived" where
  "intersect inputs =
     (if list_all (\<lambda>r. rs_reader_groups r = []) inputs then
        (let readers = fold (\<lambda>r acc. Some (case acc of None \<Rightarrow> rs_readers r
                             | Some current \<Rightarrow> intersect_readers current (rs_readers r))) inputs None
         in Literal (case readers of None \<Rightarrow> [] | Some rs \<Rightarrow> rs))
      else Conjunction (map (\<lambda>r. (rs_readers r, rs_reader_groups r))
                          (filter (\<lambda>r. \<not> rs_public r) inputs)))"

section \<open>What the rule promises\<close>

text \<open>Who may read a record with a derived restriction: every clause of it must admit the reader.\<close>

definition derived_admits :: "derived \<Rightarrow> access \<Rightarrow> bool" where
  "derived_admits d acc =
     (case d of Literal readers \<Rightarrow> record_admits readers [] acc
      | Conjunction clauses \<Rightarrow> list_all (\<lambda>(rs, gs). record_admits rs gs acc) clauses)"

text \<open>An input admits a request.\<close>

definition restriction_admits :: "restriction \<Rightarrow> access \<Rightarrow> bool" where
  "restriction_admits r acc = record_admits (rs_readers r) (rs_reader_groups r) acc"

text \<open>No clause of the request names the reserved reader that is issued to no one.\<close>

definition real_readers :: "access \<Rightarrow> bool" where
  "real_readers acc \<longleftrightarrow> list_all (\<lambda>c. matches_no_one \<notin> set (cl_principals c)) acc"

lemmas visibility_defs = record_admits_def admits_def list_all_iff list_ex_iff

lemma record_admits_public [simp]: "record_admits [] [] acc"
  by (simp add: record_admits_def)

lemma record_admits_cons [simp]:
  "record_admits rs gs (c # acc) \<longleftrightarrow>
     (rs = [] \<and> gs = []) \<or> (admits c rs gs \<and> record_admits rs gs acc)"
  by (auto simp: record_admits_def)

lemma record_admits_literal:
  "record_admits rs gs (access_literal p) \<longleftrightarrow> (rs = [] \<and> gs = []) \<or> p \<in> set rs"
  by (auto simp: visibility_defs access_literal_def)

lemma intersect_readers_Nil [simp]: "intersect_readers [] r = r" "intersect_readers l [] = l"
  by (simp_all add: intersect_readers_def)

lemma intersect_readers_admits:
  assumes "real_readers acc" and "record_admits (intersect_readers l r) [] acc"
  shows "record_admits l [] acc \<and> record_admits r [] acc"
proof -
  have ne: "acc \<noteq> [] \<Longrightarrow> \<not> record_admits [matches_no_one] [] acc"
    using assms(1) by (cases acc) (auto simp: real_readers_def admits_def)
  show ?thesis
  proof (cases "l = [] \<or> r = [] \<or> acc = []")
    case True
    then show ?thesis using assms(2) by (elim disjE) (simp_all add: record_admits_def)
  next
    case False
    let ?common = "filter (\<lambda>p. p \<in> set r) l"
    have eq: "intersect_readers l r = (if ?common = [] then [matches_no_one] else ?common)"
      using False by (simp add: intersect_readers_def Let_def)
    with assms(2) ne False have "?common \<noteq> []" "record_admits ?common [] acc"
      by (auto split: if_splits)
    then show ?thesis unfolding visibility_defs by fastforce
  qed
qed

lemma intersect_readers_complete:
  assumes "record_admits l [] (access_literal p)" "record_admits r [] (access_literal p)"
  shows "record_admits (intersect_readers l r) [] (access_literal p)"
  using assms by (auto simp: intersect_readers_def record_admits_literal Let_def filter_empty_conv)

definition meet_readers :: "restriction \<Rightarrow> string list option \<Rightarrow> string list option" where
  "meet_readers r acc = Some (case acc of None \<Rightarrow> rs_readers r
     | Some current \<Rightarrow> intersect_readers current (rs_readers r))"

lemma fold_meet_Some:
  "fold meet_readers inputs (Some rs) = Some (foldl intersect_readers rs (map rs_readers inputs))"
  by (induction inputs arbitrary: rs) (simp_all add: meet_readers_def)

lemma intersect_literal:
  assumes "list_all (\<lambda>r. rs_reader_groups r = []) inputs"
  shows "intersect inputs = Literal (case inputs of [] \<Rightarrow> []
      | r # rest \<Rightarrow> foldl intersect_readers (rs_readers r) (map rs_readers rest))"
proof -
  have "(\<lambda>r acc. Some (case acc of None \<Rightarrow> rs_readers r
      | Some current \<Rightarrow> intersect_readers current (rs_readers r))) = meet_readers"
    by (simp add: meet_readers_def fun_eq_iff)
  moreover have "meet_readers r None = Some (rs_readers r)" for r by (simp add: meet_readers_def)
  ultimately show ?thesis using assms
    by (cases inputs) (simp_all add: intersect_def fold_meet_Some)
qed

lemma foldl_intersect_admits:
  assumes "real_readers acc"
  shows "record_admits (foldl intersect_readers rs rss) [] acc \<Longrightarrow>
     record_admits rs [] acc \<and> (\<forall>l \<in> set rss. record_admits l [] acc)"
proof (induction rss arbitrary: rs)
  case (Cons l rss)
  have "record_admits (foldl intersect_readers (intersect_readers rs l) rss) [] acc"
    using Cons.prems by simp
  from Cons.IH [OF this] intersect_readers_admits [OF assms, of rs l] show ?case by simp
qed simp

lemma foldl_intersect_complete:
  "record_admits rs [] (access_literal p) \<Longrightarrow> \<forall>l \<in> set rss. record_admits l [] (access_literal p)
   \<Longrightarrow> record_admits (foldl intersect_readers rs rss) [] (access_literal p)"
  by (induction rss arbitrary: rs) (simp_all add: intersect_readers_complete)

lemma intersect_conjunction:
  assumes "\<not> list_all (\<lambda>r. rs_reader_groups r = []) inputs"
  shows "derived_admits (intersect inputs) acc = list_all (\<lambda>r. restriction_admits r acc) inputs"
  using assms
  by (auto simp: intersect_def derived_admits_def list_all_iff restriction_admits_def rs_public_def)

lemma derived_never_widens_core:
  assumes "real_readers acc" and "derived_admits (intersect inputs) acc" and "r \<in> set inputs"
  shows "restriction_admits r acc"
proof (cases "list_all (\<lambda>r. rs_reader_groups r = []) inputs")
  case True
  from assms(3) obtain r0 rest where inputs: "inputs = r0 # rest" by (cases inputs) auto
  have "record_admits (foldl intersect_readers (rs_readers r0) (map rs_readers rest)) [] acc"
    using assms(2) intersect_literal [OF True] by (simp add: derived_admits_def inputs)
  from foldl_intersect_admits [OF assms(1) this] True assms(3) show ?thesis
    by (auto simp: inputs restriction_admits_def list_all_iff)
next
  case False
  from intersect_conjunction [OF this] assms(2,3) show ?thesis by (simp add: list_all_iff)
qed

text \<open> Under the literal identity of a store without a registry the derived restriction is exact:
  it admits a principal precisely when every input does.
\<close>

theorem derived_exact_literal:
  assumes "p \<noteq> matches_no_one"
  shows "derived_admits (intersect inputs) (access_literal p)
     \<longleftrightarrow> list_all (\<lambda>r. restriction_admits r (access_literal p)) inputs"
proof (cases "list_all (\<lambda>r. rs_reader_groups r = []) inputs")
  case True
  have real: "real_readers (access_literal p)"
    using assms by (simp add: real_readers_def access_literal_def)
  show ?thesis
  proof (cases inputs)
    case Nil
    then show ?thesis by (simp add: intersect_def derived_admits_def)
  next
    case (Cons r0 rest)
    have "derived_admits (intersect inputs) (access_literal p) \<longleftrightarrow>
        record_admits (foldl intersect_readers (rs_readers r0) (map rs_readers rest)) [] (access_literal p)"
      using intersect_literal [OF True] by (simp add: derived_admits_def Cons)
    also have "\<dots> \<longleftrightarrow> record_admits (rs_readers r0) [] (access_literal p)
        \<and> (\<forall>l \<in> set (map rs_readers rest). record_admits l [] (access_literal p))"
      using foldl_intersect_admits [OF real] foldl_intersect_complete by blast
    finally show ?thesis using True by (auto simp: Cons restriction_admits_def list_all_iff)
  qed
qed (rule intersect_conjunction)

theorem derived_exact_literal_witness:
  "\<not> derived_admits (intersect [\<lparr>rs_readers = [''a''], rs_reader_groups = []\<rparr>,
       \<lparr>rs_readers = [''b''], rs_reader_groups = []\<rparr>]) (access_literal ''a'')"
proof -
  have "''a'' \<noteq> matches_no_one" by (simp add: matches_no_one_def)
  from derived_exact_literal [OF this] show ?thesis
    by (simp add: restriction_admits_def record_admits_literal)
qed

end
