(* ===== verification/Worklist.thy ===== *)
theory Worklist
  imports Weave_Prelude
begin

text \<open>
  The breadth-first closure the registry runs over its membership and ownership maps:
  \<open>while let Some(next) = queue.pop_front() { for g in edges.get(&next) { if admitted(g) &&
  out.insert(g) { bound; queue.push_back(g) } } }\<close>. Four methods of \<open>registry.rs\<close> are instances.
  The theory proves that the loop ends and computes exactly the reachable elements, and that a
  bounded run gives up exactly when there are more of them than the bound.
\<close>

section \<open>The loop\<close>

definition succs :: "('k, 'a btree_set) btree_map \<Rightarrow> 'k \<Rightarrow> 'a list" where
  "succs edges n = bm_or_default [] edges n"

definition exceeds :: "nat option \<Rightarrow> 'a list \<Rightarrow> bool" where
  "exceeds limit out \<longleftrightarrow> (case limit of None \<Rightarrow> False | Some l \<Rightarrow> l < length out)"

fun visit_all :: "('a \<Rightarrow> bool) \<Rightarrow> nat option \<Rightarrow> 'a::linorder btree_set \<Rightarrow> 'a list \<Rightarrow> 'a list
    \<Rightarrow> ('a btree_set \<times> 'a list) option" where
  "visit_all ok limit out queue [] = Some (out, queue)"
| "visit_all ok limit out queue (g # gs) =
     (if ok g \<and> g \<notin> set out then
        (let out' = bs_insert g out in
         if exceeds limit out' then None else visit_all ok limit out' (queue @ [g]) gs)
      else visit_all ok limit out queue gs)"

lemma visit_all_Some:
  "visit_all ok limit out queue gs = Some (out', queue') \<Longrightarrow>
     \<exists>new. queue' = queue @ new \<and> set new \<inter> set out = {} \<and> set out' = set out \<union> set new
       \<and> set new = {g \<in> set gs. ok g} - set out \<and> (new = [] \<longrightarrow> out' = out)"
proof (induction gs arbitrary: out queue)
  case (Cons g gs)
  show ?case
  proof (cases "ok g \<and> g \<notin> set out")
    case True
    with Cons.prems have "visit_all ok limit (bs_insert g out) (queue @ [g]) gs = Some (out', queue')"
      by (simp add: Let_def split: if_splits)
    from Cons.IH [OF this] obtain new where new: "queue' = (queue @ [g]) @ new"
      "set new \<inter> set (bs_insert g out) = {}" "set out' = set (bs_insert g out) \<union> set new"
      "set new = {h \<in> set gs. ok h} - set (bs_insert g out)" by blast
    show ?thesis
      by (rule exI [of _ "g # new"]) (use True new in \<open>auto simp: set_bs_insert\<close>)
  next
    case False
    with Cons.prems have "visit_all ok limit out queue gs = Some (out', queue')" by simp
    from Cons.IH [OF this] obtain new where new: "queue' = queue @ new"
      "set new \<inter> set out = {}" "set out' = set out \<union> set new"
      "set new = {h \<in> set gs. ok h} - set out" "new = [] \<longrightarrow> out' = out" by blast
    show ?thesis by (rule exI [of _ new]) (use False new in auto)
  qed
qed simp

definition targets :: "('a, 'a btree_set) btree_map \<Rightarrow> 'a set" where
  "targets edges = \<Union> (set ` snd ` set edges)"

lemma succs_targets: "set (succs edges n) \<subseteq> targets edges"
proof (cases "map_of edges n")
  case None
  then show ?thesis by (simp add: succs_def bm_or_default_def)
next
  case (Some gs)
  from map_of_SomeD [OF this] show ?thesis
    by (force simp: succs_def bm_or_default_def targets_def Some)
qed

lemma finite_targets [simp]: "finite (targets edges)"
  by (simp add: targets_def)

function worklist :: "('a::linorder, 'a btree_set) btree_map \<Rightarrow> ('a \<Rightarrow> bool) \<Rightarrow> nat option
    \<Rightarrow> 'a btree_set \<Rightarrow> 'a list \<Rightarrow> 'a btree_set option" where
  "worklist edges ok limit out [] = Some out"
| "worklist edges ok limit out (next # queue) =
     (case visit_all ok limit out queue (succs edges next) of
        None \<Rightarrow> None
      | Some (out', queue') \<Rightarrow> worklist edges ok limit out' queue')"
  by pat_completeness auto

lemma worklist_measure:
  assumes "visit_all ok limit out queue (succs edges n) = Some (out', queue')"
  shows "card (targets edges - set out') < card (targets edges - set out)
     \<or> out' = out \<and> queue' = queue"
proof -
  from visit_all_Some [OF assms] obtain new where new: "queue' = queue @ new"
    "set new \<inter> set out = {}" "set out' = set out \<union> set new" "set new \<subseteq> set (succs edges n)"
    "new = [] \<longrightarrow> out' = out" by blast
  show ?thesis
  proof (cases "new = []")
    case False
    then obtain g where g: "g \<in> set new" by (cases new) auto
    have "g \<in> targets edges - set out" "g \<notin> targets edges - set out'"
      using g new succs_targets [of edges n] by auto
    moreover have "targets edges - set out' \<subseteq> targets edges - set out" using new(3) by blast
    ultimately have "targets edges - set out' \<subset> targets edges - set out" by blast
    then show ?thesis by (simp add: psubset_card_mono)
  qed (use new in simp)
qed

termination worklist
proof (relation "inv_image (less_than <*lex*> less_than)
    (\<lambda>(edges, ok, limit, out, queue). (card (targets edges - set out), length queue))")
  fix edges :: "('a, 'a btree_set) btree_map" and ok limit out n queue x out' queue'
  assume "visit_all ok limit out queue (succs edges n) = Some x" and "(out', queue') = x"
  then show "((edges, ok, limit, out', queue'), edges, ok, limit, out, n # queue)
      \<in> inv_image (less_than <*lex*> less_than)
        (\<lambda>(edges, ok, limit, out, queue). (card (targets edges - set out), length queue))"
    using worklist_measure [of ok limit out queue edges n out' queue'] by auto
qed (intro wf_inv_image wf_lex_prod wf_less_than)

section \<open>What it computes\<close>

definition step :: "('a, 'a btree_set) btree_map \<Rightarrow> ('a \<Rightarrow> bool) \<Rightarrow> ('a \<times> 'a) set" where
  "step edges ok = {(a, b). b \<in> set (succs edges a) \<and> ok b}"

lemma step_iff: "(a, b) \<in> step edges ok \<longleftrightarrow> b \<in> set (succs edges a) \<and> ok b"
  by (simp add: step_def)

lemma step_targets: "(step edges ok)\<^sup>+ `` A \<subseteq> targets edges"
proof
  fix b assume "b \<in> (step edges ok)\<^sup>+ `` A"
  then obtain a where "(a, b) \<in> (step edges ok)\<^sup>+" by blast
  then obtain c where "(c, b) \<in> step edges ok" by (metis tranclE)
  then show "b \<in> targets edges" using succs_targets [of edges c] by (auto simp: step_def)
qed

lemma finite_reach [simp]: "finite ((step edges ok)\<^sup>+ `` A)"
  using step_targets finite_targets by (rule finite_subset)

lemma succs_reach: "{g \<in> set (succs edges n). ok g} \<subseteq> (step edges ok)\<^sup>+ `` set (n # queue)"
proof
  fix g assume "g \<in> {g \<in> set (succs edges n). ok g}"
  then have "(n, g) \<in> step edges ok" by (simp add: step_iff)
  then show "g \<in> (step edges ok)\<^sup>+ `` set (n # queue)" by (auto intro: r_into_trancl')
qed

lemma reach_trans: "A \<subseteq> (step edges ok)\<^sup>+ `` B \<Longrightarrow> (step edges ok)\<^sup>+ `` A \<subseteq> (step edges ok)\<^sup>+ `` B"
  by (blast intro: trancl_trans)

lemma reach_queue:
  assumes "set new \<subseteq> (step edges ok)\<^sup>+ `` set (n # queue)"
  shows "(step edges ok)\<^sup>+ `` set (queue @ new) \<subseteq> (step edges ok)\<^sup>+ `` set (n # queue)"
proof -
  have "(step edges ok)\<^sup>+ `` set (queue @ new)
      = (step edges ok)\<^sup>+ `` set queue \<union> (step edges ok)\<^sup>+ `` set new"
    by (simp add: Image_Un)
  with reach_trans [OF assms] show ?thesis by auto
qed

text \<open>Every element taken from the queue has had its successors admitted.\<close>

definition explored :: "('a, 'a btree_set) btree_map \<Rightarrow> ('a \<Rightarrow> bool) \<Rightarrow> 'a set \<Rightarrow> 'a set \<Rightarrow> 'a set \<Rightarrow> bool" where
  "explored edges ok start out queue \<longleftrightarrow>
     (\<forall>n \<in> start \<union> out. n \<in> queue \<or> step edges ok `` {n} \<subseteq> out)"

lemma worklist_Some:
  assumes "worklist edges ok limit out queue = Some res"
    and "explored edges ok start (set out) (set queue)"
  shows "set out \<subseteq> set res \<and> explored edges ok start (set res) {}
     \<and> set res \<subseteq> set out \<union> (step edges ok)\<^sup>+ `` set queue"
  using assms
proof (induction edges ok limit out queue rule: worklist.induct)
  case (2 edges ok limit out n queue)
  from "2.prems"(1) obtain out' queue' where visit:
    "visit_all ok limit out queue (succs edges n) = Some (out', queue')"
    and rest: "worklist edges ok limit out' queue' = Some res"
    by (auto split: option.splits)
  from visit_all_Some [OF visit] obtain new where new: "queue' = queue @ new"
    "set out' = set out \<union> set new" "set new = {g \<in> set (succs edges n). ok g} - set out" by blast
  have succ: "step edges ok `` {n} \<subseteq> set out'" using new(2,3) by (auto simp: step_def)
  have "explored edges ok start (set out') (set queue')"
    using "2.prems"(2) succ new unfolding explored_def by auto
  from "2.IH" [OF visit refl rest this]
  have ih: "set out' \<subseteq> set res" "explored edges ok start (set res) {}"
    "set res \<subseteq> set out' \<union> (step edges ok)\<^sup>+ `` set queue'" by simp_all
  have "set new \<subseteq> (step edges ok)\<^sup>+ `` set (n # queue)"
    using new(3) succs_reach [of edges n ok queue] by blast
  with reach_queue [OF this] ih new(1,2) show ?case by blast
qed auto

lemma explored_closed:
  assumes "explored edges ok start out {}" and "a \<in> start \<union> out" and "(a, b) \<in> (step edges ok)\<^sup>+"
  shows "b \<in> out"
  using assms(3)
proof (induction rule: trancl_induct)
  case (base b)
  then show ?case using assms(1,2) by (auto simp: explored_def)
next
  case (step b c)
  then show ?case using assms(1) by (auto simp: explored_def)
qed

text \<open>The closure of an element, as \<open>closure\<close>, \<open>ancestors\<close> and \<open>agents_of\<close> run the loop.\<close>

lemma worklist_closure:
  assumes "worklist edges ok limit [] [x] = Some res"
  shows "set res = (step edges ok)\<^sup>+ `` {x}"
proof -
  have "explored edges ok {x} (set []) (set [x])" by (simp add: explored_def)
  from worklist_Some [OF assms this] show ?thesis
    using explored_closed [of edges ok "{x}" "set res" x] by auto
qed

lemma worklist_closure_from:
  assumes "worklist edges ok limit [x] [x] = Some res"
  shows "set res = (step edges ok)\<^sup>* `` {x}"
proof -
  have "explored edges ok {} (set [x]) (set [x])" by (simp add: explored_def)
  from worklist_Some [OF assms this]
  have *: "x \<in> set res" "explored edges ok {} (set res) {}" "set res \<subseteq> {x} \<union> (step edges ok)\<^sup>+ `` {x}"
    by simp_all
  have "(step edges ok)\<^sup>+ `` {x} \<subseteq> set res"
    using explored_closed [OF *(2), of x] *(1) by blast
  with * show ?thesis by (auto simp: rtrancl_eq_or_trancl)
qed

section \<open>When it gives up\<close>

lemma visit_all_None:
  assumes "visit_all ok limit out queue gs = None" and "distinct out"
  obtains l where "limit = Some l" "l < card (set out \<union> {g \<in> set gs. ok g})"
  using assms
proof (induction gs arbitrary: out queue thesis)
  case (Cons g gs)
  show ?case
  proof (cases "ok g \<and> g \<notin> set out")
    case True
    let ?out = "bs_insert g out"
    have dist: "distinct ?out" using Cons.prems(3) by simp
    note card = distinct_card [OF this]
    show ?thesis
    proof (cases "exceeds limit ?out")
      case True
      then obtain l where l: "limit = Some l" "l < length ?out"
        by (auto simp: exceeds_def split: option.splits)
      moreover have "card (set ?out) \<le> card (set out \<union> {h \<in> set (g # gs). ok h})"
        by (rule card_mono) (use \<open>ok g \<and> g \<notin> set out\<close> in auto)
      ultimately show ?thesis using Cons.prems(1) card by simp
    next
      case False
      with True Cons.prems(2) have "visit_all ok limit ?out (queue @ [g]) gs = None" by simp
      from Cons.IH [OF _ this dist] obtain l where "limit = Some l"
        "l < card (set ?out \<union> {h \<in> set gs. ok h})" by blast
      moreover have "set ?out \<union> {h \<in> set gs. ok h} = set out \<union> {h \<in> set (g # gs). ok h}"
        using True by auto
      ultimately show ?thesis using Cons.prems(1) by simp
    qed
  next
    case False
    with Cons.prems(2) have "visit_all ok limit out queue gs = None" by auto
    from Cons.IH [OF _ this Cons.prems(3)] obtain l where "limit = Some l"
      "l < card (set out \<union> {h \<in> set gs. ok h})" by blast
    moreover have "set out \<union> {h \<in> set gs. ok h} = set out \<union> {h \<in> set (g # gs). ok h}"
      using False by auto
    ultimately show ?thesis using Cons.prems(1) by simp
  qed
qed simp

lemma visit_all_distinct:
  "visit_all ok limit out queue gs = Some (out', queue') \<Longrightarrow> distinct out \<Longrightarrow> distinct out'"
  by (induction gs arbitrary: out queue) (auto simp: Let_def split: if_splits)

lemma worklist_distinct:
  "worklist edges ok limit out queue = Some res \<Longrightarrow> distinct out \<Longrightarrow> distinct res"
  by (induction edges ok limit out queue rule: worklist.induct)
    (auto dest: visit_all_distinct split: option.splits)

lemma worklist_None:
  assumes "worklist edges ok limit out queue = None" and "distinct out"
  shows "\<exists>l. limit = Some l \<and> l < card (set out \<union> (step edges ok)\<^sup>+ `` set queue)"
  using assms
proof (induction edges ok limit out queue rule: worklist.induct)
  case (2 edges ok limit out n queue)
  let ?all = "set out \<union> (step edges ok)\<^sup>+ `` set (n # queue)"
  note more = succs_reach [of edges n ok queue]
  show ?case
  proof (cases "visit_all ok limit out queue (succs edges n)")
    case None
    from visit_all_None [OF this "2.prems"(2)] obtain l where l: "limit = Some l"
      "l < card (set out \<union> {g \<in> set (succs edges n). ok g})" by blast
    moreover have "card (set out \<union> {g \<in> set (succs edges n). ok g}) \<le> card ?all"
      by (rule card_mono) (use more in auto)
    ultimately show ?thesis by auto
  next
    case (Some p)
    then obtain out' queue' where visit:
      "visit_all ok limit out queue (succs edges n) = Some (out', queue')" by (cases p) simp
    with "2.prems"(1) have rest: "worklist edges ok limit out' queue' = None" by simp
    from visit_all_Some [OF visit] obtain new where new: "queue' = queue @ new"
      "set out' = set out \<union> set new" "set new = {g \<in> set (succs edges n). ok g} - set out" by blast
    from "2.IH" [OF visit refl rest visit_all_distinct [OF visit "2.prems"(2)]]
    obtain l where l: "limit = Some l" "l < card (set out' \<union> (step edges ok)\<^sup>+ `` set queue')" by blast
    have sub: "set new \<subseteq> (step edges ok)\<^sup>+ `` set (n # queue)" using new(3) more by blast
    with reach_queue [OF sub] new(1,2)
    have "set out' \<union> (step edges ok)\<^sup>+ `` set queue' \<subseteq> ?all" by blast
    then have "card (set out' \<union> (step edges ok)\<^sup>+ `` set queue') \<le> card ?all"
      by (rule card_mono [rotated]) simp
    with l show ?thesis by auto
  qed
qed simp

lemma worklist_unbounded: "\<exists>res. worklist edges ok None out queue = Some res"
proof (induction edges ok "None :: nat option" out queue rule: worklist.induct)
  case (2 edges ok out n queue)
  have "visit_all ok None o1 q1 gs \<noteq> None" for o1 q1 :: "'a list" and gs
    by (induction gs arbitrary: o1 q1) (auto simp: exceeds_def Let_def)
  then obtain p where p: "visit_all ok None out queue (succs edges n) = Some p" by blast
  obtain out' queue' where "p = (out', queue')" by (cases p) simp
  then show ?case using p "2.hyps" by simp
qed simp

lemma visit_all_bounded:
  "visit_all ok (Some l) out queue gs = Some (out', queue') \<Longrightarrow> length out \<le> l \<Longrightarrow> length out' \<le> l"
  by (induction gs arbitrary: out queue) (auto simp: Let_def exceeds_def split: if_splits)

lemma worklist_bounded:
  "worklist edges ok (Some l) out queue = Some res \<Longrightarrow> length out \<le> l \<Longrightarrow> length res \<le> l"
  by (induction edges ok "Some l" out queue rule: worklist.induct)
    (auto dest: visit_all_bounded split: option.splits)

text \<open>A bounded closure fails exactly when the reachable set is larger than the bound.\<close>

lemma worklist_bound_exact:
  "worklist edges ok (Some l) [] [x] = None \<longleftrightarrow> l < card ((step edges ok)\<^sup>+ `` {x})"
proof
  assume "worklist edges ok (Some l) [] [x] = None"
  from worklist_None [OF this] show "l < card ((step edges ok)\<^sup>+ `` {x})" by simp
next
  assume less: "l < card ((step edges ok)\<^sup>+ `` {x})"
  show "worklist edges ok (Some l) [] [x] = None"
  proof (rule ccontr)
    assume "worklist edges ok (Some l) [] [x] \<noteq> None"
    then obtain res where res: "worklist edges ok (Some l) [] [x] = Some res" by blast
    have "card (set res) \<le> l"
      using worklist_bounded [OF res] worklist_distinct [OF res] by (simp add: distinct_card)
    with less worklist_closure [OF res] show False by simp
  qed
qed

end
