(* ===== verification/Registry_Model.thy ===== *)
theory Registry_Model
  imports Visibility Worklist
begin

text \<open>
  The principal registry (\<open>crates/weave-engine/src/registry.rs\<close>): principals, groups and agents,
  the registry state at one revision, the resolution of a principal into its identity and authority,
  and the permission checks. The per-revision cache of resolutions is modelled in
  \<open>Registry_Cache\<close>; here \<open>compute\<close> is the cached function itself. The state's \<open>revision\<close>
  string, which only keys that cache, is left out.
\<close>

section \<open>Principals and permissions\<close>

definition administrators_group :: string where
  "administrators_group = ''weave:administrators''"

definition registry_graph :: string where
  "registry_graph = ''weave:registry''"

definition max_group_depth :: nat where "max_group_depth = 4"
definition max_group_closure :: nat where "max_group_closure = 1024"
definition max_registry_changes :: nat where "max_registry_changes = 1000"
definition max_registry_records :: nat where "max_registry_records = 100000"
definition max_ownership_chain :: nat where "max_ownership_chain = 8"
definition max_delegation_entries :: nat where "max_delegation_entries = 256"

definition reserved :: "string \<Rightarrow> bool" where
  "reserved graph \<longleftrightarrow> graph = registry_graph"

datatype (plugins only: code size) principal_kind = PkUser | PkGroup | PkAgent

datatype (plugins only: code size) principal_status = Active | Suspended | Retired

datatype (plugins only: code size) permission = Discover | Read | Write | Administer

fun permission_rank :: "permission \<Rightarrow> nat" where
  "permission_rank Discover = 0"
| "permission_rank Read = 1"
| "permission_rank Write = 2"
| "permission_rank Administer = 3"

lemma permission_rank_inject [simp]: "permission_rank p = permission_rank q \<longleftrightarrow> p = q"
  by (cases p; cases q) simp_all

instantiation permission :: linorder
begin
definition less_eq_permission :: "permission \<Rightarrow> permission \<Rightarrow> bool" where
  "less_eq_permission p q = (permission_rank p \<le> permission_rank q)"
definition less_permission :: "permission \<Rightarrow> permission \<Rightarrow> bool" where
  "less_permission p q = (permission_rank p < permission_rank q)"
instance
  by standard (auto simp: less_eq_permission_def less_permission_def)
end

lemmas permission_order = less_eq_permission_def less_permission_def

record delegated_scope =
  ds_graph_id :: string
  ds_permission :: permission
  ds_branches :: "string list"

datatype exercise = OwnerAll | Only "string list"

record delegation =
  dg_scopes :: "delegated_scope list"
  dg_exercise :: exercise
  dg_expires_at_ms :: "int option"
  dg_may_delegate :: bool

record entry =
  pe_kind :: principal_kind
  pe_status :: principal_status
  pe_display_name :: "string option"
  pe_administrators :: "string list"
  pe_owner :: "string option"
  pe_delegation :: "delegation option"

record registry =
  rg_principals :: "(string, entry) btree_map"
  rg_members :: "(string, string btree_set) btree_map"
  rg_parents :: "(string, string btree_set) btree_map"
  rg_grants :: "(string, (string, permission) btree_map) btree_map"
  rg_protected :: "(string \<times> string, string btree_set) btree_map"
  rg_owned :: "(string, string btree_set) btree_map"

definition empty_registry :: registry where
  "empty_registry = \<lparr>rg_principals = [], rg_members = [], rg_parents = [], rg_grants = [],
     rg_protected = [], rg_owned = []\<rparr>"

text \<open>\<open>Resolved\<close> and its \<open>Actor\<close>.\<close>

datatype resolved = Resolved (rv_access: access) (rv_actor: actor)
  and actor =
    Nobody
  | UserActor "string btree_set" bool
  | AgentActor resolved "delegated_scope list" "int option" bool

definition resolved_nobody :: resolved where
  "resolved_nobody = Resolved access_nobody Nobody"

fun is_user :: "resolved \<Rightarrow> bool" where
  "is_user (Resolved _ (UserActor _ _)) = True"
| "is_user _ = False"

fun administrator :: "resolved \<Rightarrow> bool" where
  "administrator (Resolved _ (UserActor _ admin)) = admin"
| "administrator _ = False"

fun subjects :: "resolved \<Rightarrow> string btree_set" where
  "subjects (Resolved _ (UserActor s _)) = s"
| "subjects _ = []"

fun expires_at :: "resolved \<Rightarrow> int option" where
  "expires_at (Resolved _ (AgentActor _ _ e _)) = e"
| "expires_at _ = None"

fun may_delegate :: "resolved \<Rightarrow> bool" where
  "may_delegate (Resolved _ (AgentActor _ _ _ d)) = d"
| "may_delegate _ = False"

definition is_nobody :: "resolved \<Rightarrow> bool" where
  "is_nobody who \<longleftrightarrow> (case rv_actor who of Nobody \<Rightarrow> True | _ \<Rightarrow> False)"

section \<open>Groups\<close>

definition entry_of :: "registry \<Rightarrow> string \<Rightarrow> entry option" where
  "entry_of st i = map_of (rg_principals st) i"

definition active_group :: "registry \<Rightarrow> string \<Rightarrow> bool" where
  "active_group st i =
     (case entry_of st i of None \<Rightarrow> False
      | Some e \<Rightarrow> pe_status e = Active \<and> pe_kind e = PkGroup)"

definition closure :: "registry \<Rightarrow> string \<Rightarrow> string btree_set option" where
  "closure st i = worklist (rg_parents st) (active_group st) (Some max_group_closure) [] [i]"

text \<open>The limit \<open>usize::MAX\<close>, which no length exceeds, is \<open>None\<close>.\<close>

definition ancestors :: "registry \<Rightarrow> string \<Rightarrow> nat option \<Rightarrow> string btree_set option" where
  "ancestors st i limit = worklist (rg_parents st) (\<lambda>_. True) limit [] [i]"

text \<open>
  The longest chain of groups upwards, with the memo table threaded through the recursion;
  \<open>heights\<close> is the \<open>map(..).max().unwrap_or(0)\<close> over several groups.
\<close>

type_synonym memo = "(string \<times> nat) list"

function height :: "registry \<Rightarrow> string \<Rightarrow> memo \<Rightarrow> nat \<Rightarrow> nat \<times> memo"
  and heights :: "registry \<Rightarrow> string list \<Rightarrow> memo \<Rightarrow> nat \<Rightarrow> nat \<times> memo" where
  "height st g memo guard =
     (case map_of memo g of
        Some h \<Rightarrow> (h, memo)
      | None \<Rightarrow>
          if max_group_depth + 1 < guard then (guard, memo)
          else (let (m, memo') = heights st (succs (rg_parents st) g) memo (guard + 1)
                in (1 + m, (g, 1 + m) # memo')))"
| "heights st [] memo guard = (0, memo)"
| "heights st (g # gs) memo guard =
     (let (h, memo1) = height st g memo guard;
          (hs, memo2) = heights st gs memo1 guard
      in (max h hs, memo2))"
  by pat_completeness auto

termination
  by (relation "measures [\<lambda>x. case x of Inl (_, _, _, guard) \<Rightarrow> max_group_depth + 2 - guard
        | Inr (_, _, _, guard) \<Rightarrow> max_group_depth + 2 - guard,
      \<lambda>x. case x of Inl _ \<Rightarrow> 0 | Inr (_, gs, _, _) \<Rightarrow> Suc (length gs)]")
    auto

section \<open>Resolution\<close>

definition active :: "registry \<Rightarrow> string \<Rightarrow> bool" where
  "active st i = (case entry_of st i of None \<Rightarrow> False | Some e \<Rightarrow> pe_status e = Active)"

definition agents_of :: "registry \<Rightarrow> string \<Rightarrow> string btree_set" where
  "agents_of st owner =
     (case worklist (rg_owned st) (active st) None [] [owner] of None \<Rightarrow> [] | Some out \<Rightarrow> out)"

definition bs_extend :: "'a::linorder btree_set \<Rightarrow> 'a list \<Rightarrow> 'a btree_set" where
  "bs_extend s xs = fold bs_insert xs s"

text \<open>The identities an agent exercises, limited to what its owner's own clause holds now.\<close>

fun exercised :: "clause \<Rightarrow> exercise \<Rightarrow> clause \<Rightarrow> clause" where
  "exercised held OwnerAll local =
     \<lparr>cl_principals = bs_extend (cl_principals local) (cl_principals held),
      cl_groups = bs_extend (cl_groups local) (cl_groups held)\<rparr>"
| "exercised held (Only identities) local =
     fold (\<lambda>i c.
       if i \<in> set (cl_principals held) then c\<lparr>cl_principals := bs_insert i (cl_principals c)\<rparr>
       else if i \<in> set (cl_groups held) then c\<lparr>cl_groups := bs_insert i (cl_groups c)\<rparr>
       else c) identities local"

definition earliest :: "int option \<Rightarrow> int option \<Rightarrow> int option" where
  "earliest a b =
     (case (a, b) of (Some x, Some y) \<Rightarrow> Some (min x y) | (Some x, None) \<Rightarrow> Some x | (None, y) \<Rightarrow> y)"

text \<open>The agent's part of \<open>compute\<close>, given its resolved owner.\<close>

definition agent_under :: "resolved \<Rightarrow> delegation \<Rightarrow> clause \<Rightarrow> resolved" where
  "agent_under owner d local =
     (if is_nobody owner then resolved_nobody
      else if rv_access owner = [] then resolved_nobody
      else
        Resolved (from_clauses (rv_access owner @
                    [exercised (last (rv_access owner)) (dg_exercise d) local]))
          (AgentActor owner (dg_scopes d) (earliest (expires_at owner) (dg_expires_at_ms d))
             (dg_may_delegate d)))"

function compute :: "registry \<Rightarrow> string \<Rightarrow> nat \<Rightarrow> resolved" where
  "compute st p depth =
     (case entry_of st p of
        None \<Rightarrow> resolved_nobody
      | Some e \<Rightarrow>
          if pe_status e \<noteq> Active \<or> max_ownership_chain < depth then resolved_nobody
          else
            case closure st p of
              None \<Rightarrow> resolved_nobody
            | Some groups \<Rightarrow>
                (let principals = bs_insert p (agents_of st p);
                     local = \<lparr>cl_principals = principals, cl_groups = groups\<rparr>
                 in case pe_kind e of
                      PkGroup \<Rightarrow> resolved_nobody
                    | PkUser \<Rightarrow>
                        (let subs = bs_insert p groups in
                         Resolved (from_clauses [local])
                           (UserActor subs (administrators_group \<in> set subs)))
                    | PkAgent \<Rightarrow>
                        (case (pe_owner e, pe_delegation e) of
                           (Some owner, Some d) \<Rightarrow> agent_under (compute st owner (Suc depth)) d local
                         | _ \<Rightarrow> resolved_nobody)))"
  by pat_completeness auto

termination
  by (relation "measure (\<lambda>(_, _, depth). Suc max_ownership_chain - depth)") auto

declare compute.simps [simp del] height.simps [simp del]

definition resolve :: "registry \<Rightarrow> string \<Rightarrow> resolved" where
  "resolve st p = compute st p 0"

definition effective :: "registry \<Rightarrow> string \<Rightarrow> int \<Rightarrow> resolved" where
  "effective st p now =
     (let who = resolve st p in
      case expires_at who of
        None \<Rightarrow> who
      | Some t \<Rightarrow> if t \<le> now then resolved_nobody else who)"

text \<open>The ownership chain: the owner first, ending at the root user.\<close>

function chain_from :: "registry \<Rightarrow> string option \<Rightarrow> string list \<Rightarrow> string list" where
  "chain_from st cursor out =
     (case cursor of
        None \<Rightarrow> out
      | Some owner \<Rightarrow>
          if max_ownership_chain \<le> length out \<or> owner \<in> set out then out
          else chain_from st (case entry_of st owner of None \<Rightarrow> None | Some e \<Rightarrow> pe_owner e)
                 (out @ [owner]))"
  by pat_completeness auto

termination
  by (relation "measure (\<lambda>(_, _, out). max_ownership_chain - length out)") auto

declare chain_from.simps [simp del]

definition owner_of :: "registry \<Rightarrow> string \<Rightarrow> string option" where
  "owner_of st p = (case entry_of st p of None \<Rightarrow> None | Some e \<Rightarrow> pe_owner e)"

definition chain :: "registry \<Rightarrow> string \<Rightarrow> string list" where
  "chain st p = chain_from st (owner_of st p) []"

section \<open>Permissions\<close>

text \<open>\<open>Iterator::max\<close>.\<close>

definition iter_max :: "'a::linorder list \<Rightarrow> 'a option" where
  "iter_max xs = (case xs of [] \<Rightarrow> None | y # ys \<Rightarrow> Some (fold max ys y))"

definition is_engine_name :: "string \<Rightarrow> bool" where
  "is_engine_name s \<longleftrightarrow> starts_with s ''weave:''"

definition acl_permission :: "registry \<Rightarrow> string btree_set \<Rightarrow> string \<Rightarrow> permission option" where
  "acl_permission st subs graph =
     (case map_of (rg_grants st) graph of
        None \<Rightarrow> None
      | Some acl \<Rightarrow> iter_max (map snd (filter (\<lambda>(s, _). s \<in> set subs) acl)))"

fun permission_on :: "registry \<Rightarrow> resolved \<Rightarrow> string \<Rightarrow> permission option" where
  "permission_on st (Resolved _ Nobody) graph = None"
| "permission_on st (Resolved _ (AgentActor owner scopes _ _)) graph =
     (case permission_on st owner graph of
        None \<Rightarrow> None
      | Some held \<Rightarrow>
          (case iter_max (map ds_permission (filter (\<lambda>s. ds_graph_id s = graph) scopes)) of
             None \<Rightarrow> None
           | Some scoped \<Rightarrow> Some (min (min held scoped) Write)))"
| "permission_on st (Resolved _ (UserActor subs admin)) graph =
     (if admin then Some Administer
      else if reserved graph then Some Read
      else if is_engine_name graph then Some Read
      else acl_permission st subs graph)"

definition scope_writes :: "string \<Rightarrow> string option \<Rightarrow> delegated_scope \<Rightarrow> bool" where
  "scope_writes graph branch s \<longleftrightarrow>
     ds_graph_id s = graph \<and> Write \<le> ds_permission s
     \<and> (ds_branches s = [] \<or> (case branch of None \<Rightarrow> False | Some b \<Rightarrow> b \<in> set (ds_branches s)))"

fun write_authority :: "registry \<Rightarrow> resolved \<Rightarrow> string \<Rightarrow> string option \<Rightarrow> bool \<Rightarrow> bool" where
  "write_authority st (Resolved _ Nobody) graph branch administer_ok = False"
| "write_authority st (Resolved _ (AgentActor owner scopes _ _)) graph branch administer_ok =
     (write_authority st owner graph branch False \<and> list_ex (scope_writes graph branch) scopes)"
| "write_authority st (Resolved acc (UserActor subs admin)) graph branch administer_ok =
     (case permission_on st (Resolved acc (UserActor subs admin)) graph of
        None \<Rightarrow> False
      | Some p \<Rightarrow>
          (case branch of
             None \<Rightarrow> Write \<le> p
           | Some b \<Rightarrow>
               (case map_of (rg_protected st) (graph, b) of
                  None \<Rightarrow> Write \<le> p
                | Some writers \<Rightarrow>
                    if administer_ok \<and> p = Administer then True
                    else Read \<le> p \<and> list_ex (\<lambda>w. w \<in> set subs) writers)))"

definition can_write :: "registry \<Rightarrow> resolved \<Rightarrow> string \<Rightarrow> string option \<Rightarrow> bool" where
  "can_write st who graph branch = write_authority st who graph branch True"

definition may_administer_group :: "registry \<Rightarrow> resolved \<Rightarrow> string \<Rightarrow> bool" where
  "may_administer_group st who grp \<longleftrightarrow>
     administrator who
     \<or> is_user who \<and> grp \<noteq> administrators_group
       \<and> (case entry_of st grp of None \<Rightarrow> False
          | Some e \<Rightarrow> list_ex (\<lambda>a. a \<in> set (subjects who)) (pe_administrators e))"

definition nameable_group :: "registry \<Rightarrow> resolved \<Rightarrow> string \<Rightarrow> bool" where
  "nameable_group st who grp \<longleftrightarrow>
     active_group st grp \<and> (has_group (rv_access who) grp \<or> may_administer_group st who grp)"

definition may_see_principal :: "registry \<Rightarrow> resolved \<Rightarrow> string \<Rightarrow> string \<Rightarrow> bool" where
  "may_see_principal st who actor i \<longleftrightarrow>
     \<not> is_nobody who \<and> (administrator who \<or> i = actor \<or> actor \<in> set (chain st i))"

end
