(* ===== verification/Registry_Changes.thy ===== *)
theory Registry_Changes
  imports Registry_Model
begin

text \<open>
  Changes of the registry: \<open>add_member\<close>, \<open>check_delegation\<close> and \<open>apply_change\<close> of
  \<open>crates/weave-engine/src/registry.rs\<close>, one definition per constructor of \<open>RegistryChange\<close>. A
  change returns the changed state or the error; the caller drops the state on an error, so a
  partially changed state is never seen.
\<close>

section \<open>Changes\<close>

datatype registry_change =
    AddPrincipal string principal_kind "string option"
  | AddAgent string string delegation "string option"
  | SetDelegation string delegation
  | SetStatus string principal_status
  | AddMember string string
  | RemoveMember string string
  | SetGroupAdministrators string "string list"
  | Grant string string permission
  | Revoke string string
  | ProtectBranch string string
  | UnprotectBranch string string
  | GrantBranchWrite string string string
  | RevokeBranchWrite string string string

fun additive :: "registry_change \<Rightarrow> bool" where
  "additive (AddPrincipal _ _ _) = True"
| "additive (AddAgent _ _ _ _) = True"
| "additive (AddMember _ _) = True"
| "additive (GrantBranchWrite _ _ _) = True"
| "additive (UnprotectBranch _ _) = True"
| "additive _ = False"

record host_context =
  hc_principal :: string
  hc_writable_graphs :: "string set"

section \<open>Group membership\<close>

definition bm_adjoin :: "'k::linorder \<Rightarrow> 'a::linorder \<Rightarrow> ('k, 'a btree_set) btree_map
    \<Rightarrow> ('k, 'a btree_set) btree_map" where
  "bm_adjoin k x m = bm_insert k (bs_insert x (bm_or_default [] m k)) m"

text \<open>The members of a principal and everything below them.\<close>

definition members_below :: "registry \<Rightarrow> string \<Rightarrow> string btree_set" where
  "members_below st member =
     (case worklist (rg_members st) (\<lambda>_. True) None [member] [member] of
        None \<Rightarrow> [] | Some out \<Rightarrow> out)"

definition is_group :: "registry \<Rightarrow> string \<Rightarrow> bool" where
  "is_group st i = (case entry_of st i of None \<Rightarrow> False | Some e \<Rightarrow> pe_kind e = PkGroup)"

text \<open>The closure and depth bounds of one principal; the memo table is shared by the whole loop.\<close>

definition check_nesting :: "registry \<Rightarrow> memo \<Rightarrow> string \<Rightarrow> memo result" where
  "check_nesting st memo p =
     (case ancestors st p (Some max_group_closure) of
        None \<Rightarrow> Err E_BUDGET
      | Some groups \<Rightarrow>
          (let (deepest, memo') =
             heights st (groups @ (if is_group st p then [p] else [])) memo 1
           in if max_group_depth < deepest then Err E_BUDGET else Ok memo'))"

definition link_member :: "registry \<Rightarrow> string \<Rightarrow> string \<Rightarrow> registry" where
  "link_member st grp member =
     st\<lparr>rg_members := bm_adjoin grp member (rg_members st),
        rg_parents := bm_adjoin member grp (rg_parents st)\<rparr>"

definition add_member :: "registry \<Rightarrow> string \<Rightarrow> string \<Rightarrow> registry result" where
  "add_member st grp member =
     rbind (ok_or (entry_of st grp) E_UNAVAILABLE) (\<lambda>target.
     rbind (ensure (pe_kind target = PkGroup) E_REGISTRY) (\<lambda>_.
     rbind (ensure (pe_status target \<noteq> Retired) E_CONFLICT) (\<lambda>_.
     rbind (ok_or (entry_of st member) E_UNAVAILABLE) (\<lambda>e.
     rbind (ensure (grp = administrators_group \<longrightarrow> pe_kind e = PkUser) E_REGISTRY) (\<lambda>_.
       if member \<in> set (succs (rg_members st) grp) then Ok st
       else
         rbind (ok_or (ancestors st grp None) E_UNAVAILABLE) (\<lambda>above.
         rbind (ensure (member \<noteq> grp \<and> member \<notin> set above) E_BUDGET) (\<lambda>_.
           (let st' = link_member st grp member in
            rbind (try_fold (check_nesting st') [] (members_below st' member)) (\<lambda>_. Ok st')))))))))"

section \<open>Delegations\<close>

definition check_scope :: "delegated_scope \<Rightarrow> unit result" where
  "check_scope s =
     rbind (check_id (ds_graph_id s)) (\<lambda>_.
     rbind (ensure (length (ds_branches s) \<le> max_delegation_entries) E_BUDGET) (\<lambda>_.
     rbind (check_each check_id (ds_branches s)) (\<lambda>_.
     ensure (ds_permission s \<noteq> Administer) E_FORBIDDEN)))"

text \<open>A scope of a sub-agent lies inside one scope of its owner.\<close>

definition scope_covered :: "delegated_scope list \<Rightarrow> delegated_scope \<Rightarrow> bool" where
  "scope_covered parent s =
     list_ex (\<lambda>p. ds_graph_id p = ds_graph_id s \<and> ds_permission s \<le> ds_permission p
        \<and> (ds_branches p = [] \<or> ds_permission s < Write
            \<or> (ds_branches s \<noteq> [] \<and> list_all (\<lambda>b. b \<in> set (ds_branches p)) (ds_branches s)))) parent"

definition own_clause :: "resolved \<Rightarrow> clause" where
  "own_clause who = (if rv_access who = [] then clause_default else last (rv_access who))"

definition check_delegation :: "registry \<Rightarrow> string \<Rightarrow> delegation \<Rightarrow> int \<Rightarrow> unit result" where
  "check_delegation st owner d now =
     rbind (ensure (length (dg_scopes d) \<le> max_delegation_entries) E_BUDGET) (\<lambda>_.
     rbind (check_each check_scope (dg_scopes d)) (\<lambda>_.
     rbind (case dg_exercise d of OwnerAll \<Rightarrow> Ok ()
            | Only identities \<Rightarrow>
                rbind (ensure (length identities \<le> max_delegation_entries) E_BUDGET) (\<lambda>_.
                check_each check_id identities)) (\<lambda>_.
     rbind (ensure (case dg_expires_at_ms d of None \<Rightarrow> True | Some t \<Rightarrow> 0 \<le> t) E_REGISTRY) (\<lambda>_.
     rbind (ok_or (entry_of st owner) E_UNAVAILABLE) (\<lambda>owner_entry.
       (let held = effective st owner now in
        rbind (ensure (\<not> is_nobody held) E_UNAVAILABLE) (\<lambda>_.
        rbind (case dg_exercise d of OwnerAll \<Rightarrow> Ok ()
               | Only identities \<Rightarrow>
                   (let mine = own_clause held in
                    ensure (list_all (\<lambda>i. i \<in> set (cl_principals mine) \<or> i \<in> set (cl_groups mine))
                              identities) E_FORBIDDEN)) (\<lambda>_.
          if pe_kind owner_entry = PkAgent then
            rbind (ok_or (pe_delegation owner_entry) E_UNAVAILABLE) (\<lambda>parent.
            rbind (ensure (dg_may_delegate parent) E_FORBIDDEN) (\<lambda>_.
            rbind (ensure (list_all (scope_covered (dg_scopes parent)) (dg_scopes d)) E_FORBIDDEN) (\<lambda>_.
            ensure (case expires_at held of None \<Rightarrow> True
                    | Some limit \<Rightarrow> (case dg_expires_at_ms d of None \<Rightarrow> False | Some t \<Rightarrow> t \<le> limit))
              E_FORBIDDEN)))
          else Ok ()))))))))"

section \<open>One definition per change\<close>

definition is_below :: "registry \<Rightarrow> string \<Rightarrow> string \<Rightarrow> bool" where
  "is_below st actor i \<longleftrightarrow> actor \<in> set (chain st i)"

definition reject_reserved :: "string \<Rightarrow> unit result" where
  "reject_reserved i =
     rbind (check_id i) (\<lambda>_. ensure (\<not> is_engine_name i) E_RESERVED_NAMESPACE)"

definition graph_admin :: "registry \<Rightarrow> resolved \<Rightarrow> string \<Rightarrow> unit result" where
  "graph_admin st who graph =
     rbind (check_id graph) (\<lambda>_.
     rbind (ensure (\<not> is_engine_name graph) E_RESERVED_NAMESPACE) (\<lambda>_.
       case permission_on st who graph of
         None \<Rightarrow> Err E_UNAVAILABLE
       | Some p \<Rightarrow> ensure (p = Administer) E_FORBIDDEN))"

definition known_subject :: "registry \<Rightarrow> string \<Rightarrow> unit result" where
  "known_subject st i =
     rbind (check_id i) (\<lambda>_. rbind (ok_or (entry_of st i) E_UNAVAILABLE) (\<lambda>_. Ok ()))"

definition check_display_name :: "string option \<Rightarrow> unit result" where
  "check_display_name name =
     (case name of None \<Rightarrow> Ok () | Some n \<Rightarrow> ensure (length n \<le> 512) E_ID)"

text \<open>The uniqueness of the ID and the bound on principals, shared by the two registrations.\<close>

definition check_new_principal :: "registry \<Rightarrow> string \<Rightarrow> unit result" where
  "check_new_principal st i =
     rbind (ensure (entry_of st i = None) E_CONFLICT) (\<lambda>_.
     ensure (length (rg_principals st) < max_registry_records div 2) E_BUDGET)"

definition put_entry :: "registry \<Rightarrow> string \<Rightarrow> entry \<Rightarrow> registry" where
  "put_entry st i e = st\<lparr>rg_principals := bm_insert i e (rg_principals st)\<rparr>"

definition add_principal ::
  "registry \<Rightarrow> resolved \<Rightarrow> string \<Rightarrow> principal_kind \<Rightarrow> string option \<Rightarrow> registry result" where
  "add_principal st who i kind name =
     rbind (ensure (administrator who) E_FORBIDDEN) (\<lambda>_.
     rbind (ensure (kind \<noteq> PkAgent) E_REGISTRY) (\<lambda>_.
     rbind (reject_reserved i) (\<lambda>_.
     rbind (check_display_name name) (\<lambda>_.
     rbind (check_new_principal st i) (\<lambda>_.
       Ok (put_entry st i \<lparr>pe_kind = kind, pe_status = Active, pe_display_name = name,
             pe_administrators = [], pe_owner = None, pe_delegation = None\<rparr>))))))"

definition add_agent ::
  "registry \<Rightarrow> resolved \<Rightarrow> string \<Rightarrow> string \<Rightarrow> string \<Rightarrow> delegation \<Rightarrow> string option \<Rightarrow> int \<Rightarrow> registry result" where
  "add_agent st who actor i owner d name now =
     rbind (reject_reserved i) (\<lambda>_.
     rbind (check_id owner) (\<lambda>_.
     rbind (check_display_name name) (\<lambda>_.
     rbind (ok_or (entry_of st owner) E_UNAVAILABLE) (\<lambda>owner_entry.
     rbind (ensure (pe_kind owner_entry \<noteq> PkGroup) E_REGISTRY) (\<lambda>_.
     rbind (ensure (administrator who \<or> owner = actor \<or> is_below st actor owner) E_FORBIDDEN) (\<lambda>_.
     rbind (ensure (length (chain st owner) + 1 \<le> max_ownership_chain) E_BUDGET) (\<lambda>_.
     rbind (check_delegation st owner d now) (\<lambda>_.
     rbind (check_new_principal st i) (\<lambda>_.
       Ok ((put_entry st i \<lparr>pe_kind = PkAgent, pe_status = Active, pe_display_name = name,
              pe_administrators = [], pe_owner = Some owner, pe_delegation = Some d\<rparr>)
           \<lparr>rg_owned := bm_adjoin owner i (rg_owned st)\<rparr>))))))))))"

definition set_delegation ::
  "registry \<Rightarrow> resolved \<Rightarrow> string \<Rightarrow> string \<Rightarrow> delegation \<Rightarrow> int \<Rightarrow> registry result" where
  "set_delegation st who actor agent d now =
     rbind (check_id agent) (\<lambda>_.
     rbind (ok_or (entry_of st agent) E_UNAVAILABLE) (\<lambda>e.
     rbind (ensure (pe_kind e = PkAgent) E_REGISTRY) (\<lambda>_.
     rbind (ensure (administrator who \<or> is_below st actor agent) E_FORBIDDEN) (\<lambda>_.
     rbind (ok_or (pe_owner e) E_UNAVAILABLE) (\<lambda>owner.
     rbind (check_delegation st owner d now) (\<lambda>_.
       Ok (put_entry st agent (e\<lparr>pe_delegation := Some d\<rparr>))))))))"

definition has_active_administrator :: "registry \<Rightarrow> bool" where
  "has_active_administrator st =
     list_ex (\<lambda>(p, e). pe_kind e = PkUser \<and> pe_status e = Active
        \<and> administrators_group \<in> set (succs (rg_parents st) p)) (rg_principals st)"

definition set_status ::
  "registry \<Rightarrow> resolved \<Rightarrow> string \<Rightarrow> string \<Rightarrow> principal_status \<Rightarrow> registry result" where
  "set_status st who actor i status =
     rbind (check_id i) (\<lambda>_.
     rbind (ensure (administrator who \<or> is_below st actor i) E_FORBIDDEN) (\<lambda>_.
     rbind (ensure (i \<noteq> administrators_group) E_RESERVED_NAMESPACE) (\<lambda>_.
     rbind (ok_or (entry_of st i) E_UNAVAILABLE) (\<lambda>e.
     rbind (ensure (pe_status e = Retired \<longrightarrow> status = Retired) E_CONFLICT) (\<lambda>_.
       (let st' = put_entry st i (e\<lparr>pe_status := status\<rparr>) in
        rbind (ensure (has_active_administrator st') E_CONFLICT) (\<lambda>_. Ok st')))))))"

text \<open>
  Who may change a group's members: a member of the group is told it is forbidden, everyone else
  gets the error of an unknown group.
\<close>

definition check_group_admin :: "registry \<Rightarrow> resolved \<Rightarrow> string \<Rightarrow> unit result" where
  "check_group_admin st who grp =
     (if may_administer_group st who grp then Ok ()
      else if active_group st grp \<and> has_group (rv_access who) grp then Err E_FORBIDDEN
      else Err E_UNAVAILABLE)"

definition bm_drop :: "'k::linorder \<Rightarrow> 'a \<Rightarrow> ('k, 'a btree_set) btree_map \<Rightarrow> ('k, 'a btree_set) btree_map" where
  "bm_drop k x m =
     (case map_of m k of
        None \<Rightarrow> m
      | Some xs \<Rightarrow>
          (let xs' = filter (\<lambda>y. y \<noteq> x) xs in
           if xs' = [] then bm_remove k m else bm_insert k xs' m))"

definition remove_member :: "registry \<Rightarrow> resolved \<Rightarrow> string \<Rightarrow> string \<Rightarrow> registry result" where
  "remove_member st who grp member =
     rbind (check_id grp) (\<lambda>_.
     rbind (check_id member) (\<lambda>_.
     rbind (check_group_admin st who grp) (\<lambda>_.
       (let st' = st\<lparr>rg_members := bm_drop grp member (rg_members st),
                     rg_parents := bm_drop member grp (rg_parents st)\<rparr> in
        rbind (ensure (\<not> (grp = administrators_group
                         \<and> map_of (rg_members st') administrators_group = None)) E_CONFLICT) (\<lambda>_.
        Ok st')))))"

definition set_group_administrators ::
  "registry \<Rightarrow> resolved \<Rightarrow> string \<Rightarrow> string list \<Rightarrow> registry result" where
  "set_group_administrators st who grp admins =
     rbind (ensure (administrator who) E_FORBIDDEN) (\<lambda>_.
     rbind (check_id grp) (\<lambda>_.
     rbind (ensure (grp \<noteq> administrators_group) E_RESERVED_NAMESPACE) (\<lambda>_.
     rbind (check_each (known_subject st) admins) (\<lambda>_.
     rbind (ensure (length (sort_dedup admins) \<le> 256) E_BUDGET) (\<lambda>_.
     rbind (ok_or (entry_of st grp) E_UNAVAILABLE) (\<lambda>e.
     rbind (ensure (pe_kind e = PkGroup) E_REGISTRY) (\<lambda>_.
       Ok (put_entry st grp (e\<lparr>pe_administrators := sort_dedup admins\<rparr>)))))))))"

definition grant :: "registry \<Rightarrow> resolved \<Rightarrow> string \<Rightarrow> string \<Rightarrow> permission \<Rightarrow> registry result" where
  "grant st who graph subj p =
     rbind (graph_admin st who graph) (\<lambda>_.
     rbind (known_subject st subj) (\<lambda>_.
       (let acl = bm_or_default [] (rg_grants st) graph in
        rbind (ensure (length acl < 4096 \<or> map_of acl subj \<noteq> None) E_BUDGET) (\<lambda>_.
          Ok (st\<lparr>rg_grants := bm_insert graph (bm_insert subj p acl) (rg_grants st)\<rparr>)))))"

definition revoke :: "registry \<Rightarrow> resolved \<Rightarrow> string \<Rightarrow> string \<Rightarrow> registry result" where
  "revoke st who graph subj =
     rbind (graph_admin st who graph) (\<lambda>_.
     rbind (check_id subj) (\<lambda>_.
       case map_of (rg_grants st) graph of
         None \<Rightarrow> Ok st
       | Some acl \<Rightarrow>
           (let acl' = bm_remove subj acl in
            Ok (st\<lparr>rg_grants := (if acl' = [] then bm_remove graph (rg_grants st)
                                 else bm_insert graph acl' (rg_grants st))\<rparr>))))"

definition protect_branch :: "registry \<Rightarrow> resolved \<Rightarrow> string \<Rightarrow> string \<Rightarrow> registry result" where
  "protect_branch st who graph branch =
     rbind (graph_admin st who graph) (\<lambda>_.
     rbind (check_id branch) (\<lambda>_.
       Ok (st\<lparr>rg_protected := bm_insert (graph, branch)
               (bm_or_default [] (rg_protected st) (graph, branch)) (rg_protected st)\<rparr>)))"

definition unprotect_branch :: "registry \<Rightarrow> resolved \<Rightarrow> string \<Rightarrow> string \<Rightarrow> registry result" where
  "unprotect_branch st who graph branch =
     rbind (graph_admin st who graph) (\<lambda>_.
     rbind (check_id branch) (\<lambda>_.
       Ok (st\<lparr>rg_protected := bm_remove (graph, branch) (rg_protected st)\<rparr>)))"

definition grant_branch_write ::
  "registry \<Rightarrow> resolved \<Rightarrow> string \<Rightarrow> string \<Rightarrow> string \<Rightarrow> registry result" where
  "grant_branch_write st who graph branch subj =
     rbind (graph_admin st who graph) (\<lambda>_.
     rbind (check_id branch) (\<lambda>_.
     rbind (known_subject st subj) (\<lambda>_.
     rbind (ok_or (map_of (rg_protected st) (graph, branch)) E_REGISTRY) (\<lambda>writers.
     rbind (ensure (length writers < 4096) E_BUDGET) (\<lambda>_.
       Ok (st\<lparr>rg_protected := bm_insert (graph, branch) (bs_insert subj writers) (rg_protected st)\<rparr>))))))"

definition revoke_branch_write ::
  "registry \<Rightarrow> resolved \<Rightarrow> string \<Rightarrow> string \<Rightarrow> string \<Rightarrow> registry result" where
  "revoke_branch_write st who graph branch subj =
     rbind (graph_admin st who graph) (\<lambda>_.
     rbind (check_id branch) (\<lambda>_.
     rbind (check_id subj) (\<lambda>_.
       case map_of (rg_protected st) (graph, branch) of
         None \<Rightarrow> Ok st
       | Some writers \<Rightarrow>
           Ok (st\<lparr>rg_protected :=
                 bm_insert (graph, branch) (filter (\<lambda>w. w \<noteq> subj) writers) (rg_protected st)\<rparr>))))"

section \<open>Applying a change\<close>

text \<open>What an agent may do at all: register, re-scope and suspend agents below it.\<close>

fun agent_allowed :: "registry \<Rightarrow> string \<Rightarrow> registry_change \<Rightarrow> bool" where
  "agent_allowed st actor (AddAgent _ owner _ _) = (owner = actor \<or> is_below st actor owner)"
| "agent_allowed st actor (SetDelegation agent _) = is_below st actor agent"
| "agent_allowed st actor (SetStatus i _) = is_below st actor i"
| "agent_allowed st actor _ = False"

fun is_add_agent :: "registry_change \<Rightarrow> bool" where
  "is_add_agent (AddAgent _ _ _ _) = True"
| "is_add_agent _ = False"

definition check_actor :: "registry \<Rightarrow> resolved \<Rightarrow> string \<Rightarrow> registry_change \<Rightarrow> unit result" where
  "check_actor st who actor change =
     rbind (ensure (\<not> is_nobody who) E_FORBIDDEN) (\<lambda>_.
       if is_user who then Ok ()
       else
         rbind (ensure (agent_allowed st actor change) E_FORBIDDEN) (\<lambda>_.
         ensure (is_add_agent change \<longrightarrow> may_delegate who) E_FORBIDDEN))"

fun run_change :: "registry \<Rightarrow> resolved \<Rightarrow> string \<Rightarrow> int \<Rightarrow> registry_change \<Rightarrow> registry result" where
  "run_change st who actor now (AddPrincipal i kind name) = add_principal st who i kind name"
| "run_change st who actor now (AddAgent i owner d name) = add_agent st who actor i owner d name now"
| "run_change st who actor now (SetDelegation agent d) = set_delegation st who actor agent d now"
| "run_change st who actor now (SetStatus i status) = set_status st who actor i status"
| "run_change st who actor now (AddMember grp member) =
     rbind (check_id grp) (\<lambda>_. rbind (check_id member) (\<lambda>_.
     rbind (check_group_admin st who grp) (\<lambda>_. add_member st grp member)))"
| "run_change st who actor now (RemoveMember grp member) = remove_member st who grp member"
| "run_change st who actor now (SetGroupAdministrators grp admins) =
     set_group_administrators st who grp admins"
| "run_change st who actor now (Grant graph subj p) = grant st who graph subj p"
| "run_change st who actor now (Revoke graph subj) = revoke st who graph subj"
| "run_change st who actor now (ProtectBranch graph branch) = protect_branch st who graph branch"
| "run_change st who actor now (UnprotectBranch graph branch) = unprotect_branch st who graph branch"
| "run_change st who actor now (GrantBranchWrite graph branch subj) =
     grant_branch_write st who graph branch subj"
| "run_change st who actor now (RevokeBranchWrite graph branch subj) =
     revoke_branch_write st who graph branch subj"

definition apply_change :: "registry \<Rightarrow> registry_change \<Rightarrow> string \<Rightarrow> int \<Rightarrow> registry result" where
  "apply_change st change actor now =
     (let who = effective st actor now in
      rbind (check_actor st who actor change) (\<lambda>_. run_change st who actor now change))"

section \<open>The first state and created graphs\<close>

definition plain_entry :: "principal_kind \<Rightarrow> entry" where
  "plain_entry kind = \<lparr>pe_kind = kind, pe_status = Active, pe_display_name = None,
     pe_administrators = [], pe_owner = None, pe_delegation = None\<rparr>"

text \<open>The closure \<open>enable_registry\<close> passes to \<open>registry_write\<close>; the flag says nothing is revoked.\<close>

definition enable_change :: "string \<Rightarrow> registry \<Rightarrow> (registry \<times> bool) result" where
  "enable_change actor st =
     rbind (ensure (rg_principals st = []) E_CONFLICT) (\<lambda>_.
       (let st1 = put_entry st administrators_group (plain_entry PkGroup);
            st2 = put_entry st1 actor (plain_entry PkUser)
        in rbind (add_member st2 administrators_group actor) (\<lambda>st3. Ok (st3, False))))"

text \<open>
  The closure of \<open>create_graph\<close>: \<open>graph\<close> is the identifier the engine derived from the digest of
  the host's randomness and \<open>exists\<close> the answer of the query over the stored heads.
\<close>

definition create_graph_change :: "string \<Rightarrow> bool \<Rightarrow> string \<Rightarrow> registry \<Rightarrow> (registry \<times> bool) result" where
  "create_graph_change graph exists actor st =
     rbind (ensure (is_user (resolve st actor)) E_FORBIDDEN) (\<lambda>_.
     rbind (ensure (\<not> (exists \<or> map_of (rg_grants st) graph \<noteq> None
                      \<or> list_ex (\<lambda>(k, _). fst k = graph) (rg_protected st))) E_CONFLICT) (\<lambda>_.
       Ok (st\<lparr>rg_grants := bm_insert graph
               (bm_insert actor Administer (bm_or_default [] (rg_grants st) graph))
               (rg_grants st)\<rparr>, False)))"

end
