(* ===== verification/Registry_Invariant.thy ===== *)
theory Registry_Invariant
  imports Registry_Changes
begin

text \<open>
  Well-formedness of the registry: the two membership maps mirror each other, groups nest within
  the documented bounds, every agent has one registered owner and an ownership chain of at most 8
  links. Each part is a predicate of its own.
\<close>

section \<open>Maps of sets\<close>

definition bs_ok :: "'a::linorder btree_set \<Rightarrow> bool" where
  "bs_ok xs \<longleftrightarrow> sorted_wrt (<) xs"

definition sets_ok :: "('k::linorder, 'a::linorder btree_set) btree_map \<Rightarrow> bool" where
  "sets_ok m \<longleftrightarrow> bm_ok m \<and> (\<forall>k xs. map_of m k = Some xs \<longrightarrow> bs_ok xs \<and> xs \<noteq> [])"

lemma bs_ok_Nil [simp]: "bs_ok []"
  by (simp add: bs_ok_def)

lemma bs_ok_insert [simp]: "bs_ok xs \<Longrightarrow> bs_ok (bs_insert x xs)"
  unfolding bs_ok_def strict_sorted_iff by simp

lemma bs_ok_filter [simp]: "bs_ok xs \<Longrightarrow> bs_ok (filter P xs)"
  by (simp add: bs_ok_def sorted_wrt_filter)

lemma bs_insert_not_Nil [simp]: "bs_insert x xs \<noteq> []"
proof
  assume "bs_insert x xs = []"
  then have "set (bs_insert x xs) = {}" unfolding set_empty .
  then show False by simp
qed

lemma succs_Some: "map_of m k = Some xs \<Longrightarrow> succs m k = xs"
  by (simp add: succs_def bm_or_default_def)

lemma succs_None: "map_of m k = None \<Longrightarrow> succs m k = []"
  by (simp add: succs_def bm_or_default_def)

lemma set_succs_adjoin [simp]:
  "set (succs (bm_adjoin k x m) n) = (if n = k then insert x (set (succs m k)) else set (succs m n))"
  by (simp add: succs_def bm_adjoin_def)

lemma set_succs_drop [simp]:
  "set (succs (bm_drop k x m) n) = (if n = k then set (succs m k) - {x} else set (succs m n))"
proof (cases "map_of m k")
  case None
  then show ?thesis by (simp add: bm_drop_def succs_None)
next
  case (Some xs)
  show ?thesis
  proof (cases "filter (\<lambda>y. y \<noteq> x) xs = []")
    case True
    then have "set xs - {x} = {}" by (auto simp: filter_empty_conv)
    with True Some show ?thesis
      by (simp add: bm_drop_def succs_def bm_or_default_def)
  next
    case False
    then have "bm_drop k x m = bm_insert k (filter (\<lambda>y. y \<noteq> x) xs) m"
      unfolding bm_drop_def Some option.case Let_def by (simp only: if_False)
    then show ?thesis by (simp add: succs_def Some) (auto simp: bm_or_default_def Some)
  qed
qed

lemma bs_ok_default: "sets_ok m \<Longrightarrow> bs_ok (bm_or_default [] m k)"
  by (auto simp: sets_ok_def bm_or_default_def split: option.split)

lemma sets_ok_adjoin [simp]: "sets_ok m \<Longrightarrow> sets_ok (bm_adjoin k x m)"
  using bs_ok_default [of m k] by (auto simp: sets_ok_def bm_adjoin_def)

lemma sets_ok_drop [simp]: "sets_ok m \<Longrightarrow> sets_ok (bm_drop k x m)"
  by (auto simp: sets_ok_def bm_drop_def Let_def split: option.split)

section \<open>The parts of the invariant\<close>

text \<open>The facts about a principal that never change once it is registered.\<close>

definition shape :: "registry \<Rightarrow> string \<Rightarrow> (principal_kind \<times> string option \<times> bool) option" where
  "shape st p = map_option (\<lambda>e. (pe_kind e, pe_owner e, pe_delegation e \<noteq> None)) (entry_of st p)"

definition known :: "registry \<Rightarrow> string \<Rightarrow> bool" where
  "known st p \<longleftrightarrow> entry_of st p \<noteq> None"

definition membership_ok :: "registry \<Rightarrow> bool" where
  "membership_ok st \<longleftrightarrow> sets_ok (rg_members st) \<and> sets_ok (rg_parents st)
     \<and> (\<forall>g m. m \<in> set (succs (rg_members st) g) \<longleftrightarrow> g \<in> set (succs (rg_parents st) m))
     \<and> (\<forall>g m. m \<in> set (succs (rg_members st) g) \<longrightarrow> is_group st g \<and> known st m)"

text \<open>No path of the given number of steps starts here.\<close>

definition stops :: "('a \<times> 'a) set \<Rightarrow> nat \<Rightarrow> 'a \<Rightarrow> bool" where
  "stops r n a \<longleftrightarrow> (\<forall>b. (a, b) \<notin> r ^^ n)"

lemma stops_mono: "stops r m a \<Longrightarrow> m \<le> n \<Longrightarrow> stops r n a"
proof -
  assume m: "stops r m a" and "m \<le> n"
  then obtain k where "n = m + k" using le_Suc_ex by blast
  with m show "stops r n a" by (auto simp: stops_def relpow_add)
qed

lemma stops_Suc: "(\<And>b. (a, b) \<in> r \<Longrightarrow> stops r m b) \<Longrightarrow> stops r (Suc m) a"
  unfolding stops_def by (blast elim: relpow_Suc_E2)

lemma stops_step: "stops r (Suc m) a \<Longrightarrow> (a, b) \<in> r \<Longrightarrow> stops r m b"
  unfolding stops_def by (blast intro: relpow_Suc_I2)

text \<open>One step from a member up to a group that contains it, whatever the group's status.\<close>

definition up :: "registry \<Rightarrow> (string \<times> string) set" where
  "up st = step (rg_parents st) (\<lambda>_. True)"

definition nesting_ok :: "registry \<Rightarrow> bool" where
  "nesting_ok st \<longleftrightarrow> (\<forall>p. card ((up st)\<^sup>+ `` {p}) \<le> max_group_closure)
     \<and> (\<forall>g. is_group st g \<longrightarrow> stops (up st) max_group_depth g)"

text \<open>One step from an agent to its owner.\<close>

definition owns :: "registry \<Rightarrow> (string \<times> string) set" where
  "owns st = {(a, b). owner_of st a = Some b}"

text \<open>Exactly the agents have an owner and a delegation.\<close>

definition shape_ok :: "principal_kind \<Rightarrow> string option \<Rightarrow> bool \<Rightarrow> bool" where
  "shape_ok k w d \<longleftrightarrow> (k = PkAgent \<longleftrightarrow> w \<noteq> None) \<and> (k = PkAgent \<longleftrightarrow> d)"

definition ownership_ok :: "registry \<Rightarrow> bool" where
  "ownership_ok st \<longleftrightarrow> sets_ok (rg_owned st)
     \<and> (\<forall>a b. a \<in> set (succs (rg_owned st) b) \<longleftrightarrow> owner_of st a = Some b)
     \<and> (\<forall>p k w d. shape st p = Some (k, w, d) \<longrightarrow> shape_ok k w d)
     \<and> (\<forall>a b. owner_of st a = Some b \<longrightarrow> known st b \<and> \<not> is_group st b)
     \<and> (\<forall>a. stops (owns st) (Suc max_ownership_chain) a)"

definition acls_ok :: "registry \<Rightarrow> bool" where
  "acls_ok st \<longleftrightarrow> bm_ok (rg_grants st) \<and> bm_ok (rg_protected st)
     \<and> (\<forall>g acl. map_of (rg_grants st) g = Some acl \<longrightarrow> bm_ok acl \<and> acl \<noteq> [])
     \<and> (\<forall>k ws. map_of (rg_protected st) k = Some ws \<longrightarrow> bs_ok ws)"

definition names_ok :: "registry \<Rightarrow> bool" where
  "names_ok st \<longleftrightarrow> bm_ok (rg_principals st)
     \<and> (\<forall>p. known st p \<longrightarrow> valid_id p \<and> (p = administrators_group \<or> \<not> is_engine_name p))"

definition admins_ok :: "registry \<Rightarrow> bool" where
  "admins_ok st \<longleftrightarrow> active_group st administrators_group
     \<and> succs (rg_members st) administrators_group \<noteq> []
     \<and> (\<forall>m e. m \<in> set (succs (rg_members st) administrators_group) \<longrightarrow> entry_of st m = Some e
          \<longrightarrow> pe_kind e = PkUser)"

definition registry_ok :: "registry \<Rightarrow> bool" where
  "registry_ok st \<longleftrightarrow> membership_ok st \<and> nesting_ok st \<and> ownership_ok st \<and> acls_ok st
     \<and> names_ok st \<and> admins_ok st"

lemmas registry_parts = membership_ok_def nesting_ok_def ownership_ok_def acls_ok_def names_ok_def
  admins_ok_def

lemma is_group_shape: "is_group st p \<longleftrightarrow> (\<exists>w d. shape st p = Some (PkGroup, w, d))"
  by (auto simp: is_group_def shape_def split: option.split)

lemma known_shape: "known st p \<longleftrightarrow> shape st p \<noteq> None"
  by (simp add: known_def shape_def)

lemma owner_of_shape: "owner_of st p = (case shape st p of None \<Rightarrow> None | Some (_, w, _) \<Rightarrow> w)"
  by (simp add: owner_of_def shape_def split: option.split)

section \<open>The depth check\<close>

definition memo_sound :: "registry \<Rightarrow> memo \<Rightarrow> bool" where
  "memo_sound st memo \<longleftrightarrow>
     (\<forall>g h. map_of memo g = Some h \<longrightarrow> h \<le> max_group_depth \<longrightarrow> stops (up st) h g)"

text \<open>A height within the bound is a true bound: no chain of that many steps leaves the group.\<close>

lemma height_sound:
  "height st g memo guard = (h, memo') \<Longrightarrow> memo_sound st memo \<Longrightarrow>
     memo_sound st memo' \<and> (h \<le> max_group_depth \<longrightarrow> stops (up st) h g)"
  "heights st gs memo guard = (h, memo') \<Longrightarrow> memo_sound st memo \<Longrightarrow>
     memo_sound st memo' \<and> (h \<le> max_group_depth \<longrightarrow> (\<forall>g \<in> set gs. stops (up st) h g))"
proof (induction st g memo guard and st gs memo guard arbitrary: h memo' and h memo'
    rule: height_heights.induct)
  case (1 st g memo guard)
  show ?case
  proof (cases "map_of memo g")
    case (Some x)
    then show ?thesis using "1.prems" by (auto simp: height.simps memo_sound_def)
  next
    case None
    show ?thesis
    proof (cases "max_group_depth + 1 < guard")
      case True
      then show ?thesis using "1.prems" None by (auto simp: height.simps)
    next
      case False
      obtain m memo1 where m: "heights st (succs (rg_parents st) g) memo (guard + 1) = (m, memo1)"
        by (cases "heights st (succs (rg_parents st) g) memo (guard + 1)") blast
      with "1.prems"(1) None False have res: "h = 1 + m" "memo' = (g, 1 + m) # memo1"
        by (auto simp: height.simps [of st g])
      from "1.IH" [OF None False m "1.prems"(2)]
      have ih: "memo_sound st memo1"
        "m \<le> max_group_depth \<longrightarrow> (\<forall>p \<in> set (succs (rg_parents st) g). stops (up st) m p)"
        by simp_all
      have "h \<le> max_group_depth \<longrightarrow> stops (up st) h g"
      proof
        assume "h \<le> max_group_depth"
        then have "\<forall>p \<in> set (succs (rg_parents st) g). stops (up st) m p"
          using ih(2) res(1) by simp
        then have "stops (up st) (Suc m) g"
          by (intro stops_Suc) (simp add: up_def step_iff)
        then show "stops (up st) h g" using res(1) by simp
      qed
      with ih(1) res show ?thesis by (simp add: memo_sound_def)
    qed
  qed
next
  case (2 st memo guard)
  then show ?case by (auto simp: height.simps)
next
  case (3 st g gs memo guard)
  obtain x memo1 where x: "height st g memo guard = (x, memo1)"
    by (cases "height st g memo guard") blast
  obtain y memo2 where y: "heights st gs memo1 guard = (y, memo2)"
    by (cases "heights st gs memo1 guard") blast
  from "3.prems"(1) x y have res: "h = max x y" "memo' = memo2" by (auto simp: height.simps)
  from "3.IH"(1) [OF x "3.prems"(2)] have one: "memo_sound st memo1"
    "x \<le> max_group_depth \<longrightarrow> stops (up st) x g" by simp_all
  from "3.IH"(2) [OF x [symmetric] refl y one(1)] have two: "memo_sound st memo2"
    "y \<le> max_group_depth \<longrightarrow> (\<forall>g \<in> set gs. stops (up st) y g)" by simp_all
  show ?case using one two res stops_mono [of "up st" _ _ h] by auto
qed

lemma check_nesting_sound:
  assumes "check_nesting st memo p = Ok memo'" and "memo_sound st memo"
  shows "memo_sound st memo' \<and> card ((up st)\<^sup>+ `` {p}) \<le> max_group_closure
     \<and> (is_group st p \<longrightarrow> stops (up st) max_group_depth p)"
proof -
  from assms(1) obtain gs where gs: "ancestors st p (Some max_group_closure) = Some gs"
    by (auto simp: check_nesting_def split: option.splits)
  obtain d memo1 where d: "heights st (gs @ (if is_group st p then [p] else [])) memo 1 = (d, memo1)"
    by (cases "heights st (gs @ (if is_group st p then [p] else [])) memo 1") blast
  from assms(1) gs d have le: "d \<le> max_group_depth" and memo': "memo' = memo1"
    by (auto simp: check_nesting_def split: if_splits)
  note sound = height_sound(2) [OF d assms(2)]
  have "\<not> max_group_closure < card ((up st)\<^sup>+ `` {p})"
    using gs worklist_bound_exact [of "rg_parents st" "\<lambda>_. True" max_group_closure p]
    by (auto simp: ancestors_def up_def)
  moreover have "is_group st p \<longrightarrow> stops (up st) max_group_depth p"
    using sound le stops_mono [OF _ le] by auto
  ultimately show ?thesis using sound memo' by simp
qed

end
