(* ===== verification/Registry_Preserved.thy ===== *)
theory Registry_Preserved
  imports Registry_Invariant
begin

text \<open>
  Every accepted change keeps the registry well formed, and so does enabling the registry and
  creating a graph; hence every reachable registry is well formed.
\<close>

section \<open>What the parts depend on\<close>

lemma entry_of_put [simp]: "entry_of (put_entry st i e) p = (if p = i then Some e else entry_of st p)"
  by (simp add: entry_of_def put_entry_def)

lemma put_entry_fields [simp]:
  "rg_members (put_entry st i e) = rg_members st" "rg_parents (put_entry st i e) = rg_parents st"
  "rg_grants (put_entry st i e) = rg_grants st" "rg_protected (put_entry st i e) = rg_protected st"
  "rg_owned (put_entry st i e) = rg_owned st"
  by (simp_all add: put_entry_def)

lemma entry_of_fields [simp]:
  "entry_of (st\<lparr>rg_members := m\<rparr>) = entry_of st" "entry_of (st\<lparr>rg_parents := m\<rparr>) = entry_of st"
  "entry_of (st\<lparr>rg_grants := g\<rparr>) = entry_of st" "entry_of (st\<lparr>rg_protected := pr\<rparr>) = entry_of st"
  "entry_of (st\<lparr>rg_owned := ow\<rparr>) = entry_of st"
  by (simp_all add: entry_of_def fun_eq_iff)

lemma shape_put:
  "shape (put_entry st i e) =
     (shape st)(i \<mapsto> (pe_kind e, pe_owner e, pe_delegation e \<noteq> None))"
  by (simp add: shape_def fun_eq_iff)

lemma shape_put_same:
  assumes "entry_of st i = Some e" "pe_kind e' = pe_kind e" "pe_owner e' = pe_owner e"
    "(pe_delegation e' = None) = (pe_delegation e = None)"
  shows "shape (put_entry st i e') = shape st"
  using assms(1-3) assms(4) by (cases "pe_delegation e"; cases "pe_delegation e'") (simp_all add: shape_def fun_eq_iff)

lemma entry_fields:
  "entry_of st' = entry_of st \<Longrightarrow> shape st' = shape st" "entry_of st' = entry_of st \<Longrightarrow> known st' = known st"
  "entry_of st' = entry_of st \<Longrightarrow> is_group st' = is_group st"
  "entry_of st' = entry_of st \<Longrightarrow> active_group st' = active_group st"
  by (simp_all add: shape_def known_def is_group_def active_group_def fun_eq_iff)

lemma structure_same:
  assumes "shape st' = shape st" and "rg_members st' = rg_members st"
    and "rg_parents st' = rg_parents st" and "rg_owned st' = rg_owned st"
  shows "membership_ok st' = membership_ok st" "nesting_ok st' = nesting_ok st"
    "ownership_ok st' = ownership_ok st"
  using assms
  by (simp_all add: membership_ok_def nesting_ok_def ownership_ok_def up_def owns_def is_group_shape
      known_shape owner_of_shape)

text \<open>A change of an entry that keeps the principal's shape.\<close>

lemma put_entry_ok:
  assumes ok: "registry_ok st" and e: "entry_of st i = Some e"
    and same: "pe_kind e' = pe_kind e" "pe_owner e' = pe_owner e"
      "(pe_delegation e' = None) = (pe_delegation e = None)"
    and admins: "i = administrators_group \<Longrightarrow> pe_status e' = pe_status e"
  shows "registry_ok (put_entry st i e')"
proof -
  note shape = shape_put_same [OF e same]
  note parts = structure_same [OF shape, simplified]
  have "names_ok (put_entry st i e')" using ok e
    by (auto simp: registry_ok_def names_ok_def known_def put_entry_def entry_of_def)
  moreover have "admins_ok (put_entry st i e')" using ok e same admins
    by (auto simp: registry_ok_def admins_ok_def active_group_def)
  moreover have "acls_ok (put_entry st i e')" using ok by (simp add: registry_ok_def acls_ok_def)
  ultimately show ?thesis using ok parts by (simp add: registry_ok_def)
qed

text \<open>A change of the ACLs only.\<close>

lemma acl_change_ok:
  assumes "registry_ok st" and "acls_ok st'" and "rg_principals st' = rg_principals st"
    and "rg_members st' = rg_members st" and "rg_parents st' = rg_parents st"
    and "rg_owned st' = rg_owned st"
  shows "registry_ok st'"
proof -
  have e: "entry_of st' = entry_of st" using assms(3) by (simp add: entry_of_def fun_eq_iff)
  note parts = structure_same [OF entry_fields(1) [OF e] assms(4-6)]
  have "names_ok st' = names_ok st" "admins_ok st' = admins_ok st"
    using assms(3,4) e by (simp_all add: names_ok_def admins_ok_def entry_fields [OF e])
  with parts assms(1,2) show ?thesis by (simp add: registry_ok_def)
qed

section \<open>Registering a principal\<close>

lemma is_group_known: "is_group st g \<Longrightarrow> known st g"
  by (auto simp: is_group_def known_def split: option.splits)

lemma up_edge: "membership_ok st \<Longrightarrow> (a, b) \<in> up st \<Longrightarrow> is_group st b \<and> known st a"
  unfolding membership_ok_def up_def step_iff by blast

lemma member_edge:
  "membership_ok st \<Longrightarrow> m \<in> set (succs (rg_members st) g) \<Longrightarrow> is_group st g \<and> known st m"
  unfolding membership_ok_def by blast

lemma up_unknown:
  assumes "membership_ok st" and "\<not> known st i"
  shows "(i, b) \<notin> up st" "(a, i) \<notin> up st"
  using assms up_edge is_group_known by blast+

lemma new_principal_membership:
  assumes "membership_ok st" and "nesting_ok st" and "\<not> known st i"
  shows "membership_ok (put_entry st i e)" "nesting_ok (put_entry st i e)"
proof -
  have group: "is_group (put_entry st i e) g \<Longrightarrow> g = i \<or> is_group st g" for g
    by (auto simp: is_group_def split: if_splits)
  have up: "up (put_entry st i e) = up st" by (simp add: up_def)
  have keep: "is_group (put_entry st i e) g \<and> known (put_entry st i e) m"
    if "is_group st g \<and> known st m" for g m
    using that assms(3) is_group_known [of st g] by (auto simp: is_group_def known_def)
  show "membership_ok (put_entry st i e)"
    unfolding membership_ok_def put_entry_fields
    using assms(1) keep unfolding membership_ok_def by blast
  have "stops (up st) max_group_depth i"
    by (rule stops_mono [of _ 1]) (use up_unknown [OF assms(1,3)] in
        \<open>simp_all add: stops_def max_group_depth_def\<close>)
  then show "nesting_ok (put_entry st i e)"
    using assms(2) group by (auto simp: nesting_ok_def up)
qed

lemma new_principal_names:
  assumes "names_ok st" and "valid_id i" and "\<not> is_engine_name i"
  shows "names_ok (put_entry st i e)"
  using assms by (auto simp: names_ok_def known_def) (simp add: put_entry_def)

lemma new_principal_admins:
  assumes "admins_ok st" and "membership_ok st" and "\<not> known st i"
  shows "admins_ok (put_entry st i e)"
proof -
  have "i \<noteq> administrators_group"
    using assms(1,3) by (auto simp: admins_ok_def active_group_def known_def)
  moreover have "i \<notin> set (succs (rg_members st) administrators_group)"
    using assms(2,3) by (auto simp: membership_ok_def)
  ultimately show ?thesis using assms(1) by (auto simp: admins_ok_def active_group_def split: if_splits)
qed

lemma owner_of_put [simp]:
  "owner_of (put_entry st i e) p = (if p = i then pe_owner e else owner_of st p)"
  by (simp add: owner_of_def)

lemma owner_known: "owner_of st a = Some b \<Longrightarrow> known st a"
  by (auto simp: owner_of_def known_def split: option.splits)

lemma new_owner_path:
  assumes ok: "ownership_ok st" and new: "\<not> known st i"
    and a: "a \<noteq> i" and path: "(a, b) \<in> owns (put_entry st i e) ^^ n"
  shows "(a, b) \<in> owns st ^^ n \<and> b \<noteq> i"
  using path
proof (induction n arbitrary: b)
  case 0
  then show ?case using a by simp
next
  case (Suc n)
  then obtain c where c: "(a, c) \<in> owns (put_entry st i e) ^^ n" "(c, b) \<in> owns (put_entry st i e)"
    by (meson relpow_Suc_E)
  from Suc.IH [OF c(1)] have "(a, c) \<in> owns st ^^ n" "c \<noteq> i" by simp_all
  moreover from c(2) \<open>c \<noteq> i\<close> have own: "owner_of st c = Some b" by (simp add: owns_def)
  then have "known st b" using ok by (auto simp: ownership_ok_def)
  ultimately show ?case using own new by (auto simp: owns_def)
qed

lemma ownership_okI:
  assumes "sets_ok (rg_owned st)"
    and "\<And>a b. a \<in> set (succs (rg_owned st) b) \<longleftrightarrow> owner_of st a = Some b"
    and "\<And>p k w d. shape st p = Some (k, w, d) \<Longrightarrow> shape_ok k w d"
    and "\<And>a b. owner_of st a = Some b \<Longrightarrow> known st b \<and> \<not> is_group st b"
    and "\<And>a. stops (owns st) (Suc max_ownership_chain) a"
  shows "ownership_ok st"
  using assms unfolding ownership_ok_def by blast

lemma ownership_okD:
  assumes "ownership_ok st"
  shows "sets_ok (rg_owned st)"
    and "a \<in> set (succs (rg_owned st) b) \<longleftrightarrow> owner_of st a = Some b"
    and "shape st p = Some (k, w, d) \<Longrightarrow> shape_ok k w d"
    and "owner_of st a = Some b \<Longrightarrow> known st b \<and> \<not> is_group st b"
    and "stops (owns st) (Suc max_ownership_chain) a"
  using assms unfolding ownership_ok_def by blast+

text \<open>The owner link of a new entry keeps every part of \<open>ownership_ok\<close> except the reverse map.\<close>

lemma new_entry_ownership:
  assumes ok: "ownership_ok st" and new: "\<not> known st i"
    and shape: "shape_ok (pe_kind e) (pe_owner e) (pe_delegation e \<noteq> None)"
    and own: "\<forall>b. pe_owner e = Some b \<longrightarrow>
      known st b \<and> \<not> is_group st b \<and> stops (owns st) max_ownership_chain b"
  defines "st' \<equiv> put_entry st i e"
  shows "shape st' p = Some (k, w, d) \<Longrightarrow> shape_ok k w d"
    and "owner_of st' a = Some b \<Longrightarrow> known st' b \<and> \<not> is_group st' b"
    and "stops (owns st') (Suc max_ownership_chain) a"
proof -
  show "shape st' p = Some (k, w, d) \<Longrightarrow> shape_ok k w d"
    using ownership_okD(3) [OF ok, of p k w d] shape unfolding st'_def shape_put
    by (cases "p = i") auto
  have step: "known st' b \<and> \<not> is_group st' b \<and> b \<noteq> i" if "owner_of st' a = Some b" for a b
  proof -
    have "known st b \<and> \<not> is_group st b"
      using that own ownership_okD(4) [OF ok, of a b] unfolding st'_def by (auto split: if_splits)
    then show ?thesis using new by (auto simp: st'_def known_def is_group_def)
  qed
  then show "owner_of st' a = Some b \<Longrightarrow> known st' b \<and> \<not> is_group st' b" by blast
  have other: "stops (owns st') n a" if "a \<noteq> i" "stops (owns st) n a" for n a
    using new_owner_path [OF ok new that(1)] that(2) unfolding stops_def st'_def by blast
  show "stops (owns st') (Suc max_ownership_chain) a"
  proof (cases "a = i")
    case True
    show ?thesis unfolding True
    proof (rule stops_Suc)
      fix b assume "(i, b) \<in> owns st'"
      then have b: "owner_of st' i = Some b" by (simp add: owns_def)
      then have "pe_owner e = Some b" by (simp add: st'_def)
      with own have "stops (owns st) max_ownership_chain b" by blast
      then show "stops (owns st') max_ownership_chain b" using other step [OF b] by blast
    qed
  next
    case False
    then show ?thesis using ownership_okD(5) [OF ok] by (intro other)
  qed
qed

lemma owner_of_unknown: "\<not> known st i \<Longrightarrow> owner_of st i = None"
  by (simp add: owner_of_def known_def)

lemma new_principal_ownership:
  assumes ok: "ownership_ok st" and new: "\<not> known st i" and kind: "pe_kind e \<noteq> PkAgent"
    and none: "pe_owner e = None" "pe_delegation e = None"
  shows "ownership_ok (put_entry st i e)"
proof (rule ownership_okI)
  have "shape_ok (pe_kind e) (pe_owner e) (pe_delegation e \<noteq> None)"
    using kind none by (simp add: shape_ok_def)
  moreover have "\<forall>b. pe_owner e = Some b \<longrightarrow>
      known st b \<and> \<not> is_group st b \<and> stops (owns st) max_ownership_chain b" using none by simp
  note * = new_entry_ownership [OF ok new calculation this]
  show "shape (put_entry st i e) p = Some (k, w, d) \<Longrightarrow> shape_ok k w d" for p k w d by (rule *(1))
  show "known (put_entry st i e) b \<and> \<not> is_group (put_entry st i e) b"
    if "owner_of (put_entry st i e) a = Some b" for a b using that by (rule *(2))
  show "stops (owns (put_entry st i e)) (Suc max_ownership_chain) a" for a by (rule *(3))
  have "owner_of (put_entry st i e) = owner_of st"
    using none(1) owner_of_unknown [OF new] by (simp add: fun_eq_iff)
  then show "a \<in> set (succs (rg_owned (put_entry st i e)) b)
      \<longleftrightarrow> owner_of (put_entry st i e) a = Some b" for a b
    using ownership_okD(2) [OF ok] by simp
  show "sets_ok (rg_owned (put_entry st i e))" using ownership_okD(1) [OF ok] by simp
qed

lemma new_agent_ownership:
  assumes ok: "ownership_ok st" and new: "\<not> known st i" and kind: "pe_kind e = PkAgent"
    and some: "pe_owner e = Some b" "pe_delegation e \<noteq> None"
    and own: "known st b" "\<not> is_group st b" "stops (owns st) max_ownership_chain b"
  shows "ownership_ok ((put_entry st i e)\<lparr>rg_owned := bm_adjoin b i (rg_owned st)\<rparr>)" (is "ownership_ok ?st")
proof (rule ownership_okI)
  have "shape_ok (pe_kind e) (pe_owner e) (pe_delegation e \<noteq> None)"
    using kind some by (simp add: shape_ok_def)
  moreover have "\<forall>c. pe_owner e = Some c \<longrightarrow>
      known st c \<and> \<not> is_group st c \<and> stops (owns st) max_ownership_chain c" using some own by simp
  note * = new_entry_ownership [OF ok new calculation this]
  have e: "entry_of ?st = entry_of (put_entry st i e)" by simp
  note fields = entry_fields [OF e]
  have owner: "owner_of ?st = owner_of (put_entry st i e)" by (simp add: owner_of_def fun_eq_iff)
  then have owns: "owns ?st = owns (put_entry st i e)" by (simp add: owns_def)
  show "shape ?st p = Some (k, w, d) \<Longrightarrow> shape_ok k w d" for p k w d unfolding fields by (rule *(1))
  show "known ?st c \<and> \<not> is_group ?st c" if "owner_of ?st a = Some c" for a c
    using that unfolding fields owner by (rule *(2))
  show "stops (owns ?st) (Suc max_ownership_chain) a" for a unfolding owns by (rule *(3))
  show "a \<in> set (succs (rg_owned ?st) c) \<longleftrightarrow> owner_of ?st a = Some c" for a c
    using ownership_okD(2) [OF ok] some(1) owner_of_unknown [OF new] unfolding owner by auto
  show "sets_ok (rg_owned ?st)" using ownership_okD(1) [OF ok] by simp
qed

end
