(* ===== verification/Registry_Membership.thy ===== *)
theory Registry_Membership
  imports Registry_Preserved
begin

text \<open>
  Adding and removing a member keeps the registry well formed: the new edge is accepted only when
  every principal below the member stays within the closure and nesting bounds.
\<close>

section \<open>One edge\<close>

lemma up_link: "up (link_member st grp member) = insert (member, grp) (up st)"
  by (auto simp: up_def step_iff link_member_def split: if_splits)

lemma link_entry [simp]: "entry_of (link_member st grp member) = entry_of st"
  by (simp add: link_member_def entry_of_def fun_eq_iff)

lemma link_membership_ok:
  assumes "membership_ok st" and "is_group st grp" and "known st member"
  shows "membership_ok (link_member st grp member)"
proof -
  note fields = entry_fields [OF link_entry]
  show ?thesis using assms unfolding membership_ok_def fields
    by (simp add: link_member_def)
qed

lemma avoiding_path:
  assumes "(p, x) \<in> insert (a, b) r ^^ n" and "(p, a) \<notin> (insert (a, b) r)\<^sup>*"
  shows "(p, x) \<in> r ^^ n"
  using assms(1)
proof (induction n arbitrary: x)
  case (Suc n)
  then obtain y where y: "(p, y) \<in> insert (a, b) r ^^ n" "(y, x) \<in> insert (a, b) r"
    by (meson relpow_Suc_E)
  have "y \<noteq> a" using y(1) assms(2) by (meson relpow_imp_rtrancl)
  with y Suc.IH show ?case by auto
qed simp

lemma avoiding_reach:
  assumes "(p, a) \<notin> (insert (a, b) r)\<^sup>*"
  shows "(insert (a, b) r)\<^sup>+ `` {p} \<subseteq> r\<^sup>+ `` {p}"
proof
  fix x assume "x \<in> (insert (a, b) r)\<^sup>+ `` {p}"
  then obtain n where "0 < n" "(p, x) \<in> insert (a, b) r ^^ n" by (auto simp: trancl_power)
  with avoiding_path [OF _ assms] have "(p, x) \<in> r ^^ n" by blast
  with \<open>0 < n\<close> show "x \<in> r\<^sup>+ `` {p}" by (auto simp: trancl_power)
qed

text \<open>The loop over everything below the member covers all principals the edge can affect.\<close>

lemma members_below_set:
  assumes "membership_ok st"
  shows "set (members_below st m) = {p. (p, m) \<in> (up st)\<^sup>*}"
proof -
  have "step (rg_members st) (\<lambda>_. True) = (up st)\<inverse>"
    using assms by (auto simp: up_def step_iff membership_ok_def)
  moreover obtain res where res: "worklist (rg_members st) (\<lambda>_. True) None [m] [m] = Some res"
    using worklist_unbounded by blast
  ultimately have "set res = ((up st)\<inverse>)\<^sup>* `` {m}"
    using worklist_closure_from [OF res] by simp
  then show ?thesis using res by (auto simp: members_below_def rtrancl_converse)
qed

lemma check_all_nesting:
  "try_fold (check_nesting st) memo ps = Ok memo' \<Longrightarrow> memo_sound st memo \<Longrightarrow>
     \<forall>p \<in> set ps. card ((up st)\<^sup>+ `` {p}) \<le> max_group_closure
       \<and> (is_group st p \<longrightarrow> stops (up st) max_group_depth p)"
proof (induction ps arbitrary: memo)
  case (Cons p ps)
  then obtain memo1 where one: "check_nesting st memo p = Ok memo1"
    and rest: "try_fold (check_nesting st) memo1 ps = Ok memo'" by auto
  from check_nesting_sound [OF one Cons.prems(2)] Cons.IH [OF rest] show ?case by auto
qed simp

lemma link_nesting_ok:
  assumes ok: "membership_ok st" "nesting_ok st"
    and new: "membership_ok (link_member st grp member)"
    and check: "try_fold (check_nesting (link_member st grp member)) []
        (members_below (link_member st grp member) member) = Ok memo"
  shows "nesting_ok (link_member st grp member)"
proof -
  let ?st = "link_member st grp member"
  have "memo_sound ?st []" by (simp add: memo_sound_def)
  from check_all_nesting [OF check this] members_below_set [OF new]
  have below: "card ((up ?st)\<^sup>+ `` {p}) \<le> max_group_closure
      \<and> (is_group ?st p \<longrightarrow> stops (up ?st) max_group_depth p)" if "(p, member) \<in> (up ?st)\<^sup>*" for p
    using that by blast
  have other: "card ((up ?st)\<^sup>+ `` {p}) \<le> max_group_closure
      \<and> (is_group ?st p \<longrightarrow> stops (up ?st) max_group_depth p)" if "(p, member) \<notin> (up ?st)\<^sup>*" for p
  proof -
    have "card ((up ?st)\<^sup>+ `` {p}) \<le> card ((up st)\<^sup>+ `` {p})"
      using avoiding_reach [of p member grp "up st"] that
      by (intro card_mono) (simp_all add: up_link, simp add: up_def)
    moreover have "is_group ?st p = is_group st p" by (simp add: is_group_def)
    moreover have "stops (up ?st) max_group_depth p" if "stops (up st) max_group_depth p"
      using avoiding_path [of p _ max_group_depth member grp "up st"] that \<open>(p, member) \<notin> (up ?st)\<^sup>*\<close>
      unfolding stops_def up_link by blast
    ultimately show ?thesis using ok(2) unfolding nesting_ok_def by (meson le_trans)
  qed
  from below other show ?thesis unfolding nesting_ok_def by blast
qed

section \<open>Adding a member\<close>

text \<open>An accepted addition either changes nothing or adds the edge after all the checks.\<close>

lemma add_member_cases:
  assumes "add_member st grp member = Ok st'"
  obtains (present) "st' = st" "member \<in> set (succs (rg_members st) grp)"
  | (linked) e memo where "st' = link_member st grp member" "is_group st grp"
      "entry_of st member = Some e" "grp = administrators_group \<longrightarrow> pe_kind e = PkUser"
      "(grp, member) \<notin> (up st)\<^sup>*"
      "try_fold (check_nesting st') [] (members_below st' member) = Ok memo"
proof -
  from assms obtain t e where t: "entry_of st grp = Some t" "pe_kind t = PkGroup"
    and e: "entry_of st member = Some e" "grp = administrators_group \<longrightarrow> pe_kind e = PkUser"
    by (auto simp: add_member_def)
  show thesis
  proof (cases "member \<in> set (succs (rg_members st) grp)")
    case True
    with assms show thesis by (intro present) (auto simp: add_member_def)
  next
    case False
    with assms obtain above memo where above: "ancestors st grp None = Some above" "member \<noteq> grp"
      "member \<notin> set above" and st': "st' = link_member st grp member"
      and memo: "try_fold (check_nesting st') [] (members_below st' member) = Ok memo"
      by (auto simp: add_member_def Let_def)
    have "set above = (up st)\<^sup>+ `` {grp}"
      using above(1) worklist_closure [of "rg_parents st" "\<lambda>_. True" None grp above]
      by (simp add: ancestors_def up_def)
    with above(2,3) have "(grp, member) \<notin> (up st)\<^sup>*" by (auto simp: rtrancl_eq_or_trancl)
    moreover have "is_group st grp" using t by (simp add: is_group_def)
    ultimately show thesis using linked st' e memo by blast
  qed
qed

text \<open>
  The part of the invariant that holds while the registry is being enabled too, before the
  administrators group has its first member.
\<close>

definition base_ok :: "registry \<Rightarrow> bool" where
  "base_ok st \<longleftrightarrow> membership_ok st \<and> nesting_ok st \<and> ownership_ok st \<and> acls_ok st \<and> names_ok st"

lemma registry_ok_base: "registry_ok st \<longleftrightarrow> base_ok st \<and> admins_ok st"
  by (auto simp: registry_ok_def base_ok_def)

lemma link_member_fields [simp]:
  "rg_owned (link_member st g m) = rg_owned st" "rg_principals (link_member st g m) = rg_principals st"
  "rg_grants (link_member st g m) = rg_grants st" "rg_protected (link_member st g m) = rg_protected st"
  "rg_members (link_member st g m) = bm_adjoin g m (rg_members st)"
  by (simp_all add: link_member_def)

lemma ownership_cong:
  assumes "entry_of st' = entry_of st" and "rg_owned st' = rg_owned st"
  shows "ownership_ok st' = ownership_ok st"
  using assms entry_fields [OF assms(1)]
  by (simp add: ownership_ok_def owns_def owner_of_shape)

lemma names_cong:
  assumes "rg_principals st' = rg_principals st"
  shows "names_ok st' = names_ok st"
  using assms by (simp add: names_ok_def known_def entry_of_def)

lemma add_member_base:
  assumes ok: "base_ok st" and run: "add_member st grp member = Ok st'"
  shows "base_ok st'"
  using run
proof (cases rule: add_member_cases)
  case present
  then show ?thesis using ok by simp
next
  case (linked e memo)
  have "known st member" using linked(3) by (simp add: known_def)
  with ok linked(2) have mem: "membership_ok st'"
    unfolding linked(1) base_ok_def by (blast intro: link_membership_ok)
  have "nesting_ok st'"
    using link_nesting_ok [of st grp member memo] ok mem linked(6) unfolding linked(1) base_ok_def by blast
  moreover have "ownership_ok st'" "names_ok st'" "acls_ok st'"
    using ok ownership_cong [of st' st] names_cong [of st' st]
    by (simp_all add: base_ok_def linked(1) acls_ok_def)
  ultimately show ?thesis using mem by (simp add: base_ok_def)
qed

lemma add_member_admins:
  assumes ok: "admins_ok st" and run: "add_member st grp member = Ok st'"
  shows "admins_ok st'"
  using run
proof (cases rule: add_member_cases)
  case present
  then show ?thesis using ok by simp
next
  case (linked e memo)
  have act: "active_group st' = active_group st" unfolding linked(1) by (rule entry_fields) simp
  have "succs (rg_members st') administrators_group \<noteq> []"
    using ok set_succs_adjoin [of grp member "rg_members st" administrators_group]
    unfolding linked(1) admins_ok_def by (auto simp flip: set_empty)
  moreover have "pe_kind x = PkUser"
    if "m \<in> set (succs (rg_members st') administrators_group)" "entry_of st' m = Some x" for m x
    using that ok linked(3,4) unfolding linked(1) admins_ok_def
    by (auto split: if_splits)
  ultimately show ?thesis using ok act unfolding admins_ok_def by simp
qed

section \<open>Removing a member\<close>

definition unlink_member :: "registry \<Rightarrow> string \<Rightarrow> string \<Rightarrow> registry" where
  "unlink_member st grp member =
     st\<lparr>rg_members := bm_drop grp member (rg_members st),
        rg_parents := bm_drop member grp (rg_parents st)\<rparr>"

lemma unlink_entry [simp]: "entry_of (unlink_member st grp member) = entry_of st"
  by (simp add: unlink_member_def entry_of_def fun_eq_iff)

lemma up_unlink: "up (unlink_member st grp member) = up st - {(member, grp)}"
  by (auto simp: up_def step_iff unlink_member_def split: if_splits)

lemma relpow_subset: "(s :: ('a \<times> 'a) set) \<subseteq> r \<Longrightarrow> s ^^ n \<subseteq> r ^^ n"
  by (induction n) auto

lemma stops_subset: "stops r n a \<Longrightarrow> s \<subseteq> r \<Longrightarrow> stops s n a"
  unfolding stops_def using relpow_subset [of s r n] by blast

lemma unlink_base:
  assumes ok: "base_ok st"
  shows "base_ok (unlink_member st grp member)"
proof -
  let ?st = "unlink_member st grp member"
  note fields = entry_fields [OF unlink_entry [of st grp member]]
  have sub: "up ?st \<subseteq> up st" unfolding up_unlink by blast
  have "membership_ok ?st"
  proof -
    have m: "membership_ok st" using ok by (simp add: base_ok_def)
    then show ?thesis using member_edge [OF m] unfolding membership_ok_def fields
      by (auto simp: unlink_member_def)
  qed
  moreover have "nesting_ok ?st"
  proof -
    have "card ((up ?st)\<^sup>+ `` {p}) \<le> card ((up st)\<^sup>+ `` {p})" for p
      using trancl_mono [OF _ sub] by (intro card_mono) (simp add: up_def, blast)
    then show ?thesis using ok stops_subset [OF _ sub] unfolding base_ok_def nesting_ok_def fields
      by (meson le_trans)
  qed
  moreover have "ownership_ok ?st" "names_ok ?st" "acls_ok ?st"
    using ok ownership_cong [of ?st st] names_cong [of ?st st] unlink_entry [of st grp member]
    by (simp_all add: base_ok_def unlink_member_def acls_ok_def)
  ultimately show ?thesis by (simp add: base_ok_def)
qed

end
