(* ===== verification/Registry_Reachable.thy ===== *)
theory Registry_Reachable
  imports Registry_Membership
begin

text \<open>
  Ownership chains, and the registry as a state machine: it is enabled once, then changes and
  created graphs follow. Every reachable registry is well formed.
\<close>

section \<open>Ownership chains\<close>

lemma cycle_unbounded:
  assumes cyc: "(a, a) \<in> r\<^sup>+"
  shows "\<exists>m\<ge>k. (a, a) \<in> r ^^ m"
proof (induction k)
  case 0
  have "(a, a) \<in> r ^^ 0" by simp
  then show ?case by blast
next
  case (Suc k)
  then obtain m where m: "m \<ge> k" "(a, a) \<in> r ^^ m" by blast
  from cyc obtain j where j: "0 < j" "(a, a) \<in> r ^^ j" by (auto simp: trancl_power)
  have "(a, a) \<in> r ^^ (m + j)" using m j by (auto simp: relpow_add)
  with m j show ?case by (intro exI [of _ "m + j"]) simp
qed

lemma stops_acyclic: "stops r n a \<Longrightarrow> (a, a) \<notin> r\<^sup>+"
  using cycle_unbounded [of a r n] stops_mono [of r n a] unfolding stops_def by blast

lemma owns_unique: "(a, b) \<in> owns st \<Longrightarrow> (a, c) \<in> owns st \<Longrightarrow> b = c"
  by (simp add: owns_def)

lemma chain_from_None [simp]: "chain_from st None out = out"
  by (simp add: chain_from.simps)

lemma chain_from_Some:
  "chain_from st (Some b) out =
     (if max_ownership_chain \<le> length out \<or> b \<in> set out then out
      else chain_from st (owner_of st b) (out @ [b]))"
  by (simp add: chain_from.simps [of st "Some b"] owner_of_def)

text \<open>The links followed so far end at the cursor.\<close>

definition following :: "registry \<Rightarrow> string option \<Rightarrow> string list \<Rightarrow> bool" where
  "following st cursor out \<longleftrightarrow> (\<forall>a \<in> set out. \<forall>b. cursor = Some b \<longrightarrow> (a, b) \<in> (owns st)\<^sup>+)"

lemma following_next:
  assumes "following st (Some b) out"
  shows "following st (owner_of st b) (out @ [b])"
proof -
  have "(a, c) \<in> (owns st)\<^sup>+" if "a \<in> set (out @ [b])" "owner_of st b = Some c" for a c
  proof -
    have step: "(b, c) \<in> owns st" using that(2) by (simp add: owns_def)
    from that(1) assms have "a = b \<or> (a, b) \<in> (owns st)\<^sup>+" by (auto simp: following_def)
    with step show ?thesis by (auto intro: trancl_into_trancl)
  qed
  then show ?thesis by (simp add: following_def)
qed

lemma chain_from_stops:
  assumes acyc: "\<And>a. (a, a) \<notin> (owns st)\<^sup>+"
  shows "following st cursor out \<Longrightarrow> length (chain_from st cursor out) < max_ownership_chain \<Longrightarrow>
     (case cursor of None \<Rightarrow> True
      | Some b \<Rightarrow> stops (owns st) (length (chain_from st cursor out) - length out) b)
     \<and> length out \<le> length (chain_from st cursor out)"
proof (induction "max_ownership_chain - length out" arbitrary: cursor out rule: less_induct)
  case less
  show ?case
  proof (cases cursor)
    case (Some b)
    have "b \<notin> set out" using less.prems(1) acyc [of b] by (auto simp: following_def Some)
    have "length out < max_ownership_chain"
      using less.prems(2) Some by (auto simp: chain_from_Some split: if_splits)
    let ?next = "chain_from st (owner_of st b) (out @ [b])"
    have res: "chain_from st cursor out = ?next"
      using \<open>b \<notin> set out\<close> \<open>length out < max_ownership_chain\<close> by (simp add: Some chain_from_Some)
    have dec: "max_ownership_chain - length (out @ [b]) < max_ownership_chain - length out"
      using \<open>length out < max_ownership_chain\<close> by (simp add: diff_less_mono2)
    have "length ?next < max_ownership_chain" using less.prems(2) res by simp
    from less.hyps [OF dec following_next this] less.prems(1)
    have ih: "case owner_of st b of None \<Rightarrow> True
        | Some c \<Rightarrow> stops (owns st) (length ?next - Suc (length out)) c"
      "Suc (length out) \<le> length ?next"
      by (simp_all add: Some split: option.splits)
    let ?n = "length ?next - Suc (length out)"
    have "stops (owns st) (Suc ?n) b"
    proof (rule stops_Suc)
      fix c assume "(b, c) \<in> owns st"
      then show "stops (owns st) ?n c" using ih(1) by (simp add: owns_def)
    qed
    moreover have "Suc ?n = length ?next - length out" using ih(2) by simp
    ultimately show ?thesis unfolding res using ih(2) Some by simp
  qed simp
qed

lemma chain_stops:
  assumes ok: "ownership_ok st" and len: "length (chain st p) < max_ownership_chain"
  shows "stops (owns st) max_ownership_chain p"
proof (rule stops_mono [of _ "Suc (length (chain st p))"])
  have acyc: "\<And>a. (a, a) \<notin> (owns st)\<^sup>+"
    by (rule stops_acyclic, rule ownership_okD(5) [OF ok])
  have "following st (owner_of st p) []" by (simp add: following_def)
  from chain_from_stops [OF acyc this] len
  have b: "case owner_of st p of None \<Rightarrow> True | Some b \<Rightarrow> stops (owns st) (length (chain st p)) b"
    by (simp add: chain_def split: option.splits)
  show "stops (owns st) (Suc (length (chain st p))) p"
    by (rule stops_Suc) (use b in \<open>simp add: owns_def\<close>)
qed (use len in simp)

text \<open>In a well-formed registry the chain of a principal is exactly its owners, in any number of links.\<close>

lemma chain_from_sound:
  "set (chain_from st cursor out) \<subseteq>
     set out \<union> (case cursor of None \<Rightarrow> {} | Some b \<Rightarrow> (owns st)\<^sup>* `` {b})"
proof (induction "max_ownership_chain - length out" arbitrary: cursor out rule: less_induct)
  case less
  show ?case
  proof (cases cursor)
    case (Some b)
    show ?thesis
    proof (cases "max_ownership_chain \<le> length out \<or> b \<in> set out")
      case True
      then show ?thesis by (auto simp: Some chain_from_Some)
    next
      case False
      then have "set (chain_from st (owner_of st b) (out @ [b])) \<subseteq> set (out @ [b])
          \<union> (case owner_of st b of None \<Rightarrow> {} | Some c \<Rightarrow> (owns st)\<^sup>* `` {c})"
        by (intro less.hyps) (simp add: diff_less_mono2)
      moreover have "(owns st)\<^sup>* `` {c} \<subseteq> (owns st)\<^sup>* `` {b}" if "owner_of st b = Some c" for c
        using that by (auto simp: owns_def intro: converse_rtrancl_into_rtrancl)
      ultimately show ?thesis using False
        by (auto simp: Some chain_from_Some split: option.splits)
    qed
  qed simp
qed

lemma chain_sound: "b \<in> set (chain st p) \<Longrightarrow> (p, b) \<in> (owns st)\<^sup>+"
proof -
  assume "b \<in> set (chain st p)"
  with chain_from_sound [of st "owner_of st p" "[]"] obtain c where
    c: "owner_of st p = Some c" "(c, b) \<in> (owns st)\<^sup>*"
    by (auto simp: chain_def split: option.splits)
  then have "(p, c) \<in> owns st" by (simp add: owns_def)
  then show ?thesis using c(2) by (rule rtrancl_into_trancl2)
qed

section \<open>Every change preserves the invariant\<close>

lemma known_subject_Ok [simp]: "known_subject st i = Ok u \<longleftrightarrow> valid_id i \<and> known st i"
  by (auto simp: known_subject_def known_def)

lemma reject_reserved_Ok [simp]: "reject_reserved i = Ok u \<longleftrightarrow> valid_id i \<and> \<not> is_engine_name i"
  by (simp add: reject_reserved_def)

lemma graph_admin_Ok [simp]:
  "graph_admin st who g = Ok u \<longleftrightarrow>
     valid_id g \<and> \<not> is_engine_name g \<and> permission_on st who g = Some Administer"
  by (auto simp: graph_admin_def split: option.splits)

lemma check_new_principal_Ok [simp]:
  "check_new_principal st i = Ok u \<longleftrightarrow>
     \<not> known st i \<and> length (rg_principals st) < max_registry_records div 2"
  by (simp add: check_new_principal_def known_def)

lemma add_principal_ok:
  assumes ok: "registry_ok st" and run: "add_principal st who i kind name = Ok st'"
  shows "registry_ok st'"
proof -
  let ?e = "\<lparr>pe_kind = kind, pe_status = Active, pe_display_name = name,
      pe_administrators = [], pe_owner = None, pe_delegation = None\<rparr>"
  from run have *: "kind \<noteq> PkAgent" "valid_id i" "\<not> is_engine_name i" "\<not> known st i"
    "st' = put_entry st i ?e"
    by (auto simp: add_principal_def)
  have "ownership_ok st'" unfolding *(5)
    using ok *(1,4) by (intro new_principal_ownership) (simp_all add: registry_ok_def)
  with ok * new_principal_membership [of st i ?e] new_principal_names [of st i ?e]
    new_principal_admins [of st i ?e]
  show ?thesis by (simp add: registry_ok_def acls_ok_def)
qed

lemma check_delegation_owner:
  assumes "check_delegation st owner d now = Ok u"
  shows "\<not> is_nobody (effective st owner now)"
  using assms by (auto simp: check_delegation_def Let_def)

lemma add_agent_ok:
  assumes ok: "registry_ok st" and run: "add_agent st who actor i owner d name now = Ok st'"
  shows "registry_ok st'"
proof -
  let ?e = "\<lparr>pe_kind = PkAgent, pe_status = Active, pe_display_name = name,
      pe_administrators = [], pe_owner = Some owner, pe_delegation = Some d\<rparr>"
  let ?mid = "put_entry st i ?e"
  from run obtain oe where *: "valid_id i" "\<not> is_engine_name i" "\<not> known st i"
    "entry_of st owner = Some oe" "pe_kind oe \<noteq> PkGroup" "length (chain st owner) < max_ownership_chain"
    "st' = ?mid\<lparr>rg_owned := bm_adjoin owner i (rg_owned st)\<rparr>"
    by (auto simp: add_agent_def)
  have own: "ownership_ok st" using ok by (simp add: registry_ok_def)
  have "known st owner" "\<not> is_group st owner" using *(4,5) by (simp_all add: known_def is_group_def)
  then have "ownership_ok st'" unfolding *(7)
    using chain_stops [OF own *(6)] *(3) own by (intro new_agent_ownership) simp_all
  moreover have "membership_ok ?mid" "nesting_ok ?mid" "names_ok ?mid" "admins_ok ?mid"
    using ok * new_principal_membership [of st i ?e] new_principal_names [of st i ?e]
      new_principal_admins [of st i ?e] by (simp_all add: registry_ok_def)
  moreover have e: "entry_of st' = entry_of ?mid" unfolding *(7) by simp
  then have "membership_ok st' = membership_ok ?mid" "nesting_ok st' = nesting_ok ?mid"
    "admins_ok st' = admins_ok ?mid"
    using entry_fields [OF e] *(7)
    by (simp_all add: membership_ok_def nesting_ok_def up_def admins_ok_def)
  moreover have "names_ok st' = names_ok ?mid" by (rule names_cong) (simp add: *(7))
  moreover have "acls_ok st'" using ok by (simp add: registry_ok_def acls_ok_def *(7))
  ultimately show ?thesis by (simp add: registry_ok_def)
qed

lemma set_delegation_ok:
  assumes ok: "registry_ok st" and run: "set_delegation st who actor agent d now = Ok st'"
  shows "registry_ok st'"
proof -
  from run obtain e where e: "entry_of st agent = Some e" "pe_kind e = PkAgent"
    and st': "st' = put_entry st agent (e\<lparr>pe_delegation := Some d\<rparr>)"
    by (auto simp: set_delegation_def)
  have "shape st agent = Some (PkAgent, pe_owner e, pe_delegation e \<noteq> None)"
    using e by (simp add: shape_def)
  then have "pe_delegation e \<noteq> None"
    using ok ownership_okD(3) [of st agent] by (auto simp: registry_ok_def shape_ok_def)
  with ok e show ?thesis unfolding st' by (intro put_entry_ok [of st agent e]) simp_all
qed

lemma set_status_ok:
  assumes ok: "registry_ok st" and run: "set_status st who actor i status = Ok st'"
  shows "registry_ok st'"
proof -
  from run obtain e where "entry_of st i = Some e" "i \<noteq> administrators_group"
    "st' = put_entry st i (e\<lparr>pe_status := status\<rparr>)"
    by (auto simp: set_status_def Let_def)
  with ok show ?thesis by (auto intro!: put_entry_ok [of st i e])
qed

lemma set_group_administrators_ok:
  assumes ok: "registry_ok st" and run: "set_group_administrators st who grp admins = Ok st'"
  shows "registry_ok st'"
proof -
  from run obtain e where "entry_of st grp = Some e"
    "st' = put_entry st grp (e\<lparr>pe_administrators := sort_dedup admins\<rparr>)"
    by (auto simp: set_group_administrators_def)
  with ok show ?thesis by (auto intro!: put_entry_ok [of st grp e])
qed

lemma remove_member_ok:
  assumes ok: "registry_ok st" and run: "remove_member st who grp member = Ok st'"
  shows "registry_ok st'"
proof -
  from run have st': "st' = unlink_member st grp member"
    and keep: "grp = administrators_group \<longrightarrow> map_of (rg_members st') administrators_group \<noteq> None"
    by (auto simp: remove_member_def unlink_member_def Let_def)
  have base: "base_ok st'" using ok unlink_base by (simp add: st' registry_ok_base)
  have act: "active_group st' = active_group st" unfolding st' by (rule entry_fields) simp
  have members: "rg_members st' = bm_drop grp member (rg_members st)"
    by (simp add: st' unlink_member_def)
  have "succs (rg_members st') administrators_group \<noteq> []"
  proof (cases "grp = administrators_group")
    case True
    with keep obtain xs where xs: "map_of (rg_members st') administrators_group = Some xs" by blast
    moreover have "sets_ok (rg_members st')" using base by (simp add: base_ok_def membership_ok_def)
    ultimately show ?thesis by (auto simp: sets_ok_def succs_Some)
  next
    case False
    then have "set (succs (rg_members st') administrators_group)
        = set (succs (rg_members st) administrators_group)" by (simp add: members)
    with ok show ?thesis by (metis admins_ok_def registry_ok_def set_empty)
  qed
  moreover have "pe_kind x = PkUser"
    if "m \<in> set (succs (rg_members st') administrators_group)" "entry_of st' m = Some x" for m x
    using that ok unfolding st' by (auto simp: unlink_member_def registry_ok_def admins_ok_def split: if_splits)
  ultimately have "admins_ok st'" using ok act by (simp add: admins_ok_def registry_ok_def)
  with base show ?thesis by (simp add: registry_ok_base)
qed

lemma add_member_ok: "registry_ok st \<Longrightarrow> add_member st grp member = Ok st' \<Longrightarrow> registry_ok st'"
  unfolding registry_ok_base by (blast intro: add_member_base add_member_admins)

section \<open>ACL changes\<close>

lemma acls_ok_default: "acls_ok st \<Longrightarrow> bm_ok (bm_or_default [] (rg_grants st) g)"
  by (auto simp: acls_ok_def bm_or_default_def split: option.split)

lemma bm_insert_not_Nil [simp]: "bm_insert k v m \<noteq> []"
  by (induction k v m rule: bm_insert.induct) simp_all

lemma grants_insert_ok:
  assumes "acls_ok st" and "bm_ok acl" and "acl \<noteq> []"
  shows "acls_ok (st\<lparr>rg_grants := bm_insert g acl (rg_grants st)\<rparr>)"
  using assms by (auto simp: acls_ok_def)

lemma acl_changes_ok:
  assumes "registry_ok st"
  shows "grant st who g subj p = Ok st' \<Longrightarrow> registry_ok st'"
    and "revoke st who g subj = Ok st' \<Longrightarrow> registry_ok st'"
    and "protect_branch st who g b = Ok st' \<Longrightarrow> registry_ok st'"
    and "unprotect_branch st who g b = Ok st' \<Longrightarrow> registry_ok st'"
    and "grant_branch_write st who g b subj = Ok st' \<Longrightarrow> registry_ok st'"
    and "revoke_branch_write st who g b subj = Ok st' \<Longrightarrow> registry_ok st'"
proof -
  have acls: "acls_ok st" using assms by (simp add: registry_ok_def)
  have def: "bs_ok (bm_or_default [] (rg_protected st) (g, b))"
    using acls by (auto simp: acls_ok_def bm_or_default_def split: option.split)
  have prot: "registry_ok (st\<lparr>rg_protected := bm_insert (g, b) ws (rg_protected st)\<rparr>)" if "bs_ok ws" for ws
    by (rule acl_change_ok [OF assms]) (use acls that in \<open>auto simp: acls_ok_def\<close>)
  show "registry_ok st'" if "grant st who g subj p = Ok st'"
  proof -
    from that have "st' = st\<lparr>rg_grants := bm_insert g (bm_insert subj p (bm_or_default [] (rg_grants st) g))
        (rg_grants st)\<rparr>"
      by (auto simp: grant_def Let_def)
    then show ?thesis
      using grants_insert_ok [OF acls, of "bm_insert subj p (bm_or_default [] (rg_grants st) g)" g]
        acls_ok_default [OF acls]
      by (intro acl_change_ok [OF assms]) simp_all
  qed
  show "registry_ok st'" if "revoke st who g subj = Ok st'"
  proof (cases "map_of (rg_grants st) g")
    case None
    with that assms show ?thesis by (auto simp: revoke_def)
  next
    case (Some acl)
    with that have st': "st' = st\<lparr>rg_grants := (if bm_remove subj acl = [] then bm_remove g (rg_grants st)
        else bm_insert g (bm_remove subj acl) (rg_grants st))\<rparr>"
      by (auto simp: revoke_def Let_def)
    have "acls_ok st'" using acls Some by (auto simp: st' acls_ok_def split: if_splits)
    then show ?thesis by (rule acl_change_ok [OF assms]) (simp_all add: st')
  qed
  show "registry_ok st'" if "protect_branch st who g b = Ok st'"
    using that prot [OF def] by (auto simp: protect_branch_def)
  show "registry_ok st'" if "unprotect_branch st who g b = Ok st'"
  proof -
    from that have "st' = st\<lparr>rg_protected := bm_remove (g, b) (rg_protected st)\<rparr>"
      by (auto simp: unprotect_branch_def)
    then show ?thesis using acls
      by (intro acl_change_ok [OF assms]) (auto simp: acls_ok_def split: if_splits)
  qed
  show "registry_ok st'" if "grant_branch_write st who g b subj = Ok st'"
    using that prot acls by (auto simp: grant_branch_write_def acls_ok_def)
  show "registry_ok st'" if "revoke_branch_write st who g b subj = Ok st'"
    using that prot acls assms by (auto simp: revoke_branch_write_def acls_ok_def split: option.splits)
qed

lemma run_change_ok:
  assumes "registry_ok st" and "run_change st who actor now c = Ok st'"
  shows "registry_ok st'"
  using assms
  by (cases c)
    (auto intro: add_principal_ok add_agent_ok set_delegation_ok set_status_ok add_member_ok
      remove_member_ok set_group_administrators_ok acl_changes_ok)

lemma apply_change_ok:
  assumes "registry_ok st" and "apply_change st c actor now = Ok st'"
  shows "registry_ok st'"
  using assms run_change_ok by (auto simp: apply_change_def Let_def)

lemma create_graph_ok:
  assumes "registry_ok st" and "create_graph_change g ex actor st = Ok (st', reducing)"
  shows "registry_ok st'"
proof -
  have acls: "acls_ok st" using assms(1) by (simp add: registry_ok_def)
  from assms(2) have "st' = st\<lparr>rg_grants := bm_insert g
      (bm_insert actor Administer (bm_or_default [] (rg_grants st) g)) (rg_grants st)\<rparr>"
    by (auto simp: create_graph_change_def)
  then show ?thesis
    using grants_insert_ok [OF acls, of "bm_insert actor Administer (bm_or_default [] (rg_grants st) g)" g]
      acls_ok_default [OF acls]
    by (intro acl_change_ok [OF assms(1)]) simp_all
qed

section \<open>Enabling the registry\<close>

lemma base_ok_empty: "base_ok empty_registry"
proof -
  have e: "entry_of empty_registry p = None" for p by (simp add: entry_of_def empty_registry_def)
  then have "shape empty_registry p = None" "owner_of empty_registry p = None"
    "\<not> is_group empty_registry p" "\<not> known empty_registry p" for p
    by (simp_all add: shape_def owner_of_def is_group_def known_def)
  moreover have "up empty_registry = {}" "owns empty_registry = {}"
    using calculation(2) by (auto simp: up_def step_iff empty_registry_def succs_def bm_or_default_def owns_def)
  moreover have "sets_ok []" for m :: "(string, string btree_set) btree_map" by (simp add: sets_ok_def)
  ultimately show ?thesis
    by (simp add: base_ok_def registry_parts stops_def empty_registry_def succs_def bm_or_default_def
        sets_ok_def)
qed

lemma put_plain_base:
  assumes ok: "base_ok st" and "\<not> known st i" and "valid_id i"
    and "i = administrators_group \<or> \<not> is_engine_name i" and "kind \<noteq> PkAgent"
  shows "base_ok (put_entry st i (plain_entry kind))"
proof -
  have "ownership_ok (put_entry st i (plain_entry kind))"
    using assms by (intro new_principal_ownership) (simp_all add: base_ok_def plain_entry_def)
  moreover have "names_ok (put_entry st i (plain_entry kind))"
  proof -
    have "bm_ok (rg_principals (put_entry st i (plain_entry kind)))"
      using ok by (simp add: base_ok_def names_ok_def put_entry_def)
    then show ?thesis using assms by (auto simp: base_ok_def names_ok_def known_def)
  qed
  moreover have "acls_ok (put_entry st i (plain_entry kind))"
    using assms(1) by (simp add: base_ok_def acls_ok_def)
  ultimately show ?thesis
    using assms(1,2) new_principal_membership [of st i "plain_entry kind"] by (simp add: base_ok_def)
qed

lemma enable_ok:
  assumes actor: "valid_id actor" "\<not> is_engine_name actor"
    and run: "enable_change actor empty_registry = Ok (st, reducing)"
  shows "registry_ok st"
proof -
  let ?st1 = "put_entry empty_registry administrators_group (plain_entry PkGroup)"
  let ?st2 = "put_entry ?st1 actor (plain_entry PkUser)"
  from run have add: "add_member ?st2 administrators_group actor = Ok st"
    by (auto simp: enable_change_def Let_def)
  have ne: "actor \<noteq> administrators_group"
    using actor(2) by (auto simp: is_engine_name_def starts_with_def administrators_group_def)
  have "base_ok ?st1"
    by (rule put_plain_base [OF base_ok_empty])
      (simp_all add: known_def entry_of_def empty_registry_def valid_id_def administrators_group_def)
  then have "base_ok ?st2"
    by (rule put_plain_base) (use ne actor in \<open>simp_all add: known_def entry_of_def empty_registry_def put_entry_def\<close>)
  with add have base: "base_ok st" by (blast intro: add_member_base)
  have "admins_ok st"
    using add
  proof (cases rule: add_member_cases)
    case present
    then show ?thesis by (simp add: empty_registry_def put_entry_def succs_def bm_or_default_def)
  next
    case (linked e memo)
    have act: "active_group st = active_group ?st2" unfolding linked(1) by (rule entry_fields) simp
    have mem: "set (succs (rg_members st) administrators_group) = {actor}"
    proof -
      have "succs (rg_members ?st2) administrators_group = []"
        by (simp add: empty_registry_def succs_def bm_or_default_def)
      then show ?thesis unfolding linked(1) link_member_fields set_succs_adjoin by simp
    qed
    then have "succs (rg_members st) administrators_group \<noteq> []"
      by (metis insert_not_empty set_empty)
    moreover have "active_group st administrators_group"
      unfolding act using ne by (simp add: active_group_def plain_entry_def)
    moreover have "entry_of st actor = Some (plain_entry PkUser)" unfolding linked(1) by simp
    then have "pe_kind x = PkUser" if "entry_of st actor = Some x" for x
      using that by (simp add: plain_entry_def)
    ultimately show ?thesis unfolding admins_ok_def mem by blast
  qed
  with base show ?thesis by (simp add: registry_ok_base)
qed

inductive reachable_registry :: "registry \<Rightarrow> bool" where
  enabled: "valid_id actor \<Longrightarrow> \<not> is_engine_name actor \<Longrightarrow>
    enable_change actor empty_registry = Ok (st, reducing) \<Longrightarrow> reachable_registry st"
| changed: "reachable_registry st \<Longrightarrow> apply_change st c actor now = Ok st' \<Longrightarrow> reachable_registry st'"
| graph_created: "reachable_registry st \<Longrightarrow>
    create_graph_change g ex actor st = Ok (st', reducing) \<Longrightarrow> reachable_registry st'"

lemma reachable_registry_ok: "reachable_registry st \<Longrightarrow> registry_ok st"
  by (induction rule: reachable_registry.induct) (auto intro: enable_ok apply_change_ok create_graph_ok)

end
