(* ===== verification/Registry_Authority.thy ===== *)
theory Registry_Authority
  imports Registry_Reachable
begin

text \<open>
  What resolution and the permission checks guarantee in a well-formed registry: the depth counter
  of \<open>resolve_at\<close> never cuts a chain short, an agent's identity and authority lie within its
  owner's, and an inactive link takes the authority of everything below it.
\<close>

section \<open>Resolution without the depth counter\<close>

lemma nobody_simps [simp]:
  "is_nobody resolved_nobody" "\<not> is_user resolved_nobody" "\<not> administrator resolved_nobody"
  "expires_at resolved_nobody = None" "rv_access resolved_nobody = access_nobody"
  "permission_on st resolved_nobody g = None" "\<not> write_authority st resolved_nobody g b ok"
  by (simp_all add: resolved_nobody_def is_nobody_def)

text \<open>Resolution of one principal, given how its owner resolves.\<close>

definition resolve_with :: "registry \<Rightarrow> string \<Rightarrow> (string \<Rightarrow> resolved) \<Rightarrow> resolved" where
  "resolve_with st p owner_resolved =
     (case entry_of st p of
        None \<Rightarrow> resolved_nobody
      | Some e \<Rightarrow>
          if pe_status e \<noteq> Active then resolved_nobody
          else
            case closure st p of
              None \<Rightarrow> resolved_nobody
            | Some groups \<Rightarrow>
                (let local = \<lparr>cl_principals = bs_insert p (agents_of st p), cl_groups = groups\<rparr>
                 in case pe_kind e of
                      PkGroup \<Rightarrow> resolved_nobody
                    | PkUser \<Rightarrow>
                        Resolved [local]
                          (UserActor (bs_insert p groups) (administrators_group \<in> set (bs_insert p groups)))
                    | PkAgent \<Rightarrow>
                        (case (pe_owner e, pe_delegation e) of
                           (Some b, Some d) \<Rightarrow> agent_under (owner_resolved b) d local
                         | _ \<Rightarrow> resolved_nobody)))"

lemma compute_resolve_with:
  assumes "depth \<le> max_ownership_chain"
  shows "compute st p depth = resolve_with st p (\<lambda>b. compute st b (Suc depth))"
  using assms
  by (simp add: compute.simps [of st p depth] resolve_with_def from_clauses_def Let_def not_less
      split: option.split principal_kind.split)

lemma resolve_with_cong:
  assumes "\<And>b. owner_of st p = Some b \<Longrightarrow> f b = g b"
  shows "resolve_with st p f = resolve_with st p g"
  using assms
  by (auto simp: resolve_with_def owner_of_def Let_def split: option.splits principal_kind.splits)

lemma compute_depth:
  "stops (owns st) (Suc k) p \<Longrightarrow> depth + k \<le> max_ownership_chain \<Longrightarrow> compute st p depth = compute st p 0"
proof (induction k arbitrary: p depth)
  case 0
  then have "owner_of st p = None"
    by (cases "owner_of st p") (auto simp: stops_def owns_def)
  with 0 show ?case
    by (simp add: compute_resolve_with) (rule resolve_with_cong, simp)
next
  case (Suc k)
  have "compute st b (Suc depth) = compute st b (Suc 0)" if "owner_of st p = Some b" for b
  proof -
    have "stops (owns st) (Suc k) b"
      using stops_step [OF Suc.prems(1)] that by (simp add: owns_def)
    from Suc.IH [OF this, of "Suc depth"] Suc.IH [OF this, of "Suc 0"] Suc.prems(2) show ?thesis by simp
  qed
  then show ?case using Suc.prems(2)
    by (simp add: compute_resolve_with) (rule resolve_with_cong, simp)
qed

lemma resolve_unfold:
  assumes "ownership_ok st"
  shows "resolve st p = resolve_with st p (resolve st)"
proof -
  have stop: "stops (owns st) (Suc max_ownership_chain) p" by (rule ownership_okD(5) [OF assms])
  have "compute st b (Suc 0) = compute st b 0" if "owner_of st p = Some b" for b
  proof (rule compute_depth)
    show "stops (owns st) (Suc (max_ownership_chain - 1)) b"
      using stops_step [OF stop] that by (simp add: owns_def max_ownership_chain_def)
  qed (simp add: max_ownership_chain_def)
  then have eq: "compute st b (Suc 0) = resolve st b" if "owner_of st p = Some b" for b
    using that by (simp add: resolve_def)
  have "resolve st p = resolve_with st p (\<lambda>b. compute st b (Suc 0))"
    unfolding resolve_def by (rule compute_resolve_with) simp
  also have "\<dots> = resolve_with st p (resolve st)" by (rule resolve_with_cong) (rule eq)
  finally show ?thesis .
qed

section \<open>Agents stay within their owners\<close>

lemma agent_cases [consumes 2]:
  assumes ok: "ownership_ok st" and own: "owner_of st a = Some b"
  obtains (cut) "resolve st a = resolved_nobody"
  | (acting) d :: delegation and local :: clause where "\<not> is_nobody (resolve st b)" "rv_access (resolve st b) \<noteq> []"
      "resolve st a = Resolved (rv_access (resolve st b) @
         [exercised (last (rv_access (resolve st b))) (dg_exercise d) local])
       (AgentActor (resolve st b) (dg_scopes d)
         (earliest (expires_at (resolve st b)) (dg_expires_at_ms d)) (dg_may_delegate d))"
proof -
  from own obtain e where e: "entry_of st a = Some e" "pe_owner e = Some b"
    by (auto simp: owner_of_def split: option.splits)
  then have "shape st a = Some (pe_kind e, Some b, pe_delegation e \<noteq> None)" by (simp add: shape_def)
  from ownership_okD(3) [OF ok this] obtain d where "pe_kind e = PkAgent" "pe_delegation e = Some d"
    by (auto simp: shape_ok_def)
  then have "resolve_with st a (resolve st) = resolved_nobody
      \<or> (\<exists>local. resolve_with st a (resolve st) = agent_under (resolve st b) d local)"
    using e by (auto simp: resolve_with_def Let_def split: option.split)
  then have "resolve st a = resolved_nobody \<or> (\<exists>local. resolve st a = agent_under (resolve st b) d local)"
    unfolding resolve_unfold [OF ok, of a, symmetric] .
  then show thesis
    using cut acting by (auto simp: agent_under_def from_clauses_def split: if_splits)
qed

lemma iter_max_Some:
  assumes "iter_max xs = Some m"
  shows "m \<in> set xs \<and> (\<forall>x \<in> set xs. x \<le> m)"
proof -
  have fold: "fold max ys y \<in> insert y (set ys) \<and> (\<forall>x \<in> insert y (set ys). x \<le> fold max ys y)"
    for ys :: "'a list" and y
    by (induction ys arbitrary: y) (force simp: max_def)+
  from assms obtain y ys where "xs = y # ys" "m = fold max ys y"
    by (auto simp: iter_max_def split: list.splits)
  with fold [of ys y] show ?thesis by simp
qed

lemma write_authority_strict: "write_authority st who g b ok \<Longrightarrow> write_authority st who g b True"
  by (induction st who g b ok rule: write_authority.induct) (auto split: option.splits if_splits)

lemma record_admits_append:
  "record_admits rs gs (xs @ ys) \<longleftrightarrow> record_admits rs gs xs \<and> record_admits rs gs ys"
  by (auto simp: record_admits_def)

lemma record_admits_nobody: "record_admits rs gs access_nobody \<Longrightarrow> record_admits rs gs acc"
  by (auto simp: record_admits_def access_nobody_def clause_default_def admits_def list_ex_iff)

text \<open>The order between two resolved identities: everything the first may do, the second may do.\<close>

definition within :: "registry \<Rightarrow> resolved \<Rightarrow> resolved \<Rightarrow> bool" where
  "within st who other \<longleftrightarrow>
     (\<forall>g p. permission_on st who g = Some p \<longrightarrow> (\<exists>q. permission_on st other g = Some q \<and> p \<le> q))
     \<and> (\<forall>g b. can_write st who g b \<longrightarrow> can_write st other g b)
     \<and> (\<forall>rs gs. record_admits rs gs (rv_access who) \<longrightarrow> record_admits rs gs (rv_access other))"

lemma within_refl: "within st who who"
  by (auto simp: within_def)

lemma within_trans: "within st x y \<Longrightarrow> within st y z \<Longrightarrow> within st x z"
  unfolding within_def by (meson order_trans)

lemma within_nobody: "within st resolved_nobody other"
  by (auto simp: within_def can_write_def record_admits_nobody)

lemma agent_within:
  "within st (Resolved (rv_access own @ [c]) (AgentActor own scopes e m)) own"
  by (auto simp: within_def can_write_def record_admits_append min_le_iff_disj
      intro: write_authority_strict split: option.splits)

lemma effective_cases:
  "effective st p now = resolved_nobody \<or> effective st p now = resolve st p
     \<and> (\<forall>t. expires_at (resolve st p) = Some t \<longrightarrow> now < t)"
  by (auto simp: effective_def Let_def split: option.splits)

lemma earliest_Some:
  "earliest x y = None \<Longrightarrow> x = None" "earliest x y = Some t \<Longrightarrow> x = Some u \<Longrightarrow> t \<le> u"
  by (auto simp: earliest_def split: option.splits)

lemma owner_link_within:
  assumes ok: "ownership_ok st" and own: "owner_of st a = Some b"
  shows "within st (effective st a now) (effective st b now)"
proof (cases "effective st a now = resolved_nobody")
  case True
  then show ?thesis by (simp add: within_nobody)
next
  case False
  then have a: "effective st a now = resolve st a"
    and alive: "\<And>t. expires_at (resolve st a) = Some t \<Longrightarrow> now < t"
    using effective_cases by blast+
  from ok own show ?thesis
  proof (cases rule: agent_cases)
    case cut
    then show ?thesis using a by (simp add: within_nobody)
  next
    case (acting d local)
    have "effective st b now = resolve st b"
    proof (cases "expires_at (resolve st b)")
      case None
      then show ?thesis by (simp add: effective_def)
    next
      case (Some u)
      have e: "expires_at (resolve st a) = earliest (expires_at (resolve st b)) (dg_expires_at_ms d)"
        by (simp add: acting(3))
      then obtain t where t: "expires_at (resolve st a) = Some t"
        using Some by (auto simp: earliest_def split: option.splits)
      then have "t \<le> u" using e Some earliest_Some(2) by metis
      with alive [OF t] Some show ?thesis by (simp add: effective_def)
    qed
    then show ?thesis using a acting(3) agent_within by metis
  qed
qed

lemma chain_within:
  assumes "ownership_ok st" and "(a, b) \<in> (owns st)\<^sup>*"
  shows "within st (effective st a now) (effective st b now)"
  using assms(2)
proof (induction rule: rtrancl_induct)
  case (step c d)
  then have "owner_of st c = Some d" by (simp add: owns_def)
  from owner_link_within [OF assms(1) this] step.IH show ?case by (blast intro: within_trans)
qed (rule within_refl)

section \<open>Inactive links\<close>

lemma inactive_nobody: "\<not> active st p \<Longrightarrow> compute st p d = resolved_nobody"
  by (auto simp: compute.simps active_def split: option.splits)

lemma inactive_chain:
  assumes ok: "ownership_ok st" and "(p, q) \<in> (owns st)\<^sup>*" and "\<not> active st q"
  shows "resolve st p = resolved_nobody"
  using assms(2)
proof (induction rule: converse_rtrancl_induct)
  case base
  then show ?case using assms(3) by (simp add: resolve_def inactive_nobody)
next
  case (step a b)
  then have "owner_of st a = Some b" by (simp add: owns_def)
  with ok show ?case
  proof (cases rule: agent_cases)
    case (acting d local)
    with step.IH show ?thesis by simp
  qed
qed

section \<open>Writing implies reading\<close>

lemma Write_order: "Write \<le> p \<longleftrightarrow> p = Write \<or> p = Administer" "Read \<le> p \<longleftrightarrow> p \<noteq> Discover"
  by (cases p; simp add: permission_order)+

lemma write_reads:
  "write_authority st who g b ok \<Longrightarrow> \<exists>p. permission_on st who g = Some p \<and> Read \<le> p"
proof (induction st who g b ok rule: write_authority.induct)
  case (2 st acc owner scopes e m g b ok)
  then obtain held s where held: "permission_on st owner g = Some held" "Read \<le> held"
    and s: "s \<in> set scopes" "scope_writes g b s" by (auto simp: list_ex_iff)
  let ?ps = "map ds_permission (filter (\<lambda>s. ds_graph_id s = g) scopes)"
  have in_ps: "ds_permission s \<in> set ?ps" using s by (auto simp: scope_writes_def)
  then obtain x where x: "iter_max ?ps = Some x" by (cases ?ps) (auto simp: iter_max_def)
  have "Write \<le> x" using iter_max_Some [OF x] in_ps s(2) by (meson order_trans scope_writes_def)
  then have "Read \<le> x" by (auto simp: Write_order)
  moreover have "Read \<le> Write" by (simp add: permission_order)
  ultimately show ?case using held x by simp
next
  case (3 st acc subs admin g b ok)
  then show ?case
    by (auto split: option.splits if_splits simp del: permission_on.simps simp: Write_order)
qed simp

section \<open>Identities of a well-formed registry\<close>

lemma trancl_image_mono: "r \<subseteq> s \<Longrightarrow> r\<^sup>+ `` A \<subseteq> s\<^sup>+ `` A"
  using trancl_mono by blast

lemma closure_some:
  assumes "registry_ok st"
  shows "closure st p \<noteq> None"
proof -
  have "nesting_ok st" using assms by (simp add: registry_ok_def)
  then have le: "card ((up st)\<^sup>+ `` {p}) \<le> max_group_closure" by (simp add: nesting_ok_def)
  have sub: "step (rg_parents st) (active_group st) \<subseteq> up st" by (auto simp: up_def step_iff)
  have "card ((step (rg_parents st) (active_group st))\<^sup>+ `` {p}) \<le> card ((up st)\<^sup>+ `` {p})"
    using trancl_image_mono [OF sub, of "{p}"] by (intro card_mono) (simp_all add: up_def)
  with le show ?thesis
    using worklist_bound_exact [of "rg_parents st" "active_group st" max_group_closure p]
    unfolding closure_def by linarith
qed

lemma known_ids:
  assumes "names_ok st"
  shows "\<not> known st matches_no_one"
  using assms
  by (auto simp: names_ok_def matches_no_one_def administrators_group_def is_engine_name_def starts_with_def)

lemma agents_of_known:
  assumes ok: "ownership_ok st" and "i \<in> set (agents_of st p)"
  shows "known st i \<and> \<not> is_group st i"
proof -
  obtain out where out: "worklist (rg_owned st) (active st) None [] [p] = Some out"
    using worklist_unbounded by blast
  then have "i \<in> set out" using assms(2) by (simp add: agents_of_def del: worklist.simps)
  then have "(p, i) \<in> (step (rg_owned st) (active st))\<^sup>+" using worklist_closure [OF out] by simp
  then obtain c where "(c, i) \<in> step (rg_owned st) (active st)" by (metis tranclE)
  then have "owner_of st i = Some c" using ownership_okD(2) [OF ok] by (simp add: step_iff)
  then obtain k d where shape: "shape st i = Some (k, Some c, d)"
    by (auto simp: owner_of_shape split: option.splits)
  then have "k = PkAgent" using ownership_okD(3) [OF ok] by (auto simp: shape_ok_def)
  with shape show ?thesis by (simp add: known_shape is_group_shape)
qed

lemma closure_groups:
  assumes "closure st p = Some gs" and "g \<in> set gs"
  shows "is_group st g"
proof -
  have "(p, g) \<in> (step (rg_parents st) (active_group st))\<^sup>+"
    using worklist_closure [OF assms(1) [unfolded closure_def]] assms(2) by simp
  then obtain c where "(c, g) \<in> step (rg_parents st) (active_group st)" by (metis tranclE)
  then show ?thesis by (auto simp: step_iff active_group_def is_group_def split: option.splits)
qed

text \<open>
  The principals of an identity are registered and are not groups, its groups are groups: an
  identifier is never both.
\<close>

definition clause_ok :: "registry \<Rightarrow> clause \<Rightarrow> bool" where
  "clause_ok st c \<longleftrightarrow> (\<forall>i \<in> set (cl_principals c). known st i \<and> \<not> is_group st i)
     \<and> (\<forall>g \<in> set (cl_groups c). is_group st g)"

definition access_ok :: "registry \<Rightarrow> access \<Rightarrow> bool" where
  "access_ok st acc \<longleftrightarrow> (\<forall>c \<in> set acc. clause_ok st c)"

lemma access_ok_nobody [simp]: "access_ok st access_nobody"
  by (simp add: access_ok_def clause_ok_def access_nobody_def clause_default_def)

lemma set_bs_extend [simp]: "set (bs_extend s xs) = set s \<union> set xs"
  unfolding bs_extend_def by (induction xs arbitrary: s) auto

lemma exercised_sets:
  "set (cl_principals (exercised held ex local)) = set (cl_principals local)
     \<union> (case ex of OwnerAll \<Rightarrow> set (cl_principals held) | Only ids \<Rightarrow> set ids \<inter> set (cl_principals held))"
  "set (cl_groups (exercised held ex local)) = set (cl_groups local)
     \<union> (case ex of OwnerAll \<Rightarrow> set (cl_groups held)
        | Only ids \<Rightarrow> (set ids \<inter> set (cl_groups held)) - set (cl_principals held))"
proof -
  have "set (cl_principals (exercised held (Only ids) local)) =
      set (cl_principals local) \<union> (set ids \<inter> set (cl_principals held))
    \<and> set (cl_groups (exercised held (Only ids) local)) =
      set (cl_groups local) \<union> ((set ids \<inter> set (cl_groups held)) - set (cl_principals held))" for ids
    by (induction ids arbitrary: local) auto
  then show "set (cl_principals (exercised held ex local)) = set (cl_principals local)
     \<union> (case ex of OwnerAll \<Rightarrow> set (cl_principals held) | Only ids \<Rightarrow> set ids \<inter> set (cl_principals held))"
    "set (cl_groups (exercised held ex local)) = set (cl_groups local)
     \<union> (case ex of OwnerAll \<Rightarrow> set (cl_groups held)
        | Only ids \<Rightarrow> (set ids \<inter> set (cl_groups held)) - set (cl_principals held))"
    by (cases ex; simp)+
qed

lemma exercised_ok: "clause_ok st held \<Longrightarrow> clause_ok st local \<Longrightarrow> clause_ok st (exercised held ex local)"
  unfolding clause_ok_def exercised_sets by (cases ex) auto

lemma agent_under_ok:
  assumes own: "access_ok st (rv_access own)" and local: "clause_ok st local"
  shows "access_ok st (rv_access (agent_under own d local))"
proof (cases "is_nobody own \<or> rv_access own = []")
  case True
  then show ?thesis by (auto simp: agent_under_def)
next
  case False
  then have "clause_ok st (last (rv_access own))" using own by (simp add: access_ok_def)
  with exercised_ok [OF this local] own False show ?thesis
    by (auto simp: agent_under_def from_clauses_def access_ok_def)
qed

lemma resolve_with_ok:
  assumes ok: "ownership_ok st" and own: "\<And>b. access_ok st (rv_access (f b))"
  shows "access_ok st (rv_access (resolve_with st p f))"
proof (cases "entry_of st p")
  case None
  then show ?thesis by (simp add: resolve_with_def)
next
  case (Some e)
  show ?thesis
  proof (cases "pe_status e \<noteq> Active \<or> closure st p = None \<or> pe_kind e = PkGroup")
    case True
    with Some show ?thesis by (auto simp: resolve_with_def Let_def split: option.split principal_kind.split)
  next
    case False
    then obtain gs where gs: "closure st p = Some gs" by auto
    have "known st p" "\<not> is_group st p" using Some False by (simp_all add: known_def is_group_def)
    then have local: "clause_ok st \<lparr>cl_principals = bs_insert p (agents_of st p), cl_groups = gs\<rparr>"
      using agents_of_known [OF ok, of _ p] closure_groups [OF gs] by (simp add: clause_ok_def)
    then show ?thesis
      using Some False gs agent_under_ok [OF own local]
      by (auto simp: resolve_with_def Let_def access_ok_def [of st "[_]"]
          split: option.split principal_kind.split)
  qed
qed

lemma compute_ok:
  assumes ok: "ownership_ok st"
  shows "access_ok st (rv_access (compute st p depth))"
proof (induction "Suc max_ownership_chain - depth" arbitrary: p depth rule: less_induct)
  case less
  show ?case
  proof (cases "depth \<le> max_ownership_chain")
    case True
    then have "access_ok st (rv_access (compute st b (Suc depth)))" for b
      by (intro less.hyps) (simp add: diff_less_mono2)
    with resolve_with_ok [OF ok] True show ?thesis by (simp add: compute_resolve_with)
  next
    case False
    then have "compute st p depth = resolved_nobody"
      by (auto simp: compute.simps [of st p depth] split: option.split)
    then show ?thesis by simp
  qed
qed

lemma effective_ok:
  assumes "ownership_ok st"
  shows "access_ok st (rv_access (effective st p now))"
  using effective_cases [of st p now] compute_ok [OF assms, of p 0] by (auto simp: resolve_def)

lemma effective_real_readers:
  assumes "names_ok st" and "ownership_ok st"
  shows "real_readers (rv_access (effective st p now))"
  using effective_ok [OF assms(2), of p now] known_ids [OF assms(1)]
  by (auto simp: real_readers_def access_ok_def clause_ok_def list_all_iff)

end
