(* ===== verification/Registry_Theorems.thy ===== *)
theory Registry_Theorems
  imports Registry_Authority "HOL-Library.Code_Target_Numeral"
begin

text \<open>
  The properties of the registry, each with a witness on a small registry: a tenant administrator, a
  user in a group with write permission on one graph, and an agent of that user.
\<close>

section \<open>A registry to apply the properties to\<close>

definition demo_delegation :: delegation where
  "demo_delegation =
     \<lparr>dg_scopes = [\<lparr>ds_graph_id = ''g'', ds_permission = Write, ds_branches = []\<rparr>],
      dg_exercise = OwnerAll, dg_expires_at_ms = Some 100, dg_may_delegate = True\<rparr>"

definition run_changes :: "registry \<Rightarrow> (registry_change \<times> string \<times> int) list \<Rightarrow> registry result" where
  "run_changes st cs = try_fold (\<lambda>s (c, actor, now). apply_change s c actor now) st cs"

definition demo_changes :: "(registry_change \<times> string \<times> int) list" where
  "demo_changes = map (\<lambda>c. (c, ''alice'', 0))
     [AddPrincipal ''bob'' PkUser None, AddPrincipal ''team'' PkGroup None, AddMember ''team'' ''bob'',
      Grant ''g'' ''team'' Write, AddAgent ''bot'' ''bob'' demo_delegation None,
      AddAgent ''sub'' ''bot'' demo_delegation None]"

definition demo_start :: registry where
  "demo_start = (case enable_change ''alice'' empty_registry of Inr (st, _) \<Rightarrow> st | Inl _ \<Rightarrow> empty_registry)"

definition demo_registry :: registry where
  "demo_registry = (case run_changes demo_start demo_changes of Inr st \<Rightarrow> st | Inl _ \<Rightarrow> empty_registry)"

lemma run_changes_reachable:
  assumes "reachable_registry st" and "run_changes st cs = Ok st'"
  shows "reachable_registry st'"
proof (rule try_fold_invariant [where f = "\<lambda>s (c, actor, now). apply_change s c actor now"])
  show "try_fold (\<lambda>s (c, actor, now). apply_change s c actor now) st cs = Ok st'"
    using assms(2) by (simp add: run_changes_def)
qed (use assms(1) in \<open>auto intro: reachable_registry.changed\<close>)

lemma demo_start_eq: "enable_change ''alice'' empty_registry = Ok (demo_start, False)"
proof -
  have "is_ok (enable_change ''alice'' empty_registry)" by code_simp
  then obtain p where p: "enable_change ''alice'' empty_registry = Ok p"
    by (cases "enable_change ''alice'' empty_registry") simp_all
  then have "snd p = False" by (auto simp: enable_change_def Let_def)
  with p show ?thesis by (cases p) (simp add: demo_start_def)
qed

lemma demo_registry_eq: "run_changes demo_start demo_changes = Ok demo_registry"
proof -
  have "is_ok (run_changes demo_start demo_changes)" by code_simp
  then show ?thesis by (cases "run_changes demo_start demo_changes") (simp_all add: demo_registry_def)
qed

lemma reachable_demo_registry: "reachable_registry demo_registry"
proof (rule run_changes_reachable [OF _ demo_registry_eq])
  show "reachable_registry demo_start"
    by (rule reachable_registry.enabled [OF _ _ demo_start_eq])
      (simp_all add: valid_id_def is_engine_name_def starts_with_def)
qed

section \<open>Structure\<close>

text \<open>
  C7: in every reachable registry groups nest within the documented bounds: membership is acyclic,
  no chain of groups is longer than \<open>MAX_GROUP_DEPTH\<close>, and no principal is in more than
  \<open>MAX_GROUP_CLOSURE\<close> groups, although \<open>add_member\<close> only re-checks the principals below the new
  member, with a shared memo table and a recursion guard.
\<close>

theorem group_nesting_bounded:
  assumes "reachable_registry st"
  shows "(p, p) \<notin> (up st)\<^sup>+ \<and> card ((up st)\<^sup>+ `` {p}) \<le> max_group_closure
     \<and> (is_group st p \<longrightarrow> (\<forall>q. (p, q) \<notin> up st ^^ max_group_depth))"
proof -
  have ok: "registry_ok st" using assms by (rule reachable_registry_ok)
  then have mem: "membership_ok st" and nest: "nesting_ok st" by (simp_all add: registry_ok_def)
  have "(p, p) \<notin> (up st)\<^sup>+"
  proof
    assume cyc: "(p, p) \<in> (up st)\<^sup>+"
    then have "is_group st p" using up_edge [OF mem] by (metis tranclE)
    then have stop: "stops (up st) max_group_depth p" using nest by (simp add: nesting_ok_def)
    with cyc stops_acyclic [OF stop] show False by simp
  qed
  with nest show ?thesis by (auto simp: nesting_ok_def stops_def)
qed

theorem group_nesting_bounded_witness:
  "(''bob'', ''bob'') \<notin> (up demo_registry)\<^sup>+ \<and> card ((up demo_registry)\<^sup>+ `` {''bob''}) \<le> 1024"
  using group_nesting_bounded [OF reachable_demo_registry, of "''bob''"]
  by (simp add: max_group_closure_def)

text \<open>
  C9: the closure used to resolve a principal is exact in every reachable registry: it never hits
  its bound, and it holds precisely the active groups that contain the principal through active
  groups.
\<close>

theorem closure_exact:
  assumes "reachable_registry st"
  shows "\<exists>gs. closure st p = Some gs \<and> set gs = (step (rg_parents st) (active_group st))\<^sup>+ `` {p}"
proof -
  have "closure st p \<noteq> None" by (rule closure_some [OF reachable_registry_ok [OF assms]])
  then obtain gs where "closure st p = Some gs" by blast
  with worklist_closure show ?thesis unfolding closure_def by blast
qed

theorem closure_exact_witness:
  "\<exists>gs. closure demo_registry ''bob'' = Some gs \<and> ''team'' \<in> set gs"
proof -
  obtain gs where gs: "closure demo_registry ''bob'' = Some gs"
    using closure_exact [OF reachable_demo_registry] by blast
  have "closure demo_registry ''bob'' = Some [''team'']" by code_simp
  with gs show ?thesis by (metis list.set_intros(1) option.inject)
qed

section \<open>Authority\<close>

text \<open>
  C4: an agent never exceeds anyone in its ownership chain. In every reachable registry and at every
  time, whatever permission, write authority or record visibility an agent has, each of its owners
  up to the root user has at least as much, and the agent's permission is never Administer.
\<close>

theorem agent_confined_to_owners:
  assumes "reachable_registry st" and "(a, b) \<in> (owns st)\<^sup>+"
  shows "within st (effective st a now) (effective st b now)
     \<and> permission_on st (effective st a now) g \<noteq> Some Administer"
proof -
  have ok: "ownership_ok st" using reachable_registry_ok [OF assms(1)] by (simp add: registry_ok_def)
  from assms(2) obtain c where "owner_of st a = Some c" by (auto simp: owns_def dest: tranclD)
  with ok have "permission_on st (effective st a now) g \<noteq> Some Administer"
  proof (cases rule: agent_cases)
    case cut
    then show ?thesis using effective_cases [of st a now] by auto
  next
    case (acting d local)
    have "min x Write \<noteq> Administer" for x by (cases x) (simp_all add: min_def permission_order)
    with acting(3) effective_cases [of st a now] show ?thesis by (auto split: option.splits)
  qed
  with chain_within [OF ok trancl_into_rtrancl [OF assms(2)]] show ?thesis by simp
qed

theorem agent_confined_to_owners_witness:
  "permission_on demo_registry (effective demo_registry ''sub'' 0) ''g'' = Some Write
     \<and> (\<exists>q. permission_on demo_registry (effective demo_registry ''bob'' 0) ''g'' = Some q \<and> Write \<le> q)"
proof -
  have "owner_of demo_registry ''sub'' = Some ''bot''" "owner_of demo_registry ''bot'' = Some ''bob''"
    by code_simp+
  then have "(''sub'', ''bob'') \<in> (owns demo_registry)\<^sup>+"
    by (auto simp: owns_def intro: trancl_into_trancl)
  note * = agent_confined_to_owners [OF reachable_demo_registry this, of 0 "''g''"]
  have "permission_on demo_registry (effective demo_registry ''sub'' 0) ''g'' = Some Write" by code_simp
  with * show ?thesis unfolding within_def by blast
qed

text \<open> Suspending or retiring a principal takes effect for everything below it at once: after the
  change, the principal and every agent whose ownership chain reaches it resolve to nobody, hold no
  permission and can write nothing, at any time.
\<close>

theorem suspension_reaches_every_agent:
  assumes "reachable_registry st" and "apply_change st (SetStatus q status) actor now = Ok st'"
    and "status \<noteq> Active" and "(p, q) \<in> (owns st)\<^sup>*"
  shows "effective st' p t = resolved_nobody \<and> permission_on st' (effective st' p t) g = None
     \<and> \<not> can_write st' (effective st' p t) g b"
proof -
  have "reachable_registry st'" using assms(1,2) by (rule reachable_registry.changed)
  then have ok: "ownership_ok st'" using reachable_registry_ok by (simp add: registry_ok_def)
  from assms(2) have "set_status st (effective st actor now) actor q status = Ok st'"
    by (simp add: apply_change_def Let_def)
  then obtain e where e: "entry_of st q = Some e" "st' = put_entry st q (e\<lparr>pe_status := status\<rparr>)"
    by (auto simp: set_status_def Let_def)
  then have "owns st' = owns st" by (auto simp: owns_def owner_of_def split: if_splits)
  moreover have "\<not> active st' q" using e assms(3) by (simp add: active_def)
  ultimately have "resolve st' p = resolved_nobody"
    using inactive_chain [OF ok] assms(4) by simp
  then have "effective st' p t = resolved_nobody" using effective_cases [of st' p t] by auto
  then show ?thesis by (simp add: can_write_def)
qed

theorem suspension_reaches_every_agent_witness:
  "\<exists>st'. apply_change demo_registry (SetStatus ''bob'' Suspended) ''alice'' 5 = Ok st'
     \<and> permission_on st' (effective st' ''sub'' 6) ''g'' = None"
proof -
  have "is_ok (apply_change demo_registry (SetStatus ''bob'' Suspended) ''alice'' 5)" by code_simp
  then obtain st' where st': "apply_change demo_registry (SetStatus ''bob'' Suspended) ''alice'' 5 = Ok st'"
    by (cases "apply_change demo_registry (SetStatus ''bob'' Suspended) ''alice'' 5") simp_all
  have "owner_of demo_registry ''sub'' = Some ''bot''" "owner_of demo_registry ''bot'' = Some ''bob''"
    by code_simp+
  then have "(''sub'', ''bob'') \<in> (owns demo_registry)\<^sup>*"
    by (auto simp: owns_def intro: rtrancl_into_rtrancl)
  from suspension_reaches_every_agent [OF reachable_demo_registry st' _ this, of 6 "''g''"] st'
  show ?thesis by blast
qed

text \<open> Whoever may write a graph or a branch of it, protected or not, directly or as an agent, holds
  at least Read on the graph.
\<close>

theorem write_authority_implies_read:
  assumes "can_write st who g b"
  shows "\<exists>p. permission_on st who g = Some p \<and> Read \<le> p"
  using assms unfolding can_write_def by (rule write_reads)

theorem write_authority_implies_read_witness:
  "\<exists>p. permission_on demo_registry (effective demo_registry ''bot'' 0) ''g'' = Some p \<and> Read \<le> p"
proof -
  have "can_write demo_registry (effective demo_registry ''bot'' 0) ''g'' None" by code_simp
  then show ?thesis by (rule write_authority_implies_read)
qed

text \<open> In every reachable registry a derived record reaches a request only if every input does: the
  reserved reader that stands for an empty intersection is no one's identity, because principals in
  the \<open>weave:\<close> namespace are never issued.
\<close>

theorem registry_derived_never_widens:
  assumes "reachable_registry st"
    and "derived_admits (intersect inputs) (rv_access (effective st p now))" and "r \<in> set inputs"
  shows "restriction_admits r (rv_access (effective st p now))"
proof -
  have "names_ok st" "ownership_ok st"
    using reachable_registry_ok [OF assms(1)] by (simp_all add: registry_ok_def)
  from derived_never_widens_core [OF effective_real_readers [OF this] assms(2,3)] show ?thesis .
qed

theorem registry_derived_never_widens_witness:
  "restriction_admits \<lparr>rs_readers = [''sub''], rs_reader_groups = []\<rparr>
     (rv_access (effective demo_registry ''sub'' 0))"
proof -
  let ?inputs = "[\<lparr>rs_readers = [''bob'', ''sub''], rs_reader_groups = []\<rparr>,
    \<lparr>rs_readers = [''sub''], rs_reader_groups = []\<rparr>]"
  have "derived_admits (intersect ?inputs) (rv_access (effective demo_registry ''sub'' 0))" by code_simp
  from registry_derived_never_widens [OF reachable_demo_registry this] show ?thesis by simp
qed

end
