(* ===== verification/Registry_Cache.thy ===== *)
theory Registry_Cache
  imports Registry_Theorems
begin

text \<open>
  The resolution cache of one registry revision: \<open>resolve_at\<close> looks a principal up in a table shared by
  the nested resolutions of its owners, computes it on a miss and stores it, clearing the table when
  it holds 4096 entries. An entry stored at one depth is later returned at another, and the depth
  bounds the recursion, so that the cache is transparent needs the ownership bound.
\<close>

section \<open>The cached functions\<close>

type_synonym cache = "(string, resolved) btree_map"

definition cache_limit :: nat where "cache_limit = 4096"

definition cache_store :: "string \<Rightarrow> resolved \<Rightarrow> cache \<Rightarrow> cache" where
  "cache_store p r cache = bm_insert p r (if cache_limit \<le> length cache then [] else cache)"

function resolve_at :: "registry \<Rightarrow> cache \<Rightarrow> string \<Rightarrow> nat \<Rightarrow> resolved \<times> cache"
  and compute_at :: "registry \<Rightarrow> cache \<Rightarrow> string \<Rightarrow> nat \<Rightarrow> resolved \<times> cache" where
  "resolve_at st cache p depth =
     (case map_of cache p of
        Some hit \<Rightarrow> (hit, cache)
      | None \<Rightarrow>
          (let (r, cache1) = compute_at st cache p depth in (r, cache_store p r cache1)))"
| "compute_at st cache p depth =
     (case entry_of st p of
        None \<Rightarrow> (resolved_nobody, cache)
      | Some e \<Rightarrow>
          if pe_status e \<noteq> Active \<or> max_ownership_chain < depth then (resolved_nobody, cache)
          else
            case closure st p of
              None \<Rightarrow> (resolved_nobody, cache)
            | Some groups \<Rightarrow>
                (let local = \<lparr>cl_principals = bs_insert p (agents_of st p), cl_groups = groups\<rparr>
                 in case pe_kind e of
                      PkGroup \<Rightarrow> (resolved_nobody, cache)
                    | PkUser \<Rightarrow>
                        (let subs = bs_insert p groups in
                         (Resolved (from_clauses [local])
                            (UserActor subs (administrators_group \<in> set subs)), cache))
                    | PkAgent \<Rightarrow>
                        (case (pe_owner e, pe_delegation e) of
                           (Some owner, Some d) \<Rightarrow>
                             (let (own, cache1) = resolve_at st cache owner (Suc depth)
                              in (agent_under own d local, cache1))
                         | _ \<Rightarrow> (resolved_nobody, cache))))"
  by pat_completeness auto

termination
  by (relation "measures [\<lambda>x. case x of Inl (_, _, _, depth) \<Rightarrow> Suc max_ownership_chain - depth
        | Inr (_, _, _, depth) \<Rightarrow> Suc max_ownership_chain - depth,
      \<lambda>x. case x of Inl _ \<Rightarrow> 1 | Inr _ \<Rightarrow> 0]")
    auto

declare resolve_at.simps [simp del] compute_at.simps [simp del]

section \<open>Transparency\<close>

definition cache_sound :: "registry \<Rightarrow> cache \<Rightarrow> bool" where
  "cache_sound st cache \<longleftrightarrow> (\<forall>p r. map_of cache p = Some r \<longrightarrow> r = resolve st p)"

lemma cache_sound_store: "cache_sound st cache \<Longrightarrow> cache_sound st (cache_store p (resolve st p) cache)"
  by (auto simp: cache_sound_def cache_store_def split: if_splits)

text \<open>The computation of one principal, given how its owner resolves under the cache.\<close>

lemma compute_at_resolve_with:
  assumes "depth \<le> max_ownership_chain"
    and "\<And>b. owner_of st p = Some b \<Longrightarrow>
      fst (resolve_at st cache b (Suc depth)) = f b \<and> cache_sound st (snd (resolve_at st cache b (Suc depth)))"
    and "cache_sound st cache"
  shows "fst (compute_at st cache p depth) = resolve_with st p f
     \<and> cache_sound st (snd (compute_at st cache p depth))"
  using assms
  by (auto simp: compute_at.simps [of st cache p depth] resolve_with_def owner_of_def from_clauses_def
      Let_def not_less case_prod_unfold split: option.split principal_kind.split)

lemma resolve_at_miss:
  assumes "ownership_ok st" and "cache_sound st cache"
    and "fst (compute_at st cache p depth) = resolve_with st p (resolve st)
      \<and> cache_sound st (snd (compute_at st cache p depth))"
  shows "fst (resolve_at st cache p depth) = resolve st p
     \<and> cache_sound st (snd (resolve_at st cache p depth))"
proof (cases "map_of cache p")
  case None
  obtain r c where c: "compute_at st cache p depth = (r, c)" by (cases "compute_at st cache p depth")
  then have "r = resolve st p" "cache_sound st c"
    using assms(3) resolve_unfold [OF assms(1), of p] by simp_all
  then show ?thesis
    using cache_sound_store [of st c p] by (simp add: resolve_at.simps [of st cache p] None c)
next
  case (Some r)
  then show ?thesis using assms(2) by (simp add: resolve_at.simps [of st cache p] cache_sound_def)
qed

lemma resolve_at_sound:
  assumes ok: "ownership_ok st"
  shows "stops (owns st) (Suc k) p \<Longrightarrow> depth + k \<le> max_ownership_chain \<Longrightarrow> cache_sound st cache \<Longrightarrow>
     fst (resolve_at st cache p depth) = resolve st p \<and> cache_sound st (snd (resolve_at st cache p depth))"
proof (induction k arbitrary: p depth cache)
  case 0
  have none: "owner_of st p = None"
    using "0.prems"(1) by (cases "owner_of st p") (auto simp: stops_def owns_def)
  have "fst (compute_at st cache p depth) = resolve_with st p (resolve st)
      \<and> cache_sound st (snd (compute_at st cache p depth))"
    using 0 none by (intro compute_at_resolve_with) simp_all
  with resolve_at_miss [OF ok "0.prems"(3)] show ?case by blast
next
  case (Suc k)
  have "fst (compute_at st cache p depth) = resolve_with st p (resolve st)
      \<and> cache_sound st (snd (compute_at st cache p depth))"
  proof (rule compute_at_resolve_with)
    fix b assume "owner_of st p = Some b"
    then have "stops (owns st) (Suc k) b" using stops_step [OF Suc.prems(1)] by (simp add: owns_def)
    then show "fst (resolve_at st cache b (Suc depth)) = resolve st b
        \<and> cache_sound st (snd (resolve_at st cache b (Suc depth)))"
      using Suc.prems(2,3) by (intro Suc.IH) simp_all
  qed (use Suc.prems in simp_all)
  with resolve_at_miss [OF ok Suc.prems(3)] show ?case by blast
qed

text \<open>
  C8: the resolution cache is transparent. In every reachable registry, whatever principals were
  resolved before and at whatever depth their entries were stored, resolving a principal through the
  cache gives what resolving it without a cache gives, and leaves the cache sound.
\<close>

theorem resolution_cache_transparent:
  assumes "reachable_registry st" and "cache_sound st cache"
  shows "fst (resolve_at st cache p 0) = resolve st p \<and> cache_sound st (snd (resolve_at st cache p 0))"
proof -
  have ok: "ownership_ok st" using reachable_registry_ok [OF assms(1)] by (simp add: registry_ok_def)
  from resolve_at_sound [OF ok, of max_ownership_chain p 0 cache] ownership_okD(5) [OF ok] assms(2)
  show ?thesis by simp
qed

theorem resolution_cache_transparent_witness:
  "fst (resolve_at demo_registry (snd (resolve_at demo_registry [] ''sub'' 0)) ''bot'' 0)
     = resolve demo_registry ''bot''"
proof -
  have "cache_sound demo_registry []" by (simp add: cache_sound_def)
  from resolution_cache_transparent [OF reachable_demo_registry this]
  have "cache_sound demo_registry (snd (resolve_at demo_registry [] ''sub'' 0))" by blast
  from resolution_cache_transparent [OF reachable_demo_registry this] show ?thesis by blast
qed

end
