(* ===== verification/Registry_Change_Theorems.thy ===== *)
theory Registry_Change_Theorems
  imports Registry_Theorems
begin

text \<open>
  What the changes of the registry do to principals and to authority: principals are permanent,
  agents reach only what lies below them, additive changes only add authority, and the tenant keeps
  an administrator, with the two exceptions the code allows.
\<close>

section \<open>Principals are permanent\<close>

text \<open>How the entry of a registered principal may change.\<close>

definition kept :: "entry \<Rightarrow> entry \<Rightarrow> bool" where
  "kept e e' \<longleftrightarrow> pe_kind e' = pe_kind e \<and> pe_owner e' = pe_owner e
     \<and> (pe_status e = Retired \<longrightarrow> pe_status e' = Retired)"

lemma kept_refl [simp]: "kept e e"
  by (simp add: kept_def)

lemma kept_trans: "kept a b \<Longrightarrow> kept b c \<Longrightarrow> kept a c"
  by (simp add: kept_def)

lemma add_member_entry: "add_member st grp member = Ok st' \<Longrightarrow> entry_of st' = entry_of st"
  by (erule add_member_cases) simp_all

text \<open>The entry each change touches, if any.\<close>

fun subject_of :: "registry_change \<Rightarrow> string option" where
  "subject_of (AddPrincipal i _ _) = Some i"
| "subject_of (AddAgent i _ _ _) = Some i"
| "subject_of (SetDelegation agent _) = Some agent"
| "subject_of (SetStatus i _) = Some i"
| "subject_of (SetGroupAdministrators grp _) = Some grp"
| "subject_of _ = None"

lemma run_change_other:
  assumes "run_change st who actor now c = Ok st'" and "subject_of c \<noteq> Some p"
  shows "entry_of st' p = entry_of st p"
  using assms
  by (cases c)
    (auto simp: add_principal_def add_agent_def set_delegation_def set_status_def remove_member_def
      set_group_administrators_def grant_def revoke_def protect_branch_def unprotect_branch_def
      grant_branch_write_def revoke_branch_write_def Let_def add_member_entry split: option.splits)

lemma run_change_kept:
  assumes "run_change st who actor now c = Ok st'" and "entry_of st p = Some e"
  shows "\<exists>e'. entry_of st' p = Some e' \<and> kept e e'"
proof (cases "subject_of c = Some p")
  case True
  with assms show ?thesis
    by (cases c)
      (auto simp: add_principal_def add_agent_def set_delegation_def set_status_def
        set_group_administrators_def Let_def kept_def known_def)
next
  case False
  with run_change_other [OF assms(1)] assms(2) show ?thesis by auto
qed

lemma apply_change_run:
  "apply_change st c actor now = Ok st' \<Longrightarrow> run_change st (effective st actor now) actor now c = Ok st'"
  by (simp add: apply_change_def Let_def)

text \<open> Principal IDs are permanent. Through any accepted sequence of changes by any actors, a
  registered principal keeps its kind and owner, its entry never disappears, and retirement is
  final.
\<close>

theorem principals_permanent:
  assumes "run_changes st cs = Ok st'" and "entry_of st p = Some e"
  shows "\<exists>e'. entry_of st' p = Some e' \<and> pe_kind e' = pe_kind e \<and> pe_owner e' = pe_owner e
     \<and> (pe_status e = Retired \<longrightarrow> pe_status e' = Retired)"
proof -
  have "\<exists>e'. entry_of st' p = Some e' \<and> kept e e'"
  proof (rule try_fold_invariant [where f = "\<lambda>s (c, actor, now). apply_change s c actor now"
        and P = "\<lambda>s. \<exists>e'. entry_of s p = Some e' \<and> kept e e'"])
    fix s x s'
    assume "\<exists>e'. entry_of s p = Some e' \<and> kept e e'"
      and run: "(case x of (c, actor, now) \<Rightarrow> apply_change s c actor now) = Ok s'"
    then obtain e1 where e1: "entry_of s p = Some e1" "kept e e1" by blast
    obtain c actor now where x: "x = (c, actor, now)" by (cases x)
    with run have "run_change s (effective s actor now) actor now c = Ok s'"
      using apply_change_run by simp
    from run_change_kept [OF this e1(1)] e1(2) kept_trans
    show "\<exists>e'. entry_of s' p = Some e' \<and> kept e e'" by blast
  qed (use assms in \<open>auto simp: run_changes_def\<close>)
  then show ?thesis by (auto simp: kept_def)
qed

theorem principals_permanent_witness:
  "\<exists>st' e'. run_changes demo_registry [(SetStatus ''bob'' Retired, ''alice'', 1)] = Ok st'
     \<and> entry_of st' ''sub'' = Some e' \<and> pe_owner e' = Some ''bot''"
proof -
  let ?cs = "[(SetStatus ''bob'' Retired, ''alice'', 1 :: int)]"
  have "is_ok (run_changes demo_registry ?cs)" by code_simp
  then obtain st' where st': "run_changes demo_registry ?cs = Ok st'"
    by (cases "run_changes demo_registry ?cs") simp_all
  have "owner_of demo_registry ''sub'' = Some ''bot''" by code_simp
  then obtain e where "entry_of demo_registry ''sub'' = Some e" "pe_owner e = Some ''bot''"
    by (auto simp: owner_of_def split: option.splits)
  with principals_permanent [OF st' this(1)] st' show ?thesis by auto
qed

section \<open>What an agent can change\<close>

lemma agent_change_kinds:
  assumes "apply_change st c actor now = Ok st'" and "\<not> is_user (effective st actor now)"
  shows "agent_allowed st actor c"
  using assms by (auto simp: apply_change_def check_actor_def Let_def)

lemma owns_kept:
  assumes "run_change st who actor now c = Ok st'"
  shows "owns st \<subseteq> owns st'"
  using run_change_kept [OF assms] by (fastforce simp: owns_def owner_of_def kept_def split: option.splits)

text \<open> An agent acts only on agents below it. An accepted change by a principal that is not a user
  leaves memberships, graph ACLs and protected branches as they were, and every entry it creates or
  alters belongs to an agent whose ownership chain contains the actor; the actor's own entry is
  unchanged.
\<close>

theorem agent_changes_only_below:
  assumes "reachable_registry st" and "apply_change st c actor now = Ok st'"
    and "\<not> is_user (effective st actor now)"
  shows "rg_members st' = rg_members st \<and> rg_parents st' = rg_parents st
     \<and> rg_grants st' = rg_grants st \<and> rg_protected st' = rg_protected st
     \<and> (\<forall>p. entry_of st' p \<noteq> entry_of st p \<longrightarrow> (p, actor) \<in> (owns st')\<^sup>+)
     \<and> entry_of st' actor = entry_of st actor"
proof -
  note run = apply_change_run [OF assms(2)]
  note allowed = agent_change_kinds [OF assms(2,3)]
  have below: "(i, actor) \<in> (owns st')\<^sup>+" if "is_below st actor i" for i
    using chain_sound [of actor st i] that owns_kept [OF run] unfolding is_below_def
    by (meson trancl_mono)
  have fields: "rg_members st' = rg_members st \<and> rg_parents st' = rg_parents st
     \<and> rg_grants st' = rg_grants st \<and> rg_protected st' = rg_protected st"
    using allowed run
    by (cases c) (auto simp: add_agent_def set_delegation_def set_status_def Let_def)
  have changed: "(p, actor) \<in> (owns st')\<^sup>+" if "entry_of st' p \<noteq> entry_of st p" for p
  proof -
    from run_change_other [OF run, of p] that have "subject_of c = Some p" by blast
    with allowed consider (agent) owner d name where "c = AddAgent p owner d name"
        "owner = actor \<or> is_below st actor owner"
      | (below) "is_below st actor p"
      by (cases c) auto
    then show ?thesis
    proof cases
      case agent
      with run have "owner_of st' p = Some owner"
        by (auto simp: add_agent_def owner_of_def)
      then have "(p, owner) \<in> owns st'" by (simp add: owns_def)
      with agent(2) below show ?thesis by (auto intro: trancl_into_trancl2)
    qed (rule below)
  qed
  moreover have "entry_of st' actor = entry_of st actor"
  proof (rule ccontr)
    assume "entry_of st' actor \<noteq> entry_of st actor"
    from changed [OF this] have cyc: "(actor, actor) \<in> (owns st')\<^sup>+" .
    have "reachable_registry st'" using assms(1,2) by (rule reachable_registry.changed)
    then have "ownership_ok st'" using reachable_registry_ok by (simp add: registry_ok_def)
    with cyc stops_acyclic [OF ownership_okD(5)] show False by blast
  qed
  ultimately show ?thesis using fields by blast
qed

theorem agent_changes_only_below_witness:
  "\<exists>st'. apply_change demo_registry (SetStatus ''sub'' Suspended) ''bot'' 5 = Ok st'
     \<and> rg_grants st' = rg_grants demo_registry \<and> entry_of st' ''bot'' = entry_of demo_registry ''bot''"
proof -
  have "is_ok (apply_change demo_registry (SetStatus ''sub'' Suspended) ''bot'' 5)" by code_simp
  then obtain st' where st': "apply_change demo_registry (SetStatus ''sub'' Suspended) ''bot'' 5 = Ok st'"
    by (cases "apply_change demo_registry (SetStatus ''sub'' Suspended) ''bot'' 5") simp_all
  have "\<not> is_user (effective demo_registry ''bot'' 5)" by code_simp
  from agent_changes_only_below [OF reachable_demo_registry st' this] st' show ?thesis by blast
qed

section \<open>Administrators\<close>

lemma has_active_administrator_iff:
  assumes "bm_ok (rg_principals st)"
  shows "has_active_administrator st \<longleftrightarrow>
    (\<exists>p e. entry_of st p = Some e \<and> pe_kind e = PkUser \<and> pe_status e = Active
       \<and> (p, administrators_group) \<in> up st)"
  using bm_ok_distinct [OF assms]
  by (auto simp: has_active_administrator_def list_ex_iff entry_of_def up_def step_iff)

lemma run_change_up:
  assumes "run_change st who actor now c = Ok st'"
    and "\<And>m. c \<noteq> RemoveMember administrators_group m"
    and "(p, administrators_group) \<in> up st"
  shows "(p, administrators_group) \<in> up st'"
proof (cases "\<exists>g m. c = RemoveMember g m")
  case True
  then obtain g m where c: "c = RemoveMember g m" "g \<noteq> administrators_group" using assms(2) by blast
  with assms(1) have "st' = unlink_member st g m"
    by (auto simp: remove_member_def unlink_member_def Let_def)
  with c(2) assms(3) show ?thesis by (simp add: up_unlink)
next
  case False
  have mem: "add_member st g m = Ok st' \<Longrightarrow> up st \<subseteq> up st'" for g m
    by (erule add_member_cases) (auto simp: up_link)
  from False assms(1) have "up st \<subseteq> up st'"
    by (cases c)
      (auto simp: add_principal_def add_agent_def set_delegation_def set_status_def
        set_group_administrators_def grant_def revoke_def protect_branch_def unprotect_branch_def
        grant_branch_write_def revoke_branch_write_def Let_def up_def mem [unfolded up_def]
        dest: subsetD [OF mem [unfolded up_def]] split: option.splits)
  with assms(3) show ?thesis by blast
qed

text \<open> The tenant keeps an active administrator: no accepted change other than removing a member of
  the administrators group leaves the registry without an active user in it.
\<close>

theorem active_administrator_kept:
  assumes "reachable_registry st" and "apply_change st c actor now = Ok st'"
    and "\<And>m. c \<noteq> RemoveMember administrators_group m" and "has_active_administrator st"
  shows "has_active_administrator st'"
proof -
  note run = apply_change_run [OF assms(2)]
  have "reachable_registry st'" using assms(1,2) by (rule reachable_registry.changed)
  then have bm: "bm_ok (rg_principals st)" "bm_ok (rg_principals st')"
    using assms(1) reachable_registry_ok by (simp_all add: registry_ok_def names_ok_def)
  show ?thesis
  proof (cases "\<exists>i s. c = SetStatus i s")
    case True
    then obtain i s where "c = SetStatus i s" by blast
    with run show ?thesis by (auto simp: set_status_def Let_def)
  next
    case False
    from assms(4) obtain p e where e: "entry_of st p = Some e" "pe_kind e = PkUser"
      "pe_status e = Active" "(p, administrators_group) \<in> up st"
      unfolding has_active_administrator_iff [OF bm(1)] by blast
    have "\<exists>e'. entry_of st' p = Some e' \<and> pe_kind e' = PkUser \<and> pe_status e' = Active"
    proof (cases "subject_of c = Some p")
      case True
      with False run e show ?thesis
        by (cases c)
          (auto simp: add_principal_def add_agent_def set_delegation_def known_def
            set_group_administrators_def)
    next
      case False
      with run_change_other [OF run] e show ?thesis by simp
    qed
    with run_change_up [OF run assms(3) e(4)] show ?thesis
      unfolding has_active_administrator_iff [OF bm(2)] by blast
  qed
qed

theorem active_administrator_kept_witness:
  "\<exists>st'. apply_change demo_registry (SetStatus ''bob'' Retired) ''alice'' 5 = Ok st'
     \<and> has_active_administrator st'"
proof -
  have "is_ok (apply_change demo_registry (SetStatus ''bob'' Retired) ''alice'' 5)" by code_simp
  then obtain st' where st': "apply_change demo_registry (SetStatus ''bob'' Retired) ''alice'' 5 = Ok st'"
    by (cases "apply_change demo_registry (SetStatus ''bob'' Retired) ''alice'' 5") simp_all
  have "has_active_administrator demo_registry" by code_simp
  with active_administrator_kept [OF reachable_demo_registry st'] st' show ?thesis by auto
qed

text \<open>
  Removing a member of the administrators group is only checked for an empty group, so it can
  leave the tenant without any active administrator: two administrators, one suspended, and the
  active one removes itself.
\<close>

theorem administrator_lockout:
  "\<exists>st actor now st'. reachable_registry st \<and> has_active_administrator st
     \<and> apply_change st (RemoveMember administrators_group actor) actor now = Ok st'
     \<and> \<not> has_active_administrator st'"
proof -
  let ?cs = "[(AddPrincipal ''eve'' PkUser None, ''alice'', 0 :: int),
    (AddMember administrators_group ''eve'', ''alice'', 0), (SetStatus ''eve'' Suspended, ''alice'', 0)]"
  have "is_ok (run_changes demo_registry ?cs)" by code_simp
  then obtain st where st: "run_changes demo_registry ?cs = Ok st"
    by (cases "run_changes demo_registry ?cs") simp_all
  let ?after = "\<lambda>s. apply_change s (RemoveMember administrators_group ''alice'') ''alice'' 0"
  have "case run_changes demo_registry ?cs of Inl _ \<Rightarrow> False
      | Inr s \<Rightarrow> has_active_administrator s \<and>
         (case ?after s of Inl _ \<Rightarrow> False | Inr s' \<Rightarrow> \<not> has_active_administrator s')"
    by code_simp
  then obtain st' where "has_active_administrator st" "?after st = Ok st'" "\<not> has_active_administrator st'"
    by (auto simp: st split: sum.splits)
  with run_changes_reachable [OF reachable_demo_registry st] show ?thesis by blast
qed

section \<open>Additive changes\<close>

text \<open>
  \<open>UnprotectBranch\<close> counts as additive, so it does not advance the admission policy epoch, but it
  drops the branch entries of principals that may only read the graph.
\<close>

text \<open>
  The additive change \<open>UnprotectBranch\<close> can take authority away: a principal with Read on the
  graph and an entry on its protected branch may write the branch before the change and not after.
\<close>

theorem unprotect_withdraws_authority:
  "\<exists>st c actor now st' p g b. reachable_registry st \<and> additive c \<and> apply_change st c actor now = Ok st'
     \<and> can_write st (effective st p now) g (Some b) \<and> \<not> can_write st' (effective st' p now) g (Some b)"
proof -
  let ?cs = "[(Grant ''g'' ''bob'' Read, ''alice'', 0 :: int), (Revoke ''g'' ''team'', ''alice'', 0),
    (ProtectBranch ''g'' ''b'', ''alice'', 0), (GrantBranchWrite ''g'' ''b'' ''bob'', ''alice'', 0)]"
  let ?c = "UnprotectBranch ''g'' ''b''"
  have "is_ok (run_changes demo_registry ?cs)" by code_simp
  then obtain st where st: "run_changes demo_registry ?cs = Ok st"
    by (cases "run_changes demo_registry ?cs") simp_all
  have "case run_changes demo_registry ?cs of Inl _ \<Rightarrow> False
      | Inr s \<Rightarrow> can_write s (effective s ''bob'' 0) ''g'' (Some ''b'') \<and>
         (case apply_change s ?c ''alice'' 0 of Inl _ \<Rightarrow> False
          | Inr s' \<Rightarrow> \<not> can_write s' (effective s' ''bob'' 0) ''g'' (Some ''b''))"
    by code_simp
  then obtain st' where "can_write st (effective st ''bob'' 0) ''g'' (Some ''b'')"
    "apply_change st ?c ''alice'' 0 = Ok st'" "\<not> can_write st' (effective st' ''bob'' 0) ''g'' (Some ''b'')"
    by (auto simp: st split: sum.splits)
  moreover have "additive ?c" by simp
  ultimately show ?thesis using run_changes_reachable [OF reachable_demo_registry st] by blast
qed

text \<open>What a registry must keep for every identity and authority in it to stay at least the same.\<close>

definition extends :: "registry \<Rightarrow> registry \<Rightarrow> bool" where
  "extends st st' \<longleftrightarrow> (\<forall>p e. entry_of st p = Some e \<longrightarrow> entry_of st' p = Some e)
     \<and> (\<forall>p. set (succs (rg_parents st) p) \<subseteq> set (succs (rg_parents st') p))
     \<and> (\<forall>p. set (succs (rg_owned st) p) \<subseteq> set (succs (rg_owned st') p))
     \<and> rg_grants st' = rg_grants st
     \<and> (\<forall>k. case map_of (rg_protected st) k of
          None \<Rightarrow> map_of (rg_protected st') k = None
        | Some ws \<Rightarrow> \<exists>ws'. map_of (rg_protected st') k = Some ws' \<and> set ws \<subseteq> set ws')"

lemma extends_refl: "extends st st"
  by (auto simp: extends_def split: option.split)

lemma additive_extends:
  assumes "run_change st who actor now c = Ok st'" and "additive c" and "\<And>g b. c \<noteq> UnprotectBranch g b"
  shows "extends st st'"
proof -
  have mem: "extends st st'" if "add_member st g m = Ok st'" for g m
    using that
  proof (cases rule: add_member_cases)
    case present
    then show ?thesis by (simp add: extends_refl)
  next
    case (linked e memo)
    then show ?thesis by (auto simp: extends_def link_member_def split: option.split)
  qed
  show ?thesis
  proof (cases "\<exists>g m. c = AddMember g m")
    case True
    with assms(1) mem show ?thesis by auto
  next
    case False
    with assms show ?thesis
      by (cases c)
        (auto simp: add_principal_def add_agent_def grant_branch_write_def known_def extends_def
          split: option.split)
  qed
qed

text \<open>One identity is at least another: same structure, larger identity sets.\<close>

definition clause_le :: "clause \<Rightarrow> clause \<Rightarrow> bool" where
  "clause_le c d \<longleftrightarrow> set (cl_principals c) \<subseteq> set (cl_principals d) \<and> set (cl_groups c) \<subseteq> set (cl_groups d)"

inductive grows :: "resolved \<Rightarrow> resolved \<Rightarrow> bool" where
  nobody: "grows resolved_nobody r"
| user: "list_all2 clause_le acc acc' \<Longrightarrow> set subs \<subseteq> set subs' \<Longrightarrow> (admin \<longrightarrow> admin') \<Longrightarrow>
    grows (Resolved acc (UserActor subs admin)) (Resolved acc' (UserActor subs' admin'))"
| agent: "list_all2 clause_le acc acc' \<Longrightarrow> grows own own' \<Longrightarrow>
    grows (Resolved acc (AgentActor own scopes e m)) (Resolved acc' (AgentActor own' scopes e m))"

inductive_cases grows_cases: "grows r r'"

lemma grows_not_nobody: "grows r r' \<Longrightarrow> r \<noteq> resolved_nobody \<Longrightarrow>
    list_all2 clause_le (rv_access r) (rv_access r') \<and> \<not> is_nobody r' \<and> expires_at r' = expires_at r"
  by (erule grows_cases) (auto simp: is_nobody_def)

lemma admits_mono: "clause_le c d \<Longrightarrow> admits c rs gs \<Longrightarrow> admits d rs gs"
  unfolding clause_le_def admits_def list_ex_iff by blast

lemma record_admits_mono:
  "list_all2 clause_le acc acc' \<Longrightarrow> record_admits rs gs acc \<Longrightarrow> record_admits rs gs acc'"
  by (induction acc acc' rule: list_all2_induct) (auto intro: admits_mono)

lemma grows_admits: "grows r r' \<Longrightarrow> record_admits rs gs (rv_access r) \<Longrightarrow> record_admits rs gs (rv_access r')"
  by (erule grows_cases) (auto intro: record_admits_mono record_admits_nobody)

lemma iter_max_mono:
  assumes "set xs \<subseteq> set ys" and "iter_max xs = Some m"
  shows "\<exists>n. iter_max ys = Some n \<and> m \<le> n"
proof -
  have "m \<in> set ys" using iter_max_Some [OF assms(2)] assms(1) by blast
  then obtain n where n: "iter_max ys = Some n" by (cases ys) (auto simp: iter_max_def)
  with iter_max_Some [OF n] \<open>m \<in> set ys\<close> show ?thesis by blast
qed

lemma Administer_top: "p \<le> Administer"
  by (cases p) (simp_all add: permission_order)

lemma grows_permission:
  assumes ext: "extends st st'" and "grows r r'"
  shows "permission_on st r g = Some p \<Longrightarrow> \<exists>q. permission_on st' r' g = Some q \<and> p \<le> q"
  using assms(2)
proof (induction arbitrary: p rule: grows.induct)
  case (user acc acc' subs subs' admin admin')
  show ?case
  proof (cases admin')
    case True
    then show ?thesis using Administer_top by simp
  next
    case False
    then have "\<not> admin" using user by blast
    show ?thesis
    proof (cases "reserved g \<or> is_engine_name g")
      case True
      with user.prems \<open>\<not> admin\<close> False show ?thesis by (auto split: if_splits)
    next
      case ext': False
      then have "acl_permission st subs g = Some p" using user.prems \<open>\<not> admin\<close> by simp
      then obtain acl where acl: "map_of (rg_grants st) g = Some acl"
        "iter_max (map snd (filter (\<lambda>(s, _). s \<in> set subs) acl)) = Some p"
        by (auto simp: acl_permission_def split: option.splits)
      have "set (map snd (filter (\<lambda>(s, _). s \<in> set subs) acl))
          \<subseteq> set (map snd (filter (\<lambda>(s, _). s \<in> set subs') acl))" using user.hyps(2) by auto
      from iter_max_mono [OF this acl(2)] acl(1) ext ext' False show ?thesis
        by (simp add: acl_permission_def extends_def)
    qed
  qed
next
  case (agent acc acc' own own' scopes e m)
  then obtain held scoped where held: "permission_on st own g = Some held"
    "iter_max (map ds_permission (filter (\<lambda>s. ds_graph_id s = g) scopes)) = Some scoped"
    "p = min (min held scoped) Write"
    by (auto split: option.splits)
  from agent.IH [OF held(1)] held(2,3) show ?case by (auto simp: min_le_iff_disj)
qed simp

lemma grows_write:
  assumes ext: "extends st st'" and "grows r r'"
  shows "write_authority st r g b ok \<Longrightarrow> write_authority st' r' g b ok"
  using assms(2)
proof (induction arbitrary: ok rule: grows.induct)
  case (user acc acc' subs subs' admin admin')
  let ?r = "Resolved acc (UserActor subs admin)" and ?r' = "Resolved acc' (UserActor subs' admin')"
  from user.prems obtain p where p: "permission_on st ?r g = Some p"
    by (auto simp del: permission_on.simps split: option.splits)
  from grows_permission [OF ext grows.user [OF user.hyps] this] obtain q
    where q: "permission_on st' ?r' g = Some q" "p \<le> q" by blast
  show ?case
  proof (cases b)
    case None
    with user.prems p q show ?thesis by (auto simp del: permission_on.simps)
  next
    case (Some branch)
    note prot = ext [unfolded extends_def, THEN conjunct2, THEN conjunct2, THEN conjunct2, THEN conjunct2,
        rule_format, of "(g, branch)"]
    show ?thesis
    proof (cases "map_of (rg_protected st) (g, branch)")
      case None
      with Some user.prems p q prot show ?thesis by (auto simp del: permission_on.simps)
    next
      case (Some ws)
      with prot obtain ws' where ws': "map_of (rg_protected st') (g, branch) = Some ws'" "set ws \<subseteq> set ws'"
        by auto
      have "q = Administer" if "p = Administer" using q(2) that Administer_top [of q] by simp
      with \<open>b = Some branch\<close> Some user.prems p q ws' user.hyps(2) show ?thesis
        by (auto simp: list_ex_iff simp del: permission_on.simps split: if_splits)
    qed
  qed
qed (simp_all add: resolved_nobody_def)

section \<open>Identities grow with the registry\<close>

lemma extends_active:
  assumes "extends st st'"
  shows "active_group st i \<Longrightarrow> active_group st' i" "active st i \<Longrightarrow> active st' i"
  using assms by (auto simp: extends_def active_group_def active_def split: option.splits)

lemma closure_set: "closure st p = Some gs \<Longrightarrow> set gs = (step (rg_parents st) (active_group st))\<^sup>+ `` {p}"
  unfolding closure_def by (rule worklist_closure)

lemma agents_of_set: "set (agents_of st p) = (step (rg_owned st) (active st))\<^sup>+ `` {p}"
proof -
  obtain out where out: "worklist (rg_owned st) (active st) None [] [p] = Some out"
    using worklist_unbounded by blast
  with worklist_closure [OF out] show ?thesis by (simp add: agents_of_def del: worklist.simps)
qed

lemma extends_closure:
  assumes "extends st st'" and "closure st p = Some gs" and "closure st' p = Some gs'"
  shows "set gs \<subseteq> set gs'"
proof -
  have "step (rg_parents st) (active_group st) \<subseteq> step (rg_parents st') (active_group st')"
    using assms(1) extends_active(1) [OF assms(1)] unfolding extends_def step_def by blast
  from trancl_image_mono [OF this] show ?thesis
    using closure_set [OF assms(2)] closure_set [OF assms(3)] by simp
qed

lemma extends_agents: "extends st st' \<Longrightarrow> set (agents_of st p) \<subseteq> set (agents_of st' p)"
proof -
  assume ext: "extends st st'"
  then have "step (rg_owned st) (active st) \<subseteq> step (rg_owned st') (active st')"
    using extends_active(2) [OF ext] unfolding extends_def step_def by blast
  from trancl_image_mono [OF this] show ?thesis by (simp add: agents_of_set)
qed

lemma list_all2_last: "list_all2 P xs ys \<Longrightarrow> xs \<noteq> [] \<Longrightarrow> P (last xs) (last ys)"
  by (induction xs ys rule: list_all2_induct) (auto simp: list_all2_Nil list_all2_Nil2)

lemma exercised_grows:
  assumes "clause_le held held'" and "clause_le local local'"
    and "clause_ok st' held'" and "\<forall>g \<in> set (cl_groups held). is_group st' g"
  shows "clause_le (exercised held ex local) (exercised held' ex local')"
proof -
  have "set (cl_groups held) \<inter> set (cl_principals held') = {}"
    using assms(3,4) unfolding clause_ok_def by blast
  with assms(1,2) show ?thesis
    unfolding clause_le_def exercised_sets by (cases ex) auto
qed

lemma is_group_extends: "extends st st' \<Longrightarrow> is_group st g \<Longrightarrow> is_group st' g"
  by (auto simp: extends_def is_group_def split: option.splits)

lemma agent_under_grows:
  assumes own: "grows own own'" and local: "clause_le local local'"
    and ext: "extends st st'" and ok: "access_ok st (rv_access own)" "access_ok st' (rv_access own')"
  shows "grows (agent_under own d local) (agent_under own' d local')"
proof (cases "is_nobody own \<or> rv_access own = []")
  case True
  then show ?thesis by (auto simp: agent_under_def intro: grows.nobody)
next
  case False
  then have "own \<noteq> resolved_nobody" by auto
  from grows_not_nobody [OF own this] have acc: "list_all2 clause_le (rv_access own) (rv_access own')"
    and alive: "\<not> is_nobody own'" and exp: "expires_at own' = expires_at own" by simp_all
  have ne: "rv_access own' \<noteq> []" using acc False by auto
  have "\<forall>g \<in> set (cl_groups (last (rv_access own))). is_group st' g"
  proof -
    have "last (rv_access own) \<in> set (rv_access own)" using False by simp
    then have "clause_ok st (last (rv_access own))" using ok(1) unfolding access_ok_def by blast
    then show ?thesis using is_group_extends [OF ext] unfolding clause_ok_def by blast
  qed
  moreover have "clause_ok st' (last (rv_access own'))" using ok(2) ne by (simp add: access_ok_def)
  ultimately have "clause_le (exercised (last (rv_access own)) (dg_exercise d) local)
      (exercised (last (rv_access own')) (dg_exercise d) local')"
    using list_all2_last [OF acc] False local by (intro exercised_grows) auto
  with acc have "list_all2 clause_le
      (rv_access own @ [exercised (last (rv_access own)) (dg_exercise d) local])
      (rv_access own' @ [exercised (last (rv_access own')) (dg_exercise d) local'])"
    by (simp add: list_all2_appendI)
  with own False alive ne exp show ?thesis
    by (simp add: agent_under_def from_clauses_def grows.agent)
qed

lemma resolve_with_grows:
  assumes ext: "extends st st'" and closures: "closure st p \<noteq> None \<Longrightarrow> closure st' p \<noteq> None"
    and own: "\<And>b. owner_of st p = Some b \<Longrightarrow> grows (f b) (f' b)"
    and ok: "\<And>b. access_ok st (rv_access (f b))" "\<And>b. access_ok st' (rv_access (f' b))"
  shows "grows (resolve_with st p f) (resolve_with st' p f')"
proof (cases "entry_of st p")
  case None
  then show ?thesis by (simp add: resolve_with_def grows.nobody)
next
  case (Some e)
  then have e': "entry_of st' p = Some e" using ext by (simp add: extends_def)
  show ?thesis
  proof (cases "pe_status e \<noteq> Active \<or> closure st p = None")
    case True
    with Some show ?thesis by (auto simp: resolve_with_def intro: grows.nobody)
  next
    case False
    then obtain gs gs' where gs: "closure st p = Some gs" "closure st' p = Some gs'" using closures by auto
    note sub = extends_closure [OF ext gs]
    have local: "clause_le \<lparr>cl_principals = bs_insert p (agents_of st p), cl_groups = gs\<rparr>
        \<lparr>cl_principals = bs_insert p (agents_of st' p), cl_groups = gs'\<rparr>"
      using sub extends_agents [OF ext, of p] by (auto simp: clause_le_def)
    show ?thesis
    proof (cases "pe_kind e")
      case PkUser
      with Some e' False gs sub local show ?thesis
        by (auto simp: resolve_with_def Let_def intro!: grows.user)
    next
      case PkGroup
      with Some False gs show ?thesis by (simp add: resolve_with_def Let_def grows.nobody)
    next
      case PkAgent
      show ?thesis
      proof (cases "\<exists>b d. pe_owner e = Some b \<and> pe_delegation e = Some d")
        case True
        then obtain b d where b: "pe_owner e = Some b" "pe_delegation e = Some d" by blast
        then have "grows (f b) (f' b)" using own Some by (simp add: owner_of_def)
        from agent_under_grows [OF this local ext ok] PkAgent Some e' False gs b show ?thesis
          by (simp add: resolve_with_def Let_def)
      next
        case False
        with PkAgent Some gs \<open>\<not> (pe_status e \<noteq> Active \<or> closure st p = None)\<close> show ?thesis
          by (auto simp: resolve_with_def Let_def intro: grows.nobody split: option.split)
      qed
    qed
  qed
qed

lemma compute_grows:
  assumes ext: "extends st st'" and ok: "registry_ok st" "registry_ok st'"
  shows "grows (compute st p depth) (compute st' p depth)"
proof (induction "Suc max_ownership_chain - depth" arbitrary: p depth rule: less_induct)
  case less
  have own: "ownership_ok st" "ownership_ok st'" using ok by (simp_all add: registry_ok_def)
  show ?case
  proof (cases "depth \<le> max_ownership_chain")
    case True
    then have "grows (compute st b (Suc depth)) (compute st' b (Suc depth))" for b
      by (intro less.hyps) (simp add: diff_less_mono2)
    with resolve_with_grows [OF ext closure_some [OF ok(2)] _ compute_ok [OF own(1)] compute_ok [OF own(2)]]
      True show ?thesis by (simp add: compute_resolve_with)
  next
    case False
    then have "compute st p depth = resolved_nobody"
      by (auto simp: compute.simps [of st p depth] split: option.split)
    then show ?thesis by (simp add: grows.nobody)
  qed
qed

lemma effective_grows:
  assumes "extends st st'" and "registry_ok st" "registry_ok st'"
  shows "grows (effective st p now) (effective st' p now)"
proof (cases "effective st p now = resolved_nobody")
  case True
  then show ?thesis by (simp add: grows.nobody)
next
  case False
  have grow: "grows (resolve st p) (resolve st' p)"
    using compute_grows [OF assms] by (simp add: resolve_def)
  from False have res: "effective st p now = resolve st p" "resolve st p \<noteq> resolved_nobody"
    using effective_cases [of st p now] by auto
  with grows_not_nobody [OF grow] have "expires_at (resolve st' p) = expires_at (resolve st p)" by simp
  then have "effective st' p now = resolve st' p"
    using res by (auto simp: effective_def Let_def split: option.splits if_splits)
  with res grow show ?thesis by simp
qed

text \<open> Every other additive change only adds authority. After an accepted \<open>AddPrincipal\<close>, \<open>AddAgent\<close>,
  \<open>AddMember\<close> or \<open>GrantBranchWrite\<close>, every principal still has at least its permission on every
  graph, may write every branch it could write, and sees every record it could see; so leaving the
  admission policy epoch alone is right for them.
\<close>

theorem additive_changes_only_add:
  assumes "reachable_registry st" and "apply_change st c actor now = Ok st'"
    and "additive c" and "\<And>g b. c \<noteq> UnprotectBranch g b"
  shows "(permission_on st (effective st p t) g = Some x \<longrightarrow>
        (\<exists>y. permission_on st' (effective st' p t) g = Some y \<and> x \<le> y))
     \<and> (can_write st (effective st p t) g b \<longrightarrow> can_write st' (effective st' p t) g b)
     \<and> (record_admits rs gs (rv_access (effective st p t)) \<longrightarrow>
          record_admits rs gs (rv_access (effective st' p t)))"
proof -
  have "reachable_registry st'" using assms(1,2) by (rule reachable_registry.changed)
  then have ok: "registry_ok st" "registry_ok st'" using assms(1) reachable_registry_ok by blast+
  have ext: "extends st st'" using additive_extends [OF apply_change_run [OF assms(2)] assms(3,4)] .
  note grow = effective_grows [OF ext ok, of p t]
  show ?thesis
    using grows_permission [OF ext grow] grows_write [OF ext grow] grows_admits [OF grow]
    unfolding can_write_def by blast
qed

theorem additive_changes_only_add_witness:
  "\<exists>st'. apply_change demo_registry (AddMember ''team'' ''alice'') ''alice'' 5 = Ok st'
     \<and> can_write st' (effective st' ''sub'' 5) ''g'' None"
proof -
  have "is_ok (apply_change demo_registry (AddMember ''team'' ''alice'') ''alice'' 5)" by code_simp
  then obtain st' where st': "apply_change demo_registry (AddMember ''team'' ''alice'') ''alice'' 5 = Ok st'"
    by (cases "apply_change demo_registry (AddMember ''team'' ''alice'') ''alice'' 5") simp_all
  have "can_write demo_registry (effective demo_registry ''sub'' 5) ''g'' None" by code_simp
  with additive_changes_only_add [OF reachable_demo_registry st', of "''sub''" 5] st' show ?thesis by auto
qed

end
