(* ===== verification/Registry_Facts.thy ===== *)
theory Registry_Facts
  imports Registry_Change_Theorems Fact_Model
begin

text \<open>
  The registry as facts of the graph \<open>weave:registry\<close>: \<open>State::render\<close> turns a state into keyed
  facts and \<open>State::parse\<close> rebuilds the state from them. The JSON encoding of a fact's properties is
  serde's; here a fact carries the typed values \<open>render\<close> puts into it and \<open>parse\<close> reads out. The
  digest that makes node and edge identifiers is the parameter \<open>hash\<close>.
\<close>

section \<open>Facts\<close>

datatype registry_body =
    PrincipalBody entry
  | GraphBody string
  | BranchBody string string
  | EdgeBody string string string "permission option"

record registry_fact =
  rf_id :: string
  rf_readers :: "string list"
  rf_reader_groups :: "string list"
  rf_body :: registry_body

fun body_kind :: "registry_body \<Rightarrow> fact_kind" where
  "body_kind (EdgeBody _ _ _ _) = FkEdge"
| "body_kind _ = FkNode"

definition member_predicate :: string where "member_predicate = ''weave:member''"
definition grant_predicate :: string where "grant_predicate = ''weave:grant''"
definition branch_writer_predicate :: string where "branch_writer_predicate = ''weave:branch-writer''"

definition graph_node :: "(string list \<Rightarrow> string) \<Rightarrow> string \<Rightarrow> string" where
  "graph_node hash graph = ''graph:'' @ hash [graph]"

definition branch_node :: "(string list \<Rightarrow> string) \<Rightarrow> string \<Rightarrow> string \<Rightarrow> string" where
  "branch_node hash graph branch = ''branch:'' @ hash [graph, branch]"

text \<open>\<open>restricted\<close>: the readers given, and the administrators group after the groups given.\<close>

definition restricted :: "string \<Rightarrow> string list \<Rightarrow> string list \<Rightarrow> registry_body \<Rightarrow> registry_fact" where
  "restricted i readers groups body =
     \<lparr>rf_id = i, rf_readers = readers, rf_reader_groups = groups @ [administrators_group],
      rf_body = body\<rparr>"

definition principal_fact :: "string \<Rightarrow> entry \<Rightarrow> registry_fact" where
  "principal_fact i e =
     (if pe_kind e = PkGroup then restricted i [] [i] (PrincipalBody e)
      else restricted i [i] [] (PrincipalBody e))"

definition member_fact :: "(string list \<Rightarrow> string) \<Rightarrow> string \<Rightarrow> string \<Rightarrow> registry_fact" where
  "member_fact hash grp member =
     restricted (''member:'' @ hash [grp, member]) [member] [] (EdgeBody member_predicate member grp None)"

definition graph_fact :: "(string list \<Rightarrow> string) \<Rightarrow> string \<Rightarrow> registry_fact" where
  "graph_fact hash graph = restricted (graph_node hash graph) [] [] (GraphBody graph)"

definition grant_fact :: "(string list \<Rightarrow> string) \<Rightarrow> string \<Rightarrow> string \<Rightarrow> permission \<Rightarrow> registry_fact" where
  "grant_fact hash graph subj p =
     restricted (''grant:'' @ hash [graph, subj]) [] []
       (EdgeBody grant_predicate subj (graph_node hash graph) (Some p))"

definition branch_fact :: "(string list \<Rightarrow> string) \<Rightarrow> string \<Rightarrow> string \<Rightarrow> registry_fact" where
  "branch_fact hash graph branch = restricted (branch_node hash graph branch) [] [] (BranchBody graph branch)"

definition writer_fact :: "(string list \<Rightarrow> string) \<Rightarrow> string \<Rightarrow> string \<Rightarrow> string \<Rightarrow> registry_fact" where
  "writer_fact hash graph branch subj =
     restricted (''branch-writer:'' @ hash [graph, branch, subj]) [] []
       (EdgeBody branch_writer_predicate subj (branch_node hash graph branch) None)"

section \<open>Render\<close>

definition registry_graphs :: "registry \<Rightarrow> string btree_set" where
  "registry_graphs st = bs_extend (map fst (rg_grants st)) (map (fst \<circ> fst) (rg_protected st))"

text \<open>The facts in the order \<open>render\<close> puts them.\<close>

definition rendered :: "(string list \<Rightarrow> string) \<Rightarrow> registry \<Rightarrow> registry_fact list" where
  "rendered hash st =
     map (\<lambda>(i, e). principal_fact i e) (rg_principals st)
     @ concat (map (\<lambda>(g, ms). map (member_fact hash g) ms) (rg_members st))
     @ map (graph_fact hash) (registry_graphs st)
     @ concat (map (\<lambda>(g, acl). map (\<lambda>(s, p). grant_fact hash g s p) acl) (rg_grants st))
     @ concat (map (\<lambda>((g, b), ws). branch_fact hash g b # map (writer_fact hash g b) ws) (rg_protected st))"

definition fact_key :: "registry_fact \<Rightarrow> fact_kind \<times> string" where
  "fact_key f = (body_kind (rf_body f), rf_id f)"

definition put_fact ::
  "registry_fact \<Rightarrow> (fact_kind \<times> string, registry_fact) btree_map \<Rightarrow> (fact_kind \<times> string, registry_fact) btree_map" where
  "put_fact f out = bm_insert (fact_key f) f out"

definition render ::
  "(string list \<Rightarrow> string) \<Rightarrow> registry \<Rightarrow> (fact_kind \<times> string, registry_fact) btree_map" where
  "render hash st = fold put_fact (rendered hash st) []"

section \<open>Parse\<close>

record parsing =
  ps_registry :: registry
  ps_graph_nodes :: "(string, string) btree_map"
  ps_branch_nodes :: "(string, string \<times> string) btree_map"
  ps_edges :: "(string \<times> string \<times> string \<times> permission option) list"

definition parse_fact :: "parsing \<Rightarrow> registry_fact \<Rightarrow> parsing result" where
  "parse_fact ps f =
     (case rf_body f of
        GraphBody graph \<Rightarrow> Ok (ps\<lparr>ps_graph_nodes := bm_insert (rf_id f) graph (ps_graph_nodes ps)\<rparr>)
      | BranchBody graph branch \<Rightarrow>
          Ok (ps\<lparr>ps_branch_nodes := bm_insert (rf_id f) (graph, branch) (ps_branch_nodes ps)\<rparr>)
      | EdgeBody predicate from to p \<Rightarrow> Ok (ps\<lparr>ps_edges := ps_edges ps @ [(predicate, from, to, p)]\<rparr>)
      | PrincipalBody e \<Rightarrow>
          if (pe_kind e = PkAgent) \<noteq> (pe_owner e \<noteq> None \<and> pe_delegation e \<noteq> None) then Err E_INTEGRITY
          else
            (let st = ps_registry ps;
                 owned = (case pe_owner e of None \<Rightarrow> rg_owned st
                   | Some b \<Rightarrow> bm_adjoin b (rf_id f) (rg_owned st))
             in Ok (ps\<lparr>ps_registry := st\<lparr>rg_owned := owned,
                  rg_principals := bm_insert (rf_id f) e (rg_principals st)\<rparr>\<rparr>)))"

definition parse_edge ::
  "(string, string) btree_map \<Rightarrow> (string, string \<times> string) btree_map \<Rightarrow> registry
     \<Rightarrow> string \<times> string \<times> string \<times> permission option \<Rightarrow> registry result" where
  "parse_edge graphs branches st edge =
     (case edge of (predicate, from, to, p) \<Rightarrow>
        if predicate = member_predicate then
          Ok (st\<lparr>rg_members := bm_adjoin to from (rg_members st),
                 rg_parents := bm_adjoin from to (rg_parents st)\<rparr>)
        else if predicate = grant_predicate then
          rbind (ok_or (map_of graphs to) E_INTEGRITY) (\<lambda>graph.
          rbind (ok_or p E_INTEGRITY) (\<lambda>perm.
            Ok (st\<lparr>rg_grants := bm_insert graph
                    (bm_insert from perm (bm_or_default [] (rg_grants st) graph)) (rg_grants st)\<rparr>)))
        else if predicate = branch_writer_predicate then
          rbind (ok_or (map_of branches to) E_INTEGRITY) (\<lambda>key.
            Ok (st\<lparr>rg_protected := bm_adjoin key from (rg_protected st)\<rparr>))
        else Err E_INTEGRITY)"

definition ensure_key :: "'k::linorder \<Rightarrow> ('k, 'a list) btree_map \<Rightarrow> ('k, 'a list) btree_map" where
  "ensure_key k m = bm_insert k (bm_or_default [] m k) m"

definition parse :: "registry_fact list \<Rightarrow> registry result" where
  "parse facts =
     rbind (try_fold parse_fact
        \<lparr>ps_registry = empty_registry, ps_graph_nodes = [], ps_branch_nodes = [], ps_edges = []\<rparr> facts)
       (\<lambda>ps. rbind (try_fold (parse_edge (ps_graph_nodes ps) (ps_branch_nodes ps)) (ps_registry ps)
                      (ps_edges ps))
         (\<lambda>st. Ok (st\<lparr>rg_protected := fold ensure_key (map snd (ps_branch_nodes ps)) (rg_protected st)\<rparr>)))"

end
