(* ===== verification/Registry_Roundtrip.thy ===== *)
theory Registry_Roundtrip
  imports Registry_Facts
begin

text \<open>
  Parsing the rendered facts gives the registry back, provided no two records share an identifier.
  Both sides are in canonical form (sorted maps and sets), so it is enough to compare lookups.
\<close>

section \<open>Canonical maps and sets\<close>

lemma bs_ext: "bs_ok xs \<Longrightarrow> bs_ok ys \<Longrightarrow> set xs = set ys \<Longrightarrow> xs = ys"
  unfolding bs_ok_def by (rule strict_sorted_equal) simp_all

lemma sets_ext:
  assumes "sets_ok m" and "sets_ok n" and "\<And>k. set (succs m k) = set (succs n k)"
  shows "m = n"
proof (rule bm_ext)
  have one: "map_of m k = (if set (succs m k) = {} then None else Some (succs m k))"
    if "sets_ok m" for m :: "('a::linorder, 'b::linorder btree_set) btree_map" and k
    using that by (cases "map_of m k") (auto simp: sets_ok_def succs_Some succs_None)
  have bs: "bs_ok (succs m k)" if "sets_ok m" for m :: "('a::linorder, 'b::linorder btree_set) btree_map" and k
    using that by (cases "map_of m k") (auto simp: sets_ok_def succs_Some succs_None)
  show "map_of m k = map_of n k" for k
    using one [OF assms(1), of k] one [OF assms(2), of k] assms(3) [of k]
      bs_ext [OF bs [OF assms(1)] bs [OF assms(2)], of k k] by simp
qed (use assms in \<open>simp_all add: sets_ok_def\<close>)

section \<open>Folding insertions\<close>

definition insert_all :: "('k::linorder \<times> 'v) list \<Rightarrow> ('k, 'v) btree_map \<Rightarrow> ('k, 'v) btree_map" where
  "insert_all kvs m = fold (\<lambda>(k, v). bm_insert k v) kvs m"

definition adjoin_all ::
  "('k::linorder \<times> 'a::linorder) list \<Rightarrow> ('k, 'a btree_set) btree_map \<Rightarrow> ('k, 'a btree_set) btree_map" where
  "adjoin_all kvs m = fold (\<lambda>(k, v). bm_adjoin k v) kvs m"

lemma insert_all_simps [simp]:
  "insert_all [] m = m" "insert_all ((k, v) # kvs) m = insert_all kvs (bm_insert k v m)"
  by (simp_all add: insert_all_def)

lemma adjoin_all_simps [simp]:
  "adjoin_all [] m = m" "adjoin_all ((k, v) # kvs) m = adjoin_all kvs (bm_adjoin k v m)"
  by (simp_all add: adjoin_all_def)

lemma insert_all_append: "insert_all (xs @ ys) m = insert_all ys (insert_all xs m)"
  by (simp add: insert_all_def)

lemma adjoin_all_append: "adjoin_all (xs @ ys) m = adjoin_all ys (adjoin_all xs m)"
  by (simp add: adjoin_all_def)

lemma bm_ok_insert_all: "bm_ok m \<Longrightarrow> bm_ok (insert_all kvs m)"
  by (induction kvs arbitrary: m) auto

lemma sets_ok_adjoin_all: "sets_ok m \<Longrightarrow> sets_ok (adjoin_all kvs m)"
  by (induction kvs arbitrary: m) auto

lemma succs_adjoin_all: "set (succs (adjoin_all kvs m) k) = set (succs m k) \<union> {v. (k, v) \<in> set kvs}"
  by (induction kvs arbitrary: m) (auto split: if_splits)

lemma map_of_insert_all_other: "k \<notin> fst ` set kvs \<Longrightarrow> map_of (insert_all kvs m) k = map_of m k"
  by (induction kvs arbitrary: m) auto

text \<open>A list of entries in which equal keys carry equal values.\<close>

definition functional :: "('k \<times> 'v) set \<Rightarrow> bool" where
  "functional S \<longleftrightarrow> (\<forall>k v w. (k, v) \<in> S \<longrightarrow> (k, w) \<in> S \<longrightarrow> v = w)"

lemma map_of_insert_all:
  assumes "functional (set kvs)" and "(k, v) \<in> set kvs"
  shows "map_of (insert_all kvs m) k = Some v"
  using assms
proof (induction kvs arbitrary: m)
  case (Cons x kvs)
  obtain a b where x: "x = (a, b)" by (cases x)
  show ?case
  proof (cases "k \<in> fst ` set kvs")
    case True
    then obtain w where w: "(k, w) \<in> set kvs" by auto
    then have "v = w" using Cons.prems by (auto simp: functional_def)
    moreover have "functional (set kvs)" using Cons.prems(1) by (auto simp: functional_def)
    ultimately show ?thesis using Cons.IH w by (simp add: x)
  next
    case False
    then have "(k, v) = (a, b)" using Cons.prems(2) x by force
    with False show ?thesis by (simp add: x map_of_insert_all_other)
  qed
qed simp

lemma insert_all_eq:
  assumes "functional (set kvs)" and "bm_ok n" and "\<And>k v. (k, v) \<in> set kvs \<longleftrightarrow> map_of n k = Some v"
  shows "insert_all kvs [] = n"
proof (rule bm_ext)
  show "map_of (insert_all kvs []) k = map_of n k" for k
  proof (cases "map_of n k")
    case None
    then have "k \<notin> fst ` set kvs" using assms(3) by force
    then show ?thesis using None by (simp add: map_of_insert_all_other)
  next
    case (Some v)
    then show ?thesis using map_of_insert_all [OF assms(1)] assms(3) by metis
  qed
qed (simp_all add: assms(2) bm_ok_insert_all)

lemma adjoin_all_eq:
  assumes "sets_ok n" and "\<And>k v. (k, v) \<in> set kvs \<longleftrightarrow> v \<in> set (succs n k)"
  shows "adjoin_all kvs [] = n"
proof (rule sets_ext)
  show "sets_ok (adjoin_all kvs [])" by (intro sets_ok_adjoin_all) (simp add: sets_ok_def)
  show "set (succs (adjoin_all kvs []) k) = set (succs n k)" for k
    using assms(2) by (auto simp: succs_adjoin_all succs_None)
qed (rule assms(1))

section \<open>The first pass\<close>

definition principal_items :: "registry_fact \<Rightarrow> (string \<times> entry) list" where
  "principal_items f = (case rf_body f of PrincipalBody e \<Rightarrow> [(rf_id f, e)] | _ \<Rightarrow> [])"

definition owned_items :: "registry_fact \<Rightarrow> (string \<times> string) list" where
  "owned_items f = (case rf_body f of
     PrincipalBody e \<Rightarrow> (case pe_owner e of None \<Rightarrow> [] | Some b \<Rightarrow> [(b, rf_id f)]) | _ \<Rightarrow> [])"

definition graph_items :: "registry_fact \<Rightarrow> (string \<times> string) list" where
  "graph_items f = (case rf_body f of GraphBody g \<Rightarrow> [(rf_id f, g)] | _ \<Rightarrow> [])"

definition branch_items :: "registry_fact \<Rightarrow> (string \<times> (string \<times> string)) list" where
  "branch_items f = (case rf_body f of BranchBody g b \<Rightarrow> [(rf_id f, (g, b))] | _ \<Rightarrow> [])"

definition edge_items :: "registry_fact \<Rightarrow> (string \<times> string \<times> string \<times> permission option) list" where
  "edge_items f = (case rf_body f of EdgeBody pr a b p \<Rightarrow> [(pr, a, b, p)] | _ \<Rightarrow> [])"

lemma items_of_body:
  "rf_body f = PrincipalBody e \<Longrightarrow> principal_items f = [(rf_id f, e)] \<and> graph_items f = []
     \<and> owned_items f = (case pe_owner e of None \<Rightarrow> [] | Some b \<Rightarrow> [(b, rf_id f)])
     \<and> branch_items f = [] \<and> edge_items f = []"
  "rf_body f = GraphBody g \<Longrightarrow> principal_items f = [] \<and> owned_items f = []
     \<and> graph_items f = [(rf_id f, g)] \<and> branch_items f = [] \<and> edge_items f = []"
  "rf_body f = BranchBody g b \<Longrightarrow> principal_items f = [] \<and> owned_items f = [] \<and> graph_items f = []
     \<and> branch_items f = [(rf_id f, (g, b))] \<and> edge_items f = []"
  "rf_body f = EdgeBody pr x y p \<Longrightarrow> principal_items f = [] \<and> owned_items f = [] \<and> graph_items f = []
     \<and> branch_items f = [] \<and> edge_items f = [(pr, x, y, p)]"
  by (simp_all add: principal_items_def owned_items_def graph_items_def branch_items_def edge_items_def)

definition items :: "('f \<Rightarrow> 'a list) \<Rightarrow> 'f list \<Rightarrow> 'a list" where
  "items h fs = concat (map h fs)"

lemma items_simps [simp]: "items h [] = []" "items h (f # fs) = h f @ items h fs"
  by (simp_all add: items_def)

lemma set_items: "set (items h fs) = (\<Union>f \<in> set fs. set (h f))"
  by (simp add: items_def)

definition good_body :: "registry_body \<Rightarrow> bool" where
  "good_body b = (case b of
     PrincipalBody e \<Rightarrow> (pe_kind e = PkAgent) = (pe_owner e \<noteq> None \<and> pe_delegation e \<noteq> None) | _ \<Rightarrow> True)"

lemma parse_fact_at:
  "rf_body f = GraphBody g \<Longrightarrow>
     parse_fact ps f = Ok (ps\<lparr>ps_graph_nodes := bm_insert (rf_id f) g (ps_graph_nodes ps)\<rparr>)"
  "rf_body f = BranchBody g b \<Longrightarrow>
     parse_fact ps f = Ok (ps\<lparr>ps_branch_nodes := bm_insert (rf_id f) (g, b) (ps_branch_nodes ps)\<rparr>)"
  "rf_body f = EdgeBody pr x y p \<Longrightarrow>
     parse_fact ps f = Ok (ps\<lparr>ps_edges := ps_edges ps @ [(pr, x, y, p)]\<rparr>)"
  "rf_body f = PrincipalBody e \<Longrightarrow> good_body (rf_body f) \<Longrightarrow>
     parse_fact ps f = Ok (ps\<lparr>ps_registry := (ps_registry ps)
       \<lparr>rg_owned := adjoin_all (owned_items f) (rg_owned (ps_registry ps)),
        rg_principals := bm_insert (rf_id f) e (rg_principals (ps_registry ps))\<rparr>\<rparr>)"
  by (simp_all add: parse_fact_def good_body_def items_of_body Let_def split: option.split)

lemma parse_facts:
  assumes "\<forall>f \<in> set fs. good_body (rf_body f)"
  shows "try_fold parse_fact ps fs = Ok
     \<lparr>ps_registry = (ps_registry ps)
        \<lparr>rg_principals := insert_all (items principal_items fs) (rg_principals (ps_registry ps)),
         rg_owned := adjoin_all (items owned_items fs) (rg_owned (ps_registry ps))\<rparr>,
      ps_graph_nodes = insert_all (items graph_items fs) (ps_graph_nodes ps),
      ps_branch_nodes = insert_all (items branch_items fs) (ps_branch_nodes ps),
      ps_edges = ps_edges ps @ items edge_items fs\<rparr>"
  using assms
proof (induction fs arbitrary: ps)
  case (Cons f fs)
  then have rest: "\<forall>f \<in> set fs. good_body (rf_body f)" and good: "good_body (rf_body f)" by simp_all
  note ih = Cons.IH [OF rest]
  show ?case
  proof (cases "rf_body f")
    case (PrincipalBody e)
    with good ih show ?thesis by (simp add: parse_fact_at items_of_body(1) adjoin_all_append)
  qed (simp_all add: parse_fact_at ih items_of_body)
qed simp

section \<open>The second pass\<close>

type_synonym edge = "string \<times> string \<times> string \<times> permission option"

definition member_items :: "edge \<Rightarrow> (string \<times> string) list" where
  "member_items e = (case e of (pr, a, b, p) \<Rightarrow> if pr = member_predicate then [(b, a)] else [])"

definition grant_items :: "(string \<Rightarrow> string option) \<Rightarrow> edge \<Rightarrow> (string \<times> string \<times> permission) list" where
  "grant_items graphs e = (case e of (pr, a, b, p) \<Rightarrow>
     if pr = grant_predicate then [(the (graphs b), a, the p)] else [])"

definition writer_items :: "(string \<Rightarrow> (string \<times> string) option) \<Rightarrow> edge \<Rightarrow> ((string \<times> string) \<times> string) list" where
  "writer_items branches e = (case e of (pr, a, b, p) \<Rightarrow>
     if pr = branch_writer_predicate then [(the (branches b), a)] else [])"

lemma edge_item_simps:
  "member_items (pr, a, b, p) = (if pr = member_predicate then [(b, a)] else [])"
  "grant_items graphs (pr, a, b, p) = (if pr = grant_predicate then [(the (graphs b), a, the p)] else [])"
  "writer_items branches (pr, a, b, p) =
     (if pr = branch_writer_predicate then [(the (branches b), a)] else [])"
  by (simp_all add: member_items_def grant_items_def writer_items_def)

definition good_edge :: "(string \<Rightarrow> string option) \<Rightarrow> (string \<Rightarrow> (string \<times> string) option) \<Rightarrow> edge \<Rightarrow> bool" where
  "good_edge graphs branches e = (case e of (pr, a, b, p) \<Rightarrow>
     pr = member_predicate \<or> pr = grant_predicate \<and> graphs b \<noteq> None \<and> p \<noteq> None
     \<or> pr = branch_writer_predicate \<and> branches b \<noteq> None)"

definition grant_all :: "(string \<times> string \<times> permission) list
    \<Rightarrow> (string, (string, permission) btree_map) btree_map \<Rightarrow> (string, (string, permission) btree_map) btree_map" where
  "grant_all gs m = fold (\<lambda>(g, s, p) m. bm_insert g (bm_insert s p (bm_or_default [] m g)) m) gs m"

lemma predicates_distinct [simp]:
  "member_predicate \<noteq> grant_predicate" "grant_predicate \<noteq> member_predicate"
  "member_predicate \<noteq> branch_writer_predicate" "branch_writer_predicate \<noteq> member_predicate"
  "grant_predicate \<noteq> branch_writer_predicate" "branch_writer_predicate \<noteq> grant_predicate"
  by (simp_all add: member_predicate_def grant_predicate_def branch_writer_predicate_def)

lemma grant_all_simps:
  "grant_all [] m = m"
  "grant_all ((g, s, p) # gs) m = grant_all gs (bm_insert g (bm_insert s p (bm_or_default [] m g)) m)"
  by (simp_all add: grant_all_def)

lemmas parse_edge_at = parse_edge_def [of _ _ _ "(pr, a, b, p)", unfolded prod.case] for pr a b p

lemma swapped_items:
  "items (\<lambda>e. map prod.swap (member_items e)) es = map prod.swap (items member_items es)"
  by (induction es) simp_all

lemma parse_edges:
  assumes "\<forall>e \<in> set es. good_edge (map_of graphs) (map_of branches) e"
  shows "try_fold (parse_edge graphs branches) st es = Ok (st
     \<lparr>rg_members := adjoin_all (items member_items es) (rg_members st),
      rg_parents := adjoin_all (map prod.swap (items member_items es)) (rg_parents st),
      rg_grants := grant_all (items (grant_items (map_of graphs)) es) (rg_grants st),
      rg_protected := adjoin_all (items (writer_items (map_of branches)) es) (rg_protected st)\<rparr>)"
  using assms
proof (induction es arbitrary: st)
  case (Cons e es)
  then have rest: "\<forall>e \<in> set es. good_edge (map_of graphs) (map_of branches) e"
    and good: "good_edge (map_of graphs) (map_of branches) e" by simp_all
  note ih = Cons.IH [OF rest]
  obtain pr a b p where e: "e = (pr, a, b, p)" by (cases e)
  from good consider "pr = member_predicate" | g x where "pr = grant_predicate" "map_of graphs b = Some g" "p = Some x"
    | k where "pr = branch_writer_predicate" "map_of branches b = Some k"
    by (auto simp: good_edge_def e)
  then show ?case
    by cases (simp_all add: e parse_edge_at ih edge_item_simps
        grant_all_simps)
qed (simp add: grant_all_simps)

section \<open>Grants\<close>

definition grants_ok :: "(string, (string, permission) btree_map) btree_map \<Rightarrow> bool" where
  "grants_ok m \<longleftrightarrow> bm_ok m \<and> (\<forall>g acl. map_of m g = Some acl \<longrightarrow> bm_ok acl \<and> acl \<noteq> [])"

lemma grants_ok_step:
  "grants_ok m \<Longrightarrow> grants_ok (bm_insert g (bm_insert s p (bm_or_default [] m g)) m)"
  by (auto simp: grants_ok_def bm_or_default_def split: option.split)

lemma grants_ok_all: "grants_ok m \<Longrightarrow> grants_ok (grant_all gs m)"
proof (induction gs arbitrary: m)
  case Nil
  then show ?case by (simp add: grant_all_simps)
next
  case (Cons x gs)
  obtain g s p where "x = (g, s, p)" by (cases x)
  then show ?case using Cons grants_ok_step by (simp add: grant_all_simps)
qed

definition acl_entry :: "(string, (string, permission) btree_map) btree_map \<Rightarrow> string \<times> string \<Rightarrow> permission option" where
  "acl_entry m k = map_of (bm_or_default [] m (fst k)) (snd k)"

lemma acl_entry_step:
  "acl_entry (bm_insert g (bm_insert s p (bm_or_default [] m g)) m) k
     = (if k = (g, s) then Some p else acl_entry m k)"
  by (cases k) (auto simp: acl_entry_def)

lemma acl_entry_other:
  "k \<notin> (\<lambda>(g, s, p). (g, s)) ` set gs \<Longrightarrow> acl_entry (grant_all gs m) k = acl_entry m k"
proof (induction gs arbitrary: m)
  case Nil
  then show ?case by (simp add: grant_all_simps)
next
  case (Cons x gs)
  obtain g s p where x: "x = (g, s, p)" by (cases x)
  with Cons show ?case by (auto simp: grant_all_simps acl_entry_step)
qed

lemma acl_entry_all:
  assumes "\<forall>g s p q. (g, s, p) \<in> set gs \<longrightarrow> (g, s, q) \<in> set gs \<longrightarrow> p = q" and "(g, s, p) \<in> set gs"
  shows "acl_entry (grant_all gs m) (g, s) = Some p"
  using assms
proof (induction gs arbitrary: m)
  case (Cons x gs)
  obtain g' s' p' where x: "x = (g', s', p')" by (cases x)
  show ?case
  proof (cases "\<exists>q. (g, s, q) \<in> set gs")
    case True
    then obtain q where q: "(g, s, q) \<in> set gs" by blast
    then have "p = q" using Cons.prems by (meson list.set_intros)
    moreover have "\<forall>g s p q. (g, s, p) \<in> set gs \<longrightarrow> (g, s, q) \<in> set gs \<longrightarrow> p = q"
      using Cons.prems(1) by (meson list.set_intros(2))
    ultimately show ?thesis using Cons.IH q by (simp add: x grant_all_simps)
  next
    case False
    then have "(g, s, p) = (g', s', p')" "(g, s) \<notin> (\<lambda>(g, s, p). (g, s)) ` set gs"
      using Cons.prems(2) x by force+
    then show ?thesis by (simp add: x grant_all_simps acl_entry_other acl_entry_step)
  qed
qed simp

lemma grants_ext:
  assumes "grants_ok m" and "grants_ok n" and "\<And>k. acl_entry m k = acl_entry n k"
  shows "m = n"
proof (rule bm_ext)
  have eq: "bm_or_default [] m g = bm_or_default [] n g" for g
  proof (rule bm_ext)
    show "map_of (bm_or_default [] m g) s = map_of (bm_or_default [] n g) s" for s
      using assms(3) [of "(g, s)"] by (simp add: acl_entry_def)
  qed (use assms(1,2) in \<open>auto simp: grants_ok_def bm_or_default_def split: option.split\<close>)
  show "map_of m g = map_of n g" for g
    using eq [of g] assms(1,2)
    by (auto simp: grants_ok_def bm_or_default_def split: option.splits)
qed (use assms in \<open>simp_all add: grants_ok_def\<close>)

section \<open>The rendered facts\<close>

lemma mem_map_pair: "f \<in> set (map (\<lambda>(i, e). h i e) xs) \<longleftrightarrow> (\<exists>i e. (i, e) \<in> set xs \<and> f = h i e)"
  by auto

lemma mem_concat_pair:
  "f \<in> set (concat (map (\<lambda>(g, ms). h g ms) xs)) \<longleftrightarrow> (\<exists>g ms. (g, ms) \<in> set xs \<and> f \<in> set (h g ms))"
  by auto

lemma mem_concat_branch:
  "f \<in> set (concat (map (\<lambda>((g, b), ws). h g b ws) xs)) \<longleftrightarrow>
     (\<exists>g b ws. ((g, b), ws) \<in> set xs \<and> f \<in> set (h g b ws))"
  by auto

lemma mem_rendered:
  "f \<in> set (rendered hash st) \<longleftrightarrow>
     (\<exists>i e. (i, e) \<in> set (rg_principals st) \<and> f = principal_fact i e)
     \<or> (\<exists>g ms. (g, ms) \<in> set (rg_members st) \<and> f \<in> member_fact hash g ` set ms)
     \<or> f \<in> graph_fact hash ` set (registry_graphs st)
     \<or> (\<exists>g acl. (g, acl) \<in> set (rg_grants st) \<and> (\<exists>s p. (s, p) \<in> set acl \<and> f = grant_fact hash g s p))
     \<or> (\<exists>g b ws. ((g, b), ws) \<in> set (rg_protected st) \<and>
          (f = branch_fact hash g b \<or> f \<in> writer_fact hash g b ` set ws))"
  unfolding rendered_def set_append Un_iff mem_map_pair mem_concat_pair mem_concat_branch
  by simp

lemma map_of_fold_put:
  assumes "inj_on fact_key (set fs)"
  shows "map_of (fold put_fact fs []) k = Some f \<longleftrightarrow> f \<in> set fs \<and> fact_key f = k"
proof -
  have eq: "fold put_fact fs m = insert_all (map (\<lambda>f. (fact_key f, f)) fs) m" for m
    by (induction fs arbitrary: m) (simp_all add: put_fact_def)
  have func: "functional (set (map (\<lambda>f. (fact_key f, f)) fs))"
    using assms by (auto simp: functional_def inj_on_def)
  show ?thesis
  proof (cases "\<exists>g \<in> set fs. fact_key g = k")
    case True
    then obtain g where g: "g \<in> set fs" "fact_key g = k" by blast
    then have "map_of (fold put_fact fs []) k = Some g"
      unfolding eq by (intro map_of_insert_all [OF func]) force
    with g assms show ?thesis by (auto simp: inj_on_def)
  next
    case False
    then have "k \<notin> fst ` set (map (\<lambda>f. (fact_key f, f)) fs)" by force
    then have "map_of (fold put_fact fs []) k = None"
      unfolding eq by (simp add: map_of_insert_all_other)
    with False show ?thesis by auto
  qed
qed

lemma bm_ok_fold_put: "bm_ok m \<Longrightarrow> bm_ok (fold put_fact fs m)"
  by (induction fs arbitrary: m) (simp_all add: put_fact_def)

lemma set_render:
  assumes "inj_on fact_key (set (rendered hash st))"
  shows "set (map snd (render hash st)) = set (rendered hash st)"
proof -
  have ok: "bm_ok (render hash st)" by (simp add: render_def bm_ok_fold_put)
  have "(k, f) \<in> set (render hash st) \<longleftrightarrow> f \<in> set (rendered hash st) \<and> fact_key f = k" for k f
    unfolding bm_ok_map_of [OF ok] unfolding render_def by (rule map_of_fold_put [OF assms])
  moreover have "f \<in> set (map snd (render hash st)) \<longleftrightarrow> (\<exists>k. (k, f) \<in> set (render hash st))" for f
    by force
  ultimately show ?thesis by blast
qed

lemmas fact_defs = principal_fact_def member_fact_def graph_fact_def grant_fact_def branch_fact_def
  writer_fact_def restricted_def

lemma fact_bodies:
  "rf_body (principal_fact i e) = PrincipalBody e" "rf_id (principal_fact i e) = i"
  "rf_body (member_fact h g m) = EdgeBody member_predicate m g None"
  "rf_body (graph_fact h g) = GraphBody g" "rf_id (graph_fact h g) = graph_node h g"
  "rf_body (grant_fact h g s p) = EdgeBody grant_predicate s (graph_node h g) (Some p)"
  "rf_body (branch_fact h g b) = BranchBody g b" "rf_id (branch_fact h g b) = branch_node h g b"
  "rf_body (writer_fact h g b w) = EdgeBody branch_writer_predicate w (branch_node h g b) None"
  by (simp_all add: fact_defs)

lemma fact_keys:
  "fact_key (principal_fact i e) = (FkNode, i)" "fact_key (graph_fact h g) = (FkNode, graph_node h g)"
  "fact_key (branch_fact h g b) = (FkNode, branch_node h g b)"
  by (simp_all add: fact_key_def fact_defs)

section \<open>Parsing what was rendered\<close>

lemma item_of_facts:
  "principal_items (principal_fact i e) = [(i, e)]"
  "owned_items (principal_fact i e) = (case pe_owner e of None \<Rightarrow> [] | Some b \<Rightarrow> [(b, i)])"
  "graph_items (principal_fact i e) = []" "branch_items (principal_fact i e) = []"
  "edge_items (principal_fact i e) = []"
  "principal_items (member_fact h g m) = []" "owned_items (member_fact h g m) = []"
  "graph_items (member_fact h g m) = []" "branch_items (member_fact h g m) = []"
  "edge_items (member_fact h g m) = [(member_predicate, m, g, None)]"
  "principal_items (graph_fact h g) = []" "owned_items (graph_fact h g) = []"
  "graph_items (graph_fact h g) = [(graph_node h g, g)]" "branch_items (graph_fact h g) = []"
  "edge_items (graph_fact h g) = []"
  "principal_items (grant_fact h g s p) = []" "owned_items (grant_fact h g s p) = []"
  "graph_items (grant_fact h g s p) = []" "branch_items (grant_fact h g s p) = []"
  "edge_items (grant_fact h g s p) = [(grant_predicate, s, graph_node h g, Some p)]"
  "principal_items (branch_fact h g b) = []" "owned_items (branch_fact h g b) = []"
  "graph_items (branch_fact h g b) = []" "branch_items (branch_fact h g b) = [(branch_node h g b, (g, b))]"
  "edge_items (branch_fact h g b) = []"
  "principal_items (writer_fact h g b w) = []" "owned_items (writer_fact h g b w) = []"
  "graph_items (writer_fact h g b w) = []" "branch_items (writer_fact h g b w) = []"
  "edge_items (writer_fact h g b w) = [(branch_writer_predicate, w, branch_node h g b, None)]"
  by (cases "pe_owner e"; simp add: principal_items_def owned_items_def graph_items_def branch_items_def
      edge_items_def fact_bodies)+

text \<open>The items of the rendered facts, split by the kind of the fact.\<close>

lemma item_rendered:
  assumes "set fs = set (rendered hash st)"
  shows "x \<in> set (items h fs) \<longleftrightarrow>
     (\<exists>i e. (i, e) \<in> set (rg_principals st) \<and> x \<in> set (h (principal_fact i e)))
     \<or> (\<exists>g ms m. (g, ms) \<in> set (rg_members st) \<and> m \<in> set ms \<and> x \<in> set (h (member_fact hash g m)))
     \<or> (\<exists>g. g \<in> set (registry_graphs st) \<and> x \<in> set (h (graph_fact hash g)))
     \<or> (\<exists>g acl s p. (g, acl) \<in> set (rg_grants st) \<and> (s, p) \<in> set acl \<and> x \<in> set (h (grant_fact hash g s p)))
     \<or> (\<exists>g b ws. ((g, b), ws) \<in> set (rg_protected st) \<and> x \<in> set (h (branch_fact hash g b)))
     \<or> (\<exists>g b ws w. ((g, b), ws) \<in> set (rg_protected st) \<and> w \<in> set ws \<and> x \<in> set (h (writer_fact hash g b w)))"
proof -
  have "x \<in> set (items h fs) \<longleftrightarrow> (\<exists>f. f \<in> set (rendered hash st) \<and> x \<in> set (h f))"
    unfolding set_items assms by (simp add: Bex_def)
  also have "\<dots> \<longleftrightarrow> (\<exists>f. (\<exists>i e. (i, e) \<in> set (rg_principals st) \<and> f = principal_fact i e) \<and> x \<in> set (h f))
     \<or> (\<exists>f. (\<exists>g ms. (g, ms) \<in> set (rg_members st) \<and> f \<in> member_fact hash g ` set ms) \<and> x \<in> set (h f))
     \<or> (\<exists>f. f \<in> graph_fact hash ` set (registry_graphs st) \<and> x \<in> set (h f))
     \<or> (\<exists>f. (\<exists>g acl. (g, acl) \<in> set (rg_grants st) \<and> (\<exists>s p. (s, p) \<in> set acl \<and> f = grant_fact hash g s p))
          \<and> x \<in> set (h f))
     \<or> (\<exists>f. (\<exists>g b ws. ((g, b), ws) \<in> set (rg_protected st) \<and>
          (f = branch_fact hash g b \<or> f \<in> writer_fact hash g b ` set ws)) \<and> x \<in> set (h f))"
    unfolding mem_rendered conj_disj_distribR ex_disj_distrib ..
  also have "(\<exists>f. (\<exists>i e. (i, e) \<in> set (rg_principals st) \<and> f = principal_fact i e) \<and> x \<in> set (h f))
     \<longleftrightarrow> (\<exists>i e. (i, e) \<in> set (rg_principals st) \<and> x \<in> set (h (principal_fact i e)))" by blast
  also have "(\<exists>f. (\<exists>g ms. (g, ms) \<in> set (rg_members st) \<and> f \<in> member_fact hash g ` set ms) \<and> x \<in> set (h f))
     \<longleftrightarrow> (\<exists>g ms m. (g, ms) \<in> set (rg_members st) \<and> m \<in> set ms \<and> x \<in> set (h (member_fact hash g m)))" by blast
  also have "(\<exists>f. f \<in> graph_fact hash ` set (registry_graphs st) \<and> x \<in> set (h f))
     \<longleftrightarrow> (\<exists>g. g \<in> set (registry_graphs st) \<and> x \<in> set (h (graph_fact hash g)))" by blast
  also have "(\<exists>f. (\<exists>g acl. (g, acl) \<in> set (rg_grants st) \<and> (\<exists>s p. (s, p) \<in> set acl \<and> f = grant_fact hash g s p))
          \<and> x \<in> set (h f))
     \<longleftrightarrow> (\<exists>g acl s p. (g, acl) \<in> set (rg_grants st) \<and> (s, p) \<in> set acl \<and> x \<in> set (h (grant_fact hash g s p)))"
    by blast
  also have "(\<exists>f. (\<exists>g b ws. ((g, b), ws) \<in> set (rg_protected st) \<and>
          (f = branch_fact hash g b \<or> f \<in> writer_fact hash g b ` set ws)) \<and> x \<in> set (h f))
     \<longleftrightarrow> (\<exists>g b ws. ((g, b), ws) \<in> set (rg_protected st) \<and> x \<in> set (h (branch_fact hash g b)))
     \<or> (\<exists>g b ws w. ((g, b), ws) \<in> set (rg_protected st) \<and> w \<in> set ws \<and> x \<in> set (h (writer_fact hash g b w)))"
    by blast
  finally show ?thesis .
qed

lemma principal_list:
  assumes "set fs = set (rendered hash st)" and "names_ok st"
  shows "(i, e) \<in> set (items principal_items fs) \<longleftrightarrow> entry_of st i = Some e"
proof -
  have "bm_ok (rg_principals st)" using assms(2) by (simp add: names_ok_def)
  then show ?thesis unfolding item_rendered [OF assms(1)] item_of_facts
    by (simp add: bm_ok_map_of entry_of_def)
qed

lemma owned_list:
  assumes "set fs = set (rendered hash st)" and "names_ok st"
  shows "(b, i) \<in> set (items owned_items fs) \<longleftrightarrow> owner_of st i = Some b"
proof -
  have "bm_ok (rg_principals st)" using assms(2) by (simp add: names_ok_def)
  moreover have "(b, i) \<in> set (case w of None \<Rightarrow> [] | Some c \<Rightarrow> [(c, j)]) \<longleftrightarrow> w = Some b \<and> i = j" for w j
    by (cases w) auto
  ultimately show ?thesis unfolding item_rendered [OF assms(1)] item_of_facts
    by (auto simp: bm_ok_map_of entry_of_def owner_of_def split: option.split)
qed

lemma graph_list:
  assumes "set fs = set (rendered hash st)"
  shows "(n, g) \<in> set (items graph_items fs) \<longleftrightarrow> g \<in> set (registry_graphs st) \<and> n = graph_node hash g"
  unfolding item_rendered [OF assms] item_of_facts by auto

lemma branch_list:
  assumes "set fs = set (rendered hash st)" and "acls_ok st"
  shows "(n, (g, b)) \<in> set (items branch_items fs) \<longleftrightarrow>
     map_of (rg_protected st) (g, b) \<noteq> None \<and> n = branch_node hash g b"
proof -
  have "bm_ok (rg_protected st)" using assms(2) by (simp add: acls_ok_def)
  then show ?thesis unfolding item_rendered [OF assms(1)] item_of_facts by (auto simp: bm_ok_map_of)
qed

lemma succs_mem:
  assumes "bm_ok m"
  shows "(\<exists>xs. (k, xs) \<in> set m \<and> x \<in> set xs) \<longleftrightarrow> x \<in> set (succs m k)"
  unfolding bm_ok_map_of [OF assms] by (cases "map_of m k") (simp_all add: succs_def bm_or_default_def)

lemma edge_list:
  assumes "set fs = set (rendered hash st)" and "membership_ok st" and "acls_ok st"
  shows "e \<in> set (items edge_items fs) \<longleftrightarrow>
     (\<exists>g m. m \<in> set (succs (rg_members st) g) \<and> e = (member_predicate, m, g, None))
     \<or> (\<exists>g s p. acl_entry (rg_grants st) (g, s) = Some p \<and> e = (grant_predicate, s, graph_node hash g, Some p))
     \<or> (\<exists>g b w. w \<in> set (succs (rg_protected st) (g, b)) \<and>
          e = (branch_writer_predicate, w, branch_node hash g b, None))"
proof -
  have bm: "bm_ok (rg_members st)" "bm_ok (rg_grants st)" "bm_ok (rg_protected st)"
    using assms(2,3) by (simp_all add: membership_ok_def sets_ok_def acls_ok_def)
  have acl: "(\<exists>acl. (g, acl) \<in> set (rg_grants st) \<and> (s, p) \<in> set acl)
      \<longleftrightarrow> acl_entry (rg_grants st) (g, s) = Some p" for g s p
  proof -
    have "bm_ok acl" if "map_of (rg_grants st) g = Some acl" for acl
      using that assms(3) by (simp add: acls_ok_def)
    then show ?thesis unfolding bm_ok_map_of [OF bm(2)]
      by (auto simp: acl_entry_def bm_or_default_def bm_ok_map_of split: option.split)
  qed
  have "e \<in> set (items edge_items fs) \<longleftrightarrow>
      (\<exists>g m. (\<exists>ms. (g, ms) \<in> set (rg_members st) \<and> m \<in> set ms) \<and> e = (member_predicate, m, g, None))
      \<or> (\<exists>g s p. (\<exists>acl. (g, acl) \<in> set (rg_grants st) \<and> (s, p) \<in> set acl)
           \<and> e = (grant_predicate, s, graph_node hash g, Some p))
      \<or> (\<exists>g b w. (\<exists>ws. ((g, b), ws) \<in> set (rg_protected st) \<and> w \<in> set ws)
           \<and> e = (branch_writer_predicate, w, branch_node hash g b, None))"
    unfolding item_rendered [OF assms(1)] item_of_facts by (simp only: list.set empty_iff insert_iff) blast
  then show ?thesis unfolding succs_mem [OF bm(1)] succs_mem [OF bm(3)] acl .
qed

end
