(* ===== verification/Registry_Service.thy ===== *)
theory Registry_Service
  imports Registry_Change_Theorems
begin

text \<open>
  The engine's operations over the registry (\<open>impl Engine\<close> in \<open>registry.rs\<close>, \<open>registry/create.rs\<close>,
  \<open>registry/manifest.rs\<close>): the gates every request passes, the reads of the registry API, and its
  nameable groups. A store without a registry is \<open>None\<close>. The trusted clock is the argument \<open>now\<close>.
\<close>

section \<open>Identity of the request\<close>

definition identified :: "registry option \<Rightarrow> int \<Rightarrow> host_context \<Rightarrow> (registry \<times> resolved) option" where
  "identified reg now host =
     (case reg of None \<Rightarrow> None | Some st \<Rightarrow> Some (st, effective st (hc_principal host) now))"

definition tenant_administrator :: "registry option \<Rightarrow> int \<Rightarrow> host_context \<Rightarrow> bool" where
  "tenant_administrator reg now host =
     (case identified reg now host of None \<Rightarrow> False | Some (_, who) \<Rightarrow> administrator who)"

definition is_agent_entry :: "registry \<Rightarrow> string \<Rightarrow> bool" where
  "is_agent_entry st p = (case entry_of st p of None \<Rightarrow> False | Some e \<Rightarrow> pe_kind e = PkAgent)"

definition delegation_chain :: "registry option \<Rightarrow> host_context \<Rightarrow> string list" where
  "delegation_chain reg host =
     (case reg of None \<Rightarrow> []
      | Some st \<Rightarrow> if is_agent_entry st (hc_principal host) then chain st (hc_principal host) else [])"

definition refuse_agent_snapshot :: "registry option \<Rightarrow> host_context \<Rightarrow> unit result" where
  "refuse_agent_snapshot reg host =
     (case reg of None \<Rightarrow> Ok ()
      | Some st \<Rightarrow> ensure (\<not> is_agent_entry st (hc_principal host)) E_FORBIDDEN)"

definition engine_access :: "registry option \<Rightarrow> int \<Rightarrow> host_context \<Rightarrow> access" where
  "engine_access reg now host =
     (case identified reg now host of None \<Rightarrow> access_literal (hc_principal host)
      | Some (_, who) \<Rightarrow> rv_access who)"

section \<open>Gates\<close>

definition require_graph ::
  "registry option \<Rightarrow> int \<Rightarrow> host_context \<Rightarrow> string \<Rightarrow> permission \<Rightarrow> unit result" where
  "require_graph reg now host graph need =
     (case identified reg now host of None \<Rightarrow> Ok ()
      | Some (st, who) \<Rightarrow>
          (case permission_on st who graph of
             None \<Rightarrow> Err E_UNAVAILABLE
           | Some held \<Rightarrow> if held < need then Err E_FORBIDDEN else Ok ()))"

definition graph_readable :: "registry option \<Rightarrow> int \<Rightarrow> host_context \<Rightarrow> string \<Rightarrow> bool" where
  "graph_readable reg now host graph =
     (case identified reg now host of None \<Rightarrow> True
      | Some (st, who) \<Rightarrow>
          (case permission_on st who graph of None \<Rightarrow> False | Some p \<Rightarrow> Read \<le> p))"

definition graph_writable ::
  "registry option \<Rightarrow> int \<Rightarrow> host_context \<Rightarrow> string \<Rightarrow> string option \<Rightarrow> bool" where
  "graph_writable reg now host graph branch =
     (case identified reg now host of None \<Rightarrow> graph \<in> hc_writable_graphs host
      | Some (st, who) \<Rightarrow> can_write st who graph branch)"

definition all_writable :: "registry option \<Rightarrow> int \<Rightarrow> host_context \<Rightarrow> string list \<Rightarrow> bool" where
  "all_writable reg now host graphs = list_all (\<lambda>g. graph_writable reg now host g None) graphs"

definition require_branch_write ::
  "registry option \<Rightarrow> int \<Rightarrow> host_context \<Rightarrow> string \<Rightarrow> string \<Rightarrow> unit result" where
  "require_branch_write reg now host graph branch =
     rbind (if reg \<noteq> None then require_graph reg now host graph Discover else Ok ()) (\<lambda>_.
     ensure (graph_writable reg now host graph (Some branch)) E_FORBIDDEN)"

definition validate_reader_groups ::
  "registry option \<Rightarrow> int \<Rightarrow> host_context \<Rightarrow> string list \<Rightarrow> unit result" where
  "validate_reader_groups reg now host groups =
     (if groups = [] then Ok ()
      else
        (case identified reg now host of None \<Rightarrow> Err E_UNAVAILABLE
         | Some (st, who) \<Rightarrow>
             check_each (\<lambda>g. rbind (check_id g) (\<lambda>_. ensure (nameable_group st who g) E_UNAVAILABLE))
               groups))"

section \<open>Registry reads\<close>

definition may_see ::
  "registry option \<Rightarrow> int \<Rightarrow> host_context \<Rightarrow> string \<Rightarrow> registry result" where
  "may_see reg now host i =
     rbind (ok_or (identified reg now host) E_UNAVAILABLE) (\<lambda>(st, who).
     rbind (ensure (may_see_principal st who (hc_principal host) i) E_UNAVAILABLE) (\<lambda>_. Ok st))"

definition registry_principal :: "registry option \<Rightarrow> int \<Rightarrow> string \<Rightarrow> host_context \<Rightarrow> entry result" where
  "registry_principal reg now i host =
     rbind (may_see reg now host i) (\<lambda>st. ok_or (entry_of st i) E_UNAVAILABLE)"

definition registry_agents :: "registry option \<Rightarrow> int \<Rightarrow> string \<Rightarrow> host_context \<Rightarrow> string list result" where
  "registry_agents reg now owner host =
     rbind (may_see reg now host owner) (\<lambda>st.
     rbind (ok_or (entry_of st owner) E_UNAVAILABLE) (\<lambda>_. Ok (succs (rg_owned st) owner)))"

definition registry_memberships ::
  "registry option \<Rightarrow> int \<Rightarrow> string \<Rightarrow> host_context \<Rightarrow> string list result" where
  "registry_memberships reg now i host =
     rbind (may_see reg now host i) (\<lambda>st.
     rbind (ok_or (entry_of st i) E_UNAVAILABLE) (\<lambda>_. Ok (succs (rg_parents st) i)))"

definition registry_members :: "registry option \<Rightarrow> int \<Rightarrow> string \<Rightarrow> host_context \<Rightarrow> string list result" where
  "registry_members reg now grp host =
     rbind (ok_or (identified reg now host) E_UNAVAILABLE) (\<lambda>(st, who).
     rbind (ensure (may_administer_group st who grp) E_UNAVAILABLE) (\<lambda>_.
       Ok (succs (rg_members st) grp)))"

record graph_acl =
  ga_graph_id :: string
  ga_grants :: "(string \<times> permission) list"
  ga_protected_branches :: "(string, string list) btree_map"

definition registry_graph_acl ::
  "registry option \<Rightarrow> int \<Rightarrow> string \<Rightarrow> host_context \<Rightarrow> graph_acl result" where
  "registry_graph_acl reg now graph host =
     rbind (require_graph reg now host graph Administer) (\<lambda>_.
     rbind (ok_or reg E_UNAVAILABLE) (\<lambda>st.
       Ok \<lparr>ga_graph_id = graph, ga_grants = bm_or_default [] (rg_grants st) graph,
           ga_protected_branches =
             map (\<lambda>((_, b), ws). (b, ws)) (filter (\<lambda>((g, _), _). g = graph) (rg_protected st))\<rparr>))"

record graph_listing =
  gl_graph_id :: string
  gl_branches :: "string list"
  gl_permission :: permission

text \<open>
  \<open>heads\<close> is the result of the query over the stored heads: (graph, branch), ordered. The branches of
  a graph are collected in that order.
\<close>

definition branch_map :: "(string \<times> string) list \<Rightarrow> (string, string list) btree_map" where
  "branch_map heads =
     fold (\<lambda>(g, b) m. bm_insert g (bm_or_default [] m g @ [b]) m) heads []"

definition listed_permission ::
  "registry option \<Rightarrow> int \<Rightarrow> host_context \<Rightarrow> string \<Rightarrow> permission option" where
  "listed_permission reg now host graph =
     (case identified reg now host of
        None \<Rightarrow> Some (if graph \<in> hc_writable_graphs host then Write else Read)
      | Some (st, who) \<Rightarrow> permission_on st who graph)"

definition list_graphs ::
  "registry option \<Rightarrow> int \<Rightarrow> (string \<times> string) list \<Rightarrow> host_context \<Rightarrow> graph_listing list" where
  "list_graphs reg now heads host =
     (let branches = branch_map heads;
          named = filter (\<lambda>g. \<not> is_engine_name g) (map fst branches);
          graphs = (case reg of None \<Rightarrow> named | Some st \<Rightarrow> bs_extend named (map fst (rg_grants st)))
      in concat (map (\<lambda>g.
           case listed_permission reg now host g of
             None \<Rightarrow> []
           | Some p \<Rightarrow>
               [\<lparr>gl_graph_id = g, gl_branches = bm_or_default [] branches g, gl_permission = p\<rparr>])
           graphs))"

definition nameable_groups :: "registry option \<Rightarrow> int \<Rightarrow> host_context \<Rightarrow> string list" where
  "nameable_groups reg now host =
     (case identified reg now host of None \<Rightarrow> []
      | Some (st, who) \<Rightarrow> filter (nameable_group st who) (map fst (rg_principals st)))"

section \<open>The authorization interface\<close>

text \<open>
  What the gates need of an authority: writing a graph implies reading it. The registry provides it.
\<close>

locale authority =
  fixes held :: "'who \<Rightarrow> string \<Rightarrow> permission option"
    and may_write :: "'who \<Rightarrow> string \<Rightarrow> string option \<Rightarrow> bool"
  assumes writes_read: "may_write who g b \<Longrightarrow> \<exists>p. held who g = Some p \<and> Read \<le> p"
begin

definition allows :: "'who \<Rightarrow> string \<Rightarrow> permission \<Rightarrow> bool" where
  "allows who g need \<longleftrightarrow> (\<exists>p. held who g = Some p \<and> need \<le> p)"

lemma writer_allowed: "may_write who g b \<Longrightarrow> need \<le> Read \<Longrightarrow> allows who g need"
  using writes_read order_trans unfolding allows_def by metis

lemma allows_mono: "allows who g need \<Longrightarrow> need' \<le> need \<Longrightarrow> allows who g need'"
  using order_trans unfolding allows_def by metis

lemma hidden_not_writable: "held who g = None \<Longrightarrow> \<not> may_write who g b"
  using writes_read by force

end

interpretation registry: authority "\<lambda>(st, who). permission_on st who" "\<lambda>(st, who). can_write st who"
  by unfold_locales (auto simp: can_write_def dest: write_reads)

lemma require_graph_allows:
  "require_graph reg now host g need = Ok () \<longleftrightarrow>
     (case identified reg now host of None \<Rightarrow> True | Some w \<Rightarrow> registry.allows w g need)"
  by (auto simp: require_graph_def registry.allows_def not_less split: option.splits)

lemma Discover_least: "Discover \<le> p" "Discover \<le> Read"
  by (cases p) (simp_all add: permission_order)

section \<open>Properties\<close>

text \<open> The write gate implies the read gate: whatever branch a request may write, it may also read the
  graph, with or without a registry.
\<close>

theorem branch_write_gate:
  assumes "require_branch_write reg now host g b = Ok ()"
  shows "require_graph reg now host g Read = Ok () \<and> graph_readable reg now host g
     \<and> graph_writable reg now host g (Some b)"
proof (cases "identified reg now host")
  case None
  with assms show ?thesis
    by (auto simp: require_branch_write_def require_graph_def graph_readable_def)
next
  case (Some w)
  obtain st who where w: "w = (st, who)" by (cases w)
  from assms have gate: "graph_writable reg now host g (Some b)"
    by (auto simp: require_branch_write_def)
  then have "can_write st who g (Some b)" using Some w by (simp add: graph_writable_def)
  then have "registry.allows (st, who) g Read" by (intro registry.writer_allowed) simp_all
  with gate Some w show ?thesis
    by (auto simp: require_graph_allows graph_readable_def registry.allows_def)
qed

theorem branch_write_gate_witness:
  "graph_readable (Some demo_registry) 0 \<lparr>hc_principal = ''sub'', hc_writable_graphs = {}\<rparr> ''g''"
proof -
  have "require_branch_write (Some demo_registry) 0 \<lparr>hc_principal = ''sub'', hc_writable_graphs = {}\<rparr>
      ''g'' ''main'' = Ok ()" by code_simp
  from branch_write_gate [OF this] show ?thesis by simp
qed

lemma bm_ok_branch_map: "bm_ok (branch_map heads)"
proof -
  have "bm_ok (fold (\<lambda>(g, b) m. bm_insert g (bm_or_default [] m g @ [b]) m) heads m)" if "bm_ok m"
    for m :: "(string, string list) btree_map"
    using that by (induction heads arbitrary: m) auto
  then show ?thesis by (simp add: branch_map_def)
qed

lemma branch_map_keys: "fst ` set (branch_map heads) = fst ` set heads"
proof -
  have "fst ` set (fold (\<lambda>(g, b) m. bm_insert g (bm_or_default [] m g @ [b]) m) heads m)
      = fst ` set heads \<union> fst ` set m" for m :: "(string, string list) btree_map"
  proof (induction heads arbitrary: m)
    case (Cons h heads)
    obtain g b where h: "h = (g, b)" by (cases h)
    show ?case unfolding h fold.simps o_apply prod.case Cons.IH set_bm_insert_keys by simp
  qed simp
  then show ?thesis by (simp add: branch_map_def)
qed

lemma distinct_bs_extend: "distinct s \<Longrightarrow> distinct (bs_extend s xs)"
  unfolding bs_extend_def by (induction xs arbitrary: s) simp_all

text \<open> The listing of graphs reveals nothing else: a graph is listed, with the permission held, exactly
  when it is a stored graph outside the engine's namespace or has an ACL, and the principal may
  discover it.
\<close>

theorem graph_listing_exact:
  "(\<exists>l \<in> set (list_graphs (Some st) now heads host). gl_graph_id l = g \<and> gl_permission l = p) \<longleftrightarrow>
     (g \<in> fst ` set heads \<and> \<not> is_engine_name g \<or> g \<in> fst ` set (rg_grants st))
     \<and> permission_on st (effective st (hc_principal host) now) g = Some p"
  by (force simp: list_graphs_def Let_def listed_permission_def identified_def branch_map_keys
      split: option.splits)

text \<open> The manifest of nameable groups is exact: a write by the principal may name a set of reader
  groups precisely when every one of them is in the manifest.
\<close>

theorem nameable_groups_exact:
  assumes "reachable_registry st"
  shows "validate_reader_groups (Some st) now host groups = Ok () \<longleftrightarrow>
     set groups \<subseteq> set (nameable_groups (Some st) now host)"
proof -
  let ?who = "effective st (hc_principal host) now"
  have names: "names_ok st" using reachable_registry_ok [OF assms] by (simp add: registry_ok_def)
  have "g \<in> fst ` set (rg_principals st) \<and> valid_id g" if "nameable_group st ?who g" for g
  proof -
    have "known st g" using that
      by (auto simp: nameable_group_def active_group_def known_def split: option.splits)
    then show ?thesis using names map_of_SomeD [of "rg_principals st" g]
      by (force simp: names_ok_def known_def entry_of_def)
  qed
  then show ?thesis
    by (auto simp: validate_reader_groups_def nameable_groups_def identified_def)
qed

theorem nameable_groups_exact_witness:
  "''team'' \<in> set (nameable_groups (Some demo_registry) 0 \<lparr>hc_principal = ''bob'', hc_writable_graphs = {}\<rparr>)"
proof -
  have "validate_reader_groups (Some demo_registry) 0 \<lparr>hc_principal = ''bob'', hc_writable_graphs = {}\<rparr>
     [''team''] = Ok ()" by code_simp
  with nameable_groups_exact [OF reachable_demo_registry] show ?thesis by simp
qed

end
