(* ===== verification/Registry_Store.thy ===== *)
theory Registry_Store
  imports Registry_Roundtrip Registry_Service
begin

text \<open>
  The round trip of the registry through its facts, and the registry write: the facts of the changed
  state are compared with those of the current one, and the differences are appended to the fact log.
\<close>

section \<open>Round trip\<close>

lemma ensure_keys:
  "map_of (fold ensure_key ks m) k = (if k \<in> set ks then Some (bm_or_default [] m k) else map_of m k)"
  by (induction ks arbitrary: m) (auto simp: ensure_key_def bm_or_default_def split: option.split)

lemma bm_ok_ensure_keys: "bm_ok m \<Longrightarrow> bm_ok (fold ensure_key ks m)"
  by (induction ks arbitrary: m) (simp_all add: ensure_key_def)

lemma mem_insert_all:
  assumes "functional (set kvs)"
  shows "(k, v) \<in> set (insert_all kvs []) \<longleftrightarrow> (k, v) \<in> set kvs"
proof -
  have "bm_ok (insert_all kvs [])" by (simp add: bm_ok_insert_all)
  then have "(k, v) \<in> set (insert_all kvs []) \<longleftrightarrow> map_of (insert_all kvs []) k = Some v"
    by (rule bm_ok_map_of)
  also have "\<dots> \<longleftrightarrow> (k, v) \<in> set kvs"
  proof
    assume some: "map_of (insert_all kvs []) k = Some v"
    then have "k \<in> fst ` set kvs" using map_of_insert_all_other [of k kvs "[]"] by (cases "k \<in> fst ` set kvs") auto
    then obtain w where w: "(k, w) \<in> set kvs" by auto
    with map_of_insert_all [OF assms this, of "[]"] some show "(k, v) \<in> set kvs" by simp
  qed (rule map_of_insert_all [OF assms])
  finally show ?thesis .
qed

lemma registry_graphs_grant:
  assumes "acl_entry (rg_grants st) (g, s) = Some p"
  shows "g \<in> set (registry_graphs st)"
proof (cases "map_of (rg_grants st) g")
  case None
  with assms show ?thesis by (simp add: acl_entry_def bm_or_default_def)
next
  case (Some acl)
  from map_of_SomeD [OF this] have "g \<in> fst ` set (rg_grants st)" by force
  then show ?thesis by (simp add: registry_graphs_def)
qed

lemma succs_member_key: "w \<in> set (succs m k) \<Longrightarrow> map_of m k \<noteq> None"
  by (cases "map_of m k") (simp_all add: succs_None)

lemma sets_ok_nonempty: "sets_ok m \<Longrightarrow> map_of m k = Some xs \<Longrightarrow> xs \<noteq> []"
  by (auto simp: sets_ok_def)

lemma sets_ok_absent: "sets_ok m \<Longrightarrow> set (succs m k) = {} \<Longrightarrow> map_of m k = None"
  by (cases "map_of m k") (auto simp: succs_Some dest: sets_ok_nonempty)

text \<open>
  A registry, a digest under which its facts have distinct keys, and its facts in any order. What the
  fact store owes the registry: every fact back, in whatever order. \<open>storable\<close> is what the rendering
  needs of the state, all the parts of its invariant but the bounds on nesting and the administrators.
\<close>

definition storable :: "(string list \<Rightarrow> string) \<Rightarrow> registry \<Rightarrow> bool" where
  "storable hash st \<longleftrightarrow> membership_ok st \<and> ownership_ok st \<and> acls_ok st \<and> names_ok st
     \<and> inj_on fact_key (set (rendered hash st))"

locale registry_rendering =
  fixes hash :: "string list \<Rightarrow> string" and st :: registry and fs :: "registry_fact list"
  assumes storable: "storable hash st"
    and fs: "set fs = set (rendered hash st)"
begin

lemma names: "names_ok st" and acls: "acls_ok st" and membership: "membership_ok st"
  and ownership: "ownership_ok st" and inj: "inj_on fact_key (set (rendered hash st))"
  using storable by (simp_all add: storable_def)

lemma good_bodies: "\<forall>f \<in> set fs. good_body (rf_body f)"
proof
  fix f assume "f \<in> set fs"
  then have "f \<in> set (rendered hash st)" by (simp add: fs)
  then show "good_body (rf_body f)"
    unfolding mem_rendered
  proof (elim disjE exE conjE imageE)
    fix i e assume e: "(i, e) \<in> set (rg_principals st)" "f = principal_fact i e"
    have "bm_ok (rg_principals st)" using names by (simp add: names_ok_def)
    with e(1) have "entry_of st i = Some e" by (simp add: bm_ok_map_of entry_of_def)
    then have "shape st i = Some (pe_kind e, pe_owner e, pe_delegation e \<noteq> None)" by (simp add: shape_def)
    from ownership_okD(3) [OF ownership this] show ?thesis
      unfolding e(2) by (auto simp: good_body_def fact_bodies shape_ok_def)
  qed (simp_all add: good_body_def fact_bodies)
qed

lemma functional_principals: "functional (set (items principal_items fs))"
  unfolding functional_def principal_list [OF fs names] by simp

lemma functional_graphs: "functional (set (items graph_items fs))"
  unfolding functional_def graph_list [OF fs]
proof (intro allI impI)
  fix n g g' assume g: "g \<in> set (registry_graphs st) \<and> n = graph_node hash g"
    and g': "g' \<in> set (registry_graphs st) \<and> n = graph_node hash g'"
  then have "graph_fact hash g \<in> set (rendered hash st)" "graph_fact hash g' \<in> set (rendered hash st)"
    by (simp_all add: rendered_def)
  with inj g g' have "graph_fact hash g = graph_fact hash g'" by (auto simp: inj_on_def fact_keys)
  then show "g = g'" by (metis fact_bodies(4) registry_body.inject(2))
qed

lemma branch_fact_rendered:
  assumes "map_of (rg_protected st) (g, b) \<noteq> None"
  shows "branch_fact hash g b \<in> set (rendered hash st)"
proof -
  have "bm_ok (rg_protected st)" using acls by (simp add: acls_ok_def)
  with assms obtain ws where "((g, b), ws) \<in> set (rg_protected st)" by (auto simp: bm_ok_map_of)
  then show ?thesis unfolding mem_rendered by blast
qed

lemma functional_branches: "functional (set (items branch_items fs))"
  unfolding functional_def
proof (intro allI impI)
  fix n k k' assume k: "(n, k) \<in> set (items branch_items fs)" and k': "(n, k') \<in> set (items branch_items fs)"
  obtain g b g' b' where eq: "k = (g, b)" "k' = (g', b')" by (cases k, cases k') blast
  have *: "map_of (rg_protected st) (g, b) \<noteq> None" "n = branch_node hash g b"
    "map_of (rg_protected st) (g', b') \<noteq> None" "n = branch_node hash g' b'"
    using k k' unfolding eq branch_list [OF fs acls] by simp_all
  from *(1,3) have "branch_fact hash g b \<in> set (rendered hash st)"
    "branch_fact hash g' b' \<in> set (rendered hash st)" by (simp_all add: branch_fact_rendered)
  with inj *(2,4) have "branch_fact hash g b = branch_fact hash g' b'"
    by (auto simp: inj_on_def fact_keys)
  then show "k = k'" unfolding eq by (metis fact_bodies(7) registry_body.inject(3))
qed

definition graphs_of :: "string \<Rightarrow> string option" where
  "graphs_of = map_of (insert_all (items graph_items fs) [])"

definition branches_of :: "string \<Rightarrow> (string \<times> string) option" where
  "branches_of = map_of (insert_all (items branch_items fs) [])"

lemma graphs_of: "g \<in> set (registry_graphs st) \<Longrightarrow> graphs_of (graph_node hash g) = Some g"
  unfolding graphs_of_def by (rule map_of_insert_all [OF functional_graphs]) (simp add: graph_list [OF fs])

lemma branches_of:
  "map_of (rg_protected st) (g, b) \<noteq> None \<Longrightarrow> branches_of (branch_node hash g b) = Some (g, b)"
  unfolding branches_of_def
  by (rule map_of_insert_all [OF functional_branches]) (simp add: branch_list [OF fs acls])

lemma edge_cases:
  assumes "e \<in> set (items edge_items fs)"
  obtains (member) g m where "m \<in> set (succs (rg_members st) g)" "e = (member_predicate, m, g, None)"
  | (grant) g s p where "acl_entry (rg_grants st) (g, s) = Some p"
      "e = (grant_predicate, s, graph_node hash g, Some p)" "graphs_of (graph_node hash g) = Some g"
  | (writer) g b w where "w \<in> set (succs (rg_protected st) (g, b))"
      "e = (branch_writer_predicate, w, branch_node hash g b, None)"
      "branches_of (branch_node hash g b) = Some (g, b)"
proof -
  have prot: "map_of (rg_protected st) (g, b) \<noteq> None" if "w \<in> set (succs (rg_protected st) (g, b))" for g b w
    by (rule succs_member_key [OF that])
  from assms [unfolded edge_list [OF fs membership acls]] show thesis
    using member grant writer graphs_of [OF registry_graphs_grant] branches_of [OF prot] by blast
qed

lemma good_edges: "\<forall>e \<in> set (items edge_items fs). good_edge graphs_of branches_of e"
proof
  fix e assume "e \<in> set (items edge_items fs)"
  then show "good_edge graphs_of branches_of e"
    by (cases rule: edge_cases) (simp_all add: good_edge_def)
qed

lemma members_read: "(g, m) \<in> set (items member_items (items edge_items fs)) \<longleftrightarrow> m \<in> set (succs (rg_members st) g)"
proof
  assume "(g, m) \<in> set (items member_items (items edge_items fs))"
  then obtain e where e: "e \<in> set (items edge_items fs)" "(g, m) \<in> set (member_items e)"
    by (auto simp: set_items [of member_items])
  from e(1) show "m \<in> set (succs (rg_members st) g)"
    by (cases rule: edge_cases) (use e(2) in \<open>simp_all add: edge_item_simps\<close>)
next
  assume "m \<in> set (succs (rg_members st) g)"
  then have "(member_predicate, m, g, None) \<in> set (items edge_items fs)"
    unfolding edge_list [OF fs membership acls] by blast
  moreover have "(g, m) \<in> set (member_items (member_predicate, m, g, None))" by (simp add: edge_item_simps)
  ultimately show "(g, m) \<in> set (items member_items (items edge_items fs))"
    unfolding set_items [of member_items] by blast
qed

lemma grants_read:
  "(g, s, p) \<in> set (items (grant_items graphs_of) (items edge_items fs)) \<longleftrightarrow>
     acl_entry (rg_grants st) (g, s) = Some p"
proof
  assume "(g, s, p) \<in> set (items (grant_items graphs_of) (items edge_items fs))"
  then obtain e where e: "e \<in> set (items edge_items fs)" "(g, s, p) \<in> set (grant_items graphs_of e)"
    by (auto simp: set_items [of "grant_items graphs_of"])
  from e(1) show "acl_entry (rg_grants st) (g, s) = Some p"
    by (cases rule: edge_cases) (use e(2) in \<open>simp_all add: edge_item_simps\<close>)
next
  assume acl: "acl_entry (rg_grants st) (g, s) = Some p"
  then have "(grant_predicate, s, graph_node hash g, Some p) \<in> set (items edge_items fs)"
    unfolding edge_list [OF fs membership acls] by blast
  moreover have "(g, s, p) \<in> set (grant_items graphs_of (grant_predicate, s, graph_node hash g, Some p))"
    by (simp add: edge_item_simps graphs_of [OF registry_graphs_grant [OF acl]])
  ultimately show "(g, s, p) \<in> set (items (grant_items graphs_of) (items edge_items fs))"
    unfolding set_items [of "grant_items graphs_of"] by blast
qed

lemma writers_read:
  "(k, w) \<in> set (items (writer_items branches_of) (items edge_items fs)) \<longleftrightarrow> w \<in> set (succs (rg_protected st) k)"
proof
  assume "(k, w) \<in> set (items (writer_items branches_of) (items edge_items fs))"
  then obtain e where e: "e \<in> set (items edge_items fs)" "(k, w) \<in> set (writer_items branches_of e)"
    by (auto simp: set_items [of "writer_items branches_of"])
  from e(1) show "w \<in> set (succs (rg_protected st) k)"
    by (cases rule: edge_cases) (use e(2) in \<open>simp_all add: edge_item_simps\<close>)
next
  assume w: "w \<in> set (succs (rg_protected st) k)"
  obtain g b where k: "k = (g, b)" by (cases k)
  have "map_of (rg_protected st) (g, b) \<noteq> None"
    using w unfolding k by (rule succs_member_key)
  from branches_of [OF this]
  have "(k, w) \<in> set (writer_items branches_of (branch_writer_predicate, w, branch_node hash g b, None))"
    by (simp add: edge_item_simps k)
  moreover have "(branch_writer_predicate, w, branch_node hash g b, None) \<in> set (items edge_items fs)"
    using w unfolding edge_list [OF fs membership acls] k by blast
  ultimately show "(k, w) \<in> set (items (writer_items branches_of) (items edge_items fs))"
    unfolding set_items [of "writer_items branches_of"] by blast
qed

lemma protected_read:
  "fold ensure_key (map snd (insert_all (items branch_items fs) []))
     (adjoin_all (items (writer_items branches_of) (items edge_items fs)) []) = rg_protected st"
  (is "fold ensure_key ?ks ?w = _")
proof (rule bm_ext)
  have bm: "bm_ok (rg_protected st)" using acls by (simp add: acls_ok_def)
  have w: "sets_ok ?w" by (rule sets_ok_adjoin_all) (simp add: sets_ok_def)
  show "bm_ok (fold ensure_key ?ks ?w)"
    by (rule bm_ok_ensure_keys) (use w in \<open>simp add: sets_ok_def\<close>)
  have writers: "set (succs ?w k) = set (succs (rg_protected st) k)" for k
    by (auto simp: succs_adjoin_all writers_read succs_None)
  have keys: "k \<in> set ?ks \<longleftrightarrow> map_of (rg_protected st) k \<noteq> None" for k
  proof -
    obtain g b where k: "k = (g, b)" by (cases k)
    have "k \<in> set ?ks \<longleftrightarrow> (\<exists>n. (n, k) \<in> set (insert_all (items branch_items fs) []))" by force
    then show ?thesis
      unfolding mem_insert_all [OF functional_branches] k branch_list [OF fs acls] by simp
  qed
  show "map_of (fold ensure_key ?ks ?w) k = map_of (rg_protected st) k" for k
  proof (cases "map_of (rg_protected st) k")
    case None
    then have "set (succs ?w k) = {}" using writers by (simp add: succs_None)
    then have "map_of ?w k = None" by (rule sets_ok_absent [OF w])
    with None keys show ?thesis by (simp add: ensure_keys)
  next
    case (Some ws)
    have "bs_ok ws" using acls Some by (cases k) (simp add: acls_ok_def)
    moreover have "bs_ok (bm_or_default [] ?w k)" by (rule bs_ok_default [OF w])
    moreover have "set (bm_or_default [] ?w k) = set ws" using writers Some by (simp add: succs_def bm_or_default_def)
    ultimately have "bm_or_default [] ?w k = ws" by (intro bs_ext)
    with Some keys show ?thesis by (simp add: ensure_keys)
  qed
  show "bm_ok (rg_protected st)" by (rule bm)
qed

lemma parse_rendered: "parse fs = Ok st"
proof -
  have principals: "insert_all (items principal_items fs) [] = rg_principals st"
    by (rule insert_all_eq [OF functional_principals])
      (use names in \<open>simp_all add: principal_list [OF fs names] names_ok_def entry_of_def\<close>)
  have owned: "adjoin_all (items owned_items fs) [] = rg_owned st"
    by (rule adjoin_all_eq)
      (use ownership_okD(1,2) [OF ownership] in \<open>simp_all add: owned_list [OF fs names]\<close>)
  have members: "adjoin_all (items member_items (items edge_items fs)) [] = rg_members st"
    by (rule adjoin_all_eq) (use membership in \<open>simp_all add: members_read membership_ok_def\<close>)
  have "(m, g) \<in> set (map prod.swap (items member_items (items edge_items fs))) \<longleftrightarrow>
      g \<in> set (succs (rg_parents st) m)" for m g
    using members_read [of g m] membership unfolding membership_ok_def by force
  then have parents: "adjoin_all (map prod.swap (items member_items (items edge_items fs))) [] = rg_parents st"
    by (intro adjoin_all_eq) (use membership in \<open>simp_all add: membership_ok_def\<close>)
  have grants: "grant_all (items (grant_items graphs_of) (items edge_items fs)) [] = rg_grants st" (is "?g = _")
  proof (rule grants_ext)
    show "grants_ok ?g" by (rule grants_ok_all) (simp add: grants_ok_def)
    show "grants_ok (rg_grants st)" using acls by (simp add: grants_ok_def acls_ok_def)
    show "acl_entry ?g k = acl_entry (rg_grants st) k" for k
    proof (cases "acl_entry (rg_grants st) k")
      case None
      then have "k \<notin> (\<lambda>(g, s, p). (g, s)) ` set (items (grant_items graphs_of) (items edge_items fs))"
        by (auto simp: grants_read)
      then show ?thesis using None by (simp add: acl_entry_other) (simp add: acl_entry_def bm_or_default_def)
    next
      case (Some p)
      then have "acl_entry ?g (fst k, snd k) = Some p"
        by (intro acl_entry_all) (simp_all add: grants_read)
      with Some show ?thesis by simp
    qed
  qed
  show ?thesis
    unfolding parse_def parse_facts [OF good_bodies] rbind_Inr
    using parse_edges [of "items edge_items fs" "insert_all (items graph_items fs) []"
        "insert_all (items branch_items fs) []"] good_edges
    by (simp add: graphs_of_def [symmetric] branches_of_def [symmetric] empty_registry_def
        principals owned members parents grants protected_read)
qed

end


section \<open>Keys of the facts\<close>

text \<open>
  The fact keys are distinct when the digest separates the tuples it is given and no principal bears
  the name of a graph or branch node.
\<close>

definition node_prefixed :: "string \<Rightarrow> bool" where
  "node_prefixed i \<longleftrightarrow> starts_with i ''graph:'' \<or> starts_with i ''branch:''"

definition names_clear :: "registry \<Rightarrow> bool" where
  "names_clear st \<longleftrightarrow> list_all (\<lambda>(i, _). \<not> node_prefixed i) (rg_principals st)"

lemma node_prefixed_nodes: "node_prefixed (graph_node h g)" "node_prefixed (branch_node h g b)"
  by (simp_all add: node_prefixed_def graph_node_def branch_node_def starts_with_def)

lemma edge_keys:
  "fact_key (member_fact h g m) = (FkEdge, ''member:'' @ h [g, m])"
  "fact_key (grant_fact h g s p) = (FkEdge, ''grant:'' @ h [g, s])"
  "fact_key (writer_fact h g b w) = (FkEdge, ''branch-writer:'' @ h [g, b, w])"
  by (simp_all add: fact_key_def fact_defs)

text \<open>\<open>same_identity\<close> of \<open>facts.rs\<close> on registry facts, whose nodes have their own identifier as entity.\<close>

definition same_identity :: "registry_fact \<Rightarrow> registry_fact \<Rightarrow> bool" where
  "same_identity old new \<longleftrightarrow>
     (case (rf_body old, rf_body new) of
        (EdgeBody p f t _, EdgeBody p' f' t' _) \<Rightarrow> (f, t, p) = (f', t', p')
      | (EdgeBody _ _ _ _, _) \<Rightarrow> False
      | (_, EdgeBody _ _ _ _) \<Rightarrow> False
      | _ \<Rightarrow> rf_id old = rf_id new)"

text \<open>A rendered fact with a given key, by the shape of the key.\<close>

lemma rendered_key:
  assumes "f \<in> set (rendered hash st)" and "names_clear st"
  obtains (principal) i e where "f = principal_fact i e" "(i, e) \<in> set (rg_principals st)" "\<not> node_prefixed i"
  | (member) g m where "f = member_fact hash g m"
  | (graph) g where "f = graph_fact hash g"
  | (grant) g s p acl where "f = grant_fact hash g s p" "(g, acl) \<in> set (rg_grants st)" "(s, p) \<in> set acl"
  | (branch) g b where "f = branch_fact hash g b"
  | (writer) g b w where "f = writer_fact hash g b w"
proof -
  have clear: "\<not> node_prefixed i" if "(i, e) \<in> set (rg_principals st)" for i e
    using assms(2) that by (auto simp: names_clear_def list_all_iff)
  from assms(1) consider
      (p) i e where "(i, e) \<in> set (rg_principals st)" "f = principal_fact i e"
    | (m) g ms where "f \<in> member_fact hash g ` set ms"
    | (g) "f \<in> graph_fact hash ` set (registry_graphs st)"
    | (a) g acl s p where "(g, acl) \<in> set (rg_grants st)" "(s, p) \<in> set acl" "f = grant_fact hash g s p"
    | (b) g b where "f = branch_fact hash g b"
    | (w) g b ws where "f \<in> writer_fact hash g b ` set ws"
    unfolding mem_rendered by metis
  then show thesis
  proof cases
    case p
    from principal [OF p(2,1) clear [OF p(1)]] show thesis .
  next
    case m
    then show thesis by (elim imageE) (rule member)
  next
    case g
    then show thesis by (elim imageE) (rule graph)
  next
    case a
    from grant [OF a(3,1,2)] show thesis .
  next
    case b
    then show thesis by (rule branch)
  next
    case w
    then show thesis by (elim imageE) (rule writer)
  qed
qed

lemma keys_identify:
  assumes "inj hash" and clear: "names_clear st" "names_clear st'"
    and f: "f \<in> set (rendered hash st)" and f': "f' \<in> set (rendered hash st')"
    and key: "fact_key f = fact_key f'"
  shows "same_identity f f'"
proof -
  have [simp]: "hash x = hash y \<longleftrightarrow> x = y" for x y using assms(1) by (simp add: inj_eq)
  note [simp] = fact_keys edge_keys fact_bodies same_identity_def graph_node_def branch_node_def
  note nodes = node_prefixed_nodes [unfolded graph_node_def branch_node_def]
  from f clear(1) show ?thesis
  proof (cases rule: rendered_key)
    case principal
    from f' clear(2) show ?thesis
      by (cases rule: rendered_key) (use principal key nodes in auto)
  next
    case member
    from f' clear(2) show ?thesis by (cases rule: rendered_key) (use member key in auto)
  next
    case graph
    from f' clear(2) show ?thesis
      by (cases rule: rendered_key) (use graph key nodes in auto)
  next
    case grant
    from f' clear(2) show ?thesis by (cases rule: rendered_key) (use grant key in auto)
  next
    case branch
    from f' clear(2) show ?thesis
      by (cases rule: rendered_key) (use branch key nodes in auto)
  next
    case writer
    from f' clear(2) show ?thesis by (cases rule: rendered_key) (use writer key in auto)
  qed
qed


lemma fact_keys_distinct:
  assumes "inj hash" and clear: "names_clear st" and ok: "registry_ok st"
  shows "inj_on fact_key (set (rendered hash st))"
proof (rule inj_onI)
  fix f f' assume f: "f \<in> set (rendered hash st)" and f': "f' \<in> set (rendered hash st)"
    and key: "fact_key f = fact_key f'"
  have [simp]: "hash x = hash y \<longleftrightarrow> x = y" for x y using assms(1) by (simp add: inj_eq)
  note [simp] = fact_keys edge_keys graph_node_def branch_node_def
  note nodes = node_prefixed_nodes [unfolded graph_node_def branch_node_def]
  have bm: "bm_ok (rg_principals st)" "bm_ok (rg_grants st)"
    "\<And>g acl. map_of (rg_grants st) g = Some acl \<Longrightarrow> bm_ok acl"
    using ok by (simp_all add: registry_ok_def names_ok_def acls_ok_def)
  have one: "e = e'" if "(i, e) \<in> set (rg_principals st)" "(i, e') \<in> set (rg_principals st)" for i e e'
    using that by (simp add: bm_ok_map_of [OF bm(1)])
  have one_grant: "p = p'" if "(g, acl) \<in> set (rg_grants st)" "(s, p) \<in> set acl"
    "(g, acl') \<in> set (rg_grants st)" "(s, p') \<in> set acl'" for g acl s p acl' p'
  proof -
    from that(1,3) have acl: "map_of (rg_grants st) g = Some acl" "acl' = acl"
      by (simp_all add: bm_ok_map_of [OF bm(2)])
    with that(2,4) bm(3) [OF acl(1)] show ?thesis by (simp add: bm_ok_map_of)
  qed
  from f clear show "f = f'"
  proof (cases rule: rendered_key)
    case p: (principal i e)
    from f' clear show ?thesis
      by (cases rule: rendered_key) (use p one key nodes in auto)
  next
    case member
    from f' clear show ?thesis by (cases rule: rendered_key) (use member key in auto)
  next
    case graph
    from f' clear show ?thesis by (cases rule: rendered_key) (use graph key nodes in auto)
  next
    case a: (grant g s p acl)
    from f' clear show ?thesis
    proof (cases rule: rendered_key)
      case b: (grant g' s' p' acl')
      with a key have "g' = g" "s' = s" by auto
      with one_grant [OF a(2,3)] a(1) b show ?thesis by blast
    qed (use a(1) key in auto)
  next
    case branch
    from f' clear show ?thesis
      by (cases rule: rendered_key) (use branch key nodes in auto)
  next
    case writer
    from f' clear show ?thesis by (cases rule: rendered_key) (use writer key in auto)
  qed
qed

lemma storableI:
  "registry_ok st \<Longrightarrow> inj_on fact_key (set (rendered hash st)) \<Longrightarrow> storable hash st"
  by (simp add: registry_ok_def storable_def)

theorem parse_render:
  assumes "registry_ok st" and "inj_on fact_key (set (rendered hash st))"
  shows "parse (map snd (render hash st)) = Ok st"
  by (rule registry_rendering.parse_rendered [OF registry_rendering.intro])
    (use assms storableI set_render in auto)

section \<open>Writing the facts\<close>

datatype fact_change =
    AssertFact registry_fact
  | CorrectFact registry_fact
  | RetractFact "fact_kind \<times> string"

type_synonym registry_facts = "(fact_kind \<times> string, registry_fact) btree_map"

text \<open>The changes a registry write makes of the facts before and after.\<close>

definition diff_writes :: "registry_facts \<Rightarrow> registry_facts \<Rightarrow> fact_change list" where
  "diff_writes old new =
     concat (map (\<lambda>(k, f).
       case map_of old k of
         None \<Rightarrow> [AssertFact f]
       | Some previous \<Rightarrow> if previous \<noteq> f then [CorrectFact f] else []) new)
     @ map RetractFact (filter (\<lambda>k. map_of new k = None) (map fst old))"

fun change_key :: "fact_change \<Rightarrow> fact_kind \<times> string" where
  "change_key (AssertFact f) = fact_key f"
| "change_key (CorrectFact f) = fact_key f"
| "change_key (RetractFact k) = k"

text \<open>
  One change of a fact write against the live facts before the write: the operation it logs, if any.
\<close>

fun change_op :: "registry_facts \<Rightarrow> fact_change \<Rightarrow> ((fact_kind \<times> string) \<times> registry_fact option) option result" where
  "change_op live (AssertFact f) =
     (case map_of live (fact_key f) of
        None \<Rightarrow> Ok (Some (fact_key f, Some f))
      | Some l \<Rightarrow> if l = f then Ok None else Err E_CONFLICT)"
| "change_op live (CorrectFact f) =
     rbind (ok_or (map_of live (fact_key f)) E_CONFLICT) (\<lambda>l.
     rbind (ensure (same_identity l f) E_CONFLICT) (\<lambda>_.
       Ok (if l \<noteq> f then Some (fact_key f, Some f) else None)))"
| "change_op live (RetractFact k) =
     rbind (ensure (map_of live k \<noteq> None) E_CONFLICT) (\<lambda>_. Ok (Some (k, None)))"

text \<open>A change list: every key at most once, each change against the facts before the write.\<close>

definition collect_op ::
  "registry_facts \<Rightarrow> (fact_kind \<times> string) list \<times> (fact_kind \<times> string, registry_fact option) btree_map \<Rightarrow>
     fact_change \<Rightarrow> ((fact_kind \<times> string) list \<times> (fact_kind \<times> string, registry_fact option) btree_map) result" where
  "collect_op live acc c =
     (case acc of (seen, ops) \<Rightarrow>
        rbind (ensure (change_key c \<notin> set seen) E_CONFLICT) (\<lambda>_.
        rbind (change_op live c) (\<lambda>p.
          Ok (change_key c # seen, case p of None \<Rightarrow> ops | Some (k, x) \<Rightarrow> bm_insert k x ops))))"

definition logged_ops ::
  "registry_facts \<Rightarrow> fact_change list \<Rightarrow> (fact_kind \<times> string, registry_fact option) btree_map result" where
  "logged_ops live changes = rbind (try_fold (collect_op live) ([], []) changes) (\<lambda>(_, ops). Ok ops)"

text \<open>The live facts after the operations, as the fact store keeps them.\<close>

definition commit_op :: "(fact_kind \<times> string) \<times> registry_fact option \<Rightarrow> registry_facts \<Rightarrow> registry_facts" where
  "commit_op p live = (case p of (k, Some f) \<Rightarrow> bm_insert k f live | (k, None) \<Rightarrow> bm_remove k live)"

definition max_write_changes :: nat where
  "max_write_changes = 100000"

definition append_facts :: "registry_facts \<Rightarrow> fact_change list \<Rightarrow> registry_facts result" where
  "append_facts live changes =
     rbind (ensure (changes \<noteq> []) E_FACT_WRITE) (\<lambda>_.
     rbind (ensure (length changes \<le> max_write_changes) E_BUDGET) (\<lambda>_.
     rbind (logged_ops live changes) (\<lambda>ops. Ok (fold commit_op ops live))))"


section \<open>Committing a difference\<close>

fun target :: "fact_change \<Rightarrow> registry_fact option" where
  "target (AssertFact f) = Some f"
| "target (CorrectFact f) = Some f"
| "target (RetractFact k) = None"

abbreviation keyed :: "fact_change \<Rightarrow> (fact_kind \<times> string) \<times> registry_fact option" where
  "keyed c \<equiv> (change_key c, target c)"

lemma logged_ops_keyed:
  assumes "distinct (map change_key cs)" and "\<forall>c \<in> set cs. change_op live c = Ok (Some (keyed c))"
  shows "logged_ops live cs = Ok (insert_all (map keyed cs) [])"
proof -
  have "\<exists>seen'. try_fold (collect_op live) (seen, ops) cs = Ok (seen', insert_all (map keyed cs) ops)"
    if "set seen \<inter> set (map change_key cs) = {}" for seen ops
    using that assms
  proof (induction cs arbitrary: seen ops)
    case (Cons c cs)
    then have "collect_op live (seen, ops) c = Ok (change_key c # seen, bm_insert (change_key c) (target c) ops)"
      by (simp add: collect_op_def ensure_def)
    moreover have "\<exists>seen'. try_fold (collect_op live)
        (change_key c # seen, bm_insert (change_key c) (target c) ops) cs
          = Ok (seen', insert_all (map keyed cs) (bm_insert (change_key c) (target c) ops))"
      using Cons.prems by (intro Cons.IH) auto
    ultimately show ?case by simp
  qed simp
  from this [of "[]" "[]"] show ?thesis by (auto simp: logged_ops_def)
qed

lemma fold_commit_op:
  "distinct (map fst ops) \<Longrightarrow> map_of (fold commit_op ops live) k =
     (case map_of ops k of None \<Rightarrow> map_of live k | Some x \<Rightarrow> x)"
proof (induction ops arbitrary: live)
  case (Cons p ops)
  obtain k' x where p: "p = (k', x)" by (cases p)
  with Cons.prems have "map_of ops k' = None" by (simp add: map_of_eq_None_iff)
  with Cons.IH [of "commit_op p live"] Cons.prems show ?case
    by (cases x) (auto simp: p commit_op_def split: option.split)
qed simp

lemma bm_ok_commit: "bm_ok live \<Longrightarrow> bm_ok (fold commit_op ops live)"
  by (induction ops arbitrary: live) (auto simp: commit_op_def split: prod.split option.split)

lemma mem_diff_writes:
  "c \<in> set (diff_writes old new) \<longleftrightarrow>
     (\<exists>k f. (k, f) \<in> set new \<and> map_of old k = None \<and> c = AssertFact f)
     \<or> (\<exists>k f. (k, f) \<in> set new \<and> (\<exists>p. map_of old k = Some p \<and> p \<noteq> f \<and> c = CorrectFact f))
     \<or> (\<exists>k. k \<in> fst ` set old \<and> map_of new k = None \<and> c = RetractFact k)"
proof -
  have one: "c \<in> set (case old_f of None \<Rightarrow> [AssertFact f] | Some p \<Rightarrow> if p \<noteq> f then [CorrectFact f] else [])
      \<longleftrightarrow> old_f = None \<and> c = AssertFact f \<or> (\<exists>p. old_f = Some p \<and> p \<noteq> f \<and> c = CorrectFact f)" for old_f f
    by (cases old_f) auto
  have "c \<in> set (diff_writes old new) \<longleftrightarrow>
     (\<exists>k f. (k, f) \<in> set new \<and> c \<in> set (case map_of old k of None \<Rightarrow> [AssertFact f]
          | Some p \<Rightarrow> if p \<noteq> f then [CorrectFact f] else []))
     \<or> (\<exists>k. k \<in> fst ` set old \<and> map_of new k = None \<and> c = RetractFact k)"
  proof -
    have "c \<in> set (map RetractFact (filter (\<lambda>k. map_of new k = None) (map fst old))) \<longleftrightarrow>
        (\<exists>k. k \<in> fst ` set old \<and> map_of new k = None \<and> c = RetractFact k)" by force
    then show ?thesis unfolding diff_writes_def set_append Un_iff mem_concat_pair by (rule arg_cong)
  qed
  also have "(\<exists>k f. (k, f) \<in> set new \<and> c \<in> set (case map_of old k of None \<Rightarrow> [AssertFact f]
          | Some p \<Rightarrow> if p \<noteq> f then [CorrectFact f] else [])) \<longleftrightarrow>
     (\<exists>k f. (k, f) \<in> set new \<and> map_of old k = None \<and> c = AssertFact f)
     \<or> (\<exists>k f. (k, f) \<in> set new \<and> (\<exists>p. map_of old k = Some p \<and> p \<noteq> f \<and> c = CorrectFact f))"
    unfolding one conj_disj_distribL ex_disj_distrib ..
  finally show ?thesis unfolding disj_assoc .
qed

lemma diff_writes_changed:
  assumes "(k, f) \<in> set new" and "map_of old k \<noteq> Some f"
  shows "AssertFact f \<in> set (diff_writes old new) \<or> CorrectFact f \<in> set (diff_writes old new)"
proof (cases "map_of old k")
  case None
  with assms(1) have "AssertFact f \<in> set (diff_writes old new)"
    unfolding mem_diff_writes by (intro disjI1 exI conjI) simp_all
  then show ?thesis ..
next
  case (Some p)
  with assms(2) have "p \<noteq> f" by simp
  with assms(1) Some have "CorrectFact f \<in> set (diff_writes old new)"
    unfolding mem_diff_writes by (intro disjI2 disjI1 exI conjI) simp_all
  then show ?thesis ..
qed

definition keyed_facts :: "registry_facts \<Rightarrow> bool" where
  "keyed_facts m \<longleftrightarrow> bm_ok m \<and> (\<forall>(k, f) \<in> set m. fact_key f = k)"

lemma diff_writes_distinct:
  assumes "keyed_facts old" and "keyed_facts new"
  shows "distinct (map change_key (diff_writes old new))"
proof -
  have keys: "map change_key (concat (map (\<lambda>(k, f). case map_of old k of None \<Rightarrow> [AssertFact f]
        | Some previous \<Rightarrow> if previous \<noteq> f then [CorrectFact f] else []) xs))
      = map fst (filter (\<lambda>(k, f). map_of old k \<noteq> Some f) xs)"
    if "\<forall>(k, f) \<in> set xs. fact_key f = k" for xs
    using that by (induction xs) (auto split: option.split)
  have retracts: "map (change_key \<circ> RetractFact) ks = ks" for ks by (induction ks) simp_all
  have "distinct (map fst new)" "distinct (map fst old)"
    using assms by (simp_all add: keyed_facts_def bm_ok_distinct)
  moreover have "map_of new k = None \<Longrightarrow> k \<notin> fst ` set (filter P new)" for k P
    by (force simp: map_of_eq_None_iff)
  moreover have "distinct (map fst (filter P new))" for P
    using calculation(1) by (simp add: distinct_map_filter)
  ultimately show ?thesis
    using keys [of new] assms(2)
    by (auto simp: diff_writes_def retracts keyed_facts_def)
qed


lemma diff_writes_commit:
  assumes old: "keyed_facts old" and new: "keyed_facts new"
    and same: "\<forall>f \<in> snd ` set old. \<forall>f' \<in> snd ` set new. fact_key f = fact_key f' \<longrightarrow> same_identity f f'"
  shows "\<exists>ops. logged_ops old (diff_writes old new) = Ok ops \<and> fold commit_op ops old = new"
proof -
  let ?cs = "diff_writes old new" and ?ops = "insert_all (map keyed (diff_writes old new)) []"
  have bm: "bm_ok old" "bm_ok new" using old new by (simp_all add: keyed_facts_def)
  have key: "fact_key f = k" if "map_of m k = Some f" "keyed_facts m" for m k f
    using that map_of_SomeD [OF that(1)] by (auto simp: keyed_facts_def)
  have val: "map_of m k = Some f" if "(k, f) \<in> set m" "keyed_facts m" for m k f
    using that bm_ok_map_of [of m k f] by (simp add: keyed_facts_def)
  have "change_op old c = Ok (Some (keyed c))" if c: "c \<in> set ?cs" for c
  proof -
    from c consider k f where "(k, f) \<in> set new" "map_of old k = None" "c = AssertFact f"
      | k f p where "(k, f) \<in> set new" "map_of old k = Some p" "p \<noteq> f" "c = CorrectFact f"
      | k where "k \<in> fst ` set old" "c = RetractFact k"
      unfolding mem_diff_writes by blast
    then show ?thesis
    proof cases
      case 1
      with key [OF val [OF 1(1) new] new] show ?thesis by simp
    next
      case 2
      have keys: "fact_key f = k" "fact_key p = k"
        using key [OF val [OF 2(1) new] new] key [OF 2(2) old] by simp_all
      have "p \<in> snd ` set old" "f \<in> snd ` set new" using 2(1) map_of_SomeD [OF 2(2)] by force+
      then have "same_identity p f" using bspec [OF bspec [OF same]] keys by metis
      with keys 2 show ?thesis by (simp add: ensure_def)
    next
      case 3
      then have "map_of old k \<noteq> None" by (simp add: map_of_eq_None_iff)
      with 3(2) show ?thesis by (simp add: ensure_def)
    qed
  qed
  then have ops: "logged_ops old ?cs = Ok ?ops"
    using diff_writes_distinct [OF old new] by (intro logged_ops_keyed) blast+
  have func: "functional (set (map keyed ?cs))"
    using diff_writes_distinct [OF old new] unfolding functional_def distinct_map inj_on_def by force
  have "map_of (fold commit_op ?ops old) k = map_of new k" for k
  proof -
    have "distinct (map fst ?ops)" by (intro bm_ok_distinct bm_ok_insert_all) simp
    then have fold: "map_of (fold commit_op ?ops old) k =
        (case map_of ?ops k of None \<Rightarrow> map_of old k | Some x \<Rightarrow> x)" by (rule fold_commit_op)
    have in_ops: "map_of ?ops k = Some x" if "c \<in> set ?cs" "keyed c = (k, x)" for c x
      using that by (intro map_of_insert_all [OF func]) force
    show ?thesis
    proof (cases "map_of new k = map_of old k")
      case True
      have "k \<notin> change_key ` set ?cs"
      proof
        assume "k \<in> change_key ` set ?cs"
        then obtain c where c: "c \<in> set ?cs" "k = change_key c" by blast
        from c(1) consider k f where "(k, f) \<in> set new" "map_of old k \<noteq> Some f" "change_key c = fact_key f"
          | k where "k \<in> fst ` set old" "map_of new k = None" "change_key c = k"
          unfolding mem_diff_writes by fastforce
        then show False
        proof cases
          case 1
          with val [OF 1(1) new] key [OF val [OF 1(1) new] new] True c(2) show False by simp
        next
          case 2
          then have "map_of old k \<noteq> None" using c(2) by (simp add: map_of_eq_None_iff)
          with 2 True c(2) show False by simp
        qed
      qed
      then have "k \<notin> fst ` set (map keyed ?cs)" by force
      then have "map_of ?ops k = None" by (simp add: map_of_insert_all_other)
      with fold True show ?thesis by simp
    next
      case False
      show ?thesis
      proof (cases "map_of new k")
        case None
        with False have "k \<in> fst ` set old" using map_of_eq_None_iff [of old k] by force
        with None have "RetractFact k \<in> set ?cs" unfolding mem_diff_writes by blast
        with in_ops [of "RetractFact k" None] fold None show ?thesis by simp
      next
        case (Some f)
        then have mem: "(k, f) \<in> set new" by (rule map_of_SomeD)
        have "AssertFact f \<in> set ?cs \<or> CorrectFact f \<in> set ?cs"
          using diff_writes_changed [OF mem] False Some by simp
        with in_ops [of "AssertFact f" "Some f"] in_ops [of "CorrectFact f" "Some f"]
          key [OF Some new] fold Some show ?thesis by auto
      qed
    qed
  qed
  then have "fold commit_op ?ops old = new" by (intro bm_ext bm_ok_commit bm)
  with ops show ?thesis by blast
qed

lemma diff_writes_Nil:
  assumes "bm_ok old" and "bm_ok new" and "diff_writes old new = []"
  shows "old = new"
proof (rule bm_ext)
  have none: "c \<notin> set (diff_writes old new)" for c using assms(3) by simp
  show "map_of old k = map_of new k" for k
  proof (cases "map_of new k")
    case None
    with none [of "RetractFact k"] have "k \<notin> fst ` set old" unfolding mem_diff_writes by blast
    then have "map_of old k = None" by (simp add: map_of_eq_None_iff)
    with None show ?thesis by simp
  next
    case (Some f)
    with diff_writes_changed [OF map_of_SomeD [OF Some], of old] none show ?thesis
      by (cases "map_of old k = Some f") auto
  qed
qed (rule assms)+

lemma keyed_facts_render: "keyed_facts (render hash st)"
proof -
  have "keyed_facts (fold put_fact fs m)" if "keyed_facts m" for fs m
    using that
  proof (induction fs arbitrary: m)
    case (Cons f fs)
    have "(k, g) \<in> set (put_fact f m) \<Longrightarrow> fact_key g = k" for k g
      using Cons.prems bm_ok_map_of [of "put_fact f m" k g] map_of_SomeD [of m k g]
      by (auto simp: put_fact_def keyed_facts_def split: if_splits)
    with Cons.prems have "keyed_facts (put_fact f m)" by (auto simp: keyed_facts_def put_fact_def)
    with Cons.IH show ?case by simp
  qed simp
  from this [of "[]"] show ?thesis by (simp add: render_def) (simp add: keyed_facts_def)
qed


section \<open>The registry's write path\<close>

text \<open>
  The store holds the live facts of \<open>weave:registry\<close>, or \<open>None\<close> before the registry is enabled.
\<close>

definition registry_state :: "registry_facts option \<Rightarrow> registry option result" where
  "registry_state store =
     (case store of
        None \<Rightarrow> Ok None
      | Some facts \<Rightarrow>
          if max_registry_records < length facts then Err E_INTEGRITY
          else rbind (parse (map snd facts)) (\<lambda>st. Ok (Some st)))"

text \<open>
  A registry write: the change runs on a copy of the parsed state, the record bound is checked on the
  rendered result, and the difference is appended to the facts. A write that changes nothing keeps
  the current head. The flag says whether the admission epoch advances. An error leaves the store as
  it was: the code rolls its savepoint back.
\<close>

definition registry_write ::
  "(string list \<Rightarrow> string) \<Rightarrow> registry_facts option \<Rightarrow> (registry \<Rightarrow> (registry \<times> bool) result) \<Rightarrow>
     (registry_facts option \<times> bool) result" where
  "registry_write hash store change =
     rbind (registry_state store) (\<lambda>current.
       let before = (case current of None \<Rightarrow> empty_registry | Some st \<Rightarrow> st) in
       rbind (change before) (\<lambda>(after, reducing).
         let old = render hash before; new = render hash after in
         if max_registry_records < length new then Err E_BUDGET
         else
           let writes = diff_writes old new in
           if writes = [] then (if store = None then Err E_INTEGRITY else Ok (store, False))
           else
             rbind (append_facts (case store of None \<Rightarrow> [] | Some facts \<Rightarrow> facts) writes)
               (\<lambda>facts. Ok (Some facts, reducing))))"

definition enable_registry ::
  "(string list \<Rightarrow> string) \<Rightarrow> registry_facts option \<Rightarrow> host_context \<Rightarrow> (registry_facts option \<times> bool) result" where
  "enable_registry hash store host =
     rbind (check_id (hc_principal host)) (\<lambda>_.
     rbind (ensure (\<not> is_engine_name (hc_principal host)) E_RESERVED_NAMESPACE) (\<lambda>_.
       registry_write hash store (enable_change (hc_principal host))))"

definition change_loop ::
  "string \<Rightarrow> int \<Rightarrow> registry_change list \<Rightarrow> registry \<Rightarrow> (registry \<times> bool) result" where
  "change_loop actor now changes st =
     try_fold (\<lambda>(s, reducing) c.
       rbind (apply_change s c actor now) (\<lambda>s'. Ok (s', reducing \<or> \<not> additive c))) (st, False) changes"

definition apply_registry ::
  "(string list \<Rightarrow> string) \<Rightarrow> registry_facts option \<Rightarrow> int \<Rightarrow> registry_change list \<Rightarrow> host_context \<Rightarrow>
     (registry_facts option \<times> bool) result" where
  "apply_registry hash store now changes host =
     rbind (ensure (changes \<noteq> []) E_REGISTRY) (\<lambda>_.
     rbind (ensure (length changes \<le> max_registry_changes) E_BUDGET) (\<lambda>_.
     rbind (ensure (store \<noteq> None) E_REGISTRY_DISABLED) (\<lambda>_.
       registry_write hash store (change_loop (hc_principal host) now changes))))"

text \<open>
  The engine-assigned identifier: \<open>g-\<close> and 32 digits of the digest of the host's randomness. The
  heads are the stored (graph, branch) pairs.
\<close>

definition created_graph_prefix :: string where
  "created_graph_prefix = ''g-''"

definition create_graph ::
  "(string list \<Rightarrow> string) \<Rightarrow> (string \<Rightarrow> string) \<Rightarrow> registry_facts option \<Rightarrow> string \<Rightarrow>
     (string \<times> string) list \<Rightarrow> host_context \<Rightarrow> (string \<times> registry_facts option) result" where
  "create_graph hash sha256 store entropy heads host =
     rbind (ensure (store \<noteq> None) E_REGISTRY_DISABLED) (\<lambda>_.
       let graph = created_graph_prefix @ take 32 (sha256 (''weave:created-graph'' @ CHR 0x00 # entropy)) in
       rbind (registry_write hash store
                (create_graph_change graph (list_ex (\<lambda>(g, _). g = graph) heads) (hc_principal host)))
         (\<lambda>(store', _). Ok (graph, store')))"

lemma change_loop_run:
  "try_fold (\<lambda>(s, reducing) c. rbind (apply_change s c actor now)
       (\<lambda>s'. Ok (s', reducing \<or> \<not> additive c))) (st, r) changes = Ok (st', r') \<longleftrightarrow>
     run_changes st (map (\<lambda>c. (c, actor, now)) changes) = Ok st'
     \<and> r' = (r \<or> (\<exists>c \<in> set changes. \<not> additive c))"
  by (induction changes arbitrary: st r) (auto simp: run_changes_def)

definition stored :: "(string list \<Rightarrow> string) \<Rightarrow> registry_facts option \<Rightarrow> registry \<Rightarrow> bool" where
  "stored hash store st \<longleftrightarrow> store = Some (render hash st) \<and> registry_state store = Ok (Some st)"

lemma stored_render:
  assumes "inj hash" and "names_clear st" and "registry_ok st" and "length (render hash st) \<le> max_registry_records"
  shows "stored hash (Some (render hash st)) st"
proof -
  have "parse (map snd (render hash st)) = Ok st"
    using assms(3) fact_keys_distinct [OF assms(1,2,3)] by (rule parse_render)
  with assms(4) show ?thesis by (simp add: stored_def registry_state_def)
qed

lemma set_bm_insert_subset: "set (bm_insert k v m) \<subseteq> insert (k, v) (set m)"
  by (induction k v m rule: bm_insert.induct) auto

lemma registry_write_stored:
  assumes "inj hash" and st: "stored hash store st" "names_clear st"
    and wrote: "registry_write hash store change = Ok (store', reducing)"
  shows "\<exists>after r. change st = Ok (after, r) \<and> length (render hash after) \<le> max_registry_records
     \<and> (render hash after \<noteq> render hash st \<longrightarrow> reducing = r)
     \<and> (names_clear after \<longrightarrow> store' = Some (render hash after))"
proof -
  have now: "registry_state store = Ok (Some st)" "store = Some (render hash st)"
    using st(1) unfolding stored_def by blast+
  obtain after r where run: "change st = Ok (after, r)"
    using wrote now by (cases "change st") (auto simp: registry_write_def)
  let ?old = "render hash st" and ?new = "render hash after"
  let ?writes = "diff_writes ?old ?new"
  note rest = wrote [unfolded registry_write_def now(1) rbind_Inr Let_def option.case run prod.case]
  from rest have bound: "length ?new \<le> max_registry_records"
    by (simp add: not_less [symmetric] split: if_splits)
  have keyed: "keyed_facts ?old" "keyed_facts ?new" by (simp_all add: keyed_facts_render)
  then have bm: "bm_ok ?old" "bm_ok ?new" by (simp_all add: keyed_facts_def)
  show ?thesis
  proof (cases "?writes = []")
    case True
    with diff_writes_Nil [OF bm] have same: "?new = ?old" by simp
    from rest True bound now(2) have "store' = store" by (simp split: if_splits)
    with same now(2) run bound show ?thesis by auto
  next
    case False
    with rest bound obtain facts where append: "append_facts ?old ?writes = Ok facts"
      and res: "store' = Some facts" "reducing = r"
      by (auto simp: now(2))
    then obtain ops where ops: "logged_ops ?old ?writes = Ok ops" "facts = fold commit_op ops ?old"
      by (auto simp: append_facts_def)
    have "facts = ?new" if clear: "names_clear after"
    proof -
      have in_rendered: "f \<in> set (rendered hash s)" if "f \<in> snd ` set (render hash s)" for f s
      proof -
        have "snd ` set (fold put_fact fs m) \<subseteq> set fs \<union> snd ` set m" for fs m
        proof (induction fs arbitrary: m)
          case (Cons f fs)
          have "snd ` set (put_fact f m) \<subseteq> insert f (snd ` set m)"
            unfolding put_fact_def using set_bm_insert_subset by fastforce
          with Cons [of "put_fact f m"] show ?case by auto
        qed simp
        from this [of "rendered hash s" "[]"] that show ?thesis by (auto simp: render_def)
      qed
      have same: "same_identity f f'" if "f \<in> snd ` set ?old" "f' \<in> snd ` set ?new" "fact_key f = fact_key f'" for f f'
        using keys_identify [OF assms(1) st(2) clear in_rendered [OF that(1)] in_rendered [OF that(2)] that(3)] .
      then have "\<forall>f \<in> snd ` set ?old. \<forall>f' \<in> snd ` set ?new. fact_key f = fact_key f' \<longrightarrow> same_identity f f'"
        by blast
      from diff_writes_commit [OF keyed this]
      obtain ops' where "logged_ops ?old ?writes = Ok ops'" "fold commit_op ops' ?old = ?new"
        by (elim exE conjE)
      with ops show ?thesis by simp
    qed
    with res have "names_clear after \<longrightarrow> store' = Some ?new" by simp
    with run bound res(2) show ?thesis by (intro exI [of _ after] exI [of _ r] conjI) simp_all
  qed
qed


section \<open>Properties\<close>

text \<open>A digest that separates all tuples: each part is preceded by its length in unary.\<close>

definition frame :: "string list \<Rightarrow> string" where
  "frame parts = concat (map (\<lambda>s. replicate (length s) CHR ''1'' @ CHR ''0'' # s) parts)"

lemma unary_prefix:
  "replicate m CHR ''1'' @ CHR ''0'' # x = replicate n CHR ''1'' @ CHR ''0'' # y \<Longrightarrow> m = n \<and> x = y"
proof (induction m arbitrary: n)
  case 0
  then show ?case by (cases n) simp_all
next
  case (Suc m)
  then show ?case by (cases n) simp_all
qed

lemma inj_frame: "inj frame"
proof (rule injI)
  show "frame xs = frame ys \<Longrightarrow> xs = ys" for xs ys
  proof (induction xs arbitrary: ys)
    case Nil
    then show ?case by (cases ys) (simp_all add: frame_def)
  next
    case (Cons x xs)
    then obtain y ys' where ys: "ys = y # ys'" by (cases ys) (simp_all add: frame_def)
    from Cons.prems have "replicate (length x) CHR ''1'' @ CHR ''0'' # (x @ frame xs)
        = replicate (length y) CHR ''1'' @ CHR ''0'' # (y @ frame ys')"
      by (simp add: frame_def ys)
    from unary_prefix [OF this] have "x = y" "frame xs = frame ys'" by auto
    with Cons.IH ys show ?case by simp
  qed
qed



text \<open>
  Every state can be rendered through what is storable of it: a state that is not is replaced by the
  empty one, which has no facts.
\<close>

definition stored_part :: "(string list \<Rightarrow> string) \<Rightarrow> registry \<Rightarrow> registry" where
  "stored_part hash st = (if storable hash st then st else empty_registry)"

lemma storable_stored_part: "storable hash (stored_part hash st)"
proof -
  have "storable hash empty_registry"
    using base_ok_empty by (simp add: storable_def base_ok_def rendered_def empty_registry_def registry_graphs_def)
  then show ?thesis by (simp add: stored_part_def)
qed

interpretation rendering: registry_rendering hash "stored_part hash st" "rendered hash (stored_part hash st)"
  for hash st
  by unfold_locales (simp_all add: storable_stored_part)

lemma rendered_parses: "storable hash st \<Longrightarrow> parse (rendered hash st) = Ok st"
  using rendering.parse_rendered [of hash st] by (simp add: stored_part_def)



text \<open>A small registry: one administrator, and the ACL of one graph.\<close>

definition small_registry :: registry where
  "small_registry = (case run_changes demo_start [(Grant ''g'' ''alice'' Read, ''alice'', 0)] of
     Inr st \<Rightarrow> st | Inl _ \<Rightarrow> empty_registry)"

definition alice :: host_context where
  "alice = \<lparr>hc_principal = ''alice'', hc_writable_graphs = {}\<rparr>"

lemma reachable_small_registry: "reachable_registry small_registry"
proof (rule run_changes_reachable)
  show "reachable_registry demo_start"
    by (rule reachable_registry.enabled [OF _ _ demo_start_eq])
      (simp_all add: valid_id_def is_engine_name_def starts_with_def)
  have "is_ok (run_changes demo_start [(Grant ''g'' ''alice'' Read, ''alice'', 0)])" by code_simp
  then show "run_changes demo_start [(Grant ''g'' ''alice'' Read, ''alice'', 0)] = Ok small_registry"
    by (cases "run_changes demo_start [(Grant ''g'' ''alice'' Read, ''alice'', 0)]")
      (simp_all add: small_registry_def)
qed

lemma stored_small: "stored frame (Some (render frame small_registry)) small_registry"
proof -
  have "names_clear small_registry" "length (render frame small_registry) \<le> max_registry_records"
    by code_simp+
  from stored_render [OF inj_frame this(1) reachable_registry_ok [OF reachable_small_registry] this(2)]
  show ?thesis .
qed


text \<open>
  A principal's name is not kept apart from the node names of graphs and branches: a user who
  registers an agent under the node name of a graph that has an ACL is told the write succeeded, but
  the graph's node replaces the agent's fact and nothing is stored.
\<close>

definition shadow_change :: registry_change where
  "shadow_change = AddAgent (graph_node frame ''g'') ''alice'' demo_delegation None"

theorem agent_shadowed_by_graph_node:
  "apply_registry frame (Some (render frame small_registry)) 5 [shadow_change] alice
     = Ok (Some (render frame small_registry), False)
   \<and> rbind (run_changes small_registry [(shadow_change, ''alice'', 5)])
        (\<lambda>st'. Ok (known st' (graph_node frame ''g''))) = Ok True"
proof
  show "apply_registry frame (Some (render frame small_registry)) 5 [shadow_change] alice
     = Ok (Some (render frame small_registry), False)" by code_simp
  show "rbind (run_changes small_registry [(shadow_change, ''alice'', 5)])
        (\<lambda>st'. Ok (known st' (graph_node frame ''g''))) = Ok True" by code_simp
qed

end
