(* ===== verification/Hex.thy ===== *)
theory Hex
  imports Weave_Prelude
begin

text \<open>
  Lower-case hexadecimal as \<open>weave-policy\<close> writes and reads it: \<open>hex\<close> and \<open>decode::<N>\<close>. A byte is
  a natural number below 256; \<open>decode\<close> computes in \<open>u8\<close>, and the digits it accepts keep every
  intermediate below 256.
\<close>

definition hex_digit :: "nat \<Rightarrow> char" where
  "hex_digit d = (if d < 10 then char_of (48 + d) else char_of (87 + d))"

definition hex :: "nat list \<Rightarrow> string" where
  "hex bs = concat (map (\<lambda>b. [hex_digit (b div 16), hex_digit (b mod 16)]) bs)"

definition is_hex_digit :: "char \<Rightarrow> bool" where
  "is_hex_digit c \<longleftrightarrow>
     (let b = (of_char c :: nat) in 48 \<le> b \<and> b \<le> 57 \<or> 97 \<le> b \<and> b \<le> 102)"

definition hex_value :: "char \<Rightarrow> nat" where
  "hex_value c = (let b = of_char c in if b \<le> 57 then b - 48 else b - 97 + 10)"

fun hex_pairs :: "string \<Rightarrow> nat list" where
  "hex_pairs (c # d # cs) = (hex_value c * 16 + hex_value d) # hex_pairs cs"
| "hex_pairs _ = []"

definition decode :: "nat \<Rightarrow> string \<Rightarrow> nat list result" where
  "decode n s =
     (if length s \<noteq> n * 2 \<or> \<not> list_all is_hex_digit s then Err E_ENCODING else Ok (hex_pairs s))"

lemma hex_simps [simp]:
  "hex [] = []" "hex (b # bs) = hex_digit (b div 16) # hex_digit (b mod 16) # hex bs"
  by (simp_all add: hex_def)

lemma length_hex [simp]: "length (hex bs) = length bs * 2"
  by (induction bs) simp_all

lemma of_hex_digit: "d < 16 \<Longrightarrow> (of_char (hex_digit d) :: nat) = (if d < 10 then 48 + d else 87 + d)"
  by (simp add: hex_digit_def of_char_of)

lemma hex_digit_ok [simp]:
  assumes "d < 16"
  shows "is_hex_digit (hex_digit d)" "hex_value (hex_digit d) = d"
  using assms by (simp_all add: is_hex_digit_def hex_value_def of_hex_digit Let_def)

lemma hex_value_ok:
  assumes "is_hex_digit c"
  shows "hex_value c < 16" "hex_digit (hex_value c) = c"
proof -
  have range: "48 \<le> (of_char c :: nat) \<and> of_char c \<le> (57 :: nat) \<or> 97 \<le> (of_char c :: nat) \<and> of_char c \<le> (102 :: nat)"
    using assms by (simp add: is_hex_digit_def Let_def)
  then show "hex_value c < 16" by (auto simp: hex_value_def Let_def)
  have "(if hex_value c < 10 then 48 + hex_value c else 87 + hex_value c) = (of_char c :: nat)"
    using range by (auto simp: hex_value_def Let_def)
  then have "hex_digit (hex_value c) = char_of (of_char c :: nat)"
    by (auto simp: hex_digit_def split: if_splits)
  then show "hex_digit (hex_value c) = c" by simp
qed

lemma decode_hex:
  assumes "list_all (\<lambda>b. b < 256) bs"
  shows "decode (length bs) (hex bs) = Ok bs"
proof -
  have "list_all is_hex_digit (hex bs) \<and> hex_pairs (hex bs) = bs"
    using assms
  proof (induction bs)
    case (Cons b bs)
    then have "b div 16 < 16" "b mod 16 < 16" by (simp_all add: less_mult_imp_div_less)
    with Cons show ?case by simp
  qed simp
  then show ?thesis by (simp add: decode_def)
qed

lemma hex_hex_pairs:
  "even (length s) \<Longrightarrow> list_all is_hex_digit s \<Longrightarrow>
     hex (hex_pairs s) = s \<and> list_all (\<lambda>b. b < 256) (hex_pairs s)"
proof (induction s rule: hex_pairs.induct)
  case (1 c d cs)
  then have c: "is_hex_digit c" "is_hex_digit d" by simp_all
  let ?n = "hex_value c * 16 + hex_value d"
  have "hex_value c < 16" "hex_value d < 16" using c hex_value_ok by blast+
  then have "?n div 16 = hex_value c" "?n mod 16 = hex_value d" "?n < 256" by simp_all
  with 1 c show ?case by (simp add: hex_value_ok)
qed simp_all

lemma decode_Ok:
  "decode n s = Ok bs \<longleftrightarrow> length bs = n \<and> list_all (\<lambda>b. b < 256) bs \<and> s = hex bs"
proof
  assume "decode n s = Ok bs"
  then have s: "length s = n * 2" "list_all is_hex_digit s" "bs = hex_pairs s"
    by (auto simp: decode_def split: if_splits)
  then have "hex bs = s" "list_all (\<lambda>b. b < 256) bs" using hex_hex_pairs [of s] by simp_all
  moreover from this(1) s(1) have "length bs = n" by (metis length_hex mult_right_cancel zero_neq_numeral)
  ultimately show "length bs = n \<and> list_all (\<lambda>b. b < 256) bs \<and> s = hex bs" by simp
next
  assume "length bs = n \<and> list_all (\<lambda>b. b < 256) bs \<and> s = hex bs"
  then show "decode n s = Ok bs" using decode_hex by blast
qed

end
