(* ===== verification/Policy.thy ===== *)
theory Policy
  imports Hex
begin

text \<open>
  The capability evidence of \<open>weave-policy\<close>: signed capabilities, the chain check
  \<open>verify_request\<close>, and the boundary check of a verified request. The cryptography (Ed25519 key
  decoding, strict signature verification, signing, SHA-256) and serde's JSON encodings of the
  records are the fields of \<open>crypto\<close>.
\<close>

section \<open>Data\<close>

datatype (plugins only: code size) action = Discover | Read | Traverse | Propose | Publish | Delegate

record scope =
  sc_graph_id :: string
  sc_branch_id :: string
  sc_actions :: "action list"

record capability =
  cp_version :: string
  cp_issuer :: string
  cp_subject :: string
  cp_audience :: string
  cp_policy_revision :: string
  cp_scopes :: "scope list"
  cp_not_before_ms :: int
  cp_expires_at_ms :: int
  cp_delegations_remaining :: nat
  cp_parent :: "string option"

record signed_capability =
  sg_capability :: capability
  sg_signature :: string

record operation =
  op_action :: action
  op_graph_id :: string
  op_branch_id :: string

record request =
  rq_version :: string
  rq_subject :: string
  rq_audience :: string
  rq_capability_id :: string
  rq_nonce :: string
  rq_issued_at_ms :: int
  rq_expires_at_ms :: int
  rq_operation :: operation
  rq_body_digest :: string

record signed_request =
  sr_request :: request
  sr_signature :: string

record admission_proof =
  pf_chain :: "signed_capability list"
  pf_request :: signed_request

record root_authority =
  ra_issuer :: string
  ra_audience :: string
  ra_policy_revision :: string
  ra_scopes :: "scope list"
  ra_not_before_ms :: int
  ra_expires_at_ms :: int
  ra_max_delegations :: nat

record admission_context =
  ac_audience :: string
  ac_now_ms :: int
  ac_policy_epoch :: string
  ac_roots :: "root_authority list"
  ac_revoked_capabilities :: "string set"
  ac_revoked_keys :: "string set"
  ac_consumed_nonces :: "string set"

record verified_request =
  vr_principal :: string
  vr_operation :: operation
  vr_body_digest :: string
  vr_audience :: string
  vr_capability_id :: string
  vr_replay_id :: string
  vr_policy_epoch :: string
  vr_issued_at_ms :: int
  vr_expires_at_ms :: int

text \<open>
  The libraries: \<open>point_ok\<close> and \<open>weak\<close> are \<open>VerifyingKey::from_bytes\<close> and \<open>is_weak\<close>, \<open>strict\<close> is
  \<open>verify_strict\<close>, and the encodings are serde's.
\<close>

record crypto =
  point_ok :: "nat list \<Rightarrow> bool"
  weak :: "nat list \<Rightarrow> bool"
  strict :: "nat list \<Rightarrow> string \<Rightarrow> nat list \<Rightarrow> bool"
  sha256 :: "string \<Rightarrow> nat list"
  enc_capability :: "capability \<Rightarrow> string"
  enc_token :: "signed_capability \<Rightarrow> string"
  enc_request :: "request \<Rightarrow> string"
  enc_proof :: "admission_proof \<Rightarrow> string"
  enc_nonce :: "string \<times> string \<times> string \<Rightarrow> string"

section \<open>Encodings and signatures\<close>

definition max_bytes :: nat where
  "max_bytes = 64 * 1024"

definition max_chain :: nat where
  "max_chain = 8"

definition capability_version :: string where
  "capability_version = ''weave-capability-0.1''"

definition request_version :: string where
  "request_version = ''weave-request-0.1''"

definition bounded_encoding :: "string \<Rightarrow> unit result" where
  "bounded_encoding text = ensure (length text \<le> max_bytes) E_PROOF_BUDGET"

text \<open>The bytes that are signed or hashed: the JSON pair of the domain and the encoded value.\<close>

definition domain_bytes :: "string \<Rightarrow> string \<Rightarrow> string result" where
  "domain_bytes domain text =
     rbind (bounded_encoding text) (\<lambda>_.
       Ok (''['' @ [CHR 0x22] @ domain @ [CHR 0x22] @ '','' @ text @ '']''))"

definition key_prefix :: string where
  "key_prefix = ''ed25519:''"

definition verifying_key :: "crypto \<Rightarrow> string \<Rightarrow> nat list result" where
  "verifying_key cr key =
     rbind (ensure (starts_with key key_prefix) E_KEY) (\<lambda>_.
     rbind (decode 32 (drop (length key_prefix) key)) (\<lambda>raw.
     rbind (ensure (point_ok cr raw) E_KEY) (\<lambda>_.
     rbind (ensure (\<not> weak cr raw) E_KEY) (\<lambda>_. Ok raw))))"

definition verify_signature :: "crypto \<Rightarrow> string \<Rightarrow> string \<Rightarrow> string \<Rightarrow> string \<Rightarrow> unit result" where
  "verify_signature cr key signature domain text =
     rbind (decode 64 signature) (\<lambda>sig.
     rbind (verifying_key cr key) (\<lambda>raw.
     rbind (domain_bytes domain text) (\<lambda>msg.
       ensure (strict cr raw msg sig) E_SIGNATURE)))"

definition body_digest :: "crypto \<Rightarrow> string \<Rightarrow> string" where
  "body_digest cr body = ''sha256:'' @ hex (sha256 cr body)"

definition capability_id :: "crypto \<Rightarrow> signed_capability \<Rightarrow> string result" where
  "capability_id cr token =
     rbind (domain_bytes ''weave-capability-id-v0.1'' (enc_token cr token)) (\<lambda>msg.
       Ok (''cap:'' @ hex (sha256 cr msg)))"

definition replay_id :: "crypto \<Rightarrow> request \<Rightarrow> string result" where
  "replay_id cr rq =
     rbind (domain_bytes ''weave-request-nonce-v0.1''
        (enc_nonce cr (rq_subject rq, rq_audience rq, rq_nonce rq))) (\<lambda>msg.
       Ok (''nonce:'' @ hex (sha256 cr msg)))"

text \<open>Signing, with the key as its public bytes and its signing function.\<close>

definition public_key :: "nat list \<Rightarrow> string" where
  "public_key raw = key_prefix @ hex raw"

definition sign_capability ::
  "crypto \<Rightarrow> capability \<Rightarrow> nat list \<times> (string \<Rightarrow> nat list) \<Rightarrow> signed_capability result" where
  "sign_capability cr c key =
     rbind (ensure (cp_issuer c = public_key (fst key)) E_KEY) (\<lambda>_.
     rbind (domain_bytes ''weave-capability-signature-v0.1'' (enc_capability cr c)) (\<lambda>msg.
       Ok \<lparr>sg_capability = c, sg_signature = hex (snd key msg)\<rparr>))"

definition sign_request ::
  "crypto \<Rightarrow> request \<Rightarrow> nat list \<times> (string \<Rightarrow> nat list) \<Rightarrow> signed_request result" where
  "sign_request cr r key =
     rbind (ensure (rq_subject r = public_key (fst key)) E_KEY) (\<lambda>_.
     rbind (domain_bytes ''weave-request-signature-v0.1'' (enc_request cr r)) (\<lambda>msg.
       Ok \<lparr>sr_request = r, sr_signature = hex (snd key msg)\<rparr>))"

section \<open>Checks\<close>

definition policy_id :: "string \<Rightarrow> bool" where
  "policy_id s \<longleftrightarrow> s \<noteq> [] \<and> length s \<le> 256 \<and> \<not> has_control s"

definition valid_scopes :: "scope list \<Rightarrow> bool" where
  "valid_scopes scopes \<longleftrightarrow>
     scopes \<noteq> [] \<and> length scopes \<le> 64
     \<and> list_all (\<lambda>s. policy_id (sc_graph_id s) \<and> policy_id (sc_branch_id s) \<and> sc_actions s \<noteq> []) scopes
     \<and> strictly_increasing (map (\<lambda>s. (sc_graph_id s, sc_branch_id s)) scopes)"

definition attenuates :: "scope list \<Rightarrow> scope list \<Rightarrow> bool \<Rightarrow> bool" where
  "attenuates child parent delegating \<longleftrightarrow>
     list_all (\<lambda>c. list_ex (\<lambda>p.
       sc_graph_id p = sc_graph_id c \<and> sc_branch_id p = sc_branch_id c
       \<and> list_all (\<lambda>a. a \<in> set (sc_actions p)) (sc_actions c)
       \<and> (\<not> delegating \<or> Delegate \<in> set (sc_actions p))) parent) child"

definition window_active :: "int \<Rightarrow> int \<Rightarrow> int \<Rightarrow> bool" where
  "window_active start end_ms now \<longleftrightarrow> 0 \<le> start \<and> start < end_ms \<and> start \<le> now \<and> now < end_ms"

definition scope_covers :: "operation \<Rightarrow> scope \<Rightarrow> bool" where
  "scope_covers oper s \<longleftrightarrow>
     sc_graph_id s = op_graph_id oper \<and> sc_branch_id s = op_branch_id oper
     \<and> op_action oper \<in> set (sc_actions s)"

definition root_authorizes :: "admission_context \<Rightarrow> capability \<Rightarrow> root_authority \<Rightarrow> bool" where
  "root_authorizes ctx c r \<longleftrightarrow>
     ra_issuer r = cp_issuer c \<and> ra_audience r = cp_audience c
     \<and> ra_policy_revision r = cp_policy_revision c \<and> valid_scopes (ra_scopes r)
     \<and> window_active (ra_not_before_ms r) (ra_expires_at_ms r) (ac_now_ms ctx)
     \<and> ra_not_before_ms r \<le> cp_not_before_ms c \<and> cp_expires_at_ms c \<le> ra_expires_at_ms r
     \<and> cp_delegations_remaining c \<le> ra_max_delegations r
     \<and> attenuates (cp_scopes c) (ra_scopes r) False"

text \<open>How a token follows the previous one of the chain, or starts it under a root.\<close>

definition check_link ::
  "admission_context \<Rightarrow> (capability \<times> string) option \<Rightarrow> capability \<Rightarrow> unit result" where
  "check_link ctx previous c =
     (case previous of
        Some (parent, parent_id) \<Rightarrow>
          ensure (cp_parent c = Some parent_id \<and> cp_issuer c = cp_subject parent
            \<and> cp_policy_revision c = cp_policy_revision parent
            \<and> cp_not_before_ms parent \<le> cp_not_before_ms c
            \<and> cp_expires_at_ms c \<le> cp_expires_at_ms parent
            \<and> cp_delegations_remaining c < cp_delegations_remaining parent
            \<and> attenuates (cp_scopes c) (cp_scopes parent) True) E_ATTENUATION
      | None \<Rightarrow>
          rbind (ensure (cp_parent c = None) E_CHAIN) (\<lambda>_.
            ensure (list_ex (root_authorizes ctx c) (ac_roots ctx)) E_TRUST_ROOT))"

text \<open>One turn of the chain loop: the previous capability with its id, and the ids seen.\<close>

type_synonym chain_state = "(capability \<times> string) option \<times> string list"

definition verify_token ::
  "crypto \<Rightarrow> admission_context \<Rightarrow> chain_state \<Rightarrow> signed_capability \<Rightarrow> chain_state result" where
  "verify_token cr ctx state token =
     (case state of (previous, ids) \<Rightarrow>
        let c = sg_capability token in
        rbind (ensure (cp_version c = capability_version \<and> valid_scopes (cp_scopes c)
          \<and> policy_id (cp_policy_revision c) \<and> cp_delegations_remaining c < max_chain) E_CAPABILITY) (\<lambda>_.
        rbind (ensure (cp_audience c = ac_audience ctx) E_AUDIENCE) (\<lambda>_.
        rbind (ensure (window_active (cp_not_before_ms c) (cp_expires_at_ms c) (ac_now_ms ctx)) E_EXPIRED) (\<lambda>_.
        rbind (verifying_key cr (cp_subject c)) (\<lambda>_.
        rbind (ensure (cp_issuer c \<notin> ac_revoked_keys ctx \<and> cp_subject c \<notin> ac_revoked_keys ctx) E_REVOKED) (\<lambda>_.
        rbind (verify_signature cr (cp_issuer c) (sg_signature token)
                 ''weave-capability-signature-v0.1'' (enc_capability cr c)) (\<lambda>_.
        rbind (capability_id cr token) (\<lambda>i.
        rbind (ensure (i \<notin> set ids) E_CHAIN) (\<lambda>_.
        rbind (ensure (i \<notin> ac_revoked_capabilities ctx) E_REVOKED) (\<lambda>_.
        rbind (check_link ctx previous c) (\<lambda>_. Ok (Some (c, i), i # ids))))))))))))"

definition verify_request ::
  "crypto \<Rightarrow> admission_proof \<Rightarrow> string \<Rightarrow> operation \<Rightarrow> admission_context \<Rightarrow> verified_request result" where
  "verify_request cr proof body expected ctx =
     rbind (bounded_encoding (enc_proof cr proof)) (\<lambda>_.
     rbind (ensure (pf_chain proof \<noteq> [] \<and> length (pf_chain proof) \<le> max_chain) E_CHAIN) (\<lambda>_.
     rbind (ensure (0 \<le> ac_now_ms ctx \<and> policy_id (ac_audience ctx) \<and> policy_id (ac_policy_epoch ctx))
              E_HOST_CONTEXT) (\<lambda>_.
     rbind (try_fold (verify_token cr ctx) (None, []) (pf_chain proof)) (\<lambda>(previous, _).
     rbind (ok_or previous E_CHAIN) (\<lambda>(leaf, leaf_id).
       let rq = sr_request (pf_request proof) in
       rbind (ensure (rq_version rq = request_version \<and> rq_subject rq = cp_subject leaf
                \<and> rq_capability_id rq = leaf_id) E_REQUEST) (\<lambda>_.
       rbind (ensure (rq_audience rq = ac_audience ctx) E_AUDIENCE) (\<lambda>_.
       rbind (ensure (window_active (rq_issued_at_ms rq) (rq_expires_at_ms rq) (ac_now_ms ctx)
                \<and> cp_not_before_ms leaf \<le> rq_issued_at_ms rq \<and> rq_expires_at_ms rq \<le> cp_expires_at_ms leaf
                \<and> rq_expires_at_ms rq - rq_issued_at_ms rq \<le> 300000) E_EXPIRED) (\<lambda>_.
       rbind (decode 32 (rq_nonce rq)) (\<lambda>_.
       rbind (ensure (rq_operation rq = expected \<and> rq_body_digest rq = body_digest cr body)
                E_REQUEST_BINDING) (\<lambda>_.
       rbind (ensure (list_ex (scope_covers (rq_operation rq)) (cp_scopes leaf)) E_SCOPE) (\<lambda>_.
       rbind (verify_signature cr (rq_subject rq) (sr_signature (pf_request proof))
                ''weave-request-signature-v0.1'' (enc_request cr rq)) (\<lambda>_.
       rbind (replay_id cr rq) (\<lambda>replay.
       rbind (ensure (replay \<notin> ac_consumed_nonces ctx) E_REPLAY) (\<lambda>_.
         Ok \<lparr>vr_principal = cp_subject leaf, vr_operation = rq_operation rq,
             vr_body_digest = rq_body_digest rq, vr_audience = rq_audience rq,
             vr_capability_id = leaf_id, vr_replay_id = replay, vr_policy_epoch = ac_policy_epoch ctx,
             vr_issued_at_ms = rq_issued_at_ms rq, vr_expires_at_ms = rq_expires_at_ms rq\<rparr>))))))))))))))"

definition check_boundary ::
  "crypto \<Rightarrow> verified_request \<Rightarrow> string \<Rightarrow> operation \<Rightarrow> admission_context \<Rightarrow> unit result" where
  "check_boundary cr v body oper ctx =
     rbind (ensure (vr_body_digest v = body_digest cr body \<and> vr_operation v = oper) E_REQUEST_BINDING) (\<lambda>_.
     rbind (ensure (vr_audience v = ac_audience ctx) E_AUDIENCE) (\<lambda>_.
     rbind (ensure (vr_policy_epoch v = ac_policy_epoch ctx) E_POLICY_CHANGED) (\<lambda>_.
     rbind (ensure (vr_issued_at_ms v \<le> ac_now_ms ctx \<and> ac_now_ms ctx < vr_expires_at_ms v) E_EXPIRED) (\<lambda>_.
       ensure (vr_replay_id v \<notin> ac_consumed_nonces ctx) E_REPLAY))))"

end
