(* ===== verification/Policy_Theorems.thy ===== *)
theory Policy_Theorems
  imports Policy "HOL-Library.Code_Target_Numeral"
begin

text \<open>
  What an accepted admission proof guarantees: confinement to every capability of the chain and to
  the host's root, authenticity of every token, and one use per nonce.
\<close>

section \<open>The chain\<close>

text \<open>What the loop establishes of one token, apart from its link to the previous one.\<close>

definition token_ok :: "crypto \<Rightarrow> admission_context \<Rightarrow> signed_capability \<Rightarrow> bool" where
  "token_ok cr ctx t \<longleftrightarrow>
     (let c = sg_capability t in
        cp_audience c = ac_audience ctx
        \<and> window_active (cp_not_before_ms c) (cp_expires_at_ms c) (ac_now_ms ctx)
        \<and> cp_issuer c \<notin> ac_revoked_keys ctx \<and> cp_subject c \<notin> ac_revoked_keys ctx
        \<and> verify_signature cr (cp_issuer c) (sg_signature t) ''weave-capability-signature-v0.1''
             (enc_capability cr c) = Ok ()
        \<and> (\<exists>i. capability_id cr t = Ok i \<and> i \<notin> ac_revoked_capabilities ctx))"

definition delegated :: "capability \<Rightarrow> capability \<Rightarrow> bool" where
  "delegated parent c \<longleftrightarrow>
     cp_issuer c = cp_subject parent \<and> cp_policy_revision c = cp_policy_revision parent
     \<and> cp_not_before_ms parent \<le> cp_not_before_ms c \<and> cp_expires_at_ms c \<le> cp_expires_at_ms parent
     \<and> cp_delegations_remaining c < cp_delegations_remaining parent
     \<and> attenuates (cp_scopes c) (cp_scopes parent) True"

fun linked :: "capability \<Rightarrow> capability list \<Rightarrow> bool" where
  "linked p [] = True"
| "linked p (c # cs) = (delegated p c \<and> linked c cs)"

lemma verify_token_Ok:
  assumes "verify_token cr ctx (previous, ids) t = Ok s"
  shows "\<exists>i. s = (Some (sg_capability t, i), i # ids) \<and> token_ok cr ctx t
     \<and> check_link ctx previous (sg_capability t) = Ok ()
     \<and> cp_delegations_remaining (sg_capability t) < max_chain"
  using assms by (auto simp: verify_token_def token_ok_def Let_def)

lemma check_link_Some:
  "check_link ctx (Some (parent, pid)) c = Ok () \<longleftrightarrow> cp_parent c = Some pid \<and> delegated parent c"
  by (auto simp: check_link_def delegated_def)

lemma check_link_None:
  "check_link ctx None c = Ok () \<longleftrightarrow> cp_parent c = None \<and> (\<exists>r \<in> set (ac_roots ctx). root_authorizes ctx c r)"
  by (auto simp: check_link_def list_ex_iff)

lemma chain_run:
  assumes "try_fold (verify_token cr ctx) (Some (c0, i0), ids) ts = Ok (previous, ids')"
  shows "map_option fst previous = Some (last (c0 # map sg_capability ts))
     \<and> linked c0 (map sg_capability ts) \<and> list_all (token_ok cr ctx) ts"
  using assms
proof (induction ts arbitrary: c0 i0 ids)
  case Nil
  then show ?case by auto
next
  case (Cons t ts)
  from Cons.prems obtain s where step: "verify_token cr ctx (Some (c0, i0), ids) t = Ok s"
    and rest: "try_fold (verify_token cr ctx) s ts = Ok (previous, ids')" by auto
  from verify_token_Ok [OF step] obtain i where s: "s = (Some (sg_capability t, i), i # ids)"
    and t: "token_ok cr ctx t" "delegated c0 (sg_capability t)"
    by (auto simp: check_link_Some)
  from Cons.IH [OF rest [unfolded s]] t show ?case by simp
qed

section \<open>Attenuation\<close>

definition permits :: "scope list \<Rightarrow> operation \<Rightarrow> bool" where
  "permits scopes oper \<longleftrightarrow> list_ex (scope_covers oper) scopes"

definition delegate_of :: "operation \<Rightarrow> operation" where
  "delegate_of oper = oper\<lparr>op_action := Delegate\<rparr>"

lemma attenuates_permits:
  assumes "attenuates child parent d" and "permits child oper"
  shows "permits parent oper" and "d \<Longrightarrow> permits parent (delegate_of oper)"
  using assms by (fastforce simp: attenuates_def permits_def list_all_iff list_ex_iff scope_covers_def
      delegate_of_def)+

lemma linked_permits:
  assumes "linked c0 cs" and "permits (cp_scopes (last (c0 # cs))) oper"
  shows "\<forall>c \<in> set (c0 # cs). permits (cp_scopes c) oper"
    and "\<forall>c \<in> set (butlast (c0 # cs)). permits (cp_scopes c) (delegate_of oper)"
  using assms
proof (induction cs arbitrary: c0)
  case (Cons c cs)
  {
    case 1
    then have step: "attenuates (cp_scopes c) (cp_scopes c0) True" and rest: "linked c cs"
      "permits (cp_scopes (last (c # cs))) oper" by (simp_all add: delegated_def)
    from Cons.IH(1) [OF rest] attenuates_permits(1) [OF step] show ?case by simp
  next
    case 2
    then have step: "attenuates (cp_scopes c) (cp_scopes c0) True" and rest: "linked c cs"
      "permits (cp_scopes (last (c # cs))) oper" by (simp_all add: delegated_def)
    from Cons.IH(1) [OF rest] have "permits (cp_scopes c) oper" by simp
    with Cons.IH(2) [OF rest] attenuates_permits(2) [OF step] show ?case by simp
  }
qed simp_all

lemma linked_length:
  "linked c0 cs \<Longrightarrow> length cs + cp_delegations_remaining (last (c0 # cs)) \<le> cp_delegations_remaining c0"
proof (induction cs arbitrary: c0)
  case (Cons c cs)
  then have "length cs + cp_delegations_remaining (last (c # cs)) \<le> cp_delegations_remaining c"
    "cp_delegations_remaining c < cp_delegations_remaining c0" by (simp_all add: delegated_def)
  then show ?case by simp
qed simp

lemma linked_windows:
  "linked c0 cs \<Longrightarrow> c \<in> set (c0 # cs) \<Longrightarrow>
     cp_not_before_ms c \<le> cp_not_before_ms (last (c0 # cs)) \<and> cp_expires_at_ms (last (c0 # cs)) \<le> cp_expires_at_ms c"
proof (induction cs arbitrary: c0 c)
  case (Cons d cs)
  from Cons.prems(1) have d: "delegated c0 d" "linked d cs" by simp_all
  show ?case
  proof (cases "c = c0")
    case True
    with Cons.IH [OF d(2), of d] d(1) show ?thesis by (auto simp: delegated_def)
  next
    case False
    with Cons.prems(2) Cons.IH [OF d(2), of c] show ?thesis by auto
  qed
qed simp

section \<open>The accepted request\<close>

lemma verify_request_chain:
  assumes "verify_request cr proof body expected ctx = Ok v"
  obtains t ts where "pf_chain proof = t # ts" "linked (sg_capability t) (map sg_capability ts)"
    "list_all (token_ok cr ctx) (pf_chain proof)"
    "\<exists>r \<in> set (ac_roots ctx). root_authorizes ctx (sg_capability t) r"
    "vr_principal v = cp_subject (last (map sg_capability (pf_chain proof)))"
    "permits (cp_scopes (last (map sg_capability (pf_chain proof)))) (vr_operation v)"
    "cp_not_before_ms (last (map sg_capability (pf_chain proof))) \<le> vr_issued_at_ms v"
    "vr_expires_at_ms v \<le> cp_expires_at_ms (last (map sg_capability (pf_chain proof)))"
proof -
  from assms obtain leaf leaf_id ids where
    run: "try_fold (verify_token cr ctx) (None, []) (pf_chain proof) = Ok (Some (leaf, leaf_id), ids)"
    and nonempty: "pf_chain proof \<noteq> []"
    and v: "vr_principal v = cp_subject leaf" "permits (cp_scopes leaf) (vr_operation v)"
      "cp_not_before_ms leaf \<le> vr_issued_at_ms v" "vr_expires_at_ms v \<le> cp_expires_at_ms leaf"
    by (auto simp: verify_request_def Let_def ok_or_def permits_def split: option.splits)
  from nonempty obtain t ts where chain: "pf_chain proof = t # ts" by (cases "pf_chain proof") auto
  from run [unfolded chain] obtain s where step: "verify_token cr ctx (None, []) t = Ok s"
    and rest: "try_fold (verify_token cr ctx) s ts = Ok (Some (leaf, leaf_id), ids)" by auto
  from verify_token_Ok [OF step] obtain i where s: "s = (Some (sg_capability t, i), [i])"
    and t: "token_ok cr ctx t" "\<exists>r \<in> set (ac_roots ctx). root_authorizes ctx (sg_capability t) r"
    by (auto simp: check_link_None)
  from chain_run [OF rest [unfolded s]] t v show thesis
    by (intro that [OF chain]) (simp_all add: chain)
qed



text \<open>A small instance: a transparent digest, and a signature that repeats the key.\<close>

definition demo_crypto :: crypto where
  "demo_crypto = \<lparr>point_ok = (\<lambda>k. length k = 32), weak = (\<lambda>k. k = replicate 32 0),
     strict = (\<lambda>k m s. s = k @ k), sha256 = (\<lambda>m. replicate 31 0 @ [length m mod 256]),
     enc_capability = cp_subject, enc_token = (\<lambda>t. cp_issuer (sg_capability t) @ replicate
       (cp_delegations_remaining (sg_capability t)) CHR ''d''),
     enc_request = rq_nonce, enc_proof = (\<lambda>p. rq_nonce (sr_request (pf_request p))),
     enc_nonce = (\<lambda>(s, a, n). n)\<rparr>"

definition demo_key :: "nat \<Rightarrow> nat list" where
  "demo_key n = replicate 32 n"

definition demo_operation :: operation where
  "demo_operation = \<lparr>op_action = Read, op_graph_id = ''g'', op_branch_id = ''main''\<rparr>"

definition demo_scopes :: "action list \<Rightarrow> scope list" where
  "demo_scopes actions = [\<lparr>sc_graph_id = ''g'', sc_branch_id = ''main'', sc_actions = actions\<rparr>]"

definition demo_root :: root_authority where
  "demo_root = \<lparr>ra_issuer = public_key (demo_key 1), ra_audience = ''host'', ra_policy_revision = ''p1'',
     ra_scopes = demo_scopes [Read, Publish, Delegate], ra_not_before_ms = 0, ra_expires_at_ms = 1000,
     ra_max_delegations = 1\<rparr>"

definition demo_context :: admission_context where
  "demo_context = \<lparr>ac_audience = ''host'', ac_now_ms = 50, ac_policy_epoch = ''e1'', ac_roots = [demo_root],
     ac_revoked_capabilities = {}, ac_revoked_keys = {}, ac_consumed_nonces = {}\<rparr>"

definition demo_token :: "nat \<Rightarrow> action list \<Rightarrow> nat \<Rightarrow> string option \<Rightarrow> signed_capability" where
  "demo_token n actions remaining parent = \<lparr>sg_capability = \<lparr>cp_version = capability_version,
     cp_issuer = public_key (demo_key n), cp_subject = public_key (demo_key (Suc n)), cp_audience = ''host'',
     cp_policy_revision = ''p1'', cp_scopes = demo_scopes actions, cp_not_before_ms = 10,
     cp_expires_at_ms = 900, cp_delegations_remaining = remaining, cp_parent = parent\<rparr>,
     sg_signature = hex (demo_key n @ demo_key n)\<rparr>"

definition token_id :: "signed_capability \<Rightarrow> string" where
  "token_id t = (case capability_id demo_crypto t of Inr i \<Rightarrow> i | Inl _ \<Rightarrow> [])"

definition demo_proof :: admission_proof where
  "demo_proof = (let first = demo_token 1 [Read, Delegate] 1 None;
       leaf = demo_token 2 [Read] 0 (Some (token_id first)) in
     \<lparr>pf_chain = [first, leaf], pf_request = \<lparr>sr_request = \<lparr>rq_version = request_version,
       rq_subject = public_key (demo_key 3), rq_audience = ''host'', rq_capability_id = token_id leaf,
       rq_nonce = hex (demo_key 9), rq_issued_at_ms = 40, rq_expires_at_ms = 60,
       rq_operation = demo_operation, rq_body_digest = body_digest demo_crypto ''body''\<rparr>,
       sr_signature = hex (demo_key 3 @ demo_key 3)\<rparr>\<rparr>)"

lemma demo_admitted:
  obtains v where "verify_request demo_crypto demo_proof ''body'' demo_operation demo_context = Ok v"
proof -
  have "is_ok (verify_request demo_crypto demo_proof ''body'' demo_operation demo_context)" by code_simp
  then show thesis
    by (cases "verify_request demo_crypto demo_proof ''body'' demo_operation demo_context") (simp_all add: that)
qed


fun signed_by :: "crypto \<Rightarrow> string \<Rightarrow> signed_capability list \<Rightarrow> bool" where
  "signed_by cr key [] = True"
| "signed_by cr key (t # ts) =
     (verify_signature cr key (sg_signature t) ''weave-capability-signature-v0.1''
        (enc_capability cr (sg_capability t)) = Ok () \<and> signed_by cr (cp_subject (sg_capability t)) ts)"

lemma linked_signed:
  "linked (sg_capability t) (map sg_capability ts) \<Longrightarrow> list_all (token_ok cr ctx) (t # ts) \<Longrightarrow>
     signed_by cr (cp_issuer (sg_capability t)) (t # ts)"
proof (induction ts arbitrary: t)
  case (Cons u ts)
  from Cons.prems have "signed_by cr (cp_issuer (sg_capability u)) (u # ts)" by (intro Cons.IH) simp_all
  with Cons.prems show ?case by (simp add: delegated_def token_ok_def Let_def)
qed (simp add: token_ok_def Let_def)

text \<open>
  C11: an admitted request is authentic from the host's root to its sender: the first capability is
  signed by a root's key, each further one by the subject of the one before it, the request by the
  last subject; no key or capability involved is revoked, all are meant for this host, and the body
  is the one that was signed for.
\<close>

theorem admission_authentic:
  assumes "verify_request cr proof body expected ctx = Ok v"
  shows "\<exists>r \<in> set (ac_roots ctx). signed_by cr (ra_issuer r) (pf_chain proof)
     \<and> verify_signature cr (vr_principal v) (sr_signature (pf_request proof))
          ''weave-request-signature-v0.1'' (enc_request cr (sr_request (pf_request proof))) = Ok ()
     \<and> vr_body_digest v = body_digest cr body
     \<and> (\<forall>t \<in> set (pf_chain proof). cp_audience (sg_capability t) = ac_audience ctx
          \<and> {cp_issuer (sg_capability t), cp_subject (sg_capability t)} \<inter> ac_revoked_keys ctx = {}
          \<and> (\<exists>i. capability_id cr t = Ok i \<and> i \<notin> ac_revoked_capabilities ctx))"
proof -
  from assms obtain t ts where chain: "pf_chain proof = t # ts"
    and linked: "linked (sg_capability t) (map sg_capability ts)"
    and tokens: "list_all (token_ok cr ctx) (pf_chain proof)"
    and root: "\<exists>r \<in> set (ac_roots ctx). root_authorizes ctx (sg_capability t) r"
    by (rule verify_request_chain)
  from root obtain r where r: "r \<in> set (ac_roots ctx)" "ra_issuer r = cp_issuer (sg_capability t)"
    by (auto simp: root_authorizes_def)
  have signed: "signed_by cr (ra_issuer r) (pf_chain proof)"
    using linked_signed [OF linked] tokens r(2) by (simp add: chain)
  have request: "verify_signature cr (vr_principal v) (sr_signature (pf_request proof))
      ''weave-request-signature-v0.1'' (enc_request cr (sr_request (pf_request proof))) = Ok ()"
    and body: "vr_body_digest v = body_digest cr body"
    using assms by (auto simp: verify_request_def Let_def)
  have each: "\<forall>t \<in> set (pf_chain proof). cp_audience (sg_capability t) = ac_audience ctx
      \<and> {cp_issuer (sg_capability t), cp_subject (sg_capability t)} \<inter> ac_revoked_keys ctx = {}
      \<and> (\<exists>i. capability_id cr t = Ok i \<and> i \<notin> ac_revoked_capabilities ctx)"
    using tokens by (auto simp: list_all_iff token_ok_def Let_def)
  show ?thesis by (intro bexI [OF _ r(1)] conjI signed request body each)
qed

theorem admission_authentic_witness:
  "signed_by demo_crypto (public_key (demo_key 1)) (pf_chain demo_proof)"
proof -
  obtain v where v: "verify_request demo_crypto demo_proof ''body'' demo_operation demo_context = Ok v"
    by (rule demo_admitted)
  from admission_authentic [OF v] show ?thesis by (simp add: demo_context_def demo_root_def)
qed

text \<open>
  C12: a nonce admits once. A verified request passes the boundary check under the context that
  verified it; once the host has recorded its replay identifier, the boundary refuses it, and no
  proof by the same subject for the same audience with that nonce is verified again, whatever its
  body, capability chain or operation.
\<close>

theorem nonce_admits_once:
  assumes "verify_request cr proof body expected ctx = Ok v"
  shows "check_boundary cr v body expected ctx = Ok ()
     \<and> (\<forall>ctx'. vr_replay_id v \<in> ac_consumed_nonces ctx' \<longrightarrow>
          check_boundary cr v body expected ctx' \<noteq> Ok ()
          \<and> (\<forall>proof' body' expected' v'.
               rq_subject (sr_request (pf_request proof')) = rq_subject (sr_request (pf_request proof)) \<longrightarrow>
               rq_audience (sr_request (pf_request proof')) = rq_audience (sr_request (pf_request proof)) \<longrightarrow>
               rq_nonce (sr_request (pf_request proof')) = rq_nonce (sr_request (pf_request proof)) \<longrightarrow>
               verify_request cr proof' body' expected' ctx' \<noteq> Ok v'))"
proof -
  have replay: "replay_id cr (sr_request (pf_request proof)) = Ok (vr_replay_id v)"
    using assms by (auto simp: verify_request_def Let_def)
  have fresh: "replay_id cr (sr_request (pf_request proof')) = Ok (vr_replay_id v')
      \<and> vr_replay_id v' \<notin> ac_consumed_nonces ctx'"
    if "verify_request cr proof' body' expected' ctx' = Ok v'" for proof' body' expected' ctx' v'
    using that by (auto simp: verify_request_def Let_def)
  have "check_boundary cr v body expected ctx = Ok ()"
    using assms by (auto simp: verify_request_def check_boundary_def Let_def window_active_def)
  moreover have "check_boundary cr v body expected ctx' \<noteq> Ok ()"
    if "vr_replay_id v \<in> ac_consumed_nonces ctx'" for ctx'
    using that by (auto simp: check_boundary_def)
  moreover have "verify_request cr proof' body' expected' ctx' \<noteq> Ok v'"
    if spent: "vr_replay_id v \<in> ac_consumed_nonces ctx'"
      and same: "rq_subject (sr_request (pf_request proof')) = rq_subject (sr_request (pf_request proof))"
        "rq_audience (sr_request (pf_request proof')) = rq_audience (sr_request (pf_request proof))"
        "rq_nonce (sr_request (pf_request proof')) = rq_nonce (sr_request (pf_request proof))"
    for ctx' proof' body' expected' v'
  proof
    assume "verify_request cr proof' body' expected' ctx' = Ok v'"
    note fresh = fresh [OF this]
    have "replay_id cr (sr_request (pf_request proof')) = replay_id cr (sr_request (pf_request proof))"
      unfolding replay_id_def same ..
    with fresh replay have "vr_replay_id v' = vr_replay_id v" by simp
    with fresh spent show False by simp
  qed
  ultimately show ?thesis by blast
qed

theorem nonce_admits_once_witness:
  "\<exists>v. check_boundary demo_crypto v ''body'' demo_operation demo_context = Ok ()"
proof -
  obtain v where v: "verify_request demo_crypto demo_proof ''body'' demo_operation demo_context = Ok v"
    by (rule demo_admitted)
  from nonce_admits_once [OF v] show ?thesis by blast
qed

text \<open> What an issuer signs, the host accepts: with a signing key whose signatures the library verifies,
  a capability that \<open>sign_capability\<close> signs passes the signature check under its issuer, and its
  signature is 64 bytes of hexadecimal that decode to the bytes signed with.
\<close>

theorem signed_capability_verifies:
  assumes "sign_capability cr c (raw, sign) = Ok t"
    and "length raw = 32" "list_all (\<lambda>b. b < 256) raw" "point_ok cr raw" "\<not> weak cr raw"
    and "\<And>m. length (sign m) = 64 \<and> list_all (\<lambda>b. b < 256) (sign m) \<and> strict cr raw m (sign m)"
  shows "sg_capability t = c \<and> verify_signature cr (cp_issuer c) (sg_signature t)
     ''weave-capability-signature-v0.1'' (enc_capability cr c) = Ok ()"
proof -
  from assms(1) obtain msg where issuer: "cp_issuer c = public_key raw"
    and msg: "domain_bytes ''weave-capability-signature-v0.1'' (enc_capability cr c) = Ok msg"
    and t: "t = \<lparr>sg_capability = c, sg_signature = hex (sign msg)\<rparr>"
    by (auto simp: sign_capability_def)
  have "verifying_key cr (public_key raw) = Ok raw"
    using assms(2-5) decode_hex [OF assms(3)]
    by (simp add: verifying_key_def public_key_def starts_with_def ensure_def)
  moreover have "decode 64 (hex (sign msg)) = Ok (sign msg)" using assms(6) [of msg] by (simp add: decode_Ok)
  ultimately show ?thesis using issuer msg t assms(6) [of msg] by (simp add: verify_signature_def)
qed

theorem signed_capability_verifies_witness:
  "\<exists>t. sign_capability demo_crypto (sg_capability (demo_token 1 [Read] 0 None))
         (demo_key 1, \<lambda>_. demo_key 1 @ demo_key 1) = Ok t
     \<and> verify_signature demo_crypto (public_key (demo_key 1)) (sg_signature t)
         ''weave-capability-signature-v0.1'' (public_key (demo_key 2)) = Ok ()"
proof -
  let ?sign = "sign_capability demo_crypto (sg_capability (demo_token 1 [Read] 0 None))
      (demo_key 1, \<lambda>_. demo_key 1 @ demo_key 1)"
  have "is_ok ?sign" by code_simp
  then obtain t where t: "?sign = Ok t" by (cases ?sign) simp_all
  have "demo_key 1 \<noteq> replicate 32 0" by code_simp
  with signed_capability_verifies [OF t] t show ?thesis
    by (simp add: demo_crypto_def demo_key_def demo_token_def numeral_2_eq_2 list_all_iff)
qed

end
