(* ===== verification/Decimal.thy ===== *)
theory Decimal
  imports Complex_Main Weave_Prelude
begin

text \<open>
  Exact bounded decimals (\<open>weave-contract/src/decimal.rs\<close>): normalisation, the checked operations,
  the parser and the printer. Coefficients are \<open>i128\<close> in the code and \<open>int\<close> here; the theorems on
  intermediates show that they never leave the range.
\<close>

section \<open>Values\<close>

datatype (plugins only: code size) decimal_error =
    Syntax | InputLimit | Precision | Scale | DivisionByZero | NonTerminating | NonCanonical

record decimal =
  dc_coefficient :: int
  dc_scale :: nat

definition max_coefficient :: int where
  "max_coefficient = 999999999999999999"

definition max_scale :: int where
  "max_scale = 18"

definition max_input :: nat where
  "max_input = 128"

definition dec_zero :: decimal where
  "dec_zero = \<lparr>dc_coefficient = 0, dc_scale = 0\<rparr>"

text \<open>\<open>while scale > 0 && coefficient % 10 == 0\<close>\<close>

function strip_zeros :: "int \<Rightarrow> int \<Rightarrow> int \<times> int" where
  "strip_zeros c s = (if 0 < s \<and> c mod 10 = 0 then strip_zeros (c div 10) (s - 1) else (c, s))"
  by pat_completeness auto
termination by (relation "measure (\<lambda>(c, s). nat s)") auto

text \<open>\<open>while scale < 0\<close>\<close>

function grow :: "int \<Rightarrow> int \<Rightarrow> decimal_error + int \<times> int" where
  "grow c s =
     (if s < 0 then
        if \<bar>c\<bar> > max_coefficient div 10 then Err Precision else grow (c * 10) (s + 1)
      else Ok (c, s))"
  by pat_completeness auto
termination by (relation "measure (\<lambda>(c, s). nat (- s))") auto

declare strip_zeros.simps [simp del] grow.simps [simp del]

definition normalized :: "int \<Rightarrow> int \<Rightarrow> decimal_error + decimal" where
  "normalized c s =
     (if c = 0 then Ok dec_zero
      else
        let (c1, s1) = strip_zeros c s in
        if s1 > max_scale then Err Scale
        else rbind (grow c1 s1) (\<lambda>(c2, s2).
          if \<bar>c2\<bar> > max_coefficient then Err Precision
          else Ok \<lparr>dc_coefficient = c2, dc_scale = nat s2\<rparr>))"

section \<open>Arithmetic\<close>

definition checked_add :: "decimal \<Rightarrow> decimal \<Rightarrow> decimal_error + decimal" where
  "checked_add a b =
     (let scale = max (dc_scale a) (dc_scale b);
          left = dc_coefficient a * 10 ^ (scale - dc_scale a);
          right = dc_coefficient b * 10 ^ (scale - dc_scale b)
      in normalized (left + right) (int scale))"

definition checked_minus :: "decimal \<Rightarrow> decimal \<Rightarrow> decimal_error + decimal" where
  "checked_minus a b = checked_add a (b\<lparr>dc_coefficient := - dc_coefficient b\<rparr>)"

definition checked_mul :: "decimal \<Rightarrow> decimal \<Rightarrow> decimal_error + decimal" where
  "checked_mul a b =
     normalized (dc_coefficient a * dc_coefficient b) (int (dc_scale a) + int (dc_scale b))"

fun gcd_loop :: "nat \<Rightarrow> nat \<Rightarrow> nat" where
  "gcd_loop a b = (if b = 0 then a else gcd_loop b (a mod b))"

declare gcd_loop.simps [simp del]

text \<open>\<open>while numerator % 10 == 0\<close>; the numerator is not zero there.\<close>

function strip_tens :: "int \<Rightarrow> int \<Rightarrow> int \<times> int" where
  "strip_tens n s = (if n \<noteq> 0 \<and> n mod 10 = 0 then strip_tens (n div 10) (s - 1) else (n, s))"
  by pat_completeness auto
termination by (relation "measure (\<lambda>(n, s). nat \<bar>n\<bar>)") auto

text \<open>\<open>while denominator % p == 0\<close>, counting; the denominator is positive and \<open>p\<close> is 2 or 5.\<close>

function factor_out :: "nat \<Rightarrow> nat \<Rightarrow> nat \<Rightarrow> nat \<times> nat" where
  "factor_out p d k = (if 1 < p \<and> 0 < d \<and> d mod p = 0 then factor_out p (d div p) (k + 1) else (d, k))"
  by pat_completeness auto
termination by (relation "measure (\<lambda>(p, d, k). d)") auto

declare strip_tens.simps [simp del] factor_out.simps [simp del]

text \<open>The loop over the factors that complete the denominator to a power of ten.\<close>

definition scale_up :: "int \<Rightarrow> int \<Rightarrow> decimal_error + int" where
  "scale_up n factor = (if \<bar>n\<bar> > max_coefficient div factor then Err Precision else Ok (n * factor))"

definition quotient :: "int \<Rightarrow> int \<Rightarrow> int \<Rightarrow> decimal_error + decimal" where
  "quotient numerator denominator scale =
     (if denominator = 0 then Err DivisionByZero
      else if numerator = 0 then Ok dec_zero
      else
        let divisor = gcd_loop (nat \<bar>numerator\<bar>) (nat \<bar>denominator\<bar>);
            n1 = numerator div int divisor;
            n2 = (if denominator < 0 then - n1 else n1);
            d1 = nat \<bar>denominator\<bar> div divisor;
            (n3, s1) = strip_tens n2 scale;
            (d2, twos) = factor_out 2 d1 0;
            (d3, fives) = factor_out 5 d2 0
        in if d3 \<noteq> 1 then Err NonTerminating
           else
             let places = max twos fives; s2 = s1 + int places in
             if s2 > max_scale then Err Scale
             else rbind (try_fold scale_up n3 (replicate (places - twos) 2 @ replicate (places - fives) 5))
                    (\<lambda>n4. normalized n4 s2))"

definition checked_div :: "decimal \<Rightarrow> decimal \<Rightarrow> decimal_error + decimal" where
  "checked_div a b =
     quotient (dc_coefficient a) (dc_coefficient b) (int (dc_scale a) - int (dc_scale b))"

definition checked_mul_ratio :: "decimal \<Rightarrow> decimal \<Rightarrow> decimal \<Rightarrow> decimal_error + decimal" where
  "checked_mul_ratio a n d =
     quotient (dc_coefficient a * dc_coefficient n) (dc_coefficient d)
       (int (dc_scale a) + int (dc_scale n) - int (dc_scale d))"

definition dec_positive :: "decimal \<Rightarrow> bool" where
  "dec_positive a \<longleftrightarrow> 0 < dc_coefficient a"

section \<open>Parsing and printing\<close>

definition is_digit :: "char \<Rightarrow> bool" where
  "is_digit c \<longleftrightarrow> (let b = (of_char c :: nat) in 48 \<le> b \<and> b \<le> 57)"

definition digit_value :: "char \<Rightarrow> int" where
  "digit_value c = int (of_char c) - 48"

definition digits_value :: "string \<Rightarrow> int" where
  "digits_value s = foldl (\<lambda>v c. v * 10 + digit_value c) 0 s"

definition parse_fraction :: "string \<Rightarrow> decimal_error + string \<times> string" where
  "parse_fraction s =
     (case s of
        CHR ''.'' # rest \<Rightarrow>
          if takeWhile is_digit rest = [] then Err Syntax
          else Ok (takeWhile is_digit rest, dropWhile is_digit rest)
      | _ \<Rightarrow> Ok ([], s))"

fun exponent_digits :: "int \<Rightarrow> string \<Rightarrow> decimal_error + int \<times> string" where
  "exponent_digits e [] = Ok (e, [])"
| "exponent_digits e (c # cs) =
     (if is_digit c then
        let e' = e * 10 + digit_value c in
        if e' > 128 then Err InputLimit else exponent_digits e' cs
      else Ok (e, c # cs))"

definition parse_exponent :: "string \<Rightarrow> decimal_error + int \<times> string" where
  "parse_exponent s =
     (if take 1 s \<in> {''e'', ''E''} then
        let s1 = drop 1 s; negative = (take 1 s1 = ''-'');
            s2 = (if negative \<or> take 1 s1 = ''+'' then drop 1 s1 else s1)
        in rbind (exponent_digits 0 s2) (\<lambda>(e, rest).
             if rest = s2 then Err Syntax else Ok (if negative then - e else e, rest))
      else Ok (0, s))"

definition trim_start :: "string \<Rightarrow> string" where
  "trim_start = dropWhile (\<lambda>c. c = CHR ''0'')"

definition trim_end :: "string \<Rightarrow> string" where
  "trim_end s = rev (trim_start (rev s))"

definition from_str :: "string \<Rightarrow> decimal_error + decimal" where
  "from_str text =
     (if length text > max_input then Err InputLimit
      else
        let negative = (take 1 text = ''-'');
            s1 = (if negative \<or> take 1 text = ''+'' then drop 1 text else text);
            whole = takeWhile is_digit s1
        in if whole = [] then Err Syntax
           else
             rbind (parse_fraction (dropWhile is_digit s1)) (\<lambda>(fraction, s2).
             rbind (parse_exponent s2) (\<lambda>(ex, s3).
               if s3 \<noteq> [] then Err Syntax
               else
                 let digits = trim_start (whole @ fraction) in
                 if digits = [] then Ok dec_zero
                 else
                   let trimmed = trim_end digits;
                       scale = int (length fraction) - ex - int (length digits - length trimmed)
                   in if length trimmed > 18 then Err Precision
                      else normalized
                        (if negative then - digits_value trimmed else digits_value trimmed) scale)))"

text \<open>\<open>i128::to_string\<close> of a non-negative number.\<close>

definition digit_char :: "nat \<Rightarrow> char" where
  "digit_char d = char_of (48 + d)"

fun show_nat :: "nat \<Rightarrow> string" where
  "show_nat n = (if n < 10 then [digit_char n] else show_nat (n div 10) @ [digit_char (n mod 10)])"

declare show_nat.simps [simp del]

definition to_string :: "decimal \<Rightarrow> string" where
  "to_string d =
     (let sign = (if dc_coefficient d < 0 then ''-'' else []);
          digits = show_nat (nat \<bar>dc_coefficient d\<bar>);
          scale = dc_scale d
      in if scale = 0 then sign @ digits
         else if length digits \<le> scale then
           sign @ ''0.'' @ replicate (scale - length digits) CHR ''0'' @ digits
         else
           let point = length digits - scale in sign @ take point digits @ ''.'' @ drop point digits)"

text \<open>The deserializer: a parsed value whose printed form is the text.\<close>

definition deserialize :: "string \<Rightarrow> decimal_error + decimal" where
  "deserialize text =
     rbind (from_str text) (\<lambda>d. if to_string d \<noteq> text then Err NonCanonical else Ok d)"

end
