(* ===== verification/Decimal_Value.thy ===== *)
theory Decimal_Value
  imports Decimal
begin

text \<open>
  The rational value of a decimal, and normalisation as the search for the unique canonical decimal
  of a value.
\<close>

section \<open>Values and canonical form\<close>

definition scaled :: "int \<Rightarrow> int \<Rightarrow> rat" where
  "scaled c s = of_int c * 10 powi (- s)"

definition dec_value :: "decimal \<Rightarrow> rat" where
  "dec_value d = scaled (dc_coefficient d) (int (dc_scale d))"

text \<open>The invariant of the type: the private fields prevent any other value.\<close>

definition decimal_ok :: "decimal \<Rightarrow> bool" where
  "decimal_ok d \<longleftrightarrow> \<bar>dc_coefficient d\<bar> \<le> max_coefficient \<and> int (dc_scale d) \<le> max_scale
     \<and> (0 < dc_scale d \<longrightarrow> dc_coefficient d mod 10 \<noteq> 0)"

lemma scaled_eq_iff:
  "scaled c s = scaled c' s' \<longleftrightarrow> of_int c * 10 powi s' = (of_int c' :: rat) * 10 powi s"
  by (simp add: scaled_def power_int_minus field_simps)

lemma scaled_shift: "scaled (c * 10 ^ k) (s + int k) = scaled c s"
  by (simp add: scaled_eq_iff power_int_add)

lemma scaled_mult: "scaled (c * c') (s + s') = scaled c s * scaled c' s'"
proof -
  have "(10 :: rat) powi (- s + - s') = 10 powi (- s) * 10 powi (- s')" by (rule power_int_add) simp
  then show ?thesis unfolding scaled_def minus_add_distrib by simp
qed

lemma scaled_eq_le:
  assumes "scaled c s = scaled c' s'" and "s \<le> s'"
  shows "c' = c * 10 ^ nat (s' - s)"
proof -
  have "scaled c s = scaled (c * 10 ^ nat (s' - s)) s'"
    using scaled_shift [of c "nat (s' - s)" s] assms(2) by simp
  with assms(1) have "scaled c' s' = scaled (c * 10 ^ nat (s' - s)) s'" by simp
  then have "(of_int c' :: rat) = of_int (c * 10 ^ nat (s' - s))" by (simp add: scaled_def)
  then show ?thesis by (simp only: of_int_eq_iff)
qed

lemma scaled_zero [simp]: "scaled c s = 0 \<longleftrightarrow> c = 0" "scaled 0 s = 0"
  by (simp_all add: scaled_def)

text \<open>A coefficient without a factor of ten has the least scale of its value.\<close>

lemma least_scale:
  assumes "scaled c s = scaled c' s'" and "c mod 10 \<noteq> 0"
  shows "s \<le> s'"
proof (rule ccontr)
  assume "\<not> s \<le> s'"
  then obtain k where k: "nat (s - s') = Suc k" by (cases "nat (s - s')") simp_all
  have "c = c' * 10 ^ Suc k" using scaled_eq_le [of c' s' c s] assms(1) \<open>\<not> s \<le> s'\<close> k by simp
  then have "c mod 10 = 0" by simp
  with assms(2) show False ..
qed

lemma decimal_ok_unique:
  assumes "decimal_ok d" and "decimal_ok e" and "dec_value d = dec_value e"
  shows "d = e"
proof -
  have le: "dc_scale d \<le> dc_scale e"
    if "decimal_ok d" "dec_value d = dec_value e" for d e
  proof (cases "dc_scale d = 0")
    case False
    with that have "dc_coefficient d mod 10 \<noteq> 0" by (simp add: decimal_ok_def)
    from least_scale [OF that(2) [unfolded dec_value_def] this] show ?thesis by simp
  qed simp
  from le [OF assms(1,3)] le [OF assms(2) assms(3) [symmetric]] have s: "dc_scale d = dc_scale e" by simp
  with scaled_eq_le [OF assms(3) [unfolded dec_value_def]]
  have "dc_coefficient d = dc_coefficient e" by simp
  with s show ?thesis by (intro decimal.equality) simp_all
qed

section \<open>Normalisation\<close>

lemma strip_zeros_spec:
  assumes "c \<noteq> 0" and "strip_zeros c s = (c', s')"
  shows "scaled c' s' = scaled c s" and "c' \<noteq> 0" and "0 < s' \<longrightarrow> c' mod 10 \<noteq> 0"
    and "s \<le> 0 \<longrightarrow> c' = c \<and> s' = s" and "0 < s \<longrightarrow> 0 \<le> s'" and "\<bar>c'\<bar> \<le> \<bar>c\<bar>"
proof -
  have "scaled c' s' = scaled c s \<and> c' \<noteq> 0 \<and> (0 < s' \<longrightarrow> c' mod 10 \<noteq> 0)
     \<and> (s \<le> 0 \<longrightarrow> c' = c \<and> s' = s) \<and> (0 < s \<longrightarrow> 0 \<le> s') \<and> \<bar>c'\<bar> \<le> \<bar>c\<bar>"
    using assms
  proof (induction c s rule: strip_zeros.induct)
    case (1 c s)
    show ?case
    proof (cases "0 < s \<and> c mod 10 = 0")
      case True
      then have c: "c = c div 10 * 10" by presburger
      then have nz: "c div 10 \<noteq> 0" using 1(2) by auto
      have run: "strip_zeros (c div 10) (s - 1) = (c', s')"
        using 1(3) True by (simp add: strip_zeros.simps [of c s])
      have "scaled (c div 10) (s - 1) = scaled c s"
        using scaled_shift [of "c div 10" 1 "s - 1"] c by simp
      moreover have "\<bar>c div 10\<bar> \<le> \<bar>c\<bar>" using c by simp
      ultimately show ?thesis using 1(1) [OF True nz run] True by force
    next
      case False
      with 1(2,3) show ?thesis by (auto simp: strip_zeros.simps [of c s])
    qed
  qed
  then show "scaled c' s' = scaled c s" and "c' \<noteq> 0" and "0 < s' \<longrightarrow> c' mod 10 \<noteq> 0"
    and "s \<le> 0 \<longrightarrow> c' = c \<and> s' = s" and "0 < s \<longrightarrow> 0 \<le> s'" and "\<bar>c'\<bar> \<le> \<bar>c\<bar>" by simp_all
qed

lemma grow_spec:
  "grow c s =
     (if s < 0 then
        if \<bar>c * 10 ^ nat (- s)\<bar> \<le> max_coefficient then Ok (c * 10 ^ nat (- s), 0) else Err Precision
      else Ok (c, s))" if "c \<noteq> 0 \<or> s \<ge> 0"
  using that
proof (induction c s rule: grow.induct)
  case (1 c s)
  show ?case
  proof (cases "s < 0")
    case True
    then have nz: "c \<noteq> 0" and n: "nat (- s) = Suc (nat (- (s + 1)))" using 1(2) by simp_all
    have pow: "c * 10 ^ nat (- s) = c * 10 * 10 ^ nat (- (s + 1))" by (simp add: n)
    show ?thesis
    proof (cases "\<bar>c\<bar> > max_coefficient div 10")
      case True
      then have big: "\<bar>c * 10\<bar> > max_coefficient" by (simp add: max_coefficient_def abs_mult)
      have "\<bar>c * 10\<bar> * 1 \<le> \<bar>c * 10\<bar> * 10 ^ nat (- (s + 1))"
        by (intro mult_left_mono) simp_all
      then have "\<bar>c * 10 ^ nat (- s)\<bar> > max_coefficient"
        using big unfolding pow by (simp add: abs_mult)
      with True \<open>s < 0\<close> show ?thesis by (simp add: grow.simps [of c s])
    next
      case False
      then have small: "\<bar>c * 10\<bar> \<le> max_coefficient" by (simp add: max_coefficient_def abs_mult)
      have "grow (c * 10) (s + 1) = (if s + 1 < 0 then
          if \<bar>c * 10 * 10 ^ nat (- (s + 1))\<bar> \<le> max_coefficient then Ok (c * 10 * 10 ^ nat (- (s + 1)), 0)
          else Err Precision else Ok (c * 10, s + 1))"
        by (rule 1(1) [OF True False]) (use nz in simp)
      moreover have "grow c s = grow (c * 10) (s + 1)" using True False by (simp add: grow.simps [of c s])
      moreover have "s = - 1" if "\<not> s + 1 < 0" using that True by simp
      ultimately show ?thesis using True small unfolding pow by (cases "s + 1 < 0") auto
    qed
  qed (simp add: grow.simps [of c s])
qed


lemma decimal_ok_zero: "decimal_ok dec_zero" "dec_value dec_zero = 0"
  by (simp_all add: decimal_ok_def dec_zero_def dec_value_def max_coefficient_def max_scale_def)

lemma normalized_sound:
  assumes "normalized c s = Ok d"
  shows "decimal_ok d \<and> dec_value d = scaled c s"
proof (cases "c = 0")
  case True
  with assms decimal_ok_zero show ?thesis by (simp add: normalized_def)
next
  case False
  obtain c1 s1 where strip: "strip_zeros c s = (c1, s1)" by (cases "strip_zeros c s")
  note spec = strip_zeros_spec [OF False strip]
  have s1: "s1 \<le> max_scale" and rest: "rbind (grow c1 s1) (\<lambda>(c2, s2).
      if \<bar>c2\<bar> > max_coefficient then Err Precision
      else Ok \<lparr>dc_coefficient = c2, dc_scale = nat s2\<rparr>) = Ok d"
    using assms False by (auto simp: normalized_def strip split: if_splits)
  show ?thesis
  proof (cases "s1 < 0")
    case True
    let ?c = "c1 * 10 ^ nat (- s1)"
    from rest True spec(2) have d: "\<bar>?c\<bar> \<le> max_coefficient" "d = \<lparr>dc_coefficient = ?c, dc_scale = 0\<rparr>"
      by (auto simp: grow_spec split: if_splits)
    have "scaled ?c 0 = scaled c1 s1" using scaled_shift [of c1 "nat (- s1)" s1] True by simp
    with d spec(1) show ?thesis by (simp add: decimal_ok_def dec_value_def max_scale_def)
  next
    case False
    with rest have d: "\<bar>c1\<bar> \<le> max_coefficient" "d = \<lparr>dc_coefficient = c1, dc_scale = nat s1\<rparr>"
      by (auto simp: grow_spec split: if_splits)
    with False s1 spec(1,3) show ?thesis by (simp add: decimal_ok_def dec_value_def)
  qed
qed

lemma normalized_complete:
  assumes "decimal_ok d" and "dec_value d = scaled c s"
  shows "normalized c s = Ok d"
proof (cases "c = 0")
  case True
  with assms have "dec_value d = dec_value dec_zero" by (simp add: decimal_ok_zero)
  with decimal_ok_unique [OF assms(1) decimal_ok_zero(1)] True show ?thesis by (simp add: normalized_def)
next
  case False
  obtain c1 s1 where strip: "strip_zeros c s = (c1, s1)" by (cases "strip_zeros c s")
  note spec = strip_zeros_spec [OF False strip]
  have eq: "scaled c1 s1 = scaled (dc_coefficient d) (int (dc_scale d))"
    using assms(2) spec(1) by (simp add: dec_value_def)
  have le: "s1 \<le> int (dc_scale d)"
  proof (cases "0 < s1")
    case True
    with spec(3) least_scale [OF eq] show ?thesis by simp
  qed simp
  then have "s1 \<le> max_scale" using assms(1) by (simp add: decimal_ok_def)
  from scaled_eq_le [OF eq le]
  have c: "dc_coefficient d = c1 * 10 ^ nat (int (dc_scale d) - s1)" .
  have big: "\<bar>c1 * 10 ^ n\<bar> \<le> max_coefficient" if "n \<le> nat (int (dc_scale d) - s1)" for n
  proof -
    have "\<bar>c1\<bar> * 10 ^ n \<le> \<bar>c1\<bar> * 10 ^ nat (int (dc_scale d) - s1)"
      using that by (intro mult_left_mono power_increasing) simp_all
    also have "\<dots> = \<bar>dc_coefficient d\<bar>" by (simp add: c abs_mult)
    finally show ?thesis using assms(1) by (simp add: decimal_ok_def abs_mult)
  qed
  have "\<exists>e. normalized c s = Ok e"
  proof (cases "s1 < 0")
    case True
    with big [of "nat (- s1)"] \<open>s1 \<le> max_scale\<close> spec(2) False show ?thesis
      by (simp add: normalized_def strip grow_spec nat_mono)
  next
    case False
    with big [of 0] \<open>s1 \<le> max_scale\<close> \<open>c \<noteq> 0\<close> show ?thesis
      by (simp add: normalized_def strip grow_spec)
  qed
  then obtain e where e: "normalized c s = Ok e" by blast
  with normalized_sound [OF e] assms decimal_ok_unique [of e d] show ?thesis by simp
qed

lemma normalized_iff: "normalized c s = Ok d \<longleftrightarrow> decimal_ok d \<and> dec_value d = scaled c s"
  using normalized_sound normalized_complete by blast

section \<open>Operations\<close>

lemma checked_add_iff:
  "checked_add a b = Ok d \<longleftrightarrow> decimal_ok d \<and> dec_value d = dec_value a + dec_value b"
proof -
  let ?m = "max (dc_scale a) (dc_scale b)"
  have up: "scaled (dc_coefficient x * 10 ^ (?m - dc_scale x)) (int ?m) = dec_value x"
    if "x = a \<or> x = b" for x
    using scaled_shift [of "dc_coefficient x" "?m - dc_scale x" "int (dc_scale x)"] that
    by (auto simp: dec_value_def)
  have "scaled (dc_coefficient a * 10 ^ (?m - dc_scale a) + dc_coefficient b * 10 ^ (?m - dc_scale b)) (int ?m)
      = dec_value a + dec_value b"
    using up [of a] up [of b] by (simp add: scaled_def distrib_right)
  then show ?thesis by (simp add: checked_add_def Let_def normalized_iff)
qed

lemma checked_minus_iff:
  "checked_minus a b = Ok d \<longleftrightarrow> decimal_ok d \<and> dec_value d = dec_value a - dec_value b"
  by (simp add: checked_minus_def checked_add_iff) (simp add: dec_value_def scaled_def)

lemma checked_mul_iff:
  "checked_mul a b = Ok d \<longleftrightarrow> decimal_ok d \<and> dec_value d = dec_value a * dec_value b"
proof -
  have "scaled (dc_coefficient a * dc_coefficient b) (int (dc_scale a) + int (dc_scale b)) = dec_value a * dec_value b"
    by (simp add: dec_value_def scaled_mult)
  then show ?thesis by (simp add: checked_mul_def normalized_iff)
qed


section \<open>Quotients\<close>

lemma gcd_loop: "gcd_loop a b = gcd a b"
  by (induction a b rule: gcd_loop.induct) (simp add: gcd_loop.simps gcd_non_0_nat)

lemma strip_tens_spec:
  assumes "n \<noteq> 0" and "strip_tens n s = (n', s')"
  shows "scaled n' s' = scaled n s \<and> n' mod 10 \<noteq> 0 \<and> n' dvd n"
  using assms
proof (induction n s rule: strip_tens.induct)
  case (1 n s)
  show ?case
  proof (cases "n mod 10 = 0")
    case True
    then have n: "n = n div 10 * 10" by presburger
    then have nz: "n div 10 \<noteq> 0" using 1(2) by auto
    have run: "strip_tens (n div 10) (s - 1) = (n', s')" using 1(2,3) True by (simp add: strip_tens.simps [of n s])
    from 1(1) [OF conjI [OF 1(2) True] nz run] have "scaled n' s' = scaled (n div 10) (s - 1) \<and> n' mod 10 \<noteq> 0 \<and> n' dvd n div 10" .
    moreover have "scaled (n div 10) (s - 1) = scaled n s"
      using scaled_shift [of "n div 10" 1 "s - 1"] n by simp
    moreover have "n div 10 dvd n" using n by (metis dvd_triv_left)
    ultimately show ?thesis using dvd_trans by auto
  next
    case False
    with 1(2,3) show ?thesis by (simp add: strip_tens.simps [of n s])
  qed
qed

lemma factor_out_spec:
  assumes "1 < p" and "0 < d" and "factor_out p d k = (d', k')"
  shows "k \<le> k' \<and> d = d' * p ^ (k' - k) \<and> \<not> p dvd d' \<and> 0 < d'"
  using assms
proof (induction p d k rule: factor_out.induct)
  case (1 p d k)
  show ?case
  proof (cases "d mod p = 0")
    case True
    then have d: "d = d div p * p" by (metis add_0_right div_mult_mod_eq)
    then have pos: "0 < d div p" using 1(3) by (metis bot_nat_0.not_eq_extremum mult_0)
    have "factor_out p (d div p) (k + 1) = (d', k')"
      using 1(2-4) True by (simp add: factor_out.simps [of p d k])
    with 1(1) [OF _ 1(2) pos] 1(2,3) True
    have IH: "k + 1 \<le> k'" "d div p = d' * p ^ (k' - (k + 1))" "\<not> p dvd d'" "0 < d'" by auto
    then have "d = d' * p ^ Suc (k' - (k + 1))" using d by simp
    with IH show ?thesis by (simp add: Suc_diff_Suc)
  next
    case False
    with 1(2-4) show ?thesis by (auto simp: factor_out.simps [of p d k])
  qed
qed


lemma int_div_less:
  assumes "0 < f"
  shows "a div f < b \<longleftrightarrow> a < b * (f :: int)"
proof
  assume "a div f < b"
  then have "(a div f + 1) * f \<le> b * f" using assms by (intro mult_right_mono) simp_all
  moreover have "a < (a div f + 1) * f"
    using pos_mod_bound [OF assms, of a] div_mult_mod_eq [of a f] unfolding distrib_right mult_1 by linarith
  ultimately show "a < b * f" by simp
next
  assume "a < b * f"
  show "a div f < b"
  proof (rule ccontr)
    assume "\<not> a div f < b"
    then have "b * f \<le> a div f * f" using assms by (intro mult_right_mono) simp_all
    also have "\<dots> \<le> a" using pos_mod_sign [OF assms, of a] div_mult_mod_eq [of a f] by linarith
    finally show False using \<open>a < b * f\<close> by simp
  qed
qed

lemma scale_up_fold:
  assumes "\<forall>f \<in> set fs. 1 \<le> f"
  shows "try_fold scale_up n fs = Ok (n * prod_list fs)
     \<or> (\<exists>e. try_fold scale_up n fs = Err e) \<and> max_coefficient < \<bar>n * prod_list fs\<bar>"
  using assms
proof (induction fs arbitrary: n)
  case (Cons f fs)
  have "1 \<le> prod_list fs" if "\<forall>f \<in> set fs. 1 \<le> f" for fs :: "int list"
    using that
  proof (induction fs)
    case (Cons f fs)
    then have "1 * 1 \<le> f * prod_list fs" by (intro mult_mono) simp_all
    then show ?case by simp
  qed simp
  with Cons.prems have f: "1 \<le> f" "1 \<le> prod_list fs" by simp_all
  show ?case
  proof (cases "\<bar>n\<bar> > max_coefficient div f")
    case True
    then have "max_coefficient < \<bar>n\<bar> * f" using f(1) by (simp add: int_div_less)
    also have "\<dots> * 1 \<le> \<bar>n\<bar> * f * prod_list fs" using f by (intro mult_left_mono) simp_all
    finally have "max_coefficient < \<bar>n * prod_list (f # fs)\<bar>" using f by (simp add: abs_mult mult.assoc)
    with True show ?thesis by (simp add: scale_up_def)
  next
    case False
    with Cons.IH [of "n * f"] Cons.prems show ?thesis by (simp add: scale_up_def mult.assoc)
  qed
qed simp

text \<open>
  The parts of a quotient: the value is \<open>n3\<close> at scale \<open>s1\<close> over \<open>d3 * 2 ^ twos * 5 ^ fives\<close>, in lowest
  terms, with no factor of ten in \<open>n3\<close> and none of two or five in \<open>d3\<close>.
\<close>

lemma quotient_parts:
  assumes "d1 * g = nat \<bar>D\<bar>" and "int g * n1 = N" and "D \<noteq> 0" and "0 < g"
  shows "scaled N s / of_int D = scaled (if D < 0 then - n1 else n1) s / of_nat d1"
proof -
  have "(of_int \<bar>D\<bar> :: rat) = of_nat d1 * of_nat g"
    using arg_cong [OF assms(1), of "of_nat :: nat \<Rightarrow> rat"] by simp
  then have D: "(of_int D :: rat) = (if D < 0 then - (of_nat d1 * of_nat g) else of_nat d1 * of_nat g)"
    by (cases "D < 0") simp_all
  have N: "(of_int N :: rat) = of_nat g * of_int n1" using assms(2) by force
  have "d1 \<noteq> 0" using assms(1,3) by (metis abs_le_zero_iff mult_0 nat_0_iff)
  with assms(4) show ?thesis unfolding scaled_def D N by (cases "D < 0") (simp_all add: field_simps)
qed

lemma not_terminating:
  assumes "coprime n3 (int d3)" and "coprime (10 :: int) (int d3)" and "int d3 dvd D"
    and "scaled n3 s1 = scaled (x * D) t"
  shows "d3 = 1"
proof -
  have "int d3 dvd n3 * 10 ^ k \<Longrightarrow> is_unit (int d3)" for k
    using assms(1,2) by (metis coprime_commute coprime_dvd_mult_left_iff coprime_power_right_iff
        coprime_self dvd_refl coprime_dvd_mult_right_iff is_unit_gcd coprime_absorb_left)
  moreover have "\<exists>k. int d3 dvd n3 * 10 ^ k"
  proof (cases "s1 \<le> t")
    case True
    from scaled_eq_le [OF assms(4) True] have "x * D = n3 * 10 ^ nat (t - s1)" .
    with assms(3) show ?thesis by (metis dvd_mult)
  next
    case False
    then have "n3 = x * D * 10 ^ nat (s1 - t)" using scaled_eq_le [OF assms(4) [symmetric]] by simp
    with assms(3) have "int d3 dvd n3 * 10 ^ 0" by (metis dvd_mult dvd_mult2 mult.right_neutral power_0)
    then show ?thesis ..
  qed
  ultimately show ?thesis by auto
qed


lemma even_or_five: "n * 2 ^ i * 5 ^ j mod 10 \<noteq> 0"
  if "n mod 10 \<noteq> 0" "i = 0 \<or> j = 0" "0 < i \<longrightarrow> \<not> 5 dvd n" "0 < j \<longrightarrow> \<not> 2 dvd n" for n :: int
proof
  assume "n * 2 ^ i * 5 ^ j mod 10 = 0"
  then have ten: "10 dvd n * 2 ^ i * 5 ^ j" by presburger
  then have two: "2 dvd n * 2 ^ i * 5 ^ j" and five: "5 dvd n * 2 ^ i * 5 ^ j"
    by (rule dvd_trans [rotated]; simp)+
  have odd: "coprime (5 :: int) (2 ^ k)" for k
  proof -
    have "coprime (5 :: int) 2"
    proof (rule coprimeI)
      fix c :: int assume "c dvd 5" "c dvd 2"
      then have "c dvd 5 - 2 * 2" by (intro dvd_diff dvd_mult)
      then show "c dvd 1" by simp
    qed
    then show ?thesis by simp
  qed
  show False
  proof (cases "i = 0")
    case True
    with that(1,4) ten two show False by (cases "j = 0") auto
  next
    case False
    then have "j = 0" using that(2) by simp
    then have "5 dvd n * 2 ^ i" using five by simp
    then have "5 dvd n" using odd coprime_dvd_mult_left_iff by blast
    with that(3) False show False by simp
  qed
qed

lemma least_precision:
  assumes "decimal_ok d" and "dec_value d = scaled m s" and "m mod 10 \<noteq> 0"
  shows "s \<le> max_scale" and "\<bar>m\<bar> \<le> max_coefficient"
proof -
  from assms(2) have eq: "scaled m s = scaled (dc_coefficient d) (int (dc_scale d))" by (simp add: dec_value_def)
  from least_scale [OF this assms(3)] have le: "s \<le> int (dc_scale d)" .
  with assms(1) show "s \<le> max_scale" by (simp add: decimal_ok_def)
  have "\<bar>m\<bar> * 1 \<le> \<bar>m\<bar> * 10 ^ nat (int (dc_scale d) - s)" by (intro mult_left_mono) simp_all
  also have "\<dots> = \<bar>dc_coefficient d\<bar>" by (simp add: scaled_eq_le [OF eq le] abs_mult)
  finally show "\<bar>m\<bar> \<le> max_coefficient" using assms(1) by (simp add: decimal_ok_def)
qed

lemma coprime_ten:
  assumes "\<not> 2 dvd d" and "\<not> 5 dvd (d :: nat)"
  shows "coprime 10 (int d)"
proof -
  have "coprime 5 d"
  proof (rule coprimeI)
    fix c assume c: "c dvd 5" "c dvd d"
    then have "c \<noteq> 5" using assms(2) by auto
    moreover from c(1) have "c \<le> 5" by (rule dvd_imp_le) simp
    moreover have "c = 0 \<or> c = 1 \<or> c = 2 \<or> c = 3 \<or> c = 4 \<or> c = 5" using \<open>c \<le> 5\<close> by arith
    ultimately show "c dvd 1" using c(1) by (elim disjE) simp_all
  qed
  moreover have "coprime 2 d" using assms(1) by simp
  ultimately have "coprime (2 * 5) d" by (simp only: coprime_mult_left_iff simp_thms)
  then have "coprime (int 10) (int d)" by (simp only: coprime_int_iff) simp
  then show ?thesis by simp
qed

lemma quotient_iff:
  assumes "D \<noteq> 0"
  shows "quotient N D s = Ok d \<longleftrightarrow> decimal_ok d \<and> dec_value d = scaled N s / of_int D"
proof (cases "N = 0")
  case True
  with assms decimal_ok_unique [of d dec_zero] decimal_ok_zero show ?thesis
    by (auto simp: quotient_def)
next
  case False
  define g where "g = gcd (nat \<bar>N\<bar>) (nat \<bar>D\<bar>)"
  define n1 where "n1 = N div int g"
  define n2 where "n2 = (if D < 0 then - n1 else n1)"
  define d1 where "d1 = nat \<bar>D\<bar> div g"
  obtain n3 s1 where tens: "strip_tens n2 s = (n3, s1)" by (cases "strip_tens n2 s")
  obtain d2 a where twos: "factor_out 2 d1 0 = (d2, a)" by (cases "factor_out 2 d1 0")
  obtain d3 b where fives: "factor_out 5 d2 0 = (d3, b)" by (cases "factor_out 5 d2 0")
  let ?p = "max a b"
  let ?fs = "replicate (?p - a) 2 @ replicate (?p - b) (5 :: int)"
  have run: "quotient N D s = (if d3 \<noteq> 1 then Err NonTerminating
      else if s1 + int ?p > max_scale then Err Scale
      else rbind (try_fold scale_up n3 ?fs) (\<lambda>n4. normalized n4 (s1 + int ?p)))"
    by (simp only: quotient_def gcd_loop Let_def g_def [symmetric] n1_def [symmetric] n2_def [symmetric]
        d1_def [symmetric] tens twos fives prod.case assms False if_False)
  have g: "0 < g" "d1 * g = nat \<bar>D\<bar>" using assms by (simp_all add: g_def d1_def)
  have gN: "int g dvd N" unfolding g_def by (metis gcd_dvd1 int_dvd_int_iff dvd_abs_iff nat_0_le abs_ge_zero)
  then have n1: "int g * n1 = N" by (simp add: n1_def)
  have "n2 \<noteq> 0" using n1 False by (auto simp: n2_def split: if_splits)
  from strip_tens_spec [OF this tens]
  have n3: "n3 mod 10 \<noteq> 0" "n3 dvd n2" and n2: "scaled n3 s1 = scaled n2 s" by simp_all
  have val: "scaled N s / of_int D = scaled n3 s1 / of_nat d1"
    unfolding n2 n2_def by (rule quotient_parts [OF g(2) n1 assms g(1)])
  have "0 < d1" using g assms by (metis abs_le_zero_iff gr0I mult_0 nat_0_iff)
  from factor_out_spec [OF _ this twos] have d2: "d1 = d2 * 2 ^ a" "\<not> 2 dvd d2" "0 < d2" by simp_all
  from factor_out_spec [OF _ d2(3) fives] have d3: "d2 = d3 * 5 ^ b" "\<not> 5 dvd d3" "0 < d3" by simp_all
  have "coprime (nat \<bar>n1\<bar>) d1"
  proof -
    have "nat \<bar>N\<bar> = nat \<bar>n1\<bar> * g" using n1 by (metis abs_mult abs_of_nat mult.commute nat_int nat_mult_distrib abs_ge_zero)
    then have "nat \<bar>n1\<bar> = nat \<bar>N\<bar> div g" using g(1) by simp
    moreover have "coprime (nat \<bar>N\<bar> div g) (nat \<bar>D\<bar> div g)"
      unfolding g_def by (rule div_gcd_coprime) (use assms in linarith)
    ultimately show ?thesis by (simp only: d1_def)
  qed
  then have "coprime n1 (int d1)" by (metis abs_ge_zero coprime_int_iff coprime_abs_left_iff int_nat_eq nat_0_le)
  then have "coprime n2 (int d1)" by (simp add: n2_def)
  then have coprime: "coprime n3 (int d1)" using n3(2) coprime_divisors dvd_refl by blast
  have d1: "d1 = d3 * 5 ^ b * 2 ^ a" using d2(1) d3(1) by simp
  have whole: "scaled n3 s1 = scaled (dc_coefficient d * int d1) (int (dc_scale d))"
    if "dec_value d = scaled N s / of_int D"
    using that val \<open>0 < d1\<close> by (simp add: dec_value_def scaled_def field_simps)
  show ?thesis
  proof (cases "d3 = 1")
    case False
    have "d3 dvd d1" unfolding d1 by simp
    then have "int d3 dvd int d1" by simp
    moreover from this coprime have "coprime n3 (int d3)" using coprime_divisors dvd_refl by blast
    moreover have "\<not> 2 dvd d3" using d2(2) d3(1) by auto
    from coprime_ten [OF this d3(2)] have "coprime 10 (int d3)" .
    ultimately have "\<not> (decimal_ok d \<and> dec_value d = scaled N s / of_int D)"
      using not_terminating whole False by blast
    with run False show ?thesis by simp
  next
    case True
    let ?m = "n3 * 2 ^ (?p - a) * 5 ^ (?p - b)"
    have prod: "n3 * prod_list ?fs = ?m" by (simp add: prod_list_replicate mult.assoc)
    have m10: "?m mod 10 \<noteq> 0"
    proof (rule even_or_five)
      have "\<not> c dvd n3" if "c dvd int d1" "\<not> is_unit c" for c :: int
        using coprime that coprime_common_divisor by blast
      moreover have "5 dvd int d1" if "0 < b" using that d1 by simp
      moreover have "2 dvd int d1" if "0 < a" using that d1 by simp
      ultimately show "0 < ?p - a \<longrightarrow> \<not> 5 dvd n3" "0 < ?p - b \<longrightarrow> \<not> 2 dvd n3" by auto
    qed (use n3(1) in auto)
    have eq: "scaled ?m (s1 + int ?p) = scaled N s / of_int D"
    proof -
      have "(2 :: int) ^ (?p - a) * 2 ^ a = 2 ^ ?p" "(5 :: int) ^ (?p - b) * 5 ^ b = 5 ^ ?p"
        by (simp_all add: power_add [symmetric])
      then have "?m * int d1 = n3 * (2 ^ ?p * 5 ^ ?p)" using True by (simp add: d1 ac_simps)
      also have "\<dots> = n3 * 10 ^ ?p" by (simp add: power_mult_distrib [symmetric])
      finally have whole: "?m * int d1 = n3 * 10 ^ ?p" .
      have "scaled (?m * int d1) (s1 + int ?p) = scaled n3 s1" unfolding whole by (rule scaled_shift)
      then show ?thesis unfolding val using \<open>0 < d1\<close> by (simp add: scaled_def field_simps)
    qed
    have bounds: "s1 + int ?p \<le> max_scale \<and> \<bar>?m\<bar> \<le> max_coefficient"
      if "decimal_ok d \<and> dec_value d = scaled N s / of_int D"
      using least_precision [OF _ _ m10, of d "s1 + int ?p"] that unfolding eq by blast
    have ge: "\<forall>f \<in> set ?fs. 1 \<le> f" by (simp add: ball_Un)
    from scale_up_fold [OF ge, of n3]
    consider "try_fold scale_up n3 ?fs = Ok ?m"
      | e where "try_fold scale_up n3 ?fs = Err e" "max_coefficient < \<bar>?m\<bar>"
      unfolding prod by blast
    then show ?thesis
    proof cases
      case 1
      with run True eq bounds show ?thesis by (auto simp: normalized_iff)
    next
      case 2
      with run True bounds show ?thesis by auto
    qed
  qed
qed


section \<open>Properties\<close>

text \<open>
  C13: decimal arithmetic is exact and complete. Each checked operation returns the unique canonical
  decimal of the exact rational result, and returns an error precisely when the result has no
  representation with 18 digits and 18 fractional places (or the divisor is zero).
\<close>

theorem decimal_operations_exact:
  "(checked_add a b = Ok d \<longleftrightarrow> decimal_ok d \<and> dec_value d = dec_value a + dec_value b)
   \<and> (checked_minus a b = Ok d \<longleftrightarrow> decimal_ok d \<and> dec_value d = dec_value a - dec_value b)
   \<and> (checked_mul a b = Ok d \<longleftrightarrow> decimal_ok d \<and> dec_value d = dec_value a * dec_value b)
   \<and> (checked_div a b = Ok d \<longleftrightarrow> dc_coefficient b \<noteq> 0 \<and> decimal_ok d \<and> dec_value d = dec_value a / dec_value b)
   \<and> (checked_mul_ratio a b c = Ok d \<longleftrightarrow>
        dc_coefficient c \<noteq> 0 \<and> decimal_ok d \<and> dec_value d = dec_value a * dec_value b / dec_value c)"
proof (intro conjI)
  show "checked_add a b = Ok d \<longleftrightarrow> decimal_ok d \<and> dec_value d = dec_value a + dec_value b"
    by (rule checked_add_iff)
  show "checked_minus a b = Ok d \<longleftrightarrow> decimal_ok d \<and> dec_value d = dec_value a - dec_value b"
    by (rule checked_minus_iff)
  show "checked_mul a b = Ok d \<longleftrightarrow> decimal_ok d \<and> dec_value d = dec_value a * dec_value b"
    by (rule checked_mul_iff)
  have zero: "quotient n 0 s \<noteq> Ok d" for n s by (simp add: quotient_def)
  have over: "scaled c (s - s') / of_int c' = scaled c s / scaled c' s'" for c s c' s'
    by (simp add: scaled_def power_int_diff power_int_minus field_simps)
  show "checked_div a b = Ok d \<longleftrightarrow>
      dc_coefficient b \<noteq> 0 \<and> decimal_ok d \<and> dec_value d = dec_value a / dec_value b"
    using zero quotient_iff [of "dc_coefficient b"]
    by (cases "dc_coefficient b = 0") (simp_all add: checked_div_def over dec_value_def)
  show "checked_mul_ratio a b c = Ok d \<longleftrightarrow>
      dc_coefficient c \<noteq> 0 \<and> decimal_ok d \<and> dec_value d = dec_value a * dec_value b / dec_value c"
    using zero quotient_iff [of "dc_coefficient c"]
    by (cases "dc_coefficient c = 0") (simp_all add: checked_mul_ratio_def over dec_value_def scaled_mult)
qed

end
