(* ===== verification/Decimal_Text.thy ===== *)
theory Decimal_Text
  imports Decimal_Value
begin

text \<open>
  The canonical text of a decimal: printing and parsing are inverse, and the deserializer accepts
  exactly the printed forms.
\<close>

section \<open>Digits\<close>

lemma of_digit_char: "d < 10 \<Longrightarrow> (of_char (digit_char d) :: nat) = 48 + d"
  by (simp add: digit_char_def of_char_of)

lemma digit_char_simps [simp]:
  assumes "d < 10"
  shows "is_digit (digit_char d)" and "digit_value (digit_char d) = int d"
    and "digit_char d = CHR ''0'' \<longleftrightarrow> d = 0"
proof -
  show "is_digit (digit_char d)" "digit_value (digit_char d) = int d"
    using assms by (simp_all add: is_digit_def digit_value_def of_digit_char Let_def)
  have "(of_char CHR ''0'' :: nat) = 48" by simp
  with of_digit_char [OF assms] show "digit_char d = CHR ''0'' \<longleftrightarrow> d = 0"
    by (metis add_cancel_right_right digit_char_def char_of_char of_char_of add_0_right)
qed

lemma show_nat_small [simp]: "n < 10 \<Longrightarrow> show_nat n = [digit_char n]"
  by (simp add: show_nat.simps)

lemma show_nat_step: "\<not> n < 10 \<Longrightarrow> show_nat n = show_nat (n div 10) @ [digit_char (n mod 10)]"
  by (simp add: show_nat.simps [of n])

lemma show_nat_digits: "list_all is_digit (show_nat n) \<and> show_nat n \<noteq> []"
proof (induction n rule: show_nat.induct)
  case (1 n)
  then show ?case by (cases "n < 10") (simp_all add: show_nat_step)
qed

lemma digits_value_simps [simp]:
  "digits_value [] = 0" "digits_value (s @ [c]) = digits_value s * 10 + digit_value c"
  by (simp_all add: digits_value_def)

lemma digits_value_append: "digits_value (s @ t) = digits_value s * 10 ^ length t + digits_value t"
proof (induction t rule: rev_induct)
  case (snoc c t)
  have "digits_value (s @ t @ [c]) = digits_value (s @ t) * 10 + digit_value c"
    using digits_value_simps(2) [of "s @ t" c] by simp
  with snoc show ?case by (simp add: algebra_simps)
qed simp

lemma digits_value_show_nat: "digits_value (show_nat n) = int n"
proof (induction n rule: show_nat.induct)
  case (1 n)
  show ?case
  proof (cases "n < 10")
    case True
    then show ?thesis using digits_value_simps(2) [of "[]" "digit_char n"] by simp
  next
    case False
    with 1 show ?thesis by (simp add: show_nat_step) presburger
  qed
qed

lemma hd_show_nat: "0 < n \<Longrightarrow> hd (show_nat n) \<noteq> CHR ''0''"
proof (induction n rule: show_nat.induct)
  case (1 n)
  then show ?case using show_nat_digits [of "n div 10"] by (cases "n < 10") (simp_all add: show_nat_step)
qed

lemma length_show_nat: "n < 10 ^ Suc k \<Longrightarrow> length (show_nat n) \<le> Suc k"
proof (induction k arbitrary: n)
  case (Suc k)
  then show ?case by (cases "n < 10") (auto simp: show_nat_step less_mult_imp_div_less mult.commute)
qed simp

section \<open>Trimming\<close>

lemma digits_value_zeros [simp]: "digits_value (replicate k CHR ''0'') = 0"
proof (induction k)
  case (Suc k)
  have "digits_value (replicate k CHR ''0'' @ [CHR ''0'']) = 0" using Suc by (simp add: digit_value_def)
  then show ?case by (simp add: replicate_append_same)
qed simp

lemma trim_start_zeros: "trim_start (replicate z CHR ''0'' @ s) = trim_start s"
  by (induction z) (simp_all add: trim_start_def)

lemma trim_start_hd: "s = [] \<or> hd s \<noteq> CHR ''0'' \<Longrightarrow> trim_start s = s"
  by (cases s) (simp_all add: trim_start_def)

lemma trim_end_split: "s = trim_end s @ replicate (length s - length (trim_end s)) CHR ''0''"
proof -
  let ?z = "takeWhile (\<lambda>c. c = CHR ''0'') (rev s)"
  have z: "?z = replicate (length ?z) CHR ''0''"
    by (rule replicate_eqI) (auto dest: set_takeWhileD)
  have "rev s = ?z @ trim_start (rev s)" by (simp add: trim_start_def)
  then have s: "s = trim_end s @ rev ?z" unfolding trim_end_def by (metis rev_append rev_rev_ident)
  then have "length s = length (trim_end s) + length ?z" by (metis length_append length_rev)
  with s z show ?thesis by (metis add_diff_cancel_left' rev_replicate)
qed

lemma length_trim_end: "length (trim_end s) \<le> length s"
  using arg_cong [OF trim_end_split [of s], of length] by simp

lemma digits_value_trim_end:
  "digits_value s = digits_value (trim_end s) * 10 ^ (length s - length (trim_end s))"
  using arg_cong [OF trim_end_split [of s], of digits_value] by (simp add: digits_value_append)

section \<open>Round trip\<close>

lemma takeWhile_digits:
  "list_all is_digit w \<Longrightarrow> rest = [] \<or> \<not> is_digit (hd rest) \<Longrightarrow>
     takeWhile is_digit (w @ rest) = w \<and> dropWhile is_digit (w @ rest) = rest"
  by (induction w) (cases rest; simp)+

lemma sign_not_digit: "is_digit c \<Longrightarrow> c \<noteq> CHR ''-'' \<and> c \<noteq> CHR ''+''"
  by (auto simp: is_digit_def)

text \<open>Parsing a text without exponent.\<close>

lemma from_str_plain:
  assumes whole: "list_all is_digit w" "w \<noteq> []" and fraction: "list_all is_digit f"
    and rest: "rest = (if f = [] then [] else CHR ''.'' # f)"
    and sign: "sign = (if negative then ''-'' else [])"
    and len: "length (sign @ w @ rest) \<le> max_input"
    and digits: "w @ f = replicate z CHR ''0'' @ show_nat n" "0 < n" "length (show_nat n) \<le> 18"
  shows "from_str (sign @ w @ rest) =
     (let k = length (show_nat n) - length (trim_end (show_nat n));
          v = digits_value (trim_end (show_nat n)) in
      normalized (if negative then - v else v) (int (length f) - int k))"
proof -
  obtain c w' where w: "w = c # w'" using whole(2) by (cases w) auto
  then have c: "c \<noteq> CHR ''-''" "c \<noteq> CHR ''+''" using whole(1) sign_not_digit [of c] by auto
  have dot: "\<not> is_digit CHR ''.''" by (simp add: is_digit_def)
  have take: "takeWhile is_digit (w @ rest) = w" "dropWhile is_digit (w @ rest) = rest"
    using takeWhile_digits [OF whole(1), of rest] dot rest by simp_all
  have neg: "(take 1 (sign @ w @ rest) = ''-'') = negative"
    "(if negative \<or> take 1 (sign @ w @ rest) = ''+'' then drop 1 (sign @ w @ rest) else sign @ w @ rest) = w @ rest"
    using c by (auto simp: sign w)
  have frac: "parse_fraction rest = Ok (f, [])"
  proof -
    note whole_f = takeWhile_digits [OF fraction, of "[]", unfolded append_Nil2]
    show ?thesis by (cases "f = []") (simp_all add: rest parse_fraction_def whole_f)
  qed
  have trim: "trim_start (w @ f) = show_nat n"
    using hd_show_nat [OF digits(2)] show_nat_digits [of n] by (simp add: digits(1) trim_start_zeros trim_start_hd)
  have "parse_exponent [] = Ok (0, [])" by (simp add: parse_exponent_def)
  then show ?thesis
    unfolding from_str_def Let_def neg take frac rbind_Inr prod.case trim
    using whole(2) len digits(3) length_trim_end [of "show_nat n"] show_nat_digits [of n] by simp
qed


text \<open>The three shapes of a printed decimal, as sign, whole part and fraction.\<close>

lemma to_string_shape:
  assumes "decimal_ok d" and "dc_coefficient d \<noteq> 0"
  obtains w f z where "to_string d = (if dc_coefficient d < 0 then ''-'' else []) @ w @
      (if f = [] then [] else CHR ''.'' # f)"
    "list_all is_digit w" "w \<noteq> []" "list_all is_digit f" "length f = dc_scale d" "length w \<le> 18"
    "w @ f = replicate z CHR ''0'' @ show_nat (nat \<bar>dc_coefficient d\<bar>)"
proof -
  let ?s = "show_nat (nat \<bar>dc_coefficient d\<bar>)" and ?sc = "dc_scale d"
  have digits: "list_all is_digit ?s" "?s \<noteq> []" using show_nat_digits by simp_all
  have "nat \<bar>dc_coefficient d\<bar> < 10 ^ Suc 17"
    using assms(1) by (simp add: decimal_ok_def max_coefficient_def nat_less_iff)
  from length_show_nat [OF this] have len: "length ?s \<le> 18" by simp
  have zero: "is_digit CHR ''0''" by (simp add: is_digit_def)
  consider "?sc = 0" | "?sc \<noteq> 0" "length ?s \<le> ?sc" | "?sc \<noteq> 0" "?sc < length ?s" by fastforce
  then show thesis
  proof cases
    case 1
    show thesis
      by (rule that [of ?s "[]" 0]) (use 1 digits len in \<open>simp_all add: to_string_def Let_def\<close>)
  next
    case 2
    let ?f = "replicate (?sc - length ?s) CHR ''0'' @ ?s"
    show thesis
      by (rule that [of "''0''" ?f "Suc (?sc - length ?s)"])
        (use 2 digits zero in \<open>auto simp: to_string_def Let_def list_all_iff\<close>)
  next
    case 3
    let ?at = "length ?s - ?sc"
    have "drop ?at ?s \<noteq> []" "take ?at ?s \<noteq> []" using 3 by auto
    moreover have "list_all is_digit (take ?at ?s)" "list_all is_digit (drop ?at ?s)"
      using digits(1) by (auto simp: list_all_iff dest: in_set_takeD in_set_dropD)
    ultimately show thesis
      by (intro that [of "take ?at ?s" "drop ?at ?s" 0])
        (use 3 len in \<open>simp_all add: to_string_def Let_def\<close>)
  qed
qed

lemma from_str_to_string:
  assumes ok: "decimal_ok d"
  shows "from_str (to_string d) = Ok d"
proof (cases "dc_coefficient d = 0")
  case True
  with ok have "d = dec_zero" by (intro decimal.equality) (auto simp: decimal_ok_def dec_zero_def)
  moreover have "from_str (to_string dec_zero) = Ok dec_zero" by code_simp
  ultimately show ?thesis by simp
next
  case False
  let ?n = "nat \<bar>dc_coefficient d\<bar>"
  obtain w f z where printed: "to_string d = (if dc_coefficient d < 0 then ''-'' else []) @ w @
      (if f = [] then [] else CHR ''.'' # f)"
    and w: "list_all is_digit w" "w \<noteq> []" and f: "list_all is_digit f" "length f = dc_scale d"
    and len: "length w \<le> 18" and digits: "w @ f = replicate z CHR ''0'' @ show_nat ?n"
    by (rule to_string_shape [OF ok False])
  have n: "0 < ?n" using False by simp
  have "?n < 10 ^ Suc 17" using ok by (simp add: decimal_ok_def max_coefficient_def nat_less_iff)
  from length_show_nat [OF this] have short: "length (show_nat ?n) \<le> 18" by simp
  have "length (to_string d) \<le> max_input"
    using len f(2) ok by (simp add: printed decimal_ok_def max_scale_def max_input_def)
  from from_str_plain [OF w f(1) refl refl this [unfolded printed] digits n short]
  have run: "from_str (to_string d) =
     (let k = length (show_nat ?n) - length (trim_end (show_nat ?n)); v = digits_value (trim_end (show_nat ?n)) in
      normalized (if dc_coefficient d < 0 then - v else v) (int (length f) - int k))" by (simp only: printed)
  let ?k = "length (show_nat ?n) - length (trim_end (show_nat ?n))"
  let ?v = "digits_value (trim_end (show_nat ?n))"
  let ?c = "if dc_coefficient d < 0 then - ?v else ?v"
  have "\<bar>dc_coefficient d\<bar> = ?v * 10 ^ ?k"
    using digits_value_trim_end [of "show_nat ?n"] by (simp add: digits_value_show_nat)
  then have "dc_coefficient d = ?c * 10 ^ ?k" by (simp add: abs_if split: if_splits)
  then have "dec_value d = scaled ?c (int (length f) - int ?k)"
    using scaled_shift [of ?c ?k "int (length f) - int ?k"] f(2) by (simp add: dec_value_def)
  from normalized_complete [OF ok this] run show ?thesis by (simp add: Let_def)
qed

lemma from_str_ok: "from_str s = Ok d \<Longrightarrow> decimal_ok d"
  using normalized_sound decimal_ok_zero(1)
  by (auto simp: from_str_def Let_def split: if_splits)

text \<open>
  C14: the canonical text of a decimal is its identity on the wire: the deserializer accepts a text
  exactly when it is the printed form of a valid decimal, and returns that decimal; so printing and
  deserializing are inverse and no value has two accepted texts.
\<close>

theorem decimal_text_roundtrip: "deserialize s = Ok d \<longleftrightarrow> decimal_ok d \<and> s = to_string d"
  using from_str_ok from_str_to_string by (auto simp: deserialize_def split: if_splits)

text \<open> The \<open>i128\<close> arithmetic never overflows: for valid operands the aligned sum, the product and the
  scaled numerators of every operation lie in the range of \<open>i128\<close>.
\<close>

definition in_i128 :: "int \<Rightarrow> bool" where
  "in_i128 x \<longleftrightarrow> - (2 ^ 127) \<le> x \<and> x < 2 ^ 127"

theorem decimal_intermediates_fit:
  assumes "decimal_ok a" and "decimal_ok b"
  shows "in_i128 (dc_coefficient a * 10 ^ (max (dc_scale a) (dc_scale b) - dc_scale a)
       + dc_coefficient b * 10 ^ (max (dc_scale a) (dc_scale b) - dc_scale b))
     \<and> in_i128 (dc_coefficient a * dc_coefficient b)
     \<and> (1 \<le> f \<and> f \<le> 5 \<and> scale_up n f = Ok m \<longrightarrow> in_i128 m)"
proof -
  have one: "\<bar>dc_coefficient x * 10 ^ (max (dc_scale a) (dc_scale b) - dc_scale x)\<bar> \<le> 10 ^ 36"
    if "x = a \<or> x = b" for x
  proof -
    have "\<bar>dc_coefficient x\<bar> \<le> 10 ^ 18" "max (dc_scale a) (dc_scale b) - dc_scale x \<le> 18"
      using that assms by (auto simp: decimal_ok_def max_coefficient_def max_scale_def)
    then have "\<bar>dc_coefficient x\<bar> * 10 ^ (max (dc_scale a) (dc_scale b) - dc_scale x) \<le> 10 ^ 18 * 10 ^ 18"
      by (intro mult_mono power_increasing) simp_all
    then show ?thesis by (simp add: abs_mult)
  qed
  have "\<bar>dc_coefficient a\<bar> * \<bar>dc_coefficient b\<bar> \<le> 10 ^ 18 * 10 ^ 18"
    using assms by (intro mult_mono) (auto simp: decimal_ok_def max_coefficient_def)
  then have prod: "\<bar>dc_coefficient a * dc_coefficient b\<bar> \<le> 10 ^ 36" by (simp add: abs_mult)
  have factor: "\<bar>m\<bar> \<le> max_coefficient" if "1 \<le> f" "scale_up n f = Ok m"
    using that int_div_less [of f max_coefficient "\<bar>n\<bar>"]
    by (auto simp: scale_up_def abs_mult not_less split: if_splits)
  show ?thesis
    using one [of a] one [of b] prod factor by (auto simp: in_i128_def max_coefficient_def abs_le_iff)
qed

theorem decimal_intermediates_fit_witness:
  "in_i128 (dc_coefficient \<lparr>dc_coefficient = 999999999999999999, dc_scale = 0\<rparr>
      * dc_coefficient \<lparr>dc_coefficient = 999999999999999999, dc_scale = 0\<rparr>)"
proof -
  have "decimal_ok \<lparr>dc_coefficient = 999999999999999999, dc_scale = 0\<rparr>"
    by (simp add: decimal_ok_def max_coefficient_def max_scale_def)
  from decimal_intermediates_fit [OF this this] show ?thesis by blast
qed

end
