(* ===== verification/Quota.thy ===== *)
theory Quota
  imports Weave_Prelude
begin

text \<open>
  The per-principal quotas of the service (\<open>weave-service/src/quota.rs\<close>): fixed windows of the trusted
  clock for requests and fact writes, their reset, and the eviction of stale usage. An exceeded quota
  is \<open>Err\<close> of the seconds to wait.
\<close>

section \<open>State and operations\<close>

definition minute_ms :: int where
  "minute_ms = 60000"

definition hour_ms :: int where
  "hour_ms = 3600000"

definition max_tracked :: nat where
  "max_tracked = 100000"

record quota =
  qt_requests_per_minute :: "nat option"
  qt_writes_per_hour :: "nat option"

record usage =
  us_minute :: int
  us_requests :: nat
  us_hour :: int
  us_writes :: nat

type_synonym quotas = "(string, usage) btree_map"

definition usage_default :: usage where
  "usage_default = \<lparr>us_minute = 0, us_requests = 0, us_hour = 0, us_writes = 0\<rparr>"

definition roll :: "int \<Rightarrow> usage \<Rightarrow> usage" where
  "roll now u =
     (let minute = now div minute_ms; hour = now div hour_ms;
          u1 = (if us_minute u \<noteq> minute then u\<lparr>us_minute := minute, us_requests := 0\<rparr> else u)
      in if us_hour u1 \<noteq> hour then u1\<lparr>us_hour := hour, us_writes := 0\<rparr> else u1)"

definition retry_after :: "int \<Rightarrow> nat" where
  "retry_after ms = nat (max ((max ms 0 + 999) div 1000) 1)"

definition quota_entry :: "string \<Rightarrow> int \<Rightarrow> quotas \<Rightarrow> usage \<times> quotas" where
  "quota_entry p now qs =
     (let kept = (if map_of qs p = None \<and> max_tracked \<le> length qs
                  then filter (\<lambda>(_, u). us_hour u = now div hour_ms) qs else qs);
          u = roll now (case map_of kept p of None \<Rightarrow> usage_default | Some u \<Rightarrow> u)
      in (u, bm_insert p u kept))"

definition admit_request :: "string \<Rightarrow> quota \<Rightarrow> int \<Rightarrow> quotas \<Rightarrow> (nat + unit) \<times> quotas" where
  "admit_request p q now qs =
     (let (u, qs1) = quota_entry p now qs;
          admitted = (Ok (), bm_insert p (u\<lparr>us_requests := us_requests u + 1\<rparr>) qs1)
      in case qt_requests_per_minute q of
           None \<Rightarrow> admitted
         | Some limit \<Rightarrow>
             if limit \<le> us_requests u then (Err (retry_after ((us_minute u + 1) * minute_ms - now)), qs1)
             else admitted)"

definition check_writes :: "string \<Rightarrow> quota \<Rightarrow> nat \<Rightarrow> int \<Rightarrow> quotas \<Rightarrow> (nat + unit) \<times> quotas" where
  "check_writes p q changes now qs =
     (case qt_writes_per_hour q of
        None \<Rightarrow> (Ok (), qs)
      | Some limit \<Rightarrow>
          let (u, qs1) = quota_entry p now qs in
          if limit < saturating_add (us_writes u) changes
          then (Err (retry_after ((us_hour u + 1) * hour_ms - now)), qs1)
          else (Ok (), qs1))"

definition record_writes :: "string \<Rightarrow> nat \<Rightarrow> int \<Rightarrow> quotas \<Rightarrow> quotas" where
  "record_writes p changes now qs =
     (let (u, qs1) = quota_entry p now qs in
      bm_insert p (u\<lparr>us_writes := saturating_add (us_writes u) changes\<rparr>) qs1)"

record standing =
  sd_quota :: quota
  sd_requests_this_minute :: nat
  sd_writes_this_hour :: nat
  sd_minute_resets_at_ms :: int
  sd_hour_resets_at_ms :: int

definition quota_standing :: "string \<Rightarrow> quota \<Rightarrow> int \<Rightarrow> quotas \<Rightarrow> standing \<times> quotas" where
  "quota_standing p q now qs =
     (let (u, qs1) = quota_entry p now qs in
      (\<lparr>sd_quota = q, sd_requests_this_minute = us_requests u, sd_writes_this_hour = us_writes u,
        sd_minute_resets_at_ms = (us_minute u + 1) * minute_ms,
        sd_hour_resets_at_ms = (us_hour u + 1) * hour_ms\<rparr>, qs1))"

section \<open>The reference: a log of what was counted\<close>

text \<open>
  The events of a tenant: a request to admit, and a program with its number of fact changes, which is
  checked and, when admitted and committed, recorded.
\<close>

datatype quota_event = RequestEvent string quota int | WriteEvent string quota nat int

fun event_time :: "quota_event \<Rightarrow> int" where
  "event_time (RequestEvent _ _ t) = t"
| "event_time (WriteEvent _ _ _ t) = t"

fun quota_step :: "quota_event \<Rightarrow> quotas \<Rightarrow> bool \<times> quotas" where
  "quota_step (RequestEvent p q t) qs = (let (r, qs1) = admit_request p q t qs in (r = Ok (), qs1))"
| "quota_step (WriteEvent p q n t) qs =
     (let (r, qs1) = check_writes p q n t qs in
      if r = Ok () then (True, record_writes p n t qs1) else (False, qs1))"

fun quota_run :: "quota_event list \<Rightarrow> quotas \<Rightarrow> bool list" where
  "quota_run [] qs = []"
| "quota_run (e # es) qs = (let (r, qs1) = quota_step e qs in r # quota_run es qs1)"

text \<open>
  The reference keeps the whole history of admitted events and counts those of the same principal in
  the same window.
\<close>

fun requests_counted :: "string \<Rightarrow> int \<Rightarrow> quota_event list \<Rightarrow> nat" where
  "requests_counted p m [] = 0"
| "requests_counted p m (RequestEvent p' q t # es) =
     (if p' = p \<and> t div minute_ms = m then 1 else 0) + requests_counted p m es"
| "requests_counted p m (WriteEvent _ _ _ _ # es) = requests_counted p m es"

fun writes_counted :: "string \<Rightarrow> int \<Rightarrow> quota_event list \<Rightarrow> nat" where
  "writes_counted p h [] = 0"
| "writes_counted p h (WriteEvent p' q n t # es) =
     (if p' = p \<and> t div hour_ms = h then n else 0) + writes_counted p h es"
| "writes_counted p h (RequestEvent _ _ _ # es) = writes_counted p h es"

fun within_quota :: "quota_event \<Rightarrow> quota_event list \<Rightarrow> bool" where
  "within_quota (RequestEvent p q t) past =
     (case qt_requests_per_minute q of None \<Rightarrow> True
      | Some limit \<Rightarrow> requests_counted p (t div minute_ms) past < limit)"
| "within_quota (WriteEvent p q n t) past =
     (case qt_writes_per_hour q of None \<Rightarrow> True
      | Some limit \<Rightarrow> min (writes_counted p (t div hour_ms) past + n) usize_max \<le> limit)"

fun reference_run :: "quota_event list \<Rightarrow> quota_event list \<Rightarrow> bool list" where
  "reference_run [] past = []"
| "reference_run (e # es) past =
     (let r = within_quota e past in r # reference_run es (if r then e # past else past))"

section \<open>Simulation\<close>

definition requests_used :: "quotas \<Rightarrow> string \<Rightarrow> int \<Rightarrow> nat" where
  "requests_used qs p m =
     (case map_of qs p of None \<Rightarrow> 0 | Some u \<Rightarrow> if us_minute u = m then us_requests u else 0)"

definition writes_used :: "quotas \<Rightarrow> string \<Rightarrow> int \<Rightarrow> nat" where
  "writes_used qs p h =
     (case map_of qs p of None \<Rightarrow> 0 | Some u \<Rightarrow> if us_hour u = h then us_writes u else 0)"

definition windows_ok :: "int \<Rightarrow> quotas \<Rightarrow> bool" where
  "windows_ok now qs \<longleftrightarrow> bm_ok qs \<and> (\<forall>p u. map_of qs p = Some u \<longrightarrow>
     us_hour u = us_minute u div 60 \<and> us_minute u \<le> now div minute_ms)"

text \<open>The usage counters agree with the history in every window that is not over yet.\<close>

definition tracks :: "int \<Rightarrow> quotas \<Rightarrow> quota_event list \<Rightarrow> bool" where
  "tracks now qs past \<longleftrightarrow> windows_ok now qs
     \<and> (\<forall>p m. now div minute_ms \<le> m \<longrightarrow> requests_used qs p m = requests_counted p m past)
     \<and> (\<forall>p h. now div hour_ms \<le> h \<longrightarrow> writes_used qs p h = min (writes_counted p h past) usize_max)"

lemma hour_minute: "now div hour_ms = now div minute_ms div 60"
  by (simp add: hour_ms_def minute_ms_def div_mult2_eq [symmetric] zdiv_zmult2_eq [symmetric])

lemma roll_fields [simp]:
  "us_minute (roll now u) = now div minute_ms" "us_hour (roll now u) = now div hour_ms"
  "us_requests (roll now u) = (if us_minute u = now div minute_ms then us_requests u else 0)"
  "us_writes (roll now u) = (if us_hour u = now div hour_ms then us_writes u else 0)"
  by (simp_all add: roll_def Let_def)

lemma map_of_filter_usage:
  "map_of (filter (\<lambda>(_, u). P u) qs) p = Some u \<Longrightarrow> distinct (map fst qs) \<Longrightarrow> map_of qs p = Some u \<and> P u"
  by (auto dest!: map_of_SomeD)

lemma map_of_filter_kept:
  "map_of qs p = Some u \<Longrightarrow> P u \<Longrightarrow> distinct (map fst qs) \<Longrightarrow> map_of (filter (\<lambda>(_, u). P u) qs) p = Some u"
  by (intro map_of_is_SomeI) (auto dest: map_of_SomeD simp: distinct_map_filter)


lemma bm_ok_filter: "bm_ok m \<Longrightarrow> bm_ok (filter P m)"
  unfolding bm_ok_def by (induction m) auto

lemma kept_usage:
  assumes ok: "windows_ok t0 qs" and le: "t0 \<le> now"
    and kept: "kept = qs \<or> kept = filter (\<lambda>(_, u). us_hour u = now div hour_ms) qs"
  shows "windows_ok now kept"
    and "now div minute_ms \<le> m \<Longrightarrow> requests_used kept p m = requests_used qs p m"
    and "now div hour_ms \<le> h \<Longrightarrow> writes_used kept p h = writes_used qs p h"
proof -
  have bm: "bm_ok qs" and dist: "distinct (map fst qs)"
    using ok by (simp_all add: windows_ok_def bm_ok_distinct)
  have minute: "t0 div minute_ms \<le> now div minute_ms" using le by (simp add: minute_ms_def zdiv_mono1)
  have entry: "us_hour u = us_minute u div 60 \<and> us_minute u \<le> now div minute_ms" if "map_of qs p = Some u" for p u
    using ok that minute by (force simp: windows_ok_def)
  have sub: "map_of qs p = Some u" if "map_of kept p = Some u" for p u
  proof (rule disjE [OF kept])
    show "map_of qs p = Some u" if "kept = filter (\<lambda>(_, u). us_hour u = now div hour_ms) qs"
      using that \<open>map_of kept p = Some u\<close> map_of_filter_usage [of "\<lambda>u. us_hour u = now div hour_ms" qs p u] dist by simp
  qed (use that in simp)
  have dropped: "us_hour u \<noteq> now div hour_ms" if "map_of qs p = Some u" "map_of kept p = None" for p u
  proof
    assume hour: "us_hour u = now div hour_ms"
    from map_of_filter_kept [OF that(1) _ dist, of "\<lambda>u. us_hour u = now div hour_ms"] hour that kept
    show False by auto
  qed
  show "windows_ok now kept"
    unfolding windows_ok_def
  proof (intro conjI allI impI)
    show "bm_ok kept" using kept bm by (elim disjE) (simp_all add: bm_ok_filter)
    fix p u assume "map_of kept p = Some u"
    from entry [OF sub [OF this]] show "us_hour u = us_minute u div 60" "us_minute u \<le> now div minute_ms"
      by simp_all
  qed
  have same: "map_of kept p = map_of qs p" if "map_of kept p \<noteq> None" using that sub by auto
  show "requests_used kept p m = requests_used qs p m" if "now div minute_ms \<le> m"
  proof (cases "map_of kept p")
    case None
    have "us_minute u \<noteq> m" if "map_of qs p = Some u" for u
      using entry [OF that] dropped [OF that None] \<open>now div minute_ms \<le> m\<close> by (auto simp: hour_minute)
    with None show ?thesis by (simp add: requests_used_def split: option.split)
  next
    case (Some u)
    with same show ?thesis by (simp add: requests_used_def)
  qed
  show "writes_used kept p h = writes_used qs p h" if "now div hour_ms \<le> h"
  proof (cases "map_of kept p")
    case None
    have "us_hour u \<noteq> h" if "map_of qs p = Some u" for u
    proof -
      have "us_hour u \<le> now div hour_ms" using entry [OF that] by (simp add: hour_minute zdiv_mono1)
      with dropped [OF that None] \<open>now div hour_ms \<le> h\<close> show ?thesis by simp
    qed
    with None show ?thesis by (simp add: writes_used_def split: option.split)
  next
    case (Some u)
    with same show ?thesis by (simp add: writes_used_def)
  qed
qed

lemma quota_entry_spec:
  assumes ok: "windows_ok t0 qs" and le: "t0 \<le> now"
  obtains u qs1 where "quota_entry p now qs = (u, qs1)" "map_of qs1 p = Some u" "windows_ok now qs1"
    "us_minute u = now div minute_ms" "us_hour u = now div hour_ms"
    "us_requests u = requests_used qs p (now div minute_ms)" "us_writes u = writes_used qs p (now div hour_ms)"
    "\<forall>p' m. now div minute_ms \<le> m \<longrightarrow> requests_used qs1 p' m = requests_used qs p' m"
    "\<forall>p' h. now div hour_ms \<le> h \<longrightarrow> writes_used qs1 p' h = writes_used qs p' h"
proof -
  define kept where "kept = (if map_of qs p = None \<and> max_tracked \<le> length qs
      then filter (\<lambda>(_, u). us_hour u = now div hour_ms) qs else qs)"
  let ?u0 = "case map_of kept p of None \<Rightarrow> usage_default | Some u \<Rightarrow> u"
  let ?u = "roll now ?u0"
  have "kept = qs \<or> kept = filter (\<lambda>(_, u). us_hour u = now div hour_ms) qs" by (simp add: kept_def)
  note k = kept_usage [OF ok le this]
  have reqs: "us_requests ?u = requests_used kept p (now div minute_ms)"
    by (simp add: requests_used_def usage_default_def split: option.split)
  have wrts: "us_writes ?u = writes_used kept p (now div hour_ms)"
    by (simp add: writes_used_def usage_default_def split: option.split)
  have old: "us_minute v \<le> now div minute_ms \<and> us_hour v \<le> now div hour_ms" if "map_of kept p = Some v" for v
    using k(1) that by (force simp: windows_ok_def hour_minute zdiv_mono1)
  show thesis
  proof (rule that)
    show "quota_entry p now qs = (?u, bm_insert p ?u kept)" by (simp add: quota_entry_def kept_def [symmetric] Let_def)
    show "windows_ok now (bm_insert p ?u kept)" using k(1) by (auto simp: windows_ok_def hour_minute)
    show "us_requests ?u = requests_used qs p (now div minute_ms)" using reqs k(2) by simp
    show "us_writes ?u = writes_used qs p (now div hour_ms)" using wrts k(3) by simp
    have "requests_used (bm_insert p ?u kept) p' m = requests_used kept p' m" if "now div minute_ms \<le> m" for p' m
    proof (cases "p' = p \<and> m = now div minute_ms")
      case True
      then show ?thesis using reqs by (simp add: requests_used_def)
    next
      case False
      then show ?thesis using that old by (auto simp: requests_used_def split: option.split)
    qed
    with k(2) show "\<forall>p' m. now div minute_ms \<le> m \<longrightarrow>
        requests_used (bm_insert p ?u kept) p' m = requests_used qs p' m" by simp
    have "writes_used (bm_insert p ?u kept) p' h = writes_used kept p' h" if "now div hour_ms \<le> h" for p' h
    proof (cases "p' = p \<and> h = now div hour_ms")
      case True
      then show ?thesis using wrts by (simp add: writes_used_def)
    next
      case False
      then show ?thesis using that old by (auto simp: writes_used_def split: option.split)
    qed
    with k(3) show "\<forall>p' h. now div hour_ms \<le> h \<longrightarrow>
        writes_used (bm_insert p ?u kept) p' h = writes_used qs p' h" by simp
  qed simp_all
qed


lemma tracks_later:
  assumes "tracks t0 qs past" and "t0 \<le> now"
    and "windows_ok now qs1"
    and "\<forall>p m. now div minute_ms \<le> m \<longrightarrow> requests_used qs1 p m = requests_used qs p m"
    and "\<forall>p h. now div hour_ms \<le> h \<longrightarrow> writes_used qs1 p h = writes_used qs p h"
  shows "tracks now qs1 past"
proof -
  have le: "t0 div minute_ms \<le> now div minute_ms" "t0 div hour_ms \<le> now div hour_ms"
    using assms(2) by (simp_all add: minute_ms_def hour_ms_def zdiv_mono1)
  then have "requests_used qs p m = requests_counted p m past" if "now div minute_ms \<le> m" for p m
    using assms(1) that unfolding tracks_def by (blast intro: order_trans)
  moreover have "writes_used qs p h = min (writes_counted p h past) usize_max" if "now div hour_ms \<le> h" for p h
    using le assms(1) that unfolding tracks_def by (blast intro: order_trans)
  ultimately show ?thesis using assms(3-5) by (simp add: tracks_def)
qed

lemma tracks_entry:
  assumes "tracks t0 qs past" and "t0 \<le> now"
  obtains u qs1 where "quota_entry p now qs = (u, qs1)" "tracks now qs1 past" "map_of qs1 p = Some u"
    "us_minute u = now div minute_ms" "us_hour u = now div hour_ms"
    "us_requests u = requests_counted p (now div minute_ms) past"
    "us_writes u = min (writes_counted p (now div hour_ms) past) usize_max"
proof -
  have ok: "windows_ok t0 qs" using assms(1) by (simp add: tracks_def)
  have le: "t0 div minute_ms \<le> now div minute_ms" "t0 div hour_ms \<le> now div hour_ms"
    using assms(2) by (simp_all add: minute_ms_def hour_ms_def zdiv_mono1)
  obtain u qs1 where entry: "quota_entry p now qs = (u, qs1)" "map_of qs1 p = Some u" "windows_ok now qs1"
    "us_minute u = now div minute_ms" "us_hour u = now div hour_ms"
    "us_requests u = requests_used qs p (now div minute_ms)" "us_writes u = writes_used qs p (now div hour_ms)"
    and used: "\<forall>p' m. now div minute_ms \<le> m \<longrightarrow> requests_used qs1 p' m = requests_used qs p' m"
      "\<forall>p' h. now div hour_ms \<le> h \<longrightarrow> writes_used qs1 p' h = writes_used qs p' h"
    by (rule quota_entry_spec [OF ok assms(2)])
  from assms(1) le have "requests_used qs p (now div minute_ms) = requests_counted p (now div minute_ms) past"
    "writes_used qs p (now div hour_ms) = min (writes_counted p (now div hour_ms) past) usize_max"
    unfolding tracks_def by blast+
  with entry tracks_later [OF assms entry(3) used] show thesis by (intro that) simp_all
qed

lemma tracks_update:
  assumes "tracks now qs past" and "map_of qs p = Some u"
    and "us_minute u' = us_minute u" "us_hour u' = us_hour u"
    and "\<And>m. now div minute_ms \<le> m \<Longrightarrow>
       (if us_minute u = m then us_requests u' else 0) = requests_counted p m (e # past)"
    and "\<And>h. now div hour_ms \<le> h \<Longrightarrow>
       (if us_hour u = h then us_writes u' else 0) = min (writes_counted p h (e # past)) usize_max"
    and "\<And>p' m. p' \<noteq> p \<Longrightarrow> requests_counted p' m (e # past) = requests_counted p' m past"
    and "\<And>p' h. p' \<noteq> p \<Longrightarrow> writes_counted p' h (e # past) = writes_counted p' h past"
  shows "tracks now (bm_insert p u' qs) (e # past)"
proof -
  have "windows_ok now (bm_insert p u' qs)" using assms(1,2,3,4) by (auto simp: tracks_def windows_ok_def)
  moreover have "requests_used (bm_insert p u' qs) p' m = requests_counted p' m (e # past)"
    if "now div minute_ms \<le> m" for p' m
  proof (cases "p' = p")
    case True
    with assms(3,5) that show ?thesis by (simp add: requests_used_def)
  next
    case False
    have "requests_used (bm_insert p u' qs) p' m = requests_used qs p' m" using False by (simp add: requests_used_def)
    with assms(1,7) False that show ?thesis by (simp add: tracks_def)
  qed
  moreover have "writes_used (bm_insert p u' qs) p' h = min (writes_counted p' h (e # past)) usize_max"
    if "now div hour_ms \<le> h" for p' h
  proof (cases "p' = p")
    case True
    with assms(4,6) that show ?thesis by (simp add: writes_used_def)
  next
    case False
    have "writes_used (bm_insert p u' qs) p' h = writes_used qs p' h" using False by (simp add: writes_used_def)
    with assms(1,8) False that show ?thesis by (simp add: tracks_def)
  qed
  ultimately show ?thesis by (simp add: tracks_def)
qed

lemma requests_current:
  assumes "tracks now qs past" and "map_of qs p = Some u" and "now div minute_ms \<le> m"
  shows "(if us_minute u = m then us_requests u else 0) = requests_counted p m past"
proof -
  from assms(1,3) have "requests_used qs p m = requests_counted p m past" unfolding tracks_def by blast
  with assms(2) show ?thesis by (simp add: requests_used_def)
qed

lemma writes_current:
  assumes "tracks now qs past" and "map_of qs p = Some u" and "now div hour_ms \<le> h"
  shows "(if us_hour u = h then us_writes u else 0) = min (writes_counted p h past) usize_max"
proof -
  from assms(1,3) have "writes_used qs p h = min (writes_counted p h past) usize_max"
    unfolding tracks_def by blast
  with assms(2) show ?thesis by (simp add: writes_used_def)
qed

lemma saturating_min: "saturating_add (min a usize_max) n = min (a + n) usize_max"
  by (simp add: saturating_add_def)

lemma record_tracks:
  assumes "tracks t0 qs past" and "t0 \<le> now"
  shows "tracks now (record_writes p n now qs) (WriteEvent p q n now # past)"
proof -
  obtain u qs1 where e: "quota_entry p now qs = (u, qs1)" "tracks now qs1 past" "map_of qs1 p = Some u"
    "us_minute u = now div minute_ms" "us_hour u = now div hour_ms"
    "us_writes u = min (writes_counted p (now div hour_ms) past) usize_max"
    by (rule tracks_entry [OF assms])
  have "tracks now (bm_insert p (u\<lparr>us_writes := saturating_add (us_writes u) n\<rparr>) qs1) (WriteEvent p q n now # past)"
  proof (rule tracks_update [OF e(2,3)])
    show "(if us_minute u = m then us_requests (u\<lparr>us_writes := saturating_add (us_writes u) n\<rparr>) else 0)
        = requests_counted p m (WriteEvent p q n now # past)" if "now div minute_ms \<le> m" for m
      using requests_current [OF e(2,3) that] by (simp split: if_splits)
    show "(if us_hour u = h then us_writes (u\<lparr>us_writes := saturating_add (us_writes u) n\<rparr>) else 0)
        = min (writes_counted p h (WriteEvent p q n now # past)) usize_max" if "now div hour_ms \<le> h" for h
      using writes_current [OF e(2,3) that] e(5,6)
      by (cases "h = now div hour_ms") (simp_all add: saturating_min add.commute)
  qed simp_all
  then show ?thesis by (simp add: record_writes_def e(1))
qed

lemma quota_step_tracks:
  assumes tracks: "tracks t0 qs past" and le: "t0 \<le> event_time e"
    and step: "quota_step e qs = (r, qs')"
  shows "r = within_quota e past \<and> tracks (event_time e) qs' (if r then e # past else past)"
proof (cases e)
  case (RequestEvent p q now)
  with le have le: "t0 \<le> now" by simp
  obtain u qs1 where u: "quota_entry p now qs = (u, qs1)" "tracks now qs1 past" "map_of qs1 p = Some u"
    "us_minute u = now div minute_ms" "us_requests u = requests_counted p (now div minute_ms) past"
    by (rule tracks_entry [OF tracks le])
  have "tracks now (bm_insert p (u\<lparr>us_requests := us_requests u + 1\<rparr>) qs1) (e # past)"
  proof (rule tracks_update [OF u(2,3)])
    show "(if us_minute u = m then us_requests (u\<lparr>us_requests := us_requests u + 1\<rparr>) else 0)
        = requests_counted p m (e # past)" if "now div minute_ms \<le> m" for m
      using requests_current [OF u(2,3) that] u(4) RequestEvent by auto
    show "(if us_hour u = h then us_writes (u\<lparr>us_requests := us_requests u + 1\<rparr>) else 0)
        = min (writes_counted p h (e # past)) usize_max" if "now div hour_ms \<le> h" for h
      using writes_current [OF u(2,3) that] RequestEvent by (simp split: if_splits)
  qed (simp_all add: RequestEvent)
  with step u show ?thesis
    by (auto simp: RequestEvent admit_request_def Let_def split: option.splits if_splits)
next
  case (WriteEvent p q n now)
  with le have le: "t0 \<le> now" by simp
  show ?thesis
  proof (cases "qt_writes_per_hour q")
    case None
    with step record_tracks [OF tracks le] show ?thesis by (auto simp: WriteEvent check_writes_def)
  next
    case (Some limit)
    obtain u qs1 where u: "quota_entry p now qs = (u, qs1)" "tracks now qs1 past"
      "us_writes u = min (writes_counted p (now div hour_ms) past) usize_max"
      by (rule tracks_entry [OF tracks le])
    with step Some record_tracks [OF u(2) order_refl] show ?thesis
      by (auto simp: WriteEvent check_writes_def Let_def saturating_min split: if_splits)
  qed
qed

lemma quota_run_reference:
  assumes "tracks t0 qs past" and "sorted (t0 # map event_time es)"
  shows "quota_run es qs = reference_run es past"
  using assms
proof (induction es arbitrary: t0 qs past)
  case (Cons e es)
  obtain r qs' where step: "quota_step e qs = (r, qs')" by (cases "quota_step e qs")
  have "t0 \<le> event_time e" using Cons.prems(2) by simp
  note now = quota_step_tracks [OF Cons.prems(1) this step]
  have "sorted (event_time e # map event_time es)" using Cons.prems(2) by simp
  from Cons.IH [OF conjunct2 [OF now] this] conjunct1 [OF now] step show ?case by (simp add: Let_def)
qed simp

section \<open>Properties\<close>



text \<open> The wait a rejection asks for is right: it is at least a second and at most the window, waiting
  that long always reaches the next window, and a wait shorter by a second does not.
\<close>

theorem retry_reaches_next_window:
  assumes "window = minute_ms \<or> window = hour_ms"
    and "retry = retry_after ((now div window + 1) * window - now)"
  shows "1 \<le> retry \<and> int retry * 1000 \<le> window
     \<and> now div window < (now + int retry * 1000) div window
     \<and> (now + (int retry - 1) * 1000) div window = now div window"
proof -
  define left where "left = (now div window + 1) * window - now"
  have pos: "0 < window" and whole: "window mod 1000 = 0"
    using assms(1) by (auto simp: minute_ms_def hour_ms_def)
  have mod: "left = window - now mod window"
    using div_mult_mod_eq [of now window] by (simp add: left_def algebra_simps)
  have range: "0 < left" "left \<le> window"
    unfolding mod using pos_mod_sign [OF pos, of now] pos_mod_bound [OF pos, of now] by simp_all
  have retry: "int retry = (left + 999) div 1000"
    using range(1) by (simp add: assms(2) retry_after_def left_def [symmetric])
  have bounds: "left \<le> int retry * 1000" "(int retry - 1) * 1000 < left" 
    using div_mult_mod_eq [of "left + 999" 1000] pos_mod_sign [of 1000 "left + 999"]
      pos_mod_bound [of 1000 "left + 999"] unfolding retry [symmetric] left_diff_distrib by linarith+
  have "int retry * 1000 \<le> window"
  proof -
    obtain k where k: "window = 1000 * k" using whole by (metis mod_0_imp_dvd dvdE)
    have "(int retry - 1) * 1000 < 1000 * k" using bounds(2) range(2) unfolding k by simp
    then have "int retry \<le> k" by simp
    then show ?thesis unfolding k by simp
  qed
  moreover have "1 \<le> retry" by (simp add: assms(2) retry_after_def)
  moreover have "now div window < (now + int retry * 1000) div window"
  proof -
    have "(now div window + 1) * window \<le> now + int retry * 1000" using bounds(1) by (simp add: left_def)
    then have "now div window + 1 \<le> (now + int retry * 1000) div window"
      using pos by (metis nonzero_mult_div_cancel_right less_irrefl zdiv_mono1)
    then show ?thesis by simp
  qed
  moreover have "(now + (int retry - 1) * 1000) div window = now div window"
  proof (rule int_div_pos_eq)
    show "now + (int retry - 1) * 1000 = window * (now div window) + (now mod window + (int retry - 1) * 1000)"
      by (simp add: algebra_simps)
    show "now mod window + (int retry - 1) * 1000 < window" using bounds(2) mod by simp
    show "0 \<le> now mod window + (int retry - 1) * 1000"
      using pos_mod_sign [OF pos, of now] \<open>1 \<le> retry\<close> by simp
  qed
  ultimately show ?thesis by simp
qed

theorem retry_reaches_next_window_witness: "retry_after ((59001 div minute_ms + 1) * minute_ms - 59001) \<le> 60"
  using retry_reaches_next_window [of minute_ms _ 59001, OF _ refl] by (simp add: minute_ms_def)

end
