(* ===== verification/Scopes.thy ===== *)
theory Scopes
  imports Weave_Prelude
begin

text \<open>
  The bookkeeping of one host operation: the shared read budget (\<open>read_budget.rs\<close>), the bounded
  authorization proofs (\<open>authorization.rs\<close>) and the captured clock (\<open>operation_clock.rs\<close>). Each keeps a
  session while at least one scope is open. A scope's \<open>Drop\<close> is the leave operation; the mutexes
  only protect these transitions, which are atomic here.
\<close>

section \<open>Nested sessions\<close>

text \<open>What happens to a session: scopes open and close, and work is done inside them.\<close>

datatype 'w session_event = OpenScope 'w | CloseScope | Work 'w

text \<open>The events never close the outermost of the scopes that are open before them.\<close>

fun inside :: "nat \<Rightarrow> 'w session_event list \<Rightarrow> bool" where
  "inside d [] = True"
| "inside d (OpenScope _ # es) = inside (Suc d) es"
| "inside d (CloseScope # es) = (1 < d \<and> inside (d - 1) es)"
| "inside d (Work _ # es) = inside d es"

fun depth_after :: "nat \<Rightarrow> 'w session_event list \<Rightarrow> nat" where
  "depth_after d [] = d"
| "depth_after d (OpenScope _ # es) = depth_after (Suc d) es"
| "depth_after d (CloseScope # es) = depth_after (d - 1) es"
| "depth_after d (Work _ # es) = depth_after d es"

lemma depth_after_pos: "inside d es \<Longrightarrow> 0 < d \<Longrightarrow> 0 < depth_after d es"
  by (induction d es rule: inside.induct) simp_all

text \<open>
  The interface: a depth, and what an observation of the session keeps while the session is open.
\<close>

locale nested_session =
  fixes opened :: "'s \<Rightarrow> nat"
    and step :: "'w session_event \<Rightarrow> 's \<Rightarrow> 's"
    and kept :: "'s \<Rightarrow> 's \<Rightarrow> bool"
  assumes opened_open: "0 < opened s \<Longrightarrow> opened (step (OpenScope w) s) = Suc (opened s)"
    and opened_close: "1 < opened s \<Longrightarrow> opened (step CloseScope s) = opened s - 1"
    and opened_work: "opened (step (Work w) s) = opened s"
    and kept_refl: "kept s s"
    and kept_trans: "kept s t \<Longrightarrow> kept t u \<Longrightarrow> kept s u"
    and kept_open: "0 < opened s \<Longrightarrow> kept s (step (OpenScope w) s)"
    and kept_close: "1 < opened s \<Longrightarrow> kept s (step CloseScope s)"
    and kept_work: "0 < opened s \<Longrightarrow> kept s (step (Work w) s)"
begin

lemma inside_run:
  "0 < opened s \<Longrightarrow> inside (opened s) es \<Longrightarrow>
     opened (fold step es s) = depth_after (opened s) es \<and> kept s (fold step es s)"
proof (induction es arbitrary: s)
  case Nil
  then show ?case by (simp add: kept_refl)
next
  case (Cons e es)
  let ?t = "step e s"
  have "0 < opened ?t \<and> inside (opened ?t) es \<and> depth_after (opened ?t) es = depth_after (opened s) (e # es)
      \<and> kept s ?t"
    using Cons.prems by (cases e) (simp_all add: opened_open opened_close opened_work kept_open kept_close kept_work)
  with Cons.IH [of ?t] show ?case by (auto intro: kept_trans)
qed

end

section \<open>The read budget\<close>

definition read_bytes :: nat where
  "read_bytes = 128 * 1024 * 1024"

definition read_calls :: nat where
  "read_calls = 4096"

record read_session =
  rs_nesting :: nat
  rs_bytes :: nat
  rs_calls :: nat

type_synonym read_budget = "read_session option"

definition budget_enter :: "read_budget \<Rightarrow> read_budget" where
  "budget_enter slot =
     (let s = (case slot of None \<Rightarrow> \<lparr>rs_nesting = 0, rs_bytes = read_bytes, rs_calls = read_calls\<rparr> | Some s \<Rightarrow> s)
      in Some (s\<lparr>rs_nesting := rs_nesting s + 1\<rparr>))"

definition budget_leave :: "read_budget \<Rightarrow> read_budget" where
  "budget_leave slot =
     (case slot of None \<Rightarrow> None
      | Some s \<Rightarrow>
          let s1 = s\<lparr>rs_nesting := rs_nesting s - 1\<rparr> in if rs_nesting s1 = 0 then None else Some s1)"

definition budget_remaining :: "read_budget \<Rightarrow> nat" where
  "budget_remaining slot = (case slot of None \<Rightarrow> read_bytes | Some s \<Rightarrow> rs_bytes s)"

definition budget_request :: "read_budget \<Rightarrow> unit result \<times> read_budget" where
  "budget_request slot =
     (case slot of None \<Rightarrow> (Ok (), None)
      | Some s \<Rightarrow> (case checked_sub (rs_calls s) 1 of
          None \<Rightarrow> (Err E_BUDGET, Some s)
        | Some c \<Rightarrow> (Ok (), Some (s\<lparr>rs_calls := c\<rparr>))))"

definition budget_charge :: "nat \<Rightarrow> read_budget \<Rightarrow> unit result \<times> read_budget" where
  "budget_charge n slot =
     (case slot of None \<Rightarrow> (Ok (), None)
      | Some s \<Rightarrow> (case checked_sub (rs_bytes s) n of
          None \<Rightarrow> (Err E_BUDGET, Some s)
        | Some b \<Rightarrow> (Ok (), Some (s\<lparr>rs_bytes := b\<rparr>))))"

text \<open>Work on the budget; the second component counts what was granted: bytes and calls.\<close>

datatype read_work = ReadRequest | ReadCharge nat

fun budget_step :: "read_work session_event \<Rightarrow> read_budget \<times> nat \<times> nat \<Rightarrow> read_budget \<times> nat \<times> nat" where
  "budget_step (OpenScope _) (slot, bytes, calls) = (budget_enter slot, bytes, calls)"
| "budget_step CloseScope (slot, bytes, calls) = (budget_leave slot, bytes, calls)"
| "budget_step (Work ReadRequest) (slot, bytes, calls) =
     (case budget_request slot of (r, slot') \<Rightarrow> (slot', bytes, if is_ok r then calls + 1 else calls))"
| "budget_step (Work (ReadCharge n)) (slot, bytes, calls) =
     (case budget_charge n slot of (r, slot') \<Rightarrow> (slot', if is_ok r then bytes + n else bytes, calls))"

definition budget_depth :: "read_budget \<times> nat \<times> nat \<Rightarrow> nat" where
  "budget_depth s = (case fst s of None \<Rightarrow> 0 | Some t \<Rightarrow> rs_nesting t)"

text \<open>While a session is open, what is granted and what is left add up to the same totals.\<close>

definition budget_total :: "read_budget \<times> nat \<times> nat \<Rightarrow> (nat \<times> nat) option" where
  "budget_total s = map_option (\<lambda>t. (rs_bytes t + fst (snd s), rs_calls t + snd (snd s))) (fst s)"

interpretation budget: nested_session budget_depth budget_step "\<lambda>s t. budget_total s = budget_total t"
proof
  fix s :: "read_budget \<times> nat \<times> nat" and w :: read_work
  obtain slot bytes calls where s: "s = (slot, bytes, calls)" by (cases s) auto
  show "0 < budget_depth s \<Longrightarrow> budget_depth (budget_step (OpenScope w) s) = Suc (budget_depth s)"
    and "0 < budget_depth s \<Longrightarrow> budget_total s = budget_total (budget_step (OpenScope w) s)"
    by (auto simp: s budget_depth_def budget_enter_def budget_total_def Let_def split: option.splits)
  show "1 < budget_depth s \<Longrightarrow> budget_depth (budget_step CloseScope s) = budget_depth s - 1"
    and "1 < budget_depth s \<Longrightarrow> budget_total s = budget_total (budget_step CloseScope s)"
    by (auto simp: s budget_depth_def budget_leave_def budget_total_def Let_def split: option.splits)
  show "budget_depth (budget_step (Work w) s) = budget_depth s"
    and "0 < budget_depth s \<Longrightarrow> budget_total s = budget_total (budget_step (Work w) s)"
    by (cases w; auto simp: s budget_depth_def budget_request_def budget_charge_def budget_total_def
        split: option.splits)+
qed simp_all

section \<open>Authorization proofs\<close>

type_synonym proof_key = "nat \<times> string \<times> string \<times> string \<times> string"

record auth_session =
  au_nesting :: nat
  au_remaining :: nat
  au_active :: "proof_key list"

type_synonym authorization = "auth_session option"

definition auth_enter :: "authorization \<Rightarrow> authorization" where
  "auth_enter slot =
     (let s = (case slot of None \<Rightarrow> \<lparr>au_nesting = 0, au_remaining = 10000, au_active = []\<rparr> | Some s \<Rightarrow> s)
      in Some (s\<lparr>au_nesting := au_nesting s + 1\<rparr>))"

definition auth_leave :: "authorization \<Rightarrow> authorization" where
  "auth_leave slot =
     (case slot of None \<Rightarrow> None
      | Some s \<Rightarrow>
          let s1 = s\<lparr>au_nesting := au_nesting s - 1\<rparr> in if au_nesting s1 = 0 then None else Some s1)"

text \<open>\<open>Authorization::proof\<close>: the flag says whether a proof was handed out. A set without duplicates.\<close>

definition auth_proof :: "proof_key \<Rightarrow> authorization \<Rightarrow> bool \<times> authorization" where
  "auth_proof key slot =
     (case slot of None \<Rightarrow> (False, None)
      | Some s \<Rightarrow>
          if au_remaining s = 0 \<or> 32 \<le> length (au_active s) then (False, Some s)
          else
            let s1 = s\<lparr>au_remaining := au_remaining s - 1\<rparr> in
            if key \<in> set (au_active s) then (False, Some s1)
            else (True, Some (s1\<lparr>au_active := key # au_active s1\<rparr>)))"

definition auth_drop :: "proof_key \<Rightarrow> authorization \<Rightarrow> authorization" where
  "auth_drop key slot =
     (case slot of None \<Rightarrow> None | Some s \<Rightarrow> Some (s\<lparr>au_active := removeAll key (au_active s)\<rparr>))"

datatype auth_work = TakeProof proof_key | DropProof proof_key

text \<open>The second component counts the proofs handed out since the session opened.\<close>

fun auth_step :: "auth_work session_event \<Rightarrow> authorization \<times> nat \<Rightarrow> authorization \<times> nat" where
  "auth_step (OpenScope _) (slot, n) = (auth_enter slot, n)"
| "auth_step CloseScope (slot, n) = (auth_leave slot, n)"
| "auth_step (Work (TakeProof key)) (slot, n) =
     (case auth_proof key slot of (given, slot') \<Rightarrow> (slot', if given then n + 1 else n))"
| "auth_step (Work (DropProof key)) (slot, n) = (auth_drop key slot, n)"

definition auth_depth :: "authorization \<times> nat \<Rightarrow> nat" where
  "auth_depth s = (case fst s of None \<Rightarrow> 0 | Some t \<Rightarrow> au_nesting t)"

text \<open>Proofs handed out plus proofs left never grow, and the active keys stay distinct and few.\<close>

definition auth_bounded :: "authorization \<times> nat \<Rightarrow> authorization \<times> nat \<Rightarrow> bool" where
  "auth_bounded s t \<longleftrightarrow>
     (case (fst s, fst t) of
        (Some a, Some b) \<Rightarrow>
          au_remaining b + snd t \<le> au_remaining a + snd s
          \<and> (distinct (au_active a) \<and> length (au_active a) \<le> 32 \<longrightarrow>
               distinct (au_active b) \<and> length (au_active b) \<le> 32)
      | (None, None) \<Rightarrow> True
      | _ \<Rightarrow> False)"

interpretation auth: nested_session auth_depth auth_step auth_bounded
proof
  fix s t u :: "authorization \<times> nat" and w :: auth_work
  obtain slot n where s: "s = (slot, n)" by (cases s)
  show "0 < auth_depth s \<Longrightarrow> auth_depth (auth_step (OpenScope w) s) = Suc (auth_depth s)"
    and "0 < auth_depth s \<Longrightarrow> auth_bounded s (auth_step (OpenScope w) s)"
    by (auto simp: s auth_depth_def auth_enter_def auth_bounded_def Let_def split: option.splits)
  show "1 < auth_depth s \<Longrightarrow> auth_depth (auth_step CloseScope s) = auth_depth s - 1"
    and "1 < auth_depth s \<Longrightarrow> auth_bounded s (auth_step CloseScope s)"
    by (auto simp: s auth_depth_def auth_leave_def auth_bounded_def Let_def split: option.splits)
  have few: "length (removeAll k ks) \<le> 32" if "length ks \<le> 32" for k and ks :: "proof_key list"
    using that length_removeAll_less_eq [of k ks] by linarith
  show "auth_depth (auth_step (Work w) s) = auth_depth s"
    by (cases w; cases slot) (simp_all add: s auth_depth_def auth_proof_def auth_drop_def Let_def)
  show "auth_bounded s (auth_step (Work w) s)" if open_scope: "0 < auth_depth s"
  proof -
    obtain a where a: "slot = Some a" using open_scope by (cases slot) (simp_all add: s auth_depth_def)
    show ?thesis
    proof (cases w)
      case (TakeProof key)
      then show ?thesis by (simp add: s a auth_proof_def auth_bounded_def Let_def)
    next
      case (DropProof key)
      then show ?thesis by (simp add: s a auth_drop_def auth_bounded_def distinct_removeAll few)
    qed
  qed
  show "auth_bounded s s" by (auto simp: auth_bounded_def split: option.split)
  show "auth_bounded s t \<Longrightarrow> auth_bounded t u \<Longrightarrow> auth_bounded s u"
    by (auto simp: auth_bounded_def split: option.splits)
qed


section \<open>The operation clock\<close>

text \<open>
  A reading of the trusted clock is \<open>None\<close> when it fails or panics. The depth is a \<open>usize\<close>.
\<close>

record clock_state =
  ck_last_sample :: "int option"
  ck_active :: "(int \<times> nat) option"

definition clock_new :: clock_state where
  "clock_new = \<lparr>ck_last_sample = None, ck_active = None\<rparr>"

definition clock_enter :: "int option \<Rightarrow> clock_state \<Rightarrow> unit result \<times> clock_state" where
  "clock_enter reading st =
     (case ck_active st of
        Some (now, depth) \<Rightarrow>
          if depth = usize_max then (Err E_CLOCK_UNAVAILABLE, st)
          else (Ok (), st\<lparr>ck_active := Some (now, depth + 1)\<rparr>)
      | None \<Rightarrow>
          (case reading of None \<Rightarrow> (Err E_CLOCK_UNAVAILABLE, st)
           | Some now \<Rightarrow>
               if now < 0 \<or> (case ck_last_sample st of None \<Rightarrow> False | Some prev \<Rightarrow> now < prev)
               then (Err E_CLOCK_UNAVAILABLE, st)
               else (Ok (), \<lparr>ck_last_sample = Some now, ck_active = Some (now, 1)\<rparr>)))"

definition clock_leave :: "clock_state \<Rightarrow> clock_state" where
  "clock_leave st =
     (case ck_active st of None \<Rightarrow> st
      | Some (now, depth) \<Rightarrow>
          if depth - 1 = 0 then st\<lparr>ck_active := None\<rparr> else st\<lparr>ck_active := Some (now, depth - 1)\<rparr>)"

definition clock_sample :: "int option \<Rightarrow> int result" where
  "clock_sample reading =
     (case reading of None \<Rightarrow> Err E_CLOCK_UNAVAILABLE
      | Some now \<Rightarrow> if now < 0 then Err E_CLOCK_UNAVAILABLE else Ok now)"

definition clock_current :: "clock_state \<Rightarrow> int result" where
  "clock_current st = ok_or (map_option fst (ck_active st)) E_CLOCK_UNAVAILABLE"

definition trusted_now :: "int option \<Rightarrow> clock_state \<Rightarrow> int result" where
  "trusted_now reading st = (case clock_current st of Inr now \<Rightarrow> Ok now | Inl _ \<Rightarrow> clock_sample reading)"

text \<open>
  A nested scope that cannot be opened leaves the state alone, and its holder has no scope to close.
  The clock's work is the reading it would give, which nothing looks at while a session is open.
\<close>

fun clock_step :: "int option session_event \<Rightarrow> clock_state \<Rightarrow> clock_state" where
  "clock_step (OpenScope reading) st = snd (clock_enter reading st)"
| "clock_step CloseScope st = clock_leave st"
| "clock_step (Work _) st = st"

text \<open>The sessions of one operation: at most \<open>usize::MAX\<close> scopes are ever open at once.\<close>

fun shallow :: "nat \<Rightarrow> 'w session_event list \<Rightarrow> bool" where
  "shallow d [] = True"
| "shallow d (OpenScope _ # es) = (d < usize_max \<and> shallow (Suc d) es)"
| "shallow d (CloseScope # es) = shallow (d - 1) es"
| "shallow d (Work _ # es) = shallow d es"

definition clock_depth :: "clock_state \<Rightarrow> nat" where
  "clock_depth st = (case ck_active st of None \<Rightarrow> 0 | Some (_, d) \<Rightarrow> d)"

lemma clock_run:
  assumes "ck_active st = Some (now, d)" and "0 < d" and "inside d es" and "shallow d es"
  shows "ck_active (fold clock_step es st) = Some (now, depth_after d es)
     \<and> ck_last_sample (fold clock_step es st) = ck_last_sample st"
  using assms
proof (induction es arbitrary: st d)
  case (Cons e es)
  show ?case
  proof (cases e)
    case (OpenScope r)
    with Cons.IH [of "clock_step e st" "Suc d"] Cons.prems show ?thesis by (simp add: clock_enter_def)
  next
    case CloseScope
    with Cons.IH [of "clock_step e st" "d - 1"] Cons.prems show ?thesis by (simp add: clock_leave_def)
  next
    case (Work r)
    with Cons show ?thesis by simp
  qed
qed simp

section \<open>Properties\<close>

text \<open>
  C16: the read budget bounds a whole operation. However its scopes nest, everything granted between
  opening the outermost scope and closing it stays within \<open>READ_BYTES\<close> and \<open>READ_CALLS\<close>, what is left is
  exactly the rest, and closing the outermost scope restores the full budget for the next operation.
\<close>

theorem read_budget_shared:
  assumes "inside 1 es" and "fold budget_step es (budget_enter None, 0, 0) = (slot, bytes, calls)"
  shows "bytes \<le> read_bytes \<and> calls \<le> read_calls \<and> budget_remaining slot = read_bytes - bytes
     \<and> (depth_after 1 es = 1 \<longrightarrow> budget_leave slot = None)"
proof -
  let ?s = "(budget_enter None, 0, 0) :: read_budget \<times> nat \<times> nat"
  have depth: "budget_depth ?s = 1" by (simp add: budget_depth_def budget_enter_def)
  have run: "budget_depth (slot, bytes, calls) = depth_after 1 es \<and> budget_total ?s = budget_total (slot, bytes, calls)"
    using budget.inside_run [of ?s es] assms by (simp add: depth)
  have "0 < depth_after 1 es" by (rule depth_after_pos [OF assms(1)]) simp
  with run obtain t where t: "slot = Some t" "rs_nesting t = depth_after 1 es"
    by (cases slot) (simp_all add: budget_depth_def)
  from run t have "rs_bytes t + bytes = read_bytes" "rs_calls t + calls = read_calls"
    by (simp_all add: budget_total_def budget_enter_def)
  with t show ?thesis by (auto simp: budget_remaining_def budget_leave_def)
qed

theorem read_budget_shared_witness:
  "budget_remaining (fst (fold budget_step [Work (ReadCharge 5), OpenScope ReadRequest, Work (ReadCharge 7), CloseScope]
      (budget_enter None, 0, 0))) = read_bytes - 12"
  using read_budget_shared [of "[Work (ReadCharge 5), OpenScope ReadRequest, Work (ReadCharge 7), CloseScope]"]
  by (simp add: budget_enter_def budget_charge_def budget_leave_def read_bytes_def checked_sub_def)

text \<open>
  C17: authorization work is bounded. Within one operation at most 10,000 proofs are handed out, at
  most 32 are active at a time and never two with one key, so a proof that depends on itself is
  refused instead of recursing.
\<close>

theorem authorization_bounded:
  assumes "inside 1 es" and "fold auth_step es (auth_enter None, 0) = (Some a, given)"
  shows "given \<le> 10000 \<and> length (au_active a) \<le> 32 \<and> distinct (au_active a)
     \<and> (key \<in> set (au_active a) \<longrightarrow> fst (auth_proof key (Some a)) = False)"
proof -
  have "auth_depth (auth_enter None, 0) = 1" by (simp add: auth_depth_def auth_enter_def)
  with auth.inside_run [of "(auth_enter None, 0)" es] assms
  have "auth_bounded (auth_enter None, 0) (Some a, given)" by simp
  then show ?thesis by (auto simp: auth_bounded_def auth_enter_def auth_proof_def Let_def)
qed

theorem authorization_bounded_witness:
  "\<exists>a. fold auth_step [Work (TakeProof (3, ''g'', ''r'', [], ''p''))] (auth_enter None, 0) = (Some a, 1)
     \<and> \<not> fst (auth_proof (3, ''g'', ''r'', [], ''p'') (Some a))"
proof -
  let ?k = "(3, ''g'', ''r'', [], ''p'') :: proof_key"
  let ?a = "\<lparr>au_nesting = 1, au_remaining = 9999, au_active = [?k]\<rparr>"
  have run: "fold auth_step [Work (TakeProof ?k)] (auth_enter None, 0) = (Some ?a, 1)"
    by (simp add: auth_enter_def auth_proof_def)
  from authorization_bounded [OF _ run, of ?k] run show ?thesis by auto
qed

text \<open> An operation sees one time. From opening its outermost scope until that scope is closed the
  operation time is the first reading, whatever the clock gives meanwhile; and the next operation to
  start after it never sees an earlier time.
\<close>

theorem operation_time_stable:
  assumes "ck_active st = None" and "clock_enter reading st = (Ok (), st1)"
    and "inside 1 es" and "shallow 1 es" and "st2 = fold clock_step es st1"
  shows "\<exists>now. reading = Some now \<and> 0 \<le> now \<and> clock_current st2 = Ok now \<and> trusted_now other st2 = Ok now
     \<and> (depth_after 1 es = 1 \<and> clock_enter later (clock_leave st2) = (Ok (), st3) \<longrightarrow>
          (\<exists>next. clock_current st3 = Ok next \<and> now \<le> next))"
proof -
  from assms(1,2) obtain now where now: "reading = Some now" "0 \<le> now"
    "st1 = \<lparr>ck_last_sample = Some now, ck_active = Some (now, 1)\<rparr>"
    by (auto simp: clock_enter_def not_less split: option.splits if_splits)
  from clock_run [of st1 now 1 es] assms(3,4,5) now(3)
  have run: "ck_active st2 = Some (now, depth_after 1 es)" "ck_last_sample st2 = Some now" by simp_all
  have "\<exists>next. clock_current st3 = Ok next \<and> now \<le> next"
    if "depth_after 1 es = 1" "clock_enter later (clock_leave st2) = (Ok (), st3)"
    using that run by (auto simp: clock_leave_def clock_enter_def clock_current_def ok_or_def not_less
        split: option.splits if_splits)
  with now run show ?thesis by (auto simp: clock_current_def trusted_now_def ok_or_def)
qed

theorem operation_time_stable_witness:
  "clock_current (fold clock_step [OpenScope (Some 3), Work None, CloseScope] (snd (clock_enter (Some 7) clock_new)))
     = Ok 7"
proof -
  have enter: "clock_enter (Some 7) clock_new = (Ok (), \<lparr>ck_last_sample = Some 7, ck_active = Some (7, 1)\<rparr>)"
    by (simp add: clock_enter_def clock_new_def)
  have "ck_active clock_new = None" "inside 1 [OpenScope (Some (3 :: int)), Work None, CloseScope]"
    "shallow 1 [OpenScope (Some (3 :: int)), Work None, CloseScope]"
    by (simp_all add: clock_new_def usize_max_def)
  from operation_time_stable [OF this(1) enter this(2,3) refl] show ?thesis by (auto simp: enter)
qed

end
