(* ===== verification/Fact_Writes.thy ===== *)
theory Fact_Writes
  imports Fact_Model Visibility
begin

text \<open>
  Fact writes (\<open>facts.rs\<close>): the records of a graph, their keys and index keys, the state a write
  builds on, what the writer knows of it, the loop that turns the changes of one write into its
  effective operations, and the check that no surviving record depends on a retracted one. The parts
  of a record the write path never looks at are its \<open>body\<close>.
\<close>

section \<open>Records\<close>

datatype metadata_host =
    HostAssertion string | HostNode string | HostEdge string | HostEntity string | HostGraph

datatype embedding_subject =
    SubjectEntity string | SubjectNode string | SubjectEdge string | SubjectAssertion string

fun subject_id :: "embedding_subject \<Rightarrow> string" where
  "subject_id (SubjectEntity i) = i"
| "subject_id (SubjectNode i) = i"
| "subject_id (SubjectEdge i) = i"
| "subject_id (SubjectAssertion i) = i"

text \<open>The fields every record but a space has.\<close>

record common =
  cm_id :: string
  cm_readers :: "string list"
  cm_reader_groups :: "string list"
  cm_derived_from :: "string list"
  cm_derived_nodes :: "string list"
  cm_derived_snapshots :: "string list"
  cm_valid :: "valid_time option"
  cm_body :: string

datatype gfact =
    GNode common string string
  | GEdge common string string string
  | GStructural common string string string
  | GAssertion common string
  | GAttachment common metadata_host string
  | GSpace string string
  | GEmbedding common string embedding_subject

fun gf_kind :: "gfact \<Rightarrow> fact_kind" where
  "gf_kind (GNode _ _ _) = FkNode"
| "gf_kind (GEdge _ _ _ _) = FkEdge"
| "gf_kind (GStructural _ _ _ _) = FkStructuralEdge"
| "gf_kind (GAssertion _ _) = FkAssertion"
| "gf_kind (GAttachment _ _ _) = FkAttachment"
| "gf_kind (GSpace _ _) = FkEmbeddingSpace"
| "gf_kind (GEmbedding _ _ _) = FkEmbedding"

fun gf_common :: "gfact \<Rightarrow> common option" where
  "gf_common (GNode c _ _) = Some c"
| "gf_common (GEdge c _ _ _) = Some c"
| "gf_common (GStructural c _ _ _) = Some c"
| "gf_common (GAssertion c _) = Some c"
| "gf_common (GAttachment c _ _) = Some c"
| "gf_common (GSpace _ _) = None"
| "gf_common (GEmbedding c _ _) = Some c"

fun gf_key_id :: "gfact \<Rightarrow> string" where
  "gf_key_id (GNode c _ _) = cm_id c"
| "gf_key_id (GEdge c _ _ _) = cm_id c"
| "gf_key_id (GStructural c _ _ _) = cm_id c"
| "gf_key_id (GAssertion c _) = cm_id c"
| "gf_key_id (GAttachment c _ _) = cm_id c"
| "gf_key_id (GSpace i _) = i"
| "gf_key_id (GEmbedding c _ _) = cm_id c"

type_synonym gkey = "namespace \<times> string"

definition gf_key :: "gfact \<Rightarrow> gkey" where
  "gf_key f = (kind_namespace (gf_kind f), gf_key_id f)"

definition fact_readers :: "gfact \<Rightarrow> string list" where
  "fact_readers f = (case gf_common f of None \<Rightarrow> [] | Some c \<Rightarrow> cm_readers c)"

definition fact_reader_groups :: "gfact \<Rightarrow> string list" where
  "fact_reader_groups f = (case gf_common f of None \<Rightarrow> [] | Some c \<Rightarrow> cm_reader_groups c)"

fun is_carrier :: "gfact \<Rightarrow> bool" where
  "is_carrier (GNode c _ _) = (cm_derived_snapshots c \<noteq> [])"
| "is_carrier (GEdge c _ _ _) = (cm_derived_snapshots c \<noteq> [])"
| "is_carrier (GStructural _ _ _ _) = False"
| "is_carrier (GAssertion c _) = (cm_derived_snapshots c \<noteq> [])"
| "is_carrier (GAttachment c _ _) =
     (cm_derived_snapshots c \<noteq> [] \<or> cm_derived_from c \<noteq> [] \<or> cm_derived_nodes c \<noteq> [])"
| "is_carrier (GSpace _ _) = False"
| "is_carrier (GEmbedding _ _ _) = False"

definition no_index :: index_keys where
  "no_index = \<lparr>ik_entity = None, ik_subject = None, ik_object = None, ik_predicate = None,
     ik_valid = None, ik_carrier = False\<rparr>"

fun anchor_keys :: "gfact \<Rightarrow> index_keys" where
  "anchor_keys (GNode c entity _) =
     no_index\<lparr>ik_entity := Some entity, ik_subject := Some (cm_id c), ik_valid := cm_valid c\<rparr>"
| "anchor_keys (GEdge c from to predicate) =
     no_index\<lparr>ik_subject := Some from, ik_object := Some to, ik_predicate := Some predicate,
       ik_valid := cm_valid c\<rparr>"
| "anchor_keys (GStructural _ from to predicate) =
     no_index\<lparr>ik_subject := Some from, ik_object := Some to, ik_predicate := Some predicate\<rparr>"
| "anchor_keys (GAssertion c edge) = no_index\<lparr>ik_subject := Some edge, ik_valid := cm_valid c\<rparr>"
| "anchor_keys (GAttachment c host key) =
     (let (entity, subj) = (case host of HostEntity i \<Rightarrow> (Some i, None) | HostNode i \<Rightarrow> (None, Some i)
            | HostEdge i \<Rightarrow> (None, Some i) | HostAssertion i \<Rightarrow> (None, Some i) | HostGraph \<Rightarrow> (None, None))
      in no_index\<lparr>ik_entity := entity, ik_subject := subj, ik_predicate := Some key, ik_valid := cm_valid c\<rparr>)"
| "anchor_keys (GSpace _ _) = no_index"
| "anchor_keys (GEmbedding c space subj) =
     (let (entity, sid) = (case subj of SubjectEntity i \<Rightarrow> (Some i, None) | other \<Rightarrow> (None, Some (subject_id other)))
      in no_index\<lparr>ik_entity := entity, ik_subject := sid, ik_predicate := Some space, ik_valid := cm_valid c\<rparr>)"

definition index_keys_of :: "gfact \<Rightarrow> index_keys" where
  "index_keys_of f = (anchor_keys f)\<lparr>ik_carrier := is_carrier f\<rparr>"

section \<open>Clauses, identity and dependence\<close>

definition clause_within :: "string list \<Rightarrow> string list \<Rightarrow> string list \<Rightarrow> string list \<Rightarrow> bool" where
  "clause_within readers groups of_readers of_groups \<longleftrightarrow>
     of_readers = [] \<and> of_groups = []
     \<or> \<not> (readers = [] \<and> groups = []) \<and> list_all (\<lambda>r. r \<in> set of_readers) readers
        \<and> list_all (\<lambda>g. g \<in> set of_groups) groups"

definition widens :: "gfact \<Rightarrow> gfact \<Rightarrow> bool" where
  "widens old new \<longleftrightarrow> \<not> clause_within (fact_readers new) (fact_reader_groups new)
     (fact_readers old) (fact_reader_groups old)"

definition same_structure :: "gfact \<Rightarrow> gfact \<Rightarrow> bool" where
  "same_structure old new =
     (case old of
        GNode _ e s \<Rightarrow> (case new of GNode _ e' s' \<Rightarrow> e = e' \<and> s = s' | _ \<Rightarrow> False)
      | GEdge _ f t p \<Rightarrow> (case new of GEdge _ f' t' p' \<Rightarrow> (f, t, p) = (f', t', p') | _ \<Rightarrow> False)
      | GStructural _ f t p \<Rightarrow> (case new of GStructural _ f' t' p' \<Rightarrow> (f, t, p) = (f', t', p') | _ \<Rightarrow> False)
      | GAssertion _ e \<Rightarrow> (case new of GAssertion _ e' \<Rightarrow> e = e' | _ \<Rightarrow> False)
      | GAttachment _ h k \<Rightarrow> (case new of GAttachment _ h' k' \<Rightarrow> h = h' \<and> k = k' | _ \<Rightarrow> False)
      | GSpace _ _ \<Rightarrow> old = new
      | GEmbedding _ sp s \<Rightarrow> (case new of GEmbedding _ sp' s' \<Rightarrow> sp = sp' \<and> s = s' | _ \<Rightarrow> False))"

definition depends_on :: "gfact \<Rightarrow> gfact \<Rightarrow> bool" where
  "depends_on dependent target =
     (case dependent of
        GEdge _ from to _ \<Rightarrow> (case target of GNode n _ _ \<Rightarrow> from = cm_id n \<or> to = cm_id n | _ \<Rightarrow> False)
      | GStructural _ from to _ \<Rightarrow> (case target of GNode n _ _ \<Rightarrow> from = cm_id n \<or> to = cm_id n | _ \<Rightarrow> False)
      | GAssertion _ edge \<Rightarrow> (case target of GStructural e _ _ _ \<Rightarrow> edge = cm_id e | _ \<Rightarrow> False)
      | GAttachment _ host _ \<Rightarrow>
          (case host of
             HostNode i \<Rightarrow> (case target of GNode n _ _ \<Rightarrow> i = cm_id n | _ \<Rightarrow> False)
           | HostEdge i \<Rightarrow> (case target of GEdge e _ _ _ \<Rightarrow> i = cm_id e | GStructural e _ _ _ \<Rightarrow> i = cm_id e | _ \<Rightarrow> False)
           | HostAssertion i \<Rightarrow> (case target of GAssertion a _ \<Rightarrow> i = cm_id a | _ \<Rightarrow> False)
           | _ \<Rightarrow> False)
      | GEmbedding _ _ subj \<Rightarrow>
          (case subj of
             SubjectNode i \<Rightarrow> (case target of GNode n _ _ \<Rightarrow> i = cm_id n | _ \<Rightarrow> False)
           | SubjectEdge i \<Rightarrow> (case target of GEdge e _ _ _ \<Rightarrow> i = cm_id e | GStructural e _ _ _ \<Rightarrow> i = cm_id e | _ \<Rightarrow> False)
           | SubjectAssertion i \<Rightarrow> (case target of GAssertion a _ \<Rightarrow> i = cm_id a | _ \<Rightarrow> False)
           | _ \<Rightarrow> False)
      | _ \<Rightarrow> False)"

section \<open>The state a write builds on\<close>

record seen =
  sn_fact :: gfact
  sn_recorded_in :: "string option"
  sn_writer :: "string option"

text \<open>
  A snapshot is its list of facts; a fact revision is what the store returns at it: the live facts
  by key, each with its recording revision and writer.
\<close>

datatype parent =
    EmptyParent
  | SnapshotParent "gfact list"
  | FactParent "(gkey, gfact \<times> string \<times> string) btree_map"

definition parent_get :: "parent \<Rightarrow> gkey \<Rightarrow> seen option" where
  "parent_get parent k =
     (case parent of
        EmptyParent \<Rightarrow> None
      | SnapshotParent data \<Rightarrow>
          map_option (\<lambda>f. \<lparr>sn_fact = f, sn_recorded_in = None, sn_writer = None\<rparr>)
            (List.find (\<lambda>f. gf_key f = k) data)
      | FactParent rows \<Rightarrow>
          map_option (\<lambda>(f, r, w). \<lparr>sn_fact = f, sn_recorded_in = Some r, sn_writer = Some w\<rparr>) (map_of rows k))"

definition parent_facts :: "parent \<Rightarrow> gfact list" where
  "parent_facts parent =
     (case parent of EmptyParent \<Rightarrow> [] | SnapshotParent data \<Rightarrow> data | FactParent rows \<Rightarrow> map (fst \<circ> snd) rows)"

text \<open>The four keys \<open>parent_select\<close> is called with.\<close>

record select_keys =
  sl_kind :: "fact_kind option"
  sl_entity :: "string option"
  sl_subject :: "string option"
  sl_object :: "string option"

definition select_none :: select_keys where
  "select_none = \<lparr>sl_kind = None, sl_entity = None, sl_subject = None, sl_object = None\<rparr>"

definition select_matches :: "select_keys \<Rightarrow> gfact \<Rightarrow> bool" where
  "select_matches s f \<longleftrightarrow>
     (let keys = index_keys_of f in
        (case sl_kind s of None \<Rightarrow> True | Some k \<Rightarrow> k = gf_kind f)
        \<and> same_key (sl_entity s) (ik_entity keys) \<and> same_key (sl_subject s) (ik_subject keys)
        \<and> same_key (sl_object s) (ik_object keys))"

definition select_limit :: nat where
  "select_limit = 1000000"

definition parent_select :: "parent \<Rightarrow> select_keys \<Rightarrow> gfact list result" where
  "parent_select parent s =
     (let found = filter (select_matches s) (parent_facts parent) in
      case parent of FactParent _ \<Rightarrow> if select_limit < length found then Err E_BUDGET else Ok found
      | _ \<Rightarrow> Ok found)"

section \<open>What the writer knows\<close>

record writer_view =
  vw_access :: "access option"
  vw_registry :: bool
  vw_principal :: string
  vw_snapshot_writer :: "string option"

definition fact_admits :: "access \<Rightarrow> gfact \<Rightarrow> bool" where
  "fact_admits acc f = record_admits (fact_readers f) (fact_reader_groups f) acc"

definition endpoints :: "gfact \<Rightarrow> string list" where
  "endpoints f = (case f of GEdge _ from to _ \<Rightarrow> [from, to] | GStructural _ from to _ \<Rightarrow> [from, to] | _ \<Rightarrow> [])"

definition writer_reads :: "parent \<Rightarrow> gfact \<Rightarrow> access \<Rightarrow> bool" where
  "writer_reads parent f acc \<longleftrightarrow>
     fact_admits acc f
     \<and> list_all (\<lambda>node. case parent_get parent (NsNode, node) of
          None \<Rightarrow> True | Some s \<Rightarrow> fact_admits acc (sn_fact s)) (endpoints f)"

definition writer_knows :: "parent \<Rightarrow> seen \<Rightarrow> writer_view \<Rightarrow> bool" where
  "writer_knows parent s view \<longleftrightarrow>
     (case vw_access view of
        None \<Rightarrow> True
      | Some acc \<Rightarrow>
          if writer_reads parent (sn_fact s) acc then True
          else if vw_registry view then False
          else
            (case parent of FactParent _ \<Rightarrow> sn_writer s | SnapshotParent _ \<Rightarrow> vw_snapshot_writer view
             | EmptyParent \<Rightarrow> None) = Some (vw_principal view))"

definition known_parent :: "parent \<Rightarrow> gkey \<Rightarrow> writer_view \<Rightarrow> gfact option" where
  "known_parent parent k view =
     (case parent_get parent k of None \<Rightarrow> None
      | Some s \<Rightarrow> if writer_knows parent s view then Some (sn_fact s) else None)"

section \<open>The effective operations\<close>

datatype expectation = ExpectAbsent | UnchangedSince string

datatype write_change =
    AssertChange gfact
  | CorrectChange gfact "expectation option" bool
  | RetractChange fact_kind string "expectation option"

text \<open>The version of a fact at an earlier revision of the graph is the argument \<open>history\<close>.\<close>

type_synonym history = "string \<Rightarrow> gkey \<Rightarrow> seen option result"

definition check_expectation :: "history \<Rightarrow> gkey \<Rightarrow> seen option \<Rightarrow> expectation option \<Rightarrow> unit result" where
  "check_expectation history k live expected =
     (case expected of
        None \<Rightarrow> Ok ()
      | Some ExpectAbsent \<Rightarrow> ensure (live = None) E_CONFLICT
      | Some (UnchangedSince revision) \<Rightarrow>
          rbind (check_id revision) (\<lambda>_.
          rbind (history revision k) (\<lambda>then_seen.
            ensure (case (live, then_seen) of
                (Some n, Some t) \<Rightarrow> sn_fact n = sn_fact t
                  \<and> (case (sn_recorded_in n, sn_recorded_in t) of (Some a, Some b) \<Rightarrow> a = b | _ \<Rightarrow> True)
              | _ \<Rightarrow> False) E_CONFLICT)))"

record write_state =
  wr_ops :: "(gkey, gfact option) btree_map"
  wr_before :: "(gkey, gfact option) btree_map"

fun change_target :: "write_change \<Rightarrow> gkey \<times> fact_kind" where
  "change_target (AssertChange f) = (gf_key f, gf_kind f)"
| "change_target (CorrectChange f _ _) = (gf_key f, gf_kind f)"
| "change_target (RetractChange kind i _) = ((kind_namespace kind, i), kind)"

text \<open>The live version a change is compared with: absent when the writer does not know it.\<close>

definition live_for :: "parent \<Rightarrow> writer_view \<Rightarrow> write_change \<Rightarrow> gkey \<Rightarrow> seen option result" where
  "live_for parent view change k =
     (case parent_get parent k of
        None \<Rightarrow> Ok None
      | Some s \<Rightarrow>
          if writer_knows parent s view then Ok (Some s)
          else case change of AssertChange _ \<Rightarrow> Err E_CONFLICT | _ \<Rightarrow> Ok None)"

fun effect :: "history \<Rightarrow> bool \<Rightarrow> gkey \<Rightarrow> seen option \<Rightarrow> write_change \<Rightarrow> (gkey \<times> gfact option) option result" where
  "effect history propagation k live (AssertChange f) =
     (case live of None \<Rightarrow> Ok (Some (k, Some f))
      | Some l \<Rightarrow> if sn_fact l = f then Ok None else Err E_CONFLICT)"
| "effect history propagation k live (CorrectChange f expected widen) =
     rbind (check_expectation history k live expected) (\<lambda>_.
     rbind (ok_or live E_CONFLICT) (\<lambda>l.
     rbind (ensure (same_structure (sn_fact l) f) E_CONFLICT) (\<lambda>_.
     rbind (ensure (\<not> (propagation \<and> \<not> widen \<and> widens (sn_fact l) f)) E_READERS_WIDENED) (\<lambda>_.
       Ok (if sn_fact l \<noteq> f then Some (k, Some f) else None)))))"
| "effect history propagation k live (RetractChange kind _ expected) =
     rbind (ensure (kind \<noteq> FkEmbeddingSpace) E_CONFLICT) (\<lambda>_.
     rbind (check_expectation history k live expected) (\<lambda>_.
     rbind (ensure (live \<noteq> None) E_CONFLICT) (\<lambda>_. Ok (Some (k, None)))))"

definition collect_change ::
  "history \<Rightarrow> bool \<Rightarrow> parent \<Rightarrow> writer_view \<Rightarrow> write_state \<Rightarrow> write_change \<Rightarrow> write_state result" where
  "collect_change history propagation parent view acc change =
     (let (k, kind) = change_target change in
      rbind (ensure (case change of RetractChange _ i _ \<Rightarrow> valid_id i | _ \<Rightarrow> True) E_ID) (\<lambda>_.
      rbind (ensure (map_of (wr_before acc) k = None) E_CONFLICT) (\<lambda>_.
      rbind (live_for parent view change k) (\<lambda>live.
      rbind (ensure (case live of None \<Rightarrow> True | Some l \<Rightarrow> gf_kind (sn_fact l) = kind) E_CONFLICT) (\<lambda>_.
      rbind (effect history propagation k live change) (\<lambda>p.
        Ok (acc\<lparr>wr_ops := (case p of None \<Rightarrow> wr_ops acc | Some (k', x) \<Rightarrow> bm_insert k' x (wr_ops acc)),
                wr_before := bm_insert k (map_option sn_fact live) (wr_before acc)\<rparr>)))))))"

definition max_fact_changes :: nat where
  "max_fact_changes = 100000"

definition collect_changes ::
  "history \<Rightarrow> bool \<Rightarrow> parent \<Rightarrow> writer_view \<Rightarrow> write_change list \<Rightarrow> write_state result" where
  "collect_changes history propagation parent view changes =
     rbind (ensure (changes \<noteq> []) E_FACT_WRITE) (\<lambda>_.
     rbind (ensure (length changes \<le> max_fact_changes) E_BUDGET) (\<lambda>_.
       try_fold (collect_change history propagation parent view) \<lparr>wr_ops = [], wr_before = []\<rparr> changes))"

section \<open>Dependent records\<close>

definition post_state :: "parent \<Rightarrow> write_state \<Rightarrow> gkey \<Rightarrow> gfact option" where
  "post_state parent acc k =
     (case map_of (wr_ops acc) k of Some x \<Rightarrow> x | None \<Rightarrow> map_option sn_fact (parent_get parent k))"

text \<open>What references are resolved against: in a registry store, only records the writer knows.\<close>

definition known_state :: "parent \<Rightarrow> writer_view \<Rightarrow> write_state \<Rightarrow> gkey \<Rightarrow> gfact option" where
  "known_state parent view acc k =
     (case map_of (wr_ops acc) k of Some x \<Rightarrow> x
      | None \<Rightarrow> if \<not> vw_registry view then post_state parent acc k else known_parent parent k view)"

definition entity_nodes_left :: "parent \<Rightarrow> write_state \<Rightarrow> string \<Rightarrow> nat result" where
  "entity_nodes_left parent acc entity =
     rbind (parent_select parent (select_none\<lparr>sl_kind := Some FkNode, sl_entity := Some entity\<rparr>)) (\<lambda>nodes.
       Ok (length (filter (\<lambda>f. post_state parent acc (gf_key f) \<noteq> None) nodes)
         + length (filter (\<lambda>(_, x). case x of
               Some (GNode c e s) \<Rightarrow> e = entity \<and>
                 (case map_of (wr_before acc) (gf_key (GNode c e s)) of Some (Some _) \<Rightarrow> False | _ \<Rightarrow> True)
             | _ \<Rightarrow> False) (wr_ops acc))))"

definition dependent_filters :: "parent \<Rightarrow> write_state \<Rightarrow> gkey \<Rightarrow> gfact \<Rightarrow> select_keys list result" where
  "dependent_filters parent acc k target =
     (let bySubject = select_none\<lparr>sl_subject := Some (snd k)\<rparr> in
      case target of
        GNode _ entity _ \<Rightarrow>
          rbind (entity_nodes_left parent acc entity) (\<lambda>others.
            Ok ([bySubject, select_none\<lparr>sl_object := Some (snd k)\<rparr>]
              @ (if others = 0 then map (\<lambda>kind. select_none\<lparr>sl_kind := Some kind, sl_entity := Some entity\<rparr>)
                   [FkAttachment, FkEmbedding] else [])))
      | _ \<Rightarrow> Ok [bySubject])"

definition entity_hosted :: "gfact \<Rightarrow> gfact \<Rightarrow> bool" where
  "entity_hosted candidate target =
     (case (candidate, target) of
        (GAttachment _ host _, GNode _ entity _) \<Rightarrow> host = HostEntity entity
      | (GEmbedding _ _ subj, GNode _ entity _) \<Rightarrow> subj = SubjectEntity entity
      | _ \<Rightarrow> False)"

definition check_candidate :: "parent \<Rightarrow> write_state \<Rightarrow> gkey \<Rightarrow> gfact \<Rightarrow> gfact \<Rightarrow> unit result" where
  "check_candidate parent acc k target candidate =
     (if gf_key candidate = k then Ok ()
      else case post_state parent acc (gf_key candidate) of None \<Rightarrow> Ok ()
        | Some after \<Rightarrow>
            ensure (\<not> (entity_hosted candidate target \<or> depends_on after target)) E_DEPENDENT_FACT)"

text \<open>Every retracted record: its candidates by index, each looked up in the post state.\<close>

definition check_dependents :: "parent \<Rightarrow> write_state \<Rightarrow> unit result" where
  "check_dependents parent acc =
     check_each (\<lambda>(k, change).
       case (change, map_of (wr_before acc) k) of
         (None, Some (Some target)) \<Rightarrow>
           rbind (dependent_filters parent acc k target) (\<lambda>filters.
           rbind (try_fold (\<lambda>found s. rbind (parent_select parent s) (\<lambda>more. Ok (found @ more))) [] filters)
             (\<lambda>candidates. check_each (check_candidate parent acc k target) candidates))
       | _ \<Rightarrow> Ok ()) (wr_ops acc)"

end
