(* ===== verification/Fact_Write_Theorems.thy ===== *)
theory Fact_Write_Theorems
  imports Fact_Writes "HOL-Library.Code_Target_Numeral"
begin

text \<open>
  What a fact write guarantees: the post state of a write is what its changes say, a hidden record
  behaves as a missing one, and no record of the parent that survives depends on a retracted one.
\<close>

declare split_paired_All [simp del] split_paired_Ex [simp del]

section \<open>One change\<close>

abbreviation live_fact :: "parent \<Rightarrow> gkey \<Rightarrow> gfact option" where
  "live_fact parent k \<equiv> map_option sn_fact (parent_get parent k)"

fun wanted :: "write_change \<Rightarrow> gfact option" where
  "wanted (AssertChange f) = Some f"
| "wanted (CorrectChange f _ _) = Some f"
| "wanted (RetractChange _ _ _) = None"

abbreviation change_gkey :: "write_change \<Rightarrow> gkey" where
  "change_gkey c \<equiv> fst (change_target c)"

lemma wanted_key: "wanted c = Some f \<Longrightarrow> gf_key f = change_gkey c"
  by (cases c) auto

lemma same_structure_refl [simp]: "same_structure f f"
  by (cases f) (auto simp: same_structure_def)

lemma live_for_Ok:
  "live_for parent view c k = Ok live \<Longrightarrow> live = parent_get parent k
     \<or> live = None \<and> parent_get parent k \<noteq> None \<and> (\<forall>f. c \<noteq> AssertChange f)"
  by (auto simp: live_for_def split: option.splits if_splits write_change.splits)

lemma effect_live:
  assumes "effect history propagation k live c = Ok p" and "\<forall>f. c \<noteq> AssertChange f"
  shows "live \<noteq> None"
  using assms by (cases c) auto

lemma effect_Ok:
  assumes "effect history propagation k live c = Ok p"
  shows "(p = None \<and> wanted c = map_option sn_fact live
      \<or> p = Some (k, wanted c) \<and> wanted c \<noteq> map_option sn_fact live)
    \<and> (\<forall>f l. wanted c = Some f \<longrightarrow> live = Some l \<longrightarrow> same_structure (sn_fact l) f)"
  using assms by (cases c) (auto split: option.splits if_splits)

lemma collect_change_Ok:
  fixes c :: write_change
  assumes "collect_change history propagation parent view acc c = Ok acc'"
  shows "map_of (wr_before acc) (change_gkey c) = None"
    and "wr_before acc' = bm_insert (change_gkey c) (live_fact parent (change_gkey c)) (wr_before acc)"
    and "wr_ops acc' = wr_ops acc \<and> wanted c = live_fact parent (change_gkey c)
      \<or> wr_ops acc' = bm_insert (change_gkey c) (wanted c) (wr_ops acc)
         \<and> wanted c \<noteq> live_fact parent (change_gkey c)"
    and "wanted c = Some f \<Longrightarrow> parent_get parent (change_gkey c) = Some old \<Longrightarrow> same_structure (sn_fact old) f"
proof -
  obtain k kind where t: "change_target c = (k, kind)" by (cases "change_target c")
  from assms t obtain live p where
      fresh: "map_of (wr_before acc) k = None"
      and live: "live_for parent view c k = Ok live"
      and eff: "effect history propagation k live c = Ok p"
      and acc': "acc' = acc\<lparr>wr_ops := (case p of None \<Rightarrow> wr_ops acc | Some (k', x) \<Rightarrow> bm_insert k' x (wr_ops acc)),
                wr_before := bm_insert k (map_option sn_fact live) (wr_before acc)\<rparr>"
    by (auto simp: collect_change_def)
  have whole: "live = parent_get parent k"
    using live_for_Ok [OF live] effect_live [OF eff] by blast
  note e = effect_Ok [OF eff, unfolded whole]
  show "map_of (wr_before acc) (change_gkey c) = None" using fresh t by simp
  show "wr_before acc' = bm_insert (change_gkey c) (live_fact parent (change_gkey c)) (wr_before acc)"
    using acc' whole t by simp
  show "wr_ops acc' = wr_ops acc \<and> wanted c = live_fact parent (change_gkey c)
      \<or> wr_ops acc' = bm_insert (change_gkey c) (wanted c) (wr_ops acc)
         \<and> wanted c \<noteq> live_fact parent (change_gkey c)"
    using acc' e t by auto
  show "wanted c = Some f \<Longrightarrow> parent_get parent (change_gkey c) = Some old \<Longrightarrow> same_structure (sn_fact old) f"
    using e t by auto
qed

section \<open>The loop over the changes\<close>

text \<open>What holds of the accumulated write after the changes \<open>done\<close>.\<close>

definition write_inv :: "parent \<Rightarrow> write_change list \<Rightarrow> write_state \<Rightarrow> bool" where
  "write_inv parent cs acc \<longleftrightarrow>
     fst ` set (wr_before acc) = change_gkey ` set cs
     \<and> fst ` set (wr_ops acc) \<subseteq> fst ` set (wr_before acc)
     \<and> (\<forall>c \<in> set cs. post_state parent acc (change_gkey c) = wanted c)
     \<and> (\<forall>k x. map_of (wr_ops acc) k = Some x \<longrightarrow> x \<noteq> live_fact parent k)
     \<and> (\<forall>k x. map_of (wr_before acc) k = Some x \<longrightarrow> x = live_fact parent k)
     \<and> (\<forall>k f. map_of (wr_ops acc) k = Some (Some f) \<longrightarrow> gf_key f = k
          \<and> (\<forall>old. parent_get parent k = Some old \<longrightarrow> same_structure (sn_fact old) f))
     \<and> bm_ok (wr_ops acc)"

lemma write_inv_keys:
  assumes "write_inv parent cs acc"
  shows "fst ` set (wr_before acc) = change_gkey ` set cs"
    and "fst ` set (wr_ops acc) \<subseteq> fst ` set (wr_before acc)"
    and "fst ` set (wr_ops acc) \<subseteq> change_gkey ` set cs"
  using assms unfolding write_inv_def by blast+

lemma map_of_None_key: "map_of m k = None \<longleftrightarrow> k \<notin> fst ` set m"
  by (simp add: map_of_eq_None_iff)

lemma post_state_insert:
  "wr_ops acc' = bm_insert k x (wr_ops acc) \<Longrightarrow>
     post_state parent acc' = (post_state parent acc)(k := x)"
  by (auto simp: post_state_def fun_eq_iff)

lemma write_inv_step:
  assumes inv: "write_inv parent cs acc"
    and step: "collect_change history propagation parent view acc c = Ok acc'"
  shows "write_inv parent (cs @ [c]) acc'"
proof -
  let ?k = "change_gkey c"
  note s = collect_change_Ok [OF step]
  have new: "?k \<notin> fst ` set (wr_before acc)" using s(1) by (simp add: map_of_eq_None_iff)
  have keys0: "fst ` set (wr_before acc) = change_gkey ` set cs"
      and ops0: "fst ` set (wr_ops acc) \<subseteq> fst ` set (wr_before acc)"
    using write_inv_keys [OF inv] by blast+
  have old: "map_of (wr_ops acc) ?k = None" using new ops0 by (simp only: map_of_eq_None_iff) blast
  have others: "change_gkey d \<noteq> ?k" if "d \<in> set cs" for d
    using new that unfolding keys0 by (metis imageI)
  have keys: "fst ` set (wr_before acc') = change_gkey ` set (cs @ [c])"
    using inv s(2) by (simp add: write_inv_def set_bm_insert_keys)
  have before: "\<forall>k x. map_of (wr_before acc') k = Some x \<longrightarrow> x = live_fact parent k"
    using inv s(2) by (simp add: write_inv_def)
  from s(3) show ?thesis
  proof (elim disjE conjE)
    assume ops: "wr_ops acc' = wr_ops acc" and w: "wanted c = live_fact parent ?k"
    have post: "post_state parent acc' = post_state parent acc" using ops by (simp add: post_state_def fun_eq_iff)
    have "post_state parent acc ?k = wanted c" using w old by (simp add: post_state_def)
    then show ?thesis using inv keys before ops post keys0
      by (simp add: write_inv_def) blast
  next
    assume ops: "wr_ops acc' = bm_insert ?k (wanted c) (wr_ops acc)" and w: "wanted c \<noteq> live_fact parent ?k"
    have sub: "fst ` set (wr_ops acc') \<subseteq> fst ` set (wr_before acc')"
      using ops0 ops s(2) by (simp add: set_bm_insert_keys) blast
    have post: "\<forall>d \<in> set (cs @ [c]). post_state parent acc' (change_gkey d) = wanted d"
      using inv others post_state_insert [OF ops] by (simp add: write_inv_def)
    have struct: "\<forall>k f. map_of (wr_ops acc') k = Some (Some f) \<longrightarrow> gf_key f = k
          \<and> (\<forall>old. parent_get parent k = Some old \<longrightarrow> same_structure (sn_fact old) f)"
      using inv ops wanted_key s(4) by (simp add: write_inv_def)
    have eff: "\<forall>k x. map_of (wr_ops acc') k = Some x \<longrightarrow> x \<noteq> live_fact parent k"
      using inv ops w by (simp add: write_inv_def)
    have "bm_ok (wr_ops acc')" using inv ops by (simp add: write_inv_def)
    with sub post struct eff keys before show ?thesis by (simp add: write_inv_def)
  qed
qed

lemma try_fold_write_inv:
  "try_fold (collect_change history propagation parent view) \<lparr>wr_ops = [], wr_before = []\<rparr> cs = Ok acc \<Longrightarrow>
     write_inv parent cs acc"
proof (induction cs arbitrary: acc rule: rev_induct)
  case Nil
  then show ?case by (auto simp: write_inv_def)
next
  case (snoc c cs)
  then obtain mid where "try_fold (collect_change history propagation parent view) \<lparr>wr_ops = [], wr_before = []\<rparr> cs = Ok mid"
      and "collect_change history propagation parent view mid c = Ok acc"
    by (auto simp: try_fold_append)
  with snoc.IH show ?case by (blast intro: write_inv_step)
qed

lemma collect_changes_inv:
  "collect_changes history propagation parent view cs = Ok acc \<Longrightarrow> write_inv parent cs acc"
  by (auto simp: collect_changes_def intro: try_fold_write_inv)

lemma try_fold_distinct_keys:
  "try_fold (collect_change history propagation parent view) \<lparr>wr_ops = [], wr_before = []\<rparr> cs = Ok acc \<Longrightarrow>
     distinct (map change_gkey cs)"
proof (induction cs arbitrary: acc rule: rev_induct)
  case (snoc c cs)
  then obtain mid where m: "try_fold (collect_change history propagation parent view) \<lparr>wr_ops = [], wr_before = []\<rparr> cs = Ok mid"
      and c: "collect_change history propagation parent view mid c = Ok acc"
    by (auto simp: try_fold_append)
  have "change_gkey c \<notin> change_gkey ` set cs"
    using try_fold_write_inv [OF m] collect_change_Ok(1) [OF c] by (simp add: write_inv_def map_of_eq_None_iff)
  with snoc.IH [OF m] show ?case by simp
qed simp

text \<open>C18: A write takes effect exactly as its changes say.\<close>

theorem write_takes_effect:
  assumes "collect_changes history propagation parent view changes = Ok acc"
  shows "distinct (map change_gkey changes)
    \<and> (\<forall>c \<in> set changes. post_state parent acc (change_gkey c) = wanted c)
    \<and> (\<forall>k. k \<notin> change_gkey ` set changes \<longrightarrow> post_state parent acc k = live_fact parent k)
    \<and> (\<forall>k. map_of (wr_ops acc) k \<noteq> None \<longleftrightarrow> post_state parent acc k \<noteq> live_fact parent k)"
proof (intro conjI)
  note inv = collect_changes_inv [OF assms, unfolded write_inv_def]
  show "distinct (map change_gkey changes)"
    using assms try_fold_distinct_keys by (auto simp: collect_changes_def)
  show "\<forall>c \<in> set changes. post_state parent acc (change_gkey c) = wanted c" using inv by blast
  note keys = write_inv_keys(3) [OF collect_changes_inv [OF assms]]
  have "map_of (wr_ops acc) k = None" if "k \<notin> change_gkey ` set changes" for k
    using keys that by (simp only: map_of_eq_None_iff) blast
  then show "\<forall>k. k \<notin> change_gkey ` set changes \<longrightarrow> post_state parent acc k = live_fact parent k"
    by (simp add: post_state_def)
  have effective: "\<forall>k x. map_of (wr_ops acc) k = Some x \<longrightarrow> x \<noteq> live_fact parent k" using inv by blast
  show "\<forall>k. map_of (wr_ops acc) k \<noteq> None \<longleftrightarrow> post_state parent acc k \<noteq> live_fact parent k"
  proof
    fix k show "map_of (wr_ops acc) k \<noteq> None \<longleftrightarrow> post_state parent acc k \<noteq> live_fact parent k"
      using effective by (cases "map_of (wr_ops acc) k") (simp_all add: post_state_def)
  qed
qed

section \<open>Hidden records\<close>

text \<open>The parent as the writer knows it: hidden records left out.\<close>

fun known_part :: "parent \<Rightarrow> writer_view \<Rightarrow> parent" where
  "known_part EmptyParent view = EmptyParent"
| "known_part (SnapshotParent data) view =
     SnapshotParent (filter (\<lambda>f. known_parent (SnapshotParent data) (gf_key f) view \<noteq> None) data)"
| "known_part (FactParent rows) view =
     FactParent (filter (\<lambda>row. known_parent (FactParent rows) (fst row) view \<noteq> None) rows)"

text \<open>Every key of a revision is live once; a stored row is filed under its own key.\<close>

fun parent_ok :: "parent \<Rightarrow> bool" where
  "parent_ok EmptyParent = True"
| "parent_ok (SnapshotParent data) = distinct (map gf_key data)"
| "parent_ok (FactParent rows) = (bm_ok rows \<and> list_all (\<lambda>(k, f, _). gf_key f = k) rows)"

definition hidden :: "parent \<Rightarrow> writer_view \<Rightarrow> gkey \<Rightarrow> bool" where
  "hidden parent view k \<longleftrightarrow> parent_get parent k \<noteq> None \<and> known_parent parent k view = None"

lemma find_filter_key:
  "distinct (map g xs) \<Longrightarrow>
     List.find (\<lambda>f. g f = k) (filter (\<lambda>f. P (g f)) xs) = (if P k then List.find (\<lambda>f. g f = k) xs else None)"
  by (induction xs) (auto simp: find_None_iff)

lemma map_of_filter_key: "map_of (filter (\<lambda>row. P (fst row)) m) k = (if P k then map_of m k else None)"
  by (induction m) auto

lemma parent_get_known_part:
  assumes "parent_ok parent"
  shows "parent_get (known_part parent view) k
    = (if known_parent parent k view = None then None else parent_get parent k)"
proof (cases parent)
  case EmptyParent
  then show ?thesis by (simp add: parent_get_def)
next
  case (SnapshotParent data)
  with assms show ?thesis
    using find_filter_key [of gf_key data k "\<lambda>k. known_parent parent k view \<noteq> None"]
    by (simp add: parent_get_def split: if_splits)
next
  case (FactParent rows)
  then show ?thesis
    using map_of_filter_key [of "\<lambda>k. known_parent parent k view \<noteq> None" rows k]
    by (simp add: parent_get_def split: if_splits)
qed

lemma known_parent_None:
  "known_parent parent k view = None \<longleftrightarrow>
     (case parent_get parent k of None \<Rightarrow> True | Some s \<Rightarrow> \<not> writer_knows parent s view)"
  by (simp add: known_parent_def split: option.splits)

lemma writer_reads_known_part:
  assumes "parent_ok parent" and "writer_reads parent f acc"
  shows "writer_reads (known_part parent view) f acc"
  using assms by (auto simp: writer_reads_def parent_get_known_part list_all_iff split: option.splits)

lemma writer_knows_known_part:
  assumes "parent_ok parent" and "writer_knows parent s view"
  shows "writer_knows (known_part parent view) s view"
proof (cases "vw_access view")
  case None
  then show ?thesis by (simp add: writer_knows_def)
next
  case (Some acc)
  then show ?thesis
    using assms writer_reads_known_part [OF assms(1), of "sn_fact s" acc view]
    by (cases parent) (auto simp: writer_knows_def split: if_splits)
qed

lemma live_for_known_part:
  assumes "parent_ok parent" and "\<And>f. c = AssertChange f \<Longrightarrow> \<not> hidden parent view k"
  shows "live_for (known_part parent view) view c k = live_for parent view c k"
proof (cases "parent_get parent k")
  case None
  then show ?thesis by (simp add: live_for_def parent_get_known_part assms(1) known_parent_None)
next
  case (Some s)
  show ?thesis
  proof (cases "writer_knows parent s view")
    case True
    then show ?thesis
      using Some writer_knows_known_part [OF assms(1) True]
      by (simp add: live_for_def parent_get_known_part assms(1) known_parent_None)
  next
    case False
    then have "hidden parent view k" using Some by (simp add: hidden_def known_parent_None)
    then show ?thesis using Some False assms
      by (cases c) (simp_all add: live_for_def parent_get_known_part known_parent_None)
  qed
qed

lemma collect_change_known_part:
  assumes "parent_ok parent" and "\<And>f. c = AssertChange f \<Longrightarrow> \<not> hidden parent view (gf_key f)"
  shows "collect_change history propagation (known_part parent view) view acc c
    = collect_change history propagation parent view acc c"
proof -
  obtain k kind where t: "change_target c = (k, kind)" by (cases "change_target c")
  have "live_for (known_part parent view) view c k = live_for parent view c k"
    using t assms by (intro live_for_known_part) auto
  then show ?thesis by (simp add: collect_change_def t)
qed


section \<open>Dependent records\<close>

lemma depends_on_same_structure:
  "same_structure old new \<Longrightarrow> depends_on new target = depends_on old target"
  by (cases old; cases new) (auto simp: same_structure_def depends_on_def)

lemma entity_hosted_same_structure:
  "same_structure old new \<Longrightarrow> entity_hosted new target = entity_hosted old target"
  by (cases old; cases new) (auto simp: same_structure_def entity_hosted_def)

lemma live_fact_iff:
  assumes "parent_ok parent"
  shows "live_fact parent k = Some f \<longleftrightarrow> f \<in> set (parent_facts parent) \<and> gf_key f = k"
proof (cases parent)
  case EmptyParent
  then show ?thesis by (simp add: parent_get_def parent_facts_def)
next
  case (SnapshotParent data)
  then have "distinct (map gf_key data)" using assms by simp
  then have "List.find (\<lambda>f. gf_key f = k) data = Some f \<longleftrightarrow> f \<in> set data \<and> gf_key f = k"
    by (induction data) auto
  then show ?thesis using SnapshotParent by (simp add: parent_get_def parent_facts_def option.map_comp o_def)
next
  case (FactParent rows)
  then have rows: "distinct (map fst rows)" "\<forall>row \<in> set rows. gf_key (fst (snd row)) = fst row"
    using assms by (auto simp: list_all_iff bm_ok_distinct)
  have "live_fact parent k = map_option fst (map_of rows k)"
    using FactParent by (cases "map_of rows k") (auto simp: parent_get_def)
  also have "\<dots> = Some f \<longleftrightarrow> (\<exists>x. (k, f, x) \<in> set rows)"
    using rows(1) by (auto simp: map_option_eq_Some dest: map_of_SomeD)
  also have "\<dots> \<longleftrightarrow> f \<in> set (parent_facts parent) \<and> gf_key f = k"
    using rows(2) FactParent by (force simp: parent_facts_def)
  finally show ?thesis .
qed

lemma parent_select_Ok:
  "parent_select parent s = Ok found \<Longrightarrow> set found = {f \<in> set (parent_facts parent). select_matches s f}"
  by (auto simp: parent_select_def Let_def split: parent.splits if_splits)

lemma depends_on_selected:
  assumes "depends_on f target" and "gf_key target = k"
  shows "select_matches (select_none\<lparr>sl_subject := Some (snd k)\<rparr>) f
    \<or> (\<exists>c e s. target = GNode c e s) \<and> select_matches (select_none\<lparr>sl_object := Some (snd k)\<rparr>) f"
  using assms
  by (cases f; cases target)
    (auto simp: depends_on_def gf_key_def select_matches_def select_none_def index_keys_of_def no_index_def
      same_key_def Let_def split: metadata_host.splits embedding_subject.splits)

lemma entity_hosted_selected:
  assumes "entity_hosted f (GNode c entity s)"
  shows "\<exists>kind \<in> set [FkAttachment, FkEmbedding].
    select_matches (select_none\<lparr>sl_kind := Some kind, sl_entity := Some entity\<rparr>) f"
  using assms
  by (cases f)
    (auto simp: entity_hosted_def select_matches_def select_none_def index_keys_of_def no_index_def
      same_key_def Let_def split: metadata_host.splits embedding_subject.splits)

lemma candidates_Ok:
  assumes "try_fold (\<lambda>found s. rbind (parent_select parent s) (\<lambda>more. Ok (found @ more))) start filters = Ok found"
  shows "set found = set start \<union> {f \<in> set (parent_facts parent). \<exists>s \<in> set filters. select_matches s f}"
  using assms
proof (induction filters arbitrary: start)
  case (Cons s filters)
  then obtain more where "parent_select parent s = Ok more"
      and "set found = set (start @ more) \<union> {f \<in> set (parent_facts parent). \<exists>s \<in> set filters. select_matches s f}"
    by auto
  then show ?case by (auto dest: parent_select_Ok)
qed simp

text \<open>A record of the parent that is live after the write has kept its references.\<close>

lemma survivor_same_structure:
  assumes inv: "write_inv parent cs acc"
    and old: "live_fact parent k = Some old" and after: "post_state parent acc k = Some new"
  shows "same_structure old new"
proof (cases "map_of (wr_ops acc) k")
  case None
  with old after show ?thesis by (auto simp: post_state_def)
next
  case (Some x)
  with after have "map_of (wr_ops acc) k = Some (Some new)" by (simp add: post_state_def)
  moreover obtain l where "parent_get parent k = Some l" "sn_fact l = old" using old by auto
  ultimately show ?thesis using inv unfolding write_inv_def by blast
qed

lemma entity_nodes_left_pos:
  assumes ok: "parent_ok parent" and inv: "write_inv parent cs acc"
    and left: "entity_nodes_left parent acc entity = Ok n" and pos: "0 < n"
  shows "\<exists>k c s. post_state parent acc k = Some (GNode c entity s)"
proof -
  from left obtain nodes where nodes: "parent_select parent (select_none\<lparr>sl_kind := Some FkNode, sl_entity := Some entity\<rparr>) = Ok nodes"
      and n: "n = length (filter (\<lambda>f. post_state parent acc (gf_key f) \<noteq> None) nodes)
         + length (filter (\<lambda>(_, x). case x of
               Some (GNode c e s) \<Rightarrow> e = entity \<and>
                 (case map_of (wr_before acc) (gf_key (GNode c e s)) of Some (Some _) \<Rightarrow> False | _ \<Rightarrow> True)
             | _ \<Rightarrow> False) (wr_ops acc))"
    by (auto simp: entity_nodes_left_def)
  let ?new = "\<lambda>(_, x). case x of
               Some (GNode c e s) \<Rightarrow> e = entity \<and>
                 (case map_of (wr_before acc) (gf_key (GNode c e s)) of Some (Some _) \<Rightarrow> False | _ \<Rightarrow> True)
             | _ \<Rightarrow> False"
  have new: "\<exists>c s. snd row = Some (GNode c entity s)" if "?new row" for row
    using that by (auto split: prod.splits option.splits gfact.splits)
  from pos n have "filter (\<lambda>f. post_state parent acc (gf_key f) \<noteq> None) nodes \<noteq> [] \<or> filter ?new (wr_ops acc) \<noteq> []"
    by (metis add_gr_0 length_greater_0_conv)
  then consider f new where "f \<in> set nodes" "post_state parent acc (gf_key f) = Some new"
    | k c s where "(k, Some (GNode c entity s)) \<in> set (wr_ops acc)"
  proof (elim disjE)
    assume some: "filter ?new (wr_ops acc) \<noteq> []" and thesis: "\<And>k c s. (k, Some (GNode c entity s)) \<in> set (wr_ops acc) \<Longrightarrow> thesis"
    from some obtain row where "row \<in> set (wr_ops acc)" "?new row" unfolding filter_empty_conv by blast
    with new [of row] thesis [of "fst row"] show thesis by (metis prod.collapse)
  qed (auto simp: filter_empty_conv)
  then show ?thesis
  proof cases
    case 1
    then have "f \<in> set (parent_facts parent)"
        and sel: "select_matches (select_none\<lparr>sl_kind := Some FkNode, sl_entity := Some entity\<rparr>) f"
      using parent_select_Ok [OF nodes] by auto
    then have "live_fact parent (gf_key f) = Some f" using live_fact_iff [OF ok] by blast
    then have same: "same_structure f new" using survivor_same_structure [OF inv] 1 by blast
    from sel obtain c s where "f = GNode c entity s"
      by (cases f) (auto simp: select_matches_def select_none_def index_keys_of_def no_index_def same_key_def)
    with same obtain c' s' where "new = GNode c' entity s'"
      by (cases new) (auto simp: same_structure_def)
    with 1 show ?thesis by blast
  next
    case 2
    have "distinct (map fst (wr_ops acc))" using inv by (simp add: write_inv_def bm_ok_distinct)
    with 2 have "post_state parent acc k = Some (GNode c entity s)" by (simp add: post_state_def)
    then show ?thesis by blast
  qed
qed

lemma check_dependents_survivor:
  assumes ok: "parent_ok parent" and inv: "write_inv parent cs acc"
    and checked: "check_dependents parent acc = Ok ()"
    and target: "live_fact parent k = Some target" and gone: "post_state parent acc k = None"
    and old: "live_fact parent k' = Some old" and after: "post_state parent acc k' = Some new"
  shows "\<exists>filters. dependent_filters parent acc k target = Ok filters
    \<and> ((\<exists>s \<in> set filters. select_matches s old) \<longrightarrow> \<not> entity_hosted old target \<and> \<not> depends_on new target)"
proof -
  have op: "map_of (wr_ops acc) k = Some None"
    using gone target by (auto simp: post_state_def split: option.splits)
  then have "k \<in> fst ` set (wr_before acc)" using write_inv_keys(2) [OF inv] by (force dest: map_of_SomeD)
  then obtain x where "map_of (wr_before acc) k = Some x" by (metis map_of_eq_None_iff not_None_eq)
  then have before: "map_of (wr_before acc) k = Some (Some target)"
    using inv target unfolding write_inv_def by (metis)
  from checked map_of_SomeD [OF op] before obtain filters found where
      filters: "dependent_filters parent acc k target = Ok filters"
      and found: "try_fold (\<lambda>found s. rbind (parent_select parent s) (\<lambda>more. Ok (found @ more))) [] filters = Ok found"
      and each: "\<forall>candidate \<in> set found. check_candidate parent acc k target candidate = Ok ()"
    by (fastforce simp: check_dependents_def)
  have "old \<in> set (parent_facts parent)" and key: "gf_key old = k'" using old live_fact_iff [OF ok] by blast+
  moreover have "k' \<noteq> k" using after gone by auto
  ultimately have "\<not> entity_hosted old target \<and> \<not> depends_on new target"
    if "\<exists>s \<in> set filters. select_matches s old"
    using that each candidates_Ok [OF found] after by (force simp: check_candidate_def)
  with filters show ?thesis by blast
qed

text \<open>
  C20: When the check of dependent records passes, no record of the parent that survives the write
  depends on a retracted one, and a surviving record hosted on the entity of a retracted node still
  has a live node of that entity.
\<close>

theorem no_dangling_dependents:
  assumes "parent_ok parent"
    and "collect_changes history propagation parent view changes = Ok acc"
    and "check_dependents parent acc = Ok ()"
    and "live_fact parent k = Some target" and "post_state parent acc k = None"
    and "live_fact parent k' = Some old" and "post_state parent acc k' = Some new"
  shows "\<not> depends_on new target
    \<and> (\<forall>c entity s. target = GNode c entity s \<and> entity_hosted new target \<longrightarrow>
         (\<exists>k'' c' s'. post_state parent acc k'' = Some (GNode c' entity s')))"
proof -
  note inv = collect_changes_inv [OF assms(2)]
  have key: "gf_key target = k" using assms(1,4) live_fact_iff by blast
  note same = survivor_same_structure [OF inv assms(6,7)]
  obtain filters where filters: "dependent_filters parent acc k target = Ok filters"
      and sel: "(\<exists>s \<in> set filters. select_matches s old) \<Longrightarrow> \<not> entity_hosted old target \<and> \<not> depends_on new target"
    using check_dependents_survivor [OF assms(1) inv assms(3-7)] by blast
  have subj: "select_none\<lparr>sl_subject := Some (snd k)\<rparr> \<in> set filters"
    using filters by (cases target) (auto simp: dependent_filters_def Let_def)
  have obj: "select_none\<lparr>sl_object := Some (snd k)\<rparr> \<in> set filters" if "\<exists>c e s. target = GNode c e s"
    using filters that by (auto simp: dependent_filters_def Let_def)
  have "\<not> depends_on new target"
  proof
    assume dep: "depends_on new target"
    then have "depends_on old target" using depends_on_same_structure [OF same] by simp
    then have "\<exists>s \<in> set filters. select_matches s old"
      using depends_on_selected [OF _ key, of old] subj obj by blast
    with sel dep show False by blast
  qed
  moreover have "\<exists>k'' c' s'. post_state parent acc k'' = Some (GNode c' entity s')"
    if node: "target = GNode c entity s" and hosted: "entity_hosted new target" for c entity s
  proof -
    have host: "entity_hosted old target" using hosted entity_hosted_same_structure [OF same] by simp
    from filters node obtain n where n: "entity_nodes_left parent acc entity = Ok n"
        and fs: "n = 0 \<Longrightarrow> set (map (\<lambda>kind. select_none\<lparr>sl_kind := Some kind, sl_entity := Some entity\<rparr>)
                   [FkAttachment, FkEmbedding]) \<subseteq> set filters"
      by (auto simp: dependent_filters_def Let_def)
    have "0 < n"
    proof (rule ccontr)
      assume "\<not> 0 < n"
      then have "\<exists>s \<in> set filters. select_matches s old"
        using fs entity_hosted_selected [of old c entity s] host node by auto
      with sel host show False by blast
    qed
    then show ?thesis by (rule entity_nodes_left_pos [OF assms(1) inv n])
  qed
  ultimately show ?thesis by blast
qed

section \<open>Concrete writes\<close>

definition bare :: "string \<Rightarrow> string list \<Rightarrow> common" where
  "bare i readers = \<lparr>cm_id = i, cm_readers = readers, cm_reader_groups = [], cm_derived_from = [],
     cm_derived_nodes = [], cm_derived_snapshots = [], cm_valid = None, cm_body = []\<rparr>"

definition demo_parent :: parent where
  "demo_parent = SnapshotParent [GNode (bare ''n'' []) ''e'' ''s'', GNode (bare ''m'' [''bob'']) ''e'' ''s'',
     GEdge (bare ''x'' []) ''n'' ''n'' ''p'', GAttachment (bare ''a'' []) (HostEntity ''e'') ''k'']"

definition demo_view :: writer_view where
  "demo_view = \<lparr>vw_access = Some (access_literal ''ann''), vw_registry = True,
     vw_principal = ''ann'', vw_snapshot_writer = None\<rparr>"

definition demo_write :: "write_change list" where
  "demo_write = [RetractChange FkEdge ''x'' None, RetractChange FkNode ''n'' None]"

definition no_history :: history where
  "no_history = (\<lambda>_ _. Ok None)"

definition demo_acc :: write_state where
  "demo_acc = \<lparr>wr_ops = [((NsNode, ''n''), None), ((NsRecord, ''x''), None)],
     wr_before = [((NsNode, ''n''), Some (GNode (bare ''n'' []) ''e'' ''s'')),
       ((NsRecord, ''x''), Some (GEdge (bare ''x'' []) ''n'' ''n'' ''p''))]\<rparr>"

lemma demo_collected: "collect_changes no_history True demo_parent demo_view demo_write = Ok demo_acc"
  by code_simp

lemma demo_values:
  "parent_ok demo_parent" "check_dependents demo_parent demo_acc = Ok ()"
  "live_fact demo_parent (NsNode, ''n'') = Some (GNode (bare ''n'' []) ''e'' ''s'')"
  "post_state demo_parent demo_acc (NsNode, ''n'') = None"
  "live_fact demo_parent (NsRecord, ''a'') = Some (GAttachment (bare ''a'' []) (HostEntity ''e'') ''k'')"
  "post_state demo_parent demo_acc (NsRecord, ''a'') = Some (GAttachment (bare ''a'' []) (HostEntity ''e'') ''k'')"
  by code_simp+

theorem write_takes_effect_witness:
  "post_state demo_parent demo_acc (NsNode, ''n'') = None
    \<and> post_state demo_parent demo_acc (NsNode, ''m'') = live_fact demo_parent (NsNode, ''m'')"
proof -
  note t = write_takes_effect [OF demo_collected]
  have "RetractChange FkNode ''n'' None \<in> set demo_write" by (simp add: demo_write_def)
  then have "post_state demo_parent demo_acc (change_gkey (RetractChange FkNode ''n'' None)) = wanted (RetractChange FkNode ''n'' None)"
    using t by blast
  moreover have "(NsNode, ''m'') \<notin> change_gkey ` set demo_write" by (simp add: demo_write_def)
  ultimately show ?thesis using t by simp
qed


theorem no_dangling_dependents_witness:
  "\<exists>k c s. post_state demo_parent demo_acc k = Some (GNode c ''e'' s)"
proof -
  have "entity_hosted (GAttachment (bare ''a'' []) (HostEntity ''e'') ''k'') (GNode (bare ''n'' []) ''e'' ''s'')"
    by (simp add: entity_hosted_def)
  with no_dangling_dependents [OF demo_values(1) demo_collected demo_values(2-6)]
  show ?thesis by blast
qed

end
