(* ===== verification/Civil.thy ===== *)
theory Civil
  imports Weave_Prelude
begin

text \<open>
  Civil dates (\<open>weave-hardware/src/table.rs\<close>): the number of days from 1970-01-01 to a date of the
  proleptic Gregorian calendar, the date of a day number, and that the two are inverse. The code's
  divisions are of non-negative numbers or Euclidean, so they are \<open>div\<close> and \<open>mod\<close> here.
\<close>

section \<open>The code\<close>

definition days_in_month :: "int \<Rightarrow> int \<Rightarrow> int" where
  "days_in_month year month =
     (if month = 2 then if year mod 4 = 0 \<and> year mod 100 \<noteq> 0 \<or> year mod 400 = 0 then 29 else 28
      else if month \<in> {4, 6, 9, 11} then 30 else 31)"

definition days_from_civil :: "int \<Rightarrow> int \<Rightarrow> int \<Rightarrow> int" where
  "days_from_civil year m d =
     (let y = (if m \<le> 2 then year - 1 else year);
          era = y div 400;
          yoe = y - era * 400;
          mp = (m + 9) mod 12;
          doy = (153 * mp + 2) div 5 + d - 1;
          doe = yoe * 365 + yoe div 4 - yoe div 100 + doy
      in era * 146097 + doe - 719468)"

definition civil_from_days :: "int \<Rightarrow> int \<times> int \<times> int" where
  "civil_from_days day =
     (let z = day + 719468;
          era = z div 146097;
          doe = z - era * 146097;
          yoe = (doe - doe div 1460 + doe div 36524 - doe div 146096) div 365;
          y = yoe + era * 400;
          doy = doe - (365 * yoe + yoe div 4 - yoe div 100);
          mp = (5 * doy + 2) div 153;
          d = doy - (153 * mp + 2) div 5 + 1;
          m = (if mp < 10 then mp + 3 else mp - 9)
      in (if m \<le> 2 then y + 1 else y, m, d))"

definition valid_date :: "int \<Rightarrow> int \<Rightarrow> int \<Rightarrow> bool" where
  "valid_date y m d \<longleftrightarrow> 1 \<le> m \<and> m \<le> 12 \<and> 1 \<le> d \<and> d \<le> days_in_month y m"

section \<open>Years of an era\<close>

text \<open>
  An era is 400 years that start on March 1st. \<open>year_start\<close> is the day of the era a year starts on,
  and \<open>year_days\<close> its length; \<open>year_number\<close> is the code's way back.
\<close>

definition year_start :: "int \<Rightarrow> int" where
  "year_start y = 365 * y + y div 4 - y div 100"

definition year_leap :: "int \<Rightarrow> bool" where
  "year_leap y \<longleftrightarrow> (y + 1) mod 4 = 0 \<and> (y + 1) mod 100 \<noteq> 0 \<or> (y + 1) mod 400 = 0"

definition year_days :: "int \<Rightarrow> int" where
  "year_days y = (if year_leap y then 366 else 365)"

definition day_scale :: "int \<Rightarrow> int" where
  "day_scale doe = doe - doe div 1460 + doe div 36524 - doe div 146096"

lemma div_eq: "0 < k \<Longrightarrow> k * a \<le> x \<Longrightarrow> x < k * (a + 1) \<Longrightarrow> x div k = (a::int)"
  using int_div_pos_eq [of x k a "x - k * a"] by (simp add: algebra_simps)

lemma div_step: "0 < k \<Longrightarrow> (a + 1) div k \<le> a div k + (1::int)"
  using zdiv_mono1 [of "a + 1" "a + k" k] by (simp add: div_add_self2 del: add.commute)

lemma day_scale_step:
  assumes "0 \<le> d" and "d + 1 < 146097"
  shows "day_scale d \<le> day_scale (d + 1)"
proof -
  have a: "(d + 1) div 1460 \<le> d div 1460 + 1" by (rule div_step) simp
  have b: "d div 36524 \<le> (d + 1) div 36524" by (rule zdiv_mono1) auto
  show ?thesis
  proof (cases "d + 1 = 146096")
    case True
    then have "d = 146095" by simp
    then show ?thesis by (simp add: day_scale_def)
  next
    case False
    have "(d + 1) div 146096 = 0" by (rule div_pos_pos_trivial) (use assms False in linarith)+
    moreover have "d div 146096 = 0" by (rule div_pos_pos_trivial) (use assms False in linarith)+
    ultimately show ?thesis unfolding day_scale_def using a b by linarith
  qed
qed

lemma day_scale_mono:
  assumes "0 \<le> a" and "a \<le> b" and "b < 146097"
  shows "day_scale a \<le> day_scale b"
proof -
  have "day_scale a \<le> day_scale (a + int n)" if "a + int n < 146097" for n
    using that
  proof (induction n)
    case (Suc n)
    have next_day: "a + int (Suc n) = a + int n + 1" by simp
    have "day_scale (a + int n) \<le> day_scale (a + int n + 1)"
      by (rule day_scale_step) (use Suc.prems assms(1) next_day in linarith)+
    moreover have "day_scale a \<le> day_scale (a + int n)"
      by (rule Suc.IH) (use Suc.prems next_day in linarith)
    ultimately show ?case unfolding next_day by linarith
  qed simp
  from this [of "nat (b - a)"] assms show ?thesis by simp
qed

text \<open>A year of an era: its century, the quadrennium of the century and the year of that.\<close>

lemma year_parts:
  fixes y :: int
  assumes "0 \<le> y" and "y < 400"
  obtains c q r where "y = 100 * c + 4 * q + r" and "c \<in> {0, 1, 2, 3}" and "0 \<le> q" and "q < 25"
    and "r \<in> {0, 1, 2, 3}"
proof
  show "y = 100 * (y div 100) + 4 * (y mod 100 div 4) + y mod 100 mod 4" by simp
  have "0 \<le> y div 100" "y div 100 < 4" using assms by simp_all
  then show "y div 100 \<in> {0, 1, 2, 3}" by auto
  show "0 \<le> y mod 100 div 4" "y mod 100 div 4 < 25" by simp_all
  have "0 \<le> y mod 100 mod 4" "y mod 100 mod 4 < 4" by simp_all
  then show "y mod 100 mod 4 \<in> {0, 1, 2, 3}" by auto
qed

text \<open>The year after it in the calendar is a leap year.\<close>

lemma year_parts_values:
  fixes c q r :: int
  assumes "c \<in> {0, 1, 2, 3}" and "0 \<le> q" and "q < 25" and "r \<in> {0, 1, 2, 3}"
  shows "year_start (100 * c + 4 * q + r) = 36524 * c + 1461 * q + 365 * r"
    and "year_leap (100 * c + 4 * q + r) \<longleftrightarrow> r = 3 \<and> (q = 24 \<longrightarrow> c = 3)"
proof -
  have "(100 * c + 4 * q + r) div 4 = 25 * c + q" by (rule div_eq) (use assms in auto)
  moreover have "(100 * c + 4 * q + r) div 100 = c" by (rule div_eq) (use assms in auto)
  ultimately show "year_start (100 * c + 4 * q + r) = 36524 * c + 1461 * q + 365 * r"
    by (simp add: year_start_def)
  have m4: "(100 * c + 4 * q + r + 1) mod 4 = (r + 1) mod 4"
    using mod_mult_self1 [of "r + 1" "25 * c + q" 4] by (simp add: algebra_simps)
  have m100: "(100 * c + 4 * q + r + 1) mod 100 = (4 * q + r + 1) mod 100"
    using mod_mult_self1 [of "4 * q + r + 1" c 100] by (simp add: algebra_simps)
  show "year_leap (100 * c + 4 * q + r) \<longleftrightarrow> r = 3 \<and> (q = 24 \<longrightarrow> c = 3)"
  proof (cases "r = 3")
    case False
    then have "(r + 1) mod 4 \<noteq> 0" using assms by auto
    moreover have "(100 * c + 4 * q + r + 1) mod 400 \<noteq> 0"
    proof
      assume "(100 * c + 4 * q + r + 1) mod 400 = 0"
      then have "400 dvd 100 * c + 4 * q + r + 1" by (simp add: dvd_eq_mod_eq_0)
      moreover have "4 dvd (400::int)" by simp
      ultimately have "4 dvd 100 * c + 4 * q + r + 1" by (rule dvd_trans [rotated])
      then show False using m4 \<open>(r + 1) mod 4 \<noteq> 0\<close> by (simp add: dvd_eq_mod_eq_0)
    qed
    ultimately show ?thesis using False m4 by (simp add: year_leap_def)
  next
    case True
    show ?thesis
    proof (cases "q = 24")
      case True
      with \<open>r = 3\<close> show ?thesis using assms(1) by (auto simp: year_leap_def)
    next
      case False
      then have "(4 * q + r + 1) mod 100 = 4 * q + 4" using \<open>r = 3\<close> assms by simp
      then have "(100 * c + 4 * q + r + 1) mod 100 \<noteq> 0" using m100 assms(2) by simp
      then show ?thesis using \<open>r = 3\<close> False m4 by (simp add: year_leap_def)
    qed
  qed
qed

lemma day_scale_parts:
  fixes c q r k :: int
  assumes "c \<in> {0, 1, 2, 3}" and "0 \<le> q" and "q < 25" and "r \<in> {0, 1, 2, 3}"
  shows "day_scale (36524 * c + 1461 * q + 365 * r) = 365 * (100 * c + 4 * q + r)"
proof -
  let ?s = "36524 * c + 1461 * q + 365 * r"
  have "?s div 1460 = 25 * c + q" by (rule div_eq) (use assms in auto)
  moreover have "?s div 36524 = c" by (rule div_eq) (use assms in auto)
  moreover have "?s div 146096 = 0" by (rule div_eq) (use assms in auto)
  ultimately show ?thesis by (simp add: day_scale_def)
qed

lemma year_last_day:
  assumes "0 \<le> y" and "y < 400"
  shows "day_scale (year_start y + year_days y - 1) < 365 * (y + 1)"
proof -
  obtain c q r where y: "y = 100 * c + 4 * q + r" and p: "c \<in> {0, 1, 2, 3}" "0 \<le> q" "q < 25" "r \<in> {0, 1, 2, 3}"
    by (rule year_parts [OF assms])
  let ?e = "year_start y + year_days y - 1"
  have e: "?e = 36524 * c + 1461 * q + 365 * r + (if r = 3 \<and> (q = 24 \<longrightarrow> c = 3) then 365 else 364)"
    using year_parts_values [OF p] by (simp add: y year_days_def)
  consider "r \<noteq> 3" | "r = 3" "q \<noteq> 24" | "r = 3" "q = 24" "c \<noteq> 3" | "r = 3" "q = 24" "c = 3" by blast
  then show ?thesis
  proof cases
    case 1
    have "?e div 36524 = c" unfolding e by (rule div_eq) (use p 1 in auto)
    moreover have "?e div 146096 = 0" unfolding e by (rule div_eq) (use p 1 in auto)
    moreover have "25 * c + q \<le> ?e div 1460"
      using zdiv_mono1 [of "1460 * (25 * c + q)" ?e 1460] p 1 unfolding e by auto
    ultimately show ?thesis using e 1 y by (simp add: day_scale_def)
  next
    case 2
    then have "q < 24" using p by simp
    then have "?e div 36524 = c" unfolding e by (intro div_eq) (use p 2 in auto)
    moreover have "?e div 146096 = 0" unfolding e by (rule div_eq) (use p 2 \<open>q < 24\<close> in auto)
    moreover have "25 * c + q + 1 \<le> ?e div 1460"
      using zdiv_mono1 [of "1460 * (25 * c + q + 1)" ?e 1460] p 2 unfolding e by auto
    ultimately show ?thesis using e 2 y by (simp add: day_scale_def)
  next
    case 3
    then show ?thesis using p(1) unfolding y
      by (auto simp: day_scale_def year_start_def year_days_def year_leap_def)
  next
    case 4
    then show ?thesis unfolding y
      by (simp add: day_scale_def year_start_def year_days_def year_leap_def)
  qed
qed

lemma year_bounds:
  assumes "0 \<le> y" and "y < 400"
  shows "day_scale (year_start y) = 365 * y" and "0 \<le> year_start y"
    and "year_start y + year_days y \<le> 146097"
    and "y < 399 \<Longrightarrow> year_start y + year_days y = year_start (y + 1)"
    and "y = 399 \<Longrightarrow> year_start y + year_days y = 146097"
proof -
  obtain c q r where y: "y = 100 * c + 4 * q + r" and p: "c \<in> {0, 1, 2, 3}" "0 \<le> q" "q < 25" "r \<in> {0, 1, 2, 3}"
    by (rule year_parts [OF assms])
  note v = year_parts_values [OF p, folded y]
  show "day_scale (year_start y) = 365 * y" using day_scale_parts [OF p] v y by simp
  show "0 \<le> year_start y" "year_start y + year_days y \<le> 146097"
    unfolding v year_days_def using p by auto
  show "y = 399 \<Longrightarrow> year_start y + year_days y = 146097"
    by (simp add: year_start_def year_days_def year_leap_def)
  assume "y < 399"
  consider "r \<noteq> 3" | "r = 3" "q < 24" | "r = 3" "q = 24" "c < 3" using p y \<open>y < 399\<close> by fastforce
  then show "year_start y + year_days y = year_start (y + 1)"
  proof cases
    case 1
    then have "year_start (100 * c + 4 * q + (r + 1)) = 36524 * c + 1461 * q + 365 * (r + 1)"
      using p by (intro year_parts_values(1)) auto
    then show ?thesis using v 1 by (simp add: y year_days_def add.assoc)
  next
    case 2
    then have "year_start (100 * c + 4 * (q + 1) + 0) = 36524 * c + 1461 * (q + 1) + 365 * 0"
      using p by (intro year_parts_values(1)) auto
    then show ?thesis using v 2 by (simp add: y year_days_def algebra_simps)
  next
    case 3
    then have "year_start (100 * (c + 1) + 4 * 0 + 0) = 36524 * (c + 1) + 1461 * 0 + 365 * 0"
      using p by (intro year_parts_values(1)) auto
    then show ?thesis using v 3 by (simp add: y year_days_def algebra_simps)
  qed
qed

lemma year_number:
  assumes "0 \<le> y" and "y < 400" and "0 \<le> doy" and "doy < year_days y"
  shows "day_scale (year_start y + doy) div 365 = y"
proof -
  note b = year_bounds [OF assms(1,2)] year_last_day [OF assms(1,2)]
  have lo: "day_scale (year_start y) \<le> day_scale (year_start y + doy)"
    by (rule day_scale_mono) (use b assms in auto)
  have hi: "day_scale (year_start y + doy) \<le> day_scale (year_start y + year_days y - 1)"
    by (rule day_scale_mono) (use b assms in auto)
  have "365 * y \<le> day_scale (year_start y + doy)" "day_scale (year_start y + doy) < 365 * (y + 1)"
    using lo hi b by linarith+
  then show ?thesis by (intro div_eq) simp_all
qed

lemma year_of_day:
  assumes "0 \<le> doe" and "doe < 146097"
  shows "\<exists>y doy. 0 \<le> y \<and> y < 400 \<and> 0 \<le> doy \<and> doy < year_days y \<and> doe = year_start y + doy"
proof -
  have "\<exists>y \<ge> 0. y < 400 \<and> year_start y \<le> doe \<and> doe < year_start y + year_days y"
    if "doe < year_start (int n) + year_days (int n)" "n < 400" for n
    using that
  proof (induction n)
    case 0
    have "year_start 0 \<le> doe" using assms(1) by (simp add: year_start_def)
    with 0 show ?case by (intro exI [of _ 0]) simp
  next
    case (Suc n)
    show ?case
    proof (cases "year_start (int (Suc n)) \<le> doe")
      case True
      with Suc.prems show ?thesis by (intro exI [of _ "int (Suc n)"]) simp
    next
      case False
      then have "doe < year_start (int n) + year_days (int n)"
        using year_bounds(4) [of "int n"] Suc.prems by (simp add: add.commute)
      with Suc show ?thesis by simp
    qed
  qed
  from this [of 399] year_bounds(5) [of 399] assms obtain y where
    "0 \<le> y" "y < 400" "year_start y \<le> doe" "doe < year_start y + year_days y" by auto
  then show ?thesis by (intro exI [of _ y] exI [of _ "doe - year_start y"]) auto
qed

section \<open>Months of a year\<close>

definition month_start :: "int \<Rightarrow> int" where
  "month_start mp = (153 * mp + 2) div 5"

text \<open>The days of a month of a year that starts in March.\<close>

definition month_days :: "bool \<Rightarrow> int \<Rightarrow> int" where
  "month_days leap mp = (if mp = 11 then if leap then 29 else 28 else month_start (mp + 1) - month_start mp)"

lemma month_cases:
  fixes mp :: int
  assumes "0 \<le> mp" and "mp < 12"
  obtains "mp = 0" | "mp = 1" | "mp = 2" | "mp = 3" | "mp = 4" | "mp = 5" | "mp = 6" | "mp = 7" | "mp = 8"
    | "mp = 9" | "mp = 10" | "mp = 11"
proof -
  have "mp \<in> set [0..11]" using assms by simp
  then show thesis using that by (auto simp: upto.simps)
qed

lemma month_of_day:
  assumes "0 \<le> mp" and "mp < 12" and "0 \<le> d" and "d < month_days leap mp"
  shows "(5 * (month_start mp + d) + 2) div 153 = mp"
    and "month_start mp + d < (if leap then 366 else 365)" and "0 \<le> month_start mp"
  using assms(1,2)
  by (cases rule: month_cases; use assms(3,4) in \<open>simp add: month_days_def month_start_def div_eq split: if_splits\<close>)+

lemma day_in_month:
  assumes "0 \<le> doy" and "doy < (if leap then 366 else 365)" and mp: "mp = (5 * doy + 2) div 153"
  shows "0 \<le> mp" and "mp < 12" and "month_start mp \<le> doy" and "doy - month_start mp < month_days leap mp"
proof -
  have m: "153 * mp \<le> 5 * doy + 2" "5 * doy + 2 < 153 * mp + 153"
    unfolding mp using pos_mod_bound [of 153 "5 * doy + 2"] pos_mod_sign [of 153 "5 * doy + 2"]
      mult_div_mod_eq [of 153 "5 * doy + 2"] by linarith+
  show r: "0 \<le> mp" "mp < 12" using m assms(1,2) by (auto split: if_splits)
  from r show "month_start mp \<le> doy"
    by (cases rule: month_cases) (use m in \<open>simp_all add: month_start_def\<close>)
  from r show "doy - month_start mp < month_days leap mp"
    by (cases rule: month_cases) (use m assms(2) in \<open>simp_all add: month_start_def month_days_def split: if_splits\<close>)
qed

text \<open>The month of the calendar a month of the year from March is.\<close>

definition month_name :: "int \<Rightarrow> int" where
  "month_name mp = (if mp < 10 then mp + 3 else mp - 9)"

lemma month_days_name:
  assumes "0 \<le> mp" and "mp < 12"
  shows "month_days (year_leap y) mp = days_in_month (if mp < 10 then y else y + 1) (month_name mp)"
  using assms
  by (cases rule: month_cases) (simp_all add: month_days_def month_start_def days_in_month_def month_name_def year_leap_def)

section \<open>The two are inverse\<close>

lemma month_name_range:
  assumes "0 \<le> mp" and "mp < 12"
  shows "1 \<le> month_name mp" and "month_name mp \<le> 12" and "month_name mp \<le> 2 \<longleftrightarrow> 10 \<le> mp"
    and "(month_name mp + 9) mod 12 = mp"
  using assms by (cases rule: month_cases; simp add: month_name_def)+

lemma month_number:
  assumes "1 \<le> m" and "m \<le> 12"
  shows "0 \<le> (m + 9) mod 12" and "(m + 9) mod 12 < 12" and "month_name ((m + 9) mod 12) = m"
proof -
  have "m \<in> set [1..12]" using assms by simp
  then show "month_name ((m + 9) mod 12) = m" by (auto simp: upto.simps month_name_def)
qed simp_all

lemma days_in_month_era: "days_in_month (y + 400 * k) m = days_in_month y m"
proof -
  have "(y + 400 * k) mod 400 = y mod 400" by simp
  moreover have "(y + 400 * k) mod 100 = y mod 100" using mod_mult_self2 [of y 100 "4 * k"] by simp
  moreover have "(y + 400 * k) mod 4 = y mod 4" using mod_mult_self2 [of y 4 "100 * k"] by simp
  ultimately show ?thesis by (simp add: days_in_month_def)
qed

text \<open>The date of a day, by its era, year, month from March and day of the month from zero.\<close>

lemma civil_steps:
  assumes era: "(day + 719468) div 146097 = era" and doe: "day + 719468 - era * 146097 = doe"
    and yoe: "day_scale doe div 365 = yoe" and doy: "doe - year_start yoe = doy" and mp: "(5 * doy + 2) div 153 = mp"
  shows "civil_from_days day
      = (if month_name mp \<le> 2 then yoe + era * 400 + 1 else yoe + era * 400, month_name mp, doy - month_start mp + 1)"
  unfolding civil_from_days_def Let_def era doe yoe [unfolded day_scale_def] doy [unfolded year_start_def] mp
    month_name_def month_start_def ..

lemma civil_parts:
  assumes "0 \<le> yoe" and "yoe < 400" and "0 \<le> mp" and "mp < 12" and "0 \<le> d" and "d < month_days (year_leap yoe) mp"
  shows "civil_from_days (era * 146097 + year_start yoe + month_start mp + d - 719468)
      = (if mp < 10 then yoe + era * 400 else yoe + era * 400 + 1, month_name mp, d + 1)"
proof -
  define doe where "doe = year_start yoe + (month_start mp + d)"
  note m = month_of_day [OF assms(3-6)]
  have doy: "0 \<le> month_start mp + d" "month_start mp + d < year_days yoe"
    using m assms(5) by (auto simp: year_days_def)
  have range: "0 \<le> doe" "doe < 146097" using doy year_bounds [OF assms(1,2)] unfolding doe_def by linarith+
  define day where "day = era * 146097 + doe - 719468"
  have "(day + 719468) div 146097 = era" by (rule div_eq) (use range day_def in auto)
  moreover have "day + 719468 - era * 146097 = doe" by (simp add: day_def)
  moreover have "day_scale doe div 365 = yoe" unfolding doe_def by (rule year_number [OF assms(1,2) doy])
  moreover have "doe - year_start yoe = month_start mp + d" by (simp add: doe_def)
  ultimately have "civil_from_days day
      = (if month_name mp \<le> 2 then yoe + era * 400 + 1 else yoe + era * 400, month_name mp,
         month_start mp + d - month_start mp + 1)"
    using m(1) by (rule civil_steps)
  moreover have "day = era * 146097 + year_start yoe + month_start mp + d - 719468"
    by (simp add: day_def doe_def)
  ultimately show ?thesis using month_name_range(3) [OF assms(3,4)] by simp
qed

lemma days_parts:
  assumes "0 \<le> yoe" and "yoe < 400" and "0 \<le> mp" and "mp < 12"
  shows "days_from_civil (if mp < 10 then yoe + era * 400 else yoe + era * 400 + 1) (month_name mp) (d + 1)
      = era * 146097 + year_start yoe + month_start mp + d - 719468"
proof -
  have "(yoe + era * 400) div 400 = era" by (rule div_eq) (use assms in auto)
  then show ?thesis using month_name_range [OF assms(3,4)]
    by (simp add: days_from_civil_def year_start_def month_start_def)
qed

theorem civil_days:
  assumes "valid_date y m d"
  shows "civil_from_days (days_from_civil y m d) = (y, m, d)"
proof -
  define mp where "mp = (m + 9) mod 12"
  define y' where "y' = (if m \<le> 2 then y - 1 else y)"
  have m: "1 \<le> m" "m \<le> 12" and d: "1 \<le> d" "d \<le> days_in_month y m"
    using assms by (simp_all add: valid_date_def)
  note mp = month_number [OF m, folded mp_def]
  let ?yoe = "y' mod 400" and ?era = "y' div 400"
  have yoe: "0 \<le> ?yoe" "?yoe < 400" "?yoe + ?era * 400 = y'" by simp_all
  have m2: "m \<le> 2 \<longleftrightarrow> 10 \<le> mp" using month_name_range(3) [OF mp(1,2)] mp(3) by simp
  have y: "(if mp < 10 then ?yoe + ?era * 400 else ?yoe + ?era * 400 + 1) = y"
    unfolding yoe(3) y'_def using m2 by auto
  have "days_in_month (if mp < 10 then ?yoe else ?yoe + 1) m = days_in_month y m"
  proof -
    have "y = (if mp < 10 then ?yoe else ?yoe + 1) + 400 * ?era" using y by (simp split: if_splits)
    then show ?thesis by (metis days_in_month_era)
  qed
  then have "month_days (year_leap ?yoe) mp = days_in_month y m"
    using month_days_name [OF mp(1,2), of ?yoe] mp(3) by simp
  then have "d - 1 < month_days (year_leap ?yoe) mp" using d by simp
  from civil_parts [OF yoe(1,2) mp(1,2) _ this, of ?era] days_parts [OF yoe(1,2) mp(1,2), of ?era "d - 1"] d(1)
  show ?thesis unfolding mp(3) y by simp
qed

theorem days_civil:
  assumes "civil_from_days n = (y, m, d)"
  shows "valid_date y m d" and "days_from_civil y m d = n"
proof -
  define era where "era = (n + 719468) div 146097"
  let ?doe = "(n + 719468) mod 146097"
  obtain yoe doy where yoe: "0 \<le> yoe" "yoe < 400" and doy: "0 \<le> doy" "doy < year_days yoe"
      and doe: "?doe = year_start yoe + doy"
    using year_of_day [of ?doe] by auto
  define mp where "mp = (5 * doy + 2) div 153"
  have "doy < (if year_leap yoe then 366 else 365)" using doy by (simp add: year_days_def)
  note mp = day_in_month [OF doy(1) this mp_def]
  define k where "k = doy - month_start mp"
  have k: "0 \<le> k" "k < month_days (year_leap yoe) mp" "doy = month_start mp + k"
    using mp(3,4) by (simp_all add: k_def)
  have "n + 719468 = era * 146097 + ?doe" unfolding era_def by (rule div_mult_mod_eq [symmetric])
  then have n: "n = era * 146097 + year_start yoe + month_start mp + k - 719468"
    unfolding doe k(3) by linarith
  have civ: "civil_from_days n = (if mp < 10 then yoe + era * 400 else yoe + era * 400 + 1, month_name mp, k + 1)"
    by (subst n, rule civil_parts [OF yoe mp(1,2) k(1,2)])
  with assms have date: "y = (if mp < 10 then yoe else yoe + 1) + 400 * era" "m = month_name mp" "d = k + 1"
    by auto
  have y_eq: "y = (if mp < 10 then yoe + era * 400 else yoe + era * 400 + 1)" using civ assms by simp
  have "month_days (year_leap yoe) mp = days_in_month y m"
    unfolding date days_in_month_era by (rule month_days_name [OF mp(1,2)])
  then show "valid_date y m d" using month_name_range [OF mp(1,2)] k date by (simp add: valid_date_def)
  have "days_from_civil y m d = era * 146097 + year_start yoe + month_start mp + k - 719468"
    using days_parts [OF yoe mp(1,2), of era k] date(2,3) y_eq by simp
  then show "days_from_civil y m d = n" using n by simp
qed

end
