(* ===== verification/Table_Time.thy ===== *)
theory Table_Time
  imports Civil Decimal_Text
begin

text \<open>
  Times of the tabular importer (\<open>weave-hardware/src/table.rs\<close>): \<open>parse_time\<close> and \<open>format_time\<close>. Texts
  are bytes; the slices of the code start and end next to ASCII bytes, so they are slices of bytes.
\<close>

section \<open>The code\<close>

text \<open>\<open>str::parse::<i64>\<close>: an optional sign, digits, and a value in range.\<close>

definition parse_i64 :: "string \<Rightarrow> int option" where
  "parse_i64 text =
     (let negative = (take 1 text = ''-'');
          ds = (if negative \<or> take 1 text = ''+'' then drop 1 text else text);
          v = (if negative then - digits_value ds else digits_value ds)
      in if ds = [] \<or> \<not> list_all is_digit ds then None
         else if - (2 ^ 63) \<le> v \<and> v < 2 ^ 63 then Some v else None)"

definition slice :: "string \<Rightarrow> nat \<Rightarrow> nat \<Rightarrow> string" where
  "slice text from to = take (to - from) (drop from text)"

text \<open>The closure \<open>num\<close>: the number in a range of bytes.\<close>

definition num_at :: "string \<Rightarrow> nat \<Rightarrow> nat \<Rightarrow> int result" where
  "num_at text from to =
     (if length text < to \<or> slice text from to = [] \<or> \<not> list_all is_digit (slice text from to)
      then Err E_HW_TIME else Ok (digits_value (slice text from to)))"

definition byte_is :: "string \<Rightarrow> nat \<Rightarrow> char \<Rightarrow> bool" where
  "byte_is text i c \<longleftrightarrow> i < length text \<and> text ! i = c"

definition trim_end_z :: "string \<Rightarrow> string" where
  "trim_end_z s = rev (dropWhile (\<lambda>c. c = CHR ''Z'') (rev s))"

text \<open>The fraction after the seconds, and the zone.\<close>

definition parse_zone :: "int \<Rightarrow> string \<Rightarrow> int result" where
  "parse_zone ms rest =
     rbind (case rest of
          CHR ''.'' # fraction \<Rightarrow>
            let digits = trim_end_z fraction in
            if length digits \<noteq> 3 \<or> \<not> list_all is_digit digits then Err E_HW_TIME
            else Ok (ms + digits_value digits, drop 3 fraction)
        | _ \<Rightarrow> Ok (ms, rest))
       (\<lambda>(ms', rest'). if rest' \<noteq> ''Z'' then Err E_HW_TIME else Ok ms')"

definition parse_clock :: "int \<Rightarrow> string \<Rightarrow> int result" where
  "parse_clock ms text =
     (if length text < 20 \<or> \<not> byte_is text 10 CHR ''T'' \<or> \<not> byte_is text 13 CHR '':'' \<or> \<not> byte_is text 16 CHR '':''
      then Err E_HW_TIME
      else
        rbind (num_at text 11 13) (\<lambda>hour.
        rbind (num_at text 14 16) (\<lambda>minute.
        rbind (num_at text 17 19) (\<lambda>second.
          if hour > 23 \<or> minute > 59 \<or> second > 59 then Err E_HW_TIME
          else parse_zone (ms + ((hour * 60 + minute) * 60 + second) * 1000) (drop 19 text)))))"

definition parse_time :: "string \<Rightarrow> int result" where
  "parse_time text =
     (case parse_i64 text of
        Some ms \<Rightarrow> Ok ms
      | None \<Rightarrow>
          if length text < 10 \<or> \<not> byte_is text 4 CHR ''-'' \<or> \<not> byte_is text 7 CHR ''-'' then Err E_HW_TIME
          else
            rbind (num_at text 0 4) (\<lambda>year.
            rbind (num_at text 5 7) (\<lambda>month.
            rbind (num_at text 8 10) (\<lambda>day.
              if \<not> (1 \<le> month \<and> month \<le> 12) \<or> day < 1 \<or> day > days_in_month year month then Err E_HW_TIME
              else
                let ms = days_from_civil year month day * 86400000 in
                if length text = 10 then Ok ms else parse_clock ms text))))"

text \<open>\<open>{n:04}\<close>: zeros after the sign up to the width.\<close>

definition padded :: "nat \<Rightarrow> int \<Rightarrow> string" where
  "padded w n =
     (let sign = (if n < 0 then ''-'' else []); digits = show_nat (nat \<bar>n\<bar>)
      in sign @ replicate (w - length sign - length digits) CHR ''0'' @ digits)"

definition format_time :: "int \<Rightarrow> string" where
  "format_time ms =
     (let days = ms div 86400000; rest = ms mod 86400000 div 1000; (y, m, d) = civil_from_days days;
          date = padded 4 y @ ''-'' @ padded 2 m @ ''-'' @ padded 2 d
      in if rest = 0 then date
         else date @ ''T'' @ padded 2 (rest div 3600) @ '':'' @ padded 2 (rest div 60 mod 60) @ '':''
           @ padded 2 (rest mod 60) @ ''Z'')"

section \<open>Padded numbers\<close>

lemma padded_number:
  assumes "0 \<le> n" and "n < 10 ^ w" and "0 < w"
  shows "length (padded w n) = w" and "list_all is_digit (padded w n)" and "digits_value (padded w n) = n"
proof -
  obtain k where w: "w = Suc k" using assms(3) by (cases w) simp_all
  have "nat n < 10 ^ Suc k" using assms w by (simp add: nat_less_iff)
  then have "length (show_nat (nat n)) \<le> w" unfolding w by (rule length_show_nat)
  then show "length (padded w n) = w" using assms(1) by (simp add: padded_def Let_def)
  have "is_digit CHR ''0''" by (simp add: is_digit_def)
  then show "list_all is_digit (padded w n)"
    using assms(1) show_nat_digits [of "nat n"] by (auto simp: padded_def Let_def list_all_iff)
  show "digits_value (padded w n) = n"
    using assms(1) by (simp add: padded_def Let_def digits_value_append digits_value_show_nat)
qed

text \<open>A text of fixed fields, split at each of them.\<close>

lemma num_at_field:
  assumes "text = before @ padded w n @ after" and "length before = from" and "to = from + w"
    and "0 \<le> n" and "n < 10 ^ w" and "0 < w"
  shows "num_at text from to = Ok n"
proof -
  note p = padded_number [OF assms(4-6)]
  have "slice text from to = padded w n" using assms(1-3) p(1) by (simp add: slice_def)
  moreover have "padded w n \<noteq> []" using p(1) assms(6) by auto
  ultimately show ?thesis using assms(1-3) p by (simp add: num_at_def)
qed

lemma byte_is_field: "text = before @ c # after \<Longrightarrow> length before = i \<Longrightarrow> byte_is text i c"
  by (auto simp: byte_is_def)

section \<open>Round trip\<close>

definition date_text :: "int \<Rightarrow> int \<Rightarrow> int \<Rightarrow> string" where
  "date_text y m d = padded 4 y @ ''-'' @ padded 2 m @ ''-'' @ padded 2 d"

lemma days_in_month_le: "days_in_month y m \<le> 31"
  by (simp add: days_in_month_def)

lemma valid_date_fields:
  assumes "valid_date y m d" and "0 \<le> y" and "y \<le> 9999"
  shows "0 \<le> y" "y < 10 ^ 4" "0 \<le> m" "m < 10 ^ 2" "0 \<le> d" "d < 10 ^ 2"
  using assms days_in_month_le [of y m] by (auto simp: valid_date_def)

lemma not_i64:
  assumes "\<not> is_digit c" and "c \<in> set (drop 1 text)"
  shows "parse_i64 text = None"
proof -
  have "c \<in> set text" using assms(2) by (rule in_set_dropD)
  then show ?thesis using assms by (auto simp: parse_i64_def Let_def list_all_iff)
qed

text \<open>A date field is read back, whatever follows it.\<close>

lemma parse_date:
  assumes date: "valid_date y m d" and y: "0 \<le> y" "y \<le> 9999" and input: "text = date_text y m d @ rest"
  shows "parse_time text = (if rest = [] then Ok (days_from_civil y m d * 86400000)
    else parse_clock (days_from_civil y m d * 86400000) text)"
proof -
  note r = valid_date_fields [OF date y]
  have ly: "length (padded 4 y) = 4" and lm: "length (padded 2 m) = 2" and ld: "length (padded 2 d) = 2"
    using r by (simp_all add: padded_number(1))
  have t: "text = [] @ padded 4 y @ (''-'' @ padded 2 m @ ''-'' @ padded 2 d @ rest)"
    "text = (padded 4 y @ ''-'') @ padded 2 m @ (''-'' @ padded 2 d @ rest)"
    "text = (padded 4 y @ ''-'' @ padded 2 m @ ''-'') @ padded 2 d @ rest"
    "text = padded 4 y @ CHR ''-'' # (padded 2 m @ ''-'' @ padded 2 d @ rest)"
    "text = (padded 4 y @ ''-'' @ padded 2 m) @ CHR ''-'' # (padded 2 d @ rest)"
    by (simp_all add: input date_text_def)
  have "num_at text 0 4 = Ok y" by (rule num_at_field [OF t(1)]) (use r in simp_all)
  moreover have "num_at text 5 7 = Ok m" by (rule num_at_field [OF t(2)]) (use r ly in simp_all)
  moreover have "num_at text 8 10 = Ok d" by (rule num_at_field [OF t(3)]) (use r ly lm in simp_all)
  moreover have "byte_is text 4 CHR ''-''" by (rule byte_is_field [OF t(4)]) (simp add: ly)
  moreover have "byte_is text 7 CHR ''-''" by (rule byte_is_field [OF t(5)]) (simp add: ly lm)
  moreover have len: "length text = 10 + length rest" by (simp add: t(1) ly lm ld)
  moreover have "parse_i64 text = None"
  proof (rule not_i64)
    show "\<not> is_digit CHR ''-''" by (simp add: is_digit_def)
    show "CHR ''-'' \<in> set (drop 1 text)"
      using ly by (simp add: t(1))
  qed
  moreover have "1 \<le> m" "m \<le> 12" "\<not> d < 1" "\<not> days_in_month y m < d" using date by (simp_all add: valid_date_def)
  ultimately show ?thesis by (simp add: parse_time_def Let_def)
qed

lemma parse_clock_field:
  assumes h: "0 \<le> h" "h \<le> 23" and mi: "0 \<le> mi" "mi \<le> 59" and s: "0 \<le> s" "s \<le> 59"
    and front: "length front = 10"
    and input: "text = front @ ''T'' @ padded 2 h @ '':'' @ padded 2 mi @ '':'' @ padded 2 s @ rest" and rest: "rest \<noteq> []"
  shows "parse_clock ms text = parse_zone (ms + ((h * 60 + mi) * 60 + s) * 1000) rest"
proof -
  have lh: "length (padded 2 h) = 2" and lm: "length (padded 2 mi) = 2" and ls: "length (padded 2 s) = 2"
    using h mi s by (simp_all add: padded_number(1))
  have t: "text = (front @ ''T'') @ padded 2 h @ ('':'' @ padded 2 mi @ '':'' @ padded 2 s @ rest)"
    "text = (front @ ''T'' @ padded 2 h @ '':'') @ padded 2 mi @ ('':'' @ padded 2 s @ rest)"
    "text = (front @ ''T'' @ padded 2 h @ '':'' @ padded 2 mi @ '':'') @ padded 2 s @ rest"
    "text = front @ CHR ''T'' # (padded 2 h @ '':'' @ padded 2 mi @ '':'' @ padded 2 s @ rest)"
    "text = (front @ ''T'' @ padded 2 h) @ CHR '':'' # (padded 2 mi @ '':'' @ padded 2 s @ rest)"
    "text = (front @ ''T'' @ padded 2 h @ '':'' @ padded 2 mi) @ CHR '':'' # (padded 2 s @ rest)"
    by (simp_all add: input)
  have "num_at text 11 13 = Ok h" by (rule num_at_field [OF t(1)]) (use h front in simp_all)
  moreover have "num_at text 14 16 = Ok mi" by (rule num_at_field [OF t(2)]) (use mi front lh in simp_all)
  moreover have "num_at text 17 19 = Ok s" by (rule num_at_field [OF t(3)]) (use s front lh lm in simp_all)
  moreover have "byte_is text 10 CHR ''T''" by (rule byte_is_field [OF t(4)]) (simp add: front)
  moreover have "byte_is text 13 CHR '':''" by (rule byte_is_field [OF t(5)]) (simp add: front lh)
  moreover have "byte_is text 16 CHR '':''" by (rule byte_is_field [OF t(6)]) (simp add: front lh lm)
  moreover have "20 \<le> length text" using rest by (cases rest) (simp_all add: t(1) front lh lm ls)
  moreover have "drop 19 text = rest" by (simp add: t(3) front lh lm ls)
  ultimately show ?thesis using h mi s by (simp add: parse_clock_def)
qed

lemma length_date_text:
  assumes "valid_date y m d" and "0 \<le> y" and "y \<le> 9999"
  shows "length (date_text y m d) = 10"
  using valid_date_fields [OF assms] by (simp add: date_text_def padded_number(1))

text \<open> A time of the years 0 to 9999 is read back to the second from the text it is formatted as, on
  every day of the proleptic Gregorian calendar, leap days and days before 1970 included.
\<close>

theorem time_text_roundtrip:
  assumes "fst (civil_from_days (ms div 86400000)) \<in> {0..9999}"
  shows "parse_time (format_time ms) = Ok (ms div 1000 * 1000)"
proof -
  obtain y m d where civil: "civil_from_days (ms div 86400000) = (y, m, d)" by (metis prod_cases3)
  then have y: "0 \<le> y" "y \<le> 9999" using assms by auto
  note date = days_civil [OF civil]
  define day where "day = ms mod 86400000"
  define rest where "rest = day div 1000"
  have day: "0 \<le> day" "day < 86400000" by (simp_all add: day_def)
  then have rest: "0 \<le> rest" "rest < 86400" by (simp_all add: rest_def)
  have split: "ms = ms div 86400000 * 86400000 + day" unfolding day_def by (rule div_mult_mod_eq [symmetric])
  then have "ms = day + (ms div 86400000 * 86400) * 1000" by linarith
  then have secs: "ms div 1000 = ms div 86400000 * 86400 + rest"
    unfolding rest_def using div_mult_self2 [of 1000 day "ms div 86400000 * 86400"] by (metis mult.commute add.commute zero_neq_numeral)
  show ?thesis
  proof (cases "rest = 0")
    case True
    then have "format_time ms = date_text y m d @ []"
      unfolding format_time_def civil Let_def prod.case by (simp add: rest_def day_def date_text_def)
    from parse_date [OF date(1) y this] True secs date(2) show ?thesis by simp
  next
    case False
    define tail where "tail = ''T'' @ padded 2 (rest div 3600) @ '':'' @ padded 2 (rest div 60 mod 60) @ '':''
           @ padded 2 (rest mod 60) @ ''Z''"
    have input: "format_time ms = date_text y m d @ tail"
      using False unfolding format_time_def civil tail_def Let_def prod.case by (simp add: rest_def day_def date_text_def)
    have parts: "(rest div 3600 * 60 + rest div 60 mod 60) * 60 + rest mod 60 = rest"
    proof -
      have "rest div 3600 = rest div 60 div 60" by (simp add: div_mult2_eq [symmetric] zdiv_zmult2_eq)
      then show ?thesis by simp
    qed
    have "parse_clock (days_from_civil y m d * 86400000) (format_time ms)
        = parse_zone (days_from_civil y m d * 86400000
            + ((rest div 3600 * 60 + rest div 60 mod 60) * 60 + rest mod 60) * 1000) ''Z''"
      by (rule parse_clock_field [where front = "date_text y m d"])
        (use rest input length_date_text [OF date(1) y] in \<open>simp_all add: tail_def\<close>)
    also have "\<dots> = Ok (days_from_civil y m d * 86400000 + rest * 1000)"
      unfolding parts by (simp add: parse_zone_def)
    finally show ?thesis
      using parse_date [OF date(1) y input] date(2) secs by (simp add: tail_def)
  qed
qed

theorem time_text_roundtrip_witness:
  "parse_time (format_time 1709209805250) = Ok 1709209805000"
proof -
  have "valid_date 2024 2 29" by (simp add: valid_date_def days_in_month_def)
  moreover have "days_from_civil 2024 2 29 = 19782" by (simp add: days_from_civil_def)
  ultimately have "civil_from_days 19782 = (2024, 2, 29)" using civil_days by metis
  then have "parse_time (format_time 1709209805250) = Ok (1709209805250 div 1000 * 1000)"
    by (intro time_text_roundtrip) simp
  then show ?thesis by simp
qed

end
