(* ===== verification/Table_Csv.thy ===== *)
theory Table_Csv
  imports Weave_Prelude "HOL-Library.Code_Target_Numeral"
begin

text \<open>
  CSV of the tabular importer (\<open>weave-hardware/src/table.rs\<close>): the reader as the state machine of its
  loop, the columns of a table, the rows, and the writer. Texts are bytes: every character the loop
  looks for is ASCII, and a field that outgrows its limit does so within the same character.
\<close>

section \<open>The code\<close>

type_synonym row = "(string, string) btree_map"

definition max_rows :: nat where
  "max_rows = 1000000"

definition max_field_bytes :: nat where
  "max_field_bytes = 64 * 1024"

text \<open>A table of the schema: its key column, the columns of its node's properties, and further columns.\<close>

record table =
  tb_key :: string
  tb_node_columns :: "string list option"
  tb_extra_columns :: "string list"

definition common_columns :: "string list" where
  "common_columns = [''readers'', ''source'', ''evidence_uri'', ''evidence_digest'']"

definition table_columns :: "table \<Rightarrow> string list" where
  "table_columns t =
     fold (\<lambda>c seen. if c \<in> set seen then seen else seen @ [c])
       ([tb_key t] @ (case tb_node_columns t of None \<Rightarrow> [] | Some cs \<Rightarrow> cs) @ tb_extra_columns t @ common_columns) []"

abbreviation quote_char :: char where "quote_char \<equiv> CHR 0x22"
abbreviation newline_char :: char where "newline_char \<equiv> CHR 0x0A"
abbreviation return_char :: char where "return_char \<equiv> CHR 0x0D"

text \<open>The variables of the loop of \<open>records\<close>.\<close>

record csv_state =
  cs_out :: "string list list"
  cs_record :: "string list"
  cs_field :: string
  cs_quoted :: bool
  cs_at_start :: bool

definition csv_start :: csv_state where
  "csv_start = \<lparr>cs_out = [], cs_record = [], cs_field = [], cs_quoted = False, cs_at_start = True\<rparr>"

text \<open>The end of a turn that did not \<open>continue\<close>.\<close>

definition end_turn :: "csv_state \<Rightarrow> csv_state result" where
  "end_turn st = (if length (cs_field st) > max_field_bytes then Err E_BUDGET else Ok (st\<lparr>cs_at_start := False\<rparr>))"

definition push_char :: "char \<Rightarrow> csv_state \<Rightarrow> csv_state" where
  "push_char c st = st\<lparr>cs_field := cs_field st @ [c]\<rparr>"

definition end_field :: "csv_state \<Rightarrow> csv_state" where
  "end_field st = st\<lparr>cs_record := cs_record st @ [cs_field st], cs_field := [], cs_at_start := True\<rparr>"

definition end_record :: "csv_state \<Rightarrow> csv_state" where
  "end_record st = st\<lparr>cs_out := cs_out st @ [cs_record st @ [cs_field st]], cs_record := [], cs_field := [],
     cs_at_start := True\<rparr>"

text \<open>One turn of the loop: the state after it and the characters left; a doubled quote takes two.\<close>

definition csv_turn :: "csv_state \<Rightarrow> char \<Rightarrow> string \<Rightarrow> (csv_state \<times> string) result" where
  "csv_turn st c rest =
     (if cs_quoted st then
        if c = quote_char then
          if take 1 rest = [quote_char] then
            rbind (end_turn (push_char quote_char st)) (\<lambda>s. Ok (s, drop 1 rest))
          else if rest \<noteq> [] \<and> hd rest \<notin> {CHR '','', newline_char, return_char} then Err E_HW_INPUT
          else rbind (end_turn (st\<lparr>cs_quoted := False\<rparr>)) (\<lambda>s. Ok (s, rest))
        else rbind (end_turn (push_char c st)) (\<lambda>s. Ok (s, rest))
      else if c = quote_char then
        if cs_at_start st then rbind (end_turn (st\<lparr>cs_quoted := True\<rparr>)) (\<lambda>s. Ok (s, rest))
        else Err E_HW_INPUT
      else if c = CHR '','' then Ok (end_field st, rest)
      else if c = return_char \<and> take 1 rest = [newline_char] then Ok (st, rest)
      else if c = newline_char \<or> c = return_char then Ok (end_record st, rest)
      else rbind (end_turn (push_char c st)) (\<lambda>s. Ok (s, rest)))"

lemma csv_turn_shorter: "csv_turn st c rest = Ok (s, rest') \<Longrightarrow> length rest' \<le> length rest"
  by (auto simp: csv_turn_def split: if_splits)

function csv_loop :: "csv_state \<Rightarrow> string \<Rightarrow> csv_state result" where
  "csv_loop st [] = Ok st"
| "csv_loop st (c # rest) =
     (case csv_turn st c rest of Inl e \<Rightarrow> Err e | Inr (s, rest') \<Rightarrow> csv_loop s rest')"
  by pat_completeness auto
termination
  by (relation "measure (length \<circ> snd)") (auto dest: csv_turn_shorter)

definition bom :: string where
  "bom = [CHR 0xEF, CHR 0xBB, CHR 0xBF]"

definition csv_records :: "string \<Rightarrow> string list list result" where
  "csv_records text =
     rbind (csv_loop csv_start (if take 3 text = bom then drop 3 text else text)) (\<lambda>st.
     rbind (ensure (\<not> cs_quoted st) E_HW_INPUT) (\<lambda>_.
       Ok (if cs_field st \<noteq> [] \<or> cs_record st \<noteq> [] then cs_out st @ [cs_record st @ [cs_field st]]
           else cs_out st)))"

definition check_header :: "string list \<Rightarrow> string list \<Rightarrow> string \<Rightarrow> string list result" where
  "check_header allowed seen column =
     rbind (ensure (column \<in> set allowed) E_HW_INPUT) (\<lambda>_.
     rbind (ensure (column \<notin> set seen) E_HW_INPUT) (\<lambda>_. Ok (column # seen)))"

definition make_row :: "string list \<Rightarrow> string list \<Rightarrow> row" where
  "make_row header rec = fold (\<lambda>(c, v) m. bm_insert c v m) (filter (\<lambda>(_, v). v \<noteq> []) (zip header rec)) []"

definition add_record :: "string list \<Rightarrow> row list \<Rightarrow> string list \<Rightarrow> row list result" where
  "add_record header rows rec =
     (if rec = [[]] then Ok rows
      else
        rbind (ensure (length rec = length header) E_HW_INPUT) (\<lambda>_.
        rbind (ensure (length rows \<noteq> max_rows) E_BUDGET) (\<lambda>_. Ok (rows @ [make_row header rec]))))"

definition parse_csv :: "table \<Rightarrow> string \<Rightarrow> row list result" where
  "parse_csv t text =
     rbind (csv_records text) (\<lambda>recs.
       case recs of
         [] \<Rightarrow> Ok []
       | header # body \<Rightarrow>
           rbind (try_fold (check_header (table_columns t)) [] header) (\<lambda>_.
             try_fold (add_record header) [] body))"

definition needs_quotes :: "string \<Rightarrow> bool" where
  "needs_quotes v \<longleftrightarrow> list_ex (\<lambda>c. c \<in> {CHR '','', quote_char, newline_char, return_char}) v"

definition double_quotes :: "string \<Rightarrow> string" where
  "double_quotes v = concat (map (\<lambda>c. if c = quote_char then [c, c] else [c]) v)"

definition escape :: "string \<Rightarrow> string" where
  "escape v = (if needs_quotes v then [quote_char] @ double_quotes v @ [quote_char] else v)"

fun join :: "string \<Rightarrow> string list \<Rightarrow> string" where
  "join sep [] = []"
| "join sep [x] = x"
| "join sep (x # y # ys) = x @ sep @ join sep (y # ys)"

definition write_line :: "string list \<Rightarrow> string" where
  "write_line cells = join '','' (map escape cells) @ [newline_char]"

definition row_fields :: "string list \<Rightarrow> row \<Rightarrow> string list" where
  "row_fields cols r = map (\<lambda>c. case map_of r c of None \<Rightarrow> [] | Some v \<Rightarrow> v) cols"

definition write_csv :: "string list \<Rightarrow> row list \<Rightarrow> string" where
  "write_csv cols rows = write_line cols @ concat (map (\<lambda>r. write_line (row_fields cols r)) rows)"

section \<open>Reading what was written\<close>

abbreviation reading :: "string list list \<Rightarrow> string list \<Rightarrow> string \<Rightarrow> bool \<Rightarrow> bool \<Rightarrow> csv_state" where
  "reading out rec field quoted start \<equiv>
     \<lparr>cs_out = out, cs_record = rec, cs_field = field, cs_quoted = quoted, cs_at_start = start\<rparr>"

lemma read_plain:
  assumes "\<not> needs_quotes v" and "length (f @ v) \<le> max_field_bytes"
  shows "csv_loop (reading out rec f False s) (v @ rest)
    = csv_loop (reading out rec (f @ v) False (s \<and> v = [])) rest"
  using assms
proof (induction v arbitrary: f s)
  case (Cons c v)
  then have c: "c \<notin> {CHR '','', quote_char, newline_char, return_char}" "\<not> needs_quotes v"
    by (auto simp: needs_quotes_def)
  have "csv_loop (reading out rec f False s) ((c # v) @ rest)
      = csv_loop (reading out rec (f @ [c]) False False) (v @ rest)"
    using c Cons.prems(2) by (simp add: csv_turn_def push_char_def end_turn_def)
  also have "\<dots> = csv_loop (reading out rec ((f @ [c]) @ v) False (False \<and> v = [])) rest"
    by (rule Cons.IH) (use c Cons.prems in simp_all)
  finally show ?case by simp
qed simp

lemma double_quotes_simps [simp]:
  "double_quotes [] = []" "double_quotes (c # v) = (if c = quote_char then [c, c] else [c]) @ double_quotes v"
  by (simp_all add: double_quotes_def)

lemma read_quoted:
  assumes "length (f @ v) \<le> max_field_bytes" and "d \<in> {CHR '','', newline_char}"
  shows "csv_loop (reading out rec f True s) (double_quotes v @ [quote_char] @ d # rest)
    = csv_loop (reading out rec (f @ v) False False) (d # rest)"
  using assms
proof (induction v arbitrary: f s)
  case Nil
  have "csv_turn (reading out rec f True s) quote_char (d # rest) = Ok (reading out rec f False False, d # rest)"
    using Nil by (auto simp: csv_turn_def end_turn_def)
  then show ?case by simp
next
  case (Cons c v)
  have "csv_loop (reading out rec f True s) (double_quotes (c # v) @ [quote_char] @ d # rest)
      = csv_loop (reading out rec (f @ [c]) True False) (double_quotes v @ [quote_char] @ d # rest)"
    using Cons.prems by (simp add: csv_turn_def push_char_def end_turn_def)
  also have "\<dots> = csv_loop (reading out rec ((f @ [c]) @ v) False False) (d # rest)"
    by (rule Cons.IH) (use Cons.prems in simp_all)
  finally show ?case by simp
qed

lemma read_field:
  assumes "length v \<le> max_field_bytes" and "d \<in> {CHR '','', newline_char}"
  shows "\<exists>s. csv_loop (reading out rec [] False True) (escape v @ d # rest)
    = csv_loop (reading out rec v False s) (d # rest)"
proof (cases "needs_quotes v")
  case True
  have "csv_loop (reading out rec [] False True) (escape v @ d # rest)
      = csv_loop (reading out rec [] True False) (double_quotes v @ [quote_char] @ d # rest)"
    using True by (simp add: escape_def csv_turn_def end_turn_def)
  then show ?thesis using read_quoted [of "[]" v d] assms by auto
next
  case False
  then show ?thesis using read_plain [of v "[]"] assms(1) by (auto simp: escape_def)
qed

lemma read_line:
  assumes "cells \<noteq> []" and "\<forall>v \<in> set cells. length v \<le> max_field_bytes"
  shows "csv_loop (reading out rec [] False True) (write_line cells @ rest)
    = csv_loop (reading (out @ [rec @ cells]) [] [] False True) rest"
  using assms
proof (induction cells arbitrary: rec)
  case (Cons v cells)
  show ?case
  proof (cases "cells = []")
    case True
    obtain s where "csv_loop (reading out rec [] False True) (escape v @ newline_char # rest)
        = csv_loop (reading out rec v False s) (newline_char # rest)"
      using read_field [of v newline_char out rec rest] Cons.prems(2) by (auto simp del: csv_loop.simps)
    with True show ?thesis by (simp add: write_line_def csv_turn_def end_record_def)
  next
    case False
    then obtain w ws where f: "cells = w # ws" by (cases cells) simp_all
    obtain s where "csv_loop (reading out rec [] False True) (escape v @ CHR '','' # write_line cells @ rest)
        = csv_loop (reading out rec v False s) (CHR '','' # write_line cells @ rest)"
      using read_field [of v "CHR '',''" out rec "write_line cells @ rest"] Cons.prems(2)
      by (auto simp del: csv_loop.simps)
    moreover have "write_line (v # cells) @ rest = escape v @ CHR '','' # write_line cells @ rest"
      by (simp add: f write_line_def)
    ultimately have "csv_loop (reading out rec [] False True) (write_line (v # cells) @ rest)
        = csv_loop (reading out (rec @ [v]) [] False True) (write_line cells @ rest)"
      by (simp add: csv_turn_def end_field_def)
    also have "\<dots> = csv_loop (reading (out @ [(rec @ [v]) @ cells]) [] [] False True) rest"
      by (rule Cons.IH) (use False Cons.prems in simp_all)
    finally show ?thesis by simp
  qed
qed simp

lemma read_lines:
  assumes "\<forall>cells \<in> set lines. cells \<noteq> [] \<and> (\<forall>v \<in> set cells. length v \<le> max_field_bytes)"
  shows "csv_loop (reading out [] [] False True) (concat (map write_line lines))
    = Ok (reading (out @ lines) [] [] False True)"
  using assms
proof (induction lines arbitrary: out)
  case (Cons cells lines)
  then show ?case using read_line [of cells out "[]" "concat (map write_line lines)"] by simp
qed simp

section \<open>Rows\<close>

text \<open>A row whose cells a table of these columns can hold: an empty cell is an absent one.\<close>

definition row_ok :: "string list \<Rightarrow> row \<Rightarrow> bool" where
  "row_ok cols r \<longleftrightarrow> bm_ok r \<and> fst ` set r \<subseteq> set cols
     \<and> (\<forall>v \<in> snd ` set r. v \<noteq> [] \<and> length v \<le> max_field_bytes)"

lemma map_of_fold_insert:
  "map_of (fold (\<lambda>(c, v) m. bm_insert c v m) kvs m) = map_of m ++ map_of (rev kvs)"
proof (induction kvs arbitrary: m)
  case (Cons p kvs)
  show ?case by (cases p) (simp add: Cons.IH fun_eq_iff map_add_def split: option.splits)
qed simp

lemma bm_ok_fold_insert: "bm_ok m \<Longrightarrow> bm_ok (fold (\<lambda>(c, v) m. bm_insert c v m) kvs m)"
  by (induction kvs arbitrary: m) auto

lemma map_of_rev_distinct:
  assumes "distinct (map fst kvs)"
  shows "map_of (rev kvs) = map_of kvs"
proof (rule map_of_eqI)
  show "set (map fst (rev kvs)) = set (map fst kvs)" by simp
  have "distinct (map fst (rev kvs))" using assms by (simp add: rev_map [symmetric])
  then show "\<forall>k \<in> set (map fst (rev kvs)). map_of (rev kvs) k = map_of kvs k"
    using assms by (metis map_of_eq_Some_iff option.exhaust set_rev)
qed

lemma make_row_fields:
  assumes "distinct cols" and "row_ok cols r"
  shows "make_row cols (row_fields cols r) = r"
proof (rule bm_ext)
  show "bm_ok (make_row cols (row_fields cols r))" by (simp add: make_row_def bm_ok_fold_insert)
  show "bm_ok r" using assms(2) by (simp add: row_ok_def)
  let ?f = "\<lambda>c. case map_of r c of None \<Rightarrow> [] | Some v \<Rightarrow> v"
  let ?kvs = "filter (\<lambda>(_, v). v \<noteq> []) (zip cols (map ?f cols))"
  fix c
  have keys: "map fst (filter (\<lambda>(_, v). v \<noteq> []) (zip cs (map ?f cs))) = filter (\<lambda>c. ?f c \<noteq> []) cs" for cs
    by (induction cs) auto
  have "map_of (filter (\<lambda>(_, v). v \<noteq> []) (zip cs (map ?f cs))) c
      = (if c \<in> set cs \<and> ?f c \<noteq> [] then Some (?f c) else None)" for cs
    by (induction cs) auto
  moreover have "distinct (map fst ?kvs)" unfolding keys using assms(1) by simp
  then have "map_of (rev ?kvs) = map_of ?kvs" by (rule map_of_rev_distinct)
  ultimately have "map_of (make_row cols (row_fields cols r)) c
      = (if c \<in> set cols \<and> ?f c \<noteq> [] then Some (?f c) else None)"
    by (simp add: make_row_def row_fields_def map_of_fold_insert)
  also have "\<dots> = map_of r c"
    using assms(2) by (auto simp: row_ok_def dest: map_of_SomeD split: option.splits)
      (metis map_of_SomeD fst_conv image_eqI subsetD snd_conv)+
  finally show "map_of (make_row cols (row_fields cols r)) c = map_of r c" .
qed

lemma check_header_all:
  assumes "distinct cols" and "set cols \<subseteq> set allowed" and "set cols \<inter> set seen = {}"
  shows "try_fold (check_header allowed) seen cols = Ok (rev cols @ seen)"
  using assms by (induction cols arbitrary: seen) (auto simp: check_header_def ensure_def)

lemma add_records:
  assumes "length rows + length (map (row_fields cols) others) \<le> max_rows"
    and "\<forall>r \<in> set others. row_ok cols r \<and> row_fields cols r \<noteq> [[]]" and "distinct cols"
  shows "try_fold (add_record cols) rows (map (row_fields cols) others) = Ok (rows @ others)"
  using assms
proof (induction others arbitrary: rows)
  case (Cons r others)
  have "add_record cols rows (row_fields cols r) = Ok (rows @ [r])"
    using Cons.prems by (simp add: add_record_def ensure_def make_row_fields) (simp add: row_fields_def)
  then show ?case using Cons.IH [of "rows @ [r]"] Cons.prems by simp
qed simp

section \<open>Round trip\<close>

lemma no_bom_before:
  assumes "take 3 v \<noteq> bom" and "d \<in> {CHR '','', newline_char}"
  shows "take 3 (escape v @ d # rest) \<noteq> bom"
proof (cases "needs_quotes v \<or> 3 \<le> length v")
  case True
  then show ?thesis using assms(1) by (auto simp: escape_def bom_def)
next
  case False
  then have "d \<in> set (take 3 (escape v @ d # rest))" by (auto simp: escape_def take_Cons')
  moreover have "d \<notin> set bom" using assms(2) by (auto simp: bom_def)
  ultimately show ?thesis by metis
qed

text \<open> The CSV written for rows of a table is read back as exactly those rows, whatever commas, quotes
  and line breaks their cells hold, as long as the columns are the table's, cells and rows are within
  the limits, and no row is empty in a file of one column, whose empty line the reader skips.
\<close>

theorem csv_roundtrip:
  assumes "cols \<noteq> []" and "distinct cols" and "set cols \<subseteq> set (table_columns t)"
    and "\<forall>c \<in> set cols. length c \<le> max_field_bytes" and "take 3 (hd cols) \<noteq> bom"
    and "\<forall>r \<in> set rows. row_ok cols r \<and> (r \<noteq> [] \<or> 2 \<le> length cols)"
    and "length rows \<le> max_rows"
  shows "parse_csv t (write_csv cols rows) = Ok rows"
proof -
  let ?lines = "cols # map (row_fields cols) rows"
  have cells: "length v \<le> max_field_bytes" if "r \<in> set rows" "v \<in> set (row_fields cols r)" for r v
    using assms(6) that by (fastforce simp: row_fields_def row_ok_def dest: map_of_SomeD split: option.splits)
  have written: "write_csv cols rows = concat (map write_line ?lines)"
    by (simp add: write_csv_def o_def)
  have "\<forall>cells \<in> set ?lines. cells \<noteq> [] \<and> (\<forall>v \<in> set cells. length v \<le> max_field_bytes)"
    using assms(1,4) cells by (auto simp: row_fields_def)
  from read_lines [OF this, of "[]"]
  have loop: "csv_loop csv_start (write_csv cols rows) = Ok (reading ?lines [] [] False True)"
    by (simp add: written csv_start_def)
  have no_bom: "take 3 (write_csv cols rows) \<noteq> bom"
  proof -
    obtain v vs where cols: "cols = v # vs" using assms(1) by (cases cols) simp_all
    obtain d rest where d: "d \<in> {CHR '','', newline_char}" and line: "write_line cols = escape v @ d # rest"
    proof (cases vs)
      case Nil
      then show thesis using that [of newline_char "[]"] cols by (simp add: write_line_def)
    next
      case (Cons w ws)
      then show thesis using that [of "CHR '',''" "write_line vs"] cols by (simp add: write_line_def)
    qed
    have "take 3 v \<noteq> bom" using assms(5) cols by simp
    from no_bom_before [OF this d] show ?thesis by (simp add: write_csv_def line)
  qed
  have recs: "csv_records (write_csv cols rows) = Ok ?lines"
    using loop no_bom by (simp add: csv_records_def ensure_def)
  have "row_fields cols r \<noteq> [[]]" if "r \<in> set rows" for r
  proof
    assume empty: "row_fields cols r = [[]]"
    then obtain c where c: "cols = [c]" by (auto simp: row_fields_def map_eq_Cons_conv)
    have ok: "row_ok cols r" "r \<noteq> []" using assms(6) that c by auto
    then obtain v kvs where "r = (c, v) # kvs" "v \<noteq> []" using c by (cases r) (auto simp: row_ok_def)
    with empty c show False by (simp add: row_fields_def)
  qed
  then have "try_fold (add_record cols) [] (map (row_fields cols) rows) = Ok rows"
    using add_records [of "[]" cols rows] assms(2,6,7) by simp
  moreover have "try_fold (check_header (table_columns t)) [] cols = Ok (rev cols)"
    using check_header_all [of cols "table_columns t" "[]"] assms(2,3) by simp
  ultimately show ?thesis by (simp add: parse_csv_def recs)
qed

definition demo_table :: table where
  "demo_table = \<lparr>tb_key = ''work_order'', tb_node_columns = Some [''kind'', ''note''], tb_extra_columns = [''serial'']\<rparr>"

definition demo_rows :: "row list" where
  "demo_rows = [[(''note'', [quote_char, CHR '','', newline_char, return_char]), (''work_order'', ''WO-1'')], []]"

theorem csv_roundtrip_witness:
  "parse_csv demo_table (write_csv [''work_order'', ''note''] demo_rows) = Ok demo_rows"
proof (rule csv_roundtrip)
  show "set [''work_order'', ''note''] \<subseteq> set (table_columns demo_table)" by code_simp
  show "\<forall>c \<in> set [''work_order'', ''note'']. length c \<le> max_field_bytes" by (simp add: max_field_bytes_def)
  show "\<forall>r \<in> set demo_rows. row_ok [''work_order'', ''note''] r \<and> (r \<noteq> [] \<or> 2 \<le> length [''work_order'', ''note''])"
    by (simp add: demo_rows_def row_ok_def bm_ok_def max_field_bytes_def)
qed (simp_all add: bom_def demo_rows_def max_rows_def)

end
