(* ===== verification/Graph_Model.thy ===== *)
theory Graph_Model
  imports Weave_Prelude "HOL-Library.Multiset"
begin

text \<open>
  Graph analytics (\<open>weave-science/src/algorithms.rs\<close>): the topology of a selected graph, degrees,
  weak and strong components and shortest paths, with the work budget that every step is charged to.
  A node is its index in the sorted list of identifiers. Rankings and nearest vectors are floating
  point and not modelled; a result is the data its JSON is made of.
\<close>

section \<open>Work\<close>

definition take_work :: "nat \<Rightarrow> nat \<Rightarrow> nat result" where
  "take_work amount remaining = ok_or (checked_sub remaining amount) E_SCIENCE_BUDGET"

lemma take_work_Ok [simp]: "take_work a w = Ok w' \<longleftrightarrow> a \<le> w \<and> w' = w - a"
  by (auto simp: take_work_def)

section \<open>Topology\<close>

record graph_edge =
  ge_from :: string
  ge_to :: string
  ge_negative :: bool
  ge_start :: int
  ge_end :: "int option"

definition interval_contains :: "graph_edge \<Rightarrow> int \<Rightarrow> bool" where
  "interval_contains e t \<longleftrightarrow> ge_start e \<le> t \<and> (case ge_end e of None \<Rightarrow> True | Some s \<Rightarrow> t < s)"

record topology =
  tp_ids :: "string list"
  tp_outgoing :: "nat list list"
  tp_incoming :: "nat list list"
  tp_edges :: nat
  tp_negative :: nat
  tp_outside :: nat

type_synonym indices = "(string, nat) btree_map"

definition push_at :: "nat \<Rightarrow> nat \<Rightarrow> nat list list \<Rightarrow> nat list list" where
  "push_at i x xss = xss[i := xss ! i @ [x]]"

definition add_edge :: "indices \<Rightarrow> int option \<Rightarrow> topology \<Rightarrow> graph_edge \<Rightarrow> topology result" where
  "add_edge idx valid_at g e =
     (if ge_negative e then Ok (g\<lparr>tp_negative := tp_negative g + 1\<rparr>)
      else if (case valid_at of None \<Rightarrow> False | Some t \<Rightarrow> \<not> interval_contains e t)
      then Ok (g\<lparr>tp_outside := tp_outside g + 1\<rparr>)
      else
        rbind (ok_or (map_of idx (ge_from e)) E_SCIENCE_TOPOLOGY) (\<lambda>from.
        rbind (ok_or (map_of idx (ge_to e)) E_SCIENCE_TOPOLOGY) (\<lambda>to.
          Ok (g\<lparr>tp_outgoing := push_at from to (tp_outgoing g), tp_incoming := push_at to from (tp_incoming g),
                tp_edges := tp_edges g + 1\<rparr>))))"

definition empty_topology :: "string list \<Rightarrow> topology" where
  "empty_topology ids =
     \<lparr>tp_ids = ids, tp_outgoing = replicate (length ids) [], tp_incoming = replicate (length ids) [],
      tp_edges = 0, tp_negative = 0, tp_outside = 0\<rparr>"

definition topology_new ::
  "string list \<Rightarrow> graph_edge list \<Rightarrow> int option \<Rightarrow> nat \<Rightarrow> (topology \<times> nat) result" where
  "topology_new nodes edges valid_at work =
     rbind (take_work (saturating_add (length nodes) (length edges)) work) (\<lambda>left.
       let ids = sort nodes in
       rbind (ensure (distinct_adj ids) E_SCIENCE_TOPOLOGY) (\<lambda>_.
       rbind (try_fold (add_edge (zip ids [0..<length ids]) valid_at) (empty_topology ids) edges) (\<lambda>g.
         Ok (g\<lparr>tp_outgoing := map sort (tp_outgoing g), tp_incoming := map sort (tp_incoming g)\<rparr>, left))))"

section \<open>Degrees\<close>

definition degree :: "topology \<Rightarrow> nat \<Rightarrow> ((string \<times> nat \<times> nat \<times> nat) list \<times> nat) result" where
  "degree g work =
     rbind (take_work (length (tp_ids g)) work) (\<lambda>left.
       Ok (map (\<lambda>i. (tp_ids g ! i, length (tp_incoming g ! i), length (tp_outgoing g ! i),
            length (tp_incoming g ! i) + length (tp_outgoing g ! i))) [0..<length (tp_ids g)], left))"

section \<open>Components\<close>

text \<open>
  A stack is its entries, the top first. An index outside the vector would panic; the lists of a
  topology hold indices of nodes only.
\<close>

definition mark_push :: "nat \<Rightarrow> bool list \<times> nat list \<Rightarrow> bool list \<times> nat list" where
  "mark_push j s = (case s of (seen, stack) \<Rightarrow>
     if j < length seen \<and> \<not> seen ! j then (seen[j := True], j # stack) else (seen, stack))"

lemma mark_push_pair [simp]:
  "mark_push j (seen, stack) =
     (if j < length seen \<and> \<not> seen ! j then (seen[j := True], j # stack) else (seen, stack))"
  by (simp add: mark_push_def)

definition unseen :: "bool list \<Rightarrow> nat" where
  "unseen seen = length (filter Not seen)"

lemma unseen_update: "j < length seen \<Longrightarrow> \<not> seen ! j \<Longrightarrow> Suc (unseen (seen[j := True])) = unseen seen"
  unfolding unseen_def
proof (induction seen arbitrary: j)
  case (Cons b seen)
  then show ?case by (cases j) auto
qed simp

lemma mark_push_measure:
  assumes "fold mark_push js (seen, stack) = (seen', stack')"
  shows "length seen' = length seen \<and> unseen seen' + length stack' = unseen seen + length stack \<and> unseen seen' \<le> unseen seen"
  using assms
proof (induction js arbitrary: seen stack)
  case (Cons j js)
  show ?case
  proof (cases "j < length seen \<and> \<not> seen ! j")
    case True
    then have "fold mark_push js (seen[j := True], j # stack) = (seen', stack')"
      using Cons.prems by auto
    from Cons.IH [OF this] show ?thesis using unseen_update [of j seen] True by simp
  next
    case False
    then have "fold mark_push js (seen, stack) = (seen', stack')" using Cons.prems by auto
    from Cons.IH [OF this] show ?thesis .
  qed
qed simp

text \<open>\<open>while let Some(node) = stack.pop()\<close>, collecting the identifiers of the found.\<close>

function explore ::
  "string list \<Rightarrow> (nat \<Rightarrow> nat list) \<Rightarrow> bool list \<Rightarrow> nat list \<Rightarrow> string list \<Rightarrow> nat \<Rightarrow> (bool list \<times> string list \<times> nat) result" where
  "explore ids nbrs seen [] found work = Ok (seen, found, work)"
| "explore ids nbrs seen (node # stack) found work =
     rbind (take_work (1 + length (nbrs node)) work) (\<lambda>left.
       explore ids nbrs (fst (fold mark_push (nbrs node) (seen, stack))) (snd (fold mark_push (nbrs node) (seen, stack)))
         (found @ [ids ! node]) left)"
  by pat_completeness auto
termination
proof (relation "measures [\<lambda>(ids, nbrs, seen, stack, found, work). unseen seen + length stack]")
  fix ids nbrs seen node stack found work x
  show "((ids, nbrs, fst (fold mark_push (nbrs node) (seen, stack)), snd (fold mark_push (nbrs node) (seen, stack)),
       found @ [ids ! node], x), (ids, nbrs, seen, node # stack, found, work))
    \<in> measures [\<lambda>(ids, nbrs, seen, stack, found, work). unseen seen + length stack]"
    using mark_push_measure [of "nbrs node" seen stack "fst (fold mark_push (nbrs node) (seen, stack))"
        "snd (fold mark_push (nbrs node) (seen, stack))"] by simp
qed simp

text \<open>The loop over the starts: the components found, in the order of the starts.\<close>

definition component_from ::
  "string list \<Rightarrow> (nat \<Rightarrow> nat list) \<Rightarrow> bool list \<times> string list list \<times> nat \<Rightarrow> nat
    \<Rightarrow> (bool list \<times> string list list \<times> nat) result" where
  "component_from ids nbrs s start =
     (case s of (seen, groups, work) \<Rightarrow>
        if seen ! start then Ok s
        else rbind (explore ids nbrs (seen[start := True]) [start] [] work) (\<lambda>(seen', found, left).
          Ok (seen', groups @ [sort found], left)))"

definition weak_next :: "topology \<Rightarrow> nat \<Rightarrow> nat list" where
  "weak_next g v = tp_outgoing g ! v @ tp_incoming g ! v"

definition weak_components :: "topology \<Rightarrow> nat \<Rightarrow> (string list list \<times> nat) result" where
  "weak_components g work =
     (let n = length (tp_ids g) in
      rbind (try_fold (component_from (tp_ids g) (weak_next g)) (replicate n False, [], work) [0..<n])
        (\<lambda>(_, groups, left). Ok (sort groups, left)))"

text \<open>
  The first pass of the strong components: a stack of nodes with the cursor into their outgoing
  list, and the order in which nodes are left.
\<close>

type_synonym dfs_state = "bool list \<times> (nat \<times> nat) list \<times> nat list"

definition dfs_turn :: "(nat \<Rightarrow> nat list) \<Rightarrow> bool list \<Rightarrow> nat \<times> nat \<Rightarrow> (nat \<times> nat) list \<Rightarrow> nat list \<Rightarrow> dfs_state" where
  "dfs_turn nbrs seen cell stack order =
     (case cell of (node, cursor) \<Rightarrow>
        if cursor < length (nbrs node) then
          let neighbor = nbrs node ! cursor in
          if neighbor < length seen \<and> \<not> seen ! neighbor
          then (seen[neighbor := True], (neighbor, 0) # (node, cursor + 1) # stack, order)
          else (seen, (node, cursor + 1) # stack, order)
        else (seen, stack, order @ [node]))"

definition dfs_left :: "(nat \<Rightarrow> nat list) \<Rightarrow> (nat \<times> nat) list \<Rightarrow> nat" where
  "dfs_left nbrs stack = sum_list (map (\<lambda>(v, c). Suc (length (nbrs v) - c)) stack)"

function dfs_loop :: "(nat \<Rightarrow> nat list) \<Rightarrow> bool list \<Rightarrow> (nat \<times> nat) list \<Rightarrow> nat list \<Rightarrow> nat
    \<Rightarrow> (bool list \<times> nat list \<times> nat) result" where
  "dfs_loop nbrs seen [] order work = Ok (seen, order, work)"
| "dfs_loop nbrs seen (cell # stack) order work =
     rbind (take_work 1 work) (\<lambda>left.
       case dfs_turn nbrs seen cell stack order of (seen', stack', order') \<Rightarrow>
         dfs_loop nbrs seen' stack' order' left)"
  by pat_completeness auto
termination
proof (relation "measures [\<lambda>(nbrs, seen, stack, order, work). unseen seen, \<lambda>(nbrs, seen, stack, order, work). dfs_left nbrs stack]", goal_cases)
  case (2 nbrs seen cell stack order work left seen' rest stack' order')
  then show ?case
    using unseen_update [of "nbrs (fst cell) ! snd cell" seen]
    by (cases cell) (auto simp: dfs_turn_def dfs_left_def Let_def split: if_splits)
qed simp

definition dfs_from ::
  "(nat \<Rightarrow> nat list) \<Rightarrow> bool list \<times> nat list \<times> nat \<Rightarrow> nat \<Rightarrow> (bool list \<times> nat list \<times> nat) result" where
  "dfs_from nbrs s start =
     (case s of (seen, order, work) \<Rightarrow>
        if seen ! start then Ok s else dfs_loop nbrs (seen[start := True]) [(start, 0)] order work)"

definition strong_components :: "topology \<Rightarrow> nat \<Rightarrow> (string list list \<times> nat) result" where
  "strong_components g work =
     (let n = length (tp_ids g) in
      rbind (try_fold (dfs_from (\<lambda>v. tp_outgoing g ! v)) (replicate n False, [], work) [0..<n]) (\<lambda>(_, order, left).
      rbind (try_fold (component_from (tp_ids g) (\<lambda>v. tp_incoming g ! v)) (replicate n False, [], left) (rev order))
        (\<lambda>(_, groups, left'). Ok (sort groups, left'))))"

section \<open>Shortest paths\<close>

record paths =
  ps_distance :: "nat option list"
  ps_previous :: "nat option list"

definition discover :: "nat \<Rightarrow> nat \<Rightarrow> paths \<times> nat list \<Rightarrow> paths \<times> nat list" where
  "discover node neighbor s =
     (case s of (p, queue) \<Rightarrow>
        if neighbor < length (ps_distance p) \<and> ps_distance p ! neighbor = None then
          (\<lparr>ps_distance = (ps_distance p)[neighbor :=
               Some ((case ps_distance p ! node of None \<Rightarrow> 0 | Some d \<Rightarrow> d) + 1)],
            ps_previous = (ps_previous p)[neighbor := Some node]\<rparr>, queue @ [neighbor])
        else s)"

definition path_next :: "topology \<Rightarrow> bool \<Rightarrow> nat \<Rightarrow> nat list" where
  "path_next g directed v =
     (if directed then tp_outgoing g ! v else sort (tp_outgoing g ! v @ tp_incoming g ! v))"

definition open_nodes :: "paths \<Rightarrow> nat" where
  "open_nodes p = length (filter (\<lambda>d. d = None) (ps_distance p))"

lemma open_nodes_update:
  "j < length ds \<Longrightarrow> ds ! j = None \<Longrightarrow>
     Suc (length (filter (\<lambda>d. d = None) (ds[j := Some x]))) = length (filter (\<lambda>d. d = None) ds)"
proof (induction ds arbitrary: j)
  case (Cons b ds)
  then show ?case by (cases j) auto
qed simp

lemma discover_measure:
  assumes "fold (discover node) js (p, queue) = (p', queue')"
  shows "open_nodes p' + length queue' = open_nodes p + length queue
    \<and> length (ps_distance p') = length (ps_distance p) \<and> length (ps_previous p') = length (ps_previous p)"
  using assms
proof (induction js arbitrary: p queue)
  case (Cons j js)
  show ?case
  proof (cases "j < length (ps_distance p) \<and> ps_distance p ! j = None")
    case True
    define q where "q = fst (discover node j (p, queue))"
    have "discover node j (p, queue) = (q, queue @ [j])"
      and q: "ps_distance q = (ps_distance p)[j := Some ((case ps_distance p ! node of None \<Rightarrow> 0 | Some d \<Rightarrow> d) + 1)]"
        "length (ps_previous q) = length (ps_previous p)"
      using True by (simp_all add: q_def discover_def)
    then have "fold (discover node) js (q, queue @ [j]) = (p', queue')" using Cons.prems by simp
    from Cons.IH [OF this] show ?thesis
      using open_nodes_update [of j "ps_distance p"] True q by (simp add: open_nodes_def)
  next
    case False
    then have "discover node j (p, queue) = (p, queue)" by (simp add: discover_def)
    then have "fold (discover node) js (p, queue) = (p', queue')" using Cons.prems by simp
    from Cons.IH [OF this] show ?thesis .
  qed
qed simp

function bfs_loop :: "(nat \<Rightarrow> nat list) \<Rightarrow> paths \<Rightarrow> nat list \<Rightarrow> nat \<Rightarrow> (paths \<times> nat) result" where
  "bfs_loop nbrs p [] work = Ok (p, work)"
| "bfs_loop nbrs p (node # queue) work =
     rbind (take_work (1 + length (nbrs node)) work) (\<lambda>left.
       bfs_loop nbrs (fst (fold (discover node) (nbrs node) (p, queue)))
         (snd (fold (discover node) (nbrs node) (p, queue))) left)"
  by pat_completeness auto
termination
proof (relation "measures [\<lambda>(nbrs, p, queue, work). open_nodes p + length queue]")
  fix nbrs p node queue work x
  show "((nbrs, fst (fold (discover node) (nbrs node) (p, queue)), snd (fold (discover node) (nbrs node) (p, queue)), x),
      (nbrs, p, node # queue, work)) \<in> measures [\<lambda>(nbrs, p, queue, work). open_nodes p + length queue]"
    using discover_measure [of node "nbrs node" p queue "fst (fold (discover node) (nbrs node) (p, queue))"
        "snd (fold (discover node) (nbrs node) (p, queue))"] by simp
qed simp

text \<open>
  The walk back from the goal: \<open>None\<close> when a predecessor is missing. The number of nodes bounds it,
  as the distance goes down with every step.
\<close>

fun walk_back :: "nat \<Rightarrow> nat option list \<Rightarrow> nat \<Rightarrow> nat \<Rightarrow> nat list \<Rightarrow> nat list option" where
  "walk_back fuel previous start cursor path =
     (if cursor = start then Some path
      else case fuel of 0 \<Rightarrow> None
        | Suc f \<Rightarrow>
            (case previous ! cursor of None \<Rightarrow> None
             | Some v \<Rightarrow> walk_back f previous start v (path @ [v])))"

record path_report =
  pr_distances :: "(string \<times> nat option) list"
  pr_predecessors :: "(string \<times> string option) list"
  pr_path :: "string list option"

definition shortest_paths ::
  "topology \<Rightarrow> string \<Rightarrow> bool \<Rightarrow> string option \<Rightarrow> nat \<Rightarrow> (path_report \<times> nat) result" where
  "shortest_paths g source directed target work =
     (let ids = tp_ids g; n = length ids; idx = zip ids [0..<n] in
      rbind (ok_or (map_of idx source) E_SCIENCE_SOURCE) (\<lambda>start.
      rbind (case target of None \<Rightarrow> Ok None
             | Some i \<Rightarrow> rbind (ok_or (map_of idx i) E_SCIENCE_TARGET) (\<lambda>j. Ok (Some j))) (\<lambda>goal.
      rbind (bfs_loop (path_next g directed)
               \<lparr>ps_distance = (replicate n None)[start := Some 0], ps_previous = replicate n None\<rparr> [start] work)
        (\<lambda>(p, left).
          Ok (\<lparr>pr_distances = zip ids (ps_distance p),
               pr_predecessors = map (\<lambda>i. (ids ! i, map_option ((!) ids) (ps_previous p ! i))) [0..<n],
               pr_path = (case goal of None \<Rightarrow> None
                 | Some v \<Rightarrow> (case ps_distance p ! v of None \<Rightarrow> None
                     | Some _ \<Rightarrow> map_option (\<lambda>path. rev (map ((!) ids) path))
                         (walk_back n (ps_previous p) start v [v])))\<rparr>, left)))))"

section \<open>The analyses\<close>

datatype component_mode = Weak | Strong

datatype analysis =
    Degree "int option"
  | Components component_mode "int option"
  | Shortest_Paths string bool "string option" "int option"

fun analysis_valid_at :: "analysis \<Rightarrow> int option" where
  "analysis_valid_at (Degree valid_at) = valid_at"
| "analysis_valid_at (Components mode valid_at) = valid_at"
| "analysis_valid_at (Shortest_Paths source directed target valid_at) = valid_at"

record limits =
  max_nodes :: nat
  max_edges :: nat
  max_work :: nat

datatype analysis_output =
    Degrees "(string \<times> nat \<times> nat \<times> nat) list"
  | Groups "string list list"
  | Paths path_report

definition components :: "topology \<Rightarrow> component_mode \<Rightarrow> nat \<Rightarrow> (string list list \<times> nat) result" where
  "components g mode work = (case mode of Weak \<Rightarrow> weak_components g work | Strong \<Rightarrow> strong_components g work)"

text \<open>The output, with the edges that its description reports as excluded: negative, then outside the time.\<close>

definition analyze ::
  "string list \<Rightarrow> graph_edge list \<Rightarrow> analysis \<Rightarrow> limits \<Rightarrow> (analysis_output \<times> nat \<times> nat) result" where
  "analyze nodes edges a lim =
     (if length nodes > max_nodes lim \<or> length edges > max_edges lim then Err E_SCIENCE_BUDGET
      else
        rbind (topology_new nodes edges (analysis_valid_at a) (max_work lim)) (\<lambda>(g, left).
        rbind (case a of
            Degree _ \<Rightarrow> rbind (degree g left) (\<lambda>(ds, _). Ok (Degrees ds))
          | Components mode _ \<Rightarrow> rbind (components g mode left) (\<lambda>(groups, _). Ok (Groups groups))
          | Shortest_Paths source directed target _ \<Rightarrow>
              rbind (shortest_paths g source directed target left) (\<lambda>(report, _). Ok (Paths report)))
          (\<lambda>output. Ok (output, tp_negative g, tp_outside g))))"

end
