(* ===== verification/Graph_Search.thy ===== *)
theory Graph_Search
  imports Graph_Model
begin

text \<open>
  The searches of the graph analytics: what \<open>explore\<close> finds and what it costs, the components a loop
  of explorations yields, and the order in which the depth-first pass leaves the nodes.
\<close>

section \<open>Reachability\<close>

definition edge_rel :: "nat \<Rightarrow> (nat \<Rightarrow> nat list) \<Rightarrow> (nat \<times> nat) set" where
  "edge_rel n nbrs = {(u, v). u < n \<and> v < n \<and> v \<in> set (nbrs u)}"

definition seen_set :: "bool list \<Rightarrow> nat set" where
  "seen_set seen = {v. v < length seen \<and> seen ! v}"

definition closed_under :: "('a \<times> 'a) set \<Rightarrow> 'a set \<Rightarrow> bool" where
  "closed_under E X \<longleftrightarrow> (\<forall>u \<in> X. \<forall>v. (u, v) \<in> E \<longrightarrow> v \<in> X)"

lemma closed_under_reach: "(u, v) \<in> E\<^sup>* \<Longrightarrow> closed_under E X \<Longrightarrow> u \<in> X \<Longrightarrow> v \<in> X"
  by (induction rule: rtrancl_induct) (auto simp: closed_under_def)

lemma seen_set_update [simp]: "j < length seen \<Longrightarrow> seen_set (seen[j := True]) = insert j (seen_set seen)"
  by (auto simp: seen_set_def nth_list_update)

lemma seen_set_bound: "seen_set seen \<subseteq> {..<length seen}"
  by (auto simp: seen_set_def)

lemma seen_set_replicate [simp]: "seen_set (replicate n False) = {}"
  by (auto simp: seen_set_def)

lemma seen_set_iff: "v < length seen \<Longrightarrow> v \<in> seen_set seen \<longleftrightarrow> seen ! v"
  by (simp add: seen_set_def)

section \<open>Exploration\<close>

lemma mark_push_fold:
  assumes "fold mark_push js (seen, stack) = (seen', stack')"
  shows "\<exists>new. stack' = new @ stack \<and> distinct new \<and> set new \<inter> seen_set seen = {}
     \<and> seen_set seen' = seen_set seen \<union> set new \<and> set new \<subseteq> set js \<and> length seen' = length seen
     \<and> (\<forall>j \<in> set js. j < length seen \<longrightarrow> j \<in> seen_set seen')"
  using assms
proof (induction js arbitrary: seen stack)
  case (Cons j js)
  show ?case
  proof (cases "j < length seen \<and> \<not> seen ! j")
    case True
    then have "fold mark_push js (seen[j := True], j # stack) = (seen', stack')" using Cons.prems by simp
    from Cons.IH [OF this] obtain new where "stack' = new @ j # stack" "distinct new"
      "set new \<inter> seen_set (seen[j := True]) = {}" "seen_set seen' = seen_set (seen[j := True]) \<union> set new"
      "set new \<subseteq> set js" "length seen' = length seen" "\<forall>i \<in> set js. i < length seen \<longrightarrow> i \<in> seen_set seen'"
      by auto
    with True show ?thesis by (intro exI [of _ "new @ [j]"]) (auto simp: seen_set_iff)
  next
    case False
    then have "fold mark_push js (seen, stack) = (seen', stack')" using Cons.prems by auto
    from Cons.IH [OF this] show ?thesis using False
      by (elim exE) (rule exI, auto simp: seen_set_def)
  qed
qed simp

definition weight :: "(nat \<Rightarrow> nat list) \<Rightarrow> nat set \<Rightarrow> nat" where
  "weight nbrs X = (\<Sum>v \<in> X. 1 + length (nbrs v))"

lemma weight_insert [simp]: "finite X \<Longrightarrow> v \<notin> X \<Longrightarrow> weight nbrs (insert v X) = 1 + length (nbrs v) + weight nbrs X"
  by (simp add: weight_def)

lemma weight_union: "finite X \<Longrightarrow> finite Y \<Longrightarrow> X \<inter> Y = {} \<Longrightarrow> weight nbrs (X \<union> Y) = weight nbrs X + weight nbrs Y"
  by (simp add: weight_def sum.union_disjoint)

lemma weight_mono: "finite Y \<Longrightarrow> X \<subseteq> Y \<Longrightarrow> weight nbrs X \<le> weight nbrs Y"
  unfolding weight_def by (rule sum_mono2) auto

text \<open>What an exploration finds: the stack and everything new that can be reached from it.\<close>

definition found_from :: "(nat \<Rightarrow> nat list) \<Rightarrow> bool list \<Rightarrow> nat list \<Rightarrow> bool list \<Rightarrow> nat list \<Rightarrow> bool" where
  "found_from nbrs seen stack seen' vs \<longleftrightarrow>
     length seen' = length seen \<and> distinct vs \<and> set stack \<subseteq> set vs
     \<and> (set vs - set stack) \<inter> seen_set seen = {} \<and> seen_set seen' = seen_set seen \<union> set vs
     \<and> (\<forall>v \<in> set vs. \<exists>s \<in> set stack. (s, v) \<in> (edge_rel (length seen) nbrs)\<^sup>*)
     \<and> (\<forall>v \<in> set vs. \<forall>w. (v, w) \<in> edge_rel (length seen) nbrs \<longrightarrow> w \<in> seen_set seen')"

lemma explore_Ok:
  assumes "explore ids nbrs seen stack found work = Ok (seen', found', left)"
    and "distinct stack" and "set stack \<subseteq> seen_set seen"
  shows "\<exists>vs. found_from nbrs seen stack seen' vs \<and> found' = found @ map ((!) ids) vs
    \<and> left + weight nbrs (set vs) = work"
  using assms
proof (induction ids nbrs seen stack found work rule: explore.induct)
  case (1 ids nbrs seen found work)
  then show ?case by (intro exI [of _ "[]"]) (simp add: found_from_def weight_def)
next
  case (2 ids nbrs seen node stack found work)
  let ?E = "edge_rel (length seen) nbrs"
  define seen1 where "seen1 = fst (fold mark_push (nbrs node) (seen, stack))"
  define stack1 where "stack1 = snd (fold mark_push (nbrs node) (seen, stack))"
  have fold: "fold mark_push (nbrs node) (seen, stack) = (seen1, stack1)" by (simp add: seen1_def stack1_def)
  from mark_push_fold [OF fold] obtain new where new: "stack1 = new @ stack" "distinct new"
      "set new \<inter> seen_set seen = {}" "seen_set seen1 = seen_set seen \<union> set new" "set new \<subseteq> set (nbrs node)"
      "length seen1 = length seen" "\<forall>j \<in> set (nbrs node). j < length seen \<longrightarrow> j \<in> seen_set seen1"
    by blast
  have node: "node \<in> seen_set seen" "node < length seen" "node \<notin> set stack" "distinct stack"
    "set stack \<subseteq> seen_set seen"
    using "2.prems"(2,3) by (auto simp: seen_set_def)
  have paid: "1 + length (nbrs node) \<le> work"
    and run: "explore ids nbrs seen1 stack1 (found @ [ids ! node]) (work - (1 + length (nbrs node))) = Ok (seen', found', left)"
    using "2.prems"(1) by (auto simp: seen1_def stack1_def)
  have "distinct stack1" "set stack1 \<subseteq> seen_set seen1" using new node by auto
  from "2.IH" [folded seen1_def stack1_def, OF run this] paid
  obtain vs where vs: "found_from nbrs seen1 stack1 seen' vs" "found' = (found @ [ids ! node]) @ map ((!) ids) vs"
      "left + weight nbrs (set vs) = work - (1 + length (nbrs node))"
    by auto
  have fresh: "node \<notin> set vs"
    using vs(1) node new by (auto simp: found_from_def)
  have edges: "(node, w) \<in> ?E" if "w \<in> set new" for w
    using that new node(2) seen_set_bound [of seen1] by (auto simp: edge_rel_def)
  have "found_from nbrs seen (node # stack) seen' (node # vs)"
    unfolding found_from_def
  proof (intro conjI ballI allI impI)
    show "length seen' = length seen" "set (node # stack) \<subseteq> set (node # vs)" "distinct (node # vs)"
      using vs(1) new fresh by (auto simp: found_from_def)
    show "(set (node # vs) - set (node # stack)) \<inter> seen_set seen = {}"
      using vs(1) new by (auto simp: found_from_def)
    show "seen_set seen' = seen_set seen \<union> set (node # vs)" using vs(1) new node(1) by (auto simp: found_from_def)
  next
    fix v assume "v \<in> set (node # vs)"
    then consider "v = node" | s where "s \<in> set new" "(s, v) \<in> ?E\<^sup>*" | s where "s \<in> set stack" "(s, v) \<in> ?E\<^sup>*"
      using vs(1) new by (auto simp: found_from_def)
    then show "\<exists>s \<in> set (node # stack). (s, v) \<in> ?E\<^sup>*"
      using edges by cases (auto intro: converse_rtrancl_into_rtrancl)
  next
    fix v w assume v: "v \<in> set (node # vs)" and e: "(v, w) \<in> ?E"
    show "w \<in> seen_set seen'"
    proof (cases "v = node")
      case True
      then have "w \<in> seen_set seen1" using e new by (auto simp: edge_rel_def)
      then show ?thesis using vs(1) by (auto simp: found_from_def)
    next
      case False
      then show ?thesis using v e vs(1) new by (auto simp: found_from_def)
    qed
  qed
  moreover have "left + weight nbrs (set (node # vs)) = work" using vs(3) fresh paid by simp
  ultimately show ?case using vs(2) by (intro exI [of _ "node # vs"]) simp
qed

text \<open>Enough work for every node that can still be visited lets an exploration finish.\<close>

lemma explore_total:
  assumes "weight nbrs (set stack \<union> ({..<length seen} - seen_set seen)) \<le> work"
    and "distinct stack" and "set stack \<subseteq> seen_set seen"
  shows "is_ok (explore ids nbrs seen stack found work)"
  using assms
proof (induction ids nbrs seen stack found work rule: explore.induct)
  case (1 ids nbrs seen found work)
  then show ?case by simp
next
  case (2 ids nbrs seen node stack found work)
  define seen1 where "seen1 = fst (fold mark_push (nbrs node) (seen, stack))"
  define stack1 where "stack1 = snd (fold mark_push (nbrs node) (seen, stack))"
  have fold: "fold mark_push (nbrs node) (seen, stack) = (seen1, stack1)" by (simp add: seen1_def stack1_def)
  from mark_push_fold [OF fold] obtain new where new: "stack1 = new @ stack" "distinct new"
      "set new \<inter> seen_set seen = {}" "seen_set seen1 = seen_set seen \<union> set new" "length seen1 = length seen"
    by blast
  let ?rest = "set stack \<union> ({..<length seen} - seen_set seen)"
  have node: "node \<notin> ?rest" "distinct stack" "set stack \<subseteq> seen_set seen" using "2.prems"(2,3) by auto
  have "set (node # stack) \<union> ({..<length seen} - seen_set seen) = insert node ?rest" by simp
  moreover have "weight nbrs (insert node ?rest) = 1 + length (nbrs node) + weight nbrs ?rest"
    by (rule weight_insert) (use node(1) in auto)
  ultimately have paid: "1 + length (nbrs node) + weight nbrs ?rest \<le> work" using "2.prems"(1) by metis
  have "set stack1 \<union> ({..<length seen1} - seen_set seen1) \<subseteq> ?rest"
    using new seen_set_bound [of seen1] by auto
  then have "weight nbrs (set stack1 \<union> ({..<length seen1} - seen_set seen1)) \<le> weight nbrs ?rest"
    by (intro weight_mono) auto
  then have "weight nbrs (set stack1 \<union> ({..<length seen1} - seen_set seen1)) \<le> work - (1 + length (nbrs node))"
    using paid by linarith
  moreover have "distinct stack1" "set stack1 \<subseteq> seen_set seen1" using new node by auto
  ultimately have "is_ok (explore ids nbrs seen1 stack1 (found @ [ids ! node]) (work - (1 + length (nbrs node))))"
    by (rule "2.IH" [folded seen1_def stack1_def])
  moreover have "take_work (1 + length (nbrs node)) work = Ok (work - (1 + length (nbrs node)))" using paid by simp
  ultimately show ?case by (simp add: seen1_def stack1_def del: take_work_Ok)
qed

end
