(* ===== verification/Graph_Components.thy ===== *)
theory Graph_Components
  imports Graph_Search
begin

text \<open>
  The components of the graph analytics: what the loop over the starts collects, the finishing order of
  the depth-first pass, and that the two passes together find the strongly connected components.
\<close>

section \<open>The loop over the starts\<close>

text \<open>
  The groups found from a list of starts: each is what its start reaches outside the earlier groups,
  and every start before it is in one of those.
\<close>

definition group_ok :: "(nat \<times> nat) set \<Rightarrow> nat list \<Rightarrow> nat set \<Rightarrow> nat list \<Rightarrow> bool" where
  "group_ok E starts S vs \<longleftrightarrow>
     (\<exists>xs start ys. starts = xs @ start # ys \<and> set xs \<subseteq> S \<and> start \<notin> S \<and> closed_under E S
        \<and> set vs = E\<^sup>* `` {start} - S)"

definition groups_ok :: "(nat \<times> nat) set \<Rightarrow> nat list \<Rightarrow> nat list list \<Rightarrow> bool" where
  "groups_ok E starts vss \<longleftrightarrow>
     distinct (concat vss) \<and> closed_under E (set (concat vss)) \<and> set starts \<subseteq> set (concat vss)
     \<and> (\<forall>A vs B. vss = A @ vs # B \<longrightarrow> group_ok E starts (set (concat A)) vs)"

lemma group_ok_more: "group_ok E starts S vs \<Longrightarrow> group_ok E (starts @ others) S vs"
  unfolding group_ok_def by (metis append_Cons append_assoc)

lemma groups_ok_more:
  "groups_ok E starts vss \<Longrightarrow> start \<in> set (concat vss) \<Longrightarrow> groups_ok E (starts @ [start]) vss"
  unfolding groups_ok_def using group_ok_more by auto

lemma groups_ok_group:
  assumes ok: "groups_ok E starts vss" and start: "start \<notin> set (concat vss)"
    and vs: "distinct vs" "set vs = E\<^sup>* `` {start} - set (concat vss)"
  shows "groups_ok E (starts @ [start]) (vss @ [vs])"
  unfolding groups_ok_def
proof (intro conjI allI impI)
  show "distinct (concat (vss @ [vs]))" using ok vs by (auto simp: groups_ok_def)
  have all: "set (concat (vss @ [vs])) = set (concat vss) \<union> E\<^sup>* `` {start}" using vs by auto
  show "closed_under E (set (concat (vss @ [vs])))"
    using ok unfolding all by (auto simp: groups_ok_def closed_under_def intro: rtrancl_into_rtrancl)
  show "set (starts @ [start]) \<subseteq> set (concat (vss @ [vs]))" using ok unfolding all by (auto simp: groups_ok_def)
  fix A us B assume split: "vss @ [vs] = A @ us # B"
  show "group_ok E (starts @ [start]) (set (concat A)) us"
  proof (cases B rule: rev_cases)
    case Nil
    then have "A = vss" "us = vs" using split by simp_all
    then show ?thesis using ok start vs unfolding group_ok_def groups_ok_def
      by (intro exI [of _ starts] exI [of _ start] exI [of _ "[]"]) simp
  next
    case (snoc B' b)
    then have "vss = A @ us # B'" using split by simp
    then show ?thesis using ok unfolding groups_ok_def by (blast intro: group_ok_more)
  qed
qed

lemma component_loop:
  assumes "try_fold (component_from ids nbrs) (replicate n False, [], work) starts = Ok (seen, groups, left)"
    and "set starts \<subseteq> {..<n}"
  shows "\<exists>vss. groups_ok (edge_rel n nbrs) starts vss \<and> groups = map (\<lambda>vs. sort (map ((!) ids) vs)) vss
    \<and> seen_set seen = set (concat vss) \<and> length seen = n \<and> left + weight nbrs (set (concat vss)) = work"
  using assms
proof (induction starts arbitrary: seen groups left rule: rev_induct)
  case Nil
  then show ?case by (intro exI [of _ "[]"]) (auto simp: groups_ok_def closed_under_def weight_def)
next
  case (snoc start starts)
  from snoc.prems(1) obtain s where "try_fold (component_from ids nbrs) (replicate n False, [], work) starts = Ok s"
      and step: "component_from ids nbrs s start = Ok (seen, groups, left)"
    by (auto simp: try_fold_append)
  moreover obtain seen0 groups0 left0 where s: "s = (seen0, groups0, left0)" by (metis prod_cases3)
  ultimately obtain vss where ok: "groups_ok (edge_rel n nbrs) starts vss"
      and g: "groups0 = map (\<lambda>vs. sort (map ((!) ids) vs)) vss"
      and seen0: "seen_set seen0 = set (concat vss)" "length seen0 = n"
      and left0: "left0 + weight nbrs (set (concat vss)) = work"
    using snoc.IH snoc.prems(2) by fastforce
  have start: "start < n" using snoc.prems(2) by simp
  show ?case
  proof (cases "seen0 ! start")
    case True
    then have "start \<in> set (concat vss)" using seen0 start by (metis seen_set_iff)
    with groups_ok_more [OF ok] show ?thesis
      using step s True g seen0 left0 by (intro exI [of _ vss]) (simp add: component_from_def)
  next
    case False
    let ?E = "edge_rel n nbrs"
    have fresh: "start \<notin> set (concat vss)" using seen0 start False by (metis seen_set_iff)
    from step s False obtain found where
        run: "explore ids nbrs (seen0[start := True]) [start] [] left0 = Ok (seen, found, left)"
        and groups: "groups = groups0 @ [sort found]"
      by (auto simp: component_from_def)
    have mark: "seen_set (seen0[start := True]) = insert start (set (concat vss))"
      using seen0 start by simp
    then obtain vs where vs: "found_from nbrs (seen0[start := True]) [start] seen vs" "found = map ((!) ids) vs"
        and paid: "left + weight nbrs (set vs) = left0"
      using explore_Ok [OF run] by auto
    have disj: "set vs \<inter> set (concat vss) = {}" "start \<in> set vs" "distinct vs" "length seen = n"
      using vs(1) mark fresh seen0 by (auto simp: found_from_def)
    have seen: "seen_set seen = set (concat vss) \<union> set vs" using vs(1) mark disj(2) by (auto simp: found_from_def)
    have out: "w \<in> set (concat vss) \<union> set vs" if "v \<in> set vs" "(v, w) \<in> ?E" for v w
    proof -
      have "length (seen0[start := True]) = n" using seen0 by simp
      then have "w \<in> seen_set seen" using vs(1) that unfolding found_from_def by metis
      then show ?thesis using seen by simp
    qed
    have "set vs = ?E\<^sup>* `` {start} - set (concat vss)"
    proof (intro equalityI subsetI)
      fix v assume "v \<in> set vs"
      then show "v \<in> ?E\<^sup>* `` {start} - set (concat vss)"
        using vs(1) disj seen0 by (auto simp: found_from_def)
    next
      fix v assume v: "v \<in> ?E\<^sup>* `` {start} - set (concat vss)"
      have "closed_under ?E (set (concat vss) \<union> set vs)"
        using ok out by (auto simp: groups_ok_def closed_under_def)
      then have "v \<in> set (concat vss) \<union> set vs"
        using closed_under_reach [of start v ?E] v disj(2) by blast
      then show "v \<in> set vs" using v by blast
    qed
    from groups_ok_group [OF ok fresh disj(3) this]
    show ?thesis using groups g vs(2) seen disj paid left0 weight_union [of "set (concat vss)" "set vs" nbrs]
      by (intro exI [of _ "vss @ [vs]"]) (auto simp: Int_commute)
  qed
qed

lemma is_ok_rbind: "is_ok r \<Longrightarrow> (\<And>x. r = Ok x \<Longrightarrow> is_ok (k x)) \<Longrightarrow> is_ok (rbind r k)"
  by (cases r) simp_all

lemma component_loop_total:
  assumes "weight nbrs {..<n} \<le> work" and "set starts \<subseteq> {..<n}"
  shows "is_ok (try_fold (component_from ids nbrs) (replicate n False, [], work) starts)"
  using assms(2)
proof (induction starts rule: rev_induct)
  case (snoc start starts)
  then obtain s where run: "try_fold (component_from ids nbrs) (replicate n False, [], work) starts = Ok s"
    by (cases "try_fold (component_from ids nbrs) (replicate n False, [], work) starts") auto
  obtain seen groups left where s: "s = (seen, groups, left)" by (metis prod_cases3)
  from component_loop [OF run [unfolded s]] snoc.prems obtain vss where
      vss: "seen_set seen = set (concat vss)" "length seen = n" "left + weight nbrs (set (concat vss)) = work"
    by auto
  have "is_ok (component_from ids nbrs s start)"
  proof (cases "seen ! start")
    case True
    then show ?thesis by (simp add: component_from_def s)
  next
    case False
    have start: "start < n" using snoc.prems by simp
    have mark: "seen_set (seen[start := True]) = insert start (seen_set seen)" using start vss(2) by simp
    have "set [start] \<union> ({..<length (seen[start := True])} - seen_set (seen[start := True])) = {..<n} - seen_set seen"
      using start False vss(2) mark by (auto simp: seen_set_def)
    moreover have "weight nbrs ({..<n} - seen_set seen) + weight nbrs (seen_set seen) = weight nbrs {..<n}"
      using weight_union [of "{..<n} - seen_set seen" "seen_set seen" nbrs] seen_set_bound [of seen] vss(2)
      by (metis Diff_disjoint Diff_partition Int_commute Un_commute finite_Diff finite_lessThan finite_subset)
    ultimately have "is_ok (explore ids nbrs (seen[start := True]) [start] [] left)"
      using vss assms(1) mark by (intro explore_total) auto
    then show ?thesis using False unfolding component_from_def s
      by (auto simp del: explore.simps intro!: is_ok_rbind split: prod.splits)
  qed
  then show ?case by (simp add: try_fold_append run) (cases "component_from ids nbrs s start"; simp)
qed simp

section \<open>The finishing order\<close>

text \<open>
  What a depth-first order owes the second pass: of the nodes left before \<open>r\<close>, those that \<open>r\<close> does not
  reach have no edges to anything else left by then.
\<close>

definition finished_ok :: "(nat \<times> nat) set \<Rightarrow> nat list \<Rightarrow> bool" where
  "finished_ok E order \<longleftrightarrow>
     (\<forall>A r B. order = A @ r # B \<longrightarrow>
       (\<exists>F \<subseteq> set A. (\<forall>u \<in> F. \<forall>v. (u, v) \<in> E \<longrightarrow> v \<in> F \<or> v \<notin> insert r (set A)) \<and> (\<forall>u \<in> set A - F. (r, u) \<in> E\<^sup>*)))"

text \<open>A path among the nodes left up to \<open>r\<close> that ends in \<open>r\<close> starts in its strong component.\<close>

lemma finished_ok_path:
  assumes fin: "finished_ok E order" and order: "order = A @ r # B" "distinct order"
    and path: "(u, r) \<in> (E \<inter> {(x, y). y \<in> insert r (set A)})\<^sup>*" and u: "u \<in> insert r (set A)"
  shows "(r, u) \<in> E\<^sup>*"
proof (cases "u = r")
  case False
  from fin [unfolded finished_ok_def, rule_format, OF order(1)] obtain F where F: "F \<subseteq> set A"
      "\<forall>u \<in> F. \<forall>v. (u, v) \<in> E \<longrightarrow> v \<in> F \<or> v \<notin> insert r (set A)" "\<forall>u \<in> set A - F. (r, u) \<in> E\<^sup>*"
    by (elim exE conjE)
  have "u \<notin> F"
  proof
    assume "u \<in> F"
    from path have "r \<in> F"
    proof (induction rule: rtrancl_induct)
      case base
      show ?case by (rule \<open>u \<in> F\<close>)
    next
      case (step x y)
      from step.hyps(2) have "(x, y) \<in> E" "y \<in> insert r (set A)" by blast+
      with F(2) step.IH show ?case by metis
    qed
    then show False using F(1) order by auto
  qed
  then show ?thesis using F(3) u False by blast
qed simp

text \<open>
  The invariant of the pass. Each stack entry has a ghost set: the nodes that were left when it was
  pushed, whose edges stay among them and the entries below; every other node left is below it.
\<close>

definition entry_ok :: "(nat \<times> nat) set \<Rightarrow> nat list \<Rightarrow> nat \<Rightarrow> nat list \<Rightarrow> bool" where
  "entry_ok E order y below \<longleftrightarrow>
     (\<exists>F \<subseteq> set order. (\<forall>u \<in> F. \<forall>v. (u, v) \<in> E \<longrightarrow> v \<in> F \<union> set below) \<and> (\<forall>u \<in> set order - F. (y, u) \<in> E\<^sup>*))"

fun entries_ok :: "(nat \<times> nat) set \<Rightarrow> nat list \<Rightarrow> nat list \<Rightarrow> bool" where
  "entries_ok E order [] = True"
| "entries_ok E order (y # below) =
     (entry_ok E order y below \<and> (\<forall>x \<in> set below. (x, y) \<in> E\<^sup>*) \<and> entries_ok E order below)"

definition dfs_inv :: "nat \<Rightarrow> (nat \<Rightarrow> nat list) \<Rightarrow> bool list \<Rightarrow> (nat \<times> nat) list \<Rightarrow> nat list \<Rightarrow> bool" where
  "dfs_inv n nbrs seen stack order \<longleftrightarrow>
     length seen = n \<and> distinct (map fst stack @ order) \<and> seen_set seen = set (map fst stack) \<union> set order
     \<and> (\<forall>(v, c) \<in> set stack. \<forall>i < c. i < length (nbrs v) \<longrightarrow> nbrs v ! i < n \<longrightarrow> nbrs v ! i \<in> seen_set seen)
     \<and> (\<forall>u \<in> set order. \<forall>v. (u, v) \<in> edge_rel n nbrs \<longrightarrow> v \<in> seen_set seen)
     \<and> entries_ok (edge_rel n nbrs) order (map fst stack) \<and> finished_ok (edge_rel n nbrs) order"

lemma dfs_invD:
  assumes "dfs_inv n nbrs seen stack order"
  shows "length seen = n" and "distinct (map fst stack @ order)" and "seen_set seen = set (map fst stack) \<union> set order"
    and "\<forall>(v, c) \<in> set stack. \<forall>i < c. i < length (nbrs v) \<longrightarrow> nbrs v ! i < n \<longrightarrow> nbrs v ! i \<in> seen_set seen"
    and "\<forall>u \<in> set order. \<forall>v. (u, v) \<in> edge_rel n nbrs \<longrightarrow> v \<in> seen_set seen"
    and "entries_ok (edge_rel n nbrs) order (map fst stack)" and "finished_ok (edge_rel n nbrs) order"
  using assms unfolding dfs_inv_def by blast+

lemma entry_ok_left:
  assumes "entry_ok E order y below" and "(y, x) \<in> E\<^sup>*"
  shows "entry_ok E (order @ [x]) y below"
proof -
  from assms(1) obtain F where "F \<subseteq> set order" "\<forall>u \<in> F. \<forall>v. (u, v) \<in> E \<longrightarrow> v \<in> F \<union> set below"
      "\<forall>u \<in> set order - F. (y, u) \<in> E\<^sup>*"
    unfolding entry_ok_def by blast
  with assms(2) show ?thesis unfolding entry_ok_def by (intro exI [of _ F]) auto
qed

lemma entries_ok_left:
  "entries_ok E order ys \<Longrightarrow> \<forall>y \<in> set ys. (y, x) \<in> E\<^sup>* \<Longrightarrow> entries_ok E (order @ [x]) ys"
  by (induction ys) (auto intro: entry_ok_left)

lemma finished_ok_left:
  assumes fin: "finished_ok E order" and entry: "entry_ok E order x below" and disj: "set below \<inter> insert x (set order) = {}"
  shows "finished_ok E (order @ [x])"
  unfolding finished_ok_def
proof (intro allI impI)
  fix A r B assume split: "order @ [x] = A @ r # B"
  show "\<exists>F \<subseteq> set A. (\<forall>u \<in> F. \<forall>v. (u, v) \<in> E \<longrightarrow> v \<in> F \<or> v \<notin> insert r (set A)) \<and> (\<forall>u \<in> set A - F. (r, u) \<in> E\<^sup>*)"
  proof (cases B rule: rev_cases)
    case Nil
    then have A: "A = order" "r = x" using split by simp_all
    from entry obtain F where "F \<subseteq> set order" "\<forall>u \<in> F. \<forall>v. (u, v) \<in> E \<longrightarrow> v \<in> F \<union> set below"
        "\<forall>u \<in> set order - F. (x, u) \<in> E\<^sup>*"
      unfolding entry_ok_def by blast
    with disj show ?thesis unfolding A by (intro exI [of _ F]) blast
  next
    case (snoc B' b)
    then have "order = A @ r # B'" using split by simp
    then show ?thesis using fin unfolding finished_ok_def by blast
  qed
qed

lemma entries_ok_reach: "entries_ok E order (y # below) \<Longrightarrow> x \<in> set below \<Longrightarrow> (x, y) \<in> E\<^sup>*"
  by simp

lemma dfs_inv_push:
  assumes inv: "dfs_inv n nbrs seen ((x, c) # stack) order"
    and c: "c < length (nbrs x)" and z: "nbrs x ! c = z" "z < n" "\<not> seen ! z"
  shows "dfs_inv n nbrs (seen[z := True]) ((z, 0) # (x, Suc c) # stack) order"
proof -
  let ?E = "edge_rel n nbrs"
  note d = dfs_invD [OF inv]
  have zS: "z \<notin> seen_set seen" using z d(1) by (metis seen_set_iff)
  have S': "seen_set (seen[z := True]) = insert z (seen_set seen)" using z d(1) by simp
  have "x \<in> seen_set seen" using d(3) by simp
  then have "x < n" using d(1) by (simp add: seen_set_def)
  then have edge: "(x, z) \<in> ?E" using z c nth_mem [OF c] by (simp add: edge_rel_def)
  show ?thesis
    unfolding dfs_inv_def S'
  proof (intro conjI)
    show "length (seen[z := True]) = n" using d(1) by simp
    show "distinct (map fst ((z, 0) # (x, Suc c) # stack) @ order)" using d(2) zS d(3) by auto
    show "insert z (seen_set seen) = set (map fst ((z, 0) # (x, Suc c) # stack)) \<union> set order" using d(3) by auto
    have "\<forall>i < c. i < length (nbrs x) \<longrightarrow> nbrs x ! i < n \<longrightarrow> nbrs x ! i \<in> insert z (seen_set seen)" using d(4) by simp
    then have "\<forall>i < Suc c. i < length (nbrs x) \<longrightarrow> nbrs x ! i < n \<longrightarrow> nbrs x ! i \<in> insert z (seen_set seen)"
      using z(1) less_Suc_eq by blast
    then show "\<forall>(v, d) \<in> set ((z, 0) # (x, Suc c) # stack). \<forall>i < d. i < length (nbrs v) \<longrightarrow> nbrs v ! i < n
      \<longrightarrow> nbrs v ! i \<in> insert z (seen_set seen)"
      using d(4) by auto
    show "\<forall>u \<in> set order. \<forall>v. (u, v) \<in> ?E \<longrightarrow> v \<in> insert z (seen_set seen)" using d(5) by blast
    have "\<forall>u \<in> set order. \<forall>v. (u, v) \<in> ?E \<longrightarrow> v \<in> set order \<union> set (x # map fst stack)" using d(3,5) by auto
    then have "entry_ok ?E order z (x # map fst stack)" unfolding entry_ok_def by (intro exI [of _ "set order"]) simp
    moreover have "\<forall>y \<in> set (x # map fst stack). (y, z) \<in> ?E\<^sup>*"
      using d(6) edge by (auto intro: rtrancl_into_rtrancl)
    ultimately show "entries_ok ?E order (map fst ((z, 0) # (x, Suc c) # stack))" using d(6) by simp
    show "finished_ok ?E order" by (rule d(7))
  qed
qed

lemma dfs_inv_skip:
  assumes inv: "dfs_inv n nbrs seen ((x, c) # stack) order"
    and c: "c < length (nbrs x)" and z: "\<not> (nbrs x ! c < n \<and> \<not> seen ! (nbrs x ! c))"
  shows "dfs_inv n nbrs seen ((x, Suc c) # stack) order"
proof -
  note d = dfs_invD [OF inv]
  have z': "nbrs x ! c < n \<longrightarrow> nbrs x ! c \<in> seen_set seen"
    using z d(1) by (simp add: seen_set_def)
  have "\<forall>i < c. i < length (nbrs x) \<longrightarrow> nbrs x ! i < n \<longrightarrow> nbrs x ! i \<in> seen_set seen" using d(4) by simp
  then have "\<forall>i < Suc c. i < length (nbrs x) \<longrightarrow> nbrs x ! i < n \<longrightarrow> nbrs x ! i \<in> seen_set seen"
    using z' less_Suc_eq by blast
  then have "\<forall>(v, d) \<in> set ((x, Suc c) # stack). \<forall>i < d. i < length (nbrs v) \<longrightarrow> nbrs v ! i < n \<longrightarrow> nbrs v ! i \<in> seen_set seen"
    using d(4) by simp
  then show ?thesis unfolding dfs_inv_def using d by (intro conjI) simp_all
qed

lemma dfs_inv_leave:
  assumes inv: "dfs_inv n nbrs seen ((x, c) # stack) order" and c: "\<not> c < length (nbrs x)"
  shows "dfs_inv n nbrs seen stack (order @ [x])"
proof -
  let ?E = "edge_rel n nbrs"
  note d = dfs_invD [OF inv]
  have x_out: "\<forall>v. (x, v) \<in> ?E \<longrightarrow> v \<in> seen_set seen"
  proof (intro allI impI)
    fix v assume "(x, v) \<in> ?E"
    then obtain i where "i < length (nbrs x)" "nbrs x ! i = v" "v < n"
      by (auto simp: edge_rel_def in_set_conv_nth)
    then show "v \<in> seen_set seen" using d(4) c by auto
  qed
  show ?thesis
    unfolding dfs_inv_def
  proof (intro conjI)
    show "length seen = n" by (rule d(1))
    show "distinct (map fst stack @ order @ [x])" using d(2) by auto
    show "seen_set seen = set (map fst stack) \<union> set (order @ [x])" using d(3) by auto
    show "\<forall>(v, c) \<in> set stack. \<forall>i < c. i < length (nbrs v) \<longrightarrow> nbrs v ! i < n \<longrightarrow> nbrs v ! i \<in> seen_set seen"
      using d(4) by simp
    show "\<forall>u \<in> set (order @ [x]). \<forall>v. (u, v) \<in> ?E \<longrightarrow> v \<in> seen_set seen" using d(5) x_out by simp
    show "entries_ok ?E (order @ [x]) (map fst stack)"
      using d(6) by (intro entries_ok_left) auto
    show "finished_ok ?E (order @ [x])"
      by (rule finished_ok_left [OF d(7), where below = "map fst stack"]) (use d(2,6) in auto)
  qed
qed

lemma dfs_turn_inv:
  assumes "dfs_inv n nbrs seen (cell # stack) order"
    and "dfs_turn nbrs seen cell stack order = (seen', stack', order')"
  shows "dfs_inv n nbrs seen' stack' order'"
proof -
  obtain x c where cell: "cell = (x, c)" by fastforce
  have n: "length seen = n" using assms(1) by (simp add: dfs_inv_def)
  note inv = assms(1) [unfolded cell]
  show ?thesis
  proof (cases "c < length (nbrs x)")
    case True
    then show ?thesis using assms(2) n dfs_inv_push [OF inv True] dfs_inv_skip [OF inv True]
      by (auto simp: dfs_turn_def cell Let_def split: if_splits)
  next
    case False
    then show ?thesis using assms(2) dfs_inv_leave [OF inv False] by (auto simp: dfs_turn_def cell)
  qed
qed

text \<open>A turn costs one unit: the nodes left to see and the entries left to scan pay for it.\<close>

definition dfs_cost :: "(nat \<Rightarrow> nat list) \<Rightarrow> bool list \<Rightarrow> (nat \<times> nat) list \<Rightarrow> nat" where
  "dfs_cost nbrs seen stack = weight nbrs ({..<length seen} - seen_set seen) + dfs_left nbrs stack"

lemma dfs_turn_cost:
  assumes "dfs_turn nbrs seen cell stack order = (seen', stack', order')"
  shows "Suc (dfs_cost nbrs seen' stack') = dfs_cost nbrs seen (cell # stack)"
proof -
  obtain x c where cell: "cell = (x, c)" by fastforce
  define z where "z = nbrs x ! c"
  show ?thesis
  proof (cases "c < length (nbrs x) \<and> z < length seen \<and> \<not> seen ! z")
    case True
    then have turn: "seen' = seen[z := True]" "stack' = (z, 0) # (x, Suc c) # stack"
      using assms by (auto simp: dfs_turn_def cell z_def Let_def)
    have "{..<length seen} - seen_set seen = insert z ({..<length seen'} - seen_set seen')"
      using True turn by (auto simp: seen_set_def nth_list_update split: if_splits)
    moreover have "z \<notin> {..<length seen'} - seen_set seen'" using True turn by simp
    ultimately have "weight nbrs ({..<length seen} - seen_set seen)
        = 1 + length (nbrs z) + weight nbrs ({..<length seen'} - seen_set seen')"
      using weight_insert [of "{..<length seen'} - seen_set seen'" z nbrs] by simp
    moreover have "dfs_left nbrs stack' + 1 = dfs_left nbrs (cell # stack) + 1 + length (nbrs z)"
      using conjunct1 [OF True] unfolding turn(2) cell dfs_left_def by simp
    ultimately show ?thesis unfolding dfs_cost_def by linarith
  next
    case False
    then show ?thesis using assms
      by (auto simp: dfs_turn_def cell z_def Let_def dfs_cost_def dfs_left_def split: if_splits)
  qed
qed

lemma dfs_loop_Ok:
  assumes "dfs_loop nbrs seen stack order work = Ok (seen', order', left)" and "dfs_inv n nbrs seen stack order"
  shows "dfs_inv n nbrs seen' [] order' \<and> set (map fst stack) \<union> set order \<subseteq> set order'
    \<and> work + dfs_cost nbrs seen' [] = left + dfs_cost nbrs seen stack"
  using assms
proof (induction nbrs seen stack order work rule: dfs_loop.induct)
  case (1 nbrs seen order work)
  then show ?case by simp
next
  case (2 nbrs seen cell stack order work)
  obtain seen1 stack1 order1 where turn: "dfs_turn nbrs seen cell stack order = (seen1, stack1, order1)"
    by (metis prod_cases3)
  from "2.prems"(1) turn have paid: "1 \<le> work"
    and run: "dfs_loop nbrs seen1 stack1 order1 (work - 1) = Ok (seen', order', left)" by auto
  note inv1 = dfs_turn_inv [OF "2.prems"(2) turn]
  have "set (map fst (cell # stack)) \<union> set order \<subseteq> set (map fst stack1) \<union> set order1"
    using turn by (cases cell) (auto simp: dfs_turn_def Let_def split: if_splits)
  then show ?case
    using "2.IH" [OF turn [symmetric] refl run inv1] dfs_turn_cost [OF turn] paid
    by (intro conjI) (blast | linarith)+
qed


lemma dfs_loop_total:
  assumes "dfs_cost nbrs seen stack \<le> work"
  shows "is_ok (dfs_loop nbrs seen stack order work)"
  using assms
proof (induction nbrs seen stack order work rule: dfs_loop.induct)
  case (2 nbrs seen cell stack order work)
  obtain seen1 stack1 order1 where turn: "dfs_turn nbrs seen cell stack order = (seen1, stack1, order1)"
    by (metis prod_cases3)
  have cost: "Suc (dfs_cost nbrs seen1 stack1) \<le> work" using dfs_turn_cost [OF turn] "2.prems" by linarith
  then have "is_ok (dfs_loop nbrs seen1 stack1 order1 (work - 1))"
    using "2.IH" [OF turn [symmetric] refl, of "work - 1"] by simp
  moreover have "take_work 1 work = Ok (work - 1)" using cost by simp
  ultimately show ?case using turn by (simp del: take_work_Ok)
qed simp

section \<open>The depth-first pass\<close>

lemma dfs_inv_start:
  assumes inv: "dfs_inv n nbrs seen [] order" and start: "start < n" "\<not> seen ! start"
  shows "dfs_inv n nbrs (seen[start := True]) [(start, 0)] order"
proof -
  note d = dfs_invD [OF inv]
  have S: "seen_set seen = set order" using d(3) by simp
  have S': "seen_set (seen[start := True]) = insert start (set order)" using start d(1) S by simp
  have fresh: "start \<notin> set order" using start d(1) S by (metis seen_set_iff)
  have "entry_ok (edge_rel n nbrs) order start []"
    unfolding entry_ok_def using d(5) S by (intro exI [of _ "set order"]) auto
  then show ?thesis unfolding dfs_inv_def S' using d fresh S by (intro conjI) auto
qed

lemma dfs_start_cost:
  assumes "start < length seen" and "\<not> seen ! start"
  shows "dfs_cost nbrs (seen[start := True]) [(start, 0)] = dfs_cost nbrs seen []"
proof -
  let ?n = "length seen"
  have "{..<?n} - seen_set seen = insert start ({..<?n} - seen_set (seen[start := True]))"
    using assms by (auto simp: seen_set_def nth_list_update split: if_splits)
  moreover have "start \<notin> {..<?n} - seen_set (seen[start := True])" using assms(1) by simp
  ultimately have "weight nbrs ({..<?n} - seen_set seen)
      = 1 + length (nbrs start) + weight nbrs ({..<?n} - seen_set (seen[start := True]))"
    using weight_insert [of "{..<?n} - seen_set (seen[start := True])" start nbrs] by simp
  then show ?thesis by (simp add: dfs_cost_def dfs_left_def)
qed

lemma dfs_pass:
  assumes "try_fold (dfs_from nbrs) (replicate n False, [], work) starts = Ok (seen, order, left)"
    and "set starts \<subseteq> {..<n}"
  shows "dfs_inv n nbrs seen [] order \<and> set starts \<subseteq> set order
    \<and> work + dfs_cost nbrs seen [] = left + weight nbrs {..<n}"
  using assms
proof (induction starts arbitrary: seen order left rule: rev_induct)
  case Nil
  then show ?case by (auto simp: dfs_inv_def finished_ok_def dfs_cost_def dfs_left_def)
next
  case (snoc start starts)
  from snoc.prems(1) obtain s where run: "try_fold (dfs_from nbrs) (replicate n False, [], work) starts = Ok s"
      and step: "dfs_from nbrs s start = Ok (seen, order, left)"
    by (auto simp: try_fold_append)
  obtain seen0 order0 left0 where s: "s = (seen0, order0, left0)" by (metis prod_cases3)
  have IH: "dfs_inv n nbrs seen0 [] order0" "set starts \<subseteq> set order0"
      "work + dfs_cost nbrs seen0 [] = left0 + weight nbrs {..<n}"
    using snoc.IH [OF run [unfolded s]] snoc.prems(2) by simp_all
  note d = dfs_invD [OF IH(1)]
  have start: "start < n" using snoc.prems(2) by simp
  show ?case
  proof (cases "seen0 ! start")
    case True
    then have "start \<in> seen_set seen0" using d(1) start by (simp add: seen_set_def)
    then have "start \<in> set order0" using d(3) by simp
    then show ?thesis using step True s IH by (simp add: dfs_from_def)
  next
    case False
    then have loop: "dfs_loop nbrs (seen0[start := True]) [(start, 0)] order0 left0 = Ok (seen, order, left)"
      using step s by (simp add: dfs_from_def)
    then show ?thesis using dfs_loop_Ok [OF loop dfs_inv_start [OF IH(1) start False]] IH
        dfs_start_cost [of start seen0 nbrs] start False d(1) by auto
  qed
qed


lemma dfs_pass_total:
  assumes "weight nbrs {..<n} \<le> work" and "set starts \<subseteq> {..<n}"
  shows "is_ok (try_fold (dfs_from nbrs) (replicate n False, [], work) starts)"
  using assms(2)
proof (induction starts rule: rev_induct)
  case (snoc start starts)
  then obtain s where run: "try_fold (dfs_from nbrs) (replicate n False, [], work) starts = Ok s"
    by (cases "try_fold (dfs_from nbrs) (replicate n False, [], work) starts") auto
  obtain seen order left where s: "s = (seen, order, left)" by (metis prod_cases3)
  have start: "start < n" using snoc.prems by simp
  have "dfs_inv n nbrs seen [] order" and paid: "work + dfs_cost nbrs seen [] = left + weight nbrs {..<n}"
    using dfs_pass [OF run [unfolded s]] snoc.prems by simp_all
  then have n: "length seen = n" by (simp add: dfs_invD)
  have "is_ok (dfs_from nbrs s start)"
  proof (cases "seen ! start")
    case True
    then show ?thesis by (simp add: dfs_from_def s)
  next
    case False
    have "dfs_cost nbrs (seen[start := True]) [(start, 0)] \<le> left"
      using dfs_start_cost [of start seen nbrs] False start n paid assms(1) by simp
    from dfs_loop_total [OF this] show ?thesis using False by (simp add: dfs_from_def s)
  qed
  then show ?case by (simp add: try_fold_append run) (cases "dfs_from nbrs s start"; simp)
qed simp

end
