(* ===== verification/Graph_Topology.thy ===== *)
theory Graph_Topology
  imports Graph_Search
begin

text \<open>
  What \<open>Topology::new\<close> builds: the identifiers in order, and adjacency lists that hold every counted
  edge once at each of its ends.
\<close>

definition counted :: "int option \<Rightarrow> graph_edge \<Rightarrow> bool" where
  "counted valid_at e \<longleftrightarrow>
     \<not> ge_negative e \<and> (case valid_at of None \<Rightarrow> True | Some t \<Rightarrow> interval_contains e t)"

definition edges_between :: "int option \<Rightarrow> graph_edge list \<Rightarrow> string \<Rightarrow> string \<Rightarrow> nat" where
  "edges_between valid_at edges a b =
     length (filter (\<lambda>e. counted valid_at e \<and> ge_from e = a \<and> ge_to e = b) edges)"

text \<open>A well-formed topology, the edges as a matrix of multiplicities.\<close>

definition topology_ok :: "topology \<Rightarrow> bool" where
  "topology_ok g \<longleftrightarrow>
     (let n = length (tp_ids g) in
      sorted (tp_ids g) \<and> distinct (tp_ids g) \<and> length (tp_outgoing g) = n \<and> length (tp_incoming g) = n
      \<and> (\<forall>u < n. set (tp_outgoing g ! u) \<subseteq> {..<n}) \<and> (\<forall>v < n. set (tp_incoming g ! v) \<subseteq> {..<n})
      \<and> (\<forall>u < n. \<forall>v < n. count (mset (tp_outgoing g ! u)) v = count (mset (tp_incoming g ! v)) u)
      \<and> sum_list (map length (tp_outgoing g)) = tp_edges g \<and> sum_list (map length (tp_incoming g)) = tp_edges g)"

definition built ::
  "string list \<Rightarrow> int option \<Rightarrow> graph_edge list \<Rightarrow> topology \<Rightarrow> bool" where
  "built ids valid_at edges g \<longleftrightarrow>
     (let n = length ids in
      tp_ids g = ids \<and> length (tp_outgoing g) = n \<and> length (tp_incoming g) = n
      \<and> (\<forall>u < n. set (tp_outgoing g ! u) \<subseteq> {..<n}) \<and> (\<forall>v < n. set (tp_incoming g ! v) \<subseteq> {..<n})
      \<and> (\<forall>u < n. \<forall>v < n. count (mset (tp_outgoing g ! u)) v = edges_between valid_at edges (ids ! u) (ids ! v)
           \<and> count (mset (tp_incoming g ! v)) u = edges_between valid_at edges (ids ! u) (ids ! v))
      \<and> sum_list (map length (tp_outgoing g)) = tp_edges g \<and> sum_list (map length (tp_incoming g)) = tp_edges g
      \<and> tp_edges g = length (filter (counted valid_at) edges)
      \<and> tp_negative g = length (filter ge_negative edges)
      \<and> tp_outside g = length (filter (\<lambda>e. \<not> ge_negative e \<and> \<not> counted valid_at e) edges))"

lemma sum_list_push_at:
  "i < length xss \<Longrightarrow> sum_list (map length (push_at i x xss)) = Suc (sum_list (map length xss))"
  unfolding push_at_def
proof (induction xss arbitrary: i)
  case (Cons ys xss)
  then show ?case by (cases i) auto
qed simp

lemma push_at_nth: "i < length xss \<Longrightarrow> push_at j x xss ! i = (if i = j then xss ! i @ [x] else xss ! i)"
  by (auto simp: push_at_def nth_list_update)

lemma push_at_length [simp]: "length (push_at i x xss) = length xss"
  by (simp add: push_at_def)

lemma index_of_zip:
  assumes "distinct ids" shows "map_of (zip ids [0..<length ids]) i = Some k \<longleftrightarrow> k < length ids \<and> ids ! k = i"
proof -
  have "map_of (zip ids [0..<length ids]) i = Some k \<longleftrightarrow> (i, k) \<in> set (zip ids [0..<length ids])"
    using assms by (intro map_of_eq_Some_iff) simp
  also have "\<dots> \<longleftrightarrow> k < length ids \<and> ids ! k = i" by (auto simp: set_zip)
  finally show ?thesis .
qed

lemma edges_between_snoc:
  "edges_between valid_at (edges @ [e]) a b =
     edges_between valid_at edges a b + (if counted valid_at e \<and> ge_from e = a \<and> ge_to e = b then 1 else 0)"
  by (simp add: edges_between_def)

lemma add_edge_counted:
  "counted valid_at e \<Longrightarrow> add_edge idx valid_at g e =
     rbind (ok_or (map_of idx (ge_from e)) E_SCIENCE_TOPOLOGY) (\<lambda>from.
     rbind (ok_or (map_of idx (ge_to e)) E_SCIENCE_TOPOLOGY) (\<lambda>to.
       Ok (g\<lparr>tp_outgoing := push_at from to (tp_outgoing g), tp_incoming := push_at to from (tp_incoming g),
             tp_edges := tp_edges g + 1\<rparr>)))"
  unfolding add_edge_def counted_def by (cases valid_at) auto

lemma add_edge_skipped:
  "\<not> counted valid_at e \<Longrightarrow> add_edge idx valid_at g e =
     Ok (if ge_negative e then g\<lparr>tp_negative := tp_negative g + 1\<rparr> else g\<lparr>tp_outside := tp_outside g + 1\<rparr>)"
  unfolding add_edge_def counted_def by (cases valid_at) auto

lemma built_empty: "built ids valid_at [] (empty_topology ids)"
  by (auto simp: built_def empty_topology_def edges_between_def Let_def sum_list_replicate)

lemma builtD:
  assumes "built ids valid_at edges g"
  shows "tp_ids g = ids" and "length (tp_outgoing g) = length ids" and "length (tp_incoming g) = length ids"
    and "\<forall>u < length ids. set (tp_outgoing g ! u) \<subseteq> {..<length ids}"
    and "\<forall>v < length ids. set (tp_incoming g ! v) \<subseteq> {..<length ids}"
    and "\<forall>u < length ids. \<forall>v < length ids.
      count (mset (tp_outgoing g ! u)) v = edges_between valid_at edges (ids ! u) (ids ! v)
      \<and> count (mset (tp_incoming g ! v)) u = edges_between valid_at edges (ids ! u) (ids ! v)"
    and "sum_list (map length (tp_outgoing g)) = tp_edges g" and "sum_list (map length (tp_incoming g)) = tp_edges g"
    and "tp_edges g = length (filter (counted valid_at) edges)"
    and "tp_negative g = length (filter ge_negative edges)"
    and "tp_outside g = length (filter (\<lambda>e. \<not> ge_negative e \<and> \<not> counted valid_at e) edges)"
  using assms unfolding built_def Let_def by - (elim conjE, assumption)+

lemma builtI:
  assumes "tp_ids g = ids" and "length (tp_outgoing g) = length ids" and "length (tp_incoming g) = length ids"
    and "\<And>u. u < length ids \<Longrightarrow> set (tp_outgoing g ! u) \<subseteq> {..<length ids}"
    and "\<And>v. v < length ids \<Longrightarrow> set (tp_incoming g ! v) \<subseteq> {..<length ids}"
    and "\<And>u v. u < length ids \<Longrightarrow> v < length ids \<Longrightarrow>
      count (mset (tp_outgoing g ! u)) v = edges_between valid_at edges (ids ! u) (ids ! v)
      \<and> count (mset (tp_incoming g ! v)) u = edges_between valid_at edges (ids ! u) (ids ! v)"
    and "sum_list (map length (tp_outgoing g)) = tp_edges g" and "sum_list (map length (tp_incoming g)) = tp_edges g"
    and "tp_edges g = length (filter (counted valid_at) edges)"
    and "tp_negative g = length (filter ge_negative edges)"
    and "tp_outside g = length (filter (\<lambda>e. \<not> ge_negative e \<and> \<not> counted valid_at e) edges)"
  shows "built ids valid_at edges g"
  unfolding built_def Let_def using assms by - (intro conjI allI impI ballI; assumption?; blast)

lemma built_skip:
  assumes b: "built ids valid_at edges g" and "\<not> counted valid_at e"
  shows "built ids valid_at (edges @ [e])
    (if ge_negative e then g\<lparr>tp_negative := tp_negative g + 1\<rparr> else g\<lparr>tp_outside := tp_outside g + 1\<rparr>)"
proof -
  note d = builtD [OF b]
  have between: "edges_between valid_at (edges @ [e]) i j = edges_between valid_at edges i j" for i j
    using assms(2) by (simp add: edges_between_snoc)
  have "built ids valid_at (edges @ [e]) (g\<lparr>tp_negative := tp_negative g + 1\<rparr>)" if "ge_negative e"
    by (rule builtI) (simp_all add: d(1-3,7,8), use d(4-6,9-11) between assms(2) that in simp_all)
  moreover have "built ids valid_at (edges @ [e]) (g\<lparr>tp_outside := tp_outside g + 1\<rparr>)" if "\<not> ge_negative e"
    by (rule builtI) (simp_all add: d(1-3,7,8), use d(4-6,9-11) between assms(2) that in simp_all)
  ultimately show ?thesis by simp
qed

lemma built_push:
  assumes b: "built ids valid_at edges g" and ids: "distinct ids" and e: "counted valid_at e"
    and ends: "u < length ids" "ids ! u = ge_from e" "v < length ids" "ids ! v = ge_to e"
  shows "built ids valid_at (edges @ [e])
    (g\<lparr>tp_outgoing := push_at u v (tp_outgoing g), tp_incoming := push_at v u (tp_incoming g), tp_edges := tp_edges g + 1\<rparr>)"
proof -
  note d = builtD [OF b]
  have positive: "\<not> ge_negative e" using e by (simp add: counted_def)
  have same: "ge_from e = ids ! i \<longleftrightarrow> i = u" "ge_to e = ids ! i \<longleftrightarrow> i = v" if "i < length ids" for i
    using that ends ids nth_eq_iff_index_eq by metis+
  have between: "edges_between valid_at (edges @ [e]) (ids ! i) (ids ! j)
      = edges_between valid_at edges (ids ! i) (ids ! j) + (if i = u \<and> j = v then 1 else 0)"
    if "i < length ids" "j < length ids" for i j
    unfolding edges_between_snoc using that same e by simp
  have in_outgoing: "set (push_at u v (tp_outgoing g) ! i) \<subseteq> {..<length ids}" if "i < length ids" for i
    using that d(2,4) ends(3) by (auto simp: push_at_nth)
  have in_incoming: "set (push_at v u (tp_incoming g) ! i) \<subseteq> {..<length ids}" if "i < length ids" for i
    using that d(3,5) ends(1) by (auto simp: push_at_nth)
  show ?thesis
  proof (rule builtI)
    fix i j assume ij: "i < length ids" "j < length ids"
    have "count (mset (push_at u v (tp_outgoing g) ! i)) j = edges_between valid_at (edges @ [e]) (ids ! i) (ids ! j)"
      unfolding between [OF ij] using d(2,6) ij by (simp add: push_at_nth)
    moreover have "count (mset (push_at v u (tp_incoming g) ! j)) i = edges_between valid_at (edges @ [e]) (ids ! i) (ids ! j)"
      unfolding between [OF ij] using d(3,6) ij by (simp add: push_at_nth)
    ultimately show "count (mset (tp_outgoing (g\<lparr>tp_outgoing := push_at u v (tp_outgoing g), tp_incoming := push_at v u (tp_incoming g),
          tp_edges := tp_edges g + 1\<rparr>) ! i)) j = edges_between valid_at (edges @ [e]) (ids ! i) (ids ! j)
      \<and> count (mset (tp_incoming (g\<lparr>tp_outgoing := push_at u v (tp_outgoing g), tp_incoming := push_at v u (tp_incoming g),
          tp_edges := tp_edges g + 1\<rparr>) ! j)) i = edges_between valid_at (edges @ [e]) (ids ! i) (ids ! j)"
      by simp
  qed (simp_all add: d(1-3,7,8) sum_list_push_at ends(1,3), simp_all add: d(9-11) in_outgoing in_incoming e positive)
qed

lemma built_step:
  assumes b: "built ids valid_at edges g" and ids: "distinct ids"
    and step: "add_edge (zip ids [0..<length ids]) valid_at g e = Ok g'"
  shows "built ids valid_at (edges @ [e]) g'"
proof (cases "counted valid_at e")
  case True
  then obtain u v where "u < length ids" "ids ! u = ge_from e" "v < length ids" "ids ! v = ge_to e"
      and "g' = g\<lparr>tp_outgoing := push_at u v (tp_outgoing g), tp_incoming := push_at v u (tp_incoming g),
             tp_edges := tp_edges g + 1\<rparr>"
    using step by (auto simp: add_edge_counted index_of_zip [OF ids])
  then show ?thesis using built_push [OF b ids True] by simp
next
  case False
  then show ?thesis using built_skip [OF b False] step by (simp add: add_edge_skipped)
qed

lemma built_fold:
  assumes "try_fold (add_edge (zip ids [0..<length ids]) valid_at) (empty_topology ids) edges = Ok g" and "distinct ids"
  shows "built ids valid_at edges g"
  using assms(1)
proof (induction edges arbitrary: g rule: rev_induct)
  case Nil
  then show ?case using built_empty [of ids valid_at] by simp
next
  case (snoc e edges)
  then show ?case using built_step [OF _ assms(2)] by (auto simp: try_fold_append)
qed

lemma built_sorted:
  assumes "built ids valid_at edges g"
  shows "built ids valid_at edges (g\<lparr>tp_outgoing := map sort (tp_outgoing g), tp_incoming := map sort (tp_incoming g)\<rparr>)"
proof -
  note d = builtD [OF assms]
  have "length \<circ> sort = (length :: nat list \<Rightarrow> nat)" by (simp add: fun_eq_iff)
  then show ?thesis by (intro builtI) (simp_all add: d(1-3,7,8), use d(4-6,9-11) in simp_all)
qed

lemma built_ok:
  assumes "built ids valid_at edges g" and "sorted ids" and "distinct ids"
  shows "topology_ok g"
proof -
  note d = builtD [OF assms(1)]
  show ?thesis unfolding topology_ok_def Let_def d(1)
    by (intro conjI) (use d(2-8) assms(2,3) in simp)+
qed

lemma sorted_distinct_adj: "sorted (xs :: 'a::linorder list) \<Longrightarrow> distinct_adj xs \<longleftrightarrow> distinct xs"
proof (induction xs rule: induct_list012)
  case (3 x y zs)
  then show ?case by (auto simp: less_le)
qed auto

lemma topology_new_Ok:
  assumes "topology_new nodes edges valid_at work = Ok (g, left)"
  shows "topology_ok g" and "built (sort nodes) valid_at edges g" and "distinct nodes"
    and "left + saturating_add (length nodes) (length edges) = work"
proof -
  have d: "distinct (sort nodes)" and left: "left + saturating_add (length nodes) (length edges) = work"
    and b: "built (sort nodes) valid_at edges g"
    using assms sorted_distinct_adj [of "sort nodes"] built_sorted built_fold [of "sort nodes" valid_at edges]
    by (auto simp: topology_new_def Let_def)
  show "distinct nodes" using d by simp
  show "built (sort nodes) valid_at edges g" by (rule b)
  show "topology_ok g" using built_ok [OF b] d by simp
  show "left + saturating_add (length nodes) (length edges) = work" by (rule left)
qed

end
