(* ===== verification/Graph_Theorems.thy ===== *)
theory Graph_Theorems
  imports Graph_Components Graph_Topology "HOL-Library.Code_Target_Numeral"
begin

text \<open>
  The components that an analysis reports are the classes of reachability over the counted edges, in
  either direction or in both, and the work it takes is known.
\<close>

section \<open>The relations of a topology\<close>

definition out_rel :: "topology \<Rightarrow> (nat \<times> nat) set" where
  "out_rel g = edge_rel (length (tp_ids g)) (\<lambda>v. tp_outgoing g ! v)"

lemma topology_okD:
  assumes "topology_ok g"
  shows "sorted (tp_ids g)" and "distinct (tp_ids g)" and "length (tp_outgoing g) = length (tp_ids g)"
    and "length (tp_incoming g) = length (tp_ids g)"
    and "\<forall>u < length (tp_ids g). \<forall>v < length (tp_ids g).
      count (mset (tp_outgoing g ! u)) v = count (mset (tp_incoming g ! v)) u"
    and "sum_list (map length (tp_outgoing g)) = tp_edges g" and "sum_list (map length (tp_incoming g)) = tp_edges g"
  using assms unfolding topology_ok_def Let_def by - (elim conjE, assumption)+

lemma incoming_converse:
  assumes "topology_ok g"
  shows "edge_rel (length (tp_ids g)) (\<lambda>v. tp_incoming g ! v) = (out_rel g)\<inverse>"
proof -
  have "u \<in> set (tp_incoming g ! v) \<longleftrightarrow> v \<in> set (tp_outgoing g ! u)"
    if "u < length (tp_ids g)" "v < length (tp_ids g)" for u v
  proof -
    have "count (mset (tp_outgoing g ! u)) v = count (mset (tp_incoming g ! v)) u"
      using topology_okD(5) [OF assms] that by blast
    then show ?thesis by (metis count_greater_zero_iff set_mset_mset)
  qed
  then show ?thesis by (auto simp: out_rel_def edge_rel_def)
qed

lemma weak_rel:
  assumes "topology_ok g"
  shows "edge_rel (length (tp_ids g)) (weak_next g) = out_rel g \<union> (out_rel g)\<inverse>"
proof -
  have "edge_rel (length (tp_ids g)) (weak_next g)
      = out_rel g \<union> edge_rel (length (tp_ids g)) (\<lambda>v. tp_incoming g ! v)"
    by (auto simp: edge_rel_def weak_next_def out_rel_def)
  then show ?thesis using incoming_converse [OF assms] by simp
qed

lemma sum_lengths: "sum_list (map length xss) = (\<Sum>v < length xss. length (xss ! v))"
  by (simp add: sum_list_sum_nth atLeast0LessThan)

lemma weight_sum: "weight nbrs {..<n} = n + (\<Sum>v < n. length (nbrs v))"
  by (simp add: weight_def sum_Suc)

lemma weights:
  assumes "topology_ok g"
  shows "weight (\<lambda>v. tp_outgoing g ! v) {..<length (tp_ids g)} = length (tp_ids g) + tp_edges g"
    and "weight (\<lambda>v. tp_incoming g ! v) {..<length (tp_ids g)} = length (tp_ids g) + tp_edges g"
    and "weight (weak_next g) {..<length (tp_ids g)} = length (tp_ids g) + 2 * tp_edges g"
proof -
  note t = topology_okD [OF assms]
  have out: "(\<Sum>v < length (tp_ids g). length (tp_outgoing g ! v)) = tp_edges g"
    using t(3,6) sum_lengths [of "tp_outgoing g"] by metis
  have inc: "(\<Sum>v < length (tp_ids g). length (tp_incoming g ! v)) = tp_edges g"
    using t(4,7) sum_lengths [of "tp_incoming g"] by metis
  show "weight (\<lambda>v. tp_outgoing g ! v) {..<length (tp_ids g)} = length (tp_ids g) + tp_edges g"
    using out by (simp add: weight_sum)
  show "weight (\<lambda>v. tp_incoming g ! v) {..<length (tp_ids g)} = length (tp_ids g) + tp_edges g"
    using inc by (simp add: weight_sum)
  show "weight (weak_next g) {..<length (tp_ids g)} = length (tp_ids g) + 2 * tp_edges g"
    using out inc by (simp add: weight_sum weak_next_def sum.distrib)
qed

section \<open>Groups as classes\<close>

definition class_groups :: "string list \<Rightarrow> (nat \<times> nat) set \<Rightarrow> string list list \<Rightarrow> bool" where
  "class_groups ids R groups \<longleftrightarrow>
     sorted groups \<and> (\<forall>group \<in> set groups. sorted group) \<and> mset (concat groups) = mset ids
     \<and> set ` set groups = (\<lambda>v. (!) ids ` {w. w < length ids \<and> (v, w) \<in> R}) ` {..<length ids}"

lemma mset_concat_map: "mset (concat (map f xss)) = (\<Sum>xs \<in># mset xss. mset (f xs))"
  by (induction xss) simp_all

lemma class_groupsI:
  assumes groups: "groups = map (\<lambda>vs. sort (map ((!) ids) vs)) vss"
    and all: "distinct (concat vss)" "set (concat vss) = {..<length ids}"
    and classes: "\<forall>vs \<in> set vss. \<exists>s < length ids. s \<in> set vs \<and> set vs = {w. w < length ids \<and> (s, w) \<in> R}"
    and R: "sym R" "trans R"
  shows "class_groups ids R (sort groups)"
proof -
  let ?cls = "\<lambda>v. {w. w < length ids \<and> (v, w) \<in> R}"
  have same: "?cls v = ?cls w" if "(v, w) \<in> R" for v w
    using that R by (auto dest: symD transD)
  have covers: "set ` set vss = ?cls ` {..<length ids}"
  proof (intro equalityI subsetI)
    fix X assume "X \<in> set ` set vss"
    then show "X \<in> ?cls ` {..<length ids}" using classes by auto
  next
    fix X assume "X \<in> ?cls ` {..<length ids}"
    then obtain v where v: "v < length ids" "X = ?cls v" by auto
    then have "v \<in> set (concat vss)" using all by simp
    then obtain vs where vs: "vs \<in> set vss" "v \<in> set vs" by auto
    then obtain s where "set vs = ?cls s" using classes by blast
    moreover from this vs have "(s, v) \<in> R" by auto
    ultimately have "set vs = X" using same v(2) by simp
    then show "X \<in> set ` set vss" using vs(1) by blast
  qed
  have image: "set ` set (sort groups) = (\<lambda>X. (!) ids ` X) ` set ` set vss"
    unfolding groups by (auto simp: image_image)
  have "mset (concat (sort groups)) = (\<Sum>xs \<in># mset groups. mset xs)"
    using mset_concat_map [of id "sort groups"] by simp
  also have "\<dots> = (\<Sum>vs \<in># mset vss. image_mset ((!) ids) (mset vs))"
    unfolding groups by (simp add: image_mset.compositionality o_def)
  also have "\<dots> = image_mset ((!) ids) (mset (concat vss))"
    by (induction vss) simp_all
  also have "mset (concat vss) = mset [0..<length ids]"
    using all by (intro set_eq_iff_mset_eq_distinct [THEN iffD1]) auto
  also have "image_mset ((!) ids) (mset [0..<length ids]) = mset ids"
    by (metis map_nth mset_map)
  finally show ?thesis
    unfolding class_groups_def image covers using groups by (auto simp: image_image)
qed

lemma groups_ok_split:
  assumes "groups_ok E starts vss" and "vs \<in> set vss"
  obtains A B where "vss = A @ vs # B" "group_ok E starts (set (concat A)) vs"
  using assms unfolding groups_ok_def by (metis split_list)

lemma edge_rel_bound: "edge_rel n nbrs \<subseteq> {..<n} \<times> {..<n}"
  by (auto simp: edge_rel_def)

lemma reach_bound: "(u, v) \<in> E\<^sup>* \<Longrightarrow> E \<subseteq> {..<n} \<times> {..<n} \<Longrightarrow> u < n \<Longrightarrow> v < n" for u v n :: nat
  by (induction rule: rtrancl_induct) auto

section \<open>Weak components\<close>

lemma weak_groups:
  assumes ok: "groups_ok E starts vss" and E: "sym E" "E \<subseteq> {..<n} \<times> {..<n}" and starts: "set starts \<subseteq> {..<n}"
    and vs: "vs \<in> set vss"
  shows "\<exists>s < n. s \<in> set vs \<and> set vs = {w. w < n \<and> (s, w) \<in> E\<^sup>*}"
proof -
  from groups_ok_split [OF ok vs] obtain A where "group_ok E starts (set (concat A)) vs" .
  then obtain xs s ys where s: "starts = xs @ s # ys" "s \<notin> set (concat A)" "closed_under E (set (concat A))"
      "set vs = E\<^sup>* `` {s} - set (concat A)"
    unfolding group_ok_def by blast
  have "v \<notin> set (concat A)" if "(s, v) \<in> E\<^sup>*" for v
  proof
    assume "v \<in> set (concat A)"
    moreover have "(v, s) \<in> E\<^sup>*" using that E(1) by (metis sym_rtrancl symD)
    ultimately show False using closed_under_reach s(2,3) by metis
  qed
  then have "set vs = E\<^sup>* `` {s}" using s(4) by blast
  moreover have "s < n" using starts s(1) by simp
  moreover have "E\<^sup>* `` {s} = {w. w < n \<and> (s, w) \<in> E\<^sup>*}" using reach_bound [OF _ E(2) \<open>s < n\<close>] by blast
  ultimately show ?thesis by (intro exI [of _ s]) auto
qed

lemma weak_components_Ok:
  assumes g: "topology_ok g" and run: "weak_components g work = Ok (groups, left)"
  shows "class_groups (tp_ids g) ((out_rel g \<union> (out_rel g)\<inverse>)\<^sup>*) groups
    \<and> left + (length (tp_ids g) + 2 * tp_edges g) = work"
proof -
  let ?n = "length (tp_ids g)"
  let ?E = "out_rel g \<union> (out_rel g)\<inverse>"
  from run obtain seen found where
      loop: "try_fold (component_from (tp_ids g) (weak_next g)) (replicate ?n False, [], work) [0..<?n] = Ok (seen, found, left)"
      and groups: "groups = sort found"
    by (auto simp: weak_components_def Let_def)
  from component_loop [OF loop] obtain vss where vss: "groups_ok ?E [0..<?n] vss"
      "found = map (\<lambda>vs. sort (map ((!) (tp_ids g)) vs)) vss" "seen_set seen = set (concat vss)" "length seen = ?n"
      "left + weight (weak_next g) (set (concat vss)) = work"
    unfolding weak_rel [OF g] by (auto simp: atLeast0LessThan)
  have all: "distinct (concat vss)" "set (concat vss) = {..<?n}"
    using vss(1,3,4) seen_set_bound [of seen] by (auto simp: groups_ok_def)
  have E: "sym ?E" "?E \<subseteq> {..<?n} \<times> {..<?n}"
    by (simp add: sym_Un_converse) (auto simp: out_rel_def edge_rel_def)
  have "class_groups (tp_ids g) (?E\<^sup>*) groups"
    unfolding groups
    by (rule class_groupsI [OF vss(2) all])
      (use weak_groups [OF vss(1) E] in \<open>simp_all add: atLeast0LessThan sym_rtrancl [OF E(1)] trans_rtrancl\<close>)
  then show ?thesis using vss(5) weights(3) [OF g] unfolding all(2) by simp
qed

lemma weak_components_total:
  assumes "topology_ok g" and "length (tp_ids g) + 2 * tp_edges g \<le> work"
  shows "is_ok (weak_components g work)"
  using component_loop_total [of "weak_next g" "length (tp_ids g)" work "[0..<length (tp_ids g)]" "tp_ids g"]
    weights(3) [OF assms(1)] assms(2)
  by (auto simp: weak_components_def Let_def atLeast0LessThan intro!: is_ok_rbind)

section \<open>Strong components\<close>

lemma path_outside:
  assumes "(v, r) \<in> E\<^sup>*" and "v \<notin> S" and "closed_under (E\<inverse>) S"
  shows "(v, r) \<in> (E \<inter> {(x, y). y \<notin> S})\<^sup>* \<and> r \<notin> S"
  using assms(1)
proof (induction rule: rtrancl_induct)
  case base
  then show ?case using assms(2) by simp
next
  case (step y z)
  have "z \<notin> S" using step assms(3) by (auto simp: closed_under_def)
  then show ?case using step by (auto intro: rtrancl_into_rtrancl)
qed

lemma strong_groups:
  assumes ok: "groups_ok (E\<inverse>) (rev order) vss" and fin: "finished_ok E order"
    and order: "distinct order" "set order = {..<n}" and E: "E \<subseteq> {..<n} \<times> {..<n}" and vs: "vs \<in> set vss"
  shows "\<exists>s < n. s \<in> set vs \<and> set vs = {w. w < n \<and> (s, w) \<in> E\<^sup>* \<inter> (E\<^sup>*)\<inverse>}"
proof -
  from groups_ok_split [OF ok vs] obtain A where "group_ok (E\<inverse>) (rev order) (set (concat A)) vs" .
  then obtain xs s ys where s: "rev order = xs @ s # ys" "set xs \<subseteq> set (concat A)" "s \<notin> set (concat A)"
      "closed_under (E\<inverse>) (set (concat A))" "set vs = (E\<inverse>)\<^sup>* `` {s} - set (concat A)"
    unfolding group_ok_def by blast
  have split: "order = rev ys @ s # rev xs" using s(1) by (metis rev_append rev_rev_ident rev.simps(2) append.assoc append_Cons append_Nil)
  have "s < n" using split order(2) by auto
  have "(s, v) \<in> E\<^sup>*" if v: "(v, s) \<in> E\<^sup>*" "v \<notin> set (concat A)" for v
  proof -
    let ?S = "set (concat A)"
    have inside: "y \<in> insert s (set (rev ys))" if "y < n" "y \<notin> ?S" for y
      using that s(2) order(2) split by auto
    have "E \<inter> {(x, y). y \<notin> ?S} \<subseteq> E \<inter> {(x, y). y \<in> insert s (set (rev ys))}"
      using inside E by blast
    then have "(v, s) \<in> (E \<inter> {(x, y). y \<in> insert s (set (rev ys))})\<^sup>*"
      using path_outside [OF v s(4)] rtrancl_mono by blast
    moreover have "v < n" using v(1) \<open>s < n\<close> E by (cases rule: converse_rtranclE) auto
    ultimately show ?thesis using finished_ok_path [OF fin split order(1)] inside v(2) by blast
  qed
  moreover have "v \<notin> set (concat A)" if "(s, v) \<in> E\<^sup>*" for v
  proof
    assume "v \<in> set (concat A)"
    moreover have "(v, s) \<in> (E\<inverse>)\<^sup>*" using that by (simp add: rtrancl_converse)
    ultimately show False using closed_under_reach s(3,4) by metis
  qed
  ultimately have "set vs = {w. (s, w) \<in> E\<^sup>* \<inter> (E\<^sup>*)\<inverse>}"
    unfolding s(5) by (auto simp: rtrancl_converse)
  then show ?thesis using \<open>s < n\<close> reach_bound [OF _ E \<open>s < n\<close>] by (intro exI [of _ s]) auto
qed

lemma strong_components_Ok:
  assumes g: "topology_ok g" and run: "strong_components g work = Ok (groups, left)"
  shows "class_groups (tp_ids g) ((out_rel g)\<^sup>* \<inter> ((out_rel g)\<^sup>*)\<inverse>) groups
    \<and> left + (2 * length (tp_ids g) + 2 * tp_edges g) = work"
proof -
  let ?n = "length (tp_ids g)"
  let ?E = "out_rel g"
  from run obtain seen order left1 seen2 found where
      first: "try_fold (dfs_from (\<lambda>v. tp_outgoing g ! v)) (replicate ?n False, [], work) [0..<?n] = Ok (seen, order, left1)"
      and second: "try_fold (component_from (tp_ids g) (\<lambda>v. tp_incoming g ! v)) (replicate ?n False, [], left1) (rev order)
        = Ok (seen2, found, left)"
      and groups: "groups = sort found"
    by (auto simp: strong_components_def Let_def)
  have pass: "dfs_inv ?n (\<lambda>v. tp_outgoing g ! v) seen [] order" "{..<?n} \<subseteq> set order"
      "work + dfs_cost (\<lambda>v. tp_outgoing g ! v) seen [] = left1 + weight (\<lambda>v. tp_outgoing g ! v) {..<?n}"
    using dfs_pass [OF first] by (auto simp: atLeast0LessThan)
  note d = dfs_invD [OF pass(1), folded out_rel_def]
  have seen: "seen_set seen = set order" using d(3) by simp
  have order: "distinct order" "set order = {..<?n}" using d(1,2) pass(2) seen seen_set_bound [of seen] by auto
  have "dfs_cost (\<lambda>v. tp_outgoing g ! v) seen [] = 0"
    using d(1) seen order(2) by (simp add: dfs_cost_def dfs_left_def weight_def)
  then have left1: "left1 + (?n + tp_edges g) = work" using pass(3) weights(1) [OF g] by simp
  from component_loop [OF second] order(2) obtain vss where vss: "groups_ok (?E\<inverse>) (rev order) vss"
      "found = map (\<lambda>vs. sort (map ((!) (tp_ids g)) vs)) vss" "seen_set seen2 = set (concat vss)" "length seen2 = ?n"
      "left + weight (\<lambda>v. tp_incoming g ! v) (set (concat vss)) = left1"
    unfolding incoming_converse [OF g] by auto
  have all: "distinct (concat vss)" "set (concat vss) = {..<?n}"
    using vss(1,3,4) seen_set_bound [of seen2] order(2) by (auto simp: groups_ok_def)
  have E: "?E \<subseteq> {..<?n} \<times> {..<?n}" by (simp add: out_rel_def edge_rel_bound)
  have sym: "sym (?E\<^sup>* \<inter> (?E\<^sup>*)\<inverse>)" by (auto simp: sym_def)
  have trans: "trans (?E\<^sup>* \<inter> (?E\<^sup>*)\<inverse>)" by (auto simp: trans_def)
  have "class_groups (tp_ids g) (?E\<^sup>* \<inter> (?E\<^sup>*)\<inverse>) groups"
    unfolding groups
    by (rule class_groupsI [OF vss(2) all _ sym trans]) (use strong_groups [OF vss(1) d(7) order E] in blast)
  then show ?thesis using vss(5) weights(2) [OF g] left1 unfolding all(2) by simp
qed

lemma strong_components_total:
  assumes g: "topology_ok g" and work: "2 * length (tp_ids g) + 2 * tp_edges g \<le> work"
  shows "is_ok (strong_components g work)"
proof -
  let ?n = "length (tp_ids g)"
  have "is_ok (try_fold (dfs_from (\<lambda>v. tp_outgoing g ! v)) (replicate ?n False, [], work) [0..<?n])"
    by (rule dfs_pass_total) (use weights(1) [OF g] work in auto)
  moreover have "is_ok (try_fold (component_from (tp_ids g) (\<lambda>v. tp_incoming g ! v)) (replicate ?n False, [], left) (rev order))"
    if first: "try_fold (dfs_from (\<lambda>v. tp_outgoing g ! v)) (replicate ?n False, [], work) [0..<?n] = Ok (seen, order, left)"
    for seen order left
  proof (rule component_loop_total)
    have pass: "dfs_inv ?n (\<lambda>v. tp_outgoing g ! v) seen [] order"
      "work + dfs_cost (\<lambda>v. tp_outgoing g ! v) seen [] = left + weight (\<lambda>v. tp_outgoing g ! v) {..<?n}"
      using dfs_pass [OF first] by (auto simp: atLeast0LessThan)
    then show "weight (\<lambda>v. tp_incoming g ! v) {..<?n} \<le> left" using weights [OF g] work by simp
    have "length seen = ?n" "seen_set seen = set order" using dfs_invD(1,3) [OF pass(1)] by simp_all
    then show "set (rev order) \<subseteq> {..<?n}" using seen_set_bound [of seen] by auto
  qed
  ultimately show ?thesis
    unfolding strong_components_def Let_def by (intro is_ok_rbind) (auto split: prod.splits intro!: is_ok_rbind)
qed

section \<open>From the selected graph\<close>

definition edge_links :: "int option \<Rightarrow> graph_edge list \<Rightarrow> (string \<times> string) set" where
  "edge_links valid_at edges = {(a, b). \<exists>e \<in> set edges. counted valid_at e \<and> ge_from e = a \<and> ge_to e = b}"

definition related :: "component_mode \<Rightarrow> int option \<Rightarrow> graph_edge list \<Rightarrow> (string \<times> string) set" where
  "related mode valid_at edges =
     (case mode of Weak \<Rightarrow> (edge_links valid_at edges \<union> (edge_links valid_at edges)\<inverse>)\<^sup>*
      | Strong \<Rightarrow> (edge_links valid_at edges)\<^sup>* \<inter> ((edge_links valid_at edges)\<^sup>*)\<inverse>)"

definition ends_selected :: "int option \<Rightarrow> string list \<Rightarrow> graph_edge list \<Rightarrow> bool" where
  "ends_selected valid_at nodes edges \<longleftrightarrow>
     (\<forall>e \<in> set edges. counted valid_at e \<longrightarrow> ge_from e \<in> set nodes \<and> ge_to e \<in> set nodes)"

lemma try_fold_is_ok:
  assumes "\<And>s x. x \<in> set xs \<Longrightarrow> is_ok (f s x) \<longleftrightarrow> P x"
  shows "is_ok (try_fold f s xs) \<longleftrightarrow> (\<forall>x \<in> set xs. P x)"
  using assms
proof (induction xs arbitrary: s)
  case (Cons x xs)
  then show ?case by (cases "f s x") (use Cons.prems [of x s] in auto)
qed simp

lemma index_found:
  assumes "distinct ids"
  shows "(\<exists>k. map_of (zip ids [0..<length ids]) i = Some k) \<longleftrightarrow> i \<in> set ids"
  unfolding index_of_zip [OF assms] in_set_conv_nth by blast

lemma is_ok_iff: "is_ok r \<longleftrightarrow> (\<exists>x. r = Ok x)"
  by (cases r) auto

lemma add_edge_is_ok:
  assumes "distinct ids"
  shows "is_ok (add_edge (zip ids [0..<length ids]) valid_at g e)
    \<longleftrightarrow> (counted valid_at e \<longrightarrow> ge_from e \<in> set ids \<and> ge_to e \<in> set ids)"
  using index_found [OF assms, of "ge_from e"] index_found [OF assms, of "ge_to e"] by (cases "counted valid_at e") (auto simp: add_edge_counted add_edge_skipped is_ok_iff)

lemma topology_new_is_ok:
  "is_ok (topology_new nodes edges valid_at work) \<longleftrightarrow>
     saturating_add (length nodes) (length edges) \<le> work \<and> distinct nodes \<and> ends_selected valid_at nodes edges"
proof -
  have adj: "distinct_adj (sort nodes) \<longleftrightarrow> distinct nodes"
    using sorted_distinct_adj [of "sort nodes"] by simp
  have "is_ok (try_fold (add_edge (zip (sort nodes) [0..<length (sort nodes)]) valid_at) (empty_topology (sort nodes)) edges)
      \<longleftrightarrow> ends_selected valid_at nodes edges" if "distinct nodes"
    unfolding ends_selected_def using add_edge_is_ok [of "sort nodes"] that by (subst try_fold_is_ok) auto
  then show ?thesis
    by (auto simp: topology_new_def Let_def is_ok_iff adj)
qed

lemma topology_new_links:
  assumes "topology_new nodes edges valid_at work = Ok (g, left)"
  shows "edge_links valid_at edges = map_prod ((!) (tp_ids g)) ((!) (tp_ids g)) ` out_rel g"
proof -
  note b = builtD [OF topology_new_Ok(2) [OF assms]]
  have sel: "ends_selected valid_at nodes edges"
    using topology_new_is_ok [of nodes edges valid_at work] assms by simp
  let ?ids = "sort nodes"
  have edge: "(u, v) \<in> out_rel g \<longleftrightarrow> (?ids ! u, ?ids ! v) \<in> edge_links valid_at edges" if "u < length ?ids" "v < length ?ids" for u v
  proof -
    have "v \<in> set (tp_outgoing g ! u) \<longleftrightarrow> 0 < count (mset (tp_outgoing g ! u)) v" by (simp add: count_greater_zero_iff)
    also have "\<dots> \<longleftrightarrow> 0 < edges_between valid_at edges (?ids ! u) (?ids ! v)" using b(6) that by simp
    also have "\<dots> \<longleftrightarrow> (?ids ! u, ?ids ! v) \<in> edge_links valid_at edges"
      by (auto simp: edges_between_def edge_links_def filter_empty_conv)
    finally show ?thesis using that b(1) by (simp add: out_rel_def edge_rel_def)
  qed
  show ?thesis
  proof (intro equalityI subsetI)
    fix p assume p: "p \<in> edge_links valid_at edges"
    then obtain a c where ac: "p = (a, c)" "a \<in> set ?ids" "c \<in> set ?ids"
      using sel by (auto simp: edge_links_def ends_selected_def)
    then obtain u v where "u < length ?ids" "?ids ! u = a" "v < length ?ids" "?ids ! v = c" by (metis in_set_conv_nth)
    then show "p \<in> map_prod ((!) (tp_ids g)) ((!) (tp_ids g)) ` out_rel g"
      using edge p ac(1) b(1) by (intro image_eqI [of _ _ "(u, v)"]) auto
  next
    fix p assume "p \<in> map_prod ((!) (tp_ids g)) ((!) (tp_ids g)) ` out_rel g"
    then obtain u v where uv: "(u, v) \<in> out_rel g" "p = (tp_ids g ! u, tp_ids g ! v)" by auto
    then have "u < length ?ids" "v < length ?ids" using b(1) by (auto simp: out_rel_def edge_rel_def)
    then show "p \<in> edge_links valid_at edges" using edge uv b(1) by simp
  qed
qed

lemma relpow_image:
  fixes f :: "nat \<Rightarrow> 'a" and n u :: nat
  assumes inj: "inj_on f {..<n}" and E: "E \<subseteq> {..<n} \<times> {..<n}" and u: "u < n"
  shows "(f u, y) \<in> (map_prod f f ` E) ^^ k \<longleftrightarrow> (\<exists>v < n. y = f v \<and> (u, v) \<in> E ^^ k)"
proof (induction k arbitrary: y)
  case 0
  show ?case using u by auto
next
  case (Suc k)
  show ?case
  proof
    assume "(f u, y) \<in> (map_prod f f ` E) ^^ Suc k"
    then obtain x where "(f u, x) \<in> (map_prod f f ` E) ^^ k" and xy: "(x, y) \<in> map_prod f f ` E" by auto
    then obtain v where v: "v < n" "x = f v" "(u, v) \<in> E ^^ k" using Suc.IH by blast
    from xy obtain a b where ab: "(a, b) \<in> E" "x = f a" "y = f b" by auto
    then have "a = v" "b < n" using v inj E by (auto dest: inj_onD)
    then show "\<exists>v < n. y = f v \<and> (u, v) \<in> E ^^ Suc k" using v ab by auto
  next
    assume "\<exists>v < n. y = f v \<and> (u, v) \<in> E ^^ Suc k"
    then obtain v w where v: "y = f v" "(u, w) \<in> E ^^ k" and e: "(w, v) \<in> E" by auto
    then have "(f u, f w) \<in> (map_prod f f ` E) ^^ k" using Suc.IH E by blast
    moreover have "(f w, f v) \<in> map_prod f f ` E" using imageI [OF e, of "map_prod f f"] by simp
    ultimately show "(f u, y) \<in> (map_prod f f ` E) ^^ Suc k" unfolding v(1) by (rule relpow_Suc_I)
  qed
qed

lemma reach_image:
  fixes f :: "nat \<Rightarrow> 'a" and n u :: nat
  assumes "inj_on f {..<n}" and "E \<subseteq> {..<n} \<times> {..<n}" and "u < n"
  shows "(f u, y) \<in> (map_prod f f ` E)\<^sup>* \<longleftrightarrow> (\<exists>v < n. y = f v \<and> (u, v) \<in> E\<^sup>*)"
  unfolding rtrancl_power relpow_image [OF assms] by blast

lemma map_prod_converse: "map_prod f f ` (E\<inverse>) = (map_prod f f ` E)\<inverse>"
  by (auto simp: image_iff)

lemma set_nth: "set xs = (!) xs ` {..<length xs}"
  by (auto simp: set_conv_nth)

definition node_relation :: "component_mode \<Rightarrow> topology \<Rightarrow> (nat \<times> nat) set" where
  "node_relation mode g =
     (case mode of Weak \<Rightarrow> (out_rel g \<union> (out_rel g)\<inverse>)\<^sup>* | Strong \<Rightarrow> (out_rel g)\<^sup>* \<inter> ((out_rel g)\<^sup>*)\<inverse>)"

lemma related_nodes:
  assumes top: "topology_new nodes edges valid_at work = Ok (g, left)"
    and uv: "u < length (tp_ids g)" "v < length (tp_ids g)"
  shows "(tp_ids g ! u, tp_ids g ! v) \<in> related mode valid_at edges \<longleftrightarrow> (u, v) \<in> node_relation mode g"
proof -
  let ?n = "length (tp_ids g)" and ?f = "(!) (tp_ids g)" and ?E = "out_rel g"
  have inj: "inj_on ?f {..<?n}"
    using topology_okD(2) [OF topology_new_Ok(1) [OF top]] by (intro inj_on_nth) auto
  have E: "?E \<subseteq> {..<?n} \<times> {..<?n}" by (simp add: out_rel_def edge_rel_bound)
  then have W: "?E \<union> ?E\<inverse> \<subseteq> {..<?n} \<times> {..<?n}" by blast
  have L: "edge_links valid_at edges = map_prod ?f ?f ` ?E" by (rule topology_new_links [OF top])
  have L2: "edge_links valid_at edges \<union> (edge_links valid_at edges)\<inverse> = map_prod ?f ?f ` (?E \<union> ?E\<inverse>)"
    unfolding L map_prod_converse [symmetric] by blast
  have reach: "(?f a, ?f b) \<in> (map_prod ?f ?f ` R)\<^sup>* \<longleftrightarrow> (a, b) \<in> R\<^sup>*"
    if "R \<subseteq> {..<?n} \<times> {..<?n}" "a < ?n" "b < ?n" for R a b
    using reach_image [OF inj that(1,2)] inj that(3) by (metis inj_onD lessThan_iff)
  show ?thesis
  proof (cases mode)
    case Weak
    then show ?thesis unfolding related_def node_relation_def L2 using reach [OF W uv] by simp
  next
    case Strong
    then show ?thesis unfolding related_def node_relation_def L using reach [OF E uv] reach [OF E uv(2,1)] by simp
  qed
qed

lemma class_groups_related:
  assumes top: "topology_new nodes edges valid_at work = Ok (g, left)"
    and groups: "class_groups (tp_ids g) (node_relation mode g) groups"
  shows "sorted groups \<and> (\<forall>group \<in> set groups. sorted group) \<and> mset (concat groups) = mset nodes
    \<and> set ` set groups = (\<lambda>a. {b \<in> set nodes. (a, b) \<in> related mode valid_at edges}) ` set nodes"
proof -
  let ?ids = "tp_ids g"
  have ids: "?ids = sort nodes" using builtD(1) [OF topology_new_Ok(2) [OF top]] .
  have set_ids: "set nodes = (!) ?ids ` {..<length ?ids}"
    using set_nth [of "sort nodes"] by (simp add: ids)
  have "(!) ?ids ` {w. w < length ?ids \<and> (v, w) \<in> node_relation mode g}
      = {b \<in> set nodes. (?ids ! v, b) \<in> related mode valid_at edges}" if "v < length ?ids" for v
    unfolding set_ids using related_nodes [OF top that] by (auto simp: image_iff)
  then have "(\<lambda>v. (!) ?ids ` {w. w < length ?ids \<and> (v, w) \<in> node_relation mode g}) ` {..<length ?ids}
      = (\<lambda>a. {b \<in> set nodes. (a, b) \<in> related mode valid_at edges}) ` ((!) ?ids ` {..<length ?ids})"
    unfolding image_image by (intro image_cong) auto
  then show ?thesis using groups set_ids unfolding class_groups_def ids by simp
qed

lemma components_Ok:
  assumes "topology_ok g" and "components g mode work = Ok (groups, left)"
  shows "class_groups (tp_ids g) (node_relation mode g) groups"
  using assms weak_components_Ok strong_components_Ok
  by (cases mode) (auto simp: components_def node_relation_def)

lemma components_is_ok:
  assumes "topology_ok g"
  shows "is_ok (components g mode work)
    \<longleftrightarrow> (if mode = Weak then 1 else 2) * length (tp_ids g) + 2 * tp_edges g \<le> work"
proof -
  have weak: "is_ok (weak_components g work) \<longleftrightarrow> length (tp_ids g) + 2 * tp_edges g \<le> work"
    using weak_components_total [OF assms] weak_components_Ok [OF assms] by (fastforce simp: is_ok_iff)
  have strong: "is_ok (strong_components g work) \<longleftrightarrow> 2 * length (tp_ids g) + 2 * tp_edges g \<le> work"
    using strong_components_total [OF assms] strong_components_Ok [OF assms] by (fastforce simp: is_ok_iff)
  show ?thesis using weak strong by (cases mode) (simp_all add: components_def)
qed

section \<open>The analysis\<close>

text \<open>
  C21: the groups of a component analysis. Every selected node is in exactly one group; the groups are
  the classes of reachability over the counted edges (positive, and valid at the sampled time if
  there is one), in either direction for the weak mode and both ways for the strong mode; the groups
  and the identifiers in them come in order.
\<close>

theorem components_are_classes:
  assumes "analyze nodes edges (Components mode valid_at) lim = Ok (Groups groups, negative, outside)"
  shows "sorted groups \<and> (\<forall>group \<in> set groups. sorted group) \<and> mset (concat groups) = mset nodes
    \<and> set ` set groups = (\<lambda>a. {b \<in> set nodes. (a, b) \<in> related mode valid_at edges}) ` set nodes"
proof -
  from assms obtain g left left' where top: "topology_new nodes edges valid_at (max_work lim) = Ok (g, left)"
      and run: "components g mode left = Ok (groups, left')"
    by (auto simp: analyze_def split: if_splits)
  show ?thesis
    by (rule class_groups_related [OF top components_Ok [OF topology_new_Ok(1) [OF top] run]])
qed

definition demo_edge :: "string \<Rightarrow> string \<Rightarrow> graph_edge" where
  "demo_edge a b = \<lparr>ge_from = a, ge_to = b, ge_negative = False, ge_start = 0, ge_end = None\<rparr>"

definition demo_edges :: "graph_edge list" where
  "demo_edges = [demo_edge ''a'' ''b'', demo_edge ''b'' ''a'', demo_edge ''b'' ''c'',
     (demo_edge ''c'' ''b'')\<lparr>ge_negative := True\<rparr>, (demo_edge ''c'' ''a'')\<lparr>ge_start := 5\<rparr>]"

definition demo_limits :: limits where
  "demo_limits = \<lparr>max_nodes = 10, max_edges = 10, max_work = 20\<rparr>"

theorem components_are_classes_witness:
  "analyze [''c'', ''a'', ''b''] demo_edges (Components Strong (Some 2)) demo_limits
     = Ok (Groups [[''a'', ''b''], [''c'']], 1, 1)
   \<and> mset (concat [[''a'', ''b''], [''c'']]) = mset [''c'', ''a'', ''b'']"
proof -
  have run: "analyze [''c'', ''a'', ''b''] demo_edges (Components Strong (Some 2)) demo_limits
     = Ok (Groups [[''a'', ''b''], [''c'']], 1, 1)"
    by code_simp
  show ?thesis using run components_are_classes [OF run] by blast
qed

text \<open>
  C22: when a component analysis succeeds. It returns exactly when the graph is within its limits,
  no identifier is selected twice, every counted edge joins two selected nodes, and the work budget
  covers the nodes and edges once, then each node and twice each counted edge (the strong mode
  each node twice).
\<close>

theorem components_succeed_exactly:
  assumes "length nodes + length edges \<le> usize_max"
  shows "is_ok (analyze nodes edges (Components mode valid_at) lim) \<longleftrightarrow>
    length nodes \<le> max_nodes lim \<and> length edges \<le> max_edges lim \<and> distinct nodes
    \<and> ends_selected valid_at nodes edges
    \<and> length nodes + length edges
        + (if mode = Weak then 1 else 2) * length nodes + 2 * length (filter (counted valid_at) edges) \<le> max_work lim"
proof -
  have sat: "saturating_add (length nodes) (length edges) = length nodes + length edges"
    using assms by (simp add: saturating_add_def)
  show ?thesis
  proof (cases "topology_new nodes edges valid_at (max_work lim)")
    case (Inl e)
    then have "\<not> (length nodes + length edges \<le> max_work lim \<and> distinct nodes \<and> ends_selected valid_at nodes edges)"
      using topology_new_is_ok [of nodes edges valid_at "max_work lim"] sat by simp
    then show ?thesis using Inl by (auto simp: analyze_def)
  next
    case (Inr p)
    then obtain g left where top: "topology_new nodes edges valid_at (max_work lim) = Ok (g, left)" by (cases p) simp
    note b = builtD [OF topology_new_Ok(2) [OF top]]
    have sizes: "length (tp_ids g) = length nodes" "tp_edges g = length (filter (counted valid_at) edges)"
      using b(1,9) by simp_all
    have "distinct nodes" "ends_selected valid_at nodes edges" "left + (length nodes + length edges) = max_work lim"
      using topology_new_is_ok [of nodes edges valid_at "max_work lim"] topology_new_Ok(4) [OF top] top sat by simp_all
    moreover have "is_ok (analyze nodes edges (Components mode valid_at) lim) \<longleftrightarrow>
        length nodes \<le> max_nodes lim \<and> length edges \<le> max_edges lim \<and> is_ok (components g mode left)"
      using top by (cases "components g mode left") (auto simp: analyze_def)
    ultimately show ?thesis
      unfolding components_is_ok [OF topology_new_Ok(1) [OF top]] sizes by auto
  qed
qed

theorem components_succeed_exactly_witness:
  "is_ok (analyze [''c'', ''a'', ''b''] demo_edges (Components Weak None) (demo_limits\<lparr>max_work := 19\<rparr>))
   \<and> \<not> is_ok (analyze [''c'', ''a'', ''b''] demo_edges (Components Weak None) (demo_limits\<lparr>max_work := 18\<rparr>))"
proof -
  have "length [''c'', ''a'', ''b''] + length demo_edges \<le> usize_max" by (simp add: demo_edges_def usize_max_def)
  note exact = components_succeed_exactly [OF this]
  show ?thesis unfolding exact
    by (simp add: demo_edges_def demo_edge_def demo_limits_def ends_selected_def counted_def)
qed

end
