(* ===== verification/Graph_Paths.thy ===== *)
theory Graph_Paths
  imports Graph_Theorems
begin

text \<open>
  The shortest paths of an analysis: the queue is in the order of the distances, so that every node
  gets the length of its shortest walk from the source, and the walk back from the target is one.
\<close>

section \<open>Discovering the neighbours of a node\<close>

lemma discover_fold:
  assumes "fold (discover node) js (p, queue) = (p', queue')"
    and "ps_distance p ! node = Some d" and "length (ps_previous p) = length (ps_distance p)"
  shows "\<exists>found. queue' = queue @ found \<and> distinct found
    \<and> set found = {j \<in> set js. j < length (ps_distance p) \<and> ps_distance p ! j = None}
    \<and> length (ps_distance p') = length (ps_distance p) \<and> length (ps_previous p') = length (ps_distance p)
    \<and> (\<forall>v. ps_distance p' ! v = (if v \<in> set found then Some (Suc d) else ps_distance p ! v))
    \<and> (\<forall>v. ps_previous p' ! v = (if v \<in> set found then Some node else ps_previous p ! v))"
  using assms
proof (induction js arbitrary: p queue)
  case (Cons j js)
  show ?case
  proof (cases "j < length (ps_distance p) \<and> ps_distance p ! j = None")
    case True
    define q where "q = \<lparr>ps_distance = (ps_distance p)[j := Some (Suc d)], ps_previous = (ps_previous p)[j := Some node]\<rparr>"
    have "discover node j (p, queue) = (q, queue @ [j])"
      using True Cons.prems(2) by (simp add: discover_def q_def)
    then have run: "fold (discover node) js (q, queue @ [j]) = (p', queue')" using Cons.prems(1) by simp
    have "ps_distance q ! node = Some d" using True Cons.prems(2) by (auto simp: q_def nth_list_update)
    from Cons.IH [OF run this] obtain found where found: "queue' = (queue @ [j]) @ found" "distinct found"
        "set found = {j \<in> set js. j < length (ps_distance q) \<and> ps_distance q ! j = None}"
        "length (ps_distance p') = length (ps_distance q)" "length (ps_previous p') = length (ps_distance q)"
        "\<forall>v. ps_distance p' ! v = (if v \<in> set found then Some (Suc d) else ps_distance q ! v)"
        "\<forall>v. ps_previous p' ! v = (if v \<in> set found then Some node else ps_previous q ! v)"
      using Cons.prems(3) by (auto simp: q_def)
    have q: "ps_distance q ! v = (if v = j then Some (Suc d) else ps_distance p ! v)"
      "ps_previous q ! v = (if v = j then Some node else ps_previous p ! v)" for v
      using True Cons.prems(3) by (simp_all add: q_def)
    have sizes: "length (ps_distance q) = length (ps_distance p)" by (simp add: q_def)
    have new: "j \<notin> set found" using found(3) q(1) by simp
    have "set (j # found) = {i \<in> set (j # js). i < length (ps_distance p) \<and> ps_distance p ! i = None}"
      unfolding set_simps found(3) sizes q(1) using True by auto
    moreover have "ps_distance p' ! v = (if v \<in> set (j # found) then Some (Suc d) else ps_distance p ! v)"
      "ps_previous p' ! v = (if v \<in> set (j # found) then Some node else ps_previous p ! v)" for v
      using found(6,7) q [of v] by auto
    ultimately show ?thesis using found(1,2,4,5) new sizes by (intro exI [of _ "j # found"]) simp
  next
    case False
    then have "discover node j (p, queue) = (p, queue)" by (auto simp: discover_def)
    then have "fold (discover node) js (p, queue) = (p', queue')" using Cons.prems(1) by simp
    from Cons.IH [OF this Cons.prems(2,3)] show ?thesis using False by (elim exE) (rule exI, auto)
  qed
qed simp

section \<open>The search\<close>

definition bfs_inv :: "nat \<Rightarrow> (nat \<times> nat) set \<Rightarrow> nat \<Rightarrow> paths \<Rightarrow> nat list \<Rightarrow> bool" where
  "bfs_inv n E start p queue \<longleftrightarrow>
     (let D = ps_distance p in
      length D = n \<and> length (ps_previous p) = n \<and> start < n \<and> D ! start = Some 0
      \<and> (\<forall>v < n. \<forall>d. D ! v = Some d \<longrightarrow> (start, v) \<in> E ^^ d)
      \<and> (\<forall>v < n. \<forall>d. D ! v = Some (Suc d) \<longrightarrow>
           (\<exists>u < n. ps_previous p ! v = Some u \<and> (u, v) \<in> E \<and> D ! u = Some d))
      \<and> (\<forall>v < n. ps_previous p ! v \<noteq> None \<longrightarrow> (\<exists>d. D ! v = Some (Suc d)))
      \<and> (\<forall>u \<in> set queue. u < n \<and> D ! u \<noteq> None) \<and> distinct queue
      \<and> (\<forall>u < n. \<forall>d. D ! u = Some d \<longrightarrow> u \<notin> set queue \<longrightarrow> (\<forall>v. (u, v) \<in> E \<longrightarrow> (\<exists>e \<le> Suc d. D ! v = Some e)))
      \<and> sorted (map (\<lambda>u. the (D ! u)) queue)
      \<and> (\<forall>u rest. queue = u # rest \<longrightarrow> (\<forall>v < n. \<forall>d. D ! v = Some d \<longrightarrow> d \<le> Suc (the (D ! u)))))"

lemma bfs_invD:
  assumes "bfs_inv n E start p queue"
  shows "length (ps_distance p) = n" and "length (ps_previous p) = n" and "start < n"
    and "ps_distance p ! start = Some 0"
    and "\<And>v d. v < n \<Longrightarrow> ps_distance p ! v = Some d \<Longrightarrow> (start, v) \<in> E ^^ d"
    and "\<And>v d. v < n \<Longrightarrow> ps_distance p ! v = Some (Suc d) \<Longrightarrow>
      \<exists>u < n. ps_previous p ! v = Some u \<and> (u, v) \<in> E \<and> ps_distance p ! u = Some d"
    and "\<And>u. u \<in> set queue \<Longrightarrow> u < n \<and> ps_distance p ! u \<noteq> None" and "distinct queue"
    and "\<And>u v d. u < n \<Longrightarrow> ps_distance p ! u = Some d \<Longrightarrow> u \<notin> set queue \<Longrightarrow> (u, v) \<in> E \<Longrightarrow>
      \<exists>e \<le> Suc d. ps_distance p ! v = Some e"
    and "sorted (map (\<lambda>u. the (ps_distance p ! u)) queue)"
    and "\<And>u rest v d. queue = u # rest \<Longrightarrow> v < n \<Longrightarrow> ps_distance p ! v = Some d \<Longrightarrow> d \<le> Suc (the (ps_distance p ! u))"
    and "\<And>v u. v < n \<Longrightarrow> ps_previous p ! v = Some u \<Longrightarrow> \<exists>d. ps_distance p ! v = Some (Suc d)"
  using assms unfolding bfs_inv_def Let_def by - (elim conjE; blast)+

lemma bfs_inv_start:
  assumes "start < n"
  shows "bfs_inv n E start \<lparr>ps_distance = (replicate n None)[start := Some 0], ps_previous = replicate n None\<rparr> [start]"
  using assms by (auto simp: bfs_inv_def Let_def nth_list_update split: if_splits)

lemma bfs_inv_step:
  assumes inv: "bfs_inv n (edge_rel n nbrs) start p (node # queue)"
    and step: "fold (discover node) (nbrs node) (p, queue) = (p', queue')"
  shows "bfs_inv n (edge_rel n nbrs) start p' queue'"
proof -
  let ?E = "edge_rel n nbrs" and ?D = "ps_distance p" and ?D' = "ps_distance p'"
  note i = bfs_invD [OF inv]
  from i(7) [of node] obtain d where node: "node < n" "?D ! node = Some d" by auto
  from discover_fold [OF step node(2)] i(1,2) obtain found where found: "queue' = queue @ found" "distinct found"
      "set found = {j \<in> set (nbrs node). j < n \<and> ?D ! j = None}" "length ?D' = n" "length (ps_previous p') = n"
      "\<And>v. ?D' ! v = (if v \<in> set found then Some (Suc d) else ?D ! v)"
      "\<And>v. ps_previous p' ! v = (if v \<in> set found then Some node else ps_previous p ! v)"
    by auto
  have fresh: "v \<notin> set found" if "?D ! v = Some e" for v e using that found(3) by simp
  have kept: "?D' ! v = Some e" if "?D ! v = Some e" for v e using that fresh found(6) by simp
  have apart: "u \<notin> set found" if "u \<in> set queue" for u using that fresh i(7) by fastforce
  have edge: "(node, v) \<in> ?E" if "v \<in> set found" for v using that found(3) node(1) by (simp add: edge_rel_def)
  have range: "d \<le> the (?D ! u) \<and> the (?D ! u) \<le> Suc d" if "u \<in> set queue" for u
    using that i(7) [of u] i(10) i(11) [OF refl, of u] node(2) by auto
  show ?thesis
    unfolding bfs_inv_def Let_def
  proof (intro conjI allI impI ballI)
    show "length ?D' = n" "length (ps_previous p') = n" "start < n" by (fact found(4) found(5) i(3))+
    show "?D' ! start = Some 0" using kept i(4) by simp
  next
    fix v e assume v: "v < n" "?D' ! v = Some e"
    show "(start, v) \<in> ?E ^^ e"
    proof (cases "v \<in> set found")
      case True
      then have "e = Suc d" using v(2) found(6) by simp
      then show ?thesis using relpow_Suc_I [OF i(5) [OF node] edge [OF True]] by simp
    next
      case False
      then show ?thesis using i(5) v found(6) by simp
    qed
  next
    fix v e assume v: "v < n" "?D' ! v = Some (Suc e)"
    show "\<exists>u < n. ps_previous p' ! v = Some u \<and> (u, v) \<in> ?E \<and> ?D' ! u = Some e"
    proof (cases "v \<in> set found")
      case True
      then show ?thesis using node kept edge v(2) found(6,7) by auto
    next
      case False
      then obtain u where "u < n" "ps_previous p ! v = Some u" "(u, v) \<in> ?E" "?D ! u = Some e"
        using i(6) [of v e] v found(6) by auto
      then show ?thesis using False kept found(7) by (intro exI [of _ u]) simp
    qed
  next
    fix v assume "v < n" "ps_previous p' ! v \<noteq> None"
    then show "\<exists>e. ?D' ! v = Some (Suc e)" using found(6,7) i(12) [of v] by auto
  next
    fix u assume "u \<in> set queue'"
    then show "u < n" "?D' ! u \<noteq> None" using found(1,3,6) i(7) by auto
  next
    show "distinct queue'" using found(1,2) i(8) apart by auto
  next
    fix u v e assume u: "u < n" "?D' ! u = Some e" "u \<notin> set queue'" "(u, v) \<in> ?E"
    then have u': "?D ! u = Some e" "u \<notin> set queue" using found(1,6) by auto
    show "\<exists>e' \<le> Suc e. ?D' ! v = Some e'"
    proof (cases "u = node")
      case True
      then have "v < n" "v \<in> set (nbrs node)" using u(4) by (auto simp: edge_rel_def)
      then show ?thesis using True node u' found(3,6) i(11) [OF refl, of v] by (cases "?D ! v") auto
    next
      case False
      then show ?thesis using i(9) [of u e v] u u' kept by auto
    qed
  next
    have "map (\<lambda>u. the (?D' ! u)) queue' = map (\<lambda>u. the (?D ! u)) queue @ map (\<lambda>_. Suc d) found"
      unfolding found(1) using found(6) apart by auto
    then show "sorted (map (\<lambda>u. the (?D' ! u)) queue')" using i(10) range by (auto simp: sorted_append sorted_replicate map_replicate_const)
  next
    fix u rest v e assume "queue' = u # rest" "v < n" "?D' ! v = Some e"
    moreover from this have "u \<in> set queue \<or> u \<in> set found" using found(1) by (metis Un_iff list.set_intros(1) set_append)
    ultimately show "e \<le> Suc (the (?D' ! u))"
      using range [of u] i(7) [of u] i(11) [OF refl, of v e] node(2) found(6) [of u] found(6) [of v] fresh [of u]
      by (auto split: if_splits)
  qed
qed

lemma bfs_loop_Ok:
  assumes "bfs_loop nbrs p queue work = Ok (p', left)" and "bfs_inv n (edge_rel n nbrs) start p queue"
  shows "bfs_inv n (edge_rel n nbrs) start p' []"
  using assms
proof (induction nbrs p queue work rule: bfs_loop.induct)
  case (2 nbrs p node queue work)
  show ?case
    by (rule "2.IH") (use "2.prems" bfs_inv_step [OF "2.prems"(2) prod.collapse [symmetric]] in auto)
qed simp

lemma bfs_loop_total:
  assumes "weight nbrs (set queue \<union> {v. v < length (ps_distance p) \<and> ps_distance p ! v = None}) \<le> work"
    and "bfs_inv n (edge_rel n nbrs) start p queue"
  shows "is_ok (bfs_loop nbrs p queue work)"
  using assms
proof (induction nbrs p queue work rule: bfs_loop.induct)
  case (2 nbrs p node queue work)
  define p' where "p' = fst (fold (discover node) (nbrs node) (p, queue))"
  define queue' where "queue' = snd (fold (discover node) (nbrs node) (p, queue))"
  have step: "fold (discover node) (nbrs node) (p, queue) = (p', queue')" by (simp add: p'_def queue'_def)
  note i = bfs_invD [OF "2.prems"(2)]
  note inv' = bfs_inv_step [OF "2.prems"(2) step]
  let ?open = "\<lambda>p. {v. v < length (ps_distance p) \<and> ps_distance p ! v = None}"
  from i(7) [of node] obtain d where d: "ps_distance p ! node = Some d" by auto
  from discover_fold [OF step d] i(1,2) obtain found where found: "queue' = queue @ found"
      "set found = {j \<in> set (nbrs node). j < n \<and> ps_distance p ! j = None}" "length (ps_distance p') = n"
      "\<And>v. ps_distance p' ! v = (if v \<in> set found then Some (Suc d) else ps_distance p ! v)"
    by auto
  have rest: "set queue' \<union> ?open p' = set queue \<union> ?open p" using found i(1) by auto
  have "node \<notin> set queue \<union> ?open p" using i(8) d by auto
  then have "weight nbrs (set (node # queue) \<union> ?open p) = 1 + length (nbrs node) + weight nbrs (set queue \<union> ?open p)"
    by (simp add: insert_commute)
  then have paid: "1 + length (nbrs node) + weight nbrs (set queue' \<union> ?open p') \<le> work"
    using "2.prems"(1) rest by simp
  then have "is_ok (bfs_loop nbrs p' queue' (work - (1 + length (nbrs node))))"
    using "2.IH" [folded p'_def queue'_def, of "work - (1 + length (nbrs node))"] inv' by simp
  moreover have "take_work (1 + length (nbrs node)) work = Ok (work - (1 + length (nbrs node)))" using paid by simp
  ultimately show ?case by (simp add: p'_def queue'_def del: take_work_Ok)
qed simp

section \<open>Distances\<close>

text \<open>The length of a shortest walk, if there is a walk.\<close>

definition hops :: "('a \<times> 'a) set \<Rightarrow> 'a \<Rightarrow> 'a \<Rightarrow> nat option" where
  "hops E a b = (if (a, b) \<in> E\<^sup>* then Some (LEAST k. (a, b) \<in> E ^^ k) else None)"

lemma hops_eqI:
  assumes "\<And>d. x = Some d \<Longrightarrow> (a, b) \<in> E ^^ d" and "\<And>k. (a, b) \<in> E ^^ k \<Longrightarrow> \<exists>d \<le> k. x = Some d"
  shows "x = hops E a b"
proof (cases x)
  case None
  then have "(a, b) \<notin> E\<^sup>*" using assms(2) by (auto simp: rtrancl_power)
  then show ?thesis using None by (simp add: hops_def)
next
  case (Some d)
  then have d: "(a, b) \<in> E ^^ d" using assms(1) by blast
  have "(LEAST k. (a, b) \<in> E ^^ k) = d"
    by (rule Least_equality) (use d assms(2) Some in fastforce)+
  then show ?thesis using Some d by (auto simp: hops_def rtrancl_power)
qed

lemma bfs_distance:
  assumes inv: "bfs_inv n E start p []" and v: "v < n" and E: "E \<subseteq> {..<n} \<times> {..<n}"
  shows "ps_distance p ! v = hops E start v"
proof (rule hops_eqI)
  note i = bfs_invD [OF inv]
  show "(start, v) \<in> E ^^ d" if "ps_distance p ! v = Some d" for d using i(5) v that by blast
  show "\<exists>d \<le> k. ps_distance p ! v = Some d" if "(start, v) \<in> E ^^ k" for k
    using that
  proof (induction k arbitrary: v)
    case 0
    then show ?case using i(4) by simp
  next
    case (Suc k)
    then obtain u where u: "(start, u) \<in> E ^^ k" "(u, v) \<in> E" by auto
    from Suc.IH [OF u(1)] obtain d where d: "d \<le> k" "ps_distance p ! u = Some d" by blast
    from i(9) [OF _ d(2) _ u(2)] E u(2) obtain e where "e \<le> Suc d" "ps_distance p ! v = Some e" by auto
    then show ?case using d(1) by (intro exI [of _ e]) simp
  qed
qed

section \<open>The walk back\<close>

lemma bfs_layers:
  assumes inv: "bfs_inv n E start p queue" and v: "v < n" "ps_distance p ! v = Some d"
  shows "d < n"
proof -
  note i = bfs_invD [OF inv]
  have "{..d} \<subseteq> (\<lambda>u. the (ps_distance p ! u)) ` {..<n}"
    using v
  proof (induction d arbitrary: v)
    case 0
    then show ?case by (auto intro!: image_eqI [of _ _ v])
  next
    case (Suc d)
    from i(6) [OF Suc.prems] obtain u where "u < n" "ps_distance p ! u = Some d" by blast
    then have "{..d} \<subseteq> (\<lambda>u. the (ps_distance p ! u)) ` {..<n}" by (rule Suc.IH)
    moreover have "Suc d \<in> (\<lambda>u. the (ps_distance p ! u)) ` {..<n}"
      using Suc.prems by (intro image_eqI [of _ _ v]) simp_all
    ultimately show ?case by (simp add: atMost_Suc)
  qed
  then have "card {..d} \<le> card ((\<lambda>u. the (ps_distance p ! u)) ` {..<n})" by (intro card_mono) auto
  also have "\<dots> \<le> n" using card_image_le [of "{..<n}"] by simp
  finally show ?thesis by simp
qed

text \<open>A walk as its nodes.\<close>

definition walk :: "('a \<times> 'a) set \<Rightarrow> 'a \<Rightarrow> 'a \<Rightarrow> 'a list \<Rightarrow> bool" where
  "walk E a b path \<longleftrightarrow> path \<noteq> [] \<and> hd path = a \<and> last path = b \<and> successively (\<lambda>x y. (x, y) \<in> E) path"

lemma walk_back_Some:
  assumes inv: "bfs_inv n E start p []" and v: "v < n" "ps_distance p ! v = Some d" and fuel: "d \<le> fuel"
  shows "\<exists>path. walk_back fuel (ps_previous p) start v acc = Some (acc @ rev path)
    \<and> walk E start v (path @ [v]) \<and> length path = d \<and> set path \<subseteq> {..<n}"
  using v fuel
proof (induction d arbitrary: v fuel acc)
  case 0
  have "v = start" using bfs_invD(5) [OF inv 0(1,2)] by simp
  then have "walk_back fuel (ps_previous p) start v acc = Some acc" by (cases fuel) simp_all
  then show ?case using \<open>v = start\<close> by (intro exI [of _ "[]"]) (simp add: walk_def)
next
  case (Suc d)
  note i = bfs_invD [OF inv]
  from Suc.prems obtain f where f: "fuel = Suc f" "d \<le> f" by (cases fuel) auto
  from i(6) [OF Suc.prems(1,2)] obtain u where u: "u < n" "ps_previous p ! v = Some u" "(u, v) \<in> E"
      "ps_distance p ! u = Some d"
    by blast
  have "v \<noteq> start" using i(4) Suc.prems(2) by auto
  from Suc.IH [OF u(1,4) f(2), of "acc @ [u]"] obtain path where path:
      "walk_back f (ps_previous p) start u (acc @ [u]) = Some ((acc @ [u]) @ rev path)"
      "walk E start u (path @ [u])" "length path = d" "set path \<subseteq> {..<n}"
    by blast
  have "walk E start v ((path @ [u]) @ [v])"
    using path(2) u(3) by (auto simp: walk_def successively_append_iff hd_append)
  then show ?case
    using path u(1,2) f(1) \<open>v \<noteq> start\<close> by (intro exI [of _ "path @ [u]"]) simp
qed

section \<open>From the selected graph\<close>

definition path_rel :: "bool \<Rightarrow> int option \<Rightarrow> graph_edge list \<Rightarrow> (string \<times> string) set" where
  "path_rel directed valid_at edges =
     (if directed then edge_links valid_at edges else edge_links valid_at edges \<union> (edge_links valid_at edges)\<inverse>)"

lemma hops_image:
  fixes f :: "nat \<Rightarrow> 'a" and n u v :: nat
  assumes "inj_on f {..<n}" and "E \<subseteq> {..<n} \<times> {..<n}" and "u < n" and "v < n"
  shows "hops (map_prod f f ` E) (f u) (f v) = hops E u v"
proof -
  have "(f u, f v) \<in> (map_prod f f ` E) ^^ k \<longleftrightarrow> (u, v) \<in> E ^^ k" for k
    unfolding relpow_image [OF assms(1-3)] using assms(1,4) by (auto dest: inj_onD)
  then show ?thesis unfolding hops_def rtrancl_power by simp
qed

lemma walk_image: "walk E a b path \<Longrightarrow> walk (map_prod f f ` E) (f a) (f b) (map f path)"
  unfolding walk_def by (auto simp: hd_map last_map successively_map elim!: successively_mono)

lemma path_next_rel:
  assumes "topology_ok g"
  shows "edge_rel (length (tp_ids g)) (path_next g directed)
    = (if directed then out_rel g else out_rel g \<union> (out_rel g)\<inverse>)"
proof -
  have "edge_rel (length (tp_ids g)) (path_next g False) = edge_rel (length (tp_ids g)) (weak_next g)"
    by (auto simp: edge_rel_def path_next_def weak_next_def)
  moreover have "edge_rel (length (tp_ids g)) (path_next g True) = out_rel g"
    by (simp add: edge_rel_def path_next_def out_rel_def)
  ultimately show ?thesis using weak_rel [OF assms] by (cases directed) simp_all
qed

lemma path_rel_nodes:
  assumes top: "topology_new nodes edges valid_at work = Ok (g, left)"
  shows "path_rel directed valid_at edges
    = map_prod ((!) (tp_ids g)) ((!) (tp_ids g)) ` edge_rel (length (tp_ids g)) (path_next g directed)"
  unfolding path_rel_def path_next_rel [OF topology_new_Ok(1) [OF top]] topology_new_links [OF top]
    map_prod_converse [symmetric] by auto

text \<open>What a report of shortest paths owes: the distances, the predecessors and the path to the target.\<close>

definition predecessor_ok :: "('a \<times> 'a) set \<Rightarrow> 'a \<Rightarrow> 'a \<times> 'a option \<Rightarrow> bool" where
  "predecessor_ok R source p =
     (case snd p of
        None \<Rightarrow> fst p = source \<or> hops R source (fst p) = None
      | Some b \<Rightarrow> (b, fst p) \<in> R \<and> (\<exists>d. hops R source b = Some d \<and> hops R source (fst p) = Some (Suc d)))"

definition path_ok :: "('a \<times> 'a) set \<Rightarrow> 'a \<Rightarrow> 'a \<Rightarrow> 'a list option \<Rightarrow> bool" where
  "path_ok R source target path =
     (case path of
        None \<Rightarrow> hops R source target = None
      | Some ids \<Rightarrow> walk R source target ids \<and> hops R source target = Some (length ids - 1))"

lemma shortest_paths_run:
  assumes "shortest_paths g source directed target work = Ok (report, left)" and "distinct (tp_ids g)"
  obtains start p where "start < length (tp_ids g)" "tp_ids g ! start = source"
    "bfs_inv (length (tp_ids g)) (edge_rel (length (tp_ids g)) (path_next g directed)) start p []"
    "pr_distances report = zip (tp_ids g) (ps_distance p)"
    "pr_predecessors report = map (\<lambda>i. (tp_ids g ! i, map_option ((!) (tp_ids g)) (ps_previous p ! i))) [0..<length (tp_ids g)]"
    "case target of None \<Rightarrow> pr_path report = None
     | Some t \<Rightarrow> \<exists>v < length (tp_ids g). tp_ids g ! v = t \<and> pr_path report =
         (case ps_distance p ! v of None \<Rightarrow> None
          | Some _ \<Rightarrow> map_option (\<lambda>path. rev (map ((!) (tp_ids g)) path))
              (walk_back (length (tp_ids g)) (ps_previous p) start v [v]))"
proof -
  let ?n = "length (tp_ids g)"
  from assms(1) obtain start goal p where start: "map_of (zip (tp_ids g) [0..<?n]) source = Some start"
      and goal: "(case target of None \<Rightarrow> Ok None
        | Some i \<Rightarrow> rbind (ok_or (map_of (zip (tp_ids g) [0..<?n]) i) E_SCIENCE_TARGET) (\<lambda>j. Ok (Some j))) = Ok goal"
      and run: "bfs_loop (path_next g directed)
        \<lparr>ps_distance = (replicate ?n None)[start := Some 0], ps_previous = replicate ?n None\<rparr> [start] work = Ok (p, left)"
      and report: "report = \<lparr>pr_distances = zip (tp_ids g) (ps_distance p),
        pr_predecessors = map (\<lambda>i. (tp_ids g ! i, map_option ((!) (tp_ids g)) (ps_previous p ! i))) [0..<?n],
        pr_path = (case goal of None \<Rightarrow> None
          | Some v \<Rightarrow> (case ps_distance p ! v of None \<Rightarrow> None
              | Some _ \<Rightarrow> map_option (\<lambda>path. rev (map ((!) (tp_ids g)) path))
                  (walk_back ?n (ps_previous p) start v [v])))\<rparr>"
    unfolding shortest_paths_def Let_def by auto
  note at = index_of_zip [OF assms(2)]
  have "start < ?n" "tp_ids g ! start = source" using start at by simp_all
  moreover have "bfs_inv ?n (edge_rel ?n (path_next g directed)) start p []"
    by (rule bfs_loop_Ok [OF run bfs_inv_start [OF \<open>start < ?n\<close>]])
  ultimately show thesis
    using goal report at by (intro that [of start p]) (auto split: option.splits)
qed

lemma distances_map:
  assumes "length ds = length ids" and "\<And>v. v < length ids \<Longrightarrow> ds ! v = f (ids ! v)"
  shows "zip ids ds = map (\<lambda>a. (a, f a)) ids"
  using assms by (intro nth_equalityI) simp_all

lemma shortest_paths_report:
  assumes top: "topology_new nodes edges valid_at work = Ok (g, left)"
    and run: "shortest_paths g source directed target left = Ok (report, left')"
    and R: "R = path_rel directed valid_at edges"
  shows "source \<in> set nodes" and "pr_distances report = map (\<lambda>a. (a, hops R source a)) (sort nodes)"
    and "map fst (pr_predecessors report) = sort nodes" and "list_all (predecessor_ok R source) (pr_predecessors report)"
    and "case target of None \<Rightarrow> pr_path report = None
       | Some t \<Rightarrow> t \<in> set nodes \<and> path_ok R source t (pr_path report)"
proof -
  let ?ids = "tp_ids g" and ?n = "length (tp_ids g)"
  let ?E = "edge_rel ?n (path_next g directed)"
  note g = topology_okD [OF topology_new_Ok(1) [OF top]]
  have ids: "?ids = sort nodes" by (rule builtD(1) [OF topology_new_Ok(2) [OF top]])
  then have set_ids: "set ?ids = set nodes" by simp
  obtain start p where start: "start < ?n" "?ids ! start = source" and inv: "bfs_inv ?n ?E start p []"
    and dist: "pr_distances report = zip ?ids (ps_distance p)"
    and preds: "pr_predecessors report = map (\<lambda>i. (?ids ! i, map_option ((!) ?ids) (ps_previous p ! i))) [0..<?n]"
    and path: "case target of None \<Rightarrow> pr_path report = None
     | Some t \<Rightarrow> \<exists>v < ?n. ?ids ! v = t \<and> pr_path report = (case ps_distance p ! v of None \<Rightarrow> None
          | Some _ \<Rightarrow> map_option (\<lambda>path. rev (map ((!) ?ids) path)) (walk_back ?n (ps_previous p) start v [v]))"
    by (rule shortest_paths_run [OF run g(2)])
  note i = bfs_invD [OF inv]
  have inj: "inj_on ((!) ?ids) {..<?n}" using g(2) by (intro inj_on_nth) auto
  have E: "?E \<subseteq> {..<?n} \<times> {..<?n}" by (rule edge_rel_bound)
  have R': "R = map_prod ((!) ?ids) ((!) ?ids) ` ?E" unfolding R by (rule path_rel_nodes [OF top])
  have hops: "hops R source (?ids ! v) = ps_distance p ! v" if "v < ?n" for v
    using hops_image [OF inj E start(1) that] bfs_distance [OF inv that E] start(2) R' by simp
  show "source \<in> set nodes" using start set_ids nth_mem by blast
  show "pr_distances report = map (\<lambda>a. (a, hops R source a)) (sort nodes)"
    unfolding dist ids [symmetric] by (rule distances_map) (simp_all add: i(1) hops)
  show "map fst (pr_predecessors report) = sort nodes"
    unfolding preds ids [symmetric] by (simp add: o_def map_nth)
  have "predecessor_ok R source (?ids ! v, map_option ((!) ?ids) (ps_previous p ! v))" if v: "v < ?n" for v
  proof (cases "ps_previous p ! v")
    case None
    then have "ps_distance p ! v = None \<or> ps_distance p ! v = Some 0"
      using i(6) [OF v] by (metis not0_implies_Suc not_None_eq)
    then have "v = start \<or> ps_distance p ! v = None" using i(5) [OF v, of 0] by auto
    then show ?thesis using None start(2) hops [OF v] by (auto simp: predecessor_ok_def)
  next
    case (Some u)
    with i(12) [OF v Some] obtain d where d: "ps_distance p ! v = Some (Suc d)" by blast
    with i(6) [OF v d] Some have u: "u < ?n" "(u, v) \<in> ?E" "ps_distance p ! u = Some d" by auto
    have "(?ids ! u, ?ids ! v) \<in> R" unfolding R' using imageI [OF u(2), of "map_prod ((!) ?ids) ((!) ?ids)"] by simp
    then show ?thesis using Some d u hops [OF v] hops [OF u(1)] by (simp add: predecessor_ok_def)
  qed
  then show "list_all (predecessor_ok R source) (pr_predecessors report)"
    unfolding preds by (simp add: list_all_iff)
  show "case target of None \<Rightarrow> pr_path report = None | Some t \<Rightarrow> t \<in> set nodes \<and> path_ok R source t (pr_path report)"
  proof (cases target)
    case (Some t)
    with path obtain v where v: "v < ?n" "?ids ! v = t" "pr_path report = (case ps_distance p ! v of None \<Rightarrow> None
        | Some _ \<Rightarrow> map_option (\<lambda>path. rev (map ((!) ?ids) path)) (walk_back ?n (ps_previous p) start v [v]))"
      by auto
    have "path_ok R source t (pr_path report)"
    proof (cases "ps_distance p ! v")
      case None
      then show ?thesis using v hops [OF v(1)] by (simp add: path_ok_def)
    next
      case d: (Some d)
      have "d \<le> ?n" using bfs_layers [OF inv v(1) d] by simp
      from walk_back_Some [OF inv v(1) d this, of "[v]"] obtain path where
          found: "walk_back ?n (ps_previous p) start v [v] = Some ([v] @ rev path)"
          and walk: "walk ?E start v (path @ [v])" "length path = d"
        by blast
      have "pr_path report = Some (map ((!) ?ids) (path @ [v]))" using v(3) d found by (simp add: rev_map)
      moreover have "walk R source t (map ((!) ?ids) (path @ [v]))"
        using walk_image [OF walk(1), of "(!) ?ids"] start(2) v(2) unfolding R' by simp
      ultimately show ?thesis using hops [OF v(1)] v(2) d walk(2) by (simp add: path_ok_def)
    qed
    then show ?thesis using Some v set_ids nth_mem [OF v(1)] by simp
  qed (use path in simp)
qed

lemma path_next_weight:
  assumes "topology_ok g"
  shows "weight (path_next g directed) {..<length (tp_ids g)}
    = length (tp_ids g) + (if directed then 1 else 2) * tp_edges g"
proof (cases directed)
  case True
  then have "path_next g directed = (\<lambda>v. tp_outgoing g ! v)" by (simp add: path_next_def fun_eq_iff)
  then show ?thesis using weights(1) [OF assms] True by simp
next
  case False
  then have "weight (path_next g directed) X = weight (weak_next g) X" for X
    by (simp add: weight_def path_next_def weak_next_def)
  then show ?thesis using weights(3) [OF assms] False by simp
qed

lemma shortest_paths_total:
  assumes g: "topology_ok g" and ends: "source \<in> set (tp_ids g)" "case target of None \<Rightarrow> True | Some t \<Rightarrow> t \<in> set (tp_ids g)"
    and work: "length (tp_ids g) + (if directed then 1 else 2) * tp_edges g \<le> work"
  shows "is_ok (shortest_paths g source directed target work)"
proof -
  let ?n = "length (tp_ids g)"
  note found = index_found [OF topology_okD(2) [OF g]]
  from found ends(1) obtain start where start: "map_of (zip (tp_ids g) [0..<?n]) source = Some start" by blast
  then have s: "start < ?n" using index_of_zip [OF topology_okD(2) [OF g]] by simp
  let ?p = "\<lparr>ps_distance = (replicate ?n None)[start := Some 0], ps_previous = replicate ?n None\<rparr>"
  have "set [start] \<union> {v. v < length (ps_distance ?p) \<and> ps_distance ?p ! v = None} = {..<?n}"
    using s by (auto simp: nth_list_update)
  then have "is_ok (bfs_loop (path_next g directed) ?p [start] work)"
    using bfs_loop_total [OF _ bfs_inv_start [OF s]] path_next_weight [OF g] work by metis
  moreover obtain goal where "(case target of None \<Rightarrow> Ok None
      | Some i \<Rightarrow> rbind (ok_or (map_of (zip (tp_ids g) [0..<?n]) i) E_SCIENCE_TARGET) (\<lambda>j. Ok (Some j))) = Ok goal"
    using ends(2) found by (cases target) fastforce+
  ultimately show ?thesis using start by (auto simp: shortest_paths_def Let_def is_ok_iff)
qed

text \<open>
  C23: a shortest-path analysis. The distance it reports for a node is the length of a shortest walk
  from the source over the counted edges (along them, or in either direction), and nothing for a
  node that no walk reaches; a predecessor is one step closer to the source; and the path to the
  target is a shortest walk, missing exactly when there is none.
\<close>

theorem shortest_paths_exact:
  assumes "analyze nodes edges (Shortest_Paths source directed target valid_at) lim
    = Ok (Paths report, negative, outside)"
  shows "source \<in> set nodes
    \<and> pr_distances report = map (\<lambda>a. (a, hops (path_rel directed valid_at edges) source a)) (sort nodes)
    \<and> map fst (pr_predecessors report) = sort nodes
    \<and> list_all (predecessor_ok (path_rel directed valid_at edges) source) (pr_predecessors report)
    \<and> (case target of None \<Rightarrow> pr_path report = None
       | Some t \<Rightarrow> t \<in> set nodes \<and> path_ok (path_rel directed valid_at edges) source t (pr_path report))"
proof -
  from assms obtain g left left' where top: "topology_new nodes edges valid_at (max_work lim) = Ok (g, left)"
      and run: "shortest_paths g source directed target left = Ok (report, left')"
    by (auto simp: analyze_def split: if_splits)
  show ?thesis using shortest_paths_report [OF top run refl] by blast
qed

theorem shortest_paths_exact_witness:
  "\<exists>report. analyze [''c'', ''a'', ''b''] demo_edges (Shortest_Paths ''a'' True (Some ''c'') (Some 2)) demo_limits
      = Ok (Paths report, 1, 1)
    \<and> pr_path report = Some [''a'', ''b'', ''c'']
    \<and> path_ok (path_rel True (Some 2) demo_edges) ''a'' ''c'' (pr_path report)"
proof -
  let ?report = "\<lparr>pr_distances = [(''a'', Some 0), (''b'', Some 1), (''c'', Some 2)],
    pr_predecessors = [(''a'', None), (''b'', Some ''a''), (''c'', Some ''b'')], pr_path = Some [''a'', ''b'', ''c'']\<rparr>"
  have run: "analyze [''c'', ''a'', ''b''] demo_edges (Shortest_Paths ''a'' True (Some ''c'') (Some 2)) demo_limits
      = Ok (Paths ?report, 1, 1)"
    by code_simp
  show ?thesis using run shortest_paths_exact [OF run] by (intro exI [of _ ?report]) simp
qed

text \<open> When a shortest-path analysis succeeds. Within the limits, without duplicate identifiers or
  edges that leave the selection, and with the source and the target selected, a work budget for
  every node and counted edge twice (three times for an edge that may be walked both ways) is enough.
\<close>

theorem shortest_paths_succeed:
  assumes "length nodes \<le> max_nodes lim" and "length edges \<le> max_edges lim"
    and "distinct nodes" and "ends_selected valid_at nodes edges"
    and "source \<in> set nodes" and "case target of None \<Rightarrow> True | Some t \<Rightarrow> t \<in> set nodes"
    and "length nodes + length edges + length nodes
      + (if directed then 1 else 2) * length (filter (counted valid_at) edges) \<le> max_work lim"
  shows "is_ok (analyze nodes edges (Shortest_Paths source directed target valid_at) lim)"
proof -
  have sat: "saturating_add (length nodes) (length edges) \<le> length nodes + length edges"
    by (simp add: saturating_add_def)
  then have "is_ok (topology_new nodes edges valid_at (max_work lim))"
    using assms(3,4,7) by (simp add: topology_new_is_ok)
  then obtain g left where top: "topology_new nodes edges valid_at (max_work lim) = Ok (g, left)"
    by (auto simp: is_ok_iff)
  note b = builtD [OF topology_new_Ok(2) [OF top]]
  have g: "topology_ok g" "length (tp_ids g) = length nodes" "set (tp_ids g) = set nodes"
    "tp_edges g = length (filter (counted valid_at) edges)"
    using topology_new_Ok(1) [OF top] b(1,9) by simp_all
  have "length nodes + (if directed then 1 else 2) * tp_edges g \<le> left"
    using topology_new_Ok(4) [OF top] sat assms(7) g(4) by (auto split: if_splits)
  then have "is_ok (shortest_paths g source directed target left)"
    using shortest_paths_total [OF g(1), of source target directed left] assms(5,6) g(2,3)
    by (cases target) simp_all
  then show ?thesis using top assms(1,2) by (auto simp: analyze_def is_ok_iff)
qed

theorem shortest_paths_succeed_witness:
  "is_ok (analyze [''c'', ''a'', ''b''] demo_edges (Shortest_Paths ''a'' True (Some ''c'') None) (demo_limits\<lparr>max_work := 15\<rparr>))"
  by (rule shortest_paths_succeed)
    (simp_all add: demo_edges_def demo_edge_def demo_limits_def ends_selected_def counted_def)

end
