(* ===== verification/Carrier_Model.thy ===== *)
theory Carrier_Model
  imports Weave_Prelude
begin

text \<open>
  Restrictions on derived records (\<open>weave-contract/src/carrier_algebra.rs\<close> and \<open>influence.rs\<close>): sets of
  references that a reader must be granted, their conjunction and disjunction, and the budget that
  each composition is charged to. \<open>serde_json\<close> is the parameter \<open>js\<close>, the text of a JSON value; a
  record is serialised as the object of its fields in the order of their declaration.
\<close>

section \<open>JSON values\<close>

datatype jvalue =
    JNull
  | JBool bool
  | JNum string
  | JStr string
  | JArr "jvalue list"
  | JObj "(string \<times> jvalue) list"

text \<open>\<open>serde_json::to_value\<close>: the map of a JSON object orders its keys.\<close>

fun to_value :: "jvalue \<Rightarrow> jvalue" where
  "to_value (JArr vs) = JArr (map to_value vs)"
| "to_value (JObj kvs) = JObj (sort_key fst (map (\<lambda>(k, v). (k, to_value v)) kvs))"
| "to_value v = v"

section \<open>References\<close>

record assertion_ref =
  ar_graph :: string
  ar_revision :: string
  ar_assertion :: string

record node_ref =
  nr_graph :: string
  nr_revision :: string
  nr_node :: string

record graph_ref =
  gr_graph :: string
  gr_revision :: string

definition assertion_key :: "assertion_ref \<Rightarrow> string \<times> string \<times> string" where
  "assertion_key r = (ar_graph r, ar_revision r, ar_assertion r)"

definition node_key :: "node_ref \<Rightarrow> string \<times> string \<times> string" where
  "node_key r = (nr_graph r, nr_revision r, nr_node r)"

definition snapshot_key :: "graph_ref \<Rightarrow> string \<times> string" where
  "snapshot_key r = (gr_graph r, gr_revision r)"

text \<open>\<open>sort_by\<close> the key, then \<open>dedup\<close>.\<close>

definition canonical_refs :: "('r \<Rightarrow> 'k::linorder) \<Rightarrow> 'r list \<Rightarrow> 'r list" where
  "canonical_refs key refs = remdups_adj (sort_key key refs)"

definition max_references :: nat where
  "max_references = 1000"

definition validate_record_refs :: "assertion_ref list \<Rightarrow> node_ref list \<Rightarrow> graph_ref list \<Rightarrow> unit result" where
  "validate_record_refs assertions nodes snapshots =
     (if saturating_add (saturating_add (length assertions) (length nodes)) (length snapshots) > max_references
      then Err E_BUDGET
      else if list_ex (\<lambda>r. \<not> valid_id (ar_graph r) \<or> \<not> valid_id (ar_revision r) \<or> \<not> valid_id (ar_assertion r)) assertions
        \<or> list_ex (\<lambda>r. \<not> valid_id (nr_graph r) \<or> \<not> valid_id (nr_revision r) \<or> \<not> valid_id (nr_node r)) nodes
        \<or> list_ex (\<lambda>r. \<not> valid_id (gr_graph r) \<or> \<not> valid_id (gr_revision r)) snapshots
      then Err E_INFLUENCE else Ok ())"

record derivation =
  dv_snapshots :: "graph_ref list"
  dv_nodes :: "node_ref list"
  dv_operator :: string
  dv_premises :: "assertion_ref list"
  dv_parameters :: "(string, jvalue) btree_map"
  dv_inputs :: "graph_ref list"

record ref_set =
  rs_assertions :: "assertion_ref list"
  rs_nodes :: "node_ref list"
  rs_snapshots :: "graph_ref list"

definition no_refs :: ref_set where
  "no_refs = \<lparr>rs_assertions = [], rs_nodes = [], rs_snapshots = []\<rparr>"

record carrier =
  ca_flat :: ref_set
  ca_alternatives :: "derivation list"

definition no_carrier :: carrier where
  "no_carrier = \<lparr>ca_flat = no_refs, ca_alternatives = []\<rparr>"

section \<open>Serialisation\<close>

definition json_assertion :: "assertion_ref \<Rightarrow> jvalue" where
  "json_assertion r = JObj [(''graph_id'', JStr (ar_graph r)), (''revision'', JStr (ar_revision r)),
     (''assertion_id'', JStr (ar_assertion r))]"

definition json_node :: "node_ref \<Rightarrow> jvalue" where
  "json_node r = JObj [(''graph_id'', JStr (nr_graph r)), (''revision'', JStr (nr_revision r)),
     (''node_id'', JStr (nr_node r))]"

definition json_snapshot :: "graph_ref \<Rightarrow> jvalue" where
  "json_snapshot r = JObj [(''graph_id'', JStr (gr_graph r)), (''revision'', JStr (gr_revision r))]"

definition json_derivation :: "derivation \<Rightarrow> jvalue" where
  "json_derivation d = JObj
     ((if dv_snapshots d = [] then [] else [(''snapshot_premises'', JArr (map json_snapshot (dv_snapshots d)))])
      @ (if dv_nodes d = [] then [] else [(''node_premises'', JArr (map json_node (dv_nodes d)))])
      @ [(''operator'', JStr (dv_operator d)), (''premises'', JArr (map json_assertion (dv_premises d))),
         (''parameters'', JObj (dv_parameters d)), (''input_snapshots'', JArr (map json_snapshot (dv_inputs d)))])"

definition json_refs :: "ref_set \<Rightarrow> jvalue" where
  "json_refs r = JObj [(''assertions'', JArr (map json_assertion (rs_assertions r))),
     (''nodes'', JArr (map json_node (rs_nodes r))), (''snapshots'', JArr (map json_snapshot (rs_snapshots r)))]"

definition json_carrier :: "carrier \<Rightarrow> jvalue" where
  "json_carrier c = JObj [(''flat'', json_refs (ca_flat c)),
     (''alternatives'', JArr (map json_derivation (ca_alternatives c)))]"

section \<open>The budget\<close>

record carrier_limits =
  cl_groups :: nat
  cl_references :: nat
  cl_bytes :: nat
  cl_work :: nat

definition max_groups :: nat where
  "max_groups = 128"

definition max_refs :: nat where
  "max_refs = 1000"

definition max_carrier_bytes :: nat where
  "max_carrier_bytes = 32 * 1024 * 1024"

definition max_depth :: nat where
  "max_depth = 32"

definition default_limits :: carrier_limits where
  "default_limits = \<lparr>cl_groups = max_groups, cl_references = max_refs, cl_bytes = max_carrier_bytes, cl_work = 100000\<rparr>"

record carrier_budget =
  cb_limits :: carrier_limits
  cb_bytes :: nat
  cb_work :: nat

definition budget_new :: "carrier_limits \<Rightarrow> carrier_budget" where
  "budget_new lim =
     (let l = \<lparr>cl_groups = min (cl_groups lim) max_groups, cl_references = min (cl_references lim) max_refs,
         cl_bytes = min (cl_bytes lim) max_carrier_bytes, cl_work = min (cl_work lim) 1000000\<rparr>
      in \<lparr>cb_limits = l, cb_bytes = cl_bytes l, cb_work = cl_work l\<rparr>)"

definition carrier_step :: "carrier_budget \<Rightarrow> carrier_budget result" where
  "carrier_step b =
     rbind (ok_or (checked_sub (cb_work b) 1) E_INFLUENCE_BUDGET) (\<lambda>w. Ok (b\<lparr>cb_work := w\<rparr>))"

definition carrier_charge :: "(jvalue \<Rightarrow> string) \<Rightarrow> jvalue \<Rightarrow> carrier_budget \<Rightarrow> carrier_budget result" where
  "carrier_charge js v b =
     rbind (carrier_step b) (\<lambda>b.
     rbind (ok_or (checked_sub (cb_bytes b) (length (js v))) E_INFLUENCE_BUDGET) (\<lambda>n. Ok (b\<lparr>cb_bytes := n\<rparr>)))"

section \<open>Validation and canonical form\<close>

definition refs_count :: "ref_set \<Rightarrow> nat" where
  "refs_count r = saturating_add (saturating_add (length (rs_assertions r)) (length (rs_nodes r))) (length (rs_snapshots r))"

definition group_count :: "derivation \<Rightarrow> nat" where
  "group_count g = saturating_add (saturating_add (length (dv_premises g)) (length (dv_nodes g))) (length (dv_snapshots g))"

definition flat_empty :: "ref_set \<Rightarrow> bool" where
  "flat_empty r \<longleftrightarrow> refs_count r = 0"

definition unconditional :: "carrier \<Rightarrow> bool" where
  "unconditional c \<longleftrightarrow> flat_empty (ca_flat c) \<and> ca_alternatives c = []"

fun value_depth :: "jvalue \<Rightarrow> nat \<Rightarrow> carrier_budget \<Rightarrow> carrier_budget result" where
  "value_depth v depth b =
     rbind (carrier_step b) (\<lambda>b.
       if depth > max_depth then Err E_INFLUENCE_BUDGET
       else case v of
         JArr vs \<Rightarrow> try_fold (\<lambda>b v. value_depth v (depth + 1) b) b vs
       | JObj kvs \<Rightarrow> try_fold (\<lambda>b kv. value_depth (snd kv) (depth + 1) b) b kvs
       | _ \<Rightarrow> Ok b)"

definition validate_group :: "nat \<times> carrier_budget \<Rightarrow> derivation \<Rightarrow> (nat \<times> carrier_budget) result" where
  "validate_group s g =
     (case s of (count, b) \<Rightarrow>
        rbind (carrier_step b) (\<lambda>b.
        rbind (ensure (group_count g \<noteq> 0) E_INFLUENCE_EMPTY_GROUP) (\<lambda>_.
        rbind (ok_or (usize_add count (group_count g)) E_INFLUENCE_BUDGET) (\<lambda>count.
        rbind (ensure (count \<le> cl_references (cb_limits b)) E_INFLUENCE_BUDGET) (\<lambda>_.
        rbind (ensure (valid_id (dv_operator g)) E_INFLUENCE) (\<lambda>_.
        rbind (validate_record_refs (dv_premises g) (dv_nodes g) (dv_snapshots g)) (\<lambda>_.
        rbind (ensure (length (dv_inputs g) \<le> max_refs
            \<and> list_all (\<lambda>r. valid_id (gr_graph r) \<and> valid_id (gr_revision r)) (dv_inputs g)) E_INFLUENCE) (\<lambda>_.
        rbind (try_fold (\<lambda>b kv. value_depth (snd kv) 0 b) b (dv_parameters g)) (\<lambda>b. Ok (count, b))))))))))"

definition carrier_validate :: "(jvalue \<Rightarrow> string) \<Rightarrow> carrier \<Rightarrow> carrier_budget \<Rightarrow> carrier_budget result" where
  "carrier_validate js c b =
     rbind (ensure (length (ca_alternatives c) \<le> cl_groups (cb_limits b)) E_INFLUENCE_BUDGET) (\<lambda>_.
     rbind (validate_record_refs (rs_assertions (ca_flat c)) (rs_nodes (ca_flat c)) (rs_snapshots (ca_flat c))) (\<lambda>_.
     rbind (try_fold validate_group (refs_count (ca_flat c), b) (ca_alternatives c)) (\<lambda>(count, b).
     rbind (ensure (count \<le> cl_references (cb_limits b)) E_INFLUENCE_BUDGET) (\<lambda>_.
       carrier_charge js (json_carrier c) b))))"

definition normalize_group :: "derivation \<Rightarrow> derivation" where
  "normalize_group g =
     g\<lparr>dv_premises := canonical_refs assertion_key (dv_premises g), dv_nodes := canonical_refs node_key (dv_nodes g),
       dv_snapshots := canonical_refs snapshot_key (dv_snapshots g), dv_inputs := canonical_refs snapshot_key (dv_inputs g)\<rparr>"

definition normalize_refs :: "ref_set \<Rightarrow> ref_set" where
  "normalize_refs r =
     \<lparr>rs_assertions = canonical_refs assertion_key (rs_assertions r), rs_nodes = canonical_refs node_key (rs_nodes r),
      rs_snapshots = canonical_refs snapshot_key (rs_snapshots r)\<rparr>"

text \<open>The groups by their text, the first of each text kept.\<close>

definition add_group :: "(jvalue \<Rightarrow> string) \<Rightarrow> (string, derivation) btree_map \<times> carrier_budget \<Rightarrow> derivation
    \<Rightarrow> ((string, derivation) btree_map \<times> carrier_budget) result" where
  "add_group js s g =
     (case s of (groups, b) \<Rightarrow>
        rbind (carrier_step b) (\<lambda>b.
        let g = normalize_group g; v = json_derivation g in
        rbind (carrier_charge js v b) (\<lambda>b.
          Ok (if map_of groups (js v) = None then bm_insert (js v) g groups else groups, b))))"

definition canonicalize :: "(jvalue \<Rightarrow> string) \<Rightarrow> carrier \<Rightarrow> carrier_budget \<Rightarrow> (carrier \<times> carrier_budget) result" where
  "canonicalize js c b =
     rbind (carrier_validate js c b) (\<lambda>b.
     rbind (carrier_charge js (json_carrier c) b) (\<lambda>b.
     rbind (try_fold (add_group js) ([], b) (ca_alternatives c)) (\<lambda>(groups, b).
       Ok (\<lparr>ca_flat = normalize_refs (ca_flat c), ca_alternatives = map snd groups\<rparr>, b))))"

section \<open>Composition\<close>

definition combine_refs :: "(jvalue \<Rightarrow> string) \<Rightarrow> ref_set \<Rightarrow> ref_set \<Rightarrow> carrier_budget \<Rightarrow> (ref_set \<times> carrier_budget) result" where
  "combine_refs js x y b =
     rbind (ensure (saturating_add (refs_count x) (refs_count y) \<le> cl_references (cb_limits b)) E_INFLUENCE_BUDGET) (\<lambda>_.
     rbind (carrier_charge js (JArr [json_refs x, json_refs y]) b) (\<lambda>b.
       Ok (normalize_refs \<lparr>rs_assertions = rs_assertions x @ rs_assertions y, rs_nodes = rs_nodes x @ rs_nodes y,
             rs_snapshots = rs_snapshots x @ rs_snapshots y\<rparr>, b)))"

definition group_refs :: "(jvalue \<Rightarrow> string) \<Rightarrow> derivation \<Rightarrow> carrier_budget \<Rightarrow> (ref_set \<times> carrier_budget) result" where
  "group_refs js g b =
     rbind (carrier_charge js (json_derivation g) b) (\<lambda>b.
       Ok (\<lparr>rs_assertions = dv_premises g, rs_nodes = dv_nodes g, rs_snapshots = dv_snapshots g\<rparr>, b))"

definition make_group :: "(jvalue \<Rightarrow> string) \<Rightarrow> string \<Rightarrow> ref_set \<Rightarrow> jvalue \<Rightarrow> carrier_budget
    \<Rightarrow> (derivation \<times> carrier_budget) result" where
  "make_group js operator gates parents b =
     rbind (ensure (\<not> flat_empty gates) E_INFLUENCE_EMPTY_GROUP) (\<lambda>_.
     rbind (carrier_charge js (JArr [json_refs gates, json_refs gates, json_refs gates, parents]) b) (\<lambda>b.
       Ok (\<lparr>dv_snapshots = rs_snapshots gates, dv_nodes = rs_nodes gates, dv_operator = operator,
             dv_premises = rs_assertions gates, dv_parameters = [(''inputs'', to_value parents)],
             dv_inputs = canonical_refs snapshot_key
               (map (\<lambda>r. \<lparr>gr_graph = ar_graph r, gr_revision = ar_revision r\<rparr>) (rs_assertions gates)
                @ map (\<lambda>r. \<lparr>gr_graph = nr_graph r, gr_revision = nr_revision r\<rparr>) (rs_nodes gates)
                @ rs_snapshots gates)\<rparr>, b)))"

definition and_operator :: string where
  "and_operator = ''weave:influence:and/v1''"

definition flat_operator :: string where
  "flat_operator = ''weave:influence:flat/v1''"

definition branch_operator :: string where
  "branch_operator = ''weave:influence:branch/v1''"

fun blank :: "jvalue \<Rightarrow> jvalue" where
  "blank (JArr vs) = JArr (map blank vs)"
| "blank (JObj kvs) = JObj (map (\<lambda>(k, v). (k, if k = ''revision'' then JNull else blank v)) kvs)"
| "blank v = v"

definition conjunct_inputs :: "derivation \<Rightarrow> jvalue list" where
  "conjunct_inputs g =
     (case map_of (dv_parameters g) ''inputs'' of
        Some (JArr nested) \<Rightarrow> if dv_operator g = and_operator then nested else [to_value (json_derivation g)]
      | _ \<Rightarrow> [to_value (json_derivation g)])"

text \<open>\<open>dedup_by\<close> equality of a key.\<close>

fun dedup_on :: "('a \<Rightarrow> 'k) \<Rightarrow> 'a list \<Rightarrow> 'a list" where
  "dedup_on key (x # y # ys) = (if key x = key y then dedup_on key (x # ys) else x # dedup_on key (y # ys))"
| "dedup_on key xs = xs"

definition conjuncts :: "(jvalue \<Rightarrow> string) \<Rightarrow> derivation \<Rightarrow> derivation \<Rightarrow> jvalue list" where
  "conjuncts js x y =
     map (snd \<circ> snd)
       (dedup_on (\<lambda>p. fst (snd p))
         (sort_key (\<lambda>p. (fst p, fst (snd p)))
           (map (\<lambda>v. (js (blank v), js v, v)) (conjunct_inputs x @ conjunct_inputs y))))"

text \<open>One pair of the cross product, with the running count of its references.\<close>

definition join_pair :: "(jvalue \<Rightarrow> string) \<Rightarrow> derivation list \<times> nat \<times> carrier_budget \<Rightarrow> derivation \<times> derivation
    \<Rightarrow> (derivation list \<times> nat \<times> carrier_budget) result" where
  "join_pair js s p =
     (case s of (groups, raw, b) \<Rightarrow> case p of (x, y) \<Rightarrow>
        rbind (carrier_step b) (\<lambda>b.
        rbind (ok_or (Option.bind (usize_add raw (group_count x)) (\<lambda>n. usize_add n (group_count y))) E_INFLUENCE_BUDGET) (\<lambda>raw.
        rbind (ensure (raw \<le> cl_references (cb_limits b)) E_INFLUENCE_BUDGET) (\<lambda>_.
        rbind (group_refs js x b) (\<lambda>(xr, b).
        rbind (group_refs js y b) (\<lambda>(yr, b).
        rbind (combine_refs js xr yr b) (\<lambda>(gates, b).
        rbind (make_group js and_operator gates (JArr (conjuncts js x y)) b) (\<lambda>(g, b).
          Ok (groups @ [g], raw, b)))))))))"

definition join_alternatives :: "(jvalue \<Rightarrow> string) \<Rightarrow> ref_set \<Rightarrow> derivation list \<Rightarrow> derivation list \<Rightarrow> carrier_budget
    \<Rightarrow> (derivation list \<times> carrier_budget) result" where
  "join_alternatives js flat xs ys b =
     (if xs = [] then rbind (carrier_charge js (JArr (map json_derivation ys)) b) (\<lambda>b. Ok (ys, b))
      else if ys = [] then rbind (carrier_charge js (JArr (map json_derivation xs)) b) (\<lambda>b. Ok (xs, b))
      else
        rbind (ensure (case usize_mul (length xs) (length ys) of None \<Rightarrow> False | Some n \<Rightarrow> n \<le> cl_groups (cb_limits b))
          E_INFLUENCE_BUDGET) (\<lambda>_.
        rbind (ok_or
            (Option.bind (usize_mul (sum_list (map group_count xs)) (length ys)) (\<lambda>n.
             Option.bind (usize_mul (sum_list (map group_count ys)) (length xs)) (\<lambda>m.
             Option.bind (usize_add n m) (\<lambda>n. usize_add n (refs_count flat))))) E_INFLUENCE_BUDGET) (\<lambda>total.
        rbind (ensure (total \<le> cl_references (cb_limits b)) E_INFLUENCE_BUDGET) (\<lambda>_.
        rbind (try_fold (join_pair js) ([], refs_count flat, b) (List.product xs ys)) (\<lambda>(groups, _, b).
          Ok (groups, b))))))"

definition conjunction :: "(jvalue \<Rightarrow> string) \<Rightarrow> carrier \<Rightarrow> carrier \<Rightarrow> carrier_budget \<Rightarrow> (carrier \<times> carrier_budget) result" where
  "conjunction js x y b =
     rbind (canonicalize js x b) (\<lambda>(x, b).
     rbind (canonicalize js y b) (\<lambda>(y, b).
       if x = y then Ok (x, b)
       else
         rbind (combine_refs js (ca_flat x) (ca_flat y) b) (\<lambda>(flat, b).
         rbind (join_alternatives js flat (ca_alternatives x) (ca_alternatives y) b) (\<lambda>(alternatives, b).
           canonicalize js \<lparr>ca_flat = flat, ca_alternatives = alternatives\<rparr> b))))"

definition expanded_refs :: "carrier \<Rightarrow> nat option" where
  "expanded_refs c =
     Option.bind (usize_mul (refs_count (ca_flat c)) (max (length (ca_alternatives c)) 1))
       (\<lambda>n. usize_add n (sum_list (map group_count (ca_alternatives c))))"

definition add_branch :: "(jvalue \<Rightarrow> string) \<Rightarrow> ref_set \<Rightarrow> derivation list \<times> carrier_budget \<Rightarrow> derivation
    \<Rightarrow> (derivation list \<times> carrier_budget) result" where
  "add_branch js flat s g =
     (case s of (out, b) \<Rightarrow>
        rbind (group_refs js g b) (\<lambda>(refs, b).
        rbind (combine_refs js flat refs b) (\<lambda>(gates, b).
        rbind (make_group js branch_operator gates (JArr [json_refs flat, json_derivation g]) b) (\<lambda>(h, b).
          Ok (out @ [h], b)))))"

definition branches :: "(jvalue \<Rightarrow> string) \<Rightarrow> carrier \<Rightarrow> carrier_budget \<Rightarrow> (derivation list \<times> carrier_budget) result" where
  "branches js c b =
     rbind (ok_or (expanded_refs c) E_INFLUENCE_BUDGET) (\<lambda>raw.
     rbind (ensure (raw \<le> cl_references (cb_limits b)) E_INFLUENCE_BUDGET) (\<lambda>_.
       if ca_alternatives c = [] then
         rbind (carrier_charge js (json_refs (ca_flat c)) b) (\<lambda>b.
         rbind (make_group js flat_operator (ca_flat c) (json_refs (ca_flat c)) b) (\<lambda>(g, b). Ok ([g], b)))
       else try_fold (add_branch js (ca_flat c)) ([], b) (ca_alternatives c)))"

definition distribute :: "(jvalue \<Rightarrow> string) \<Rightarrow> carrier \<Rightarrow> carrier \<Rightarrow> carrier_budget \<Rightarrow> (carrier \<times> carrier_budget) result" where
  "distribute js branch flat b =
     rbind (conjunction js branch flat b) (\<lambda>(joined, b).
     rbind (branches js joined b) (\<lambda>(alternatives, b).
       canonicalize js \<lparr>ca_flat = no_refs, ca_alternatives = alternatives\<rparr> b))"

definition disjunction :: "(jvalue \<Rightarrow> string) \<Rightarrow> carrier \<Rightarrow> carrier \<Rightarrow> carrier_budget \<Rightarrow> (carrier \<times> carrier_budget) result" where
  "disjunction js x y b =
     rbind (canonicalize js x b) (\<lambda>(x, b).
     rbind (canonicalize js y b) (\<lambda>(y, b).
       if unconditional x \<or> unconditional y then
         if unconditional x \<and> unconditional y then Ok (no_carrier, b) else Err E_INFLUENCE_DISJUNCTION_PROFILE
       else
         rbind (ok_or (usize_add (max (length (ca_alternatives x)) 1) (max (length (ca_alternatives y)) 1)) E_INFLUENCE_BUDGET) (\<lambda>count.
         rbind (ensure (count \<le> cl_groups (cb_limits b)) E_INFLUENCE_BUDGET) (\<lambda>_.
         rbind (ok_or (Option.bind (expanded_refs x) (\<lambda>n. Option.bind (expanded_refs y) (\<lambda>m. usize_add n m))) E_INFLUENCE_BUDGET) (\<lambda>total.
         rbind (ensure (total \<le> cl_references (cb_limits b)) E_INFLUENCE_BUDGET) (\<lambda>_.
         rbind (branches js x b) (\<lambda>(left, b).
         rbind (branches js y b) (\<lambda>(right, b).
           canonicalize js \<lparr>ca_flat = no_refs, ca_alternatives = left @ right\<rparr> b))))))))"

section \<open>Influence of a graph\<close>

record influence =
  in_derivations :: "derivation list"
  in_assertions :: "assertion_ref list"
  in_nodes :: "node_ref list"
  in_snapshots :: "graph_ref list"

definition no_influence :: influence where
  "no_influence = \<lparr>in_derivations = [], in_assertions = [], in_nodes = [], in_snapshots = []\<rparr>"

definition from_parts :: "(jvalue \<Rightarrow> string) \<Rightarrow> assertion_ref list \<Rightarrow> node_ref list \<Rightarrow> graph_ref list \<Rightarrow> derivation list
    \<Rightarrow> carrier_budget \<Rightarrow> (carrier \<times> carrier_budget) result" where
  "from_parts js assertions nodes snapshots groups b =
     rbind (ensure (length groups \<le> cl_groups (cb_limits b)
        \<and> saturating_add (saturating_add (saturating_add (length assertions) (length nodes)) (length snapshots))
            (sum_list (map group_count groups)) \<le> cl_references (cb_limits b)) E_INFLUENCE_BUDGET) (\<lambda>_.
     rbind (carrier_charge js (JArr [JArr (map json_assertion assertions), JArr (map json_node nodes),
        JArr (map json_snapshot snapshots), JArr (map json_derivation groups)]) b) (\<lambda>b.
     let out = \<lparr>ca_flat = \<lparr>rs_assertions = assertions, rs_nodes = nodes, rs_snapshots = snapshots\<rparr>,
       ca_alternatives = groups\<rparr> in
     rbind (carrier_validate js out b) (\<lambda>b. Ok (out, b))))"

definition from_influence :: "(jvalue \<Rightarrow> string) \<Rightarrow> influence \<Rightarrow> carrier_budget \<Rightarrow> (carrier \<times> carrier_budget) result" where
  "from_influence js i b = from_parts js (in_assertions i) (in_nodes i) (in_snapshots i) (in_derivations i) b"

definition into_influence :: "carrier \<Rightarrow> influence" where
  "into_influence c =
     \<lparr>in_derivations = ca_alternatives c, in_assertions = rs_assertions (ca_flat c), in_nodes = rs_nodes (ca_flat c),
      in_snapshots = rs_snapshots (ca_flat c)\<rparr>"

text \<open>All assertion leaves, for descriptive indexes.\<close>

definition assertion_index :: "influence \<Rightarrow> assertion_ref list" where
  "assertion_index i = canonical_refs assertion_key (in_assertions i @ concat (map dv_premises (in_derivations i)))"

definition influence_validate :: "(jvalue \<Rightarrow> string) \<Rightarrow> influence \<Rightarrow> unit result" where
  "influence_validate js i =
     rbind (validate_record_refs (in_assertions i) (in_nodes i) (in_snapshots i)) (\<lambda>_.
       if in_derivations i = [] then Ok ()
       else rbind (from_influence js i (budget_new default_limits)) (\<lambda>_. Ok ()))"

text \<open>
  One list of references merged into another: a reference whose key is new is appended, and then
  the number of distinct keys of all three kinds is checked. The keys are the whole reference, so
  the set of keys is the list so far.
\<close>

definition merge_refs :: "nat \<Rightarrow> 'r list \<Rightarrow> 'r list \<Rightarrow> 'r list result" where
  "merge_refs others out refs =
     try_fold (\<lambda>out r. if r \<in> set out then Ok out
        else rbind (ensure (length out + 1 + others \<le> max_references) E_BUDGET) (\<lambda>_. Ok (out @ [r]))) out refs"

definition merge_flat :: "influence \<Rightarrow> influence \<Rightarrow> influence result" where
  "merge_flat out i =
     rbind (merge_refs (length (in_nodes out) + length (in_snapshots out)) (in_assertions out) (in_assertions i)) (\<lambda>as.
     rbind (merge_refs (length as + length (in_snapshots out)) (in_nodes out) (in_nodes i)) (\<lambda>ns.
     rbind (merge_refs (length as + length ns) (in_snapshots out) (in_snapshots i)) (\<lambda>ss.
       Ok (out\<lparr>in_assertions := as, in_nodes := ns, in_snapshots := ss\<rparr>))))"

definition influence_canonicalize :: "influence \<Rightarrow> influence" where
  "influence_canonicalize i =
     i\<lparr>in_assertions := canonical_refs assertion_key (in_assertions i), in_nodes := canonical_refs node_key (in_nodes i),
       in_snapshots := canonical_refs snapshot_key (in_snapshots i)\<rparr>"

definition optional_carrier :: "(jvalue \<Rightarrow> string) \<Rightarrow> influence option \<Rightarrow> carrier_budget \<Rightarrow> (carrier \<times> carrier_budget) result" where
  "optional_carrier js i b = (case i of None \<Rightarrow> Ok (no_carrier, b) | Some i \<Rightarrow> from_influence js i b)"

definition influence_merge :: "(jvalue \<Rightarrow> string) \<Rightarrow> influence option \<Rightarrow> influence option \<Rightarrow> influence option result" where
  "influence_merge js left right =
     (let both = (case left of None \<Rightarrow> [] | Some i \<Rightarrow> [i]) @ (case right of None \<Rightarrow> [] | Some i \<Rightarrow> [i]) in
      rbind (check_each (influence_validate js) both) (\<lambda>_.
        if both = [] then Ok None
        else if list_ex (\<lambda>i. in_derivations i \<noteq> []) both then
          rbind (optional_carrier js left (budget_new default_limits)) (\<lambda>(x, b).
          rbind (optional_carrier js right b) (\<lambda>(y, b).
          rbind (conjunction js x y b) (\<lambda>(c, _). Ok (Some (into_influence c)))))
        else rbind (try_fold merge_flat no_influence both) (\<lambda>out. Ok (Some (influence_canonicalize out)))))"

end
