(* ===== verification/Context_Model.thy ===== *)
theory Context_Model
  imports Carrier_Model Decimal
begin

text \<open>
  The context of claims (\<open>weave-contract/src/context_types.rs\<close>, \<open>context.rs\<close>): a claim is in one exact
  context or in none, and an operation consumes it only under the selection of that context.
\<close>

text \<open>What the components are given: the text of a JSON value, and the SHA-256 digest of a text in hexadecimal.\<close>

record codec =
  cd_js :: "jvalue \<Rightarrow> string"
  cd_sha :: "string \<Rightarrow> string"

datatype context_selection = DefaultContext | Pinned graph_ref

fun reference :: "context_selection \<Rightarrow> graph_ref option" where
  "reference DefaultContext = None"
| "reference (Pinned r) = Some r"

definition validate_selection :: "context_selection \<Rightarrow> unit result" where
  "validate_selection s =
     (case reference s of
        None \<Rightarrow> Ok ()
      | Some r \<Rightarrow>
          if list_ex (\<lambda>t. t = [] \<or> length t > 512 \<or> has_control t) [gr_graph r, gr_revision r]
          then Err E_CONTEXT_REFERENCE else Ok ())"

definition ensure_consumable :: "context_selection option \<Rightarrow> graph_ref option \<Rightarrow> unit result" where
  "ensure_consumable selection claim =
     (case selection of
        None \<Rightarrow> if claim \<noteq> None then Err E_CONTEXT_REQUIRED else Ok ()
      | Some scope \<Rightarrow> if reference scope \<noteq> claim then Err E_CONTEXT_SCOPE else Ok ())"

definition compatible_context :: "context_selection option \<Rightarrow> context_selection option \<Rightarrow> context_selection option result" where
  "compatible_context left right =
     (if (case left of None \<Rightarrow> DefaultContext | Some l \<Rightarrow> l) \<noteq> (case right of None \<Rightarrow> DefaultContext | Some r \<Rightarrow> r)
      then Err E_CONTEXT_INCOMPATIBLE
      else Ok (case left of None \<Rightarrow> right | Some l \<Rightarrow> Some l))"

text \<open>The text of an integer.\<close>

definition json_int :: "int \<Rightarrow> jvalue" where
  "json_int n = JNum (if n < 0 then CHR ''-'' # show_nat (nat (- n)) else show_nat (nat n))"

definition json_context :: "context_selection \<Rightarrow> jvalue" where
  "json_context s =
     (case s of
        DefaultContext \<Rightarrow> JObj [(''kind'', JStr ''default'')]
      | Pinned r \<Rightarrow> JObj [(''kind'', JStr ''pinned''), (''reference'', json_snapshot r)])"

end
