(* ===== verification/Rules_Model.thy ===== *)
theory Rules_Model
  imports Context_Model
begin

text \<open>
  Finite rules (\<open>weave-contract/src/rules_types.rs\<close> and \<open>rules.rs\<close>): their validation, and the saturation
  of a set of facts under them with its proofs, traces and budgets. The text of a record is the
  parameter \<open>js\<close> of the theory on restrictions, its SHA-256 digest the parameter \<open>sha\<close>.
\<close>

section \<open>Rules\<close>

datatype rule_term = Variable string | NodeConst string

record rule_atom =
  ra_predicate :: string
  ra_from :: rule_term
  ra_to :: rule_term
  ra_negative :: bool

record rule =
  ru_id :: string
  ru_head :: rule_atom
  ru_body :: "rule_atom list"
  ru_cross_space :: bool

record rule_set =
  rl_id :: string
  rl_revision :: string
  rl_rules :: "rule list"

record rule_budget =
  rb_steps :: nat
  rb_rounds :: nat
  rb_facts :: nat
  rb_derivations :: nat

definition rule_name :: "string \<Rightarrow> bool" where
  "rule_name s \<longleftrightarrow> s \<noteq> [] \<and> length s \<le> 256 \<and> \<not> has_control s"

fun term_variables :: "rule_term \<Rightarrow> string list" where
  "term_variables (Variable x) = [x]"
| "term_variables (NodeConst i) = []"

fun term_text :: "rule_term \<Rightarrow> string" where
  "term_text (Variable x) = x"
| "term_text (NodeConst i) = i"

definition atom_variables :: "rule_atom \<Rightarrow> string list" where
  "atom_variables a = term_variables (ra_from a) @ term_variables (ra_to a)"

definition atom_errors :: "rule_atom \<Rightarrow> error_code list" where
  "atom_errors a =
     (if rule_name (ra_predicate a) then [] else [E_RULE_ID])
     @ concat (map (\<lambda>t. if rule_name (term_text t) then [] else [E_RULE_ID]) [ra_from a, ra_to a])"

definition rule_errors :: "rule \<Rightarrow> error_code list" where
  "rule_errors r =
     (if ru_body r = [] \<or> length (ru_body r) > 8 then [E_RULE_SHAPE]
      else
        let vars = fold bs_insert (concat (map atom_variables (ru_body r))) [] in
        (if length vars > 16 then [E_RULE_SHAPE] else [])
        @ concat (map (\<lambda>x. if x \<in> set vars then [] else [E_RULE_RANGE]) (atom_variables (ru_head r)))
        @ concat (map atom_errors (ru_body r @ [ru_head r])))"

definition rule_turn :: "string btree_set \<times> error_code list \<Rightarrow> rule \<Rightarrow> string btree_set \<times> error_code list" where
  "rule_turn s r =
     (case s of (names, errs) \<Rightarrow>
        if rule_name (ru_id r) \<and> ru_id r \<notin> set names
        then (bs_insert (ru_id r) names, errs @ rule_errors r)
        else (names, errs @ [E_RULE_ID] @ rule_errors r))"

definition validate_rule_set :: "rule_set \<Rightarrow> error_code list" where
  "validate_rule_set s =
     (if rule_name (rl_id s) \<and> rule_name (rl_revision s) then [] else [E_RULE_ID])
     @ (if rl_rules s = [] \<or> length (rl_rules s) > 64 then [E_RULE_SHAPE]
        else snd (foldl rule_turn ([], []) (rl_rules s)))"

section \<open>Facts and proofs\<close>

datatype rule_fact =
  FactKey (fk_predicate: string) (fk_from: string) (fk_to: string) (fk_negative: bool) (fk_start: int) (fk_end: "int option")

definition fact_rank :: "rule_fact \<Rightarrow> string \<times> string \<times> string \<times> bool \<times> int \<times> int option" where
  "fact_rank f = (fk_predicate f, fk_from f, fk_to f, fk_negative f, fk_start f, fk_end f)"

lemma fact_rank_inject: "fact_rank f = fact_rank g \<longleftrightarrow> f = g"
  by (cases f; cases g) (simp add: fact_rank_def)

instantiation rule_fact :: linorder
begin

definition less_eq_rule_fact :: "rule_fact \<Rightarrow> rule_fact \<Rightarrow> bool" where
  "less_eq_rule_fact f g \<longleftrightarrow> fact_rank f \<le> fact_rank g"

definition less_rule_fact :: "rule_fact \<Rightarrow> rule_fact \<Rightarrow> bool" where
  "less_rule_fact f g \<longleftrightarrow> fact_rank f < fact_rank g"

instance
  by standard
    (simp_all add: less_eq_rule_fact_def less_rule_fact_def less_le_not_le linear flip: fact_rank_inject)

end

type_synonym bindings = "(string, string) btree_map"

record trace =
  tr_module :: string
  tr_revision :: string
  tr_rule :: string
  tr_bindings :: bindings
  tr_premises :: "rule_fact list"
  tr_conclusion :: rule_fact

record rule_proof =
  pf_leaves :: "assertion_ref list"
  pf_nodes :: "node_ref list"
  pf_snapshots :: "graph_ref list"
  pf_trace :: "(string, trace) btree_map"
  pf_external :: "(string, derivation) btree_map"
  pf_contextual :: bool

definition empty_proof :: rule_proof where
  "empty_proof = \<lparr>pf_leaves = [], pf_nodes = [], pf_snapshots = [], pf_trace = [], pf_external = [], pf_contextual = False\<rparr>"

record rule_state =
  rs_bindings :: bindings
  rs_start :: int
  rs_end :: "int option"
  rs_proof :: rule_proof
  rs_body :: "rule_fact list"

type_synonym proofs = "(string, rule_proof) btree_map"
type_synonym facts = "(rule_fact, proofs) btree_map"

text \<open>The module, the trusted bounds, the spaces of the nodes, and the two parameters.\<close>

record rule_run =
  rr_set :: rule_set
  rr_budget :: rule_budget
  rr_objects :: nat
  rr_bytes :: nat
  rr_spaces :: "(string, string) btree_map"
  rr_js :: "jvalue \<Rightarrow> string"
  rr_sha :: "string \<Rightarrow> string"

section \<open>Serialisation\<close>

definition json_fact :: "rule_fact \<Rightarrow> jvalue" where
  "json_fact f = JObj [(''predicate'', JStr (fk_predicate f)), (''from'', JStr (fk_from f)), (''to'', JStr (fk_to f)),
     (''negative'', JBool (fk_negative f)), (''start'', json_int (fk_start f)),
     (''end'', case fk_end f of None \<Rightarrow> JNull | Some n \<Rightarrow> json_int n)]"

definition json_bindings :: "bindings \<Rightarrow> jvalue" where
  "json_bindings b = JObj (map (\<lambda>(x, v). (x, JStr v)) b)"

definition json_trace :: "trace \<Rightarrow> jvalue" where
  "json_trace t = JObj [(''module'', JStr (tr_module t)), (''revision'', JStr (tr_revision t)), (''rule'', JStr (tr_rule t)),
     (''bindings'', json_bindings (tr_bindings t)), (''premises'', JArr (map json_fact (tr_premises t))),
     (''conclusion'', json_fact (tr_conclusion t))]"

definition json_proof :: "rule_proof \<Rightarrow> jvalue" where
  "json_proof p = JObj
     ([(''leaves'', JArr (map json_assertion (pf_leaves p))), (''nodes'', JArr (map json_node (pf_nodes p)))]
      @ (if pf_snapshots p = [] then [] else [(''snapshots'', JArr (map json_snapshot (pf_snapshots p)))])
      @ [(''trace'', JObj (map (\<lambda>(k, t). (k, json_trace t)) (pf_trace p))),
         (''external'', JObj (map (\<lambda>(k, d). (k, json_derivation d)) (pf_external p))),
         (''contextual'', JBool (pf_contextual p))])"

definition json_state :: "rule_state \<Rightarrow> jvalue" where
  "json_state s = JObj [(''bindings'', json_bindings (rs_bindings s)), (''start'', json_int (rs_start s)),
     (''end'', case rs_end s of None \<Rightarrow> JNull | Some n \<Rightarrow> json_int n), (''proof'', json_proof (rs_proof s)),
     (''body'', JArr (map json_fact (rs_body s)))]"

section \<open>Budgets and keys\<close>

definition digest :: "rule_run \<Rightarrow> jvalue \<Rightarrow> string" where
  "digest c v = rr_sha c (rr_js c v)"

definition rule_charge :: "rule_run \<Rightarrow> nat \<Rightarrow> jvalue \<Rightarrow> nat result" where
  "rule_charge c remaining v = ok_or (checked_sub remaining (length (rr_js c v))) E_RULE_BUDGET"

definition tick :: "rule_run \<Rightarrow> nat \<Rightarrow> nat result" where
  "tick c steps =
     (case usize_add steps 1 of
        None \<Rightarrow> Err E_RULE_BUDGET
      | Some n \<Rightarrow> if n \<le> rb_steps (rr_budget c) then Ok n else Err E_RULE_BUDGET)"

definition support_key :: "rule_run \<Rightarrow> rule_proof \<Rightarrow> string" where
  "support_key c p =
     (if pf_snapshots p = [] then
        digest c (JArr [JArr (map json_assertion (pf_leaves p)), JArr (map json_node (pf_nodes p)), JBool (pf_contextual p)])
      else
        digest c (JArr [JArr (map json_assertion (pf_leaves p)), JArr (map json_node (pf_nodes p)),
          JArr (map json_snapshot (pf_snapshots p)), JBool (pf_contextual p)]))"

text \<open>The proofs of a fact by their records without revisions, then by key.\<close>

definition visit_text :: "rule_run \<Rightarrow> rule_proof \<Rightarrow> string" where
  "visit_text c p = rr_js c (JArr
     [JArr (map (\<lambda>r. JArr [JStr (ar_graph r), JStr (ar_assertion r)]) (pf_leaves p)),
      JArr (map (\<lambda>r. JArr [JStr (nr_graph r), JStr (nr_node r)]) (pf_nodes p)),
      JArr (map (\<lambda>r. JStr (gr_graph r)) (pf_snapshots p)), JBool (pf_contextual p)])"

definition visit_order :: "rule_run \<Rightarrow> proofs \<Rightarrow> rule_proof list" where
  "visit_order c ps = map snd (sort_key (\<lambda>(k, p). (visit_text c p, k)) ps)"

definition insert_fact :: "rule_run \<Rightarrow> facts \<Rightarrow> rule_fact \<Rightarrow> rule_proof \<Rightarrow> nat \<Rightarrow> (bool \<times> facts \<times> nat) result" where
  "insert_fact c facts f p remaining =
     rbind (validate_record_refs (pf_leaves p) (pf_nodes p) (pf_snapshots p)) (\<lambda>_.
       let key = support_key c p; old = (case map_of facts f of None \<Rightarrow> [] | Some ps \<Rightarrow> ps) in
       if map_of old key \<noteq> None then Ok (False, facts, remaining)
       else if map_of facts f = None \<and> length facts \<ge> rb_facts (rr_budget c) then Err E_RULE_BUDGET
       else if length old \<ge> min (rb_derivations (rr_budget c)) 128 then Err E_RULE_BUDGET
       else
         rbind (rule_charge c remaining (JArr [json_fact f, json_proof p])) (\<lambda>remaining.
           Ok (True, bm_insert f (bm_insert key p old) facts, remaining)))"

section \<open>Matching\<close>

definition match_term :: "rule_term \<Rightarrow> string \<Rightarrow> bindings \<Rightarrow> bindings option" where
  "match_term t i b =
     (case t of
        NodeConst k \<Rightarrow> if k = i then Some b else None
      | Variable x \<Rightarrow> (case map_of b x of None \<Rightarrow> Some (bm_insert x i b) | Some v \<Rightarrow> if v = i then Some b else None))"

definition atom_matches :: "rule_atom \<Rightarrow> rule_fact \<Rightarrow> bindings \<Rightarrow> bindings option" where
  "atom_matches a f b =
     (if ra_predicate a \<noteq> fk_predicate f \<or> ra_negative a \<noteq> fk_negative f then None
      else Option.bind (match_term (ra_from a) (fk_from f) b) (match_term (ra_to a) (fk_to f)))"

text \<open>A variable of the head is bound, as a validated rule has it in its body; indexing would panic.\<close>

definition endpoint :: "rule_term \<Rightarrow> bindings \<Rightarrow> string" where
  "endpoint t b = (case t of NodeConst i \<Rightarrow> i | Variable x \<Rightarrow> the (map_of b x))"

definition end_intersection :: "int option \<Rightarrow> int option \<Rightarrow> int option" where
  "end_intersection a b =
     (case (a, b) of (Some x, Some y) \<Rightarrow> Some (min x y) | (None, y) \<Rightarrow> y | (x, None) \<Rightarrow> x)"

text \<open>The interval of a state and a fact, unless it is empty.\<close>

definition next_interval :: "rule_state \<Rightarrow> rule_fact \<Rightarrow> (int \<times> int option) option" where
  "next_interval s f =
     (let start = max (rs_start s) (fk_start f); end = end_intersection (rs_end s) (fk_end f) in
      if (case end of None \<Rightarrow> False | Some e \<Rightarrow> start \<ge> e) then None else Some (start, end))"

definition proof_influence :: "rule_proof \<Rightarrow> influence" where
  "proof_influence p = \<lparr>in_derivations = [], in_assertions = pf_leaves p, in_nodes = pf_nodes p, in_snapshots = pf_snapshots p\<rparr>"

definition bm_extend :: "('k::linorder, 'v) btree_map \<Rightarrow> ('k, 'v) btree_map \<Rightarrow> ('k, 'v) btree_map" where
  "bm_extend m n = fold (\<lambda>(k, v). bm_insert k v) n m"

definition merge_proofs :: "rule_run \<Rightarrow> rule_proof \<Rightarrow> rule_proof \<Rightarrow> rule_proof result" where
  "merge_proofs c l r =
     rbind (influence_merge (rr_js c) (Some (proof_influence l)) (Some (proof_influence r))) (\<lambda>g.
       let gates = the g in
       Ok \<lparr>pf_leaves = in_assertions gates, pf_nodes = in_nodes gates, pf_snapshots = in_snapshots gates,
           pf_trace = bm_extend (pf_trace l) (pf_trace r), pf_external = bm_extend (pf_external l) (pf_external r),
           pf_contextual = (pf_contextual l \<or> pf_contextual r)\<rparr>)"

text \<open>A state extended by a fact and one of its proofs: the candidate of the inner loop.\<close>

definition candidate :: "rule_run \<Rightarrow> rule_state \<Rightarrow> rule_fact \<Rightarrow> bindings \<Rightarrow> int \<times> int option \<Rightarrow> rule_proof \<Rightarrow> rule_state result" where
  "candidate c s f b i p =
     (if pf_contextual p then Err E_CONTEXT_REQUIRED
      else
        rbind (merge_proofs c (rs_proof s) p) (\<lambda>m.
          Ok \<lparr>rs_bindings = b, rs_start = fst i, rs_end = snd i, rs_proof = m, rs_body = rs_body s @ [f]\<rparr>))"

type_synonym matching = "rule_state list \<times> nat \<times> nat"

definition match_proof :: "rule_run \<Rightarrow> rule_state \<Rightarrow> rule_fact \<Rightarrow> bindings \<Rightarrow> int \<times> int option \<Rightarrow> matching \<Rightarrow> rule_proof
    \<Rightarrow> matching result" where
  "match_proof c s f b i acc p =
     (case acc of (found, bytes, steps) \<Rightarrow>
        rbind (tick c steps) (\<lambda>steps.
        rbind (candidate c s f b i p) (\<lambda>s'.
        rbind (ensure (length found < rr_objects c) E_RULE_BUDGET) (\<lambda>_.
        rbind (rule_charge c bytes (json_state s')) (\<lambda>bytes.
          Ok (found @ [s'], bytes, steps))))))"

definition match_fact :: "rule_run \<Rightarrow> rule_atom \<Rightarrow> rule_state \<Rightarrow> matching \<Rightarrow> rule_fact \<times> proofs \<Rightarrow> matching result" where
  "match_fact c a s acc entry =
     (case acc of (found, bytes, steps) \<Rightarrow> case entry of (f, ps) \<Rightarrow>
        rbind (tick c steps) (\<lambda>steps.
          case atom_matches a f (rs_bindings s) of
            None \<Rightarrow> Ok (found, bytes, steps)
          | Some b \<Rightarrow>
              (case next_interval s f of
                 None \<Rightarrow> Ok (found, bytes, steps)
               | Some i \<Rightarrow> try_fold (match_proof c s f b i) (found, bytes, steps) (visit_order c ps))))"

definition match_atom :: "rule_run \<Rightarrow> facts \<Rightarrow> rule_atom \<Rightarrow> rule_state list \<Rightarrow> nat \<Rightarrow> (rule_state list \<times> nat) result" where
  "match_atom c snapshot a states steps =
     rbind (try_fold (\<lambda>acc s. try_fold (match_fact c a s) acc snapshot) ([], rr_bytes c, steps) states)
       (\<lambda>(found, _, steps). Ok (found, steps))"

fun match_body :: "rule_run \<Rightarrow> facts \<Rightarrow> rule_atom list \<Rightarrow> rule_state list \<Rightarrow> nat \<Rightarrow> (rule_state list \<times> nat) result" where
  "match_body c snapshot [] states steps = Ok (states, steps)"
| "match_body c snapshot (a # as) states steps =
     rbind (match_atom c snapshot a states steps) (\<lambda>(found, steps).
       if found = [] then Ok ([], steps) else match_body c snapshot as found steps)"

section \<open>Saturation\<close>

definition head_fact :: "rule \<Rightarrow> bindings \<Rightarrow> int \<Rightarrow> int option \<Rightarrow> rule_fact" where
  "head_fact r b start end =
     FactKey (ra_predicate (ru_head r)) (endpoint (ra_from (ru_head r)) b) (endpoint (ra_to (ru_head r)) b)
       (ra_negative (ru_head r)) start end"

definition rule_trace :: "rule_run \<Rightarrow> rule \<Rightarrow> rule_state \<Rightarrow> rule_fact \<Rightarrow> trace" where
  "rule_trace c r s f = \<lparr>tr_module = rl_id (rr_set c), tr_revision = rl_revision (rr_set c), tr_rule = ru_id r,
     tr_bindings = rs_bindings s, tr_premises = rs_body s, tr_conclusion = f\<rparr>"

record progress =
  pg_facts :: facts
  pg_bytes :: nat
  pg_steps :: nat
  pg_changed :: bool

definition conclude :: "rule_run \<Rightarrow> rule \<Rightarrow> progress \<Rightarrow> rule_state \<Rightarrow> progress result" where
  "conclude c r g s =
     rbind (tick c (pg_steps g)) (\<lambda>steps.
       let f = head_fact r (rs_bindings s) (rs_start s) (rs_end s); g = g\<lparr>pg_steps := steps\<rparr> in
       rbind (ensure (ru_cross_space r \<or> map_of (rr_spaces c) (fk_from f) = map_of (rr_spaces c) (fk_to f)) E_RULE_SPACE) (\<lambda>_.
         if (case map_of (pg_facts g) f of None \<Rightarrow> False | Some ps \<Rightarrow> map_of ps (support_key c (rs_proof s)) \<noteq> None) then Ok g
         else
           let t = rule_trace c r s f;
             p = (rs_proof s)\<lparr>pf_trace := bm_insert (digest c (json_trace t)) t (pf_trace (rs_proof s))\<rparr> in
           rbind (ensure (length (pf_trace p) \<le> rr_objects c) E_RULE_BUDGET) (\<lambda>_.
           rbind (insert_fact c (pg_facts g) f p (pg_bytes g)) (\<lambda>(new, facts, bytes).
             Ok (g\<lparr>pg_facts := facts, pg_bytes := bytes, pg_changed := (pg_changed g \<or> new)\<rparr>)))))"

definition initial_state :: rule_state where
  "initial_state = \<lparr>rs_bindings = [], rs_start = i64_min, rs_end = None, rs_proof = empty_proof, rs_body = []\<rparr>"

definition apply_rule :: "rule_run \<Rightarrow> facts \<Rightarrow> progress \<Rightarrow> rule \<Rightarrow> progress result" where
  "apply_rule c snapshot g r =
     rbind (match_body c snapshot (ru_body r) [initial_state] (pg_steps g)) (\<lambda>(states, steps).
       try_fold (conclude c r) (g\<lparr>pg_steps := steps\<rparr>) states)"

definition rule_round :: "rule_run \<Rightarrow> progress \<Rightarrow> progress result" where
  "rule_round c g = try_fold (apply_rule c (pg_facts g)) (g\<lparr>pg_changed := False\<rparr>) (rl_rules (rr_set c))"

fun rule_rounds :: "nat \<Rightarrow> rule_run \<Rightarrow> progress \<Rightarrow> facts result" where
  "rule_rounds 0 c g = Err E_RULE_BUDGET"
| "rule_rounds (Suc n) c g =
     rbind (rule_round c g) (\<lambda>g'. if pg_changed g' then rule_rounds n c g' else Ok (pg_facts g'))"

text \<open>The facts of the input with their proofs, and the saturation of them.\<close>

definition add_source :: "rule_run \<Rightarrow> facts \<times> nat \<Rightarrow> rule_fact \<times> rule_proof \<Rightarrow> (facts \<times> nat) result" where
  "add_source c s fp =
     (case s of (facts, bytes) \<Rightarrow> rbind (insert_fact c facts (fst fp) (snd fp) bytes) (\<lambda>(_, facts, bytes). Ok (facts, bytes)))"

definition saturate :: "rule_run \<Rightarrow> (rule_fact \<times> rule_proof) list \<Rightarrow> facts result" where
  "saturate c sources =
     rbind (try_fold (add_source c) ([], rr_bytes c) sources) (\<lambda>(facts, bytes).
       rule_rounds (rb_rounds (rr_budget c)) c
         \<lparr>pg_facts = facts, pg_bytes = bytes, pg_steps = 0, pg_changed = False\<rparr>)"

text \<open>The constants of the rules name nodes of the input.\<close>

definition term_in_domain :: "rule_run \<Rightarrow> rule_term \<Rightarrow> bool" where
  "term_in_domain c t = (case t of Variable _ \<Rightarrow> True | NodeConst i \<Rightarrow> map_of (rr_spaces c) i \<noteq> None)"

definition check_domain :: "rule_run \<Rightarrow> unit result" where
  "check_domain c =
     ensure (list_all (\<lambda>r. list_all (\<lambda>a. term_in_domain c (ra_from a) \<and> term_in_domain c (ra_to a))
       (ru_body r @ [ru_head r])) (rl_rules (rr_set c))) E_RULE_DOMAIN"

definition reason_facts :: "rule_run \<Rightarrow> (rule_fact \<times> rule_proof) list \<Rightarrow> facts result" where
  "reason_facts c sources =
     (case validate_rule_set (rr_set c) of
        e # _ \<Rightarrow> Err e
      | [] \<Rightarrow> rbind (check_domain c) (\<lambda>_. saturate c sources))"

end
