(* ===== verification/Carrier_Theorems.thy ===== *)
theory Carrier_Theorems
  imports Carrier_Model "HOL-Library.Code_Target_Numeral"
begin

text \<open>
  What the compositions of restrictions mean: a reader who holds a set of grants passes a conjunction
  exactly when they pass both sides, a disjunction exactly when they pass one of them. The results
  are canonical and within the limits.
\<close>

section \<open>Grants\<close>

type_synonym grants = "assertion_ref set \<times> node_ref set \<times> graph_ref set"

fun refs_granted :: "grants \<Rightarrow> ref_set \<Rightarrow> bool" where
  "refs_granted (A, N, S) r \<longleftrightarrow> set (rs_assertions r) \<subseteq> A \<and> set (rs_nodes r) \<subseteq> N \<and> set (rs_snapshots r) \<subseteq> S"

declare split_paired_All [simp del] split_paired_Ex [simp del]

definition group_set :: "derivation \<Rightarrow> ref_set" where
  "group_set g = \<lparr>rs_assertions = dv_premises g, rs_nodes = dv_nodes g, rs_snapshots = dv_snapshots g\<rparr>"

abbreviation group_granted :: "grants \<Rightarrow> derivation \<Rightarrow> bool" where
  "group_granted V g \<equiv> refs_granted V (group_set g)"

definition carrier_granted :: "grants \<Rightarrow> carrier \<Rightarrow> bool" where
  "carrier_granted V c \<longleftrightarrow>
     refs_granted V (ca_flat c) \<and> (ca_alternatives c = [] \<or> (\<exists>g \<in> set (ca_alternatives c). group_granted V g))"

lemma set_canonical_refs [simp]: "set (canonical_refs key rs) = set rs"
  by (simp add: canonical_refs_def)

lemma length_canonical_refs: "length (canonical_refs key rs) \<le> length rs"
  unfolding canonical_refs_def by (metis length_sort remdups_adj_length)

lemma granted_normalize_refs [simp]: "refs_granted V (normalize_refs r) \<longleftrightarrow> refs_granted V r"
  by (cases V) (simp add: normalize_refs_def)

lemma granted_normalize_group [simp]: "group_granted V (normalize_group g) \<longleftrightarrow> group_granted V g"
  by (cases V) (simp add: normalize_group_def group_set_def)

lemma granted_append:
  "refs_granted V \<lparr>rs_assertions = rs_assertions x @ rs_assertions y, rs_nodes = rs_nodes x @ rs_nodes y,
     rs_snapshots = rs_snapshots x @ rs_snapshots y\<rparr> \<longleftrightarrow> refs_granted V x \<and> refs_granted V y"
  by (cases V) auto

section \<open>The budget\<close>

lemma carrier_step_Ok: "carrier_step b = Ok b' \<Longrightarrow> cb_limits b' = cb_limits b"
  by (auto simp: carrier_step_def)

lemma carrier_charge_Ok: "carrier_charge js v b = Ok b' \<Longrightarrow> cb_limits b' = cb_limits b"
  by (auto simp: carrier_charge_def dest: carrier_step_Ok)

lemma value_depth_Ok: "value_depth v depth b = Ok b' \<Longrightarrow> cb_limits b' = cb_limits b"
proof (induction v depth b arbitrary: b' rule: value_depth.induct)
  case (1 v depth b)
  then obtain b1 where b1: "carrier_step b = Ok b1" "\<not> depth > max_depth" by (auto split: if_splits)
  let ?P = "\<lambda>s. cb_limits s = cb_limits b"
  have P1: "?P b1" by (rule carrier_step_Ok [OF b1(1)])
  show ?case
  proof (cases v)
    case (JArr vs)
    then have "try_fold (\<lambda>b v. value_depth v (depth + 1) b) b1 vs = Ok b'" using "1.prems" b1 by simp
    then show ?thesis
      by (rule try_fold_invariant [where P = ?P, rotated 2]) (use P1 "1.IH"(1) [OF b1(2) JArr] in auto)
  next
    case (JObj kvs)
    then have "try_fold (\<lambda>b kv. value_depth (snd kv) (depth + 1) b) b1 kvs = Ok b'" using "1.prems" b1 by simp
    then show ?thesis
      by (rule try_fold_invariant [where P = ?P, rotated 2]) (use P1 "1.IH"(2) [OF b1(2) JObj] in auto)
  qed (use "1.prems" b1 P1 in simp_all)
qed

declare value_depth.simps [simp del]

section \<open>Validation\<close>

text \<open>What the checks establish of a group.\<close>

definition group_valid :: "derivation \<Rightarrow> bool" where
  "group_valid g \<longleftrightarrow>
     group_count g \<noteq> 0 \<and> valid_id (dv_operator g)
     \<and> validate_record_refs (dv_premises g) (dv_nodes g) (dv_snapshots g) = Ok ()
     \<and> length (dv_inputs g) \<le> max_refs \<and> (\<forall>r \<in> set (dv_inputs g). valid_id (gr_graph r) \<and> valid_id (gr_revision r))"

lemma validate_group_Ok:
  assumes "validate_group (count, b) g = Ok (count', b')"
  shows "group_valid g \<and> count' = count + group_count g \<and> cb_limits b' = cb_limits b"
proof -
  from assms obtain b1 where b1: "carrier_step b = Ok b1" and ok: "group_valid g" "count' = count + group_count g"
      and params: "try_fold (\<lambda>b kv. value_depth (snd kv) 0 b) b1 (dv_parameters g) = Ok b'"
    by (auto simp: validate_group_def group_valid_def list_all_iff)
  from params have "cb_limits b' = cb_limits b1"
    by (rule try_fold_invariant [where P = "\<lambda>s. cb_limits s = cb_limits b1", rotated 2]) (auto dest: value_depth_Ok)
  then show ?thesis using ok carrier_step_Ok [OF b1] by simp
qed

lemma validate_groups_Ok:
  assumes "try_fold validate_group (count, b) gs = Ok (count', b')"
  shows "(\<forall>g \<in> set gs. group_valid g) \<and> count' = count + sum_list (map group_count gs) \<and> cb_limits b' = cb_limits b"
  using assms
proof (induction gs arbitrary: count b)
  case (Cons g gs)
  then obtain c1 b1 where "validate_group (count, b) g = Ok (c1, b1)" "try_fold validate_group (c1, b1) gs = Ok (count', b')"
    by auto
  then show ?case using Cons.IH validate_group_Ok by fastforce
qed simp

definition carrier_valid :: "carrier_limits \<Rightarrow> carrier \<Rightarrow> bool" where
  "carrier_valid lim c \<longleftrightarrow>
     length (ca_alternatives c) \<le> cl_groups lim \<and> (\<forall>g \<in> set (ca_alternatives c). group_valid g)
     \<and> validate_record_refs (rs_assertions (ca_flat c)) (rs_nodes (ca_flat c)) (rs_snapshots (ca_flat c)) = Ok ()
     \<and> refs_count (ca_flat c) + sum_list (map group_count (ca_alternatives c)) \<le> cl_references lim"

lemma carrier_validate_Ok:
  assumes "carrier_validate js c b = Ok b'"
  shows "carrier_valid (cb_limits b) c \<and> cb_limits b' = cb_limits b"
proof -
  from assms obtain count b1 where "try_fold validate_group (refs_count (ca_flat c), b) (ca_alternatives c) = Ok (count, b1)"
      and rest: "length (ca_alternatives c) \<le> cl_groups (cb_limits b)" "count \<le> cl_references (cb_limits b1)"
      "validate_record_refs (rs_assertions (ca_flat c)) (rs_nodes (ca_flat c)) (rs_snapshots (ca_flat c)) = Ok ()"
      "carrier_charge js (json_carrier c) b1 = Ok b'"
    by (auto simp: carrier_validate_def)
  with validate_groups_Ok [OF this(1)] show ?thesis
    using carrier_charge_Ok [OF rest(4)] by (auto simp: carrier_valid_def)
qed

section \<open>Canonical form\<close>

lemma json_derivation_inj: "json_derivation d = json_derivation e \<Longrightarrow> d = e"
proof -
  have inj: "inj json_assertion" "inj json_node" "inj json_snapshot"
    by (auto simp: inj_def json_assertion_def json_node_def json_snapshot_def)
  assume "json_derivation d = json_derivation e"
  then show "d = e"
    by (cases d; cases e) (auto simp: json_derivation_def inj_map_eq_map [OF inj(1)] inj_map_eq_map [OF inj(2)]
        inj_map_eq_map [OF inj(3)] split: if_splits)
qed

definition group_text :: "(jvalue \<Rightarrow> string) \<Rightarrow> derivation \<Rightarrow> string" where
  "group_text js g = js (json_derivation g)"

lemma group_text_inj: "inj js \<Longrightarrow> inj (group_text js)"
  by (auto simp: inj_def group_text_def dest!: json_derivation_inj)

definition groups_of :: "(jvalue \<Rightarrow> string) \<Rightarrow> derivation list \<Rightarrow> (string, derivation) btree_map \<Rightarrow> bool" where
  "groups_of js gs groups \<longleftrightarrow>
     bm_ok groups \<and> (\<forall>k. map_of groups k =
       (if k \<in> (group_text js \<circ> normalize_group) ` set gs then Some (inv (group_text js) k) else None))"

lemma add_group_Ok:
  assumes "inj js" and "add_group js (groups, b) g = Ok (groups', b')" and "groups_of js gs groups"
  shows "groups_of js (gs @ [g]) groups' \<and> cb_limits b' = cb_limits b"
proof -
  let ?t = "group_text js"
  have that_text: "inv ?t (?t h) = h" for h using group_text_inj [OF assms(1)] by simp
  from assms(2) obtain b1 b2 where b: "carrier_step b = Ok b1" "carrier_charge js (json_derivation (normalize_group g)) b1 = Ok b'"
      and g': "groups' = (if map_of groups (?t (normalize_group g)) = None
        then bm_insert (?t (normalize_group g)) (normalize_group g) groups else groups)"
    by (auto simp: add_group_def Let_def group_text_def)
  have "groups_of js (gs @ [g]) groups'"
    using assms(3) that_text unfolding groups_of_def g' by (auto split: if_splits)
  then show ?thesis using carrier_step_Ok [OF b(1)] carrier_charge_Ok [OF b(2)] by simp
qed

lemma add_groups_Ok:
  assumes "inj js" and "try_fold (add_group js) ([], b) gs = Ok (groups, b')"
  shows "groups_of js gs groups \<and> cb_limits b' = cb_limits b"
  using assms(2)
proof (induction gs arbitrary: groups b' rule: rev_induct)
  case Nil
  then show ?case by (simp add: groups_of_def)
next
  case (snoc g gs)
  then obtain groups1 b1 where "try_fold (add_group js) ([], b) gs = Ok (groups1, b1)"
      "add_group js (groups1, b1) g = Ok (groups, b')"
    by (auto simp: try_fold_append)
  then show ?case using snoc.IH add_group_Ok [OF assms(1)] by metis
qed

lemma groups_of_spec:
  assumes "inj js" and "groups_of js gs groups"
  shows "map snd groups = map (inv (group_text js)) (sorted_list_of_set ((group_text js \<circ> normalize_group) ` set gs))"
proof -
  let ?K = "(group_text js \<circ> normalize_group) ` set gs"
  have ok: "bm_ok groups" using assms(2) by (simp add: groups_of_def)
  have "fst ` set groups = dom (map_of groups)" by (simp add: dom_map_of_conv_image_fst)
  also have "\<dots> = ?K" using assms(2) by (auto simp: groups_of_def dom_def split: if_splits)
  finally have "map fst groups = sorted_list_of_set ?K"
    using ok unfolding bm_ok_def
    by (metis set_map strict_sorted_equal sorted_list_of_set.strict_sorted_key_list_of_set finite_set
        sorted_list_of_set.set_sorted_key_list_of_set finite_imageI list.map_id0 id_apply)
  moreover have "map snd groups = map (inv (group_text js)) (map fst groups)"
    unfolding map_map
  proof (rule map_cong [OF refl])
    fix p assume "p \<in> set groups"
    then have "map_of groups (fst p) = Some (snd p)" using bm_ok_map_of [OF ok, of "fst p" "snd p"] by simp
    then show "snd p = (inv (group_text js) \<circ> fst) p" using assms(2) by (auto simp: groups_of_def split: if_splits)
  qed
  ultimately show ?thesis by simp
qed

text \<open>The canonical form as a function of the value.\<close>

definition canonical :: "(jvalue \<Rightarrow> string) \<Rightarrow> carrier \<Rightarrow> carrier" where
  "canonical js c =
     \<lparr>ca_flat = normalize_refs (ca_flat c),
      ca_alternatives = map (inv (group_text js))
        (sorted_list_of_set ((group_text js \<circ> normalize_group) ` set (ca_alternatives c)))\<rparr>"

lemma canonicalize_Ok:
  assumes "inj js" and "canonicalize js c b = Ok (c', b')"
  shows "c' = canonical js c \<and> carrier_valid (cb_limits b) c \<and> cb_limits b' = cb_limits b"
proof -
  from assms(2) obtain b1 b2 groups where v: "carrier_validate js c b = Ok b1"
      "carrier_charge js (json_carrier c) b1 = Ok b2" "try_fold (add_group js) ([], b2) (ca_alternatives c) = Ok (groups, b')"
      "c' = \<lparr>ca_flat = normalize_refs (ca_flat c), ca_alternatives = map snd groups\<rparr>"
    by (auto simp: canonicalize_def)
  note g = add_groups_Ok [OF assms(1) v(3)]
  show ?thesis
    using v(4) groups_of_spec [OF assms(1)] g carrier_validate_Ok [OF v(1)] carrier_charge_Ok [OF v(2)]
    by (simp add: canonical_def)
qed

lemma canonical_alternatives:
  assumes "inj js"
  shows "set (ca_alternatives (canonical js c)) = normalize_group ` set (ca_alternatives c)"
proof -
  have "inv (group_text js) ` (group_text js \<circ> normalize_group) ` set (ca_alternatives c)
      = normalize_group ` set (ca_alternatives c)"
    using group_text_inj [OF assms] by (simp add: image_image o_def)
  then show ?thesis by (simp add: canonical_def)
qed

lemma canonical_granted [simp]: "inj js \<Longrightarrow> carrier_granted V (canonical js c) \<longleftrightarrow> carrier_granted V c"
proof -
  assume "inj js"
  note a = canonical_alternatives [OF this, of c]
  have "ca_alternatives (canonical js c) = [] \<longleftrightarrow> ca_alternatives c = []"
    using a by (metis image_is_empty set_empty)
  then show ?thesis unfolding carrier_granted_def a by (simp add: canonical_def)
qed

section \<open>Conjunction\<close>

lemma list_all2_ex:
  assumes "list_all2 R xs ys" and "\<And>x y. R x y \<Longrightarrow> P x \<longleftrightarrow> Q y"
  shows "(\<exists>x \<in> set xs. P x) \<longleftrightarrow> (\<exists>y \<in> set ys. Q y)"
  using assms by (induction rule: list_all2_induct) auto

lemma combine_refs_Ok:
  assumes "combine_refs js x y b = Ok (r, b')"
  shows "(\<forall>V. refs_granted V r \<longleftrightarrow> refs_granted V x \<and> refs_granted V y) \<and> cb_limits b' = cb_limits b"
  using assms granted_append by (auto simp: combine_refs_def dest: carrier_charge_Ok)

lemma group_refs_Ok: "group_refs js g b = Ok (r, b') \<Longrightarrow> r = group_set g \<and> cb_limits b' = cb_limits b"
  by (auto simp: group_refs_def group_set_def dest: carrier_charge_Ok)

lemma make_group_Ok:
  assumes "make_group js operator gates parents b = Ok (g, b')"
  shows "group_set g = gates \<and> cb_limits b' = cb_limits b"
  using assms by (auto simp: make_group_def group_set_def dest: carrier_charge_Ok)

definition joins :: "derivation \<Rightarrow> derivation \<times> derivation \<Rightarrow> bool" where
  "joins g p \<longleftrightarrow> (\<forall>V. group_granted V g \<longleftrightarrow> group_granted V (fst p) \<and> group_granted V (snd p))"

lemma join_pair_Ok:
  assumes "join_pair js (groups, raw, b) (x, y) = Ok (groups', raw', b')"
  shows "\<exists>g. groups' = groups @ [g] \<and> joins g (x, y) \<and> cb_limits b' = cb_limits b"
proof -
  from assms obtain b1 b2 b3 b4 xr yr gates g where
      b: "carrier_step b = Ok b1" "group_refs js x b1 = Ok (xr, b2)" "group_refs js y b2 = Ok (yr, b3)"
      "combine_refs js xr yr b3 = Ok (gates, b4)"
      "make_group js and_operator gates (JArr (conjuncts js x y)) b4 = Ok (g, b')" "groups' = groups @ [g]"
    by (auto simp: join_pair_def)
  have "joins g (x, y)"
    using combine_refs_Ok [OF b(4)] make_group_Ok [OF b(5)] group_refs_Ok [OF b(2)] group_refs_Ok [OF b(3)]
    by (simp add: joins_def)
  then show ?thesis
    using b(6) carrier_step_Ok [OF b(1)] group_refs_Ok [OF b(2)] group_refs_Ok [OF b(3)] combine_refs_Ok [OF b(4)]
      make_group_Ok [OF b(5)] by simp
qed

lemma join_pairs_Ok:
  assumes "try_fold (join_pair js) ([], raw, b) ps = Ok (groups, raw', b')"
  shows "list_all2 joins groups ps \<and> cb_limits b' = cb_limits b"
  using assms
proof (induction ps arbitrary: groups raw' b' rule: rev_induct)
  case (snoc p ps)
  from snoc.prems obtain s where s: "try_fold (join_pair js) ([], raw, b) ps = Ok s" "join_pair js s p = Ok (groups, raw', b')"
    by (auto simp: try_fold_append)
  obtain groups1 raw1 b1 where s1: "s = (groups1, raw1, b1)" by (metis prod_cases3)
  from join_pair_Ok [of js groups1 raw1 b1 "fst p" "snd p"] s(2) s1 obtain g where
      "groups = groups1 @ [g]" "joins g p" "cb_limits b' = cb_limits b1"
    by auto
  then show ?case using snoc.IH [OF s(1) [unfolded s1]] by (simp add: list_all2_appendI)
qed simp

lemma joins_any:
  assumes "list_all2 joins groups (List.product xs ys)"
  shows "(\<exists>g \<in> set groups. group_granted V g) \<longleftrightarrow> (\<exists>x \<in> set xs. group_granted V x) \<and> (\<exists>y \<in> set ys. group_granted V y)"
proof -
  have "(\<exists>g \<in> set groups. group_granted V g) \<longleftrightarrow> (\<exists>p \<in> set (List.product xs ys). group_granted V (fst p) \<and> group_granted V (snd p))"
    using assms by (rule list_all2_ex) (simp add: joins_def)
  then show ?thesis by auto
qed

text \<open>The choice between alternatives, where no alternatives are no condition.\<close>

abbreviation any_granted :: "grants \<Rightarrow> derivation list \<Rightarrow> bool" where
  "any_granted V gs \<equiv> gs = [] \<or> (\<exists>g \<in> set gs. group_granted V g)"

lemma join_alternatives_Ok:
  assumes "join_alternatives js flat xs ys b = Ok (gs, b')"
  shows "(\<forall>V. any_granted V gs \<longleftrightarrow> any_granted V xs \<and> any_granted V ys) \<and> cb_limits b' = cb_limits b"
proof -
  consider "xs = []" | "ys = []" "xs \<noteq> []" | "xs \<noteq> []" "ys \<noteq> []" by blast
  then show ?thesis
  proof cases
    case 3
    with assms obtain raw where fold: "try_fold (join_pair js) ([], refs_count flat, b) (List.product xs ys) = Ok (gs, raw, b')"
      by (auto simp: join_alternatives_def)
    from join_pairs_Ok [OF fold] have joined: "list_all2 joins gs (List.product xs ys)" "cb_limits b' = cb_limits b" by simp_all
    have "List.product xs ys \<noteq> []" using 3 by (metis list.set_intros(1) neq_Nil_conv product.simps(2) Nil_is_append_conv list.simps(8,9) list.distinct(1))
    then have "gs \<noteq> []" using joined(1) by auto
    then show ?thesis using 3 joins_any [OF joined(1)] joined(2) by simp
  qed (use assms in \<open>auto simp: join_alternatives_def dest: carrier_charge_Ok\<close>)
qed

lemma conjunction_Ok:
  assumes "inj js" and run: "conjunction js x y b = Ok (c, b')"
  shows "(\<forall>V. carrier_granted V c \<longleftrightarrow> carrier_granted V x \<and> carrier_granted V y)
    \<and> (\<exists>c0. c = canonical js c0 \<and> carrier_valid (cb_limits b) c0) \<and> cb_limits b' = cb_limits b"
proof -
  from run obtain x1 b1 y1 b2 where x1: "canonicalize js x b = Ok (x1, b1)" and y1: "canonicalize js y b1 = Ok (y1, b2)"
      and rest: "if x1 = y1 then c = x1 \<and> b' = b2
        else \<exists>flat b3 gs b4. combine_refs js (ca_flat x1) (ca_flat y1) b2 = Ok (flat, b3)
          \<and> join_alternatives js flat (ca_alternatives x1) (ca_alternatives y1) b3 = Ok (gs, b4)
          \<and> canonicalize js \<lparr>ca_flat = flat, ca_alternatives = gs\<rparr> b4 = Ok (c, b')"
    by (auto simp: conjunction_def split: if_splits)
  note cx = canonicalize_Ok [OF assms(1) x1] and cy = canonicalize_Ok [OF assms(1) y1]
  have sides: "carrier_granted V x1 \<longleftrightarrow> carrier_granted V x" "carrier_granted V y1 \<longleftrightarrow> carrier_granted V y" for V
    using cx cy assms(1) by simp_all
  show ?thesis
  proof (cases "x1 = y1")
    case True
    then show ?thesis using rest sides cx cy by auto
  next
    case False
    then obtain flat b3 gs b4 where s: "combine_refs js (ca_flat x1) (ca_flat y1) b2 = Ok (flat, b3)"
        "join_alternatives js flat (ca_alternatives x1) (ca_alternatives y1) b3 = Ok (gs, b4)"
        "canonicalize js \<lparr>ca_flat = flat, ca_alternatives = gs\<rparr> b4 = Ok (c, b')"
      using rest by auto
    note f = combine_refs_Ok [OF s(1)] and j = join_alternatives_Ok [OF s(2)] and r = canonicalize_Ok [OF assms(1) s(3)]
    have "carrier_granted V c \<longleftrightarrow> carrier_granted V x1 \<and> carrier_granted V y1" for V
    proof -
      have "carrier_granted V c \<longleftrightarrow> refs_granted V flat \<and> any_granted V gs"
        using r assms(1) by (simp add: carrier_granted_def [of V "\<lparr>ca_flat = flat, ca_alternatives = gs\<rparr>"])
      also have "refs_granted V flat \<longleftrightarrow> refs_granted V (ca_flat x1) \<and> refs_granted V (ca_flat y1)" using f by blast
      also have "any_granted V gs \<longleftrightarrow> any_granted V (ca_alternatives x1) \<and> any_granted V (ca_alternatives y1)"
        using j by blast
      finally show ?thesis unfolding carrier_granted_def by blast
    qed
    then show ?thesis using sides f j r cx cy by auto
  qed
qed

section \<open>Branches and disjunction\<close>

lemma add_branch_Ok:
  assumes "add_branch js flat (out, b) g = Ok (out', b')"
  shows "\<exists>h. out' = out @ [h] \<and> (\<forall>V. group_granted V h \<longleftrightarrow> refs_granted V flat \<and> group_granted V g) \<and> cb_limits b' = cb_limits b"
proof -
  from assms obtain refs b1 gates b2 h where s: "group_refs js g b = Ok (refs, b1)" "combine_refs js flat refs b1 = Ok (gates, b2)"
      "make_group js branch_operator gates (JArr [json_refs flat, json_derivation g]) b2 = Ok (h, b')" "out' = out @ [h]"
    by (auto simp: add_branch_def)
  then show ?thesis using group_refs_Ok [OF s(1)] combine_refs_Ok [OF s(2)] make_group_Ok [OF s(3)] by simp
qed

lemma add_branches_Ok:
  assumes "try_fold (add_branch js flat) ([], b) gs = Ok (out, b')"
  shows "list_all2 (\<lambda>h g. \<forall>V. group_granted V h \<longleftrightarrow> refs_granted V flat \<and> group_granted V g) out gs \<and> cb_limits b' = cb_limits b"
  using assms
proof (induction gs arbitrary: out b' rule: rev_induct)
  case (snoc g gs)
  then obtain out1 b1 where s: "try_fold (add_branch js flat) ([], b) gs = Ok (out1, b1)" "add_branch js flat (out1, b1) g = Ok (out, b')"
    by (auto simp: try_fold_append)
  from add_branch_Ok [OF s(2)] snoc.IH [OF s(1)] show ?case by (auto simp: list_all2_appendI)
qed simp

lemma branches_Ok:
  assumes "branches js c b = Ok (gs, b')"
  shows "gs \<noteq> [] \<and> (\<forall>V. (\<exists>g \<in> set gs. group_granted V g) \<longleftrightarrow> carrier_granted V c) \<and> cb_limits b' = cb_limits b"
proof (cases "ca_alternatives c = []")
  case True
  then obtain b1 g where "carrier_charge js (json_refs (ca_flat c)) b = Ok b1"
      "make_group js flat_operator (ca_flat c) (json_refs (ca_flat c)) b1 = Ok (g, b')" "gs = [g]"
    using assms by (auto simp: branches_def)
  then show ?thesis using True make_group_Ok carrier_charge_Ok by (fastforce simp: carrier_granted_def)
next
  case False
  then have fold: "try_fold (add_branch js (ca_flat c)) ([], b) (ca_alternatives c) = Ok (gs, b')"
    using assms by (auto simp: branches_def)
  note all = add_branches_Ok [OF fold]
  have "(\<exists>g \<in> set gs. group_granted V g) \<longleftrightarrow> (\<exists>g \<in> set (ca_alternatives c). refs_granted V (ca_flat c) \<and> group_granted V g)" for V
    using conjunct1 [OF all] by (rule list_all2_ex) blast
  then show ?thesis using all False by (auto simp: carrier_granted_def)
qed

lemma saturating_add_zero: "saturating_add x y = 0 \<longleftrightarrow> x = 0 \<and> y = 0"
  by (auto simp: saturating_add_def usize_max_def min_def split: if_splits)

lemma unconditional_granted: "unconditional c \<Longrightarrow> carrier_granted V c"
  by (cases V) (simp add: unconditional_def flat_empty_def refs_count_def saturating_add_zero carrier_granted_def)

lemma disjunction_Ok:
  assumes "inj js" and run: "disjunction js x y b = Ok (c, b')"
  shows "(\<forall>V. carrier_granted V c \<longleftrightarrow> carrier_granted V x \<or> carrier_granted V y)
    \<and> (\<exists>c0. c = canonical js c0 \<and> carrier_valid (cb_limits b) c0) \<and> cb_limits b' = cb_limits b"
proof -
  from run obtain x1 b1 y1 b2 where x1: "canonicalize js x b = Ok (x1, b1)" and y1: "canonicalize js y b1 = Ok (y1, b2)"
      and rest: "if unconditional x1 \<or> unconditional y1 then unconditional x1 \<and> unconditional y1 \<and> c = no_carrier \<and> b' = b2
        else \<exists>ls b3 rs b4. branches js x1 b2 = Ok (ls, b3) \<and> branches js y1 b3 = Ok (rs, b4)
          \<and> canonicalize js \<lparr>ca_flat = no_refs, ca_alternatives = ls @ rs\<rparr> b4 = Ok (c, b')"
    by (auto simp: disjunction_def split: if_splits)
  note cx = canonicalize_Ok [OF assms(1) x1] and cy = canonicalize_Ok [OF assms(1) y1]
  have sides: "carrier_granted V x1 \<longleftrightarrow> carrier_granted V x" "carrier_granted V y1 \<longleftrightarrow> carrier_granted V y" for V
    using cx cy assms(1) by simp_all
  show ?thesis
  proof (cases "unconditional x1 \<or> unconditional y1")
    case True
    then have u: "unconditional x1" "c = no_carrier" "b' = b2" using rest by simp_all
    have none: "canonical js no_carrier = no_carrier" "carrier_valid (cb_limits b) no_carrier"
      by (simp_all add: canonical_def no_carrier_def no_refs_def normalize_refs_def canonical_refs_def carrier_valid_def
          validate_record_refs_def saturating_add_def max_references_def refs_count_def)
    have "carrier_granted V no_carrier" for V
      by (cases V) (simp add: carrier_granted_def no_carrier_def no_refs_def)
    then show ?thesis using u sides unconditional_granted [OF u(1)] none cx cy by metis
  next
    case False
    then obtain ls b3 rs b4 where s: "branches js x1 b2 = Ok (ls, b3)" "branches js y1 b3 = Ok (rs, b4)"
        "canonicalize js \<lparr>ca_flat = no_refs, ca_alternatives = ls @ rs\<rparr> b4 = Ok (c, b')"
      using rest by auto
    note l = branches_Ok [OF s(1)] and r = branches_Ok [OF s(2)] and d = canonicalize_Ok [OF assms(1) s(3)]
    have "refs_granted V no_refs" for V by (cases V) (simp add: no_refs_def)
    then have "carrier_granted V \<lparr>ca_flat = no_refs, ca_alternatives = ls @ rs\<rparr> \<longleftrightarrow> carrier_granted V x1 \<or> carrier_granted V y1" for V
      using l r by (auto simp: carrier_granted_def [of V "\<lparr>ca_flat = no_refs, ca_alternatives = ls @ rs\<rparr>"])
    then show ?thesis using sides l r d cx cy assms(1) by auto
  qed
qed

lemma distribute_Ok:
  assumes "inj js" and run: "distribute js x y b = Ok (c, b')"
  shows "(\<forall>V. carrier_granted V c \<longleftrightarrow> carrier_granted V x \<and> carrier_granted V y) \<and> ca_flat c = no_refs
    \<and> (\<exists>c0. c = canonical js c0 \<and> carrier_valid (cb_limits b) c0) \<and> cb_limits b' = cb_limits b"
proof -
  from run obtain j b1 gs b2 where s: "conjunction js x y b = Ok (j, b1)" "branches js j b1 = Ok (gs, b2)"
      "canonicalize js \<lparr>ca_flat = no_refs, ca_alternatives = gs\<rparr> b2 = Ok (c, b')"
    by (auto simp: distribute_def)
  note j = conjunction_Ok [OF assms(1) s(1)] and g = branches_Ok [OF s(2)] and d = canonicalize_Ok [OF assms(1) s(3)]
  have "refs_granted V no_refs" for V by (cases V) (simp add: no_refs_def)
  then have "carrier_granted V \<lparr>ca_flat = no_refs, ca_alternatives = gs\<rparr> \<longleftrightarrow> carrier_granted V j" for V
    using g by (auto simp: carrier_granted_def [of V "\<lparr>ca_flat = no_refs, ca_alternatives = gs\<rparr>"])
  moreover have "ca_flat c = no_refs"
    using d by (simp add: canonical_def no_refs_def normalize_refs_def canonical_refs_def)
  ultimately show ?thesis using j g d assms(1) by auto
qed

section \<open>Well-formed results\<close>

lemma keys_inj: "inj assertion_key" "inj node_key" "inj snapshot_key"
  by (auto simp: inj_def assertion_key_def node_key_def snapshot_key_def)

lemma canonical_refs_idem:
  assumes "inj key"
  shows "canonical_refs key (canonical_refs key rs) = canonical_refs key rs"
proof -
  have "map key (canonical_refs key rs) = remdups_adj (map key (sort_key key rs))"
    unfolding canonical_refs_def by (rule remdups_adj_map_injective [OF assms, symmetric])
  then have "sorted (map key (canonical_refs key rs))" by (simp add: sorted_remdups_adj)
  then have "sort_key key (canonical_refs key rs) = canonical_refs key rs" by (rule sort_key_id_if_sorted)
  then show ?thesis unfolding canonical_refs_def by (metis distinct_adj_altdef distinct_adj_remdups_adj)
qed

lemma normalize_idem [simp]:
  "normalize_refs (normalize_refs r) = normalize_refs r" "normalize_group (normalize_group g) = normalize_group g"
  by (simp_all add: normalize_refs_def normalize_group_def canonical_refs_idem keys_inj)

lemma canonical_idem:
  assumes "inj js"
  shows "canonical js (canonical js c) = canonical js c"
proof -
  have "(group_text js \<circ> normalize_group) ` set (ca_alternatives (canonical js c))
      = (group_text js \<circ> normalize_group) ` set (ca_alternatives c)"
    unfolding canonical_alternatives [OF assms] by (simp add: image_image)
  moreover have "ca_flat (canonical js c) = normalize_refs (ca_flat c)" by (simp add: canonical_def)
  ultimately show ?thesis unfolding canonical_def [of js "canonical js c"] by (simp add: canonical_def)
qed

lemma saturating_add_mono: "x \<le> x' \<Longrightarrow> y \<le> y' \<Longrightarrow> saturating_add x y \<le> saturating_add x' y'"
  by (simp add: saturating_add_def min_def)

lemma group_count_normalize: "group_count (normalize_group g) \<le> group_count g"
  unfolding group_count_def normalize_group_def by (simp add: saturating_add_mono length_canonical_refs)

lemma refs_count_normalize: "refs_count (normalize_refs r) \<le> refs_count r"
  unfolding refs_count_def normalize_refs_def by (simp add: saturating_add_mono length_canonical_refs)

lemma canonical_refs_Nil: "canonical_refs key rs = [] \<longleftrightarrow> rs = []"
  by (metis set_canonical_refs set_empty)

lemma validate_canonical:
  assumes "validate_record_refs as ns ss = Ok ()"
  shows "validate_record_refs (canonical_refs assertion_key as) (canonical_refs node_key ns) (canonical_refs snapshot_key ss) = Ok ()"
proof -
  have "saturating_add (saturating_add (length (canonical_refs assertion_key as)) (length (canonical_refs node_key ns)))
      (length (canonical_refs snapshot_key ss))
    \<le> saturating_add (saturating_add (length as) (length ns)) (length ss)"
    by (intro saturating_add_mono length_canonical_refs)
  then show ?thesis using assms by (auto simp: validate_record_refs_def list_ex_iff split: if_splits)
qed

lemma group_valid_normalize: "group_valid g \<Longrightarrow> group_valid (normalize_group g)"
  using length_canonical_refs [of snapshot_key "dv_inputs g"]
  by (auto simp: group_valid_def group_count_def normalize_group_def saturating_add_zero canonical_refs_Nil validate_canonical)

lemma sum_set_list: "(\<Sum>x \<in> set xs. f x) \<le> sum_list (map f xs)" for f :: "'a \<Rightarrow> nat"
  by (induction xs) (auto simp: sum.insert_if)

lemma canonical_valid:
  assumes "inj js" and "carrier_valid lim c"
  shows "carrier_valid lim (canonical js c)"
proof -
  let ?gs = "ca_alternatives c" and ?t = "group_text js"
  let ?cs = "ca_alternatives (canonical js c)"
  have set: "set ?cs = normalize_group ` set ?gs" by (rule canonical_alternatives [OF assms(1)])
  have "inj_on (inv ?t) (set (sorted_list_of_set ((?t \<circ> normalize_group) ` set ?gs)))"
    by (rule inj_on_inv_into) auto
  then have d: "distinct ?cs" by (simp add: canonical_def distinct_map)
  have "length ?cs \<le> length ?gs"
    using distinct_card [OF d] card_image_le [of "set ?gs" normalize_group] card_length [of ?gs] set by simp
  moreover have "sum_list (map group_count ?cs) \<le> sum_list (map group_count ?gs)"
  proof -
    have "sum_list (map group_count ?cs) = (\<Sum>g \<in> normalize_group ` set ?gs. group_count g)"
      using sum_list_distinct_conv_sum_set [OF d] set by simp
    also have "\<dots> \<le> (\<Sum>g \<in> set ?gs. group_count (normalize_group g))"
      by (rule sum_image_le [THEN order_trans]) (simp_all add: o_def)
    also have "\<dots> \<le> (\<Sum>g \<in> set ?gs. group_count g)" by (intro sum_mono group_count_normalize)
    also have "\<dots> \<le> sum_list (map group_count ?gs)" by (rule sum_set_list)
    finally show ?thesis .
  qed
  moreover have "\<forall>g \<in> set ?cs. group_valid g" using set assms(2) group_valid_normalize by (auto simp: carrier_valid_def)
  ultimately show ?thesis
    using assms(2) refs_count_normalize [of "ca_flat c"]
    by (auto simp: carrier_valid_def canonical_def normalize_refs_def validate_canonical simp del: map_map)
qed

section \<open>The compositions\<close>

text \<open>
  An unambiguous text of JSON values, to run the compositions on.
\<close>

definition quoted :: "string \<Rightarrow> string" where
  "quoted s = concat (map (\<lambda>c. [CHR ''x'', c]) s) @ ''e''"

fun plain_text :: "jvalue \<Rightarrow> string" where
  "plain_text JNull = ''n''"
| "plain_text (JBool b) = (if b then ''t'' else ''f'')"
| "plain_text (JNum s) = CHR ''d'' # quoted s"
| "plain_text (JStr s) = CHR ''s'' # quoted s"
| "plain_text (JArr vs) = CHR ''['' # concat (map (\<lambda>v. CHR '','' # plain_text v) vs) @ '']''"
| "plain_text (JObj kvs) = CHR ''{'' # concat (map (\<lambda>kv. CHR '','' # quoted (fst kv) @ plain_text (snd kv)) kvs) @ ''}''"

lemma quoted_prefix: "quoted s @ r = quoted t @ r' \<Longrightarrow> s = t \<and> r = r'"
proof (induction s arbitrary: t)
  case Nil
  then show ?case by (cases t) (simp_all add: quoted_def)
next
  case (Cons c s)
  from Cons.prems obtain d u where t: "t = d # u" by (cases t) (simp_all add: quoted_def)
  then show ?case using Cons.IH [of u] Cons.prems by (simp add: quoted_def)
qed

lemma listed_prefix:
  assumes "\<And>x y r r'. x \<in> set xs \<Longrightarrow> f x @ r = f y @ r' \<Longrightarrow> x = y \<and> r = r'" and "e \<noteq> CHR '',''"
    and "concat (map (\<lambda>x. CHR '','' # f x) xs) @ e # r = concat (map (\<lambda>x. CHR '','' # f x) ys) @ e # r'"
  shows "xs = ys \<and> r = r'"
  using assms
proof (induction xs arbitrary: ys)
  case Nil
  then show ?case by (cases ys) auto
next
  case (Cons x xs)
  from Cons.prems(2,3) obtain y zs where ys: "ys = y # zs" by (cases ys) auto
  then have "f x @ concat (map (\<lambda>x. CHR '','' # f x) xs) @ e # r = f y @ concat (map (\<lambda>x. CHR '','' # f x) zs) @ e # r'"
    using Cons.prems(3) by simp
  from Cons.prems(1) [OF list.set_intros(1) this]
  have eq: "x = y" and rest: "concat (map (\<lambda>x. CHR '','' # f x) xs) @ e # r = concat (map (\<lambda>x. CHR '','' # f x) zs) @ e # r'"
    by simp_all
  have "xs = zs \<and> r = r'" by (rule Cons.IH [OF Cons.prems(1) Cons.prems(2) rest]) simp_all
  then show ?case using eq ys by simp
qed

lemma plain_text_prefix: "plain_text v @ r = plain_text w @ r' \<Longrightarrow> v = w \<and> r = r'"
proof (induction v arbitrary: w r r')
  case (JArr vs)
  then obtain ws where w: "w = JArr ws" by (cases w) (auto split: if_splits)
  show ?case using listed_prefix [of vs plain_text "CHR '']''" r ws r'] JArr w by auto
next
  case (JObj kvs)
  then obtain ws where w: "w = JObj ws" by (cases w) (auto split: if_splits)
  have "kv = kw \<and> s = s'"
    if kv: "kv \<in> set kvs" and e: "(quoted (fst kv) @ plain_text (snd kv)) @ s = (quoted (fst kw) @ plain_text (snd kw)) @ s'"
    for kv kw s s'
  proof -
    have q: "fst kv = fst kw" "plain_text (snd kv) @ s = plain_text (snd kw) @ s'"
      using quoted_prefix [of "fst kv" "plain_text (snd kv) @ s" "fst kw" "plain_text (snd kw) @ s'"] e by simp_all
    have "snd kv \<in> Basic_BNFs.snds kv" by (simp add: snds.intros)
    from JObj.IH [OF kv this q(2)] q(1) show ?thesis by (simp add: prod_eq_iff)
  qed
  note step = this
  have "kvs = ws \<and> r = r'"
  proof (rule listed_prefix [where f = "\<lambda>kv. quoted (fst kv) @ plain_text (snd kv)" and e = "CHR ''}''"])
    show "concat (map (\<lambda>kv. CHR '','' # quoted (fst kv) @ plain_text (snd kv)) kvs) @ CHR ''}'' # r
        = concat (map (\<lambda>kv. CHR '','' # quoted (fst kv) @ plain_text (snd kv)) ws) @ CHR ''}'' # r'"
      using JObj.prems w by simp
  qed (rule step, assumption+, simp)
  then show ?case using w by simp
next
  case (JNum s)
  then obtain t where w: "w = JNum t" by (cases w) (auto split: if_splits)
  then show ?case using quoted_prefix [of s r t r'] JNum by simp
next
  case (JStr s)
  then obtain t where w: "w = JStr t" by (cases w) (auto split: if_splits)
  then show ?case using quoted_prefix [of s r t r'] JStr by simp
next
  case JNull
  then show ?case by (cases w) (auto split: if_splits)
next
  case (JBool b)
  then show ?case by (cases w) (auto split: if_splits)
qed

lemma inj_plain_text: "inj plain_text"
  by (rule injI) (use plain_text_prefix [of _ "[]" _ "[]"] in simp)

text \<open> C24: What the compositions mean. A reader with a set of grants passes the conjunction, and its
  distribution into the alternatives, exactly when they pass both values.
\<close>

theorem conjunction_exact:
  assumes "inj js" and "conjunction js x y b = Ok (c, b') \<or> distribute js x y b = Ok (c, b')"
  shows "carrier_granted V c \<longleftrightarrow> carrier_granted V x \<and> carrier_granted V y"
  using assms(2) conjunction_Ok [OF assms(1)] distribute_Ok [OF assms(1)] by blast

text \<open> A reader passes the disjunction exactly when they pass one of the two values. A disjunction of
  one restricted and one unrestricted value is refused.
\<close>

theorem disjunction_exact:
  assumes "inj js" and "disjunction js x y b = Ok (c, b')"
  shows "carrier_granted V c \<longleftrightarrow> carrier_granted V x \<or> carrier_granted V y"
  using disjunction_Ok [OF assms] by blast

text \<open> The type of the results. A composition yields a value in canonical form (references sorted and
  without duplicates, groups in the order of their texts, each once) whose groups have restrictions,
  bounded identifiers and operators, within the limits on groups and references.
\<close>

theorem compositions_well_formed:
  assumes "inj js"
    and "conjunction js x y b = Ok (c, b') \<or> disjunction js x y b = Ok (c, b') \<or> distribute js x y b = Ok (c, b')"
  shows "canonical js c = c \<and> carrier_valid (cb_limits b) c"
proof -
  obtain c0 where "c = canonical js c0" "carrier_valid (cb_limits b) c0"
    using assms conjunction_Ok disjunction_Ok distribute_Ok by metis
  then show ?thesis using canonical_idem [OF assms(1)] canonical_valid [OF assms(1)] by simp
qed

definition demo_assertion :: "string \<Rightarrow> assertion_ref" where
  "demo_assertion a = \<lparr>ar_graph = ''G'', ar_revision = ''r'', ar_assertion = a\<rparr>"

definition demo_group :: "string list \<Rightarrow> derivation" where
  "demo_group as = \<lparr>dv_snapshots = [], dv_nodes = [], dv_operator = ''op'', dv_premises = map demo_assertion as,
     dv_parameters = [], dv_inputs = []\<rparr>"

definition demo_carrier :: "string list \<Rightarrow> string list list \<Rightarrow> carrier" where
  "demo_carrier flat groups = \<lparr>ca_flat = no_refs\<lparr>rs_assertions := map demo_assertion flat\<rparr>,
     ca_alternatives = map demo_group groups\<rparr>"

definition demo_budget :: carrier_budget where
  "demo_budget = budget_new default_limits"

definition result_carrier :: "(carrier \<times> carrier_budget) result \<Rightarrow> carrier" where
  "result_carrier r = (case r of Inl _ \<Rightarrow> no_carrier | Inr (c, _) \<Rightarrow> c)"

definition demo_left :: carrier where
  "demo_left = demo_carrier [''a''] []"

definition demo_right :: carrier where
  "demo_right = demo_carrier [] [[''b'']]"

lemma demo_conjunction: "is_ok (conjunction plain_text demo_left demo_right demo_budget)"
  by code_simp

lemma demo_disjunction: "is_ok (disjunction plain_text demo_left (demo_carrier [''b''] []) demo_budget)"
  by code_simp

lemma is_ok_pair: "is_ok r \<Longrightarrow> \<exists>x y. r = Ok (x, y)"
  by (cases r) auto

theorem conjunction_exact_witness:
  "\<exists>c b'. conjunction plain_text demo_left demo_right demo_budget = Ok (c, b')
    \<and> \<not> carrier_granted ({demo_assertion ''a''}, {}, {}) c
    \<and> carrier_granted ({demo_assertion ''a'', demo_assertion ''b''}, {}, {}) c"
proof -
  obtain c b' where run: "conjunction plain_text demo_left demo_right demo_budget = Ok (c, b')"
    using is_ok_pair [OF demo_conjunction] by blast
  note exact = conjunction_exact [OF inj_plain_text disjI1 [OF run]]
  have "\<not> carrier_granted ({demo_assertion ''a''}, {}, {}) c" "carrier_granted ({demo_assertion ''a'', demo_assertion ''b''}, {}, {}) c"
    unfolding exact by (simp_all add: carrier_granted_def demo_left_def demo_right_def demo_carrier_def no_refs_def group_set_def
        demo_group_def demo_assertion_def)
  then show ?thesis using run by blast
qed

theorem disjunction_exact_witness:
  "\<exists>c b'. disjunction plain_text demo_left (demo_carrier [''b''] []) demo_budget = Ok (c, b')
    \<and> carrier_granted ({demo_assertion ''b''}, {}, {}) c \<and> \<not> carrier_granted ({}, {}, {}) c"
proof -
  obtain c b' where run: "disjunction plain_text demo_left (demo_carrier [''b''] []) demo_budget = Ok (c, b')"
    using is_ok_pair [OF demo_disjunction] by blast
  note exact = disjunction_exact [OF inj_plain_text run]
  have "carrier_granted ({demo_assertion ''b''}, {}, {}) c" "\<not> carrier_granted ({}, {}, {}) c"
    unfolding exact by (simp_all add: carrier_granted_def demo_left_def demo_carrier_def no_refs_def)
  then show ?thesis using run by blast
qed

theorem compositions_well_formed_witness:
  "\<exists>c b'. conjunction plain_text demo_left demo_right demo_budget = Ok (c, b')
    \<and> canonical plain_text c = c \<and> carrier_valid (cb_limits demo_budget) c"
proof -
  obtain c b' where run: "conjunction plain_text demo_left demo_right demo_budget = Ok (c, b')"
    using is_ok_pair [OF demo_conjunction] by blast
  then show ?thesis using compositions_well_formed [OF inj_plain_text disjI1 [OF run]] by blast
qed

section \<open>Influence\<close>

definition influence_granted :: "grants \<Rightarrow> influence option \<Rightarrow> bool" where
  "influence_granted V i =
     (case i of None \<Rightarrow> True
      | Some i \<Rightarrow> carrier_granted V \<lparr>ca_flat = \<lparr>rs_assertions = in_assertions i, rs_nodes = in_nodes i,
          rs_snapshots = in_snapshots i\<rparr>, ca_alternatives = in_derivations i\<rparr>)"

lemma from_influence_Ok:
  assumes "from_influence js i b = Ok (c, b')"
  shows "(carrier_granted V c \<longleftrightarrow> influence_granted V (Some i)) \<and> cb_limits b' = cb_limits b"
  using assms by (auto simp: from_influence_def from_parts_def Let_def influence_granted_def dest!: carrier_charge_Ok carrier_validate_Ok)

lemma refs_eta: "\<lparr>rs_assertions = rs_assertions r, rs_nodes = rs_nodes r, rs_snapshots = rs_snapshots r\<rparr> = r"
  by (cases r) simp

lemma into_influence_granted: "influence_granted V (Some (into_influence c)) \<longleftrightarrow> carrier_granted V c"
  by (cases c) (simp add: influence_granted_def into_influence_def refs_eta)

lemma optional_carrier_Ok:
  assumes "optional_carrier js i b = Ok (c, b')"
  shows "carrier_granted V c \<longleftrightarrow> influence_granted V i"
proof (cases i)
  case None
  then show ?thesis using assms
    by (cases V) (auto simp: optional_carrier_def influence_granted_def carrier_granted_def no_carrier_def no_refs_def)
next
  case (Some j)
  then show ?thesis using assms from_influence_Ok [of js j b c b' V] by (simp add: optional_carrier_def)
qed

lemma merge_refs_Ok:
  assumes "merge_refs others out refs = Ok out'"
  shows "set out' = set out \<union> set refs"
  using assms unfolding merge_refs_def
proof (induction refs arbitrary: out)
  case (Cons r refs)
  then show ?case by (cases "r \<in> set out") auto
qed simp

lemma merge_flat_Ok:
  assumes "merge_flat out i = Ok out'"
  shows "in_derivations out' = in_derivations out \<and> set (in_assertions out') = set (in_assertions out) \<union> set (in_assertions i)
    \<and> set (in_nodes out') = set (in_nodes out) \<union> set (in_nodes i)
    \<and> set (in_snapshots out') = set (in_snapshots out) \<union> set (in_snapshots i)"
  using assms by (auto simp: merge_flat_def dest!: merge_refs_Ok)

lemma merge_all_Ok:
  assumes "try_fold merge_flat out infs = Ok out'"
  shows "in_derivations out' = in_derivations out
    \<and> set (in_assertions out') = set (in_assertions out) \<union> (\<Union>i \<in> set infs. set (in_assertions i))
    \<and> set (in_nodes out') = set (in_nodes out) \<union> (\<Union>i \<in> set infs. set (in_nodes i))
    \<and> set (in_snapshots out') = set (in_snapshots out) \<union> (\<Union>i \<in> set infs. set (in_snapshots i))"
  using assms
proof (induction infs arbitrary: out)
  case (Cons i infs)
  then obtain out1 where "merge_flat out i = Ok out1" "try_fold merge_flat out1 infs = Ok out'" by auto
  then show ?case using Cons.IH [of out1] merge_flat_Ok [of out i out1] by auto
qed simp

lemma influence_merge_Ok:
  assumes "inj js" and "influence_merge js left right = Ok merged"
  shows "influence_granted V merged \<longleftrightarrow> influence_granted V left \<and> influence_granted V right"
proof -
  define both where "both = (case left of None \<Rightarrow> [] | Some i \<Rightarrow> [i]) @ (case right of None \<Rightarrow> [] | Some i \<Rightarrow> [i])"
  have sides: "influence_granted V left \<and> influence_granted V right \<longleftrightarrow> (\<forall>i \<in> set both. influence_granted V (Some i))"
    unfolding both_def by (cases left; cases right) (simp_all add: influence_granted_def)
  consider "both = []" "merged = None"
    | x b1 y b2 c b3 where "optional_carrier js left (budget_new default_limits) = Ok (x, b1)"
        "optional_carrier js right b1 = Ok (y, b2)" "conjunction js x y b2 = Ok (c, b3)" "merged = Some (into_influence c)"
    | out where "both \<noteq> []" "\<forall>i \<in> set both. in_derivations i = []" "try_fold merge_flat no_influence both = Ok out"
        "merged = Some (influence_canonicalize out)"
    using assms(2) unfolding influence_merge_def Let_def both_def [symmetric] by (auto simp: list_ex_iff split: if_splits)
  then show ?thesis
  proof cases
    case 1
    then show ?thesis unfolding sides by (simp add: influence_granted_def)
  next
    case 2
    then show ?thesis
      using conjunct1 [OF conjunction_Ok [OF assms(1) 2(3)]] optional_carrier_Ok [OF 2(1)] optional_carrier_Ok [OF 2(2)]
      by (simp add: into_influence_granted)
  next
    case 3
    obtain A N S where V: "V = (A, N, S)" by (cases V)
    have granted: "influence_granted V (Some i) \<longleftrightarrow>
        set (in_assertions i) \<subseteq> A \<and> set (in_nodes i) \<subseteq> N \<and> set (in_snapshots i) \<subseteq> S" if "in_derivations i = []" for i
      using that by (simp add: influence_granted_def carrier_granted_def V)
    have out: "in_derivations out = []" "set (in_assertions out) = (\<Union>i \<in> set both. set (in_assertions i))"
      "set (in_nodes out) = (\<Union>i \<in> set both. set (in_nodes i))" "set (in_snapshots out) = (\<Union>i \<in> set both. set (in_snapshots i))"
      using merge_all_Ok [OF 3(3)] by (simp_all add: no_influence_def)
    have "influence_granted V merged \<longleftrightarrow>
        set (in_assertions out) \<subseteq> A \<and> set (in_nodes out) \<subseteq> N \<and> set (in_snapshots out) \<subseteq> S"
      unfolding 3(4) using out(1) by (subst granted) (simp_all add: influence_canonicalize_def)
    also have "\<dots> \<longleftrightarrow> (\<forall>i \<in> set both. influence_granted V (Some i))"
      unfolding out(2-4) using 3(2) granted by (simp add: UN_subset_iff) blast
    finally show ?thesis unfolding sides .
  qed
qed

text \<open> Merging the influences of two inputs. The result restricts exactly as both of them together;
  an absent influence restricts nothing, and nothing else restricts the result.
\<close>

theorem influence_merge_exact:
  assumes "inj js" and "influence_merge js left right = Ok merged"
  shows "influence_granted V merged \<longleftrightarrow> influence_granted V left \<and> influence_granted V right"
  by (rule influence_merge_Ok [OF assms])

definition demo_influence :: "string \<Rightarrow> influence" where
  "demo_influence a = no_influence\<lparr>in_assertions := [demo_assertion a]\<rparr>"

theorem influence_merge_exact_witness:
  "\<exists>m. influence_merge plain_text (Some (demo_influence ''b'')) (Some (demo_influence ''a'')) = Ok m
    \<and> (\<not> influence_granted ({demo_assertion ''a''}, {}, {}) m)"
proof -
  have "is_ok (influence_merge plain_text (Some (demo_influence ''b'')) (Some (demo_influence ''a'')))" by code_simp
  then obtain m where run: "influence_merge plain_text (Some (demo_influence ''b'')) (Some (demo_influence ''a'')) = Ok m"
    by (cases "influence_merge plain_text (Some (demo_influence ''b'')) (Some (demo_influence ''a''))") auto
  have "\<not> influence_granted ({demo_assertion ''a''}, {}, {}) m"
    unfolding influence_merge_exact [OF inj_plain_text run]
    by (simp add: influence_granted_def carrier_granted_def demo_influence_def no_influence_def demo_assertion_def)
  then show ?thesis using run by blast
qed

end
