(* ===== verification/Rules_Theorems.thy ===== *)
theory Rules_Theorems
  imports Rules_Model Carrier_Theorems
begin

text \<open>
  What saturation computes: the least model of the rules over its sources, at every instant, and for
  every reader the least model over the sources that reader is shown.
\<close>

section \<open>The least model\<close>

text \<open>A ground atom holds over a set of instants. A valuation of the variables makes ground atoms of a rule.\<close>

type_synonym ground = "string \<times> string \<times> string \<times> bool"

fun term_value :: "(string \<Rightarrow> string) \<Rightarrow> rule_term \<Rightarrow> string" where
  "term_value \<sigma> (Variable x) = \<sigma> x"
| "term_value \<sigma> (NodeConst i) = i"

definition ground_atom :: "(string \<Rightarrow> string) \<Rightarrow> rule_atom \<Rightarrow> ground" where
  "ground_atom \<sigma> a = (ra_predicate a, term_value \<sigma> (ra_from a), term_value \<sigma> (ra_to a), ra_negative a)"

definition fact_ground :: "rule_fact \<Rightarrow> ground" where
  "fact_ground f = (fk_predicate f, fk_from f, fk_to f, fk_negative f)"

definition covers :: "rule_fact \<Rightarrow> int \<Rightarrow> bool" where
  "covers f t \<longleftrightarrow> fk_start f \<le> t \<and> (case fk_end f of None \<Rightarrow> True | Some e \<Rightarrow> t < e)"

inductive least_model :: "rule list \<Rightarrow> rule_fact set \<Rightarrow> int \<Rightarrow> ground \<Rightarrow> bool" for rules sources t where
  given: "f \<in> sources \<Longrightarrow> covers f t \<Longrightarrow> least_model rules sources t (fact_ground f)"
| rule: "r \<in> set rules \<Longrightarrow> (\<And>a. a \<in> set (ru_body r) \<Longrightarrow> least_model rules sources t (ground_atom \<sigma> a))
    \<Longrightarrow> least_model rules sources t (ground_atom \<sigma> (ru_head r))"

text \<open>Its facts with their intervals, as the saturation forms them.\<close>

fun meet :: "int \<times> int option \<Rightarrow> rule_fact \<Rightarrow> int \<times> int option" where
  "meet (start, end) f = (max start (fk_start f), end_intersection end (fk_end f))"

definition nonempty :: "int \<times> int option \<Rightarrow> bool" where
  "nonempty i \<longleftrightarrow> (case snd i of None \<Rightarrow> True | Some e \<Rightarrow> fst i < e)"

definition overlap :: "rule_fact list \<Rightarrow> int \<times> int option" where
  "overlap fs = foldl meet (i64_min, None) fs"

definition follows :: "rule \<Rightarrow> rule_fact list \<Rightarrow> rule_fact \<Rightarrow> bool" where
  "follows r fs f \<longleftrightarrow>
     (\<exists>\<sigma>. map fact_ground fs = map (ground_atom \<sigma>) (ru_body r) \<and> fact_ground f = ground_atom \<sigma> (ru_head r))
     \<and> nonempty (overlap fs) \<and> (fk_start f, fk_end f) = overlap fs"

inductive_set derived :: "rule list \<Rightarrow> rule_fact set \<Rightarrow> rule_fact set" for rules sources where
  source: "f \<in> sources \<Longrightarrow> f \<in> derived rules sources"
| follows: "r \<in> set rules \<Longrightarrow> (\<And>g. g \<in> set fs \<Longrightarrow> g \<in> derived rules sources) \<Longrightarrow> follows r fs f
    \<Longrightarrow> f \<in> derived rules sources"

definition during :: "int \<times> int option \<Rightarrow> int \<Rightarrow> bool" where
  "during i t \<longleftrightarrow> fst i \<le> t \<and> (case snd i of None \<Rightarrow> True | Some e \<Rightarrow> t < e)"

lemma covers_during: "covers f t \<longleftrightarrow> during (fk_start f, fk_end f) t"
  by (simp add: covers_def during_def)

lemma during_nonempty: "during i t \<Longrightarrow> nonempty i"
  by (auto simp: during_def nonempty_def split: option.splits)

lemma during_meet [simp]: "during (meet i f) t \<longleftrightarrow> during i t \<and> covers f t"
  by (cases i) (auto simp: during_def covers_def end_intersection_def split: option.splits)

lemma during_foldl: "during (foldl meet i fs) t \<longleftrightarrow> during i t \<and> (\<forall>f \<in> set fs. covers f t)"
  by (induction fs arbitrary: i) auto

lemma during_overlap: "during (overlap fs) t \<longleftrightarrow> i64_min \<le> t \<and> (\<forall>f \<in> set fs. covers f t)"
  unfolding overlap_def during_foldl by (simp add: during_def)

lemma least_model_of_derived: "f \<in> derived rules sources \<Longrightarrow> covers f t \<Longrightarrow> least_model rules sources t (fact_ground f)"
proof (induction rule: derived.induct)
  case (source f)
  then show ?case by (rule least_model.given)
next
  case (follows r fs f)
  from follows.hyps(3) obtain \<sigma> where body: "map fact_ground fs = map (ground_atom \<sigma>) (ru_body r)"
      and head: "fact_ground f = ground_atom \<sigma> (ru_head r)" and i: "(fk_start f, fk_end f) = overlap fs"
    by (auto simp: follows_def)
  have each: "covers g t" if "g \<in> set fs" for g
    using follows.prems that unfolding covers_during i during_overlap by (simp add: covers_during)
  have "least_model rules sources t (ground_atom \<sigma> a)" if "a \<in> set (ru_body r)" for a
  proof -
    have "ground_atom \<sigma> a \<in> fact_ground ` set fs" using that arg_cong [OF body, of set] by auto
    then show ?thesis using follows.IH each by auto
  qed
  then show ?case unfolding head by (rule least_model.rule [OF follows.hyps(1)])
qed

lemma derived_of_least_model:
  assumes "i64_min \<le> t"
  shows "least_model rules sources t g \<Longrightarrow> \<exists>f \<in> derived rules sources. fact_ground f = g \<and> covers f t"
proof (induction rule: least_model.induct)
  case (given f)
  then show ?case by (auto intro: derived.source)
next
  case (rule r \<sigma>)
  then have "\<forall>a. \<exists>f. a \<in> set (ru_body r) \<longrightarrow> f \<in> derived rules sources \<and> fact_ground f = ground_atom \<sigma> a \<and> covers f t"
    by blast
  then obtain F where F: "F a \<in> derived rules sources" "fact_ground (F a) = ground_atom \<sigma> a" "covers (F a) t"
    if "a \<in> set (ru_body r)" for a by metis
  define fs where "fs = map F (ru_body r)"
  have t: "during (overlap fs) t" unfolding during_overlap fs_def using assms F(3) by simp
  let ?f = "case overlap fs of (start, end) \<Rightarrow> (case ground_atom \<sigma> (ru_head r) of (p, a, b, n) \<Rightarrow> FactKey p a b n start end)"
  have f: "fact_ground ?f = ground_atom \<sigma> (ru_head r)" "(fk_start ?f, fk_end ?f) = overlap fs"
    by (simp_all add: fact_ground_def split: prod.splits)
  have "map fact_ground fs = map (ground_atom \<sigma>) (ru_body r)" unfolding fs_def using F(2) by simp
  then have "follows r fs ?f" unfolding follows_def using f during_nonempty [OF t] by blast
  then have "?f \<in> derived rules sources"
    by (rule derived.follows [OF rule.hyps(1), rotated]) (use F(1) in \<open>auto simp: fs_def\<close>)
  moreover have "covers ?f t" unfolding covers_during f(2) by (rule t)
  ultimately show ?case using f(1) by blast
qed

lemma least_model_iff:
  "i64_min \<le> t \<Longrightarrow> least_model rules sources t g \<longleftrightarrow> (\<exists>f \<in> derived rules sources. fact_ground f = g \<and> covers f t)"
  using derived_of_least_model least_model_of_derived by blast

section \<open>Matching a body\<close>

text \<open>A state without its proof, and its extension by a fact.\<close>

type_synonym view = "bindings \<times> (int \<times> int option) \<times> rule_fact list"

definition view_of :: "rule_state \<Rightarrow> view" where
  "view_of s = (rs_bindings s, (rs_start s, rs_end s), rs_body s)"

fun advance :: "rule_atom \<Rightarrow> view \<Rightarrow> rule_fact \<Rightarrow> view option" where
  "advance a (b, i, body) f =
     Option.bind (atom_matches a f b) (\<lambda>b'. if nonempty (meet i f) then Some (b', meet i f, body @ [f]) else None)"

fun advance_all :: "rule_atom list \<Rightarrow> rule_fact list \<Rightarrow> view \<Rightarrow> view option" where
  "advance_all [] [] v = Some v"
| "advance_all (a # as) (f # fs) v = Option.bind (advance a v f) (advance_all as fs)"
| "advance_all _ _ v = None"

lemma next_interval_iff:
  "next_interval s f = (if nonempty (meet (rs_start s, rs_end s) f) then Some (meet (rs_start s, rs_end s) f) else None)"
  by (auto simp: next_interval_def nonempty_def Let_def split: option.splits)

text \<open>A valuation agrees with bindings; matching narrows the valuations to those under which the atom is the fact.\<close>

definition agrees :: "(string \<Rightarrow> string) \<Rightarrow> bindings \<Rightarrow> bool" where
  "agrees \<sigma> b \<longleftrightarrow> (\<forall>x v. map_of b x = Some v \<longrightarrow> \<sigma> x = v)"

lemma agrees_Nil [simp]: "agrees \<sigma> []"
  by (simp add: agrees_def)

lemma agrees_insert: "map_of b x = None \<Longrightarrow> agrees \<sigma> (bm_insert x v b) \<longleftrightarrow> agrees \<sigma> b \<and> \<sigma> x = v"
  by (auto simp: agrees_def)

lemma match_term_agrees: "(\<exists>b'. match_term t i b = Some b' \<and> agrees \<sigma> b') \<longleftrightarrow> agrees \<sigma> b \<and> term_value \<sigma> t = i"
  by (cases t) (auto simp: match_term_def agrees_insert split: option.splits, auto simp: agrees_def)

lemma match_term_dom: "match_term t i b = Some b' \<Longrightarrow> dom (map_of b') = dom (map_of b) \<union> set (term_variables t)"
  by (cases t) (auto simp: match_term_def split: if_splits option.splits)

lemma bind_agrees:
  assumes "\<And>b'. (\<exists>b''. g b' = Some b'' \<and> agrees \<sigma> b'') \<longleftrightarrow> agrees \<sigma> b' \<and> Q"
  shows "(\<exists>b''. Option.bind x g = Some b'' \<and> agrees \<sigma> b'') \<longleftrightarrow> (\<exists>b'. x = Some b' \<and> agrees \<sigma> b') \<and> Q"
  by (cases x) (simp_all add: assms)

lemma atom_matches_agrees:
  "(\<exists>b'. atom_matches a f b = Some b' \<and> agrees \<sigma> b') \<longleftrightarrow> agrees \<sigma> b \<and> fact_ground f = ground_atom \<sigma> a"
proof -
  note bind_agrees [where \<sigma> = \<sigma> and Q = "term_value \<sigma> (ra_to a) = fk_to f" and g = "match_term (ra_to a) (fk_to f)"
      and x = "match_term (ra_from a) (fk_from f) b", OF match_term_agrees]
  then show ?thesis by (auto simp: atom_matches_def fact_ground_def ground_atom_def match_term_agrees)
qed

lemma atom_matches_dom: "atom_matches a f b = Some b' \<Longrightarrow> dom (map_of b') = dom (map_of b) \<union> set (atom_variables a)"
  unfolding atom_matches_def by (clarsimp simp: atom_variables_def bind_eq_Some_conv Un_assoc dest!: match_term_dom split: if_splits)

lemma agrees_values: "agrees (\<lambda>x. the (map_of b x)) b"
  by (simp add: agrees_def)

lemma endpoint_value: "agrees \<sigma> b \<Longrightarrow> set (term_variables t) \<subseteq> dom (map_of b) \<Longrightarrow> endpoint t b = term_value \<sigma> t"
  by (cases t) (auto simp: endpoint_def agrees_def)

lemma nonempty_meet: "nonempty (meet i f) \<Longrightarrow> nonempty i"
  by (cases i) (auto simp: nonempty_def end_intersection_def split: option.splits)

lemma nonempty_foldl: "nonempty (foldl meet i fs) \<Longrightarrow> nonempty i"
  by (induction fs arbitrary: i) (simp, metis foldl_Cons nonempty_meet)

lemma advance_all_shape:
  "advance_all as fs (b, i, body) = Some (b', j, body') \<Longrightarrow>
     j = foldl meet i fs \<and> body' = body @ fs
     \<and> dom (map_of b') = dom (map_of b) \<union> (\<Union>a \<in> set as. set (atom_variables a))"
proof (induction as arbitrary: fs b i body)
  case Nil
  then show ?case by (cases fs) auto
next
  case (Cons a as)
  from Cons.prems obtain f gs b1 where fs: "fs = f # gs" and b1: "atom_matches a f b = Some b1"
      and "advance_all as gs (b1, meet i f, body @ [f]) = Some (b', j, body')"
    by (cases fs) (auto simp: bind_eq_Some_conv split: if_splits)
  from Cons.IH [OF this(3)] show ?case using atom_matches_dom [OF b1] by (auto simp: fs)
qed

lemma advance_all_agrees:
  assumes "nonempty i"
  shows "(\<exists>v. advance_all as fs (b, i, body) = Some v \<and> agrees \<sigma> (fst v)) \<longleftrightarrow>
     agrees \<sigma> b \<and> map fact_ground fs = map (ground_atom \<sigma>) as \<and> nonempty (foldl meet i fs)"
  using assms
proof (induction as arbitrary: fs b i body)
  case Nil
  then show ?case by (cases fs) auto
next
  case (Cons a as)
  show ?case
  proof (cases fs)
    case fs: (Cons f gs)
    show ?thesis
    proof (cases "nonempty (meet i f)")
      case True
      have "(\<exists>v. advance_all (a # as) fs (b, i, body) = Some v \<and> agrees \<sigma> (fst v)) \<longleftrightarrow>
          (\<exists>b1. atom_matches a f b = Some b1 \<and> (\<exists>v. advance_all as gs (b1, meet i f, body @ [f]) = Some v \<and> agrees \<sigma> (fst v)))"
        using True by (auto simp: fs bind_eq_Some_conv)
      then show ?thesis unfolding Cons.IH [OF True]
        using atom_matches_agrees [of a f b \<sigma>] by (auto simp: fs)
    next
      case False
      then show ?thesis using nonempty_foldl [of "meet i f" gs] by (auto simp: fs bind_eq_Some_conv)
    qed
  qed simp
qed

text \<open>The start of a body, and a rule whose head the body binds.\<close>

abbreviation start_view :: view where
  "start_view \<equiv> ([], (i64_min, None), [])"

definition range_restricted :: "rule \<Rightarrow> bool" where
  "range_restricted r \<longleftrightarrow> set (atom_variables (ru_head r)) \<subseteq> (\<Union>a \<in> set (ru_body r). set (atom_variables a))"

lemma follows_advance:
  assumes "range_restricted r"
  shows "follows r fs f \<longleftrightarrow>
    (\<exists>b start end. advance_all (ru_body r) fs start_view = Some (b, (start, end), fs) \<and> f = head_fact r b start end)"
proof -
  have i: "nonempty (i64_min, None)" by (simp add: nonempty_def)
  have head: "f = head_fact r b start end \<longleftrightarrow> fact_ground f = ground_atom \<sigma> (ru_head r) \<and> (fk_start f, fk_end f) = (start, end)"
    if "advance_all (ru_body r) fs start_view = Some (b, (start, end), fs)" "agrees \<sigma> b" for b start "end" \<sigma>
  proof -
    have "set (atom_variables (ru_head r)) \<subseteq> dom (map_of b)"
      using advance_all_shape [OF that(1)] assms by (auto simp: range_restricted_def)
    then show ?thesis using endpoint_value [OF that(2)]
      by (cases f) (auto simp: head_fact_def fact_ground_def ground_atom_def atom_variables_def)
  qed
  show ?thesis
  proof
    assume f: "follows r fs f"
    then obtain \<sigma> where \<sigma>: "map fact_ground fs = map (ground_atom \<sigma>) (ru_body r)" "fact_ground f = ground_atom \<sigma> (ru_head r)"
      by (auto simp: follows_def)
    then obtain v where v: "advance_all (ru_body r) fs start_view = Some v" "agrees \<sigma> (fst v)"
      using advance_all_agrees [OF i, of "ru_body r" fs "[]" "[]" \<sigma>] f by (auto simp: follows_def overlap_def)
    obtain b start "end" where bv: "v = (b, (start, end), fs)" using advance_all_shape v(1) by (cases v) fastforce
    then have "overlap fs = (start, end)" using advance_all_shape [OF v(1) [unfolded bv]] by (simp add: overlap_def)
    then have "f = head_fact r b start end"
      using head [OF v(1) [unfolded bv], of \<sigma>] v(2) bv \<sigma>(2) f by (simp add: follows_def)
    then show "\<exists>b start end. advance_all (ru_body r) fs start_view = Some (b, (start, end), fs) \<and> f = head_fact r b start end"
      using v(1) bv by blast
  next
    assume "\<exists>b start end. advance_all (ru_body r) fs start_view = Some (b, (start, end), fs) \<and> f = head_fact r b start end"
    then obtain b start "end" where v: "advance_all (ru_body r) fs start_view = Some (b, (start, end), fs)"
      and f: "f = head_fact r b start end" by blast
    let ?\<sigma> = "\<lambda>x. the (map_of b x)"
    have "map fact_ground fs = map (ground_atom ?\<sigma>) (ru_body r)" "nonempty (overlap fs)"
      using advance_all_agrees [OF i, of "ru_body r" fs "[]" "[]" ?\<sigma>] v agrees_values [of b] by (auto simp: overlap_def)
    then show "follows r fs f"
      using head [OF v agrees_values] f advance_all_shape [OF v] by (auto simp: follows_def overlap_def)
  qed
qed

section \<open>What a run shows to a reader\<close>

lemma try_fold_collects:
  assumes "\<And>s x s'. x \<in> set xs \<Longrightarrow> f s x = Inr s' \<Longrightarrow> M s' = M s \<union> G x" and "try_fold f s xs = Inr s'"
  shows "M s' = M s \<union> (\<Union>x \<in> set xs. G x)"
  using assms
proof (induction xs arbitrary: s)
  case (Cons x xs)
  from Cons.prems(2) obtain t where t: "f s x = Inr t" "try_fold f t xs = Inr s'" by auto
  have "M s' = M t \<union> (\<Union>x \<in> set xs. G x)" by (rule Cons.IH [OF Cons.prems(1) t(2)]) simp_all
  then show ?case using Cons.prems(1) [OF _ t(1)] by auto
qed simp

fun proof_granted :: "grants \<Rightarrow> rule_proof \<Rightarrow> bool" where
  "proof_granted (A, N, S) p \<longleftrightarrow> set (pf_leaves p) \<subseteq> A \<and> set (pf_nodes p) \<subseteq> N \<and> set (pf_snapshots p) \<subseteq> S"

definition shown :: "grants \<Rightarrow> facts \<Rightarrow> rule_fact set" where
  "shown V facts = {f. \<exists>ps. (f, ps) \<in> set facts \<and> (\<exists>p \<in> snd ` set ps. proof_granted V p)}"

definition views :: "grants \<Rightarrow> rule_state list \<Rightarrow> view set" where
  "views V states = view_of ` {s \<in> set states. proof_granted V (rs_proof s)}"

lemma views_Nil [simp]: "views V [] = {}"
  by (simp add: views_def)

lemma views_single: "views V [s] = (if proof_granted V (rs_proof s) then {view_of s} else {})"
  by (auto simp: views_def)

lemma granted_empty_proof [simp]: "proof_granted V empty_proof"
  by (cases V) (simp add: empty_proof_def)

lemma merge_proofs_Ok:
  assumes "merge_proofs c l r = Ok m"
  shows "proof_granted V m \<longleftrightarrow> proof_granted V l \<and> proof_granted V r"
    and "pf_trace m = bm_extend (pf_trace l) (pf_trace r)" and "pf_contextual m \<longleftrightarrow> pf_contextual l \<or> pf_contextual r"
proof -
  from assms obtain out where out: "try_fold merge_flat no_influence [proof_influence l, proof_influence r] = Ok out"
    and m: "m = \<lparr>pf_leaves = in_assertions (influence_canonicalize out), pf_nodes = in_nodes (influence_canonicalize out),
       pf_snapshots = in_snapshots (influence_canonicalize out), pf_trace = bm_extend (pf_trace l) (pf_trace r),
       pf_external = bm_extend (pf_external l) (pf_external r), pf_contextual = (pf_contextual l \<or> pf_contextual r)\<rparr>"
    by (auto simp: merge_proofs_def influence_merge_def proof_influence_def Let_def)
  show "proof_granted V m \<longleftrightarrow> proof_granted V l \<and> proof_granted V r"
    using merge_all_Ok [OF out]
    by (cases V) (auto simp: m influence_canonicalize_def no_influence_def proof_influence_def)
  show "pf_trace m = bm_extend (pf_trace l) (pf_trace r)" "pf_contextual m \<longleftrightarrow> pf_contextual l \<or> pf_contextual r"
    by (simp_all add: m)
qed

lemma candidate_Ok:
  assumes "candidate c s f b i p = Ok s'"
  shows "view_of s' = (b, i, rs_body s @ [f])"
    and "proof_granted V (rs_proof s') \<longleftrightarrow> proof_granted V (rs_proof s) \<and> proof_granted V p"
  using assms by (auto simp: candidate_def view_of_def merge_proofs_Ok(1) split: if_splits)

lemma match_proof_Ok:
  assumes "match_proof c s f b i acc p = Ok acc'"
  shows "views V (fst acc') = views V (fst acc) \<union>
    (if proof_granted V (rs_proof s) \<and> proof_granted V p then {(b, i, rs_body s @ [f])} else {})"
proof -
  from assms obtain s' where s': "candidate c s f b i p = Ok s'" "fst acc' = fst acc @ [s']"
    by (auto simp: match_proof_def split: prod.splits)
  have "views V (fst acc') = views V (fst acc) \<union> views V [s']" by (auto simp: s'(2) views_def)
  also have "views V [s'] = (if proof_granted V (rs_proof s') then {view_of s'} else {})" by (rule views_single)
  finally show ?thesis unfolding candidate_Ok [OF s'(1)] .
qed

lemma visit_order_set [simp]: "set (visit_order c ps) = snd ` set ps"
  by (simp add: visit_order_def)

lemma match_fact_Ok:
  assumes "match_fact c a s acc e = Ok acc'"
  shows "views V (fst acc') = views V (fst acc) \<union>
    {v. proof_granted V (rs_proof s) \<and> (\<exists>p \<in> snd ` set (snd e). proof_granted V p) \<and> advance a (view_of s) (fst e) = Some v}"
proof -
  obtain found bytes st f ps where acc: "acc = (found, bytes, st)" and e: "e = (f, ps)" by (metis prod.exhaust)
  from assms obtain steps where run: "(case atom_matches a f (rs_bindings s) of
      None \<Rightarrow> Ok (found, bytes, steps)
    | Some b \<Rightarrow> (case next_interval s f of None \<Rightarrow> Ok (found, bytes, steps)
        | Some i \<Rightarrow> try_fold (match_proof c s f b i) (found, bytes, steps) (visit_order c ps))) = Ok acc'"
    unfolding match_fact_def acc e by auto
  show ?thesis
  proof (cases "\<exists>b i. atom_matches a f (rs_bindings s) = Some b \<and> next_interval s f = Some i")
    case True
    then obtain b i where bi: "atom_matches a f (rs_bindings s) = Some b" "next_interval s f = Some i" by blast
    with run have "try_fold (match_proof c s f b i) (found, bytes, steps) (visit_order c ps) = Ok acc'" by simp
    from try_fold_collects [where M = "\<lambda>acc. views V (fst acc)" and G = "\<lambda>p. if proof_granted V (rs_proof s) \<and> proof_granted V p
      then {(b, i, rs_body s @ [f])} else {}", OF match_proof_Ok this]
    show ?thesis using bi by (auto simp: acc e view_of_def next_interval_iff split: if_splits)
  next
    case False
    then have "fst acc' = found" using run by (auto split: option.splits)
    then show ?thesis using False by (auto simp: acc e view_of_def next_interval_iff bind_eq_Some_conv split: if_splits)
  qed
qed

lemma match_atom_Ok:
  assumes "match_atom c snapshot a states steps = Ok (found, steps')"
  shows "views V found = {v. \<exists>u \<in> views V states. \<exists>f \<in> shown V snapshot. advance a u f = Some v}"
proof -
  let ?H = "\<lambda>s e. {v. proof_granted V (rs_proof s) \<and> (\<exists>p \<in> snd ` set (snd e). proof_granted V p)
      \<and> advance a (view_of s) (fst e) = Some v}"
  let ?G = "\<lambda>s. \<Union>e \<in> set snapshot. ?H s e"
  from assms obtain b where run: "try_fold (\<lambda>acc s. try_fold (match_fact c a s) acc snapshot) ([], rr_bytes c, steps) states
      = Ok (found, b, steps')"
    by (auto simp: match_atom_def)
  have "views V (fst acc') = views V (fst acc) \<union> ?G s" if "try_fold (match_fact c a s) acc snapshot = Ok acc'" for acc s acc'
    by (rule try_fold_collects [where M = "\<lambda>acc. views V (fst acc)", OF match_fact_Ok that])
  from try_fold_collects [where M = "\<lambda>acc. views V (fst acc)" and G = ?G, OF this run]
  have "views V found = (\<Union>s \<in> set states. ?G s)" by simp
  also have "\<dots> = {v. \<exists>u \<in> views V states. \<exists>f \<in> shown V snapshot. advance a u f = Some v}"
    unfolding views_def shown_def by force
  finally show ?thesis .
qed

lemma advance_all_Cons:
  "advance_all (a # as) (f # fs) u = Some v \<longleftrightarrow> (\<exists>w. advance a u f = Some w \<and> advance_all as fs w = Some v)"
  by (simp add: bind_eq_Some_conv)

lemma advance_all_Cons_ex:
  "(\<exists>fs. set fs \<subseteq> F \<and> advance_all (a # as) fs u = Some v)
    \<longleftrightarrow> (\<exists>f \<in> F. \<exists>w. advance a u f = Some w \<and> (\<exists>fs. set fs \<subseteq> F \<and> advance_all as fs w = Some v))"
  (is "?left \<longleftrightarrow> ?right")
proof
  assume ?left
  then obtain fs where fs: "set fs \<subseteq> F" "advance_all (a # as) fs u = Some v" by blast
  then obtain f gs where "fs = f # gs" by (cases fs) auto
  with fs show ?right unfolding advance_all_Cons by (metis advance_all_Cons insert_subset list.simps(15))
next
  assume ?right
  then obtain f w fs where "f \<in> F" "advance a u f = Some w" "set fs \<subseteq> F" "advance_all as fs w = Some v" by blast
  then show ?left by (intro exI [of _ "f # fs"]) (simp add: advance_all_Cons del: advance_all.simps)
qed

lemma match_body_Ok:
  assumes "match_body c snapshot as states steps = Ok (found, steps')"
  shows "views V found = {v. \<exists>u \<in> views V states. \<exists>fs. set fs \<subseteq> shown V snapshot \<and> advance_all as fs u = Some v}"
  using assms
proof (induction as arbitrary: states steps)
  case Nil
  have "(\<exists>fs. set fs \<subseteq> shown V snapshot \<and> advance_all [] fs u = Some v) \<longleftrightarrow> u = v" for u v
    by (rule iffI, erule exE, case_tac fs) (auto intro: exI [of _ "[]"])
  then show ?case using Nil by auto
next
  case (Cons a as)
  from Cons.prems obtain found1 steps1 where one: "match_atom c snapshot a states steps = Ok (found1, steps1)"
    and rest: "(if found1 = [] then Ok ([], steps1) else match_body c snapshot as found1 steps1) = Ok (found, steps')"
    by auto
  have "views V found = {v. \<exists>u \<in> views V found1. \<exists>fs. set fs \<subseteq> shown V snapshot \<and> advance_all as fs u = Some v}"
    using rest Cons.IH by (auto split: if_splits)
  then show ?case unfolding match_atom_Ok [OF one] advance_all_Cons_ex by blast
qed

section \<open>The facts\<close>

text \<open>Facts in order, each with at least one proof, each proof under its key.\<close>

definition proofs_ok :: "rule_run \<Rightarrow> proofs \<Rightarrow> bool" where
  "proofs_ok c ps \<longleftrightarrow> bm_ok ps \<and> ps \<noteq> [] \<and> (\<forall>(k, p) \<in> set ps. k = support_key c p)"

definition facts_ok :: "rule_run \<Rightarrow> facts \<Rightarrow> bool" where
  "facts_ok c facts \<longleftrightarrow> bm_ok facts \<and> (\<forall>(f, ps) \<in> set facts. proofs_ok c ps)"

definition faithful :: "grants \<Rightarrow> rule_run \<Rightarrow> bool" where
  "faithful V c \<longleftrightarrow> (\<forall>p q. support_key c p = support_key c q \<longrightarrow> (proof_granted V p \<longleftrightarrow> proof_granted V q))"

lemma set_bm_insert: "bm_ok m \<Longrightarrow> set (bm_insert k v m) = insert (k, v) {e \<in> set m. fst e \<noteq> k}"
proof (rule set_eqI)
  fix e :: "'a \<times> 'b"
  assume m: "bm_ok m"
  obtain k' v' where e: "e = (k', v')" by (cases e)
  show "e \<in> set (bm_insert k v m) \<longleftrightarrow> e \<in> insert (k, v) {e \<in> set m. fst e \<noteq> k}"
    using bm_ok_map_of [OF m, of k' v'] bm_ok_map_of [OF bm_ok_insert [OF m], of k' v' k v] by (auto simp: e)
qed

lemma map_of_None_others: "map_of m k = None \<Longrightarrow> {e \<in> set m. fst e \<noteq> k} = set m"
  unfolding map_of_eq_None_iff by auto

lemma shownI: "(f, ps) \<in> set facts \<Longrightarrow> (k, p) \<in> set ps \<Longrightarrow> proof_granted V p \<Longrightarrow> f \<in> shown V facts"
  unfolding shown_def by force

lemma shown_iff: "bm_ok facts \<Longrightarrow> f \<in> shown V facts \<longleftrightarrow> (\<exists>ps. map_of facts f = Some ps \<and> (\<exists>p \<in> snd ` set ps. proof_granted V p))"
  unfolding shown_def by (simp add: bm_ok_map_of)

lemma faithfulD: "faithful V c \<Longrightarrow> support_key c p = support_key c q \<Longrightarrow> proof_granted V p \<longleftrightarrow> proof_granted V q"
  unfolding faithful_def by blast

lemma bm_ok_single [simp]: "bm_ok [e]"
  by (simp add: bm_ok_def)

lemma facts_ok_Nil [simp]: "facts_ok c []"
  by (simp add: facts_ok_def)

lemma facts_ok_lookup: "facts_ok c facts \<Longrightarrow> map_of facts f = Some ps \<Longrightarrow> proofs_ok c ps \<and> (f, ps) \<in> set facts"
  using map_of_SomeD by (fastforce simp: facts_ok_def)

text \<open>Adding a proof shows its fact to those it is granted to, and changes nothing when its key is known.\<close>

lemma insert_fact_Ok:
  assumes "insert_fact c facts f p bytes = Ok (new, facts', bytes')" and "facts_ok c facts"
  shows "facts_ok c facts'" and "\<not> new \<Longrightarrow> facts' = facts"
    and "faithful V c \<Longrightarrow> shown V facts' = shown V facts \<union> (if proof_granted V p then {f} else {})"
proof -
  define old where "old = (case map_of facts f of None \<Rightarrow> [] | Some ps \<Rightarrow> ps)"
  let ?key = "support_key c p"
  have old: "old = [] \<or> proofs_ok c old \<and> (f, old) \<in> set facts"
    using facts_ok_lookup [OF assms(2)] by (auto simp: old_def split: option.splits)
  consider (known) q where "map_of old ?key = Some q" "\<not> new" "facts' = facts"
    | (fresh) "map_of old ?key = None" "new" "facts' = bm_insert f (bm_insert ?key p old) facts"
    using assms(1) by (auto simp: insert_fact_def Let_def old_def [symmetric] split: if_splits)
  note cases = this
  have added: "set (bm_insert ?key p old) = insert (?key, p) (set old)" if "map_of old ?key = None"
  proof -
    have "bm_ok old" using old by (auto simp: proofs_ok_def)
    then show ?thesis by (simp add: set_bm_insert map_of_None_others [OF that])
  qed
  have ok: "bm_ok facts" using assms(2) by (simp add: facts_ok_def)
  show "\<not> new \<Longrightarrow> facts' = facts" using cases by auto
  show "facts_ok c facts'"
  proof (cases rule: cases)
    case known
    then show ?thesis using assms(2) by simp
  next
    case fresh
    have "bm_ok (bm_insert ?key p old)" using old by (auto simp: proofs_ok_def)
    then have "proofs_ok c (bm_insert ?key p old)"
      using old added [OF fresh(1)] by (auto simp: proofs_ok_def simp del: bm_ok_insert)
    then show ?thesis using assms(2) by (auto simp: fresh(3) facts_ok_def set_bm_insert [OF ok])
  qed
  show "shown V facts' = shown V facts \<union> (if proof_granted V p then {f} else {})" if V: "faithful V c"
  proof (cases rule: cases)
    case (known q)
    have q: "(?key, q) \<in> set old" by (rule map_of_SomeD [OF known(1)])
    then have "?key = support_key c q" "(f, old) \<in> set facts" using old by (auto simp: proofs_ok_def)
    then have "proof_granted V p \<Longrightarrow> f \<in> shown V facts" using V q shownI faithfulD by metis
    then show ?thesis by (auto simp: known(3))
  next
    case fresh
    have "x \<in> shown V facts' \<longleftrightarrow> x \<in> shown V facts \<or> x = f \<and> proof_granted V p" for x
    proof (cases "x = f")
      case True
      have "f \<in> shown V facts \<longleftrightarrow> (\<exists>q \<in> snd ` set old. proof_granted V q)"
        unfolding shown_iff [OF ok] by (cases "map_of facts f") (simp_all add: old_def)
      then show ?thesis unfolding fresh(3) shown_iff [OF bm_ok_insert [OF ok]] by (simp add: True added [OF fresh(1)] disj_commute)
    next
      case False
      then show ?thesis unfolding fresh(3) shown_iff [OF ok] shown_iff [OF bm_ok_insert [OF ok]] by simp
    qed
    then show ?thesis by auto
  qed
qed

section \<open>Rounds\<close>

text \<open>What the rules conclude from facts, all at once.\<close>

definition consequences :: "rule \<Rightarrow> rule_fact set \<Rightarrow> rule_fact set" where
  "consequences r F = {f. \<exists>fs. set fs \<subseteq> F \<and> follows r fs f}"

lemma conclude_Ok:
  assumes "conclude c r g s = Ok g'" and "facts_ok c (pg_facts g)"
  shows "facts_ok c (pg_facts g') \<and> (\<not> pg_changed g' \<longrightarrow> pg_facts g' = pg_facts g \<and> \<not> pg_changed g)"
    and "faithful V c \<Longrightarrow> shown V (pg_facts g') = shown V (pg_facts g) \<union>
      (if proof_granted V (rs_proof s) then {head_fact r (rs_bindings s) (rs_start s) (rs_end s)} else {})"
proof -
  let ?f = "head_fact r (rs_bindings s) (rs_start s) (rs_end s)"
  let ?t = "rule_trace c r s ?f"
  let ?p = "(rs_proof s)\<lparr>pf_trace := bm_insert (digest c (json_trace ?t)) ?t (pf_trace (rs_proof s))\<rparr>"
  have granted: "proof_granted V ?p \<longleftrightarrow> proof_granted V (rs_proof s)" for V by (cases V) simp
  consider (known) ps q where "map_of (pg_facts g) ?f = Some ps" "map_of ps (support_key c (rs_proof s)) = Some q"
      "pg_facts g' = pg_facts g" "pg_changed g' = pg_changed g"
    | (fresh) new bytes where "insert_fact c (pg_facts g) ?f ?p (pg_bytes g) = Ok (new, pg_facts g', bytes)"
      "pg_changed g' \<longleftrightarrow> pg_changed g \<or> new"
  proof (cases "\<exists>ps q. map_of (pg_facts g) ?f = Some ps \<and> map_of ps (support_key c (rs_proof s)) = Some q")
    case True
    then show thesis using assms(1) known by (auto simp: conclude_def Let_def)
  next
    case False
    then have "\<not> (case map_of (pg_facts g) ?f of None \<Rightarrow> False | Some ps \<Rightarrow> map_of ps (support_key c (rs_proof s)) \<noteq> None)"
      by (auto split: option.splits)
    then obtain new facts bytes where "insert_fact c (pg_facts g) ?f ?p (pg_bytes g) = Ok (new, facts, bytes)"
        "pg_facts g' = facts" "pg_changed g' \<longleftrightarrow> pg_changed g \<or> new"
      using assms(1) by (auto simp: conclude_def Let_def)
    then show thesis using fresh by blast
  qed
  note cases = this
  show "facts_ok c (pg_facts g') \<and> (\<not> pg_changed g' \<longrightarrow> pg_facts g' = pg_facts g \<and> \<not> pg_changed g)"
    by (cases rule: cases) (use assms(2) insert_fact_Ok in auto)
  show "shown V (pg_facts g') = shown V (pg_facts g) \<union> (if proof_granted V (rs_proof s) then {?f} else {})" if V: "faithful V c"
  proof (cases rule: cases)
    case (known ps q)
    have "(?f, ps) \<in> set (pg_facts g)" "(support_key c (rs_proof s), q) \<in> set ps" "support_key c (rs_proof s) = support_key c q"
      using facts_ok_lookup [OF assms(2) known(1)] map_of_SomeD [OF known(2)] by (auto simp: proofs_ok_def)
    then have "proof_granted V (rs_proof s) \<Longrightarrow> ?f \<in> shown V (pg_facts g)" using V shownI faithfulD by metis
    then show ?thesis by (auto simp: known(3))
  next
    case fresh
    show ?thesis using insert_fact_Ok(3) [OF fresh(1) assms(2) V] by (simp add: granted)
  qed
qed

lemma conclude_all_Ok:
  assumes "try_fold (conclude c r) g states = Ok g'" and "facts_ok c (pg_facts g)"
  shows "facts_ok c (pg_facts g') \<and> (\<not> pg_changed g' \<longrightarrow> pg_facts g' = pg_facts g \<and> \<not> pg_changed g)"
    and "faithful V c \<Longrightarrow> shown V (pg_facts g') = shown V (pg_facts g) \<union>
      {head_fact r b start end | b start end body. (b, (start, end), body) \<in> views V states}"
proof -
  have "facts_ok c (pg_facts g') \<and> (\<not> pg_changed g' \<longrightarrow> pg_facts g' = pg_facts g \<and> \<not> pg_changed g)
     \<and> (faithful V c \<longrightarrow> shown V (pg_facts g') = shown V (pg_facts g) \<union>
      {head_fact r b start end | b start end body. (b, (start, end), body) \<in> views V states})" for V
    using assms
  proof (induction states arbitrary: g)
    case (Cons s states)
    then obtain g1 where g1: "conclude c r g s = Ok g1" "try_fold (conclude c r) g1 states = Ok g'" by auto
    note one = conclude_Ok(1) [OF g1(1) Cons.prems(2)]
    have "{head_fact r b start end | b start end body. (b, (start, end), body) \<in> views V (s # states)} =
        (if proof_granted V (rs_proof s) then {head_fact r (rs_bindings s) (rs_start s) (rs_end s)} else {})
        \<union> {head_fact r b start end | b start end body. (b, (start, end), body) \<in> views V states}"
      by (auto simp: views_def view_of_def image_iff)
    then show ?case using Cons.IH [OF g1(2) conjunct1 [OF one]] one conclude_Ok(2) [OF g1(1) Cons.prems(2), of V]
      by (simp add: Un_assoc)
  qed simp
  then show "facts_ok c (pg_facts g') \<and> (\<not> pg_changed g' \<longrightarrow> pg_facts g' = pg_facts g \<and> \<not> pg_changed g)"
    and "faithful V c \<Longrightarrow> shown V (pg_facts g') = shown V (pg_facts g) \<union>
      {head_fact r b start end | b start end body. (b, (start, end), body) \<in> views V states}" by blast+
qed

lemma apply_rule_Ok:
  assumes "apply_rule c snapshot g r = Ok g'" and "facts_ok c (pg_facts g)"
  shows "facts_ok c (pg_facts g') \<and> (\<not> pg_changed g' \<longrightarrow> pg_facts g' = pg_facts g \<and> \<not> pg_changed g)"
    and "faithful V c \<Longrightarrow> range_restricted r
      \<Longrightarrow> shown V (pg_facts g') = shown V (pg_facts g) \<union> consequences r (shown V snapshot)"
proof -
  from assms(1) obtain states steps where body: "match_body c snapshot (ru_body r) [initial_state] (pg_steps g) = Ok (states, steps)"
    and run: "try_fold (conclude c r) (g\<lparr>pg_steps := steps\<rparr>) states = Ok g'"
    by (auto simp: apply_rule_def)
  show "facts_ok c (pg_facts g') \<and> (\<not> pg_changed g' \<longrightarrow> pg_facts g' = pg_facts g \<and> \<not> pg_changed g)"
    using conclude_all_Ok(1) [OF run] assms(2) by simp
  assume V: "faithful V c" and r: "range_restricted r"
  have "views V [initial_state] = {start_view}"
  proof -
    have "proof_granted V (rs_proof initial_state)" "view_of initial_state = start_view"
      by (simp_all add: initial_state_def view_of_def)
    then show ?thesis by (simp add: views_single)
  qed
  then have states: "views V states = {v. \<exists>fs. set fs \<subseteq> shown V snapshot \<and> advance_all (ru_body r) fs start_view = Some v}"
    using match_body_Ok [OF body] by simp
  have "(b, i, fs) \<in> views V states \<longleftrightarrow> set fs \<subseteq> shown V snapshot \<and> advance_all (ru_body r) fs start_view = Some (b, i, fs)" for b i fs
    unfolding states using advance_all_shape [of "ru_body r" _ "[]" "(i64_min, None)" "[]" b i fs] by auto
  then have "{head_fact r b start end | b start end body. (b, (start, end), body) \<in> views V states}
      = {head_fact r b start end | b start end fs. set fs \<subseteq> shown V snapshot
          \<and> advance_all (ru_body r) fs start_view = Some (b, (start, end), fs)}" by simp
  also have "\<dots> = consequences r (shown V snapshot)"
    unfolding consequences_def follows_advance [OF r] by (rule Collect_cong) blast
  finally have "{head_fact r b start end | b start end body. (b, (start, end), body) \<in> views V states}
      = consequences r (shown V snapshot)" .
  then show "shown V (pg_facts g') = shown V (pg_facts g) \<union> consequences r (shown V snapshot)"
    using conclude_all_Ok(2) [OF run _ V] assms(2) by simp
qed

lemma rule_round_Ok:
  assumes "rule_round c g = Ok g'" and "facts_ok c (pg_facts g)"
  shows "facts_ok c (pg_facts g') \<and> (\<not> pg_changed g' \<longrightarrow> pg_facts g' = pg_facts g)"
    and "faithful V c \<Longrightarrow> \<forall>r \<in> set (rl_rules (rr_set c)). range_restricted r
      \<Longrightarrow> shown V (pg_facts g') = shown V (pg_facts g) \<union> (\<Union>r \<in> set (rl_rules (rr_set c)). consequences r (shown V (pg_facts g)))"
proof -
  have "facts_ok c (pg_facts h') \<and> (\<not> pg_changed h' \<longrightarrow> pg_facts h' = pg_facts h \<and> \<not> pg_changed h)
      \<and> (faithful V c \<longrightarrow> (\<forall>r \<in> set rs. range_restricted r) \<longrightarrow>
        shown V (pg_facts h') = shown V (pg_facts h) \<union> (\<Union>r \<in> set rs. consequences r (shown V snapshot)))"
    if "try_fold (apply_rule c snapshot) h rs = Ok h'" "facts_ok c (pg_facts h)" for h h' rs V snapshot
    using that
  proof (induction rs arbitrary: h)
    case (Cons r rs)
    then obtain h1 where h1: "apply_rule c snapshot h r = Ok h1" "try_fold (apply_rule c snapshot) h1 rs = Ok h'" by auto
    note one = apply_rule_Ok(1) [OF h1(1) Cons.prems(2)]
    note rest = Cons.IH [OF h1(2) conjunct1 [OF one]]
    show ?case
    proof (intro conjI impI)
      assume "faithful V c" "\<forall>r \<in> set (r # rs). range_restricted r"
      then show "shown V (pg_facts h') = shown V (pg_facts h) \<union> (\<Union>r \<in> set (r # rs). consequences r (shown V snapshot))"
        using rest apply_rule_Ok(2) [OF h1(1) Cons.prems(2), of V] by (simp add: Un_assoc)
    qed (use one rest in simp_all)
  qed simp
  note round = this [OF assms(1) [unfolded rule_round_def]]
  show "facts_ok c (pg_facts g') \<and> (\<not> pg_changed g' \<longrightarrow> pg_facts g' = pg_facts g)"
    using round assms(2) by simp
  show "faithful V c \<Longrightarrow> \<forall>r \<in> set (rl_rules (rr_set c)). range_restricted r
      \<Longrightarrow> shown V (pg_facts g') = shown V (pg_facts g) \<union> (\<Union>r \<in> set (rl_rules (rr_set c)). consequences r (shown V (pg_facts g)))"
    using round [of V] assms(2) by simp
qed

lemma rule_rounds_Ok:
  assumes "rule_rounds n c g = Ok facts" and "facts_ok c (pg_facts g)" and "faithful V c"
    and "\<forall>r \<in> set (rl_rules (rr_set c)). range_restricted r"
    and "shown V (pg_facts g) \<subseteq> derived (rl_rules (rr_set c)) S" and "S \<subseteq> shown V (pg_facts g)"
  shows "shown V facts = derived (rl_rules (rr_set c)) S"
  using assms
proof (induction n arbitrary: g)
  case (Suc n)
  from Suc.prems(1) obtain g' where g': "rule_round c g = Ok g'"
      and rest: "(if pg_changed g' then rule_rounds n c g' else Ok (pg_facts g')) = Ok facts" by auto
  let ?R = "set (rl_rules (rr_set c))"
  note ok = rule_round_Ok(1) [OF g' Suc.prems(2)]
  note grown = rule_round_Ok(2) [OF g' Suc.prems(2-4)]
  have sound: "consequences r (shown V (pg_facts g)) \<subseteq> derived (rl_rules (rr_set c)) S" if "r \<in> ?R" for r
    unfolding consequences_def
  proof clarify
    fix f fs assume fs: "set fs \<subseteq> shown V (pg_facts g)" "follows r fs f"
    show "f \<in> derived (rl_rules (rr_set c)) S"
      by (rule derived.follows [OF that _ fs(2)]) (rule subsetD [OF subset_trans [OF fs(1) Suc.prems(5)]])
  qed
  show ?case
  proof (cases "pg_changed g'")
    case True
    have "shown V (pg_facts g') \<subseteq> derived (rl_rules (rr_set c)) S" "S \<subseteq> shown V (pg_facts g')"
      unfolding grown using Suc.prems(5,6) sound by blast+
    then show ?thesis using Suc.IH [of g'] rest True ok Suc.prems(3,4) by simp
  next
    case False
    then have facts: "facts = pg_facts g" and closed: "consequences r (shown V (pg_facts g)) \<subseteq> shown V (pg_facts g)" if "r \<in> ?R" for r
      using rest ok grown that by auto
    have same: "facts = pg_facts g" using False rest ok by simp
    have "f \<in> shown V facts" if "f \<in> derived (rl_rules (rr_set c)) S" for f
      using that
    proof (induction rule: derived.induct)
      case (source f)
      then show ?case using Suc.prems(6) same by auto
    next
      case (follows r fs f)
      then have "f \<in> consequences r (shown V (pg_facts g))" unfolding consequences_def same [symmetric] by blast
      then show ?case using closed [OF follows.hyps(1)] same by auto
    qed
    then show ?thesis using Suc.prems(5) same by auto
  qed
qed simp

lemma saturate_Ok:
  assumes "saturate c sources = Ok facts" and "faithful V c" and "\<forall>r \<in> set (rl_rules (rr_set c)). range_restricted r"
  shows "shown V facts = derived (rl_rules (rr_set c)) {f. \<exists>p. (f, p) \<in> set sources \<and> proof_granted V p}"
proof -
  from assms(1) obtain given bytes where given: "try_fold (add_source c) ([], rr_bytes c) sources = Ok (given, bytes)"
    and run: "rule_rounds (rb_rounds (rr_budget c)) c \<lparr>pg_facts = given, pg_bytes = bytes, pg_steps = 0, pg_changed = False\<rparr> = Ok facts"
    by (auto simp: saturate_def)
  have "facts_ok c (fst s') \<and> shown V (fst s') = shown V (fst s) \<union> {f. \<exists>p. (f, p) \<in> set fps \<and> proof_granted V p}"
    if "try_fold (add_source c) s fps = Ok s'" "facts_ok c (fst s)" for s s' fps
    using that
  proof (induction fps arbitrary: s)
    case (Cons fp fps)
    then obtain s1 where s1: "add_source c s fp = Ok s1" and rest: "try_fold (add_source c) s1 fps = Ok s'" by auto
    then obtain new facts1 bytes1 where one: "insert_fact c (fst s) (fst fp) (snd fp) (snd s) = Ok (new, facts1, bytes1)"
      and s1: "s1 = (facts1, bytes1)"
      by (cases s) (auto simp: add_source_def)
    note facts1 = insert_fact_Ok [OF one Cons.prems(2)]
    have "{f. \<exists>p. (f, p) \<in> set (fp # fps) \<and> proof_granted V p} =
        (if proof_granted V (snd fp) then {fst fp} else {}) \<union> {f. \<exists>p. (f, p) \<in> set fps \<and> proof_granted V p}"
      by (cases fp) auto
    then show ?case using Cons.IH [OF rest] facts1(1) facts1(3) [OF assms(2)] by (simp add: s1 Un_assoc)
  qed simp
  from this [OF given] have init: "facts_ok c given" "shown V given = {f. \<exists>p. (f, p) \<in> set sources \<and> proof_granted V p}"
    by (simp_all add: shown_def)
  show ?thesis
    by (rule rule_rounds_Ok [OF run _ assms(2,3)]) (auto simp: init intro: derived.source)
qed

section \<open>Validated rules\<close>

lemma concat_Nil: "concat (map f xs) = [] \<longleftrightarrow> (\<forall>x \<in> set xs. f x = [])"
  by (induction xs) auto

lemma set_fold_bs_insert: "set (fold bs_insert xs ys) = set xs \<union> set ys"
  by (induction xs arbitrary: ys) auto

lemma rule_errors_Nil: "rule_errors r = [] \<Longrightarrow> range_restricted r"
proof -
  assume "rule_errors r = []"
  then have "\<forall>x \<in> set (atom_variables (ru_head r)). x \<in> set (fold bs_insert (concat (map atom_variables (ru_body r))) [])"
    unfolding rule_errors_def Let_def append_is_Nil_conv concat_Nil by (auto split: if_splits)
  then show ?thesis by (auto simp: range_restricted_def set_fold_bs_insert)
qed

lemma rule_turns_Nil: "snd (foldl rule_turn (names, errs) rs) = [] \<Longrightarrow> errs = [] \<and> (\<forall>r \<in> set rs. rule_errors r = [])"
proof (induction rs arbitrary: names errs)
  case (Cons r rs)
  obtain names1 errs1 where turn: "rule_turn (names, errs) r = (names1, errs1)" by (cases "rule_turn (names, errs) r")
  with Cons have "errs1 = []" "\<forall>r \<in> set rs. rule_errors r = []" by auto
  then show ?case using turn by (auto simp: rule_turn_def split: if_splits)
qed simp

lemma validate_rule_set_Nil: "validate_rule_set s = [] \<Longrightarrow> \<forall>r \<in> set (rl_rules s). range_restricted r"
  using rule_turns_Nil [of "[]" "[]" "rl_rules s"] rule_errors_Nil by (auto simp: validate_rule_set_def split: if_splits)

lemma reason_facts_Ok:
  assumes "reason_facts c sources = Ok facts" and "faithful V c"
  shows "shown V facts = derived (rl_rules (rr_set c)) {f. \<exists>p. (f, p) \<in> set sources \<and> proof_granted V p}"
proof -
  from assms(1) have "validate_rule_set (rr_set c) = []" "saturate c sources = Ok facts"
    by (auto simp: reason_facts_def split: list.splits)
  then show ?thesis using saturate_Ok assms(2) validate_rule_set_Nil by blast
qed

lemma rule_rounds_facts_ok: "rule_rounds n c g = Ok facts \<Longrightarrow> facts_ok c (pg_facts g) \<Longrightarrow> facts_ok c facts"
proof (induction n arbitrary: g)
  case (Suc n)
  then obtain g' where g': "rule_round c g = Ok g'"
      and rest: "(if pg_changed g' then rule_rounds n c g' else Ok (pg_facts g')) = Ok facts" by auto
  then show ?case using rule_round_Ok(1) [OF g' Suc.prems(2)] Suc.IH by (auto split: if_splits)
qed simp

lemma reason_facts_ok:
  assumes "reason_facts c sources = Ok facts"
  shows "facts_ok c facts"
proof -
  from assms obtain s' where given: "try_fold (add_source c) ([], rr_bytes c) sources = Ok s'"
    and run: "rule_rounds (rb_rounds (rr_budget c)) c \<lparr>pg_facts = fst s', pg_bytes = snd s', pg_steps = 0, pg_changed = False\<rparr> = Ok facts"
    by (auto simp: reason_facts_def saturate_def split: list.splits)
  from given have "facts_ok c (fst s')"
    by (rule try_fold_invariant [where P = "\<lambda>s. facts_ok c (fst s)", rotated 2])
      (auto simp: add_source_def dest: insert_fact_Ok(1))
  then show ?thesis using rule_rounds_facts_ok [OF run] by simp
qed

lemma shown_all: "facts_ok c facts \<Longrightarrow> shown (UNIV, UNIV, UNIV) facts = fst ` set facts"
  by (force simp: shown_def facts_ok_def proofs_ok_def neq_Nil_conv image_iff)

lemma faithful_all: "faithful (UNIV, UNIV, UNIV) c"
  by (simp add: faithful_def)

lemma faithful_digest:
  assumes "inj (rr_js c)" and "inj (rr_sha c)"
  shows "faithful V c"
proof -
  have js: "inj json_assertion" "inj json_node" "inj json_snapshot"
    by (auto simp: inj_def json_assertion_def json_node_def json_snapshot_def)
  have "pf_leaves p = pf_leaves q \<and> pf_nodes p = pf_nodes q \<and> pf_snapshots p = pf_snapshots q" if "support_key c p = support_key c q" for p q
    using that unfolding support_key_def digest_def
    by (auto simp: inj_eq [OF assms(1)] inj_eq [OF assms(2)] inj_map_eq_map [OF js(1)] inj_map_eq_map [OF js(2)]
        inj_map_eq_map [OF js(3)] split: if_splits)
  then show ?thesis unfolding faithful_def by (cases V) (metis proof_granted.simps)
qed

section \<open>Properties\<close>

text \<open> C25: A completed saturation is the least model of its rules at every instant. A ground atom holds at an
  instant in some fact of the result exactly when it follows from the sources that hold at that
  instant; nothing is missed by intersecting intervals, by the order of rules and facts, or by
  rounds that see the facts of the round before, and nothing else is concluded.
\<close>

theorem saturation_least_model:
  assumes "reason_facts c sources = Ok facts" and "i64_min \<le> t"
  shows "(\<exists>f \<in> fst ` set facts. fact_ground f = a \<and> covers f t)
    \<longleftrightarrow> least_model (rl_rules (rr_set c)) (fst ` set sources) t a"
proof -
  have "{f. \<exists>p. (f, p) \<in> set sources \<and> proof_granted (UNIV, UNIV, UNIV) p} = fst ` set sources" by force
  then have "fst ` set facts = derived (rl_rules (rr_set c)) (fst ` set sources)"
    using reason_facts_Ok [OF assms(1) faithful_all] shown_all [OF reason_facts_ok [OF assms(1)]] by simp
  then show ?thesis unfolding least_model_iff [OF assms(2)] by simp
qed

text \<open> C26: The proofs of a completed saturation disclose exactly what their reader may know. For every set of
  grants, the facts with a proof all of whose leaves, nodes and snapshots are granted are the least
  model over the sources with such a proof: no granted proof rests on a withheld source, and no
  conclusion from granted sources lacks a granted proof. The digests are taken as free of
  collisions.
\<close>

theorem saturation_discloses_exactly:
  assumes "reason_facts c sources = Ok facts" and "inj (rr_js c)" and "inj (rr_sha c)" and "i64_min \<le> t"
  shows "(\<exists>(f, ps) \<in> set facts. (\<exists>p \<in> snd ` set ps. proof_granted V p) \<and> fact_ground f = a \<and> covers f t)
    \<longleftrightarrow> least_model (rl_rules (rr_set c)) {f. \<exists>p. (f, p) \<in> set sources \<and> proof_granted V p} t a"
proof -
  have "(\<exists>(f, ps) \<in> set facts. (\<exists>p \<in> snd ` set ps. proof_granted V p) \<and> fact_ground f = a \<and> covers f t)
      \<longleftrightarrow> (\<exists>f \<in> shown V facts. fact_ground f = a \<and> covers f t)"
    unfolding shown_def by blast
  then show ?thesis
    unfolding least_model_iff [OF assms(4)] reason_facts_Ok [OF assms(1) faithful_digest [OF assms(2,3)]] .
qed

end
