(* ===== verification/Rules_Examples.thy ===== *)
theory Rules_Examples
  imports Rules_Theorems
begin

text \<open>
  A run of the saturation: a transitive relation over two links that hold over different intervals,
  each with a leaf of its own.
\<close>

definition demo_atom :: "string \<Rightarrow> string \<Rightarrow> string \<Rightarrow> rule_atom" where
  "demo_atom p x y = \<lparr>ra_predicate = p, ra_from = Variable x, ra_to = Variable y, ra_negative = False\<rparr>"

definition demo_rule :: rule where
  "demo_rule = \<lparr>ru_id = ''t'', ru_head = demo_atom ''l'' ''x'' ''z'', ru_body = [demo_atom ''l'' ''x'' ''y'', demo_atom ''l'' ''y'' ''z''],
     ru_cross_space = False\<rparr>"

definition demo_run :: rule_run where
  "demo_run = \<lparr>rr_set = \<lparr>rl_id = ''m'', rl_revision = ''1'', rl_rules = [demo_rule]\<rparr>,
     rr_budget = \<lparr>rb_steps = 100, rb_rounds = 3, rb_facts = 10, rb_derivations = 4\<rparr>, rr_objects = 10, rr_bytes = 100000,
     rr_spaces = [], rr_js = plain_text, rr_sha = id\<rparr>"

definition demo_source :: "string \<Rightarrow> string \<Rightarrow> int \<Rightarrow> int \<Rightarrow> rule_fact \<times> rule_proof" where
  "demo_source x y start end = (FactKey ''l'' x y False start (Some end), empty_proof\<lparr>pf_leaves := [demo_assertion x]\<rparr>)"

definition demo_sources :: "(rule_fact \<times> rule_proof) list" where
  "demo_sources = [demo_source ''a'' ''b'' 0 10, demo_source ''b'' ''c'' 5 20]"

lemma demo_reason: "is_ok (reason_facts demo_run demo_sources)"
  by code_simp

lemma demo_reason_Ok: "\<exists>facts. reason_facts demo_run demo_sources = Ok facts"
  using demo_reason by (cases "reason_facts demo_run demo_sources") auto

lemma demo_digests: "inj (rr_js demo_run)" "inj (rr_sha demo_run)"
  by (simp_all add: demo_run_def inj_plain_text)

text \<open>The two links make a path from \<open>a\<close> to \<open>c\<close> at 7; without sources nothing holds.\<close>

lemma demo_path:
  assumes "fst (demo_source ''a'' ''b'' 0 10) \<in> F" and "fst (demo_source ''b'' ''c'' 5 20) \<in> F"
  shows "least_model (rl_rules (rr_set demo_run)) F 7 (''l'', ''a'', ''c'', False)"
proof -
  let ?\<sigma> = "\<lambda>x. if x = ''x'' then ''a'' else if x = ''y'' then ''b'' else ''c''"
  have links: "least_model (rl_rules (rr_set demo_run)) F 7 (''l'', ''a'', ''b'', False)"
      "least_model (rl_rules (rr_set demo_run)) F 7 (''l'', ''b'', ''c'', False)"
    using least_model.given [OF assms(1), of 7] least_model.given [OF assms(2), of 7]
    by (simp_all add: demo_source_def covers_def fact_ground_def)
  have "least_model (rl_rules (rr_set demo_run)) F 7 (ground_atom ?\<sigma> (ru_head demo_rule))"
    by (rule least_model.rule) (use links in \<open>auto simp: demo_run_def demo_rule_def demo_atom_def ground_atom_def\<close>)
  then show ?thesis by (simp add: ground_atom_def demo_rule_def demo_atom_def)
qed

lemma least_model_without_sources: "least_model rules {} t a \<Longrightarrow> \<forall>r \<in> set rules. ru_body r \<noteq> [] \<Longrightarrow> False"
  by (induction rule: least_model.induct) (simp, metis list.set_intros(1) neq_Nil_conv)

theorem saturation_least_model_witness:
  "\<exists>facts. reason_facts demo_run demo_sources = Ok facts
    \<and> (\<exists>f \<in> fst ` set facts. fact_ground f = (''l'', ''a'', ''c'', False) \<and> covers f 7)"
proof -
  obtain facts where run: "reason_facts demo_run demo_sources = Ok facts" using demo_reason_Ok by blast
  have "\<exists>f \<in> fst ` set facts. fact_ground f = (''l'', ''a'', ''c'', False) \<and> covers f 7"
    by (rule saturation_least_model [OF run, THEN iffD2]) (simp_all add: i64_min_def demo_path demo_sources_def)
  then show ?thesis using run by blast
qed

theorem saturation_discloses_exactly_witness:
  "\<exists>facts. reason_facts demo_run demo_sources = Ok facts
    \<and> (\<exists>(f, ps) \<in> set facts. (\<exists>p \<in> snd ` set ps. proof_granted ({demo_assertion ''a'', demo_assertion ''b''}, {}, {}) p)
        \<and> fact_ground f = (''l'', ''a'', ''c'', False) \<and> covers f 7)
    \<and> \<not> (\<exists>(f, ps) \<in> set facts. (\<exists>p \<in> snd ` set ps. proof_granted ({}, {}, {}) p)
        \<and> fact_ground f = (''l'', ''a'', ''c'', False) \<and> covers f 7)"
proof -
  obtain facts where run: "reason_facts demo_run demo_sources = Ok facts" using demo_reason_Ok by blast
  have t: "i64_min \<le> 7" by (simp add: i64_min_def)
  note exact = saturation_discloses_exactly [OF run demo_digests t, of _ "(''l'', ''a'', ''c'', False)"]
  have "{f. \<exists>p. (f, p) \<in> set demo_sources \<and> proof_granted ({}, {}, {}) p} = {}"
    by (auto simp: demo_sources_def demo_source_def)
  moreover have "\<forall>r \<in> set (rl_rules (rr_set demo_run)). ru_body r \<noteq> []"
    by (simp add: demo_run_def demo_rule_def)
  ultimately have neg: "\<not> least_model (rl_rules (rr_set demo_run)) {f. \<exists>p. (f, p) \<in> set demo_sources
      \<and> proof_granted ({}, {}, {}) p} 7 (''l'', ''a'', ''c'', False)"
    using least_model_without_sources by metis
  have pos: "least_model (rl_rules (rr_set demo_run)) {f. \<exists>p. (f, p) \<in> set demo_sources
      \<and> proof_granted ({demo_assertion ''a'', demo_assertion ''b''}, {}, {}) p} 7 (''l'', ''a'', ''c'', False)"
  proof (rule demo_path; rule CollectI)
    show "\<exists>p. (fst (demo_source ''a'' ''b'' 0 10), p) \<in> set demo_sources \<and> proof_granted ({demo_assertion ''a'', demo_assertion ''b''}, {}, {}) p"
      by (rule exI [of _ "snd (demo_source ''a'' ''b'' 0 10)"]) (simp add: demo_sources_def, simp add: demo_source_def empty_proof_def)
    show "\<exists>p. (fst (demo_source ''b'' ''c'' 5 20), p) \<in> set demo_sources \<and> proof_granted ({demo_assertion ''a'', demo_assertion ''b''}, {}, {}) p"
      by (rule exI [of _ "snd (demo_source ''b'' ''c'' 5 20)"]) (simp add: demo_sources_def, simp add: demo_source_def empty_proof_def)
  qed
  show ?thesis unfolding run by (intro exI [of _ facts] conjI refl) (unfold exact, rule pos, rule neg)
qed

end
