(* ===== verification/Cluster_Model.thy ===== *)
theory Cluster_Model
  imports Context_Model
begin

text \<open>
  Lazy aggregation of an authorized topology (\<open>weave-cluster/src/lib.rs\<close>): a hierarchy over the nodes of a
  snapshot whose frontier is coarsened level by level, by maximal matchings of linked members.
\<close>

definition digest_of :: "codec \<Rightarrow> string \<Rightarrow> jvalue \<Rightarrow> string" where
  "digest_of cd prefix v = prefix @ cd_sha cd (cd_js cd v)"

section \<open>Data\<close>

definition algorithm_name :: string where
  "algorithm_name = ''weave:topology-matching:1''"

definition max_cluster_input :: nat where
  "max_cluster_input = 16 * 1024 * 1024"

definition max_nodes :: nat where
  "max_nodes = 10000"

definition max_links :: nat where
  "max_links = 100000"

definition max_work :: nat where
  "max_work = 2000000"

definition max_output :: nat where
  "max_output = 32 * 1024 * 1024"

record source_link =
  lk_id :: string
  lk_from :: string
  lk_to :: string
  lk_evidence :: "assertion_ref list"

record topology_snapshot =
  ts_perspective :: string
  ts_context :: context_selection
  ts_valid_at :: int
  ts_sources :: "graph_ref list"
  ts_nodes :: "string list"
  ts_links :: "source_link list"
  ts_partial :: bool

datatype member = Leaf string | Cluster string

definition member_rank :: "member \<Rightarrow> nat \<times> string" where
  "member_rank m = (case m of Leaf s \<Rightarrow> (0, s) | Cluster s \<Rightarrow> (1, s))"

lemma member_rank_inject: "member_rank a = member_rank b \<longleftrightarrow> a = b"
  by (auto simp: member_rank_def split: member.splits)

instantiation member :: linorder
begin

definition less_eq_member :: "member \<Rightarrow> member \<Rightarrow> bool" where
  "less_eq_member a b \<longleftrightarrow> member_rank a \<le> member_rank b"

definition less_member :: "member \<Rightarrow> member \<Rightarrow> bool" where
  "less_member a b \<longleftrightarrow> member_rank a < member_rank b"

instance
  by standard (simp_all add: less_eq_member_def less_member_def less_le_not_le linear flip: member_rank_inject)

end

record cluster =
  ct_id :: string
  ct_revision :: string
  ct_children :: "member \<times> member"
  ct_leaves :: "string list"
  ct_links :: "string list"
  ct_level :: nat

record aggregate_link =
  ag_from :: member
  ag_to :: member
  ag_links :: "string list"

record 'a page =
  pa_items :: "'a list"
  pa_next :: "nat option"

record cluster_manifest =
  mf_algorithm :: string
  mf_level :: nat
  mf_frontier :: "member list"
  mf_boundary :: bool
  mf_partial :: bool
  mf_approximate :: bool
  mf_work :: nat

record hierarchy =
  hi_source :: topology_snapshot
  hi_clusters :: "(string, cluster) btree_map"
  hi_frontier :: "member list"
  hi_level :: nat
  hi_boundary :: bool
  hi_work :: nat
  hi_bytes :: nat
  hi_work_limit :: nat
  hi_revision :: string

section \<open>Serialisation\<close>

definition json_source_link :: "source_link \<Rightarrow> jvalue" where
  "json_source_link l = JObj [(''id'', JStr (lk_id l)), (''from'', JStr (lk_from l)), (''to'', JStr (lk_to l)),
     (''evidence'', JArr (map json_assertion (lk_evidence l)))]"

definition json_topology :: "topology_snapshot \<Rightarrow> jvalue" where
  "json_topology s = JObj [(''perspective'', JStr (ts_perspective s)), (''context'', json_context (ts_context s)),
     (''valid_at'', json_int (ts_valid_at s)), (''sources'', JArr (map json_snapshot (ts_sources s))),
     (''nodes'', JArr (map JStr (ts_nodes s))), (''links'', JArr (map json_source_link (ts_links s))),
     (''partial'', JBool (ts_partial s))]"

fun json_member :: "member \<Rightarrow> jvalue" where
  "json_member (Leaf i) = JObj [(''kind'', JStr ''leaf''), (''id'', JStr i)]"
| "json_member (Cluster i) = JObj [(''kind'', JStr ''cluster''), (''id'', JStr i)]"

definition json_children :: "member \<times> member \<Rightarrow> jvalue" where
  "json_children c = JArr [json_member (fst c), json_member (snd c)]"

definition json_cluster :: "cluster \<Rightarrow> jvalue" where
  "json_cluster c = JObj [(''id'', JStr (ct_id c)), (''revision'', JStr (ct_revision c)),
     (''children'', json_children (ct_children c)), (''leaves'', JArr (map JStr (ct_leaves c))),
     (''contributing_links'', JArr (map JStr (ct_links c))), (''level'', json_int (int (ct_level c)))]"

definition json_aggregate :: "aggregate_link \<Rightarrow> jvalue" where
  "json_aggregate a = JObj [(''from'', json_member (ag_from a)), (''to'', json_member (ag_to a)),
     (''contributing_links'', JArr (map JStr (ag_links a)))]"

text \<open>The length of a text, when it is within a limit.\<close>

definition text_size :: "codec \<Rightarrow> jvalue \<Rightarrow> nat \<Rightarrow> nat result" where
  "text_size cd v limit = (let n = length (cd_js cd v) in if n \<le> limit then Ok n else Err E_CLUSTER_BUDGET)"

section \<open>A hierarchy over a snapshot\<close>

definition cluster_id_ok :: "string \<Rightarrow> bool" where
  "cluster_id_ok s \<longleftrightarrow> s \<noteq> [] \<and> length s \<le> 1024 \<and> \<not> has_control s"

definition adjacent_equal :: "'a list \<Rightarrow> bool" where
  "adjacent_equal xs \<longleftrightarrow> list_ex (\<lambda>(a, b). a = b) (zip xs (tl xs))"

definition link_ok :: "string list \<Rightarrow> graph_ref list \<Rightarrow> source_link \<Rightarrow> bool" where
  "link_ok nodes sources l \<longleftrightarrow>
     cluster_id_ok (lk_id l) \<and> lk_from l \<in> set nodes \<and> lk_to l \<in> set nodes
     \<and> lk_evidence l \<noteq> [] \<and> length (lk_evidence l) \<le> 256
     \<and> list_all (\<lambda>p. cluster_id_ok (ar_graph p) \<and> cluster_id_ok (ar_revision p) \<and> cluster_id_ok (ar_assertion p)
         \<and> \<lparr>gr_graph = ar_graph p, gr_revision = ar_revision p\<rparr> \<in> set sources) (lk_evidence l)"

definition check_input :: "bool \<Rightarrow> unit result" where
  "check_input c = ensure c E_CLUSTER_INPUT"

definition hierarchy_with_budget :: "codec \<Rightarrow> topology_snapshot \<Rightarrow> nat \<Rightarrow> hierarchy result" where
  "hierarchy_with_budget cd source work_limit =
     rbind (ensure (work_limit \<noteq> 0 \<and> work_limit \<le> max_work) E_CLUSTER_BUDGET) (\<lambda>_.
     rbind (ensure (length (ts_nodes source) \<le> max_nodes \<and> length (ts_links source) \<le> max_links) E_CLUSTER_BUDGET) (\<lambda>_.
     rbind (text_size cd (json_topology source) max_cluster_input) (\<lambda>_.
     rbind (check_input (is_ok (validate_selection (ts_context source)))) (\<lambda>_.
     rbind (check_input (cluster_id_ok (ts_perspective source) \<and> length (ts_sources source) \<le> 4096)) (\<lambda>_.
     let nodes = sort (ts_nodes source) in
     rbind (check_input (list_all cluster_id_ok nodes \<and> \<not> adjacent_equal nodes)) (\<lambda>_.
     let links = sort_key lk_id (ts_links source) in
     rbind (check_input (\<not> adjacent_equal (map lk_id links))) (\<lambda>_.
     rbind (check_input (list_all (link_ok nodes (ts_sources source)) links)) (\<lambda>_.
     rbind (check_input (list_all (\<lambda>r. cluster_id_ok (gr_graph r) \<and> cluster_id_ok (gr_revision r)) (ts_sources source))) (\<lambda>_.
     let source = source\<lparr>ts_nodes := nodes, ts_links := links\<rparr> in
     Ok \<lparr>hi_source = source, hi_clusters = [], hi_frontier = map Leaf nodes, hi_level = 0, hi_boundary = False,
         hi_work = 0, hi_bytes = 0, hi_work_limit = work_limit,
         hi_revision = digest_of cd ''snapshot:'' (json_topology source)\<rparr>)))))))))"

definition hierarchy_new :: "codec \<Rightarrow> topology_snapshot \<Rightarrow> hierarchy result" where
  "hierarchy_new cd source = hierarchy_with_budget cd source max_work"

definition find_cluster :: "hierarchy \<Rightarrow> string \<Rightarrow> cluster option" where
  "find_cluster h i = map_of (hi_clusters h) i"

definition manifest_of :: "hierarchy \<Rightarrow> cluster_manifest" where
  "manifest_of h = \<lparr>mf_algorithm = algorithm_name, mf_level = hi_level h, mf_frontier = hi_frontier h,
     mf_boundary = hi_boundary h, mf_partial = ts_partial (hi_source h), mf_approximate = True, mf_work = hi_work h\<rparr>"

text \<open>Clusters of the frontier are in the map; indexing would panic.\<close>

definition member_leaves :: "hierarchy \<Rightarrow> member \<Rightarrow> string list" where
  "member_leaves h m = (case m of Leaf i \<Rightarrow> [i] | Cluster i \<Rightarrow> ct_leaves (the (map_of (hi_clusters h) i)))"

definition collect_map :: "('k::linorder \<times> 'v) list \<Rightarrow> ('k, 'v) btree_map" where
  "collect_map kvs = foldl (\<lambda>m (k, v). bm_insert k v m) [] kvs"

definition owners :: "hierarchy \<Rightarrow> (string, member) btree_map" where
  "owners h = collect_map (concat (map (\<lambda>m. map (\<lambda>n. (n, m)) (member_leaves h m)) (hi_frontier h)))"

section \<open>Advancing by one matching\<close>

definition add_pair :: "(string, member) btree_map \<Rightarrow> (member \<times> member) btree_set \<Rightarrow> source_link \<Rightarrow> (member \<times> member) btree_set" where
  "add_pair own pairs l =
     (let a = the (map_of own (lk_from l)); b = the (map_of own (lk_to l)) in
      if a \<noteq> b then bs_insert (if a < b then (a, b) else (b, a)) pairs else pairs)"

text \<open>The matching so far: the members used, the new frontier and the new clusters.\<close>

record matched =
  mt_used :: "member btree_set"
  mt_next :: "member list"
  mt_created :: "cluster list"

definition cluster_id :: "codec \<Rightarrow> hierarchy \<Rightarrow> string list \<Rightarrow> string" where
  "cluster_id cd h leaves = digest_of cd ''cluster:''
     (JArr [JStr algorithm_name, JStr (ts_perspective (hi_source h)), json_context (ts_context (hi_source h)),
       JArr (map JStr leaves)])"

definition match_pair :: "codec \<Rightarrow> hierarchy \<Rightarrow> matched \<Rightarrow> member \<times> member \<Rightarrow> matched" where
  "match_pair cd h s p =
     (case p of (a, b) \<Rightarrow>
        if a \<in> set (mt_used s) \<or> b \<in> set (mt_used s) then s
        else
          let leaves = sort (member_leaves h a @ member_leaves h b);
            i = cluster_id cd h leaves;
            c = \<lparr>ct_id = i, ct_revision = [], ct_children = (a, b), ct_leaves = leaves, ct_links = [], ct_level = hi_level h + 1\<rparr> in
          \<lparr>mt_used = bs_insert b (bs_insert a (mt_used s)), mt_next = mt_next s @ [Cluster i], mt_created = mt_created s @ [c]\<rparr>)"

definition new_owners :: "cluster list \<Rightarrow> (string, nat) btree_map" where
  "new_owners created = collect_map (concat (map (\<lambda>(i, c). map (\<lambda>n. (n, i)) (ct_leaves c)) (enumerate 0 created)))"

definition contribute :: "(string, nat) btree_map \<Rightarrow> string list list \<Rightarrow> source_link \<Rightarrow> string list list" where
  "contribute own cs l =
     (case (map_of own (lk_from l), map_of own (lk_to l)) of
        (Some a, Some b) \<Rightarrow> if a = b then cs[a := cs ! a @ [lk_id l]] else cs
      | _ \<Rightarrow> cs)"

definition cluster_revision :: "codec \<Rightarrow> hierarchy \<Rightarrow> cluster \<Rightarrow> string" where
  "cluster_revision cd h c = digest_of cd ''record:''
     (JArr [JStr (hi_revision h), JStr (ct_id c), json_children (ct_children c), JArr (map JStr (ct_leaves c)),
       JArr (map JStr (ct_links c)), json_int (int (ct_level c))])"

definition seal :: "codec \<Rightarrow> hierarchy \<Rightarrow> cluster list \<times> nat \<Rightarrow> cluster \<times> string list \<Rightarrow> (cluster list \<times> nat) result" where
  "seal cd h s cl =
     (case s of (out, bytes) \<Rightarrow>
        let c = (fst cl)\<lparr>ct_links := snd cl\<rparr>; c = c\<lparr>ct_revision := cluster_revision cd h c\<rparr> in
        rbind (text_size cd (json_cluster c) (max_output - bytes)) (\<lambda>n. Ok (out @ [c], bytes + n)))"

text \<open>The new level, from the matching.\<close>

definition next_level :: "codec \<Rightarrow> hierarchy \<Rightarrow> matched \<Rightarrow> hierarchy result" where
  "next_level cd h s =
     (let own = new_owners (mt_created s);
        contributions = foldl (contribute own) (replicate (length (mt_created s)) []) (ts_links (hi_source h)) in
      rbind (try_fold (seal cd h) ([], hi_bytes h) (zip (mt_created s) contributions)) (\<lambda>(created, bytes).
        Ok (h\<lparr>hi_clusters := foldl (\<lambda>m c. bm_insert (ct_id c) c m) (hi_clusters h) created,
              hi_frontier := sort (mt_next s @ filter (\<lambda>m. m \<notin> set (mt_used s)) (hi_frontier h)),
              hi_level := hi_level h + 1, hi_bytes := bytes\<rparr>)))"

text \<open>A failed call keeps the work it has charged.\<close>

definition grow_level :: "codec \<Rightarrow> hierarchy \<Rightarrow> matched \<Rightarrow> hierarchy \<times> cluster_manifest result" where
  "grow_level cd h s =
     (if mt_created s = [] then (let h = h\<lparr>hi_boundary := True\<rparr> in (h, Ok (manifest_of h)))
      else
        (case next_level cd h s of
           Err e \<Rightarrow> (h, Err e)
         | Ok h' \<Rightarrow> (h', Ok (manifest_of h'))))"

definition match_level :: "codec \<Rightarrow> hierarchy \<Rightarrow> hierarchy \<times> cluster_manifest result" where
  "match_level cd h =
     (let pairs = foldl (add_pair (owners h)) [] (ts_links (hi_source h)) in
      if saturating_add (hi_work h) (length pairs) > hi_work_limit h then (h, Err E_CLUSTER_BUDGET)
      else
        let h = h\<lparr>hi_work := hi_work h + length pairs\<rparr> in
        grow_level cd h (foldl (match_pair cd h) \<lparr>mt_used = [], mt_next = [], mt_created = []\<rparr> pairs))"

definition advance_level :: "codec \<Rightarrow> hierarchy \<Rightarrow> hierarchy \<times> cluster_manifest result" where
  "advance_level cd h =
     (if hi_boundary h then (h, Ok (manifest_of h))
      else
        let charge = saturating_add (saturating_add (length (ts_nodes (hi_source h))) (length (ts_links (hi_source h))))
              (length (hi_frontier h)) in
        if saturating_add (hi_work h) charge > hi_work_limit h then (h, Err E_CLUSTER_BUDGET)
        else match_level cd (h\<lparr>hi_work := hi_work h + charge\<rparr>))"

section \<open>Reading a hierarchy\<close>

definition zoom :: "hierarchy \<Rightarrow> string \<Rightarrow> (member \<times> member) result" where
  "zoom h i = ok_or (map_option ct_children (find_cluster h i)) E_CLUSTER_UNAVAILABLE"

definition evidence_page :: "hierarchy \<Rightarrow> string \<Rightarrow> nat \<Rightarrow> nat \<Rightarrow> string page result" where
  "evidence_page h i offset limit =
     rbind (ensure (limit \<noteq> 0 \<and> limit \<le> 256) E_CLUSTER_BUDGET) (\<lambda>_.
     rbind (ok_or (find_cluster h i) E_CLUSTER_UNAVAILABLE) (\<lambda>c.
     rbind (ensure (offset \<le> length (ct_links c)) E_CLUSTER_CURSOR) (\<lambda>_.
       let stop = min (saturating_add offset limit) (length (ct_links c)) in
       Ok \<lparr>pa_items = take (stop - offset) (drop offset (ct_links c)),
           pa_next = (if stop < length (ct_links c) then Some stop else None)\<rparr>)))"

definition add_aggregate :: "(string, member) btree_map \<Rightarrow> (member \<times> member, string list) btree_map \<Rightarrow> source_link
    \<Rightarrow> (member \<times> member, string list) btree_map" where
  "add_aggregate own links l =
     (let p = (the (map_of own (lk_from l)), the (map_of own (lk_to l))) in
      if fst p \<noteq> snd p then bm_insert p (bm_or_default [] links p @ [lk_id l]) links else links)"

definition aggregate_links :: "codec \<Rightarrow> hierarchy \<Rightarrow> aggregate_link list result" where
  "aggregate_links cd h =
     (let links = foldl (add_aggregate (owners h)) [] (ts_links (hi_source h));
        output = map (\<lambda>((from, to), ls). \<lparr>ag_from = from, ag_to = to, ag_links = ls\<rparr>) links in
      rbind (text_size cd (JArr (map json_aggregate output)) max_output) (\<lambda>_. Ok output))"

end
