(* ===== verification/Cluster_Invariant.thy ===== *)
theory Cluster_Invariant
  imports Cluster_Model "HOL-Library.Multiset"
begin

text \<open>
  The invariant of a hierarchy: its frontier splits the nodes of the snapshot, every cluster is made of
  two members and holds exactly their leaves and the links within them, and linked leaves hold it
  together. Cluster identifiers are digests of leaves, taken as free of collisions.
\<close>

section \<open>Maps collected from a list\<close>

lemma foldl_bm_insert: "map_of (foldl (\<lambda>m (k, v). bm_insert k v m) m kvs) = map_of m ++ map_of (rev kvs)"
  by (induction kvs arbitrary: m) (auto simp: map_add_def fun_eq_iff split: option.splits)

lemma map_of_collect_Some:
  "distinct (map fst kvs) \<Longrightarrow> map_of (collect_map kvs) k = Some v \<longleftrightarrow> (k, v) \<in> set kvs"
  unfolding collect_map_def foldl_bm_insert by (simp add: map_of_eq_Some_iff rev_map flip: rev_map)

section \<open>The leaves of members\<close>

definition frontier_leaves :: "hierarchy \<Rightarrow> string list" where
  "frontier_leaves h = concat (map (member_leaves h) (hi_frontier h))"

definition link_closure :: "hierarchy \<Rightarrow> (string \<times> string) set" where
  "link_closure h = (\<Union>l \<in> set (ts_links (hi_source h)). {(lk_from l, lk_to l), (lk_to l, lk_from l)})\<^sup>*"

definition links_within :: "hierarchy \<Rightarrow> string set \<Rightarrow> string list" where
  "links_within h L = map lk_id (filter (\<lambda>l. lk_from l \<in> L \<and> lk_to l \<in> L) (ts_links (hi_source h)))"

definition member_known :: "hierarchy \<Rightarrow> member \<Rightarrow> bool" where
  "member_known h m \<longleftrightarrow> (case m of Leaf n \<Rightarrow> n \<in> set (ts_nodes (hi_source h)) | Cluster i \<Rightarrow> i \<in> dom (map_of (hi_clusters h)))"

definition member_level :: "hierarchy \<Rightarrow> member \<Rightarrow> nat" where
  "member_level h m = (case m of Leaf _ \<Rightarrow> 0 | Cluster i \<Rightarrow> ct_level (the (map_of (hi_clusters h) i)))"

text \<open>What a cluster is: two known members of lower levels, their leaves in order, and the links inside.\<close>

definition cluster_ok :: "codec \<Rightarrow> hierarchy \<Rightarrow> string \<Rightarrow> cluster \<Rightarrow> bool" where
  "cluster_ok cd h i c \<longleftrightarrow>
     ct_id c = i \<and> i = cluster_id cd h (ct_leaves c)
     \<and> (\<forall>m \<in> {fst (ct_children c), snd (ct_children c)}. member_known h m \<and> member_level h m < ct_level c)
     \<and> fst (ct_children c) \<noteq> snd (ct_children c)
     \<and> ct_leaves c = sort (member_leaves h (fst (ct_children c)) @ member_leaves h (snd (ct_children c)))
     \<and> ct_links c = links_within h (set (ct_leaves c))
     \<and> ct_level c \<le> hi_level h \<and> ct_leaves c \<noteq> [] \<and> distinct (ct_leaves c)
     \<and> set (ct_leaves c) \<times> set (ct_leaves c) \<subseteq> link_closure h
     \<and> (\<exists>m \<in> set (hi_frontier h). set (ct_leaves c) \<subseteq> set (member_leaves h m))"

definition source_ok :: "topology_snapshot \<Rightarrow> bool" where
  "source_ok s \<longleftrightarrow> sorted (ts_nodes s) \<and> distinct (ts_nodes s) \<and> distinct (map lk_id (ts_links s))
     \<and> (\<forall>l \<in> set (ts_links s). lk_from l \<in> set (ts_nodes s) \<and> lk_to l \<in> set (ts_nodes s))"

definition hierarchy_ok :: "codec \<Rightarrow> hierarchy \<Rightarrow> bool" where
  "hierarchy_ok cd h \<longleftrightarrow>
     source_ok (hi_source h) \<and> sorted (hi_frontier h) \<and> distinct (hi_frontier h)
     \<and> (\<forall>m \<in> set (hi_frontier h). member_known h m)
     \<and> mset (frontier_leaves h) = mset (ts_nodes (hi_source h))
     \<and> bm_ok (hi_clusters h)
     \<and> (\<forall>i c. map_of (hi_clusters h) i = Some c \<longrightarrow> cluster_ok cd h i c)"

lemma frontier_distinct: "hierarchy_ok cd h \<Longrightarrow> distinct (frontier_leaves h)"
  unfolding hierarchy_ok_def source_ok_def by (metis distinct_count_atmost_1 mset_eq_imp_distinct_iff)

lemma frontier_nodes: "hierarchy_ok cd h \<Longrightarrow> set (frontier_leaves h) = set (ts_nodes (hi_source h))"
  unfolding hierarchy_ok_def by (metis mset_eq_setD)

section \<open>Owners and pairs\<close>

lemma owners_Some:
  assumes "hierarchy_ok cd h"
  shows "map_of (owners h) n = Some m \<longleftrightarrow> m \<in> set (hi_frontier h) \<and> n \<in> set (member_leaves h m)"
proof -
  have "map fst (concat (map (\<lambda>m. map (\<lambda>n. (n, m)) (member_leaves h m)) (hi_frontier h))) = frontier_leaves h"
    by (simp add: frontier_leaves_def map_concat comp_def)
  with frontier_distinct [OF assms] show ?thesis unfolding owners_def by (subst map_of_collect_Some) auto
qed

definition owner :: "hierarchy \<Rightarrow> string \<Rightarrow> member" where
  "owner h n = the (map_of (owners h) n)"

lemma owner_in:
  assumes "hierarchy_ok cd h" and "n \<in> set (ts_nodes (hi_source h))"
  shows "owner h n \<in> set (hi_frontier h) \<and> n \<in> set (member_leaves h (owner h n))"
proof -
  have "n \<in> set (frontier_leaves h)" using frontier_nodes [OF assms(1)] assms(2) by simp
  then obtain m where "m \<in> set (hi_frontier h)" "n \<in> set (member_leaves h m)" by (auto simp: frontier_leaves_def)
  then show ?thesis using owners_Some [OF assms(1), of n m] by (simp add: owner_def)
qed

lemma owner_eq:
  assumes "hierarchy_ok cd h" and "m \<in> set (hi_frontier h)" and "n \<in> set (member_leaves h m)"
  shows "owner h n = m"
  using owners_Some [OF assms(1), of n m] assms(2,3) by (simp add: owner_def)

lemma link_ends:
  assumes "hierarchy_ok cd h" and "l \<in> set (ts_links (hi_source h))"
  shows "lk_from l \<in> set (ts_nodes (hi_source h))" and "lk_to l \<in> set (ts_nodes (hi_source h))"
  using assms by (auto simp: hierarchy_ok_def source_ok_def)

definition frontier_pairs :: "hierarchy \<Rightarrow> (member \<times> member) list" where
  "frontier_pairs h = foldl (add_pair (owners h)) [] (ts_links (hi_source h))"

lemma set_frontier_pairs:
  "set (frontier_pairs h) = {(a, b). a < b \<and> (\<exists>l \<in> set (ts_links (hi_source h)).
     (owner h (lk_from l), owner h (lk_to l)) \<in> {(a, b), (b, a)})}"
proof -
  have "set (foldl (add_pair (owners h)) ps ls) = set ps \<union> {(a, b). a < b \<and> (\<exists>l \<in> set ls.
     (owner h (lk_from l), owner h (lk_to l)) \<in> {(a, b), (b, a)})}" for ps ls
    by (induction ls arbitrary: ps) (auto simp: add_pair_def Let_def owner_def)
  then show ?thesis by (simp add: frontier_pairs_def)
qed

section \<open>The matching\<close>

text \<open>The pairs a matching takes: each that shares no member with one taken before.\<close>

fun greedy :: "member set \<Rightarrow> (member \<times> member) list \<Rightarrow> (member \<times> member) list" where
  "greedy U [] = []"
| "greedy U ((a, b) # ps) = (if a \<in> U \<or> b \<in> U then greedy U ps else (a, b) # greedy ({a, b} \<union> U) ps)"

definition ends :: "(member \<times> member) list \<Rightarrow> member list" where
  "ends ps = concat (map (\<lambda>(a, b). [a, b]) ps)"

lemma ends_simps [simp]: "ends [] = []" "ends ((a, b) # ps) = a # b # ends ps"
  by (simp_all add: ends_def)

lemma set_ends: "set (ends ps) = fst ` set ps \<union> snd ` set ps"
  by (force simp: ends_def)

lemma greedy_subset: "set (greedy U ps) \<subseteq> set ps"
  by (induction U ps rule: greedy.induct) auto

lemma greedy_fresh: "set (ends (greedy U ps)) \<inter> U = {}"
  by (induction U ps rule: greedy.induct) auto

lemma greedy_distinct: "(\<And>a b. (a, b) \<in> set ps \<Longrightarrow> a \<noteq> b) \<Longrightarrow> distinct (ends (greedy U ps))"
proof (induction U ps rule: greedy.induct)
  case (2 U a b ps)
  show ?case
  proof (cases "a \<in> U \<or> b \<in> U")
    case True
    then show ?thesis using "2.IH"(1) "2.prems" by simp
  next
    case False
    have "a \<noteq> b" using "2.prems" by simp
    then show ?thesis using False "2.IH"(2) "2.prems" greedy_fresh [of "{a, b} \<union> U" ps] by auto
  qed
qed simp

lemma greedy_maximal: "(a, b) \<in> set ps \<Longrightarrow> a \<in> U \<union> set (ends (greedy U ps)) \<or> b \<in> U \<union> set (ends (greedy U ps))"
  by (induction U ps rule: greedy.induct) auto

definition made :: "codec \<Rightarrow> hierarchy \<Rightarrow> member \<times> member \<Rightarrow> cluster" where
  "made cd h p = (let leaves = sort (member_leaves h (fst p) @ member_leaves h (snd p)) in
     \<lparr>ct_id = cluster_id cd h leaves, ct_revision = [], ct_children = p, ct_leaves = leaves, ct_links = [], ct_level = hi_level h + 1\<rparr>)"

lemma match_pairs:
  "let s' = foldl (match_pair cd h) s ps; G = greedy (set (mt_used s)) ps in
     set (mt_used s') = set (mt_used s) \<union> set (ends G)
     \<and> mt_next s' = mt_next s @ map (\<lambda>p. Cluster (ct_id (made cd h p))) G
     \<and> mt_created s' = mt_created s @ map (made cd h) G"
proof (induction ps arbitrary: s)
  case (Cons p ps)
  obtain a b where p: "p = (a, b)" by (cases p)
  show ?case using Cons [of "match_pair cd h s p"] by (auto simp: Let_def match_pair_def made_def p insert_commute)
qed (simp add: Let_def)

section \<open>Contributions and seals\<close>

lemma new_owners_Some:
  assumes "distinct (concat (map ct_leaves created))"
  shows "map_of (new_owners created) n = Some i \<longleftrightarrow> i < length created \<and> n \<in> set (ct_leaves (created ! i))"
proof -
  have "map fst (concat (map (\<lambda>(i, c). map (\<lambda>n. (n, i)) (ct_leaves c)) (enumerate k created))) = concat (map ct_leaves created)" for k
    by (induction created arbitrary: k) (simp_all add: comp_def)
  then show ?thesis unfolding new_owners_def
    by (subst map_of_collect_Some) (use assms in \<open>force simp: in_set_enumerate_eq\<close>)+
qed

lemma contribute_length [simp]: "length (foldl (contribute own) cs ls) = length cs"
  by (induction ls arbitrary: cs) (auto simp: contribute_def split: option.splits)

lemma contributions:
  assumes "i < length cs"
  shows "foldl (contribute own) cs ls ! i =
    cs ! i @ map lk_id (filter (\<lambda>l. map_of own (lk_from l) = Some i \<and> map_of own (lk_to l) = Some i) ls)"
  using assms
proof (induction ls arbitrary: cs)
  case (Cons l ls)
  have "length (contribute own cs l) = length cs" using contribute_length [of own cs "[l]"] by simp
  moreover have "contribute own cs l ! i =
      cs ! i @ (if map_of own (lk_from l) = Some i \<and> map_of own (lk_to l) = Some i then [lk_id l] else [])"
    using Cons.prems by (auto simp: contribute_def nth_list_update split: option.splits)
  ultimately show ?case using Cons by simp
qed simp

definition sealed :: "codec \<Rightarrow> hierarchy \<Rightarrow> cluster \<times> string list \<Rightarrow> cluster" where
  "sealed cd h cl = (fst cl)\<lparr>ct_links := snd cl, ct_revision := cluster_revision cd h ((fst cl)\<lparr>ct_links := snd cl\<rparr>)\<rparr>"

lemma seal_step: "seal cd h (out, bytes) cl = Ok s \<Longrightarrow> \<exists>n. s = (out @ [sealed cd h cl], n)"
  by (auto simp: seal_def sealed_def Let_def)

lemma seal_Ok: "try_fold (seal cd h) (out, bytes) cls = Ok (out', bytes') \<Longrightarrow> out' = out @ map (sealed cd h) cls"
proof (induction cls arbitrary: out bytes)
  case (Cons cl cls)
  then obtain s where "seal cd h (out, bytes) cl = Ok s" "try_fold (seal cd h) s cls = Ok (out', bytes')" by auto
  then obtain n where "try_fold (seal cd h) (out @ [sealed cd h cl], n) cls = Ok (out', bytes')" using seal_step by blast
  from Cons.IH [OF this] show ?case by simp
qed simp

section \<open>One level\<close>

text \<open>The cluster of a pair, with its links and revision.\<close>

definition final :: "codec \<Rightarrow> hierarchy \<Rightarrow> member \<times> member \<Rightarrow> cluster" where
  "final cd h p = sealed cd h (made cd h p, links_within h (set (ct_leaves (made cd h p))))"

definition coarsened :: "codec \<Rightarrow> hierarchy \<Rightarrow> hierarchy \<Rightarrow> bool" where
  "coarsened cd h h' \<longleftrightarrow>
     (let G = greedy {} (frontier_pairs h) in G \<noteq> []
      \<and> hi_source h' = hi_source h \<and> hi_level h' = hi_level h + 1 \<and> hi_boundary h' = hi_boundary h
      \<and> hi_clusters h' = foldl (\<lambda>m c. bm_insert (ct_id c) c m) (hi_clusters h) (map (final cd h) G)
      \<and> hi_frontier h' = sort (map (\<lambda>p. Cluster (ct_id (made cd h p))) G @ filter (\<lambda>m. m \<notin> set (ends G)) (hi_frontier h)))"

lemma made_leaves [simp]: "ct_leaves (made cd h p) = sort (member_leaves h (fst p) @ member_leaves h (snd p))"
  by (simp add: made_def Let_def)

lemma made_id: "ct_id (made cd h p) = cluster_id cd h (ct_leaves (made cd h p))"
  by (simp add: made_def Let_def)

lemma frontier_pairs_in:
  assumes "hierarchy_ok cd h" and "(a, b) \<in> set (frontier_pairs h)"
  shows "a < b" and "a \<in> set (hi_frontier h)" and "b \<in> set (hi_frontier h)"
proof -
  from assms(2) obtain l where l: "a < b" "l \<in> set (ts_links (hi_source h))"
      "(owner h (lk_from l), owner h (lk_to l)) \<in> {(a, b), (b, a)}"
    by (auto simp: set_frontier_pairs)
  then show "a < b" "a \<in> set (hi_frontier h)" "b \<in> set (hi_frontier h)"
    using owner_in [OF assms(1)] link_ends [OF assms(1) l(2)] by auto
qed

lemma matching_props:
  assumes "hierarchy_ok cd h"
  defines "G \<equiv> greedy {} (frontier_pairs h)"
  shows "distinct (ends G)" and "set (ends G) \<subseteq> set (hi_frontier h)" and "\<And>a b. (a, b) \<in> set G \<Longrightarrow> (a, b) \<in> set (frontier_pairs h)"
    and "G = [] \<longleftrightarrow> frontier_pairs h = []"
proof -
  note sub = greedy_subset [of "{}" "frontier_pairs h", folded G_def]
  show "distinct (ends G)"
    unfolding G_def by (rule greedy_distinct) (use frontier_pairs_in [OF assms(1)] in blast)
  show "set (ends G) \<subseteq> set (hi_frontier h)"
    using sub frontier_pairs_in [OF assms(1)] by (fastforce simp: set_ends)
  show "\<And>a b. (a, b) \<in> set G \<Longrightarrow> (a, b) \<in> set (frontier_pairs h)" using sub by auto
  show "G = [] \<longleftrightarrow> frontier_pairs h = []" unfolding G_def by (cases "frontier_pairs h") auto
qed

lemma mset_ends: "distinct fs \<Longrightarrow> distinct (ends G) \<Longrightarrow> set (ends G) \<subseteq> set fs
    \<Longrightarrow> mset fs = mset (ends G) + mset (filter (\<lambda>m. m \<notin> set (ends G)) fs)"
proof -
  assume "distinct fs" "distinct (ends G)" "set (ends G) \<subseteq> set fs"
  then have "mset (filter (\<lambda>m. m \<in> set (ends G)) fs) = mset (ends G)"
    by (intro set_eq_iff_mset_eq_distinct [THEN iffD1]) auto
  then show ?thesis by (metis multiset_partition mset_filter)
qed

lemma pair_leaves_disjoint:
  assumes "hierarchy_ok cd h"
  shows "distinct (concat (map ct_leaves (map (made cd h) (greedy {} (frontier_pairs h)))))"
proof -
  let ?G = "greedy {} (frontier_pairs h)"
  note m = matching_props [OF assms]
  have ends: "mset (concat (map ct_leaves (map (made cd h) G))) = mset (concat (map (member_leaves h) (ends G)))" for G
    by (induction G) (auto simp: ends_def)
  define rest where "rest = filter (\<lambda>m. m \<notin> set (ends ?G)) (hi_frontier h)"
  have leaves: "mset (concat (map f ms)) = \<Sum>\<^sub># (image_mset (\<lambda>m. mset (f m)) (mset ms))" for f :: "member \<Rightarrow> string list" and ms
    by (induction ms) simp_all
  have "distinct (hi_frontier h)" using assms by (simp add: hierarchy_ok_def)
  then have "mset (hi_frontier h) = mset (ends ?G) + mset rest" using mset_ends m(1,2) unfolding rest_def by blast
  then have "mset (frontier_leaves h) = mset (concat (map (member_leaves h) (ends ?G))) + mset (concat (map (member_leaves h) rest))"
    unfolding frontier_leaves_def leaves by simp
  then have "mset (frontier_leaves h) = mset (concat (map ct_leaves (map (made cd h) ?G)) @ concat (map (member_leaves h) rest))"
    using ends [of ?G] by simp
  then have "distinct (concat (map ct_leaves (map (made cd h) ?G)) @ concat (map (member_leaves h) rest))"
    using frontier_distinct [OF assms] mset_eq_imp_distinct_iff by blast
  then show ?thesis by simp
qed

lemma next_level_Ok:
  assumes ok: "hierarchy_ok cd h"
    and run: "next_level cd h (foldl (match_pair cd h) \<lparr>mt_used = [], mt_next = [], mt_created = []\<rparr> (frontier_pairs h)) = Ok h'"
    and some: "greedy {} (frontier_pairs h) \<noteq> []"
  shows "coarsened cd h h'"
proof -
  define s where "s = foldl (match_pair cd h) \<lparr>mt_used = [], mt_next = [], mt_created = []\<rparr> (frontier_pairs h)"
  define G where "G = greedy {} (frontier_pairs h)"
  have s: "set (mt_used s) = set (ends G)" "mt_next s = map (\<lambda>p. Cluster (ct_id (made cd h p))) G" "mt_created s = map (made cd h) G"
    using match_pairs [of cd h "\<lparr>mt_used = [], mt_next = [], mt_created = []\<rparr>" "frontier_pairs h"]
    by (simp_all add: s_def G_def Let_def)
  define C where "C = foldl (contribute (new_owners (mt_created s))) (replicate (length (mt_created s)) []) (ts_links (hi_source h))"
  have len: "length C = length G" by (simp add: C_def s)
  have own: "map_of (new_owners (mt_created s)) n = Some i \<longleftrightarrow> i < length G \<and> n \<in> set (ct_leaves (made cd h (G ! i)))" for n i
    using new_owners_Some [OF pair_leaves_disjoint [OF ok], of n i] by (auto simp: s(3) G_def simp del: made_leaves)
  have C: "C ! i = links_within h (set (ct_leaves (made cd h (G ! i))))" if "i < length G" for i
    unfolding C_def using that by (subst contributions) (simp_all add: s(3) own [unfolded s(3)] links_within_def del: made_leaves)
  have "zip (mt_created s) C = map (\<lambda>p. (made cd h p, links_within h (set (ct_leaves (made cd h p))))) G"
    by (rule nth_equalityI) (simp_all add: s(3) len C del: made_leaves)
  then obtain bytes where "try_fold (seal cd h) ([], hi_bytes h) (map (\<lambda>p. (made cd h p, links_within h (set (ct_leaves (made cd h p))))) G)
        = Ok (map (final cd h) G, bytes)"
      and h': "h' = h\<lparr>hi_clusters := foldl (\<lambda>m c. bm_insert (ct_id c) c m) (hi_clusters h) (map (final cd h) G),
        hi_frontier := sort (mt_next s @ filter (\<lambda>m. m \<notin> set (mt_used s)) (hi_frontier h)),
        hi_level := hi_level h + 1, hi_bytes := bytes\<rparr>"
    using run seal_Ok by (fastforce simp: next_level_def Let_def s_def [symmetric] C_def [symmetric] final_def comp_def)
  show ?thesis using some unfolding coarsened_def G_def [symmetric] Let_def by (simp add: h' s)
qed

section \<open>The invariant is kept\<close>

lemma hierarchy_ok_cong:
  "hi_source h' = hi_source h \<Longrightarrow> hi_clusters h' = hi_clusters h \<Longrightarrow> hi_frontier h' = hi_frontier h \<Longrightarrow> hi_level h' = hi_level h
    \<Longrightarrow> hierarchy_ok cd h' \<longleftrightarrow> hierarchy_ok cd h"
proof -
  assume same: "hi_source h' = hi_source h" "hi_clusters h' = hi_clusters h" "hi_frontier h' = hi_frontier h" "hi_level h' = hi_level h"
  then have "member_leaves h' = member_leaves h" "member_known h' = member_known h" "member_level h' = member_level h"
      "cluster_id cd h' = cluster_id cd h" "links_within h' = links_within h" "link_closure h' = link_closure h"
    by (simp_all add: fun_eq_iff member_leaves_def member_known_def member_level_def cluster_id_def links_within_def link_closure_def
        cong: member.case_cong)
  then show ?thesis unfolding hierarchy_ok_def cluster_ok_def frontier_leaves_def using same by simp
qed

lemma digest_inj: "inj (cd_js cd) \<Longrightarrow> inj (cd_sha cd) \<Longrightarrow> digest_of cd prefix v = digest_of cd prefix w \<Longrightarrow> v = w"
  by (simp add: digest_of_def inj_eq)

lemma cluster_id_inj:
  assumes "inj (cd_js cd)" and "inj (cd_sha cd)" and "cluster_id cd h xs = cluster_id cd h ys"
  shows "xs = ys"
proof -
  have "map JStr xs = map JStr ys" using digest_inj [OF assms(1,2) assms(3) [unfolded cluster_id_def]] by simp
  moreover have "inj JStr" by (simp add: inj_def)
  ultimately show ?thesis by simp
qed

lemma insert_clusters:
  "map_of (foldl (\<lambda>m c. bm_insert (ct_id c) c m) m cs) i =
     (case map_of (map (\<lambda>c. (ct_id c, c)) (rev cs)) i of None \<Rightarrow> map_of m i | Some c \<Rightarrow> Some c)"
  by (induction cs arbitrary: m) (auto simp: map_add_def split: option.splits)

lemma insert_clusters_ok: "bm_ok m \<Longrightarrow> bm_ok (foldl (\<lambda>m c. bm_insert (ct_id c) c m) m cs)"
  by (induction cs arbitrary: m) auto

lemma known_leaves:
  assumes "hierarchy_ok cd h" and "member_known h m"
  shows "member_leaves h m \<noteq> [] \<and> set (member_leaves h m) \<times> set (member_leaves h m) \<subseteq> link_closure h \<and> member_level h m \<le> hi_level h"
proof (cases m)
  case (Leaf n)
  then show ?thesis by (simp add: member_leaves_def member_level_def link_closure_def)
next
  case (Cluster i)
  then obtain c where c: "map_of (hi_clusters h) i = Some c" using assms(2) by (auto simp: member_known_def)
  then have "cluster_ok cd h i c" using assms(1) unfolding hierarchy_ok_def by blast
  then have "ct_leaves c \<noteq> []" "set (ct_leaves c) \<times> set (ct_leaves c) \<subseteq> link_closure h" "ct_level c \<le> hi_level h"
    unfolding cluster_ok_def by blast+
  then show ?thesis using c by (simp add: Cluster member_leaves_def member_level_def)
qed

lemma frontier_disjoint:
  assumes "hierarchy_ok cd h" and "a \<in> set (hi_frontier h)" and "b \<in> set (hi_frontier h)"
    and "n \<in> set (member_leaves h a)" and "n \<in> set (member_leaves h b)"
  shows "a = b"
  using owner_eq [OF assms(1,2,4)] owner_eq [OF assms(1,3,5)] by simp

text \<open>A step of one level, with collision-free digests, and the pairs it joins.\<close>

definition level_step :: "codec \<Rightarrow> hierarchy \<Rightarrow> hierarchy \<Rightarrow> bool" where
  "level_step cd h h' \<longleftrightarrow> hierarchy_ok cd h \<and> coarsened cd h h' \<and> inj (cd_js cd) \<and> inj (cd_sha cd)"

definition taken :: "hierarchy \<Rightarrow> (member \<times> member) list" where
  "taken h = greedy {} (frontier_pairs h)"

lemma step_ok: "level_step cd h h' \<Longrightarrow> hierarchy_ok cd h"
  and step_coarsened: "level_step cd h h' \<Longrightarrow> coarsened cd h h'"
  and step_js: "level_step cd h h' \<Longrightarrow> inj (cd_js cd)"
  and step_sha: "level_step cd h h' \<Longrightarrow> inj (cd_sha cd)"
  by (simp_all add: level_step_def)

lemma taken_ends:
  assumes st: "level_step cd h h'"
  shows "distinct (ends (taken h))" "set (ends (taken h)) \<subseteq> set (hi_frontier h)"
  using matching_props(1,2) [OF step_ok [OF st]] by (simp_all add: taken_def)

lemma taken_pair:
  assumes st: "level_step cd h h'" and a1: "p \<in> set (taken h)"
  shows "fst p < snd p" and "fst p \<in> set (hi_frontier h)" and "snd p \<in> set (hi_frontier h)" and "p \<in> set (frontier_pairs h)"
proof -
  obtain a b where p: "p = (a, b)" by (cases p)
  then have "(a, b) \<in> set (frontier_pairs h)" using matching_props(3) [OF step_ok [OF st], of a b] a1 by (simp add: taken_def)
  then show "fst p < snd p" "fst p \<in> set (hi_frontier h)" "snd p \<in> set (hi_frontier h)" "p \<in> set (frontier_pairs h)"
    using frontier_pairs_in [OF step_ok [OF st]] by (auto simp: p)
qed

lemma known_frontier:
  assumes st: "level_step cd h h'"
  shows "m \<in> set (hi_frontier h) \<Longrightarrow> member_known h m"
  using step_ok [OF st] by (simp add: hierarchy_ok_def)

lemma frontier_leaf:
  assumes st: "level_step cd h h'"
  shows "m \<in> set (hi_frontier h) \<Longrightarrow> \<exists>n. n \<in> set (member_leaves h m)"
  using known_leaves [OF step_ok [OF st] known_frontier [OF st]] by (metis list.set_intros(1) neq_Nil_conv)

lemma new_id_fresh:
  assumes st: "level_step cd h h'" and a1: "p \<in> set (taken h)"
  shows "map_of (hi_clusters h) (ct_id (made cd h p)) = None"
proof (rule ccontr)
  assume "map_of (hi_clusters h) (ct_id (made cd h p)) \<noteq> None"
  then obtain c where c: "cluster_ok cd h (ct_id (made cd h p)) c" using step_ok [OF st] by (auto simp: hierarchy_ok_def)
  then have "cluster_id cd h (ct_leaves c) = cluster_id cd h (ct_leaves (made cd h p))"
    unfolding cluster_ok_def made_id by metis
  from cluster_id_inj [OF step_js [OF st] step_sha [OF st] this]
  have "set (ct_leaves c) = set (member_leaves h (fst p)) \<union> set (member_leaves h (snd p))" by simp
  moreover have "\<exists>m \<in> set (hi_frontier h). set (ct_leaves c) \<subseteq> set (member_leaves h m)"
    using c unfolding cluster_ok_def by blast
  ultimately obtain m where m: "m \<in> set (hi_frontier h)"
      "set (member_leaves h (fst p)) \<union> set (member_leaves h (snd p)) \<subseteq> set (member_leaves h m)"
    by auto
  have "x = m" if "x \<in> {fst p, snd p}" for x
  proof -
    have x: "x \<in> set (hi_frontier h)" using taken_pair [OF st a1] that by auto
    then obtain n where n: "n \<in> set (member_leaves h x)" using frontier_leaf [OF st] by blast
    then have "n \<in> set (member_leaves h m)" using that by (elim insertE emptyE) (use m(2) n in \<open>auto dest: subsetD\<close>)
    then show ?thesis by (rule frontier_disjoint [OF step_ok [OF st] x m(1) n])
  qed
  from this [of "fst p"] this [of "snd p"] show False using taken_pair(1) [OF st a1] by simp
qed

lemma new_id_inj:
  assumes st: "level_step cd h h'" and a1: "p \<in> set (taken h)" and a2: "q \<in> set (taken h)" and a3: "ct_id (made cd h p) = ct_id (made cd h q)"
  shows "p = q"
proof -
  have "ct_leaves (made cd h p) = ct_leaves (made cd h q)"
    using a3 by (intro cluster_id_inj [OF step_js [OF st] step_sha [OF st], of h]) (simp add: made_def Let_def)
  then have union: "set (member_leaves h (fst p)) \<union> set (member_leaves h (snd p)) = set (member_leaves h (fst q)) \<union> set (member_leaves h (snd q))"
    by (metis made_leaves set_append set_sort)
  have "x \<in> {fst q, snd q}" if "x \<in> {fst p, snd p}" for x
  proof -
    have x: "x \<in> set (hi_frontier h)" using taken_pair [OF st a1] that by auto
    then obtain n where n: "n \<in> set (member_leaves h x)" using frontier_leaf [OF st] by blast
    then have "n \<in> set (member_leaves h (fst q)) \<or> n \<in> set (member_leaves h (snd q))" using union that by auto
    then show ?thesis using frontier_disjoint [OF step_ok [OF st] x] n taken_pair [OF st a2] by blast
  qed
  from this [of "fst p"] this [of "snd p"] show ?thesis
    using taken_pair(1) [OF st a1] taken_pair(1) [OF st a2] by (cases p; cases q) (auto dest: less_asym)
qed

lemma final_simps [simp]:
  "ct_id (final cd h p) = ct_id (made cd h p)" "ct_leaves (final cd h p) = ct_leaves (made cd h p)"
  "ct_children (final cd h p) = p" "ct_level (final cd h p) = hi_level h + 1"
  "ct_links (final cd h p) = links_within h (set (ct_leaves (made cd h p)))"
  by (simp_all add: final_def sealed_def made_def Let_def)

lemma step_clusters:
  assumes st: "level_step cd h h'"
  shows "map_of (hi_clusters h') i = Some c \<longleftrightarrow>
     map_of (hi_clusters h) i = Some c \<or> (\<exists>p \<in> set (taken h). i = ct_id (made cd h p) \<and> c = final cd h p)"
proof -
  let ?new = "map (\<lambda>c. (ct_id c, c)) (rev (map (final cd h) (taken h)))"
  have cl: "map_of (hi_clusters h') i = (case map_of ?new i of None \<Rightarrow> map_of (hi_clusters h) i | Some c \<Rightarrow> Some c)"
    using step_coarsened [OF st] unfolding coarsened_def Let_def taken_def [symmetric] by (simp only: insert_clusters)
  have "distinct (map (\<lambda>p. ct_id (made cd h p)) (taken h))"
    unfolding distinct_map
  proof
    have "distinct (ends ps) \<Longrightarrow> distinct ps" for ps by (induction ps) (force simp: set_ends)+
    then show "distinct (taken h)" using taken_ends(1) [OF st] .
    show "inj_on (\<lambda>p. ct_id (made cd h p)) (set (taken h))" by (rule inj_onI) (rule new_id_inj [OF st])
  qed
  then have "distinct (map fst ?new)" by (simp add: comp_def rev_map [symmetric])
  then have new: "map_of ?new i = Some c \<longleftrightarrow> (\<exists>p \<in> set (taken h). i = ct_id (made cd h p) \<and> c = final cd h p)" for c
    by (subst map_of_eq_Some_iff) (auto simp: image_image)
  show ?thesis
  proof (cases "map_of ?new i")
    case None
    then have "map_of (hi_clusters h') i = map_of (hi_clusters h) i" "\<not> (\<exists>p \<in> set (taken h). i = ct_id (made cd h p) \<and> c = final cd h p)"
      using cl new [of c] by simp_all
    then show ?thesis by metis
  next
    case (Some d)
    then obtain p where p: "p \<in> set (taken h)" "i = ct_id (made cd h p)" using new by blast
    have "map_of (hi_clusters h) i = None" using new_id_fresh [OF st p(1)] p(2) by simp
    then show ?thesis using cl new [of c] Some by simp
  qed
qed

lemma step_keeps:
  assumes st: "level_step cd h h'"
  shows "hi_source h' = hi_source h" "hi_level h' = hi_level h + 1" "link_closure h' = link_closure h" "links_within h' = links_within h"
    "cluster_id cd h' = cluster_id cd h"
  using step_coarsened [OF st] by (auto simp: coarsened_def Let_def link_closure_def links_within_def cluster_id_def fun_eq_iff)

lemma step_frontier:
  assumes st: "level_step cd h h'"
  shows "hi_frontier h' = sort (map (\<lambda>p. Cluster (ct_id (made cd h p))) (taken h) @ filter (\<lambda>m. m \<notin> set (ends (taken h))) (hi_frontier h))"
  using step_coarsened [OF st] by (simp add: coarsened_def Let_def taken_def)

lemma old_cluster:
  assumes st: "level_step cd h h'"
  shows "map_of (hi_clusters h) i = Some c \<Longrightarrow> map_of (hi_clusters h') i = Some c"
  using step_clusters [OF st, of i c] by blast

lemma new_cluster:
  assumes st: "level_step cd h h'"
  shows "p \<in> set (taken h) \<Longrightarrow> map_of (hi_clusters h') (ct_id (made cd h p)) = Some (final cd h p)"
  unfolding step_clusters [OF st] by blast

lemma old_member:
  assumes st: "level_step cd h h'" and a1: "member_known h m"
  shows "member_leaves h' m = member_leaves h m" and "member_level h' m = member_level h m" and "member_known h' m"
  using a1 old_cluster [OF st] by (cases m; fastforce simp: member_known_def member_leaves_def member_level_def step_keeps [OF st])+

lemma new_member:
  assumes st: "level_step cd h h'" and a1: "p \<in> set (taken h)"
  shows "member_leaves h' (Cluster (ct_id (made cd h p))) = ct_leaves (made cd h p)"
    and "member_known h' (Cluster (ct_id (made cd h p)))"
  using new_cluster [OF st a1] by (auto simp: member_leaves_def member_known_def)

lemma frontier_member:
  assumes st: "level_step cd h h'" and a1: "m \<in> set (hi_frontier h)"
  shows "\<exists>m' \<in> set (hi_frontier h'). set (member_leaves h m) \<subseteq> set (member_leaves h' m')"
proof (cases "m \<in> set (ends (taken h))")
  case True
  then obtain p where p: "p \<in> set (taken h)" "m = fst p \<or> m = snd p" by (auto simp: set_ends)
  then have "set (member_leaves h m) \<subseteq> set (member_leaves h' (Cluster (ct_id (made cd h p))))"
    unfolding new_member(1) [OF st p(1)] by auto
  then show ?thesis using p(1) unfolding step_frontier [OF st] by auto
next
  case False
  then show ?thesis using a1 old_member(1) [OF st known_frontier [OF st a1]] unfolding step_frontier [OF st] by (intro bexI [of _ m]) simp_all
qed

lemma step_leaves:
  assumes st: "level_step cd h h'"
  shows "mset (frontier_leaves h') = mset (frontier_leaves h)"
proof -
  define rest where "rest = filter (\<lambda>m. m \<notin> set (ends (taken h))) (hi_frontier h)"
  have leaves: "mset (concat (map f ms)) = \<Sum>\<^sub># (image_mset (\<lambda>m. mset (f m)) (mset ms))" for f :: "member \<Rightarrow> string list" and ms
    by (induction ms) simp_all
  have split: "mset (hi_frontier h) = mset (ends (taken h)) + mset rest"
    using mset_ends [OF _ taken_ends [OF st]] step_ok [OF st] unfolding rest_def hierarchy_ok_def by blast
  have pairs: "mset (concat (map (member_leaves h') (map (\<lambda>p. Cluster (ct_id (made cd h p))) ps))) = mset (concat (map (member_leaves h) (ends ps)))"
    if "set ps \<subseteq> set (taken h)" for ps
    using that by (induction ps) (auto simp: new_member(1) [OF st] ends_def)
  have "mset (hi_frontier h') = mset (map (\<lambda>p. Cluster (ct_id (made cd h p))) (taken h)) + mset rest"
    unfolding step_frontier [OF st] rest_def by simp
  then have "mset (frontier_leaves h') = mset (concat (map (member_leaves h') (map (\<lambda>p. Cluster (ct_id (made cd h p))) (taken h))))
      + mset (concat (map (member_leaves h') rest))"
    unfolding frontier_leaves_def leaves by simp
  also have "map (member_leaves h') rest = map (member_leaves h) rest"
    using old_member(1) [OF st] known_frontier [OF st] by (auto simp: rest_def)
  finally have "mset (frontier_leaves h') = mset (concat (map (member_leaves h) (ends (taken h)))) + mset (concat (map (member_leaves h) rest))"
    unfolding pairs [OF subset_refl] .
  then show ?thesis unfolding frontier_leaves_def leaves split by simp
qed

lemma pair_ball: "(\<forall>m \<in> {a, b}. P m) \<longleftrightarrow> P a \<and> P b"
  by simp

lemma old_cluster_ok:
  assumes st: "level_step cd h h'" and a1: "map_of (hi_clusters h) i = Some c"
  shows "cluster_ok cd h' i c"
proof -
  have c: "cluster_ok cd h i c" using step_ok [OF st] a1 unfolding hierarchy_ok_def by blast
  have known: "member_known h (fst (ct_children c))" "member_known h (snd (ct_children c))"
    using c unfolding cluster_ok_def by blast+
  have "\<exists>m \<in> set (hi_frontier h'). set (ct_leaves c) \<subseteq> set (member_leaves h' m)"
    using c frontier_member [OF st] unfolding cluster_ok_def by (meson order_trans)
  moreover have "member_level h (fst (ct_children c)) < ct_level c" "member_level h (snd (ct_children c)) < ct_level c"
      "ct_level c \<le> hi_level h' " "set (ct_leaves c) \<times> set (ct_leaves c) \<subseteq> link_closure h"
    using c unfolding cluster_ok_def step_keeps [OF st] by auto
  ultimately show ?thesis
    using c old_member(3) [OF st known(1)] old_member(3) [OF st known(2)]
    unfolding cluster_ok_def pair_ball step_keeps [OF st] old_member(1,2) [OF st known(1)] old_member(1,2) [OF st known(2)] by blast
qed

lemma new_cluster_linked:
  assumes st: "level_step cd h h'" and a1: "p \<in> set (taken h)"
  shows "set (ct_leaves (made cd h p)) \<times> set (ct_leaves (made cd h p)) \<subseteq> link_closure h"
proof -
  let ?E = "\<Union>l \<in> set (ts_links (hi_source h)). {(lk_from l, lk_to l), (lk_to l, lk_from l)}"
  note within = known_leaves [OF step_ok [OF st] known_frontier [OF st], THEN conjunct2, THEN conjunct1]
  obtain l where l: "l \<in> set (ts_links (hi_source h))"
      "(owner h (lk_from l), owner h (lk_to l)) \<in> {(fst p, snd p), (snd p, fst p)}"
    using taken_pair(4) [OF st a1] unfolding set_frontier_pairs by (auto simp: case_prod_unfold)
  note ends = owner_in [OF step_ok [OF st] link_ends(1) [OF step_ok [OF st] l(1)], THEN conjunct2] owner_in [OF step_ok [OF st] link_ends(2) [OF step_ok [OF st] l(1)], THEN conjunct2]
  have edge: "(lk_from l, lk_to l) \<in> link_closure h" "(lk_to l, lk_from l) \<in> link_closure h" using l(1) unfolding link_closure_def by blast+
  have trans: "(x, y) \<in> link_closure h \<Longrightarrow> (y, z) \<in> link_closure h \<Longrightarrow> (x, z) \<in> link_closure h" for x y z
    unfolding link_closure_def by (rule rtrancl_trans)
  obtain u v where uv: "u \<in> set (member_leaves h (fst p))" "v \<in> set (member_leaves h (snd p))" "(u, v) \<in> link_closure h" "(v, u) \<in> link_closure h"
    using l(2) ends edge by auto
  have "(x, y) \<in> link_closure h" if "x \<in> set (member_leaves h (fst p))" "y \<in> set (member_leaves h (snd p))" for x y
    using within [OF taken_pair(2) [OF st a1]] within [OF taken_pair(3) [OF st a1]] uv that by (blast intro: trans)
  moreover have "(y, x) \<in> link_closure h" if "x \<in> set (member_leaves h (fst p))" "y \<in> set (member_leaves h (snd p))" for x y
    using within [OF taken_pair(2) [OF st a1]] within [OF taken_pair(3) [OF st a1]] uv that by (blast intro: trans)
  ultimately show ?thesis using within [OF taken_pair(2) [OF st a1]] within [OF taken_pair(3) [OF st a1]] by auto
qed

lemma new_cluster_ok:
  assumes st: "level_step cd h h'" and a1: "p \<in> set (taken h)"
  shows "cluster_ok cd h' (ct_id (made cd h p)) (final cd h p)"
proof -
  note known = known_frontier [OF st taken_pair(2) [OF st a1]] known_frontier [OF st taken_pair(3) [OF st a1]]
  have "Cluster (ct_id (made cd h p)) \<in> set (hi_frontier h')" using a1 unfolding step_frontier [OF st] by simp
  then have "\<exists>m \<in> set (hi_frontier h'). set (ct_leaves (made cd h p)) \<subseteq> set (member_leaves h' m)"
    using new_member(1) [OF st a1] by (metis order_refl)
  moreover have "ct_leaves (made cd h p) \<noteq> []" using known_leaves [OF step_ok [OF st] known(1)]
    by (metis append_is_Nil_conv length_0_conv length_sort made_leaves)
  moreover have "member_level h (fst p) < hi_level h + 1" "member_level h (snd p) < hi_level h + 1"
    using known_leaves [OF step_ok [OF st] known(1)] known_leaves [OF step_ok [OF st] known(2)] by auto
  moreover have "distinct (ct_leaves (made cd h p))"
    using pair_leaves_disjoint [OF step_ok [OF st]] a1 unfolding taken_def by (auto simp: distinct_concat_iff simp del: made_leaves)
  ultimately show ?thesis
    using taken_pair(1) [OF st a1] new_cluster_linked [OF st a1] made_id [of cd h p]
    unfolding cluster_ok_def step_keeps [OF st] by (simp add: old_member [OF st known(1)] old_member [OF st known(2)])
qed

lemma step_distinct:
  assumes st: "level_step cd h h'"
  shows "distinct (hi_frontier h')"
proof -
  have "distinct (map (\<lambda>p. Cluster (ct_id (made cd h p))) (taken h))"
    unfolding distinct_map
  proof
    have "distinct (ends ps) \<Longrightarrow> distinct ps" for ps by (induction ps) (force simp: set_ends)+
    then show "distinct (taken h)" using taken_ends(1) [OF st] .
    show "inj_on (\<lambda>p. Cluster (ct_id (made cd h p))) (set (taken h))" by (rule inj_onI) (simp add: new_id_inj [OF st])
  qed
  moreover have "Cluster (ct_id (made cd h p)) \<notin> set (hi_frontier h)" if "p \<in> set (taken h)" for p
    using known_frontier [OF st] new_id_fresh [OF st that] by (fastforce simp: member_known_def)
  ultimately show ?thesis using step_ok [OF st] unfolding step_frontier [OF st] by (auto simp: hierarchy_ok_def)
qed

theorem step_preserves:
  assumes st: "level_step cd h h'"
  shows "hierarchy_ok cd h'"
  unfolding hierarchy_ok_def step_keeps [OF st]
proof (intro conjI allI impI ballI)
  show "source_ok (hi_source h)" "mset (frontier_leaves h') = mset (ts_nodes (hi_source h))"
    using step_ok [OF st] step_leaves [OF st] by (simp_all add: hierarchy_ok_def)
  show "sorted (hi_frontier h')" unfolding step_frontier [OF st] by simp
  show "distinct (hi_frontier h')" by (rule step_distinct [OF st])
  show "bm_ok (hi_clusters h')" using step_coarsened [OF st] step_ok [OF st] by (auto simp: coarsened_def Let_def hierarchy_ok_def insert_clusters_ok)
  show "member_known h' m" if "m \<in> set (hi_frontier h')" for m
    using that old_member(3) [OF st known_frontier [OF st]] new_member(2) [OF st] unfolding step_frontier [OF st] by auto
  show "cluster_ok cd h' i c" if "map_of (hi_clusters h') i = Some c" for i c
    using that old_cluster_ok [OF st] new_cluster_ok [OF st] unfolding step_clusters [OF st] by blast
qed

lemma frontier_shrinks:
  assumes st: "level_step cd h h'"
  shows "length (hi_frontier h') < length (hi_frontier h)"
proof -
  have "distinct (hi_frontier h)" using step_ok [OF st] by (simp add: hierarchy_ok_def)
  then have "mset (hi_frontier h) = mset (ends (taken h)) + mset (filter (\<lambda>m. m \<notin> set (ends (taken h))) (hi_frontier h))"
    using mset_ends taken_ends [OF st] by blast
  then have "length (hi_frontier h) = length (ends (taken h)) + length (filter (\<lambda>m. m \<notin> set (ends (taken h))) (hi_frontier h))"
    by (metis size_mset size_union)
  moreover have "length (ends ps) = 2 * length ps" for ps by (induction ps) (auto simp: ends_def)
  moreover have "(taken h) \<noteq> []" using step_coarsened [OF st] by (simp add: coarsened_def Let_def taken_def)
  ultimately show ?thesis unfolding step_frontier [OF st] by simp
qed

end
