(* ===== verification/Cluster_Theorems.thy ===== *)
theory Cluster_Theorems
  imports Cluster_Invariant
begin

text \<open>
  What a hierarchy shows: every level splits the nodes, the last one into the classes of linked nodes; the
  aggregate links and the pages of evidence leave nothing out.
\<close>

section \<open>Reachable hierarchies\<close>

inductive hierarchy_reachable :: "codec \<Rightarrow> hierarchy \<Rightarrow> bool" for cd where
  start: "hierarchy_with_budget cd s w = Ok h \<Longrightarrow> hierarchy_reachable cd h"
| level: "hierarchy_reachable cd h \<Longrightarrow> advance_level cd h = (h', r) \<Longrightarrow> hierarchy_reachable cd h'"

lemma sorted_adjacent: "sorted xs \<Longrightarrow> \<not> adjacent_equal xs \<Longrightarrow> distinct xs"
proof (induction xs rule: induct_list012)
  case (3 x y zs)
  then have "x < y" "distinct (y # zs)" by (auto simp: adjacent_equal_def)
  with 3 show ?case by auto
qed auto

lemma with_budget_ok:
  assumes "hierarchy_with_budget cd s w = Ok h"
  shows "hierarchy_ok cd h"
proof -
  let ?nodes = "sort (ts_nodes s)" and ?links = "sort_key lk_id (ts_links s)"
  from assms have h: "h = \<lparr>hi_source = s\<lparr>ts_nodes := ?nodes, ts_links := ?links\<rparr>, hi_clusters = [], hi_frontier = map Leaf ?nodes,
      hi_level = 0, hi_boundary = False, hi_work = 0, hi_bytes = 0, hi_work_limit = w,
      hi_revision = digest_of cd ''snapshot:'' (json_topology (s\<lparr>ts_nodes := ?nodes, ts_links := ?links\<rparr>))\<rparr>"
    and checks: "\<not> adjacent_equal ?nodes" "\<not> adjacent_equal (map lk_id ?links)" "list_all (link_ok ?nodes (ts_sources s)) ?links"
    by (auto simp: hierarchy_with_budget_def check_input_def Let_def)
  have distinct: "distinct ?nodes" "distinct (map lk_id ?links)" using sorted_adjacent [OF _ checks(1)] sorted_adjacent [OF _ checks(2)] by simp_all
  have "sorted (map Leaf ns)" if "sorted ns" for ns
    using that by (simp add: sorted_map sorted_wrt_iff_nth_less less_eq_member_def member_rank_def)
  moreover have "frontier_leaves h = ?nodes" by (simp add: h frontier_leaves_def member_leaves_def comp_def)
  ultimately show ?thesis using distinct checks(3)
    by (simp add: hierarchy_ok_def h source_ok_def member_known_def distinct_map inj_on_def link_ok_def list_all_iff)
qed

text \<open>What a call can do: nothing but charge its work, reach the boundary, or coarsen by a matching.\<close>

definition advanced :: "codec \<Rightarrow> hierarchy \<Rightarrow> hierarchy \<Rightarrow> cluster_manifest result \<Rightarrow> bool" where
  "advanced cd h h' r \<longleftrightarrow>
     (\<exists>w. (\<exists>e. r = Err e) \<and> h' = h\<lparr>hi_work := w\<rparr>
        \<or> (frontier_pairs h = [] \<or> hi_boundary h) \<and> h' = h\<lparr>hi_work := w, hi_boundary := True\<rparr> \<and> r = Ok (manifest_of h')
        \<or> coarsened cd (h\<lparr>hi_work := w\<rparr>) h' \<and> \<not> hi_boundary h \<and> r = Ok (manifest_of h'))"

lemma work_only:
  "hierarchy_ok cd (h\<lparr>hi_work := w\<rparr>) \<longleftrightarrow> hierarchy_ok cd h" "frontier_pairs (h\<lparr>hi_work := w\<rparr>) = frontier_pairs h"
proof -
  show "hierarchy_ok cd (h\<lparr>hi_work := w\<rparr>) \<longleftrightarrow> hierarchy_ok cd h" by (rule hierarchy_ok_cong) simp_all
  have "member_leaves (h\<lparr>hi_work := w\<rparr>) = member_leaves h" by (simp add: fun_eq_iff member_leaves_def cong: member.case_cong)
  then show "frontier_pairs (h\<lparr>hi_work := w\<rparr>) = frontier_pairs h" by (simp add: frontier_pairs_def owners_def)
qed

lemma advanced_work: "advanced cd (h\<lparr>hi_work := w\<rparr>) h' r \<Longrightarrow> advanced cd h h' r"
  unfolding advanced_def work_only by auto

lemma grow_advanced:
  assumes ok: "hierarchy_ok cd h"
    and run: "grow_level cd h (foldl (match_pair cd h) \<lparr>mt_used = [], mt_next = [], mt_created = []\<rparr> (frontier_pairs h)) = (h', r)"
    and unfinished: "\<not> hi_boundary h"
  shows "advanced cd h h' r"
proof -
  define s where "s = foldl (match_pair cd h) \<lparr>mt_used = [], mt_next = [], mt_created = []\<rparr> (frontier_pairs h)"
  have created: "mt_created s = [] \<longleftrightarrow> frontier_pairs h = []"
    using match_pairs [of cd h "\<lparr>mt_used = [], mt_next = [], mt_created = []\<rparr>" "frontier_pairs h"] matching_props(4) [OF ok]
    by (simp add: Let_def s_def)
  have h: "h = h\<lparr>hi_work := hi_work h\<rparr>" by simp
  show ?thesis
  proof (cases "frontier_pairs h = []")
    case True
    then have "h' = (h\<lparr>hi_work := hi_work h\<rparr>)\<lparr>hi_boundary := True\<rparr>" "r = Ok (manifest_of h')"
      using run created by (auto simp: s_def [symmetric] grow_level_def Let_def)
    then show ?thesis using True unfolding advanced_def by blast
  next
    case False
    show ?thesis
    proof (cases "next_level cd h s")
      case (Inl e)
      then have "h' = h\<lparr>hi_work := hi_work h\<rparr>" "r = Err e" using run False created by (simp_all add: s_def [symmetric] grow_level_def)
      then show ?thesis unfolding advanced_def by blast
    next
      case (Inr g)
      then have "g = h'" "r = Ok (manifest_of h')" using run False created by (auto simp: s_def [symmetric] grow_level_def)
      moreover from this have "coarsened cd h h'"
        using next_level_Ok [OF ok Inr [unfolded s_def]] matching_props(4) [OF ok] False by simp
      ultimately show ?thesis using unfinished h unfolding advanced_def by metis
    qed
  qed
qed

lemma advance_advanced:
  assumes ok: "hierarchy_ok cd h" and run: "advance_level cd h = (h', r)"
  shows "advanced cd h h' r"
proof -
  have matched: "advanced cd g h' r" if "hierarchy_ok cd g" "match_level cd g = (h', r)" "\<not> hi_boundary g" for g
  proof (cases "saturating_add (hi_work g) (length (frontier_pairs g)) > hi_work_limit g")
    case True
    then have "h' = g\<lparr>hi_work := hi_work g\<rparr>" "r = Err E_CLUSTER_BUDGET"
      using that(2) by (simp_all add: match_level_def Let_def frontier_pairs_def [symmetric])
    then show ?thesis unfolding advanced_def by blast
  next
    case False
    let ?g = "g\<lparr>hi_work := hi_work g + length (frontier_pairs g)\<rparr>"
    have "grow_level cd ?g (foldl (match_pair cd ?g) \<lparr>mt_used = [], mt_next = [], mt_created = []\<rparr> (frontier_pairs ?g)) = (h', r)"
      using that(2) False by (simp add: match_level_def Let_def frontier_pairs_def [symmetric] work_only)
    then show ?thesis using that(1,3) by (intro advanced_work [OF grow_advanced]) (simp_all add: work_only)
  qed
  show ?thesis
  proof (cases "hi_boundary h")
    case True
    then have "h' = (h\<lparr>hi_work := hi_work h\<rparr>)\<lparr>hi_boundary := True\<rparr>" "r = Ok (manifest_of h')"
      using run by (auto simp: advance_level_def)
    then show ?thesis using True unfolding advanced_def by blast
  next
    case False
    show ?thesis
    proof (cases "(h', r) = (h, Err E_CLUSTER_BUDGET)")
      case True
      then have "h' = h\<lparr>hi_work := hi_work h\<rparr>" "r = Err E_CLUSTER_BUDGET" by simp_all
      then show ?thesis unfolding advanced_def by blast
    next
      case over: False
      then obtain w where "match_level cd (h\<lparr>hi_work := w\<rparr>) = (h', r)"
        using run False by (auto simp: advance_level_def Let_def split: if_splits)
      then show ?thesis using ok False by (intro advanced_work [OF matched]) (simp_all add: work_only)
    qed
  qed
qed

lemma advanced_cases:
  assumes "advanced cd h h' r"
  obtains (error) e w where "r = Err e" "h' = h\<lparr>hi_work := w\<rparr>"
  | (boundary) w where "frontier_pairs h = [] \<or> hi_boundary h" "h' = h\<lparr>hi_work := w, hi_boundary := True\<rparr>" "r = Ok (manifest_of h')"
  | (coarser) w where "coarsened cd (h\<lparr>hi_work := w\<rparr>) h'" "\<not> hi_boundary h" "r = Ok (manifest_of h')"
  using assms unfolding advanced_def by blast

lemma advanced_ok:
  assumes "hierarchy_ok cd h" and "advanced cd h h' r" and "inj (cd_js cd)" and "inj (cd_sha cd)"
  shows "hierarchy_ok cd h'"
  using assms(2)
proof (cases rule: advanced_cases)
  case (error e w)
  then show ?thesis using assms(1) work_only(1) by simp
next
  case (boundary w)
  have "hierarchy_ok cd (h\<lparr>hi_work := w, hi_boundary := True\<rparr>) \<longleftrightarrow> hierarchy_ok cd h" by (rule hierarchy_ok_cong) simp_all
  then show ?thesis using assms(1) boundary(2) by simp
next
  case (coarser w)
  then have "level_step cd (h\<lparr>hi_work := w\<rparr>) h'" using assms(1,3,4) by (simp add: level_step_def work_only)
  then show ?thesis by (rule step_preserves)
qed

lemma reachable_ok: "hierarchy_reachable cd h \<Longrightarrow> inj (cd_js cd) \<Longrightarrow> inj (cd_sha cd) \<Longrightarrow> hierarchy_ok cd h"
proof (induction rule: hierarchy_reachable.induct)
  case (start s w h)
  then show ?case by (intro with_budget_ok)
next
  case (level h h' r)
  then show ?case using advanced_ok advance_advanced by metis
qed

section \<open>Progress\<close>

text \<open>Calls until \<open>n\<close> of them are made or one fails.\<close>

fun advances :: "codec \<Rightarrow> nat \<Rightarrow> hierarchy \<Rightarrow> hierarchy result" where
  "advances cd 0 h = Ok h"
| "advances cd (Suc n) h =
     (case advance_level cd h of (h', r) \<Rightarrow> rbind r (\<lambda>_. advances cd n h'))"

definition settled :: "hierarchy \<Rightarrow> bool" where
  "settled h \<longleftrightarrow> hi_boundary h \<longrightarrow> frontier_pairs h = []"

text \<open>A successful call reaches the boundary or makes the frontier shorter; it never leaves the boundary.\<close>

lemma advanced_progress:
  assumes ok: "hierarchy_ok cd h" and adv: "advanced cd h h' (Ok m)" and "inj (cd_js cd)" and "inj (cd_sha cd)" and "settled h"
  shows "settled h'" and "hi_source h' = hi_source h"
    and "hi_boundary h' \<or> length (hi_frontier h') < length (hi_frontier h)" and "hi_boundary h \<longrightarrow> hi_boundary h'"
proof -
  have "settled h' \<and> hi_source h' = hi_source h \<and> (hi_boundary h' \<or> length (hi_frontier h') < length (hi_frontier h))
      \<and> (hi_boundary h \<longrightarrow> hi_boundary h')"
    using adv
  proof (cases rule: advanced_cases)
    case (error e w)
    then show ?thesis by simp
  next
    case (boundary w)
    have "frontier_pairs (h\<lparr>hi_work := w, hi_boundary := True\<rparr>) = frontier_pairs h"
      by (simp add: frontier_pairs_def owners_def member_leaves_def [abs_def])
    then show ?thesis using boundary assms(5) by (auto simp: settled_def)
  next
    case (coarser w)
    then have st: "level_step cd (h\<lparr>hi_work := w\<rparr>) h'" using assms(1,3,4) by (simp add: level_step_def work_only)
    have "\<not> hi_boundary h'" using coarser(1,2) by (simp add: coarsened_def Let_def)
    then show ?thesis using step_keeps(1) [OF st] frontier_shrinks [OF st] coarser(2) by (simp add: settled_def)
  qed
  then show "settled h'" "hi_source h' = hi_source h" "hi_boundary h' \<or> length (hi_frontier h') < length (hi_frontier h)"
    "hi_boundary h \<longrightarrow> hi_boundary h'" by simp_all
qed

lemma advances_boundary:
  assumes "advances cd n h = Ok h'" and "hierarchy_ok cd h" and "settled h" and "inj (cd_js cd)" and "inj (cd_sha cd)"
    and "hi_boundary h \<or> length (hi_frontier h) \<le> n \<and> 0 < n"
  shows "hi_boundary h' \<and> settled h' \<and> hierarchy_ok cd h' \<and> hi_source h' = hi_source h"
  using assms
proof (induction n arbitrary: h)
  case (Suc n)
  obtain h1 r where one: "advance_level cd h = (h1, r)" by (cases "advance_level cd h")
  then obtain m where r: "r = Ok m" and rest: "advances cd n h1 = Ok h'" using Suc.prems(1) by auto
  have adv: "advanced cd h h1 (Ok m)" using advance_advanced [OF Suc.prems(2) one] r by simp
  note p = advanced_progress [OF Suc.prems(2) adv Suc.prems(4,5,3)]
  note ok1 = advanced_ok [OF Suc.prems(2) adv Suc.prems(4,5)]
  have "hi_frontier h1 \<noteq> []" if "hi_frontier h \<noteq> []"
    using frontier_nodes [OF Suc.prems(2)] frontier_nodes [OF ok1] p(2) that known_leaves [OF Suc.prems(2)] Suc.prems(2)
    by (fastforce simp: frontier_leaves_def hierarchy_ok_def neq_Nil_conv)
  then have "0 < length (hi_frontier h) \<Longrightarrow> 0 < length (hi_frontier h1)" by simp
  then have "hi_boundary h1 \<or> length (hi_frontier h1) \<le> n \<and> 0 < n" using p(3,4) Suc.prems(6) by linarith
  then show ?case using Suc.IH [OF rest ok1 p(1) Suc.prems(4,5)] p(2) by simp
qed simp

section \<open>Properties\<close>

text \<open>
  C27: every reachable hierarchy splits its snapshot. Each node is a leaf of exactly one member of the
  frontier; a cluster has exactly the leaves of its two children, which are different and share
  none, the links with both ends among them, and only leaves that links connect.
\<close>

theorem hierarchy_splits_nodes:
  assumes "hierarchy_reachable cd h" and "inj (cd_js cd)" and "inj (cd_sha cd)"
  shows "(\<forall>n \<in> set (ts_nodes (hi_source h)). \<exists>!m. m \<in> set (hi_frontier h) \<and> n \<in> set (member_leaves h m))
    \<and> (\<forall>i c. find_cluster h i = Some c \<longrightarrow>
        ct_leaves c = sort (member_leaves h (fst (ct_children c)) @ member_leaves h (snd (ct_children c)))
        \<and> distinct (ct_leaves c) \<and> ct_links c = links_within h (set (ct_leaves c))
        \<and> set (ct_leaves c) \<times> set (ct_leaves c) \<subseteq> link_closure h)"
proof (intro conjI ballI allI impI)
  note ok = reachable_ok [OF assms]
  show "\<exists>!m. m \<in> set (hi_frontier h) \<and> n \<in> set (member_leaves h m)" if "n \<in> set (ts_nodes (hi_source h))" for n
    using owner_in [OF ok that] owner_eq [OF ok] by metis
  fix i c assume "find_cluster h i = Some c"
  then have "map_of (hi_clusters h) i = Some c" by (simp add: find_cluster_def)
  then have c: "cluster_ok cd h i c" using ok unfolding hierarchy_ok_def by blast
  then show "ct_leaves c = sort (member_leaves h (fst (ct_children c)) @ member_leaves h (snd (ct_children c)))"
      "ct_links c = links_within h (set (ct_leaves c))" "set (ct_leaves c) \<times> set (ct_leaves c) \<subseteq> link_closure h"
      "distinct (ct_leaves c)"
    unfolding cluster_ok_def by blast+
qed

lemma no_pairs_classes:
  assumes ok: "hierarchy_ok cd h" and none: "frontier_pairs h = []"
    and xy: "(x, y) \<in> link_closure h" and x: "x \<in> set (ts_nodes (hi_source h))"
  shows "y \<in> set (ts_nodes (hi_source h)) \<and> owner h y = owner h x"
  using xy unfolding link_closure_def
proof (induction rule: rtrancl_induct)
  case base
  then show ?case using x by simp
next
  case (step y z)
  then obtain l where l: "l \<in> set (ts_links (hi_source h))" "(y, z) \<in> {(lk_from l, lk_to l), (lk_to l, lk_from l)}" by blast
  have "owner h (lk_from l) = owner h (lk_to l)"
  proof (rule ccontr)
    assume "owner h (lk_from l) \<noteq> owner h (lk_to l)"
    then have "(owner h (lk_from l), owner h (lk_to l)) \<in> set (frontier_pairs h) \<or> (owner h (lk_to l), owner h (lk_from l)) \<in> set (frontier_pairs h)"
      unfolding set_frontier_pairs using l(1) by (auto simp: neq_iff)
    then show False using none by simp
  qed
  then show ?case using l step.IH link_ends [OF ok l(1)] by auto
qed

text \<open>
  C28: advancing once or more and as often as there are nodes, without an error, ends at the boundary, and there the
  members of the frontier are the classes of linked nodes: two nodes are leaves of one member
  exactly when links lead from one to the other.
\<close>

theorem boundary_is_classes:
  assumes "hierarchy_with_budget cd s w = Ok h0" and "advances cd n h0 = Ok h" and "length (ts_nodes s) \<le> n" and "0 < n"
    and "inj (cd_js cd)" and "inj (cd_sha cd)"
  shows "hi_boundary h \<and> (\<forall>x \<in> set (ts_nodes s). \<forall>y \<in> set (ts_nodes s).
      (\<exists>m \<in> set (hi_frontier h). x \<in> set (member_leaves h m) \<and> y \<in> set (member_leaves h m)) \<longleftrightarrow> (x, y) \<in> link_closure h)"
proof -
  have h0: "\<not> hi_boundary h0" "length (hi_frontier h0) = length (ts_nodes s)" "set (ts_nodes (hi_source h0)) = set (ts_nodes s)"
    using assms(1) by (auto simp: hierarchy_with_budget_def Let_def)
  have fin: "hi_boundary h" "frontier_pairs h = []" and ok: "hierarchy_ok cd h" and src: "hi_source h = hi_source h0"
    using advances_boundary [OF assms(2) with_budget_ok [OF assms(1)] _ assms(5,6)] h0 assms(3,4) by (auto simp: settled_def)
  have "(\<exists>m \<in> set (hi_frontier h). x \<in> set (member_leaves h m) \<and> y \<in> set (member_leaves h m)) \<longleftrightarrow> (x, y) \<in> link_closure h"
    if "x \<in> set (ts_nodes s)" "y \<in> set (ts_nodes s)" for x y
  proof
    assume "\<exists>m \<in> set (hi_frontier h). x \<in> set (member_leaves h m) \<and> y \<in> set (member_leaves h m)"
    then show "(x, y) \<in> link_closure h" using known_leaves [OF ok] ok unfolding hierarchy_ok_def by blast
  next
    assume "(x, y) \<in> link_closure h"
    then have "owner h y = owner h x" using no_pairs_classes [OF ok fin(2)] that(1) h0(3) src by simp
    then show "\<exists>m \<in> set (hi_frontier h). x \<in> set (member_leaves h m) \<and> y \<in> set (member_leaves h m)"
      using owner_in [OF ok, of x] owner_in [OF ok, of y] that h0(3) src by (intro bexI [of _ "owner h x"]) auto
  qed
  then show ?thesis using fin(1) by blast
qed

lemma aggregate_map:
  "map_of (foldl (add_aggregate own) [] ls) p =
     (let ids = map lk_id (filter (\<lambda>l. (the (map_of own (lk_from l)), the (map_of own (lk_to l))) = p) ls) in
      if fst p = snd p \<or> ids = [] then None else Some ids)"
  by (induction ls rule: rev_induct) (auto simp: add_aggregate_def Let_def bm_or_default_def)

lemma aggregate_ok: "bm_ok m \<Longrightarrow> bm_ok (foldl (add_aggregate own) m ls)"
  by (induction ls arbitrary: m) (simp_all add: add_aggregate_def Let_def)

text \<open>
  C29: the aggregate links of a reachable hierarchy are exactly its crossing links. Each lists, in order, all
  links from leaves of its first member to leaves of its second, at least one; every link between
  leaves of two members is in the aggregate of their pair, of which there is only one.
\<close>

theorem aggregate_links_exact:
  assumes "hierarchy_reachable cd h" and "inj (cd_js cd)" and "inj (cd_sha cd)" and "aggregate_links cd h = Ok out"
  shows "distinct (map (\<lambda>g. (ag_from g, ag_to g)) out)
    \<and> (\<forall>g \<in> set out. ag_from g \<noteq> ag_to g \<and> ag_links g \<noteq> []
        \<and> ag_links g = map lk_id (filter (\<lambda>l. lk_from l \<in> set (member_leaves h (ag_from g)) \<and> lk_to l \<in> set (member_leaves h (ag_to g)))
            (ts_links (hi_source h))))
    \<and> (\<forall>l \<in> set (ts_links (hi_source h)). \<forall>a \<in> set (hi_frontier h). \<forall>b \<in> set (hi_frontier h).
        lk_from l \<in> set (member_leaves h a) \<and> lk_to l \<in> set (member_leaves h b) \<and> a \<noteq> b
        \<longrightarrow> (\<exists>g \<in> set out. ag_from g = a \<and> ag_to g = b \<and> lk_id l \<in> set (ag_links g)))"
proof -
  note ok = reachable_ok [OF assms(1-3)]
  define M where "M = foldl (add_aggregate (owners h)) [] (ts_links (hi_source h))"
  have out: "out = map (\<lambda>((from, to), ls). \<lparr>ag_from = from, ag_to = to, ag_links = ls\<rparr>) M"
    using assms(4) by (simp add: aggregate_links_def M_def Let_def)
  have M: "map_of M p = (let ids = map lk_id (filter (\<lambda>l. (owner h (lk_from l), owner h (lk_to l)) = p) (ts_links (hi_source h))) in
      if fst p = snd p \<or> ids = [] then None else Some ids)" for p
    unfolding M_def aggregate_map owner_def ..
  have Mok: "bm_ok M" unfolding M_def by (rule aggregate_ok) simp
  have own: "owner h (lk_from l) = a \<longleftrightarrow> lk_from l \<in> set (member_leaves h a)" "owner h (lk_to l) = a \<longleftrightarrow> lk_to l \<in> set (member_leaves h a)"
    if "l \<in> set (ts_links (hi_source h))" "a \<in> set (hi_frontier h)" for l a
    using owner_in [OF ok link_ends(1) [OF ok that(1)]] owner_in [OF ok link_ends(2) [OF ok that(1)]] owner_eq [OF ok that(2)] by auto
  have ids: "filter (\<lambda>l. (owner h (lk_from l), owner h (lk_to l)) = (a, b)) (ts_links (hi_source h))
      = filter (\<lambda>l. lk_from l \<in> set (member_leaves h a) \<and> lk_to l \<in> set (member_leaves h b)) (ts_links (hi_source h))"
    if "a \<in> set (hi_frontier h)" "b \<in> set (hi_frontier h)" for a b
    by (rule filter_cong) (simp_all add: own that)
  have entry: "g \<in> set out \<longleftrightarrow> map_of M (ag_from g, ag_to g) = Some (ag_links g)" for g
    unfolding out bm_ok_map_of [OF Mok, symmetric] by (cases g) force
  show ?thesis
  proof (intro conjI ballI impI)
    have "map (\<lambda>g. (ag_from g, ag_to g)) out = map fst M" by (simp add: out comp_def case_prod_unfold)
    then show "distinct (map (\<lambda>g. (ag_from g, ag_to g)) out)" using bm_ok_distinct [OF Mok] by simp
    fix g assume "g \<in> set out"
    then have g: "ag_from g \<noteq> ag_to g" "ag_links g \<noteq> []"
        "ag_links g = map lk_id (filter (\<lambda>l. (owner h (lk_from l), owner h (lk_to l)) = (ag_from g, ag_to g)) (ts_links (hi_source h)))"
      unfolding entry M by (auto simp: Let_def split: if_splits)
    then obtain l where "l \<in> set (ts_links (hi_source h))" "owner h (lk_from l) = ag_from g" "owner h (lk_to l) = ag_to g"
      by (auto simp: filter_empty_conv)
    then have "ag_from g \<in> set (hi_frontier h)" "ag_to g \<in> set (hi_frontier h)" using owner_in [OF ok] link_ends [OF ok] by metis+
    then show "ag_from g \<noteq> ag_to g" "ag_links g \<noteq> []" "ag_links g = map lk_id (filter (\<lambda>l. lk_from l \<in> set (member_leaves h (ag_from g))
        \<and> lk_to l \<in> set (member_leaves h (ag_to g))) (ts_links (hi_source h)))" using g ids by simp_all
  next
    fix l a b assume l: "l \<in> set (ts_links (hi_source h))" and ab: "a \<in> set (hi_frontier h)" "b \<in> set (hi_frontier h)"
      and "lk_from l \<in> set (member_leaves h a) \<and> lk_to l \<in> set (member_leaves h b) \<and> a \<noteq> b"
    then have here: "l \<in> set (filter (\<lambda>l. (owner h (lk_from l), owner h (lk_to l)) = (a, b)) (ts_links (hi_source h)))" "a \<noteq> b"
      using own by auto
    let ?g = "\<lparr>ag_from = a, ag_to = b, ag_links = map lk_id (filter (\<lambda>l. (owner h (lk_from l), owner h (lk_to l)) = (a, b)) (ts_links (hi_source h)))\<rparr>"
    have "?g \<in> set out" unfolding entry M using here by (auto simp: Let_def filter_empty_conv)
    then show "\<exists>g \<in> set out. ag_from g = a \<and> ag_to g = b \<and> lk_id l \<in> set (ag_links g)" using here(1) by (intro bexI [of _ ?g]) auto
  qed
qed

text \<open>Following the cursors of the pages of evidence.\<close>

fun read_pages :: "nat \<Rightarrow> hierarchy \<Rightarrow> string \<Rightarrow> nat \<Rightarrow> nat \<Rightarrow> string list result" where
  "read_pages 0 h i offset limit = Err E_CLUSTER_BUDGET"
| "read_pages (Suc n) h i offset limit =
     rbind (evidence_page h i offset limit) (\<lambda>p.
       case pa_next p of None \<Rightarrow> Ok (pa_items p)
       | Some offset' \<Rightarrow> rbind (read_pages n h i offset' limit) (\<lambda>rest. Ok (pa_items p @ rest)))"

text \<open> The pages of evidence of a cluster, read from the first to the last by their cursors, are its
  contributing links, each once and in order, for every page size the code allows.
\<close>

theorem evidence_pages_complete:
  assumes "find_cluster h i = Some c" and "0 < limit" and "limit \<le> 256" and "length (ct_links c) < n" and "length (ct_links c) \<le> usize_max"
  shows "read_pages n h i 0 limit = Ok (ct_links c)"
proof -
  let ?L = "ct_links c"
  have "read_pages n h i offset limit = Ok (drop offset ?L)" if "offset \<le> length ?L" "length ?L - offset < n" for n offset
    using that
  proof (induction n arbitrary: offset)
    case (Suc n)
    let ?stop = "min (saturating_add offset limit) (length ?L)"
    have e: "offset \<le> ?stop" "?stop \<le> length ?L" "?stop < length ?L \<Longrightarrow> offset < ?stop"
      using Suc.prems(1) assms(2,5) by (auto simp: saturating_add_def)
    have page: "evidence_page h i offset limit = Ok \<lparr>pa_items = take (?stop - offset) (drop offset ?L),
        pa_next = (if ?stop < length ?L then Some ?stop else None)\<rparr>"
      using assms(1-3) Suc.prems(1) by (simp add: evidence_page_def Let_def ensure_def)
    show ?case
    proof (cases "?stop < length ?L")
      case True
      have "read_pages n h i ?stop limit = Ok (drop ?stop ?L)" using Suc.IH [OF e(2)] Suc.prems(2) e(3) [OF True] True by linarith
      moreover have "take (?stop - offset) (drop offset ?L) @ drop ?stop ?L = drop offset ?L"
        by (metis append_take_drop_id drop_drop e(1) le_add_diff_inverse2)
      ultimately show ?thesis using True by (simp add: page)
    next
      case False
      then show ?thesis using e by (simp add: page)
    qed
  qed simp
  from this [of 0 n] show ?thesis using assms(4) by simp
qed

end
