(* ===== verification/Lineage_Model.thy ===== *)
theory Lineage_Model
  imports Cluster_Model
begin

text \<open>
  The overlap of two frontiers (\<open>weave-cluster/src/lineage.rs\<close>): which members of an older and a newer
  hierarchy share leaves, which split, merge, retire or appear.
\<close>

section \<open>Data\<close>

record record_ref =
  rc_member :: member
  rc_revision :: string

record overlap_entry =
  ov_before :: record_ref
  ov_after :: record_ref
  ov_shared :: nat

record lineage =
  li_algorithm :: string
  li_before_snapshot :: string
  li_after_snapshot :: string
  li_before_sources :: "graph_ref list"
  li_after_sources :: "graph_ref list"
  li_before_valid_at :: int
  li_after_valid_at :: int
  li_before_level :: nat
  li_after_level :: nat
  li_partial :: bool
  li_overlaps :: "overlap_entry list"
  li_splits :: "record_ref list"
  li_merges :: "record_ref list"
  li_retired :: "record_ref list"
  li_created :: "record_ref list"
  li_removed :: "string list"
  li_added :: "string list"

definition json_ref :: "record_ref \<Rightarrow> jvalue" where
  "json_ref r = JObj [(''member'', json_member (rc_member r)), (''revision'', JStr (rc_revision r))]"

definition json_overlap :: "overlap_entry \<Rightarrow> jvalue" where
  "json_overlap v = JObj [(''before'', json_ref (ov_before v)), (''after'', json_ref (ov_after v)),
     (''shared_leaves'', json_int (int (ov_shared v)))]"

definition json_lineage :: "lineage \<Rightarrow> jvalue" where
  "json_lineage r = JObj [(''algorithm'', JStr (li_algorithm r)), (''before_snapshot'', JStr (li_before_snapshot r)),
     (''after_snapshot'', JStr (li_after_snapshot r)), (''before_sources'', JArr (map json_snapshot (li_before_sources r))),
     (''after_sources'', JArr (map json_snapshot (li_after_sources r))), (''before_valid_at'', json_int (li_before_valid_at r)),
     (''after_valid_at'', json_int (li_after_valid_at r)), (''before_level'', json_int (int (li_before_level r))),
     (''after_level'', json_int (int (li_after_level r))), (''partial_input'', JBool (li_partial r)),
     (''overlaps'', JArr (map json_overlap (li_overlaps r))), (''splits'', JArr (map json_ref (li_splits r))),
     (''merges'', JArr (map json_ref (li_merges r))), (''retired'', JArr (map json_ref (li_retired r))),
     (''created'', JArr (map json_ref (li_created r))), (''removed_leaves'', JArr (map JStr (li_removed r))),
     (''added_leaves'', JArr (map JStr (li_added r)))]"

definition record_ref_of :: "codec \<Rightarrow> hierarchy \<Rightarrow> member \<Rightarrow> record_ref" where
  "record_ref_of cd h m = \<lparr>rc_member = m, rc_revision =
     (case m of
        Cluster i \<Rightarrow> ct_revision (the (map_of (hi_clusters h) i))
      | Leaf i \<Rightarrow> digest_of cd ''leaf-record:'' (JArr [JStr (hi_revision h), JStr i]))\<rparr>"

section \<open>Charged lists\<close>

text \<open>An item is charged with its text and a separator before it is kept.\<close>

definition retain :: "codec \<Rightarrow> ('a \<Rightarrow> jvalue) \<Rightarrow> 'a list \<times> nat \<Rightarrow> 'a \<Rightarrow> ('a list \<times> nat) result" where
  "retain cd js s v =
     (case s of (items, bytes) \<Rightarrow>
        rbind (text_size cd (js v) (max_output - bytes)) (\<lambda>n.
        let bytes = saturating_add (saturating_add bytes n) 1 in
        if bytes > max_output then Err E_CLUSTER_BUDGET else Ok (items @ [v], bytes)))"

definition retain_all :: "codec \<Rightarrow> ('a \<Rightarrow> jvalue) \<Rightarrow> 'a list \<Rightarrow> nat \<Rightarrow> ('a list \<times> nat) result" where
  "retain_all cd js vs bytes = try_fold (retain cd js) ([], bytes) vs"

section \<open>Counting\<close>

definition bm_count :: "'k::linorder \<Rightarrow> ('k, nat) btree_map \<Rightarrow> ('k, nat) btree_map" where
  "bm_count k m = bm_insert k (bm_or_default 0 m k + 1) m"

text \<open>A leaf of the older frontier: counted with its owners, or removed.\<close>

type_synonym leaf_counts = "(member \<times> member, nat) btree_map \<times> string list \<times> nat"

definition count_leaf :: "codec \<Rightarrow> (string, member) btree_map \<Rightarrow> leaf_counts \<Rightarrow> string \<times> member \<Rightarrow> leaf_counts result" where
  "count_leaf cd after s e =
     (case s of (counts, removed, bytes) \<Rightarrow>
        case map_of after (fst e) of
          Some own \<Rightarrow> Ok (bm_count (snd e, own) counts, removed, bytes)
        | None \<Rightarrow> rbind (retain cd JStr (removed, bytes) (fst e)) (\<lambda>(removed, bytes). Ok (counts, removed, bytes)))"

text \<open>The degrees of the members and the overlaps, from the counts.\<close>

record degrees =
  dg_out :: "(member, nat) btree_map"
  dg_in :: "(member, nat) btree_map"
  dg_overlaps :: "overlap_entry list"
  dg_bytes :: nat

definition add_overlap :: "codec \<Rightarrow> hierarchy \<Rightarrow> hierarchy \<Rightarrow> degrees \<Rightarrow> (member \<times> member) \<times> nat \<Rightarrow> degrees result" where
  "add_overlap cd before after s e =
     (case e of ((old, new), shared) \<Rightarrow>
        rbind (retain cd json_overlap (dg_overlaps s, dg_bytes s)
            \<lparr>ov_before = record_ref_of cd before old, ov_after = record_ref_of cd after new, ov_shared = shared\<rparr>)
          (\<lambda>(overlaps, bytes).
             Ok \<lparr>dg_out = bm_count old (dg_out s), dg_in = bm_count new (dg_in s), dg_overlaps = overlaps, dg_bytes = bytes\<rparr>))"

text \<open>A member by its degree: none, one, or several partners.\<close>

type_synonym sorted_members = "record_ref list \<times> record_ref list \<times> nat"

definition sort_member :: "codec \<Rightarrow> hierarchy \<Rightarrow> (member, nat) btree_map \<Rightarrow> sorted_members \<Rightarrow> member \<Rightarrow> sorted_members result" where
  "sort_member cd h degree s m =
     (case s of (none, several, bytes) \<Rightarrow>
        let d = bm_or_default 0 degree m in
        if d = 0 then
          rbind (retain cd json_ref (none, bytes) (record_ref_of cd h m)) (\<lambda>(none, bytes). Ok (none, several, bytes))
        else if d = 1 then Ok s
        else rbind (retain cd json_ref (several, bytes) (record_ref_of cd h m)) (\<lambda>(several, bytes). Ok (none, several, bytes)))"

section \<open>The lineage\<close>

definition lineage_in_domain :: "codec \<Rightarrow> hierarchy \<Rightarrow> hierarchy \<Rightarrow> string \<Rightarrow> lineage result" where
  "lineage_in_domain cd h next_h domain =
     (let src = hi_source h; src' = hi_source next_h in
      rbind (ensure (cluster_id_ok domain \<and> list_ex (\<lambda>r. gr_graph r = domain) (ts_sources src)
          \<and> list_ex (\<lambda>r. gr_graph r = domain) (ts_sources src') \<and> ts_perspective src = ts_perspective src'
          \<and> ts_context src = ts_context src') E_CLUSTER_SCOPE) (\<lambda>_.
      let before = owners h; after = owners next_h in
      rbind (retain_all cd json_snapshot (ts_sources src) 4096) (\<lambda>(before_sources, bytes).
      rbind (retain_all cd json_snapshot (ts_sources src') bytes) (\<lambda>(after_sources, bytes).
      rbind (try_fold (count_leaf cd after) ([], [], bytes) before) (\<lambda>(counts, removed, bytes).
      rbind (retain_all cd JStr (filter (\<lambda>n. map_of before n = None) (map fst after)) bytes) (\<lambda>(added, bytes).
      rbind (try_fold (add_overlap cd h next_h) \<lparr>dg_out = [], dg_in = [], dg_overlaps = [], dg_bytes = bytes\<rparr> counts) (\<lambda>g.
      rbind (try_fold (sort_member cd h (dg_out g)) ([], [], dg_bytes g) (hi_frontier h)) (\<lambda>(retired, splits, bytes).
      rbind (try_fold (sort_member cd next_h (dg_in g)) ([], [], bytes) (hi_frontier next_h)) (\<lambda>(created, merges, bytes).
      let result = \<lparr>li_algorithm = ''weave:frontier-overlap:1'', li_before_snapshot = hi_revision h, li_after_snapshot = hi_revision next_h,
            li_before_sources = before_sources, li_after_sources = after_sources, li_before_valid_at = ts_valid_at src,
            li_after_valid_at = ts_valid_at src', li_before_level = hi_level h, li_after_level = hi_level next_h,
            li_partial = (ts_partial src \<or> ts_partial src'), li_overlaps = dg_overlaps g, li_splits = splits, li_merges = merges,
            li_retired = retired, li_created = created, li_removed = removed, li_added = added\<rparr> in
      rbind (text_size cd (json_lineage result) max_output) (\<lambda>_. Ok result))))))))))"

definition source_ids :: "hierarchy \<Rightarrow> string btree_set" where
  "source_ids h = foldl (\<lambda>s r. bs_insert (gr_graph r) s) [] (ts_sources (hi_source h))"

definition lineage_to :: "codec \<Rightarrow> hierarchy \<Rightarrow> hierarchy \<Rightarrow> lineage result" where
  "lineage_to cd h next_h =
     (let old_domains = source_ids h in
      if length old_domains \<noteq> 1 \<or> ts_perspective (hi_source h) \<noteq> ts_perspective (hi_source next_h)
        \<or> ts_context (hi_source h) \<noteq> ts_context (hi_source next_h) \<or> old_domains \<noteq> source_ids next_h
      then Err E_CLUSTER_SCOPE
      else lineage_in_domain cd h next_h (hd old_domains))"

end
