(* ===== verification/Lineage_Theorems.thy ===== *)
theory Lineage_Theorems
  imports Cluster_Theorems Lineage_Model
begin

text \<open>What a lineage lists: every pair of members that share leaves, and the members by their number of partners.\<close>

section \<open>Owners as entries\<close>

lemma collect_map_ok: "bm_ok (collect_map kvs)"
proof -
  have "bm_ok m \<Longrightarrow> bm_ok (foldl (\<lambda>m (k, v). bm_insert k v m) m kvs)" for m :: "('a \<times> 'b) list"
    by (induction kvs arbitrary: m) auto
  then show ?thesis by (simp add: collect_map_def)
qed

lemma owners_ok: "bm_ok (owners h)"
  unfolding owners_def by (rule collect_map_ok)

lemma owners_entry:
  assumes "hierarchy_ok cd h"
  shows "(n, m) \<in> set (owners h) \<longleftrightarrow> m \<in> set (hi_frontier h) \<and> n \<in> set (member_leaves h m)"
  unfolding bm_ok_map_of [OF owners_ok] by (rule owners_Some [OF assms])

section \<open>Lists and counts\<close>

lemma retain_Ok: "retain cd js (items, bytes) v = Ok (items', bytes') \<Longrightarrow> items' = items @ [v]"
  by (auto simp: retain_def Let_def split: if_splits)

lemma retain_step: "retain cd js s v = Ok s' \<Longrightarrow> fst s' = fst s @ [v]"
  using retain_Ok [of cd js "fst s" "snd s" v "fst s'" "snd s'"] by simp

lemma retain_all_Ok: "retain_all cd js vs bytes = Ok (items, bytes') \<Longrightarrow> items = vs"
proof -
  have "try_fold (retain cd js) s vs = Ok s' \<Longrightarrow> fst s' = fst s @ vs" for s s'
    by (induction vs arbitrary: s) (auto dest!: retain_step)
  then show "retain_all cd js vs bytes = Ok (items, bytes') \<Longrightarrow> items = vs" unfolding retain_all_def by fastforce
qed

lemma map_of_bm_count [simp]: "map_of (bm_count k m) = (map_of m)(k \<mapsto> bm_or_default 0 m k + 1)"
  by (simp add: bm_count_def)

lemma bm_count_ok [simp]: "bm_ok m \<Longrightarrow> bm_ok (bm_count k m)"
  by (simp add: bm_count_def)

text \<open>A map of counts counts the elements of a list.\<close>

definition counts_of :: "('k::linorder, nat) btree_map \<Rightarrow> 'k list \<Rightarrow> bool" where
  "counts_of m ks \<longleftrightarrow> bm_ok m \<and> (\<forall>k. map_of m k = (if k \<in> set ks then Some (count_list ks k) else None))"

lemma counts_of_Nil [simp]: "counts_of [] []"
  by (simp add: counts_of_def)

lemma counts_of_default: "counts_of m ks \<Longrightarrow> bm_or_default 0 m k = count_list ks k"
  by (auto simp: counts_of_def bm_or_default_def)

lemma counts_of_bm_count:
  assumes "counts_of m ks"
  shows "counts_of (bm_count k m) (ks @ [k])"
  using assms counts_of_default [OF assms] by (auto simp: counts_of_def)

lemma counts_of_entry: "counts_of m ks \<Longrightarrow> (k, n) \<in> set m \<longleftrightarrow> k \<in> set ks \<and> n = count_list ks k"
  unfolding counts_of_def by (auto simp: bm_ok_map_of split: if_splits)

section \<open>The passes\<close>

lemma count_leaf_removed:
  "map_of after n = None \<Longrightarrow> count_leaf cd after (counts, removed, bytes) (n, m) = Ok s \<Longrightarrow> \<exists>b. s = (counts, removed @ [n], b)"
  by (auto simp: count_leaf_def dest!: retain_Ok)

lemma add_overlap_step:
  "add_overlap cd before after g ((a, b), n) = Ok s \<Longrightarrow> \<exists>bytes. s = \<lparr>dg_out = bm_count a (dg_out g), dg_in = bm_count b (dg_in g),
     dg_overlaps = dg_overlaps g @ [\<lparr>ov_before = record_ref_of cd before a, ov_after = record_ref_of cd after b, ov_shared = n\<rparr>],
     dg_bytes = bytes\<rparr>"
  by (auto simp: add_overlap_def dest!: retain_Ok)

lemma count_leaf_Ok:
  assumes "try_fold (count_leaf cd after) (counts, removed, bytes) es = Ok (counts', removed', bytes')" and "counts_of counts ks"
  shows "counts_of counts' (ks @ map (\<lambda>(n, m). (m, the (map_of after n))) (filter (\<lambda>(n, m). map_of after n \<noteq> None) es))
    \<and> removed' = removed @ map fst (filter (\<lambda>(n, m). map_of after n = None) es)"
  using assms
proof (induction es arbitrary: counts removed bytes ks)
  case (Cons e es)
  obtain n m where e: "e = (n, m)" by (cases e)
  show ?case
  proof (cases "map_of after n")
    case None
    from Cons.prems(1) obtain s where s: "count_leaf cd after (counts, removed, bytes) (n, m) = Ok s"
        "try_fold (count_leaf cd after) s es = Ok (counts', removed', bytes')" by (auto simp: e)
    obtain bytes1 where "try_fold (count_leaf cd after) (counts, removed @ [n], bytes1) es = Ok (counts', removed', bytes')"
      using count_leaf_removed [OF None s(1)] s(2) by blast
    from Cons.IH [OF this Cons.prems(2)] show ?thesis by (simp add: e None)
  next
    case (Some own)
    then have "count_leaf cd after (counts, removed, bytes) e = Ok (bm_count (m, own) counts, removed, bytes)"
      by (simp add: count_leaf_def e)
    then have "try_fold (count_leaf cd after) (bm_count (m, own) counts, removed, bytes) es = Ok (counts', removed', bytes')"
      using Cons.prems(1) by simp
    from Cons.IH [OF this counts_of_bm_count [OF Cons.prems(2)]] show ?thesis by (simp add: e Some)
  qed
qed simp

lemma add_overlap_Ok:
  assumes "try_fold (add_overlap cd before after) g es = Ok g'" and "counts_of (dg_out g) as" and "counts_of (dg_in g) bs"
  shows "counts_of (dg_out g') (as @ map (fst \<circ> fst) es) \<and> counts_of (dg_in g') (bs @ map (snd \<circ> fst) es)
    \<and> dg_overlaps g' = dg_overlaps g @ map (\<lambda>((a, b), n). \<lparr>ov_before = record_ref_of cd before a,
        ov_after = record_ref_of cd after b, ov_shared = n\<rparr>) es"
  using assms
proof (induction es arbitrary: g as bs)
  case (Cons e es)
  obtain a b n where e: "e = ((a, b), n)" by (metis prod.exhaust)
  let ?v = "\<lparr>ov_before = record_ref_of cd before a, ov_after = record_ref_of cd after b, ov_shared = n\<rparr>"
  from Cons.prems(1) obtain s where s: "add_overlap cd before after g ((a, b), n) = Ok s"
      "try_fold (add_overlap cd before after) s es = Ok g'" by (auto simp: e)
  obtain bytes1 where "try_fold (add_overlap cd before after)
      \<lparr>dg_out = bm_count a (dg_out g), dg_in = bm_count b (dg_in g), dg_overlaps = dg_overlaps g @ [?v], dg_bytes = bytes1\<rparr> es = Ok g'"
    using add_overlap_step [OF s(1)] s(2) by blast
  from Cons.IH [OF this, of "as @ [a]" "bs @ [b]"] counts_of_bm_count [OF Cons.prems(2), of a] counts_of_bm_count [OF Cons.prems(3), of b]
  show ?case by (simp add: e)
qed simp

lemma sort_member_none:
  "bm_or_default 0 degree m = 0 \<Longrightarrow> sort_member cd h degree (none, several, bytes) m = Ok s
    \<Longrightarrow> \<exists>b. s = (none @ [record_ref_of cd h m], several, b)"
  by (auto simp: sort_member_def Let_def dest!: retain_Ok)

lemma sort_member_several:
  "2 \<le> bm_or_default 0 degree m \<Longrightarrow> sort_member cd h degree (none, several, bytes) m = Ok s
    \<Longrightarrow> \<exists>b. s = (none, several @ [record_ref_of cd h m], b)"
  by (auto simp: sort_member_def Let_def dest!: retain_Ok)

lemma sort_member_Ok:
  assumes "try_fold (sort_member cd h degree) (none, several, bytes) ms = Ok (none', several', bytes')"
  shows "none' = none @ map (record_ref_of cd h) (filter (\<lambda>m. bm_or_default 0 degree m = 0) ms)
    \<and> several' = several @ map (record_ref_of cd h) (filter (\<lambda>m. 2 \<le> bm_or_default 0 degree m) ms)"
  using assms
proof (induction ms arbitrary: none several bytes)
  case (Cons m ms)
  from Cons.prems obtain s where s: "sort_member cd h degree (none, several, bytes) m = Ok s"
      "try_fold (sort_member cd h degree) s ms = Ok (none', several', bytes')" by auto
  consider "bm_or_default 0 degree m = 0" | "bm_or_default 0 degree m = 1" | "2 \<le> bm_or_default 0 degree m" by linarith
  then show ?case
  proof cases
    case 1
    then obtain b where "s = (none @ [record_ref_of cd h m], several, b)" using sort_member_none [OF 1 s(1)] by blast
    from Cons.IH [OF s(2) [unfolded this]] show ?thesis by (simp add: 1)
  next
    case 2
    then have "s = (none, several, bytes)" using s(1) by (simp add: sort_member_def Let_def)
    from Cons.IH [OF s(2) [unfolded this]] show ?thesis by (simp add: 2)
  next
    case 3
    then obtain b where "s = (none, several @ [record_ref_of cd h m], b)" using sort_member_several [OF 3 s(1)] by blast
    from Cons.IH [OF s(2) [unfolded this]] show ?thesis using 3 by simp
  qed
qed simp

section \<open>Partners\<close>

definition shared :: "hierarchy \<Rightarrow> hierarchy \<Rightarrow> member \<Rightarrow> member \<Rightarrow> nat" where
  "shared h h' a b = card (set (member_leaves h a) \<inter> set (member_leaves h' b))"

definition partners :: "hierarchy \<Rightarrow> hierarchy \<Rightarrow> (member \<times> member) set" where
  "partners h h' = {(a, b). a \<in> set (hi_frontier h) \<and> b \<in> set (hi_frontier h') \<and> shared h h' a b \<noteq> 0}"

lemma count_list_map: "count_list (map f xs) y = length (filter (\<lambda>x. f x = y) xs)"
  by (induction xs) auto

lemma count_pairs:
  assumes ok: "hierarchy_ok cd h" "hierarchy_ok cd h'"
  defines "ks \<equiv> map (\<lambda>(n, m). (m, the (map_of (owners h') n))) (filter (\<lambda>(n, m). map_of (owners h') n \<noteq> None) (owners h))"
  shows "set ks = partners h h'" and "(a, b) \<in> partners h h' \<Longrightarrow> count_list ks (a, b) = shared h h' a b"
proof -
  have entry: "(n, m) \<in> set (owners h) \<longleftrightarrow> m \<in> set (hi_frontier h) \<and> n \<in> set (member_leaves h m)" for n m
    by (rule owners_entry [OF ok(1)])
  have own: "map_of (owners h') n = Some m \<longleftrightarrow> m \<in> set (hi_frontier h') \<and> n \<in> set (member_leaves h' m)" for n m
    by (rule owners_Some [OF ok(2)])
  show "set ks = partners h h'"
  proof (rule set_eqI)
    fix p :: "member \<times> member"
    obtain a b where p: "p = (a, b)" by (cases p)
    have "p \<in> set ks \<longleftrightarrow> (\<exists>n. (n, a) \<in> set (owners h) \<and> map_of (owners h') n = Some b)" by (force simp: ks_def p)
    also have "\<dots> \<longleftrightarrow> a \<in> set (hi_frontier h) \<and> b \<in> set (hi_frontier h') \<and> set (member_leaves h a) \<inter> set (member_leaves h' b) \<noteq> {}"
      unfolding entry own by blast
    also have "\<dots> \<longleftrightarrow> p \<in> partners h h'" by (simp add: partners_def shared_def p)
    finally show "p \<in> set ks \<longleftrightarrow> p \<in> partners h h'" .
  qed
  assume "(a, b) \<in> partners h h'"
  then have ab: "a \<in> set (hi_frontier h)" "b \<in> set (hi_frontier h')" by (auto simp: partners_def)
  let ?E = "filter (\<lambda>e. map_of (owners h') (fst e) = Some b \<and> snd e = a) (owners h)"
  have "filter (\<lambda>e. (case e of (n, m) \<Rightarrow> (m, the (map_of (owners h') n))) = (a, b) \<and> (case e of (n, m) \<Rightarrow> map_of (owners h') n \<noteq> None)) (owners h) = ?E"
    by (rule filter_cong) auto
  then have "count_list ks (a, b) = length ?E"
    by (simp add: ks_def count_list_map conj_commute)
  also have "\<dots> = card (fst ` set ?E)"
  proof -
    have "distinct (map fst ?E)" by (rule distinct_map_filter, rule bm_ok_distinct, rule owners_ok)
    from distinct_card [OF this] show ?thesis by simp
  qed
  also have "fst ` set ?E = {n. (n, a) \<in> set (owners h) \<and> map_of (owners h') n = Some b}" by force
  also have "\<dots> = set (member_leaves h a) \<inter> set (member_leaves h' b)"
    using ab unfolding entry own by blast
  finally show "count_list ks (a, b) = shared h h' a b" by (simp add: shared_def)
qed

text \<open>The degree of a member is its number of partners.\<close>

lemma degree_card:
  assumes "counts_of m ks"
  shows "count_list (map (f \<circ> fst) m) a = card {k \<in> set ks. f k = a}"
proof -
  have "count_list (map (f \<circ> fst) m) a = length (filter (\<lambda>e. f (fst e) = a) m)" by (simp add: count_list_map)
  also have "\<dots> = card (fst ` set (filter (\<lambda>e. f (fst e) = a) m))"
  proof -
    have "distinct (map fst (filter (\<lambda>e. f (fst e) = a) m))"
      by (rule distinct_map_filter, rule bm_ok_distinct) (use assms in \<open>simp add: counts_of_def\<close>)
    from distinct_card [OF this] show ?thesis by simp
  qed
  also have "fst ` set (filter (\<lambda>e. f (fst e) = a) m) = {k \<in> set ks. f k = a}"
    using counts_of_entry [OF assms] by force
  finally show ?thesis .
qed

text \<open>
  C30: a lineage between two reachable hierarchies lists every pair of frontier members that share
  leaves, once, with the number of shared leaves; as retired and created the members without a
  partner, as splits and merges those with several; as removed and added the nodes of only one side.
\<close>

theorem lineage_exact:
  assumes "hierarchy_reachable cd h" and "hierarchy_reachable cd h'" and "inj (cd_js cd)" and "inj (cd_sha cd)"
    and "lineage_in_domain cd h h' domain = Ok r"
  shows "distinct (li_overlaps r)
    \<and> set (li_overlaps r) = {\<lparr>ov_before = record_ref_of cd h a, ov_after = record_ref_of cd h' b, ov_shared = shared h h' a b\<rparr>
        | a b. (a, b) \<in> partners h h'}
    \<and> li_retired r = map (record_ref_of cd h) (filter (\<lambda>a. card {b. (a, b) \<in> partners h h'} = 0) (hi_frontier h))
    \<and> li_splits r = map (record_ref_of cd h) (filter (\<lambda>a. card {b. (a, b) \<in> partners h h'} \<ge> 2) (hi_frontier h))
    \<and> li_created r = map (record_ref_of cd h') (filter (\<lambda>b. card {a. (a, b) \<in> partners h h'} = 0) (hi_frontier h'))
    \<and> li_merges r = map (record_ref_of cd h') (filter (\<lambda>b. card {a. (a, b) \<in> partners h h'} \<ge> 2) (hi_frontier h'))
    \<and> set (li_removed r) = set (ts_nodes (hi_source h)) - set (ts_nodes (hi_source h'))
    \<and> set (li_added r) = set (ts_nodes (hi_source h')) - set (ts_nodes (hi_source h))"
proof -
  note ok = reachable_ok [OF assms(1,3,4)] reachable_ok [OF assms(2,3,4)]
  from assms(5) obtain b1 b2 b3 b4 counts removed added g retired splits created merges where
      counts: "try_fold (count_leaf cd (owners h')) ([], [], b1) (owners h) = Ok (counts, removed, b2)"
    and added: "retain_all cd JStr (filter (\<lambda>n. map_of (owners h) n = None) (map fst (owners h'))) b2 = Ok (added, b3)"
    and g: "try_fold (add_overlap cd h h') \<lparr>dg_out = [], dg_in = [], dg_overlaps = [], dg_bytes = b3\<rparr> counts = Ok g"
    and old: "try_fold (sort_member cd h (dg_out g)) ([], [], dg_bytes g) (hi_frontier h) = Ok (retired, splits, b4)"
    and new: "\<exists>b5. try_fold (sort_member cd h' (dg_in g)) ([], [], b4) (hi_frontier h') = Ok (created, merges, b5)"
    and r: "li_overlaps r = dg_overlaps g" "li_retired r = retired" "li_splits r = splits" "li_created r = created"
      "li_merges r = merges" "li_removed r = removed" "li_added r = added"
    by (auto simp: lineage_in_domain_def Let_def)
  define ks where "ks = map (\<lambda>(n, m). (m, the (map_of (owners h') n))) (filter (\<lambda>(n, m). map_of (owners h') n \<noteq> None) (owners h))"
  note pairs = count_pairs [OF ok, folded ks_def]
  have c: "counts_of counts ks" and rem: "removed = map fst (filter (\<lambda>(n, m). map_of (owners h') n = None) (owners h))"
    using count_leaf_Ok [OF counts counts_of_Nil] by (simp_all add: ks_def)
  have go: "counts_of (dg_out g) (map (fst \<circ> fst) counts)" "counts_of (dg_in g) (map (snd \<circ> fst) counts)"
    and overlaps: "dg_overlaps g = map (\<lambda>((a, b), n). \<lparr>ov_before = record_ref_of cd h a, ov_after = record_ref_of cd h' b, ov_shared = n\<rparr>) counts"
    using add_overlap_Ok [OF g, of "[]" "[]"] by simp_all
  have out: "bm_or_default 0 (dg_out g) a = card {b. (a, b) \<in> partners h h'}" for a
  proof -
    have "{k \<in> set ks. fst k = a} = Pair a ` {b. (a, b) \<in> partners h h'}" unfolding pairs(1) by force
    then show ?thesis unfolding counts_of_default [OF go(1)] degree_card [OF c] by (simp add: card_image inj_on_def)
  qed
  have inn: "bm_or_default 0 (dg_in g) b = card {a. (a, b) \<in> partners h h'}" for b
  proof -
    have "{k \<in> set ks. snd k = b} = (\<lambda>a. (a, b)) ` {a. (a, b) \<in> partners h h'}" unfolding pairs(1) by force
    then show ?thesis unfolding counts_of_default [OF go(2)] degree_card [OF c] by (simp add: card_image inj_on_def)
  qed
  have none: "map_of (owners x) n = None \<longleftrightarrow> n \<notin> set (ts_nodes (hi_source x))" if "hierarchy_ok cd x" for x n
  proof -
    have "map_of (owners x) n = None \<longleftrightarrow> (\<nexists>m. map_of (owners x) n = Some m)" by simp
    also have "\<dots> \<longleftrightarrow> n \<notin> set (frontier_leaves x)" unfolding owners_Some [OF that] by (auto simp: frontier_leaves_def)
    finally show ?thesis unfolding frontier_nodes [OF that] .
  qed
  have keys: "fst ` set (owners x) = set (ts_nodes (hi_source x))" if "hierarchy_ok cd x" for x
    using none [OF that] by (metis (no_types, lifting) map_of_eq_None_iff subsetI subset_antisym)
  have entry: "((a, b), n) \<in> set counts \<longleftrightarrow> (a, b) \<in> partners h h' \<and> n = shared h h' a b" for a b n
    unfolding counts_of_entry [OF c] pairs(1) using pairs(2) by auto
  show ?thesis unfolding r
  proof (intro conjI)
    have "distinct counts" using c bm_ok_distinct by (auto simp: counts_of_def distinct_map)
    then show "distinct (dg_overlaps g)"
      unfolding overlaps by (auto simp: distinct_map inj_on_def record_ref_of_def)
    show "set (dg_overlaps g) = {\<lparr>ov_before = record_ref_of cd h a, ov_after = record_ref_of cd h' b, ov_shared = shared h h' a b\<rparr>
        | a b. (a, b) \<in> partners h h'}"
      unfolding overlaps using entry by force
    show "retired = map (record_ref_of cd h) (filter (\<lambda>a. card {b. (a, b) \<in> partners h h'} = 0) (hi_frontier h))"
      "splits = map (record_ref_of cd h) (filter (\<lambda>a. card {b. (a, b) \<in> partners h h'} \<ge> 2) (hi_frontier h))"
      using sort_member_Ok [OF old] unfolding out by simp_all
    show "created = map (record_ref_of cd h') (filter (\<lambda>b. card {a. (a, b) \<in> partners h h'} = 0) (hi_frontier h'))"
      "merges = map (record_ref_of cd h') (filter (\<lambda>b. card {a. (a, b) \<in> partners h h'} \<ge> 2) (hi_frontier h'))"
      using new sort_member_Ok unfolding inn [symmetric] by fastforce+
    have "set removed = {n \<in> fst ` set (owners h). map_of (owners h') n = None}" unfolding rem by force
    then show "set removed = set (ts_nodes (hi_source h)) - set (ts_nodes (hi_source h'))"
      unfolding keys [OF ok(1)] none [OF ok(2)] by blast
    show "set added = set (ts_nodes (hi_source h')) - set (ts_nodes (hi_source h))"
      using retain_all_Ok [OF added] keys [OF ok(2)] none [OF ok(1)] by auto
  qed
qed

end
