(* ===== verification/Cluster_Examples.thy ===== *)
theory Cluster_Examples
  imports Lineage_Theorems Carrier_Theorems
begin

text \<open>Two linked nodes: their hierarchy, advanced to its boundary, its links, its pages and its lineage.\<close>

definition demo_topology :: topology_snapshot where
  "demo_topology = \<lparr>ts_perspective = ''p'', ts_context = DefaultContext, ts_valid_at = 0,
     ts_sources = [\<lparr>gr_graph = ''g'', gr_revision = ''r''\<rparr>], ts_nodes = [''b'', ''a''],
     ts_links = [\<lparr>lk_id = ''l'', lk_from = ''a'', lk_to = ''b'',
        lk_evidence = [\<lparr>ar_graph = ''g'', ar_revision = ''r'', ar_assertion = ''x''\<rparr>]\<rparr>],
     ts_partial = False\<rparr>"

text \<open>The text of the sorted snapshot is one letter; every other record keeps its plain text.\<close>

definition demo_text :: "jvalue \<Rightarrow> string" where
  "demo_text j = (if j = json_topology (demo_topology\<lparr>ts_nodes := [''a'', ''b'']\<rparr>) then ''S'' else CHR ''z'' # plain_text j)"

definition demo_codec :: codec where
  "demo_codec = \<lparr>cd_js = demo_text, cd_sha = id\<rparr>"

definition cluster_start :: "hierarchy result" where
  "cluster_start = hierarchy_with_budget demo_codec demo_topology 100"

definition demo_pages :: hierarchy where
  "demo_pages = \<lparr>hi_source = demo_topology,
     hi_clusters = [(''c'', \<lparr>ct_id = ''c'', ct_revision = ''r'', ct_children = (Leaf ''a'', Leaf ''b''),
       ct_leaves = [''a'', ''b''], ct_links = [''l'', ''m''], ct_level = 1\<rparr>)],
     hi_frontier = [Cluster ''c''], hi_level = 1, hi_boundary = False, hi_work = 0, hi_bytes = 0, hi_work_limit = 9,
     hi_revision = ''r''\<rparr>"

lemma demo_codec_inj: "inj (cd_js demo_codec)" "inj (cd_sha demo_codec)"
  using inj_plain_text by (auto simp: demo_codec_def demo_text_def inj_def)

lemma cluster_start_reads:
  "is_ok (rbind cluster_start (\<lambda>h. rbind (aggregate_links demo_codec h) (\<lambda>_. lineage_in_domain demo_codec h h ''g'')))"
  by code_simp

lemma cluster_start_reachable: "cluster_start = Ok h \<Longrightarrow> hierarchy_reachable demo_codec h"
  unfolding cluster_start_def by (rule hierarchy_reachable.start)

lemma is_ok_both: "is_ok (rbind r f) \<longleftrightarrow> (\<exists>x. r = Ok x \<and> is_ok (f x))"
  by (cases r) simp_all

lemma is_ok_result: "is_ok r \<longleftrightarrow> (\<exists>x. r = Ok x)"
  by (cases r) simp_all

lemma demo_reads:
  "\<exists>h out r. cluster_start = Ok h \<and> hierarchy_reachable demo_codec h
    \<and> aggregate_links demo_codec h = Ok out \<and> lineage_in_domain demo_codec h h ''g'' = Ok r"
proof -
  obtain h where h: "cluster_start = Ok h"
      "is_ok (rbind (aggregate_links demo_codec h) (\<lambda>_. lineage_in_domain demo_codec h h ''g''))"
    using cluster_start_reads unfolding is_ok_both by blast
  then obtain out r where "aggregate_links demo_codec h = Ok out" "lineage_in_domain demo_codec h h ''g'' = Ok r"
    unfolding is_ok_both unfolding is_ok_result by blast
  then show ?thesis using h(1) cluster_start_reachable by blast
qed

section \<open>Witnesses\<close>

lemma hierarchy_splits_nodes_witness:
  "\<exists>h. cluster_start = Ok h \<and> (\<forall>n \<in> set (ts_nodes (hi_source h)). \<exists>!m. m \<in> set (hi_frontier h) \<and> n \<in> set (member_leaves h m))"
  using demo_reads hierarchy_splits_nodes [OF _ demo_codec_inj] by blast

lemma demo_two_calls: "is_ok (rbind cluster_start (advances demo_codec 2))"
  by code_simp

lemma boundary_is_classes_witness:
  "\<exists>h0 h. cluster_start = Ok h0 \<and> advances demo_codec 2 h0 = Ok h \<and> hi_boundary h"
proof -
  obtain h0 h where h: "cluster_start = Ok h0" "advances demo_codec 2 h0 = Ok h"
    using demo_two_calls unfolding is_ok_both unfolding is_ok_result by blast
  then have "hi_boundary h" using boundary_is_classes [OF h(1) [unfolded cluster_start_def] h(2) _ _ demo_codec_inj]
    by (simp add: demo_topology_def)
  then show ?thesis using h by blast
qed

lemma aggregate_links_exact_witness:
  "\<exists>h out. cluster_start = Ok h \<and> aggregate_links demo_codec h = Ok out \<and> distinct (map (\<lambda>g. (ag_from g, ag_to g)) out)"
  using demo_reads aggregate_links_exact [OF _ demo_codec_inj] by blast

lemma lineage_exact_witness:
  "\<exists>h r. cluster_start = Ok h \<and> lineage_in_domain demo_codec h h ''g'' = Ok r \<and> distinct (li_overlaps r)"
  using demo_reads lineage_exact [OF _ _ demo_codec_inj] by blast

lemma evidence_pages_complete_witness: "read_pages 3 demo_pages ''c'' 0 1 = Ok [''l'', ''m'']"
  using evidence_pages_complete [of demo_pages "''c''" _ 1 3]
  by (simp add: demo_pages_def find_cluster_def usize_max_def)

end
