(* ===== verification/Quantity_Model.thy ===== *)
theory Quantity_Model
  imports Decimal_Text Context_Model
begin

text \<open>
  Exact quantities (\<open>weave-contract/src/quantity.rs\<close>): a decimal amount of a nominal unit, arithmetic
  within one unit, and conversions by a positive ratio between units of one dimension. A struct is
  read from a JSON value the way a derived deserializer reads it, from its object or its array.
\<close>

section \<open>Units\<close>

datatype quantity_error =
    BadDescriptor | UnitMismatch | DimensionMismatch | InvalidFactor | DecimalFailure decimal_error

record unit_descriptor =
  ud_dimension :: string
  ud_unit :: string
  ud_revision :: string

definition unit_new :: "string \<Rightarrow> string \<Rightarrow> string \<Rightarrow> quantity_error + unit_descriptor" where
  "unit_new dimension u revision =
     (if list_ex (\<lambda>s. s = [] \<or> length s > 512 \<or> has_control s) [dimension, u, revision] then Err BadDescriptor
      else Ok \<lparr>ud_dimension = dimension, ud_unit = u, ud_revision = revision\<rparr>)"

text \<open>\<open>?\<close> on a decimal error.\<close>

definition lift_decimal :: "decimal_error + 'a \<Rightarrow> quantity_error + 'a" where
  "lift_decimal r = (case r of Inl e \<Rightarrow> Err (DecimalFailure e) | Inr x \<Rightarrow> Ok x)"

section \<open>Quantities\<close>

record quantity =
  qu_amount :: decimal
  qu_unit :: unit_descriptor

definition quantity_add :: "quantity \<Rightarrow> quantity \<Rightarrow> quantity_error + quantity" where
  "quantity_add q r =
     (if qu_unit q \<noteq> qu_unit r then Err UnitMismatch
      else rbind (lift_decimal (checked_add (qu_amount q) (qu_amount r))) (\<lambda>a. Ok \<lparr>qu_amount = a, qu_unit = qu_unit q\<rparr>))"

definition quantity_minus :: "quantity \<Rightarrow> quantity \<Rightarrow> quantity_error + quantity" where
  "quantity_minus q r =
     (if qu_unit q \<noteq> qu_unit r then Err UnitMismatch
      else rbind (lift_decimal (checked_minus (qu_amount q) (qu_amount r))) (\<lambda>a. Ok \<lparr>qu_amount = a, qu_unit = qu_unit q\<rparr>))"

definition quantity_mul :: "quantity \<Rightarrow> decimal \<Rightarrow> quantity_error + quantity" where
  "quantity_mul q scalar =
     rbind (lift_decimal (checked_mul (qu_amount q) scalar)) (\<lambda>a. Ok \<lparr>qu_amount = a, qu_unit = qu_unit q\<rparr>)"

definition quantity_div :: "quantity \<Rightarrow> decimal \<Rightarrow> quantity_error + quantity" where
  "quantity_div q scalar =
     rbind (lift_decimal (checked_div (qu_amount q) scalar)) (\<lambda>a. Ok \<lparr>qu_amount = a, qu_unit = qu_unit q\<rparr>)"

record conversion =
  cv_from :: unit_descriptor
  cv_to :: unit_descriptor
  cv_numerator :: decimal
  cv_denominator :: decimal

definition conversion_new :: "unit_descriptor \<Rightarrow> unit_descriptor \<Rightarrow> decimal \<Rightarrow> decimal \<Rightarrow> quantity_error + conversion" where
  "conversion_new source target numerator denominator =
     (if ud_dimension source \<noteq> ud_dimension target then Err DimensionMismatch
      else if \<not> dec_positive numerator \<or> \<not> dec_positive denominator then Err InvalidFactor
      else Ok \<lparr>cv_from = source, cv_to = target, cv_numerator = numerator, cv_denominator = denominator\<rparr>)"

definition convert :: "quantity \<Rightarrow> conversion \<Rightarrow> quantity_error + quantity" where
  "convert q c =
     (if qu_unit q \<noteq> cv_from c then Err UnitMismatch
      else rbind (lift_decimal (checked_mul_ratio (qu_amount q) (cv_numerator c) (cv_denominator c)))
        (\<lambda>a. Ok \<lparr>qu_amount = a, qu_unit = cv_to c\<rparr>))"

section \<open>Serialisation\<close>

definition json_unit :: "unit_descriptor \<Rightarrow> jvalue" where
  "json_unit u = JObj [(''dimension_id'', JStr (ud_dimension u)), (''unit_id'', JStr (ud_unit u)),
     (''revision'', JStr (ud_revision u))]"

definition json_quantity :: "quantity \<Rightarrow> jvalue" where
  "json_quantity q = JObj [(''amount'', JStr (to_string (qu_amount q))), (''unit'', json_unit (qu_unit q))]"

text \<open>The fields of a struct that denies unknown ones.\<close>

fun wire_fields :: "string list \<Rightarrow> jvalue \<Rightarrow> jvalue list option" where
  "wire_fields names (JObj kvs) =
     (if list_all (\<lambda>kv. fst kv \<in> set names) kvs \<and> distinct (map fst kvs) \<and> list_all (\<lambda>n. map_of kvs n \<noteq> None) names
      then Some (map (\<lambda>n. the (map_of kvs n)) names) else None)"
| "wire_fields names (JArr vs) = (if length vs = length names then Some vs else None)"
| "wire_fields names _ = None"

definition read_unit :: "jvalue \<Rightarrow> unit_descriptor option" where
  "read_unit v =
     (case wire_fields [''dimension_id'', ''unit_id'', ''revision''] v of
        Some [JStr d, JStr u, JStr r] \<Rightarrow> (case unit_new d u r of Inl _ \<Rightarrow> None | Inr x \<Rightarrow> Some x)
      | _ \<Rightarrow> None)"

definition read_decimal :: "jvalue \<Rightarrow> decimal option" where
  "read_decimal v = (case v of JStr s \<Rightarrow> (case deserialize s of Inl _ \<Rightarrow> None | Inr d \<Rightarrow> Some d) | _ \<Rightarrow> None)"

definition read_quantity :: "jvalue \<Rightarrow> quantity option" where
  "read_quantity v =
     (case wire_fields [''amount'', ''unit''] v of
        Some [a, u] \<Rightarrow>
          Option.bind (read_decimal a) (\<lambda>amount.
          Option.bind (read_unit u) (\<lambda>q. Some \<lparr>qu_amount = amount, qu_unit = q\<rparr>))
      | _ \<Rightarrow> None)"

end
