(* ===== verification/Value_Model.thy ===== *)
theory Value_Model
  imports Quantity_Model
begin

text \<open>
  Graph values (\<open>weave-contract/src\<close>): nodes, edges, claims and attachments with the references they are
  derived from, schemas, typed contexts, and the result of a query. Fields that no operator here
  reads (claimed provenance, embeddings, rankings, change sets) are the JSON value they are written as.
\<close>

section \<open>Intervals\<close>

record interval =
  iv_start :: int
  iv_end :: "int option"

definition contains_time :: "interval \<Rightarrow> int \<Rightarrow> bool" where
  "contains_time i t \<longleftrightarrow> iv_start i \<le> t \<and> (case iv_end i of None \<Rightarrow> True | Some e \<Rightarrow> t < e)"

definition interval_valid :: "interval \<Rightarrow> bool" where
  "interval_valid i \<longleftrightarrow> (case iv_end i of None \<Rightarrow> True | Some e \<Rightarrow> iv_start i < e)"

datatype polarity = Positive | Negative

section \<open>Schemas\<close>

datatype scalar_type =
    FloatType | DecimalType | QuantityType unit_descriptor | StringType | IntegerType | BooleanType

record property_schema =
  ps_type :: scalar_type
  ps_required :: bool
  ps_nullable :: bool

record node_schema =
  ns_properties :: "(string, property_schema) btree_map"
  ns_space :: "string option"
  ns_extra :: bool

record edge_schema =
  es_from :: string
  es_to :: string
  es_properties :: "(string, property_schema) btree_map"
  es_cross_space :: bool
  es_extra :: bool

record graph_schema =
  gs_id :: string
  gs_revision :: string
  gs_nodes :: "(string, node_schema) btree_map"
  gs_edges :: "(string, edge_schema) btree_map"

section \<open>Typed contexts\<close>

record context_schema_ref =
  cr_id :: string
  cr_revision :: string

datatype axis_type =
    BooleanAxis | IntegerAxis | StringAxis | DecimalAxis | QuantityAxis unit_descriptor | EnumAxis "string list"

record context_schema =
  cs_reference :: context_schema_ref
  cs_axes :: "(string, axis_type) btree_map"

record context_witness =
  cw_context :: graph_ref
  cw_schema :: context_schema
  cw_definition :: assertion_ref
  cw_anchors :: "node_ref list"

record context_typing =
  ct_selected :: "graph_ref option"
  ct_witnesses :: "context_witness list"

section \<open>Records of a graph\<close>

record structural_ref =
  sf_graph :: string
  sf_revision :: string
  sf_edge :: string

record value_node =
  nd_derivations :: "derivation list"
  nd_snapshots :: "graph_ref list"
  nd_nodes :: "node_ref list"
  nd_premises :: "assertion_ref list"
  nd_scope :: "context_selection option"
  nd_type :: "string option"
  nd_id :: string
  nd_entity :: string
  nd_space :: string
  nd_valid :: "interval option"
  nd_provenance :: "jvalue option"
  nd_properties :: "(string, jvalue) btree_map"
  nd_metadata :: "graph_ref list"
  nd_readers :: "string list"
  nd_groups :: "string list"

record value_edge =
  ed_snapshots :: "graph_ref list"
  ed_nodes :: "node_ref list"
  ed_source :: "string option"
  ed_context :: "graph_ref option"
  ed_structural :: "structural_ref option"
  ed_claims :: "(string, jvalue) btree_map"
  ed_type :: "string option"
  ed_id :: string
  ed_predicate :: string
  ed_from :: string
  ed_to :: string
  ed_valid :: interval
  ed_provenance :: "jvalue option"
  ed_polarity :: polarity
  ed_properties :: "(string, jvalue) btree_map"
  ed_metadata :: "graph_ref list"
  ed_readers :: "string list"
  ed_groups :: "string list"
  ed_premises :: "assertion_ref list"
  ed_derivations :: "derivation list"

record structural_edge =
  se_id :: string
  se_predicate :: string
  se_from :: string
  se_to :: string
  se_type :: "string option"
  se_properties :: "(string, jvalue) btree_map"
  se_metadata :: "graph_ref list"
  se_readers :: "string list"
  se_groups :: "string list"
  se_provenance :: "jvalue option"

record value_claim =
  cm_snapshots :: "graph_ref list"
  cm_nodes :: "node_ref list"
  cm_id :: string
  cm_edge :: string
  cm_source :: string
  cm_context :: "graph_ref option"
  cm_valid :: interval
  cm_provenance :: "jvalue option"
  cm_polarity :: polarity
  cm_properties :: "(string, jvalue) btree_map"
  cm_metadata :: "graph_ref list"
  cm_readers :: "string list"
  cm_groups :: "string list"
  cm_premises :: "assertion_ref list"
  cm_derivations :: "derivation list"

datatype value_host =
    AssertionHost string | NodeHost string | EdgeHost string | EntityHost string | GraphHost

datatype metadata_value =
    LiteralMeta jvalue
  | GraphMeta graph_ref
  | LiveGraphMeta string string
  | ObjectMeta string string
  | ArtifactMeta string string

record attachment =
  am_derivations :: "derivation list"
  am_premises :: "assertion_ref list"
  am_nodes :: "node_ref list"
  am_snapshots :: "graph_ref list"
  am_context :: "graph_ref option"
  am_id :: string
  am_host :: value_host
  am_key :: string
  am_value :: metadata_value
  am_valid :: interval
  am_provenance :: "jvalue option"
  am_origin :: "assertion_ref option"
  am_readers :: "string list"
  am_groups :: "string list"
  am_required :: bool
  am_schema :: "string option"

datatype graph_profile = LegacyProfile | ExplicitProfile

record graph_data =
  gd_influence :: "influence option"
  gd_typing :: "context_typing option"
  gd_profile :: graph_profile
  gd_structural :: "structural_edge list"
  gd_claims :: "value_claim list"
  gd_schema :: "graph_schema option"
  gd_attachments :: "attachment list"
  gd_nodes :: "value_node list"
  gd_edges :: "value_edge list"
  gd_spaces :: "jvalue list"
  gd_embeddings :: "jvalue list"

definition no_graph :: graph_data where
  "no_graph = \<lparr>gd_influence = None, gd_typing = None, gd_profile = LegacyProfile, gd_structural = [], gd_claims = [],
     gd_schema = None, gd_attachments = [], gd_nodes = [], gd_edges = [], gd_spaces = [], gd_embeddings = []\<rparr>"

section \<open>Results\<close>

datatype observation_kind = Baseline | Committed | Accepted

record recorded_observation =
  ro_observer :: string
  ro_checkpoint :: string
  ro_graph :: graph_ref
  ro_branch :: string
  ro_recorded :: int
  ro_kind :: observation_kind

record accepted_observation =
  ao_observer :: string
  ao_view :: string
  ao_decision :: string
  ao_accepted :: int
  ao_occurrence :: graph_ref
  ao_source :: graph_ref
  ao_branch :: string

record source_revision =
  sv_name :: string
  sv_revision :: string
  sv_digest :: string

record diagnostic =
  di_code :: string
  di_message :: string

datatype coverage = Complete | Partial

record resolved_graph =
  rg_origins :: "(string, assertion_ref list) btree_map"
  rg_reference :: graph_ref
  rg_graph :: graph_data

record query_result =
  qr_recorded :: "recorded_observation list"
  qr_accepted :: "accepted_observation list"
  qr_context :: "context_selection option"
  qr_sources :: "source_revision list"
  qr_version :: string
  qr_graph :: graph_data
  qr_snapshots :: "(string, string) btree_map"
  qr_inputs :: "graph_ref list"
  qr_coverage :: coverage
  qr_diagnostics :: "diagnostic list"
  qr_provenance :: "assertion_ref list"
  qr_edge_origins :: "(string, assertion_ref list) btree_map"
  qr_node_origins :: "(string, node_ref list) btree_map"
  qr_attachment_origins :: "(string, assertion_ref list) btree_map"
  qr_metadata :: "resolved_graph list"
  qr_fact_provenance :: "jvalue list"
  qr_changes :: "jvalue option"
  qr_neighbors :: "jvalue list"
  qr_candidates :: "jvalue list"
  qr_exactness :: "jvalue option"

definition contract_version :: string where
  "contract_version = ''1.2.0''"

text \<open>The host's context of an operation.\<close>

record algebra_context =
  al_principal :: string
  al_max_objects :: nat
  al_max_bytes :: nat

section \<open>Serialisation\<close>

text \<open>Fields that are left out when they are empty.\<close>

definition some_field :: "string \<Rightarrow> ('a \<Rightarrow> jvalue) \<Rightarrow> 'a option \<Rightarrow> (string \<times> jvalue) list" where
  "some_field name f x = (case x of None \<Rightarrow> [] | Some y \<Rightarrow> [(name, f y)])"

definition list_field :: "string \<Rightarrow> ('a \<Rightarrow> jvalue) \<Rightarrow> 'a list \<Rightarrow> (string \<times> jvalue) list" where
  "list_field name f xs = (if xs = [] then [] else [(name, JArr (map f xs))])"

definition json_list :: "('a \<Rightarrow> jvalue) \<Rightarrow> 'a list \<Rightarrow> jvalue" where
  "json_list f xs = JArr (map f xs)"

definition json_option :: "('a \<Rightarrow> jvalue) \<Rightarrow> 'a option \<Rightarrow> jvalue" where
  "json_option f x = (case x of None \<Rightarrow> JNull | Some y \<Rightarrow> f y)"

definition json_map :: "('a \<Rightarrow> jvalue) \<Rightarrow> (string, 'a) btree_map \<Rightarrow> jvalue" where
  "json_map f m = JObj (map (\<lambda>(k, v). (k, f v)) m)"

definition json_interval :: "interval \<Rightarrow> jvalue" where
  "json_interval i = JObj [(''start'', json_int (iv_start i)), (''end'', json_option json_int (iv_end i))]"

definition json_polarity :: "polarity \<Rightarrow> jvalue" where
  "json_polarity p = JStr (case p of Positive \<Rightarrow> ''positive'' | Negative \<Rightarrow> ''negative'')"

definition json_scalar :: "scalar_type \<Rightarrow> jvalue" where
  "json_scalar t =
     (case t of FloatType \<Rightarrow> JStr ''float'' | DecimalType \<Rightarrow> JStr ''decimal'' | StringType \<Rightarrow> JStr ''string''
      | QuantityType u \<Rightarrow> JObj [(''quantity'', json_unit u)] | IntegerType \<Rightarrow> JStr ''integer'' | BooleanType \<Rightarrow> JStr ''boolean'')"

definition json_property :: "property_schema \<Rightarrow> jvalue" where
  "json_property p = JObj [(''value_type'', json_scalar (ps_type p)), (''required'', JBool (ps_required p)),
     (''nullable'', JBool (ps_nullable p))]"

definition json_node_schema :: "node_schema \<Rightarrow> jvalue" where
  "json_node_schema s = JObj [(''properties'', json_map json_property (ns_properties s)),
     (''space_id'', json_option JStr (ns_space s)), (''allow_extra_properties'', JBool (ns_extra s))]"

definition json_edge_schema :: "edge_schema \<Rightarrow> jvalue" where
  "json_edge_schema s = JObj [(''from_type'', JStr (es_from s)), (''to_type'', JStr (es_to s)),
     (''properties'', json_map json_property (es_properties s)), (''allow_cross_space'', JBool (es_cross_space s)),
     (''allow_extra_properties'', JBool (es_extra s))]"

definition json_schema :: "graph_schema \<Rightarrow> jvalue" where
  "json_schema s = JObj [(''id'', JStr (gs_id s)), (''revision'', JStr (gs_revision s)),
     (''nodes'', json_map json_node_schema (gs_nodes s)), (''edges'', json_map json_edge_schema (gs_edges s))]"

definition json_axis :: "axis_type \<Rightarrow> jvalue" where
  "json_axis a =
     (case a of
        BooleanAxis \<Rightarrow> JObj [(''kind'', JStr ''boolean'')] | IntegerAxis \<Rightarrow> JObj [(''kind'', JStr ''integer'')]
      | StringAxis \<Rightarrow> JObj [(''kind'', JStr ''string'')] | DecimalAxis \<Rightarrow> JObj [(''kind'', JStr ''decimal'')]
      | QuantityAxis u \<Rightarrow> JObj [(''kind'', JStr ''quantity''), (''unit'', json_unit u)]
      | EnumAxis ms \<Rightarrow> JObj [(''kind'', JStr ''enum''), (''members'', json_list JStr ms)])"

definition json_context_schema :: "context_schema \<Rightarrow> jvalue" where
  "json_context_schema s = JObj [(''reference'', JObj [(''id'', JStr (cr_id (cs_reference s))),
       (''revision'', JStr (cr_revision (cs_reference s)))]), (''axes'', json_map json_axis (cs_axes s))]"

definition json_witness :: "context_witness \<Rightarrow> jvalue" where
  "json_witness w = JObj [(''context'', json_snapshot (cw_context w)), (''schema'', json_context_schema (cw_schema w)),
     (''definition'', json_assertion (cw_definition w)), (''anchor_nodes'', json_list json_node (cw_anchors w))]"

definition json_typing :: "context_typing \<Rightarrow> jvalue" where
  "json_typing t = JObj [(''selected'', json_option json_snapshot (ct_selected t)),
     (''witnesses'', json_list json_witness (ct_witnesses t))]"

definition json_influence :: "influence \<Rightarrow> jvalue" where
  "json_influence i = JObj
     (list_field ''derivations'' json_derivation (in_derivations i) @ list_field ''assertions'' json_assertion (in_assertions i)
      @ list_field ''nodes'' json_node (in_nodes i) @ list_field ''snapshots'' json_snapshot (in_snapshots i))"

definition json_structural :: "structural_ref \<Rightarrow> jvalue" where
  "json_structural s = JObj [(''graph_id'', JStr (sf_graph s)), (''revision'', JStr (sf_revision s)), (''edge_id'', JStr (sf_edge s))]"

definition json_value_node :: "value_node \<Rightarrow> jvalue" where
  "json_value_node n = JObj
     (list_field ''derivations'' json_derivation (nd_derivations n) @ list_field ''derived_snapshots'' json_snapshot (nd_snapshots n)
      @ list_field ''derived_nodes'' json_node (nd_nodes n) @ list_field ''derived_from'' json_assertion (nd_premises n)
      @ some_field ''context_scope'' json_context (nd_scope n) @ some_field ''type_id'' JStr (nd_type n)
      @ [(''id'', JStr (nd_id n)), (''entity_id'', JStr (nd_entity n)), (''space_id'', JStr (nd_space n))]
      @ some_field ''valid_time'' json_interval (nd_valid n) @ some_field ''provenance'' id (nd_provenance n)
      @ [(''properties'', JObj (nd_properties n)), (''metadata'', json_list json_snapshot (nd_metadata n)),
         (''readers'', json_list JStr (nd_readers n))]
      @ list_field ''reader_groups'' JStr (nd_groups n))"

definition json_value_edge :: "value_edge \<Rightarrow> jvalue" where
  "json_value_edge e = JObj
     (list_field ''derived_snapshots'' json_snapshot (ed_snapshots e) @ list_field ''derived_nodes'' json_node (ed_nodes e)
      @ some_field ''assertion_source'' JStr (ed_source e) @ some_field ''assertion_context'' json_snapshot (ed_context e)
      @ some_field ''structural_ref'' json_structural (ed_structural e)
      @ (if ed_claims e = [] then [] else [(''assertion_properties'', JObj (ed_claims e))])
      @ some_field ''type_id'' JStr (ed_type e)
      @ [(''id'', JStr (ed_id e)), (''predicate'', JStr (ed_predicate e)), (''from'', JStr (ed_from e)), (''to'', JStr (ed_to e)),
         (''valid_time'', json_interval (ed_valid e))]
      @ some_field ''provenance'' id (ed_provenance e)
      @ [(''polarity'', json_polarity (ed_polarity e)), (''properties'', JObj (ed_properties e)),
         (''metadata'', json_list json_snapshot (ed_metadata e)), (''readers'', json_list JStr (ed_readers e))]
      @ list_field ''reader_groups'' JStr (ed_groups e)
      @ [(''derived_from'', json_list json_assertion (ed_premises e))]
      @ list_field ''derivations'' json_derivation (ed_derivations e))"

definition json_structural_edge :: "structural_edge \<Rightarrow> jvalue" where
  "json_structural_edge e = JObj
     ([(''id'', JStr (se_id e)), (''predicate'', JStr (se_predicate e)), (''from'', JStr (se_from e)), (''to'', JStr (se_to e))]
      @ some_field ''type_id'' JStr (se_type e)
      @ [(''properties'', JObj (se_properties e)), (''metadata'', json_list json_snapshot (se_metadata e)),
         (''readers'', json_list JStr (se_readers e))]
      @ list_field ''reader_groups'' JStr (se_groups e) @ some_field ''provenance'' id (se_provenance e))"

definition json_claim :: "value_claim \<Rightarrow> jvalue" where
  "json_claim a = JObj
     (list_field ''derived_snapshots'' json_snapshot (cm_snapshots a) @ list_field ''derived_nodes'' json_node (cm_nodes a)
      @ [(''id'', JStr (cm_id a)), (''edge_id'', JStr (cm_edge a)), (''source'', JStr (cm_source a))]
      @ some_field ''context'' json_snapshot (cm_context a) @ [(''valid_time'', json_interval (cm_valid a))]
      @ some_field ''provenance'' id (cm_provenance a)
      @ [(''polarity'', json_polarity (cm_polarity a)), (''properties'', JObj (cm_properties a)),
         (''metadata'', json_list json_snapshot (cm_metadata a)), (''readers'', json_list JStr (cm_readers a))]
      @ list_field ''reader_groups'' JStr (cm_groups a)
      @ [(''derived_from'', json_list json_assertion (cm_premises a))]
      @ list_field ''derivations'' json_derivation (cm_derivations a))"

definition json_host :: "value_host \<Rightarrow> jvalue" where
  "json_host h =
     (case h of
        AssertionHost i \<Rightarrow> JObj [(''kind'', JStr ''assertion''), (''id'', JStr i)]
      | NodeHost i \<Rightarrow> JObj [(''kind'', JStr ''node''), (''id'', JStr i)]
      | EdgeHost i \<Rightarrow> JObj [(''kind'', JStr ''edge''), (''id'', JStr i)]
      | EntityHost i \<Rightarrow> JObj [(''kind'', JStr ''entity''), (''id'', JStr i)]
      | GraphHost \<Rightarrow> JObj [(''kind'', JStr ''graph'')])"

definition json_meta :: "metadata_value \<Rightarrow> jvalue" where
  "json_meta v =
     (case v of
        LiteralMeta j \<Rightarrow> JObj [(''kind'', JStr ''literal''), (''value'', j)]
      | GraphMeta r \<Rightarrow> JObj [(''kind'', JStr ''graph''), (''reference'', json_snapshot r)]
      | LiveGraphMeta g b \<Rightarrow> JObj [(''kind'', JStr ''live_graph''), (''graph_id'', JStr g), (''branch_id'', JStr b)]
      | ObjectMeta g i \<Rightarrow> JObj [(''kind'', JStr ''object''), (''graph_id'', JStr g), (''object_id'', JStr i)]
      | ArtifactMeta u d \<Rightarrow> JObj [(''kind'', JStr ''artifact''), (''uri'', JStr u), (''digest'', JStr d)])"

definition json_attachment :: "attachment \<Rightarrow> jvalue" where
  "json_attachment a = JObj
     (list_field ''derivations'' json_derivation (am_derivations a) @ list_field ''derived_from'' json_assertion (am_premises a)
      @ list_field ''derived_nodes'' json_node (am_nodes a) @ list_field ''derived_snapshots'' json_snapshot (am_snapshots a)
      @ some_field ''context'' json_snapshot (am_context a)
      @ [(''id'', JStr (am_id a)), (''host'', json_host (am_host a)), (''key'', JStr (am_key a)), (''value'', json_meta (am_value a)),
         (''valid_time'', json_interval (am_valid a))]
      @ some_field ''provenance'' id (am_provenance a)
      @ [(''origin'', json_option json_assertion (am_origin a)), (''readers'', json_list JStr (am_readers a))]
      @ list_field ''reader_groups'' JStr (am_groups a)
      @ [(''required'', JBool (am_required a)), (''schema_revision'', json_option JStr (am_schema a))])"

definition json_graph :: "graph_data \<Rightarrow> jvalue" where
  "json_graph g = JObj
     (some_field ''influence'' json_influence (gd_influence g) @ some_field ''context_typing'' json_typing (gd_typing g)
      @ (case gd_profile g of LegacyProfile \<Rightarrow> [] | ExplicitProfile \<Rightarrow> [(''profile'', JStr ''explicit'')])
      @ list_field ''structural_edges'' json_structural_edge (gd_structural g) @ list_field ''assertions'' json_claim (gd_claims g)
      @ some_field ''schema'' json_schema (gd_schema g) @ list_field ''attachments'' json_attachment (gd_attachments g)
      @ [(''nodes'', json_list json_value_node (gd_nodes g)), (''edges'', json_list json_value_edge (gd_edges g))]
      @ list_field ''embedding_spaces'' id (gd_spaces g) @ list_field ''embeddings'' id (gd_embeddings g))"

definition json_recorded :: "recorded_observation \<Rightarrow> jvalue" where
  "json_recorded o' = JObj [(''observer'', JStr (ro_observer o')), (''checkpoint'', JStr (ro_checkpoint o')),
     (''graph'', json_snapshot (ro_graph o')), (''branch_id'', JStr (ro_branch o')), (''recorded_at_ms'', json_int (ro_recorded o')),
     (''kind'', JStr (case ro_kind o' of Baseline \<Rightarrow> ''baseline'' | Committed \<Rightarrow> ''committed'' | Accepted \<Rightarrow> ''accepted''))]"

definition json_accepted :: "accepted_observation \<Rightarrow> jvalue" where
  "json_accepted o' = JObj [(''observer'', JStr (ao_observer o')), (''view_id'', JStr (ao_view o')),
     (''decision_id'', JStr (ao_decision o')), (''accepted_at_ms'', json_int (ao_accepted o')),
     (''occurrence'', json_snapshot (ao_occurrence o')), (''source'', json_snapshot (ao_source o')), (''branch_id'', JStr (ao_branch o'))]"

definition json_source :: "source_revision \<Rightarrow> jvalue" where
  "json_source s = JObj [(''name'', JStr (sv_name s)), (''revision'', JStr (sv_revision s)), (''digest'', JStr (sv_digest s))]"

definition json_diagnostic :: "diagnostic \<Rightarrow> jvalue" where
  "json_diagnostic d = JObj [(''code'', JStr (di_code d)), (''message'', JStr (di_message d))]"

definition json_resolved :: "resolved_graph \<Rightarrow> jvalue" where
  "json_resolved r = JObj
     ((if rg_origins r = [] then [] else [(''attachment_origins'', json_map (json_list json_assertion) (rg_origins r))])
      @ [(''reference'', json_snapshot (rg_reference r)), (''graph'', json_graph (rg_graph r))])"

definition json_result :: "query_result \<Rightarrow> jvalue" where
  "json_result r = JObj
     (list_field ''recorded_observations'' json_recorded (qr_recorded r)
      @ list_field ''accepted_observations'' json_accepted (qr_accepted r)
      @ some_field ''selected_context'' json_context (qr_context r) @ list_field ''source_revisions'' json_source (qr_sources r)
      @ [(''version'', JStr (qr_version r)), (''graph'', json_graph (qr_graph r)), (''snapshots'', json_map JStr (qr_snapshots r)),
         (''input_snapshots'', json_list json_snapshot (qr_inputs r)),
         (''coverage'', JStr (case qr_coverage r of Complete \<Rightarrow> ''complete'' | Partial \<Rightarrow> ''partial'')),
         (''diagnostics'', json_list json_diagnostic (qr_diagnostics r)), (''provenance'', json_list json_assertion (qr_provenance r)),
         (''edge_origins'', json_map (json_list json_assertion) (qr_edge_origins r))]
      @ (if qr_node_origins r = [] then [] else [(''node_origins'', json_map (json_list json_node) (qr_node_origins r))])
      @ (if qr_attachment_origins r = [] then []
         else [(''attachment_origins'', json_map (json_list json_assertion) (qr_attachment_origins r))])
      @ [(''metadata_graphs'', json_list json_resolved (qr_metadata r))]
      @ list_field ''fact_provenance'' id (qr_fact_provenance r) @ some_field ''changes'' id (qr_changes r)
      @ list_field ''neighbors'' id (qr_neighbors r) @ list_field ''candidates'' id (qr_candidates r)
      @ some_field ''exactness'' id (qr_exactness r))"

end
