(* ===== verification/Context_Typing.thy ===== *)
theory Context_Typing
  imports Value_Model
begin

text \<open>
  Typed contexts (\<open>weave-contract/src/context_axes.rs\<close>, \<open>context_typing.rs\<close>): schemas of context axes, their
  canonical form and conflicts, and the witnesses of typed contexts a graph value carries, which gate
  whatever is generated from it.
\<close>

section \<open>Schemas of axes\<close>

datatype context_error = ContextBudget | ContextSyntax | ContextSchema | ContextAssignment | ContextConflict

definition max_context_bytes :: nat where
  "max_context_bytes = 64 * 1024"

definition max_axes :: nat where
  "max_axes = 32"

definition max_enum :: nat where
  "max_enum = 128"

definition max_schemas :: nat where
  "max_schemas = 1024"

definition context_identifier :: "string \<Rightarrow> bool" where
  "context_identifier s \<longleftrightarrow> s \<noteq> [] \<and> length s \<le> 512 \<and> \<not> has_control s"

definition encoded :: "codec \<Rightarrow> jvalue \<Rightarrow> context_error + string" where
  "encoded cd v = (let s = cd_js cd v in if length s > max_context_bytes then Err ContextBudget else Ok s)"

definition require :: "bool \<Rightarrow> 'e \<Rightarrow> 'e + unit" where
  "require c e = (if c then Ok () else Err e)"

definition check_axis :: "string \<times> axis_type \<Rightarrow> context_error + unit" where
  "check_axis a =
     rbind (require (context_identifier (fst a)) ContextSchema) (\<lambda>_.
       case snd a of
         EnumAxis members \<Rightarrow>
           rbind (require (members \<noteq> [] \<and> length members \<le> max_enum) ContextBudget) (\<lambda>_.
             require (list_all context_identifier members \<and> distinct members) ContextSchema)
       | _ \<Rightarrow> Ok ())"

definition schema_validate :: "codec \<Rightarrow> context_schema \<Rightarrow> context_error + unit" where
  "schema_validate cd s =
     rbind (require (cs_axes s \<noteq> [] \<and> length (cs_axes s) \<le> max_axes) ContextBudget) (\<lambda>_.
     rbind (require (context_identifier (cr_id (cs_reference s)) \<and> context_identifier (cr_revision (cs_reference s))) ContextSchema) (\<lambda>_.
     rbind (try_fold (\<lambda>_ a. check_axis a) () (cs_axes s)) (\<lambda>_.
     rbind (encoded cd (json_context_schema s)) (\<lambda>_. Ok ()))))"

text \<open>The members of an enumeration are a set: they are sorted.\<close>

definition sort_members :: "context_schema \<Rightarrow> context_schema" where
  "sort_members s =
     s\<lparr>cs_axes := map (\<lambda>(k, a). (k, case a of EnumAxis ms \<Rightarrow> EnumAxis (sort ms) | _ \<Rightarrow> a)) (cs_axes s)\<rparr>"

definition schema_bytes :: "codec \<Rightarrow> context_schema \<Rightarrow> context_error + string" where
  "schema_bytes cd s = rbind (schema_validate cd s) (\<lambda>_. encoded cd (json_context_schema (sort_members s)))"

definition fingerprint :: "codec \<Rightarrow> string \<Rightarrow> string \<Rightarrow> string" where
  "fingerprint cd domain bytes = cd_sha cd (domain @ char_of (0 :: nat) # bytes)"

definition schema_fingerprint :: "codec \<Rightarrow> context_schema \<Rightarrow> context_error + string" where
  "schema_fingerprint cd s = rbind (schema_bytes cd s) (\<lambda>b. Ok (fingerprint cd ''weave-context-schema-v1'' b))"

type_synonym context_schemas = "(string \<times> string, string) btree_map"

definition register_schema :: "codec \<Rightarrow> context_schemas \<Rightarrow> context_schema \<Rightarrow> context_error + context_schemas" where
  "register_schema cd m s =
     rbind (schema_fingerprint cd s) (\<lambda>f.
       let label = (cr_id (cs_reference s), cr_revision (cs_reference s)) in
       case map_of m label of
         Some prior \<Rightarrow> if prior \<noteq> f then Err ContextConflict else Ok m
       | None \<Rightarrow> if length m \<ge> max_schemas then Err ContextBudget else Ok (bm_insert label f m))"

section \<open>Assignments\<close>

text \<open>\<open>as_i64\<close>: the number is written as an integer in the range of \<open>i64\<close>.\<close>

definition json_integer :: "jvalue \<Rightarrow> int option" where
  "json_integer v =
     (case v of
        JNum s \<Rightarrow>
          let neg = starts_with s ''-''; ds = (if neg then tl s else s);
              n = (if neg then - digits_value ds else digits_value ds) in
          if ds \<noteq> [] \<and> list_all is_digit ds \<and> (hd ds \<noteq> CHR ''0'' \<or> ds = ''0'' \<and> \<not> neg) \<and> in_i64 n then Some n else None
      | _ \<Rightarrow> None)"

definition json_text :: "jvalue \<Rightarrow> string option" where
  "json_text v = (case v of JStr s \<Rightarrow> Some s | _ \<Rightarrow> None)"

definition json_get :: "string \<Rightarrow> jvalue \<Rightarrow> jvalue option" where
  "json_get k v = (case v of JObj kvs \<Rightarrow> map_of kvs k | _ \<Rightarrow> None)"

definition json_fields :: "jvalue \<Rightarrow> nat option" where
  "json_fields v = (case v of JObj kvs \<Rightarrow> Some (length kvs) | _ \<Rightarrow> None)"

definition quantity_shape :: "jvalue \<Rightarrow> bool" where
  "quantity_shape v \<longleftrightarrow>
     json_fields v = Some 2
     \<and> (case Option.bind (json_get ''amount'' v) json_text of None \<Rightarrow> False | Some s \<Rightarrow> length s \<le> 128)
     \<and> (case json_get ''unit'' v of None \<Rightarrow> False
        | Some u \<Rightarrow> json_fields u = Some 3
            \<and> list_all (\<lambda>k. case Option.bind (json_get k u) json_text of None \<Rightarrow> False | Some s \<Rightarrow> context_identifier s)
                [''dimension_id'', ''unit_id'', ''revision''])"

definition validate_axis :: "axis_type \<Rightarrow> jvalue \<Rightarrow> context_error + unit" where
  "validate_axis a v =
     require
       (case a of
          BooleanAxis \<Rightarrow> (case v of JBool _ \<Rightarrow> True | _ \<Rightarrow> False)
        | IntegerAxis \<Rightarrow> json_integer v \<noteq> None
        | StringAxis \<Rightarrow> (case v of JStr s \<Rightarrow> length s \<le> 4096 | _ \<Rightarrow> False)
        | DecimalAxis \<Rightarrow> read_decimal v \<noteq> None
        | QuantityAxis u \<Rightarrow> quantity_shape v \<and> (case read_quantity v of None \<Rightarrow> False | Some q \<Rightarrow> qu_unit q = u)
        | EnumAxis members \<Rightarrow> (case v of JStr s \<Rightarrow> s \<in> set members | _ \<Rightarrow> False))
       ContextAssignment"

record context_definition =
  cx_schema :: context_schema
  cx_values :: "(string, jvalue) btree_map"

definition json_definition :: "context_definition \<Rightarrow> jvalue" where
  "json_definition d = JObj [(''schema'', json_context_schema (cx_schema d)), (''values'', JObj (cx_values d))]"

definition validate_value :: "codec \<Rightarrow> context_schema \<Rightarrow> string \<Rightarrow> jvalue \<Rightarrow> context_error + unit" where
  "validate_value cd s axis v =
     rbind (schema_validate cd s) (\<lambda>_. rbind (ok_or (map_of (cs_axes s) axis) ContextAssignment) (\<lambda>a. validate_axis a v))"

definition definition_validate :: "codec \<Rightarrow> context_definition \<Rightarrow> context_error + unit" where
  "definition_validate cd d =
     rbind (require (length (cx_values d) \<le> max_axes) ContextBudget) (\<lambda>_.
     rbind (schema_validate cd (cx_schema d)) (\<lambda>_.
     rbind (require (length (cx_values d) = length (cs_axes (cx_schema d))) ContextAssignment) (\<lambda>_.
     rbind (try_fold (\<lambda>_ a. rbind (ok_or (map_of (cx_values d) (fst a)) ContextAssignment) (validate_axis (snd a))) ()
       (cs_axes (cx_schema d))) (\<lambda>_.
     rbind (encoded cd (json_definition d)) (\<lambda>_. Ok ())))))"

definition definition_bytes :: "codec \<Rightarrow> context_definition \<Rightarrow> context_error + string" where
  "definition_bytes cd d =
     rbind (definition_validate cd d) (\<lambda>_. encoded cd (json_definition (d\<lparr>cx_schema := sort_members (cx_schema d)\<rparr>)))"

definition definition_fingerprint :: "codec \<Rightarrow> context_definition \<Rightarrow> context_error + string" where
  "definition_fingerprint cd d = rbind (definition_bytes cd d) (\<lambda>b. Ok (fingerprint cd ''weave-context-definition-v1'' b))"

section \<open>Typing of a graph value\<close>

text \<open>A byte budget: what is left after the text of a value.\<close>

definition charge_bytes :: "error_code \<Rightarrow> codec \<Rightarrow> jvalue \<Rightarrow> nat \<Rightarrow> nat result" where
  "charge_bytes e cd v n = ok_or (checked_sub n (length (cd_js cd v))) e"

definition as_schema_error :: "context_error + 'a \<Rightarrow> 'a result" where
  "as_schema_error r = (case r of Inl _ \<Rightarrow> Err (GraphError E_CONTEXT_SCHEMA) | Inr x \<Rightarrow> Ok x)"

definition context_pin :: "graph_ref \<Rightarrow> bool" where
  "context_pin r \<longleftrightarrow> context_identifier (gr_graph r) \<and> context_identifier (gr_revision r)"

definition check_anchors :: "graph_ref \<Rightarrow> node_ref list \<Rightarrow> unit result" where
  "check_anchors c anchors =
     ensure (list_all (\<lambda>n. nr_graph n = gr_graph c \<and> nr_revision n = gr_revision c \<and> context_identifier (nr_node n)) anchors
       \<and> distinct (map node_key anchors)) (GraphError E_CONTEXT_TYPING)"

definition check_witness :: "codec \<Rightarrow> context_schemas \<times> graph_ref list \<Rightarrow> context_witness \<Rightarrow> (context_schemas \<times> graph_ref list) result" where
  "check_witness cd s w =
     (case s of (schemas, contexts) \<Rightarrow>
        let c = cw_context w in
        rbind (ensure (context_pin c \<and> c \<notin> set contexts \<and> ar_graph (cw_definition w) = gr_graph c
          \<and> ar_revision (cw_definition w) = gr_revision c \<and> ar_assertion (cw_definition w) = ''definition'') (GraphError E_CONTEXT_TYPING)) (\<lambda>_.
        rbind (ensure (cw_anchors w \<noteq> [] \<and> length (cw_anchors w) \<le> 16) (GraphError E_CONTEXT_BUDGET)) (\<lambda>_.
        rbind (check_anchors c (cw_anchors w)) (\<lambda>_.
        rbind (as_schema_error (register_schema cd schemas (cw_schema w))) (\<lambda>schemas. Ok (schemas, contexts @ [c]))))))"

definition typing_validate :: "codec \<Rightarrow> context_typing \<Rightarrow> unit result" where
  "typing_validate cd t =
     rbind (ensure (ct_witnesses t \<noteq> [] \<and> length (ct_witnesses t) \<le> 32) (GraphError E_CONTEXT_BUDGET)) (\<lambda>_.
     rbind (try_fold (check_witness cd) ([], []) (ct_witnesses t)) (\<lambda>(_, contexts).
     rbind (ensure (case ct_selected t of None \<Rightarrow> True | Some c \<Rightarrow> context_pin c \<and> c \<in> set contexts) (GraphError E_CONTEXT_TYPING)) (\<lambda>_.
     rbind (charge_bytes (GraphError E_CONTEXT_BUDGET) cd (json_typing t) (3 * 1024 * 1024)) (\<lambda>_. Ok ()))))"

definition typing_validate_graph :: "codec \<Rightarrow> graph_data \<Rightarrow> unit result" where
  "typing_validate_graph cd g =
     (case gd_typing g of
        None \<Rightarrow> Ok ()
      | Some t \<Rightarrow>
          rbind (typing_validate cd t) (\<lambda>_.
            case ct_selected t of
              None \<Rightarrow> Ok ()
            | Some c \<Rightarrow>
                ensure (list_all (\<lambda>e. ed_context e = Some c) (gd_edges g) \<and> list_all (\<lambda>a. cm_context a = Some c) (gd_claims g)
                  \<and> list_all (\<lambda>a. am_context a = Some c) (gd_attachments g)
                  \<and> list_all (\<lambda>n. case nd_scope n of None \<Rightarrow> True | Some s \<Rightarrow> reference s = Some c) (gd_nodes g)) E_CONTEXT_SCOPE))"

definition typing_validate_result :: "codec \<Rightarrow> query_result \<Rightarrow> unit result" where
  "typing_validate_result cd r =
     rbind (typing_validate_graph cd (qr_graph r)) (\<lambda>_.
       ensure (case Option.bind (gd_typing (qr_graph r)) ct_selected of
           None \<Rightarrow> True
         | Some c \<Rightarrow> Option.bind (qr_context r) reference = Some c) E_CONTEXT_SCOPE)"

text \<open>Merging the witnesses of two values; a context named by both must be described alike.\<close>

type_synonym witness_map = "(string \<times> string, context_witness) btree_map"

definition same_witness :: "codec \<Rightarrow> context_witness \<Rightarrow> context_witness \<Rightarrow> unit result" where
  "same_witness cd old new =
     rbind (as_schema_error (schema_bytes cd (cw_schema old))) (\<lambda>a.
     rbind (as_schema_error (schema_bytes cd (cw_schema new))) (\<lambda>b.
       ensure (a = b \<and> cw_definition old = cw_definition new
         \<and> set (map node_key (cw_anchors old)) = set (map node_key (cw_anchors new))) (GraphError E_CONTEXT_TYPING)))"

definition merge_witness :: "codec \<Rightarrow> witness_map \<times> context_schemas \<Rightarrow> context_witness \<Rightarrow> (witness_map \<times> context_schemas) result" where
  "merge_witness cd s w =
     (case s of (records, schemas) \<Rightarrow>
        rbind (as_schema_error (register_schema cd schemas (cw_schema w))) (\<lambda>schemas.
        let label = snapshot_key (cw_context w) in
        rbind (case map_of records label of None \<Rightarrow> Ok () | Some old \<Rightarrow> same_witness cd old w) (\<lambda>_.
        let records = bm_insert label w records in
        rbind (ensure (length records \<le> 32) (GraphError E_CONTEXT_BUDGET)) (\<lambda>_. Ok (records, schemas)))))"

definition merge_typing_from :: "codec \<Rightarrow> witness_map \<times> context_schemas \<Rightarrow> context_typing \<Rightarrow> (witness_map \<times> context_schemas) result" where
  "merge_typing_from cd s t = rbind (typing_validate cd t) (\<lambda>_. try_fold (merge_witness cd) s (ct_witnesses t))"

definition canonical_witness :: "context_witness \<Rightarrow> context_witness" where
  "canonical_witness w = w\<lparr>cw_schema := sort_members (cw_schema w), cw_anchors := sort_key node_key (cw_anchors w)\<rparr>"

definition option_list :: "'a option \<Rightarrow> 'a list" where
  "option_list x = (case x of None \<Rightarrow> [] | Some y \<Rightarrow> [y])"

definition typing_merge :: "codec \<Rightarrow> context_typing option \<Rightarrow> context_typing option \<Rightarrow> context_typing option result" where
  "typing_merge cd left right =
     (let both = option_list left @ option_list right in
      if both = [] then Ok None
      else
        rbind (try_fold (merge_typing_from cd) ([], []) both) (\<lambda>(records, _).
        let selected = (case (left, right) of (Some l, Some r) \<Rightarrow> if ct_selected l = ct_selected r then ct_selected l else None | _ \<Rightarrow> None);
            result = \<lparr>ct_selected = selected, ct_witnesses = map (canonical_witness \<circ> snd) records\<rparr> in
        rbind (typing_validate cd result) (\<lambda>_. Ok (Some result))))"

text \<open>The references of the witnesses, each once and in order.\<close>

definition typing_gates :: "codec \<Rightarrow> context_typing \<Rightarrow> (assertion_ref list \<times> node_ref list) result" where
  "typing_gates cd t =
     rbind (typing_validate cd t) (\<lambda>_.
       Ok (canonical_refs assertion_key (map cw_definition (ct_witnesses t)),
           canonical_refs node_key (concat (map cw_anchors (ct_witnesses t)))))"

end
