(* ===== verification/Value_Influence.thy ===== *)
theory Value_Influence
  imports Context_Typing
begin

text \<open>
  The restrictions of a graph value (\<open>weave-contract/src/influence.rs\<close>, \<open>carrier_profile.rs\<close>, the
  protection of \<open>context_typing.rs\<close>): the walks that validate them, what of them survives when records are
  dropped, and how a whole value's restriction is put on each record generated from it.
\<close>

section \<open>Validation\<close>

definition check_parts :: "(jvalue \<Rightarrow> string) \<Rightarrow> bool \<Rightarrow> assertion_ref list \<Rightarrow> node_ref list \<Rightarrow> graph_ref list \<Rightarrow> derivation list
    \<Rightarrow> carrier_budget \<Rightarrow> carrier_budget result" where
  "check_parts js wanted as ns ss gs b =
     (if wanted then rbind (from_parts js as ns ss gs b) (\<lambda>(_, b). Ok b) else Ok b)"

definition check_node :: "(jvalue \<Rightarrow> string) \<Rightarrow> carrier_budget \<Rightarrow> value_node \<Rightarrow> carrier_budget result" where
  "check_node js b n =
     rbind (check_parts js (nd_derivations n \<noteq> []) (nd_premises n) (nd_nodes n) (nd_snapshots n) (nd_derivations n) b) (\<lambda>b.
     rbind (validate_record_refs (nd_premises n) (nd_nodes n) (nd_snapshots n)) (\<lambda>_. Ok b))"

definition check_attachment :: "(jvalue \<Rightarrow> string) \<Rightarrow> carrier_budget \<Rightarrow> attachment \<Rightarrow> carrier_budget result" where
  "check_attachment js b a =
     rbind (check_parts js (am_derivations a \<noteq> []) (am_premises a) (am_nodes a) (am_snapshots a) (am_derivations a) b) (\<lambda>b.
     rbind (validate_record_refs (am_premises a) (am_nodes a) (am_snapshots a)) (\<lambda>_.
     rbind (validate_record_refs (option_list (am_origin a)) [] []) (\<lambda>_.
     rbind (ensure (foldl saturating_add 0 [length (am_premises a), length (am_nodes a), length (am_snapshots a),
        if am_origin a = None then 0 else 1] \<le> max_references) E_BUDGET) (\<lambda>_. Ok b))))"

definition check_groups :: "derivation list \<Rightarrow> unit result" where
  "check_groups gs =
     rbind (ensure (length gs \<le> 128) E_BUDGET) (\<lambda>_.
       check_each (\<lambda>g. validate_record_refs (dv_premises g) (dv_nodes g) (dv_snapshots g)) gs)"

definition check_proofs :: "(jvalue \<Rightarrow> string) \<Rightarrow> assertion_ref list \<Rightarrow> node_ref list \<Rightarrow> graph_ref list \<Rightarrow> derivation list
    \<Rightarrow> carrier_budget \<Rightarrow> carrier_budget result" where
  "check_proofs js as ns ss gs b =
     rbind (check_parts js (list_ex (\<lambda>g. dv_snapshots g \<noteq> []) gs) [] ns ss gs b) (\<lambda>b.
     rbind (validate_record_refs as ns ss) (\<lambda>_.
     rbind (check_groups gs) (\<lambda>_. Ok b)))"

definition check_edge :: "(jvalue \<Rightarrow> string) \<Rightarrow> carrier_budget \<Rightarrow> value_edge \<Rightarrow> carrier_budget result" where
  "check_edge js b e = check_proofs js (ed_premises e) (ed_nodes e) (ed_snapshots e) (ed_derivations e) b"

definition check_claim :: "(jvalue \<Rightarrow> string) \<Rightarrow> carrier_budget \<Rightarrow> value_claim \<Rightarrow> carrier_budget result" where
  "check_claim js b a = check_proofs js (cm_premises a) (cm_nodes a) (cm_snapshots a) (cm_derivations a) b"

definition influence_validate_graph :: "(jvalue \<Rightarrow> string) \<Rightarrow> graph_data \<Rightarrow> unit result" where
  "influence_validate_graph js g =
     rbind (check_each (influence_validate js) (option_list (gd_influence g))) (\<lambda>_.
     rbind (try_fold (check_node js) (budget_new default_limits) (gd_nodes g)) (\<lambda>b.
     rbind (try_fold (check_attachment js) b (gd_attachments g)) (\<lambda>b.
     rbind (try_fold (check_edge js) b (gd_edges g)) (\<lambda>b.
     rbind (try_fold (check_claim js) b (gd_claims g)) (\<lambda>_. Ok ())))))"

section \<open>What a value declares\<close>

text \<open>References collected by key, within the bound on all that are collected.\<close>

definition collect_ref :: "('r \<Rightarrow> 'k::linorder) \<Rightarrow> nat \<Rightarrow> ('k, 'r) btree_map \<Rightarrow> 'r \<Rightarrow> ('k, 'r) btree_map result" where
  "collect_ref key others m r =
     (let m = bm_insert (key r) r m in if length m + others > max_references then Err E_BUDGET else Ok m)"

definition declared_snapshots :: "graph_data \<Rightarrow> graph_ref list" where
  "declared_snapshots g =
     concat (map in_snapshots (option_list (gd_influence g)) @ map nd_snapshots (gd_nodes g) @ map ed_snapshots (gd_edges g)
       @ map cm_snapshots (gd_claims g) @ map am_snapshots (gd_attachments g))"

definition collect_declared_snapshots :: "(jvalue \<Rightarrow> string) \<Rightarrow> graph_data \<Rightarrow> graph_ref list result" where
  "collect_declared_snapshots js g =
     rbind (influence_validate_graph js g) (\<lambda>_.
     rbind (try_fold (collect_ref snapshot_key 0) [] (declared_snapshots g)) (\<lambda>m. Ok (map snd m)))"

text \<open>The gates of a value that hold even when all its records are dropped.\<close>

definition input_influence :: "(jvalue \<Rightarrow> string) \<Rightarrow> graph_data \<Rightarrow> influence option result" where
  "input_influence js g =
     (let own = option_list (gd_influence g) in
      rbind (collect_declared_snapshots js g) (\<lambda>snapshots.
      rbind (try_fold (collect_ref assertion_key (length snapshots)) []
        (concat (map in_assertions own @ map am_premises (gd_attachments g)))) (\<lambda>assertions.
      rbind (try_fold (collect_ref node_key (length assertions + length snapshots)) []
        (concat (map in_nodes own @ map am_nodes (gd_attachments g)))) (\<lambda>nodes.
        if gd_influence g = None \<and> assertions = [] \<and> nodes = [] \<and> snapshots = [] then Ok None
        else
          let groups = concat (map in_derivations own) in
          if foldl saturating_add (sum_list (map group_count groups)) [length assertions, length nodes, length snapshots] > max_references
          then Err E_BUDGET
          else Ok (Some \<lparr>in_derivations = groups, in_assertions = map snd assertions, in_nodes = map snd nodes,
            in_snapshots = snapshots\<rparr>)))))"

definition assertion_pin :: "assertion_ref \<Rightarrow> graph_ref" where
  "assertion_pin r = \<lparr>gr_graph = ar_graph r, gr_revision = ar_revision r\<rparr>"

definition node_pin :: "node_ref \<Rightarrow> graph_ref" where
  "node_pin r = \<lparr>gr_graph = nr_graph r, gr_revision = nr_revision r\<rparr>"

definition group_pins :: "derivation \<Rightarrow> graph_ref list" where
  "group_pins d = map assertion_pin (dv_premises d) @ dv_snapshots d @ map node_pin (dv_nodes d)"

text \<open>All snapshots that influence depends on, in order.\<close>

definition influence_snapshots :: "graph_data \<Rightarrow> graph_ref list" where
  "influence_snapshots g =
     (let own = option_list (gd_influence g);
          pins = declared_snapshots g
            @ map assertion_pin (concat (map in_assertions own @ map am_premises (gd_attachments g)))
            @ map node_pin (concat (map in_nodes own @ map am_nodes (gd_attachments g)))
            @ map node_pin (concat (map ed_nodes (gd_edges g) @ map cm_nodes (gd_claims g)))
            @ concat (map group_pins (concat (map ed_derivations (gd_edges g) @ map cm_derivations (gd_claims g)
                @ map nd_derivations (gd_nodes g) @ map am_derivations (gd_attachments g) @ map in_derivations own)))
      in map (\<lambda>(g, r). \<lparr>gr_graph = g, gr_revision = r\<rparr>) (sort_dedup (map snapshot_key pins)))"

definition requires_v019 :: "graph_data \<Rightarrow> bool" where
  "requires_v019 g \<longleftrightarrow>
     list_ex (\<lambda>i. in_derivations i \<noteq> []) (option_list (gd_influence g)) \<or> list_ex (\<lambda>n. nd_derivations n \<noteq> []) (gd_nodes g)
     \<or> list_ex (\<lambda>a. am_derivations a \<noteq> []) (gd_attachments g)
     \<or> list_ex (\<lambda>d. dv_snapshots d \<noteq> []) (concat (map ed_derivations (gd_edges g)))
     \<or> list_ex (\<lambda>d. dv_snapshots d \<noteq> []) (concat (map cm_derivations (gd_claims g)))"

section \<open>Protecting generated records\<close>

definition charge_influence :: "(jvalue \<Rightarrow> string) \<Rightarrow> nat \<Rightarrow> jvalue \<Rightarrow> nat result" where
  "charge_influence js n v = ok_or (checked_sub n (length (js v))) E_BUDGET"

definition within_references :: "nat list \<Rightarrow> unit result" where
  "within_references ns = ensure (foldl saturating_add 0 ns \<le> max_references) E_BUDGET"

text \<open>Everything that will be inserted is charged before a record changes.\<close>

definition precharge_node :: "(jvalue \<Rightarrow> string) \<Rightarrow> influence \<Rightarrow> nat \<Rightarrow> value_node \<Rightarrow> nat result" where
  "precharge_node js i n x =
     rbind (within_references [length (nd_premises x), length (nd_nodes x), length (nd_snapshots x), length (in_snapshots i),
       length (in_assertions i), length (in_nodes i)]) (\<lambda>_. charge_influence js n (json_influence i))"

definition precharge_group :: "(jvalue \<Rightarrow> string) \<Rightarrow> influence \<Rightarrow> nat \<Rightarrow> derivation \<Rightarrow> nat result" where
  "precharge_group js i n g =
     rbind (within_references [length (dv_premises g), length (dv_nodes g), length (in_assertions i), length (in_nodes i)]) (\<lambda>_.
     rbind (charge_influence js n (json_influence i)) (\<lambda>n.
       try_fold (charge_influence js) n
         (map json_snapshot (map assertion_pin (dv_premises g) @ map node_pin (dv_nodes g) @ map assertion_pin (in_assertions i)
           @ map node_pin (in_nodes i)))))"

definition precharge_edge :: "(jvalue \<Rightarrow> string) \<Rightarrow> influence \<Rightarrow> nat \<Rightarrow> value_edge \<Rightarrow> nat result" where
  "precharge_edge js i n e =
     rbind (within_references [length (ed_premises e), length (ed_nodes e), length (ed_snapshots e), length (in_snapshots i),
       length (in_assertions i), length (in_nodes i)]) (\<lambda>_.
     rbind (charge_influence js n (json_influence i)) (\<lambda>n. try_fold (precharge_group js i) n (ed_derivations e)))"

definition precharge_attachment :: "(jvalue \<Rightarrow> string) \<Rightarrow> influence \<Rightarrow> nat \<Rightarrow> attachment \<Rightarrow> nat result" where
  "precharge_attachment js i n a =
     rbind (within_references [length (am_snapshots a), if am_origin a = None then 0 else 1, length (am_premises a),
       length (am_nodes a), length (in_assertions i), length (in_nodes i), length (in_snapshots i)]) (\<lambda>_.
       charge_influence js n (json_influence i))"

text \<open>The flat references put on a record, and on each alternative of an edge.\<close>

definition gate_node :: "influence \<Rightarrow> value_node \<Rightarrow> value_node" where
  "gate_node i n = n\<lparr>nd_snapshots := canonical_refs snapshot_key (nd_snapshots n @ in_snapshots i),
     nd_premises := canonical_refs assertion_key (nd_premises n @ in_assertions i),
     nd_nodes := canonical_refs node_key (nd_nodes n @ in_nodes i)\<rparr>"

definition gate_group :: "influence \<Rightarrow> derivation \<Rightarrow> derivation" where
  "gate_group i g =
     (let premises = canonical_refs assertion_key (dv_premises g @ in_assertions i);
          nodes = canonical_refs node_key (dv_nodes g @ in_nodes i) in
      g\<lparr>dv_premises := premises, dv_nodes := nodes,
        dv_inputs := canonical_refs snapshot_key (dv_inputs g @ map assertion_pin premises @ map node_pin nodes)\<rparr>)"

definition gate_edge :: "influence \<Rightarrow> value_edge \<Rightarrow> value_edge" where
  "gate_edge i e = e\<lparr>ed_snapshots := canonical_refs snapshot_key (ed_snapshots e @ in_snapshots i),
     ed_premises := canonical_refs assertion_key (ed_premises e @ in_assertions i),
     ed_nodes := canonical_refs node_key (ed_nodes e @ in_nodes i), ed_derivations := map (gate_group i) (ed_derivations e)\<rparr>"

definition gate_attachment :: "influence \<Rightarrow> attachment \<Rightarrow> attachment" where
  "gate_attachment i a = a\<lparr>am_premises := canonical_refs assertion_key (am_premises a @ in_assertions i),
     am_nodes := canonical_refs node_key (am_nodes a @ in_nodes i),
     am_snapshots := canonical_refs snapshot_key (am_snapshots a @ in_snapshots i)\<rparr>"

text \<open>An index of origins, extended for the records of a list.\<close>

definition extend_origins :: "('a \<Rightarrow> string) \<Rightarrow> ('a \<Rightarrow> assertion_ref list) \<Rightarrow> (string, assertion_ref list) btree_map \<Rightarrow> 'a
    \<Rightarrow> (string, assertion_ref list) btree_map" where
  "extend_origins name refs m x =
     bm_insert (name x) (canonical_refs assertion_key (bm_or_default [] m (name x) @ refs x)) m"

definition protect_flat :: "(jvalue \<Rightarrow> string) \<Rightarrow> influence \<Rightarrow> nat \<Rightarrow> query_result \<Rightarrow> query_result result" where
  "protect_flat js i limit r =
     (let g = qr_graph r in
      rbind (charge_influence js (min limit (32 * 1024 * 1024)) (json_result r)) (\<lambda>n.
      rbind (try_fold (precharge_node js i) n (gd_nodes g)) (\<lambda>n.
      rbind (try_fold (precharge_edge js i) n (gd_edges g)) (\<lambda>n.
      rbind (try_fold (precharge_attachment js i) n (gd_attachments g)) (\<lambda>n.
      let g = g\<lparr>gd_nodes := map (gate_node i) (gd_nodes g), gd_edges := map (gate_edge i) (gd_edges g),
            gd_attachments := map (gate_attachment i) (gd_attachments g)\<rparr> in
      rbind (try_fold (charge_influence js) n (map (json_list json_assertion \<circ> ed_premises) (gd_edges g))) (\<lambda>n.
      rbind (try_fold (charge_influence js) n (map (json_list json_assertion \<circ> am_premises) (gd_attachments g))) (\<lambda>n.
      rbind (charge_influence js n (json_list json_assertion (in_assertions i))) (\<lambda>n.
      let pins = influence_snapshots g in
      rbind (charge_influence js n (json_list json_snapshot pins)) (\<lambda>_.
      let r = r\<lparr>qr_graph := g,
            qr_edge_origins := foldl (extend_origins ed_id ed_premises) (qr_edge_origins r) (gd_edges g),
            qr_attachment_origins := foldl (extend_origins am_id am_premises) (qr_attachment_origins r) (gd_attachments g),
            qr_provenance := canonical_refs assertion_key (qr_provenance r @ in_assertions i),
            qr_inputs := canonical_refs snapshot_key (qr_inputs r @ pins)\<rparr> in
      rbind (influence_validate_graph js g) (\<lambda>_.
      rbind (charge_influence js (min limit (32 * 1024 * 1024)) (json_result r)) (\<lambda>_. Ok r)))))))))))"

text \<open>With alternatives the restriction of each record is the conjunction of its own and the value's.\<close>

definition protected_part :: "(jvalue \<Rightarrow> string) \<Rightarrow> carrier \<Rightarrow> assertion_ref list \<Rightarrow> node_ref list \<Rightarrow> graph_ref list \<Rightarrow> derivation list
    \<Rightarrow> carrier_budget \<Rightarrow> (carrier \<times> carrier_budget) result" where
  "protected_part js envelope as ns ss gs b =
     rbind (from_parts js as ns ss gs b) (\<lambda>(local, b). conjunction js local envelope b)"

definition protected_node :: "(jvalue \<Rightarrow> string) \<Rightarrow> carrier \<Rightarrow> influence list \<times> carrier_budget \<Rightarrow> value_node
    \<Rightarrow> (influence list \<times> carrier_budget) result" where
  "protected_node js envelope s n =
     rbind (protected_part js envelope (nd_premises n) (nd_nodes n) (nd_snapshots n) (nd_derivations n) (snd s)) (\<lambda>(c, b).
       Ok (fst s @ [into_influence c], b))"

text \<open>An edge has no flat assertions beside alternatives: they are distributed into its branches.\<close>

definition protected_edge :: "(jvalue \<Rightarrow> string) \<Rightarrow> carrier \<Rightarrow> influence list \<times> carrier_budget \<Rightarrow> value_edge
    \<Rightarrow> (influence list \<times> carrier_budget) result" where
  "protected_edge js envelope s e =
     rbind (protected_part js envelope (if ed_derivations e = [] then ed_premises e else []) (ed_nodes e) (ed_snapshots e)
       (ed_derivations e) (snd s)) (\<lambda>(c, b).
       if ca_alternatives c \<noteq> [] \<and> (rs_assertions (ca_flat c) \<noteq> [] \<or> rs_nodes (ca_flat c) \<noteq> [] \<or> rs_snapshots (ca_flat c) \<noteq> []) then
         rbind (distribute js \<lparr>ca_flat = no_refs, ca_alternatives = ca_alternatives c\<rparr> \<lparr>ca_flat = ca_flat c, ca_alternatives = []\<rparr> b)
           (\<lambda>(d, b).
             let d = d\<lparr>ca_flat := (ca_flat d)\<lparr>rs_nodes := rs_nodes (ca_flat c), rs_snapshots := rs_snapshots (ca_flat c)\<rparr>\<rparr> in
             Ok (fst s @ [into_influence d], b))
       else Ok (fst s @ [into_influence c], b))"

definition protected_attachment :: "(jvalue \<Rightarrow> string) \<Rightarrow> carrier \<Rightarrow> influence list \<times> carrier_budget \<Rightarrow> attachment
    \<Rightarrow> (influence list \<times> carrier_budget) result" where
  "protected_attachment js envelope s a =
     rbind (protected_part js envelope (am_premises a) (am_nodes a) (am_snapshots a) (am_derivations a) (snd s)) (\<lambda>(c, b).
       Ok (fst s @ [into_influence c], b))"

definition set_node :: "value_node \<Rightarrow> influence \<Rightarrow> value_node" where
  "set_node n i = n\<lparr>nd_premises := in_assertions i, nd_nodes := in_nodes i, nd_snapshots := in_snapshots i,
     nd_derivations := in_derivations i\<rparr>"

definition set_edge :: "value_edge \<Rightarrow> influence \<Rightarrow> value_edge" where
  "set_edge e i = e\<lparr>ed_premises := assertion_index i, ed_nodes := in_nodes i, ed_snapshots := in_snapshots i,
     ed_derivations := in_derivations i\<rparr>"

definition set_attachment :: "attachment \<Rightarrow> influence \<Rightarrow> attachment" where
  "set_attachment a i = a\<lparr>am_premises := in_assertions i, am_nodes := in_nodes i, am_snapshots := in_snapshots i,
     am_derivations := in_derivations i\<rparr>"

text \<open>Entries that are appended to, and only sorted at the end.\<close>

definition append_origins :: "(string, assertion_ref list) btree_map \<Rightarrow> string \<times> assertion_ref list
    \<Rightarrow> (string, assertion_ref list) btree_map" where
  "append_origins m x = bm_insert (fst x) (bm_or_default [] m (fst x) @ snd x) m"

definition sort_origins :: "(string, assertion_ref list) btree_map \<Rightarrow> (string, assertion_ref list) btree_map" where
  "sort_origins m = map (\<lambda>(k, refs). (k, canonical_refs assertion_key refs)) m"

definition protect_alternatives :: "(jvalue \<Rightarrow> string) \<Rightarrow> influence \<Rightarrow> nat \<Rightarrow> query_result \<Rightarrow> query_result result" where
  "protect_alternatives js i limit r =
     (let g = qr_graph r in
      rbind (charge_influence js (min limit (32 * 1024 * 1024)) (json_result r)) (\<lambda>n.
      let b = budget_new (default_limits\<lparr>cl_bytes := n\<rparr>) in
      rbind (from_influence js i b) (\<lambda>(envelope, b).
      rbind (try_fold (protected_node js envelope) ([], b) (gd_nodes g)) (\<lambda>(nodes, b).
      rbind (try_fold (protected_edge js envelope) ([], b) (gd_edges g)) (\<lambda>(edges, b).
      rbind (try_fold (protected_attachment js envelope) ([], b) (gd_attachments g)) (\<lambda>(attachments, _).
      let g = g\<lparr>gd_nodes := map2 set_node (gd_nodes g) nodes, gd_edges := map2 set_edge (gd_edges g) edges,
            gd_attachments := map2 set_attachment (gd_attachments g) attachments\<rparr>;
          edge_origins = sort_origins (foldl append_origins (qr_edge_origins r) (map (\<lambda>e. (ed_id e, ed_premises e)) (gd_edges g)));
          attachment_origins = sort_origins (foldl append_origins (qr_attachment_origins r)
            (map2 (\<lambda>a i. (am_id a, assertion_index i)) (gd_attachments g) attachments));
          r = r\<lparr>qr_graph := g, qr_edge_origins := edge_origins, qr_attachment_origins := attachment_origins,
            qr_provenance := canonical_refs assertion_key (qr_provenance r @ concat (map snd edge_origins @ map snd attachment_origins)),
            qr_inputs := canonical_refs snapshot_key (qr_inputs r @ influence_snapshots g)\<rparr> in
      rbind (influence_validate_graph js g) (\<lambda>_.
      rbind (charge_influence js (min limit (32 * 1024 * 1024)) (json_result r)) (\<lambda>_. Ok r))))))))"

definition protect_generated_result :: "(jvalue \<Rightarrow> string) \<Rightarrow> nat \<Rightarrow> query_result \<Rightarrow> query_result result" where
  "protect_generated_result js limit r =
     (let g = qr_graph r in
      if gd_profile g \<noteq> LegacyProfile \<or> gd_claims g \<noteq> [] \<or> gd_structural g \<noteq> [] then Err (GraphError E_INFLUENCE_PROFILE)
      else
        case gd_influence g of
          None \<Rightarrow> Ok r
        | Some i \<Rightarrow>
            rbind (influence_validate js i) (\<lambda>_.
              if requires_v019 g then protect_alternatives js i limit r else protect_flat js i limit r))"

section \<open>Protecting with the gates of a typed context\<close>

text \<open>The definitions and anchors of the typing, put on each generated record within the byte limit.\<close>

definition within_typed :: "nat list \<Rightarrow> unit result" where
  "within_typed ns = ensure (foldl saturating_add 0 ns \<le> 1000) (GraphError E_CONTEXT_BUDGET)"

definition charge_gates :: "codec \<Rightarrow> assertion_ref list \<times> node_ref list \<Rightarrow> nat \<Rightarrow> nat result" where
  "charge_gates cd gates n =
     rbind (charge_bytes (GraphError E_CONTEXT_BUDGET) cd (json_list json_assertion (fst gates)) n) (\<lambda>n.
       charge_bytes (GraphError E_CONTEXT_BUDGET) cd (json_list json_node (snd gates)) n)"

definition charge_typed :: "codec \<Rightarrow> nat \<Rightarrow> jvalue \<Rightarrow> nat result" where
  "charge_typed cd n v = charge_bytes (GraphError E_CONTEXT_BUDGET) cd v n"

definition typed_node_charge :: "codec \<Rightarrow> assertion_ref list \<times> node_ref list \<Rightarrow> nat \<Rightarrow> value_node \<Rightarrow> nat result" where
  "typed_node_charge cd gates n x =
     rbind (within_typed [length (nd_premises x), length (nd_nodes x), length (nd_snapshots x), length (fst gates), length (snd gates)]) (\<lambda>_.
       charge_gates cd gates n)"

definition typed_group_charge :: "codec \<Rightarrow> assertion_ref list \<Rightarrow> nat \<Rightarrow> derivation \<Rightarrow> nat result" where
  "typed_group_charge cd as n g =
     rbind (within_typed [length (dv_premises g), length as]) (\<lambda>_.
     rbind (charge_typed cd n (json_list json_assertion as)) (\<lambda>n.
       try_fold (charge_typed cd) n (map (json_snapshot \<circ> assertion_pin) as)))"

definition typed_edge_charge :: "codec \<Rightarrow> assertion_ref list \<Rightarrow> nat \<Rightarrow> value_edge \<Rightarrow> nat result" where
  "typed_edge_charge cd as n e =
     rbind (ensure (length (ed_derivations e) \<le> 128) (GraphError E_CONTEXT_BUDGET)) (\<lambda>_.
     rbind (within_typed [length (ed_premises e), length (ed_nodes e), length (ed_snapshots e), length as]) (\<lambda>_.
     rbind (charge_typed cd n (json_list json_assertion as)) (\<lambda>n. try_fold (typed_group_charge cd as) n (ed_derivations e))))"

definition typed_attachment_charge :: "codec \<Rightarrow> assertion_ref list \<times> node_ref list \<Rightarrow> nat \<Rightarrow> attachment \<Rightarrow> nat result" where
  "typed_attachment_charge cd gates n a =
     rbind (within_typed [length (am_premises a), length (am_nodes a), length (am_snapshots a),
       if am_origin a = None then 0 else 1, length (fst gates), length (snd gates)]) (\<lambda>_. charge_gates cd gates n)"

definition typed_node :: "assertion_ref list \<times> node_ref list \<Rightarrow> value_node \<Rightarrow> value_node" where
  "typed_node gates n = n\<lparr>nd_premises := canonical_refs assertion_key (nd_premises n @ fst gates),
     nd_nodes := canonical_refs node_key (nd_nodes n @ snd gates)\<rparr>"

definition typed_group :: "assertion_ref list \<Rightarrow> derivation \<Rightarrow> derivation" where
  "typed_group as g = g\<lparr>dv_premises := canonical_refs assertion_key (dv_premises g @ as),
     dv_inputs := canonical_refs snapshot_key (dv_inputs g @ map assertion_pin as)\<rparr>"

definition typed_edge :: "assertion_ref list \<Rightarrow> value_edge \<Rightarrow> value_edge" where
  "typed_edge as e = e\<lparr>ed_premises := canonical_refs assertion_key (ed_premises e @ as),
     ed_derivations := map (typed_group as) (ed_derivations e)\<rparr>"

definition typed_attachment :: "assertion_ref list \<times> node_ref list \<Rightarrow> attachment \<Rightarrow> attachment" where
  "typed_attachment gates a = a\<lparr>am_premises := canonical_refs assertion_key (am_premises a @ fst gates),
     am_nodes := canonical_refs node_key (am_nodes a @ snd gates)\<rparr>"

definition protect_typed_graph :: "codec \<Rightarrow> nat \<Rightarrow> graph_data \<Rightarrow> graph_data result" where
  "protect_typed_graph cd limit g =
     (case gd_typing g of
        None \<Rightarrow> Ok g
      | Some t \<Rightarrow>
          rbind (typing_gates cd t) (\<lambda>gates.
          rbind (charge_typed cd (min limit (32 * 1024 * 1024)) (json_graph g)) (\<lambda>n.
          rbind (try_fold (typed_node_charge cd gates) n (gd_nodes g)) (\<lambda>n.
          rbind (try_fold (typed_edge_charge cd (fst gates)) n (gd_edges g)) (\<lambda>n.
          rbind (try_fold (typed_attachment_charge cd gates) n (gd_attachments g)) (\<lambda>_.
            Ok (g\<lparr>gd_nodes := map (typed_node gates) (gd_nodes g), gd_edges := map (typed_edge (fst gates)) (gd_edges g),
              gd_attachments := map (typed_attachment gates) (gd_attachments g)\<rparr>)))))))"

definition protect_typed_result :: "codec \<Rightarrow> nat \<Rightarrow> query_result \<Rightarrow> query_result result" where
  "protect_typed_result cd limit r =
     rbind (protect_typed_graph cd limit (qr_graph r)) (\<lambda>g.
     let r = r\<lparr>qr_graph := g\<rparr> in
     case gd_typing g of
       None \<Rightarrow> Ok r
     | Some t \<Rightarrow>
         rbind (typing_gates cd t) (\<lambda>(as, _).
         rbind (charge_typed cd (min limit (32 * 1024 * 1024)) (json_result r)) (\<lambda>n.
         rbind (try_fold (charge_typed cd) n (map (json_list json_assertion \<circ> ed_premises) (gd_edges g)
           @ map (json_list json_assertion \<circ> am_premises) (gd_attachments g)
           @ json_list json_assertion as # map (json_snapshot \<circ> assertion_pin) as)) (\<lambda>_.
         let r = r\<lparr>qr_edge_origins := foldl (extend_origins ed_id ed_premises) (qr_edge_origins r) (gd_edges g),
               qr_attachment_origins := foldl (extend_origins am_id am_premises) (qr_attachment_origins r) (gd_attachments g),
               qr_provenance := canonical_refs assertion_key (qr_provenance r @ as),
               qr_inputs := canonical_refs snapshot_key (qr_inputs r @ map assertion_pin as)\<rparr> in
         rbind (typing_validate_result cd r) (\<lambda>_. Ok r)))))"

end
