(* ===== verification/Value_Schema.thy ===== *)
theory Value_Schema
  imports Value_Influence
begin

text \<open>
  Validation of a graph value against its embedded schema (\<open>weave-contract/src/schema.rs\<close>). The
  diagnostics are their codes, in the order in which they are found.
\<close>

section \<open>Properties\<close>

definition is_number :: "jvalue \<Rightarrow> bool" where
  "is_number v = (case v of JNum _ \<Rightarrow> True | _ \<Rightarrow> False)"

definition is_boolean :: "jvalue \<Rightarrow> bool" where
  "is_boolean v = (case v of JBool _ \<Rightarrow> True | _ \<Rightarrow> False)"

text \<open>A JSON number is finite.\<close>

definition property_valid :: "property_schema \<Rightarrow> jvalue \<Rightarrow> bool" where
  "property_valid d v \<longleftrightarrow>
     (if v = JNull then ps_nullable d
      else case ps_type d of
        DecimalType \<Rightarrow> read_decimal v \<noteq> None
      | QuantityType u \<Rightarrow> (case read_quantity v of None \<Rightarrow> False | Some q \<Rightarrow> qu_unit q = u)
      | StringType \<Rightarrow> json_text v \<noteq> None
      | IntegerType \<Rightarrow> json_integer v \<noteq> None
      | BooleanType \<Rightarrow> is_boolean v
      | FloatType \<Rightarrow> is_number v)"

definition property_errors :: "(string, jvalue) btree_map \<Rightarrow> string \<times> property_schema \<Rightarrow> graph_code list" where
  "property_errors vals d =
     (case map_of vals (fst d) of
        None \<Rightarrow> if ps_required (snd d) then [E_SCHEMA_REQUIRED] else []
      | Some v \<Rightarrow> if property_valid (snd d) v then [] else [E_SCHEMA_PROPERTY_TYPE])"

definition properties_errors :: "(string, jvalue) btree_map \<Rightarrow> (string, property_schema) btree_map \<Rightarrow> bool \<Rightarrow> graph_code list" where
  "properties_errors vals shape allow_extra =
     concat (map (property_errors vals) shape)
     @ (if allow_extra then [] else map (\<lambda>_. E_SCHEMA_PROPERTY) (filter (\<lambda>kv. map_of shape (fst kv) = None) vals))"

section \<open>Contexts of claims\<close>

text \<open>The values of a list by their key, the last of each.\<close>

definition last_of :: "('a \<Rightarrow> string) \<Rightarrow> 'a list \<Rightarrow> string \<Rightarrow> 'a option" where
  "last_of key xs k = map_of (rev (map (\<lambda>x. (key x, x)) xs)) k"

definition scope_errors :: "graph_data \<Rightarrow> string \<Rightarrow> string \<Rightarrow> graph_ref option \<Rightarrow> error_code list" where
  "scope_errors g from_id to_id c =
     (let scoped = filter (\<lambda>n. nd_scope n \<noteq> None) (gd_nodes g);
          bad = (\<lambda>i. case Option.bind (last_of nd_id scoped i) nd_scope of None \<Rightarrow> False | Some s \<Rightarrow> reference s \<noteq> c) in
      if bad from_id \<or> bad to_id then [E_CONTEXT_SCOPE] else [])"

definition claim_scope_errors :: "graph_data \<Rightarrow> value_claim \<Rightarrow> error_code list" where
  "claim_scope_errors g a =
     (case last_of se_id (gd_structural g) (cm_edge a) of
        None \<Rightarrow> [] | Some e \<Rightarrow> scope_errors g (se_from e) (se_to e) (cm_context a))"

definition context_errors :: "graph_data \<Rightarrow> error_code list" where
  "context_errors g =
     concat (map (\<lambda>n. concat (map (\<lambda>s. case validate_selection s of Inl e \<Rightarrow> [e] | Inr _ \<Rightarrow> []) (option_list (nd_scope n)))) (gd_nodes g))
     @ concat (map (\<lambda>e. scope_errors g (ed_from e) (ed_to e) (ed_context e)) (gd_edges g))
     @ concat (map (claim_scope_errors g) (gd_claims g))"

section \<open>Profiles\<close>

text \<open>Identifiers that must be new and nonempty; an empty one is not remembered.\<close>

fun id_errors :: "string list \<Rightarrow> string list \<Rightarrow> graph_code list \<times> string list" where
  "id_errors seen [] = ([], seen)"
| "id_errors seen (i # is') =
     (if i = [] \<or> i \<in> set seen
      then (let (es, seen) = id_errors seen is' in (E_ASSERTION_ID # es, seen))
      else id_errors (i # seen) is')"

definition claim_errors :: "graph_data \<Rightarrow> value_claim \<Rightarrow> graph_code list" where
  "claim_errors g a =
     (if cm_edge a \<in> set (map se_id (gd_structural g)) then [] else [E_ASSERTION_EDGE])
     @ (if cm_source a = [] then [E_ASSERTION_SOURCE] else [])
     @ (if interval_valid (cm_valid a) then [] else [E_ASSERTION_INTERVAL])"

text \<open>The claims, each with the check of its identifier before its own.\<close>

fun claims_errors :: "graph_data \<Rightarrow> string list \<Rightarrow> value_claim list \<Rightarrow> graph_code list \<times> string list" where
  "claims_errors g seen [] = ([], seen)"
| "claims_errors g seen (a # as) =
     (let (es, seen) = id_errors seen [cm_id a]; (rest, seen) = claims_errors g seen as in (es @ claim_errors g a @ rest, seen))"

definition explicit_errors :: "graph_data \<Rightarrow> graph_code list" where
  "explicit_errors g =
     (let (es1, seen) = id_errors (map nd_id (gd_nodes g)) (map se_id (gd_structural g));
          (es2, seen) = claims_errors g seen (gd_claims g);
          (es3, _) = id_errors seen (map am_id (gd_attachments g)) in
      (if gd_edges g \<noteq> [] then [E_ASSERTION_PROFILE] else []) @ es1 @ es2 @ es3)"

definition profile_errors :: "graph_data \<Rightarrow> graph_code list" where
  "profile_errors g =
     (case gd_profile g of
        LegacyProfile \<Rightarrow> if gd_structural g \<noteq> [] \<or> gd_claims g \<noteq> [] then [E_ASSERTION_PROFILE] else []
      | ExplicitProfile \<Rightarrow> explicit_errors g)"

definition structural_as_edge :: "structural_edge \<Rightarrow> value_edge" where
  "structural_as_edge e = \<lparr>ed_snapshots = [], ed_nodes = [], ed_source = None, ed_context = None, ed_structural = None, ed_claims = [],
     ed_type = se_type e, ed_id = se_id e, ed_predicate = se_predicate e, ed_from = se_from e, ed_to = se_to e,
     ed_valid = \<lparr>iv_start = 0, iv_end = None\<rparr>, ed_provenance = None, ed_polarity = Positive, ed_properties = se_properties e,
     ed_metadata = se_metadata e, ed_readers = se_readers e, ed_groups = se_groups e, ed_premises = [], ed_derivations = []\<rparr>"

definition edges_of :: "graph_data \<Rightarrow> value_edge list" where
  "edges_of g = (case gd_profile g of LegacyProfile \<Rightarrow> gd_edges g | ExplicitProfile \<Rightarrow> map structural_as_edge (gd_structural g))"

definition endpoint_errors :: "graph_data \<Rightarrow> value_edge \<Rightarrow> graph_code list" where
  "endpoint_errors g e =
     (let ids = map nd_id (gd_nodes g) in if ed_from e \<notin> set ids \<or> ed_to e \<notin> set ids then [E_SCHEMA_ENDPOINT] else [])"

section \<open>Types\<close>

definition node_schema_errors :: "string \<times> node_schema \<Rightarrow> graph_code list" where
  "node_schema_errors d =
     (if fst d = [] \<or> ns_space (snd d) = Some [] \<or> list_ex (\<lambda>kv. fst kv = []) (ns_properties (snd d)) then [E_SCHEMA_ID] else [])"

definition edge_schema_errors :: "graph_schema \<Rightarrow> string \<times> edge_schema \<Rightarrow> graph_code list" where
  "edge_schema_errors s d =
     (if fst d = [] \<or> list_ex (\<lambda>kv. fst kv = []) (es_properties (snd d)) then [E_SCHEMA_ID] else [])
     @ (if map_of (gs_nodes s) (es_from (snd d)) = None \<or> map_of (gs_nodes s) (es_to (snd d)) = None
        then [E_SCHEMA_ENDPOINT_TYPE] else [])"

definition node_errors :: "graph_schema \<Rightarrow> value_node \<Rightarrow> graph_code list" where
  "node_errors s n =
     (case Option.bind (nd_type n) (map_of (gs_nodes s)) of
        None \<Rightarrow> [E_SCHEMA_NODE_TYPE]
      | Some d \<Rightarrow>
          (case ns_space d of None \<Rightarrow> [] | Some space \<Rightarrow> if space \<noteq> nd_space n then [E_SCHEMA_SPACE] else [])
          @ properties_errors (nd_properties n) (ns_properties d) (ns_extra d))"

definition typed_endpoint_errors :: "graph_data \<Rightarrow> edge_schema \<Rightarrow> value_edge \<Rightarrow> graph_code list" where
  "typed_endpoint_errors g d e =
     (case (last_of nd_id (gd_nodes g) (ed_from e), last_of nd_id (gd_nodes g) (ed_to e)) of
        (Some a, Some b) \<Rightarrow>
          (if nd_type a \<noteq> Some (es_from d) \<or> nd_type b \<noteq> Some (es_to d) then [E_SCHEMA_ENDPOINT_TYPE] else [])
          @ (if \<not> es_cross_space d \<and> nd_space a \<noteq> nd_space b then [E_SCHEMA_CROSS_SPACE] else [])
      | _ \<Rightarrow> [E_SCHEMA_ENDPOINT])"

definition edge_errors :: "graph_data \<Rightarrow> graph_schema \<Rightarrow> value_edge \<Rightarrow> graph_code list" where
  "edge_errors g s e =
     (case Option.bind (ed_type e) (map_of (gs_edges s)) of
        None \<Rightarrow> [E_SCHEMA_EDGE_TYPE]
      | Some d \<Rightarrow> typed_endpoint_errors g d e @ properties_errors (ed_properties e) (es_properties d) (es_extra d))"

definition schema_errors :: "graph_data \<Rightarrow> graph_code list" where
  "schema_errors g =
     (case gd_schema g of
        None \<Rightarrow>
          if list_ex (\<lambda>n. nd_type n \<noteq> None) (gd_nodes g) \<or> list_ex (\<lambda>e. ed_type e \<noteq> None) (edges_of g) then [E_SCHEMA_MISSING] else []
      | Some s \<Rightarrow>
          (if gs_id s = [] \<or> gs_revision s = [] then [E_SCHEMA_ID] else [])
          @ concat (map node_schema_errors (gs_nodes s)) @ concat (map (edge_schema_errors s) (gs_edges s))
          @ concat (map (node_errors s) (gd_nodes g)) @ concat (map (edge_errors g s) (edges_of g)))"

definition validate_schema_graph :: "graph_data \<Rightarrow> error_code list" where
  "validate_schema_graph g =
     context_errors g
     @ map GraphError (profile_errors g @ concat (map (endpoint_errors g) (edges_of g)) @ schema_errors g)"

end
