(* ===== verification/Observations.thy ===== *)
theory Observations
  imports Value_Schema
begin

text \<open>
  Descriptions of what a result was selected from (\<open>weave-contract/src/recorded_history.rs\<close>,
  \<open>accepted_history.rs\<close>) and of its sources: merged by their label, conflicting descriptions refused.
\<close>

section \<open>Merging by label\<close>

text \<open>Insert a value under its label; an older value must agree with it.\<close>

definition merge_label :: "('a \<Rightarrow> 'a \<Rightarrow> bool) \<Rightarrow> graph_code \<Rightarrow> 'k::linorder \<Rightarrow> 'a \<Rightarrow> ('k, 'a) btree_map \<Rightarrow> ('k, 'a) btree_map result" where
  "merge_label agrees e label v m =
     rbind (ensure (case map_of m label of None \<Rightarrow> True | Some old \<Rightarrow> agrees old v) (GraphError e)) (\<lambda>_. Ok (bm_insert label v m))"

section \<open>Recorded selections\<close>

definition add_recorded :: "(string \<times> string, recorded_observation) btree_map \<Rightarrow> recorded_observation
    \<Rightarrow> (string \<times> string, recorded_observation) btree_map result" where
  "add_recorded m w =
     rbind (ensure (0 \<le> ro_recorded w \<and> list_all valid_id [ro_observer w, ro_checkpoint w, gr_graph (ro_graph w), gr_revision (ro_graph w), ro_branch w])
       (GraphError E_HISTORY_SELECTOR)) (\<lambda>_.
       merge_label (=) E_HISTORY_SELECTOR (ro_observer w, ro_checkpoint w) w m)"

definition merge_recorded :: "recorded_observation list \<Rightarrow> recorded_observation list \<Rightarrow> recorded_observation list result" where
  "merge_recorded left right =
     rbind (ensure (saturating_add (length left) (length right) \<le> 1000) E_BUDGET) (\<lambda>_.
     rbind (try_fold add_recorded [] (left @ right)) (\<lambda>m. Ok (map snd m)))"

section \<open>Accepted selections\<close>

definition add_accepted :: "(string \<times> string \<times> string, accepted_observation) btree_map \<Rightarrow> accepted_observation
    \<Rightarrow> (string \<times> string \<times> string, accepted_observation) btree_map result" where
  "add_accepted m w =
     rbind (ensure (0 \<le> ao_accepted w \<and> list_all valid_id [ao_observer w, ao_view w, ao_decision w, ao_branch w,
         gr_graph (ao_occurrence w), gr_revision (ao_occurrence w), gr_graph (ao_source w), gr_revision (ao_source w)])
       (GraphError E_ACCEPTED_SELECTOR)) (\<lambda>_.
       merge_label (=) E_ACCEPTED_SELECTOR (ao_observer w, ao_view w, ao_decision w) w m)"

definition merge_accepted :: "accepted_observation list \<Rightarrow> accepted_observation list \<Rightarrow> accepted_observation list result" where
  "merge_accepted left right =
     rbind (ensure (saturating_add (length left) (length right) \<le> 1000) E_BUDGET) (\<lambda>_.
     rbind (try_fold add_accepted [] (left @ right)) (\<lambda>m. Ok (map snd m)))"

definition accepted_validate_result :: "query_result \<Rightarrow> unit result" where
  "accepted_validate_result r =
     rbind (merge_accepted (qr_accepted r) []) (\<lambda>_.
       ensure (list_all (\<lambda>w. ao_source w \<in> set (qr_inputs r) \<and> ao_occurrence w \<in> set (qr_inputs r)) (qr_accepted r))
         (GraphError E_ACCEPTED_SELECTOR))"

definition recorded_validate_result :: "query_result \<Rightarrow> unit result" where
  "recorded_validate_result r =
     rbind (accepted_validate_result r) (\<lambda>_.
     rbind (merge_recorded (qr_recorded r) []) (\<lambda>_.
       ensure (list_all (\<lambda>w. ro_graph w \<in> set (qr_inputs r)) (qr_recorded r)) (GraphError E_HISTORY_SELECTOR)))"

section \<open>Sources\<close>

definition add_source_revision :: "(string \<times> string, source_revision) btree_map \<Rightarrow> source_revision
    \<Rightarrow> (string \<times> string, source_revision) btree_map result" where
  "add_source_revision m s = merge_label (\<lambda>old new. sv_digest old = sv_digest new) E_SOURCE_REVISION (sv_name s, sv_revision s) s m"

definition merge_source_revisions :: "source_revision list \<Rightarrow> source_revision list \<Rightarrow> source_revision list result" where
  "merge_source_revisions left right =
     rbind (try_fold add_source_revision [] (left @ right)) (\<lambda>m. Ok (map snd m))"

end
