(* ===== verification/Algebra_Model.thy ===== *)
theory Algebra_Model
  imports Observations
begin

text \<open>
  Operators over graph values (\<open>weave-contract/src/algebra.rs\<close>, the selection of \<open>context.rs\<close>): union by
  origin, projection, difference, support of a claim and the composition of proofs. The key of a value
  is the digest of its text; the records an operator keeps are readable by its principal alone.
\<close>

section \<open>Keys and budgets\<close>

definition value_key :: "codec \<Rightarrow> jvalue \<Rightarrow> string" where
  "value_key cd v = cd_sha cd (cd_js cd v)"

definition snapshot_keyed :: "codec \<Rightarrow> jvalue \<Rightarrow> graph_ref list \<Rightarrow> string" where
  "snapshot_keyed cd v snapshots =
     (if snapshots = [] then value_key cd v else value_key cd (JArr [JStr (value_key cd v), json_list json_snapshot snapshots]))"

record algebra_budget =
  ab_bytes :: nat
  ab_objects :: nat

definition algebra_budget_new :: "algebra_context \<Rightarrow> algebra_budget" where
  "algebra_budget_new ctx = \<lparr>ab_bytes = al_max_bytes ctx, ab_objects = al_max_objects ctx\<rparr>"

definition write_bytes :: "codec \<Rightarrow> jvalue \<Rightarrow> algebra_budget \<Rightarrow> algebra_budget result" where
  "write_bytes cd v b =
     rbind (ok_or (checked_sub (ab_bytes b) (length (cd_js cd v))) (GraphError E_ALGEBRA_LIMIT)) (\<lambda>n. Ok (b\<lparr>ab_bytes := n\<rparr>))"

definition budget_add :: "codec \<Rightarrow> jvalue \<Rightarrow> algebra_budget \<Rightarrow> algebra_budget result" where
  "budget_add cd v b =
     rbind (ok_or (checked_sub (ab_objects b) 1) (GraphError E_ALGEBRA_LIMIT)) (\<lambda>n. write_bytes cd v (b\<lparr>ab_objects := n\<rparr>))"

definition unique_by :: "codec \<Rightarrow> ('a \<Rightarrow> jvalue) \<Rightarrow> 'a list \<Rightarrow> 'a list" where
  "unique_by cd f xs = map snd (foldl (\<lambda>m x. bm_insert (value_key cd (f x)) x m) [] xs)"

section \<open>Checking inputs and results\<close>

definition preflight :: "codec \<Rightarrow> algebra_context \<Rightarrow> query_result \<Rightarrow> unit result" where
  "preflight cd ctx r =
     (let g = qr_graph r in
      rbind (typing_validate_result cd r) (\<lambda>_.
      rbind (recorded_validate_result r) (\<lambda>_.
      rbind (influence_validate_graph (cd_js cd) g) (\<lambda>_.
      rbind (ensure (gd_profile g = LegacyProfile \<and> gd_structural g = [] \<and> gd_claims g = []) (GraphError E_ALGEBRA_PROFILE)) (\<lambda>_.
      rbind (ensure (foldl saturating_add 0 [length (gd_nodes g), length (gd_edges g), length (gd_attachments g)] \<le> al_max_objects ctx)
        (GraphError E_ALGEBRA_LIMIT)) (\<lambda>_.
      rbind (budget_add cd (json_result r) (algebra_budget_new ctx)) (\<lambda>_. Ok ())))))))"

definition own_node :: "algebra_context \<Rightarrow> value_node \<Rightarrow> value_node" where
  "own_node ctx n = n\<lparr>nd_readers := [al_principal ctx], nd_groups := []\<rparr>"

definition own_edge :: "algebra_context \<Rightarrow> value_edge \<Rightarrow> value_edge" where
  "own_edge ctx e = e\<lparr>ed_readers := [al_principal ctx], ed_groups := []\<rparr>"

definition own_attachment :: "algebra_context \<Rightarrow> attachment \<Rightarrow> attachment" where
  "own_attachment ctx a = a\<lparr>am_readers := [al_principal ctx], am_groups := []\<rparr>"

definition own_graph :: "algebra_context \<Rightarrow> graph_data \<Rightarrow> graph_data" where
  "own_graph ctx g = g\<lparr>gd_nodes := map (own_node ctx) (gd_nodes g), gd_edges := map (own_edge ctx) (gd_edges g),
     gd_attachments := map (own_attachment ctx) (gd_attachments g)\<rparr>"

definition checked_result :: "codec \<Rightarrow> algebra_context \<Rightarrow> query_result \<Rightarrow> query_result result" where
  "checked_result cd ctx r =
     rbind (ensure (al_principal ctx \<noteq> []) (GraphError E_ALGEBRA_AUTH)) (\<lambda>_.
     rbind (ensure (list_all (\<lambda>n. foldl saturating_add 0 [length (nd_premises n), length (nd_nodes n), length (nd_snapshots n)] \<le> 1000)
       (gd_nodes (qr_graph r))) (GraphError E_ALGEBRA_LIMIT)) (\<lambda>_.
     let r = r\<lparr>qr_graph := own_graph ctx (qr_graph r)\<rparr> in
     rbind (case validate_schema_graph (qr_graph r) of [] \<Rightarrow> Ok () | e # _ \<Rightarrow> Err e) (\<lambda>_.
     rbind (preflight cd ctx r) (\<lambda>_. Ok r))))"

section \<open>The envelope of a result\<close>

definition with_influence_inputs :: "codec \<Rightarrow> query_result \<Rightarrow> query_result" where
  "with_influence_inputs cd r =
     (case gd_influence (qr_graph r) of
        None \<Rightarrow> r
      | Some i \<Rightarrow> if in_snapshots i = [] then r else r\<lparr>qr_inputs := unique_by cd json_snapshot (qr_inputs r @ in_snapshots i)\<rparr>)"

definition both_inputs :: "codec \<Rightarrow> query_result \<Rightarrow> query_result \<Rightarrow> query_result" where
  "both_inputs cd out r =
     out\<lparr>qr_context := (if qr_context out = qr_context r then qr_context out else None),
       qr_inputs := unique_by cd json_snapshot (qr_inputs out @ qr_inputs r),
       qr_provenance := unique_by cd json_assertion (qr_provenance out @ qr_provenance r),
       qr_metadata := unique_by cd json_resolved (qr_metadata out @ qr_metadata r),
       qr_diagnostics := unique_by cd json_diagnostic (qr_diagnostics out @ qr_diagnostics r),
       qr_coverage := (if qr_coverage r = Partial then Partial else qr_coverage out),
       qr_snapshots := foldl (\<lambda>m (g, v). if map_of m g = None then bm_insert g v m else m) (qr_snapshots out) (qr_snapshots r)\<rparr>"

definition optional_influence :: "codec \<Rightarrow> query_result option \<Rightarrow> influence option result" where
  "optional_influence cd r = (case r of None \<Rightarrow> Ok None | Some r \<Rightarrow> input_influence (cd_js cd) (qr_graph r))"

definition optional_typing :: "codec \<Rightarrow> query_result \<Rightarrow> query_result option \<Rightarrow> context_typing option result" where
  "optional_typing cd left right =
     (case right of
        None \<Rightarrow> Ok (gd_typing (qr_graph left))
      | Some r \<Rightarrow> typing_merge cd (gd_typing (qr_graph left)) (gd_typing (qr_graph r)))"

definition envelope :: "codec \<Rightarrow> query_result \<Rightarrow> query_result option \<Rightarrow> query_result result" where
  "envelope cd left right =
     rbind (merge_accepted (qr_accepted left) (case right of None \<Rightarrow> [] | Some r \<Rightarrow> qr_accepted r)) (\<lambda>accepted.
     rbind (merge_recorded (qr_recorded left) (case right of None \<Rightarrow> [] | Some r \<Rightarrow> qr_recorded r)) (\<lambda>recorded.
     rbind (merge_source_revisions (qr_sources left) (case right of None \<Rightarrow> [] | Some r \<Rightarrow> qr_sources r)) (\<lambda>sources.
     rbind (input_influence (cd_js cd) (qr_graph left)) (\<lambda>left_influence.
     rbind (optional_influence cd right) (\<lambda>right_influence.
     rbind (influence_merge (cd_js cd) left_influence right_influence) (\<lambda>merged.
     rbind (optional_typing cd left right) (\<lambda>typing.
     let out = left\<lparr>qr_accepted := accepted, qr_recorded := recorded, qr_sources := sources,
           qr_graph := no_graph\<lparr>gd_influence := merged, gd_typing := typing\<rparr>,
           qr_node_origins := [], qr_edge_origins := [], qr_attachment_origins := []\<rparr>;
         out = (case right of None \<Rightarrow> out | Some r \<Rightarrow> both_inputs cd out r) in
     Ok ((with_influence_inputs cd out)\<lparr>qr_version := contract_version\<rparr>))))))))"

section \<open>Schemas\<close>

definition type_prefix :: string where
  "type_prefix = ''weave:algebra:type:''"

definition type_key :: "codec \<Rightarrow> graph_schema \<Rightarrow> string \<Rightarrow> string" where
  "type_key cd s i =
     (if starts_with i type_prefix then i else type_prefix @ value_key cd (JArr [json_schema s, JStr i]))"

definition insert_type :: "(string, 'd) btree_map \<Rightarrow> string \<times> 'd \<Rightarrow> (string, 'd) btree_map result" where
  "insert_type m d =
     rbind (ensure (case map_of m (fst d) of None \<Rightarrow> True | Some old \<Rightarrow> old = snd d) (GraphError E_SCHEMA_COLLISION)) (\<lambda>_.
       Ok (bm_insert (fst d) (snd d) m))"

definition keyed_edge_type :: "codec \<Rightarrow> graph_schema \<Rightarrow> edge_schema \<Rightarrow> edge_schema" where
  "keyed_edge_type cd s d = d\<lparr>es_from := type_key cd s (es_from d), es_to := type_key cd s (es_to d)\<rparr>"

definition merge_types :: "codec \<Rightarrow> (string, node_schema) btree_map \<times> (string, edge_schema) btree_map \<Rightarrow> graph_schema
    \<Rightarrow> ((string, node_schema) btree_map \<times> (string, edge_schema) btree_map) result" where
  "merge_types cd m s =
     rbind (try_fold insert_type (fst m) (map (\<lambda>(k, d). (type_key cd s k, d)) (gs_nodes s))) (\<lambda>nodes.
     rbind (try_fold insert_type (snd m) (map (\<lambda>(k, d). (type_key cd s k, keyed_edge_type cd s d)) (gs_edges s))) (\<lambda>edges.
       Ok (nodes, edges)))"

definition merge_schema :: "codec \<Rightarrow> graph_schema option \<Rightarrow> graph_schema option \<Rightarrow> graph_schema option result" where
  "merge_schema cd a b =
     (case (a, b) of
        (None, None) \<Rightarrow> Ok None
      | (Some a, Some b) \<Rightarrow>
          if a = b then Ok (Some a)
          else
            rbind (try_fold (merge_types cd) ([], []) [a, b]) (\<lambda>(nodes, edges).
              Ok (Some \<lparr>gs_id = ''weave:algebra:schema:''
                  @ value_key cd (JArr [json_map json_node_schema nodes, json_map json_edge_schema edges]),
                gs_revision = ''1'', gs_nodes = nodes, gs_edges = edges\<rparr>))
      | _ \<Rightarrow> Err (GraphError E_SCHEMA_ALGEBRA))"

section \<open>Identity of members\<close>

definition lower_hex :: "char \<Rightarrow> bool" where
  "lower_hex c \<longleftrightarrow> is_digit c \<or> (let n = (of_char c :: nat) in 97 \<le> n \<and> n \<le> 102)"

definition derived_name :: "string \<Rightarrow> bool" where
  "derived_name i \<longleftrightarrow>
     starts_with i ''derived-node:'' \<and> (let suffix = drop (length ''derived-node:'') i in length suffix = 64 \<and> list_all lower_hex suffix)"

definition member_node_key :: "codec \<Rightarrow> query_result \<Rightarrow> value_node \<Rightarrow> string result" where
  "member_node_key cd input n =
     rbind (ok_or (map_of (qr_node_origins input) (nd_id n)) (GraphError E_ORIGIN_MISSING)) (\<lambda>origins.
       if origins = [] then
         Ok (if derived_name (nd_id n) then nd_id n
             else ''derived-node:'' @ value_key cd (JArr [JStr (nd_id n), JStr (nd_entity n), JStr (nd_space n), json_option json_context (nd_scope n)]))
       else
         Ok (''node:'' @ value_key cd (JArr [json_list json_node (unique_by cd json_node origins), JStr (nd_entity n), JStr (nd_space n),
           json_option json_context (nd_scope n)])))"

text \<open>An edge without origin or proof is identified by its meaning between grounded endpoints.\<close>

definition grounded :: "query_result \<Rightarrow> value_node \<Rightarrow> bool" where
  "grounded input n \<longleftrightarrow>
     nd_snapshots n \<noteq> [] \<or> nd_nodes n \<noteq> [] \<or> nd_premises n \<noteq> []
     \<or> (case map_of (qr_node_origins input) (nd_id n) of None \<Rightarrow> False | Some origins \<Rightarrow> origins \<noteq> [])"

definition endpoint_key :: "codec \<Rightarrow> query_result \<Rightarrow> string \<Rightarrow> string result" where
  "endpoint_key cd input i =
     rbind (ok_or (find (\<lambda>n. nd_id n = i) (gd_nodes (qr_graph input))) (GraphError E_ENDPOINT)) (\<lambda>n.
     rbind (ensure (grounded input n) (GraphError E_ORIGIN_MISSING)) (\<lambda>_. member_node_key cd input n))"

definition synthetic_key :: "codec \<Rightarrow> query_result \<Rightarrow> value_edge \<Rightarrow> string result" where
  "synthetic_key cd input e =
     rbind (endpoint_key cd input (ed_from e)) (\<lambda>x.
     rbind (endpoint_key cd input (ed_to e)) (\<lambda>y.
     let t = (case (gd_schema (qr_graph input), ed_type e) of (Some s, Some i) \<Rightarrow> Some (type_key cd s i) | (_, i) \<Rightarrow> i) in
     Ok (''synthetic-edge:'' @ snapshot_keyed cd
       (JArr [JArr [JStr x, JStr y, json_option JStr t, JStr (ed_predicate e), json_interval (ed_valid e), json_polarity (ed_polarity e)],
              JArr [JObj (ed_properties e), JObj (ed_claims e), json_option JStr (ed_source e), json_option json_snapshot (ed_context e),
                json_option json_structural (ed_structural e), json_list json_snapshot (ed_metadata e), json_list json_node (ed_nodes e)]])
       (ed_snapshots e))))"

definition member_edge_key :: "codec \<Rightarrow> query_result \<Rightarrow> value_edge \<Rightarrow> string result" where
  "member_edge_key cd input e =
     (let origins = map_of (qr_edge_origins input) (ed_id e) in
      if origins = Some [] \<and> ed_premises e = [] \<and> ed_derivations e = [] then synthetic_key cd input e
      else if ed_derivations e = [] then
        (case origins of
           Some (r # rs) \<Rightarrow>
             Ok (''edge:'' @ value_key cd (JArr [json_list json_assertion (unique_by cd json_assertion (r # rs)), json_interval (ed_valid e)]))
         | _ \<Rightarrow> Err (GraphError E_ORIGIN_MISSING))
      else
        Ok (''derived:'' @ snapshot_keyed cd
          (JArr [JStr (ed_predicate e), json_interval (ed_valid e), json_polarity (ed_polarity e), JObj (ed_properties e), JObj (ed_claims e),
            json_option JStr (ed_source e), json_option json_snapshot (ed_context e), json_option json_structural (ed_structural e),
            json_list json_derivation (ed_derivations e), json_list json_node (ed_nodes e)])
          (ed_snapshots e)))"

section \<open>Union\<close>

record union_state =
  un_nodes :: "(string, value_node) btree_map"
  un_edges :: "(string, value_edge) btree_map"
  un_attachments :: "(string, attachment) btree_map"
  un_node_origins :: "(string, node_ref list) btree_map"
  un_edge_origins :: "(string, assertion_ref list) btree_map"
  un_attachment_origins :: "(string, assertion_ref list) btree_map"
  un_budget :: algebra_budget

type_synonym renaming = "(string, string) btree_map"

definition remapped_type :: "codec \<Rightarrow> graph_schema option \<Rightarrow> string option \<Rightarrow> string option" where
  "remapped_type cd remap t = (case (remap, t) of (Some s, Some i) \<Rightarrow> Some (type_key cd s i) | _ \<Rightarrow> t)"

text \<open>A member under its key in the union: readable by the principal alone, its type renamed with its schema.\<close>

definition keyed_node :: "codec \<Rightarrow> algebra_context \<Rightarrow> graph_schema option \<Rightarrow> string \<Rightarrow> value_node \<Rightarrow> value_node" where
  "keyed_node cd ctx remap i n = (own_node ctx n)\<lparr>nd_id := i, nd_type := remapped_type cd remap (nd_type n)\<rparr>"

definition keyed_edge :: "codec \<Rightarrow> algebra_context \<Rightarrow> graph_schema option \<Rightarrow> string \<Rightarrow> string \<Rightarrow> string \<Rightarrow> value_edge \<Rightarrow> value_edge" where
  "keyed_edge cd ctx remap i x y e =
     (own_edge ctx e)\<lparr>ed_id := i, ed_from := x, ed_to := y, ed_type := remapped_type cd remap (ed_type e)\<rparr>"

definition edge_name :: "codec \<Rightarrow> string \<Rightarrow> string \<Rightarrow> string \<Rightarrow> string" where
  "edge_name cd base x y = ''edge:'' @ value_key cd (JArr [JStr base, JStr x, JStr y])"

definition union_node :: "codec \<Rightarrow> algebra_context \<Rightarrow> query_result \<Rightarrow> graph_schema option \<Rightarrow> union_state \<times> renaming \<Rightarrow> value_node
    \<Rightarrow> (union_state \<times> renaming) result" where
  "union_node cd ctx input remap acc n =
     (case acc of (s, ids) \<Rightarrow>
        rbind (member_node_key cd input n) (\<lambda>i.
        let ids = bm_insert (nd_id n) i ids; origins = bm_or_default [] (qr_node_origins input) (nd_id n);
            node = keyed_node cd ctx remap i n in
        case map_of (un_nodes s) i of
          Some old \<Rightarrow> if old \<noteq> node then Err (GraphError E_ORIGIN_CONFLICT) else Ok (s, ids)
        | None \<Rightarrow>
            rbind (budget_add cd (JArr [json_value_node node, json_list json_node origins]) (un_budget s)) (\<lambda>b.
              Ok (s\<lparr>un_nodes := bm_insert i node (un_nodes s), un_node_origins := bm_insert i origins (un_node_origins s), un_budget := b\<rparr>, ids))))"

definition union_edge :: "codec \<Rightarrow> algebra_context \<Rightarrow> query_result \<Rightarrow> graph_schema option \<Rightarrow> renaming \<Rightarrow> union_state \<times> renaming
    \<Rightarrow> value_edge \<Rightarrow> (union_state \<times> renaming) result" where
  "union_edge cd ctx input remap node_ids acc e =
     (case acc of (s, ids) \<Rightarrow>
        rbind (member_edge_key cd input e) (\<lambda>base.
        rbind (ok_or (map_of node_ids (ed_from e)) (GraphError E_ENDPOINT)) (\<lambda>x.
        rbind (ok_or (map_of node_ids (ed_to e)) (GraphError E_ENDPOINT)) (\<lambda>y.
        let i = edge_name cd base x y; ids = bm_insert (ed_id e) i ids; edge = keyed_edge cd ctx remap i x y e in
        case map_of (un_edges s) i of
          Some old \<Rightarrow> if old \<noteq> edge then Err (GraphError E_ORIGIN_CONFLICT) else Ok (s, ids)
        | None \<Rightarrow>
            let origins = bm_or_default [] (qr_edge_origins input) (ed_id e) in
            rbind (budget_add cd (JArr [json_value_edge edge, json_list json_assertion origins]) (un_budget s)) (\<lambda>b.
              Ok (s\<lparr>un_edges := bm_insert i edge (un_edges s), un_edge_origins := bm_insert i origins (un_edge_origins s), un_budget := b\<rparr>, ids))))))"

definition renamed_host :: "renaming \<Rightarrow> renaming \<Rightarrow> value_host \<Rightarrow> value_host result" where
  "renamed_host node_ids edge_ids h =
     (case h of
        NodeHost i \<Rightarrow> rbind (ok_or (map_of node_ids i) (GraphError E_ATTACHMENT_HOST)) (\<lambda>j. Ok (NodeHost j))
      | AssertionHost i \<Rightarrow> rbind (ok_or (map_of edge_ids i) (GraphError E_ATTACHMENT_HOST)) (\<lambda>j. Ok (AssertionHost j))
      | EdgeHost i \<Rightarrow> rbind (ok_or (map_of edge_ids i) (GraphError E_ATTACHMENT_HOST)) (\<lambda>j. Ok (EdgeHost j))
      | _ \<Rightarrow> Ok h)"

definition union_attachment :: "codec \<Rightarrow> algebra_context \<Rightarrow> query_result \<Rightarrow> renaming \<Rightarrow> renaming \<Rightarrow> union_state \<Rightarrow> attachment
    \<Rightarrow> union_state result" where
  "union_attachment cd ctx input node_ids edge_ids s a =
     rbind (renamed_host node_ids edge_ids (am_host a)) (\<lambda>h.
     let origins = bm_or_default [] (qr_attachment_origins input) (am_id a); blank_id = (own_attachment ctx a)\<lparr>am_host := h, am_id := []\<rparr>;
         i = ''attachment:'' @ value_key cd (JArr [json_attachment blank_id, json_list json_assertion origins]); new = blank_id\<lparr>am_id := i\<rparr> in
     if map_of (un_attachments s) i \<noteq> None then Ok s
     else
       rbind (budget_add cd (JArr [json_attachment new, json_list json_assertion origins]) (un_budget s)) (\<lambda>b.
         Ok (s\<lparr>un_attachments := bm_insert i new (un_attachments s), un_attachment_origins := bm_insert i origins (un_attachment_origins s),
           un_budget := b\<rparr>)))"

definition union_input :: "codec \<Rightarrow> algebra_context \<Rightarrow> graph_schema option \<Rightarrow> union_state \<Rightarrow> query_result \<Rightarrow> union_state result" where
  "union_input cd ctx schema s input =
     (let g = qr_graph input; remap = (if gd_schema g = schema then None else gd_schema g) in
      rbind (try_fold (union_node cd ctx input remap) (s, []) (gd_nodes g)) (\<lambda>(s, node_ids).
      rbind (try_fold (union_edge cd ctx input remap node_ids) (s, []) (gd_edges g)) (\<lambda>(s, edge_ids).
        try_fold (union_attachment cd ctx input node_ids edge_ids) s (gd_attachments g))))"

definition value_union :: "codec \<Rightarrow> algebra_context \<Rightarrow> query_result \<Rightarrow> query_result \<Rightarrow> query_result result" where
  "value_union cd ctx left right =
     rbind (preflight cd ctx left) (\<lambda>_.
     rbind (preflight cd ctx right) (\<lambda>_.
     rbind (envelope cd left (Some right)) (\<lambda>out.
     rbind (merge_schema cd (gd_schema (qr_graph left)) (gd_schema (qr_graph right))) (\<lambda>schema.
     rbind (try_fold (union_input cd ctx schema)
       \<lparr>un_nodes = [], un_edges = [], un_attachments = [], un_node_origins = [], un_edge_origins = [], un_attachment_origins = [],
        un_budget = algebra_budget_new ctx\<rparr> [left, right]) (\<lambda>s.
       checked_result cd ctx (out\<lparr>
         qr_graph := (qr_graph out)\<lparr>gd_schema := schema, gd_nodes := map snd (un_nodes s), gd_edges := map snd (un_edges s),
           gd_attachments := map snd (un_attachments s)\<rparr>,
         qr_node_origins := un_node_origins s, qr_edge_origins := un_edge_origins s, qr_attachment_origins := un_attachment_origins s\<rparr>))))))"

section \<open>Projection\<close>

definition host_kept :: "string list \<Rightarrow> string list \<Rightarrow> string list \<Rightarrow> value_host \<Rightarrow> bool" where
  "host_kept ns es entities h \<longleftrightarrow>
     (case h of
        GraphHost \<Rightarrow> True | NodeHost i \<Rightarrow> i \<in> set ns | EdgeHost i \<Rightarrow> i \<in> set es | AssertionHost i \<Rightarrow> i \<in> set es
      | EntityHost i \<Rightarrow> i \<in> set entities)"

definition project :: "codec \<Rightarrow> algebra_context \<Rightarrow> query_result \<Rightarrow> string list \<Rightarrow> string list \<Rightarrow> query_result result" where
  "project cd ctx input node_ids edge_ids =
     rbind (preflight cd ctx input) (\<lambda>_.
     rbind (input_influence (cd_js cd) (qr_graph input)) (\<lambda>i.
     let out = with_influence_inputs cd (input\<lparr>qr_graph := (qr_graph input)\<lparr>gd_influence := i\<rparr>\<rparr>); g = qr_graph out in
     rbind (ensure (list_all (\<lambda>i. i \<in> set (map nd_id (gd_nodes g))) node_ids \<and> list_all (\<lambda>i. i \<in> set (map ed_id (gd_edges g))) edge_ids)
       (GraphError E_PROJECT_MEMBER)) (\<lambda>_.
     let edges = filter (\<lambda>e. ed_id e \<in> set edge_ids) (gd_edges g);
         ns = node_ids @ concat (map (\<lambda>e. [ed_from e, ed_to e]) edges);
         nodes = filter (\<lambda>n. nd_id n \<in> set ns) (gd_nodes g);
         attachments = filter (\<lambda>a. host_kept ns edge_ids (map nd_entity nodes) (am_host a)) (gd_attachments g) in
     checked_result cd ctx (out\<lparr>
       qr_graph := g\<lparr>gd_edges := edges, gd_nodes := nodes, gd_attachments := attachments\<rparr>,
       qr_node_origins := filter (\<lambda>kv. fst kv \<in> set ns) (qr_node_origins out),
       qr_edge_origins := filter (\<lambda>kv. fst kv \<in> set edge_ids) (qr_edge_origins out),
       qr_attachment_origins := filter (\<lambda>kv. fst kv \<in> set (map am_id attachments)) (qr_attachment_origins out)\<rparr>))))"

section \<open>Selection of a context\<close>

definition context_select :: "codec \<Rightarrow> algebra_context \<Rightarrow> query_result \<Rightarrow> context_selection \<Rightarrow> query_result result" where
  "context_select cd ctx input selection =
     rbind (preflight cd ctx input) (\<lambda>_.
     rbind (validate_selection selection) (\<lambda>_.
     rbind (ensure (qr_context input = None \<or> qr_context input = Some selection) E_CONTEXT_SCOPE) (\<lambda>_.
     let g = qr_graph input; c = reference selection;
         edge_ids = map ed_id (filter (\<lambda>e. ed_context e = c) (gd_edges g));
         node_ids = map nd_id (filter (\<lambda>n. nd_scope n = None \<or> nd_scope n = Some selection) (gd_nodes g)) in
     rbind (ensure (\<not> list_ex (\<lambda>e. ed_id e \<in> set edge_ids \<and> (ed_from e \<notin> set node_ids \<or> ed_to e \<notin> set node_ids)) (gd_edges g)) E_CONTEXT_SCOPE) (\<lambda>_.
     rbind (project cd ctx input node_ids edge_ids) (\<lambda>out.
     let attachments = filter (\<lambda>a. am_context a = c) (gd_attachments (qr_graph out));
         typing = map_option (\<lambda>t. if ct_selected t \<noteq> c then t\<lparr>ct_selected := None\<rparr> else t) (gd_typing (qr_graph out));
         out = out\<lparr>qr_graph := (qr_graph out)\<lparr>gd_attachments := attachments, gd_typing := typing\<rparr>,
           qr_attachment_origins := filter (\<lambda>kv. fst kv \<in> set (map am_id attachments)) (qr_attachment_origins out),
           qr_context := Some selection\<rparr> in
     rbind (preflight cd ctx out) (\<lambda>_. Ok out))))))"

end
