(* ===== verification/Influence_Theorems.thy ===== *)
theory Influence_Theorems
  imports Value_Influence Carrier_Theorems
begin

text \<open>
  What the walks over a graph value mean for a reader: the restriction a value leaves when its records
  are dropped, and that protecting a generated record adds exactly the value's restriction to it.
\<close>

declare split_paired_All [simp del] split_paired_Ex [simp del]

section \<open>Restrictions of records\<close>

definition parts_carrier :: "assertion_ref list \<Rightarrow> node_ref list \<Rightarrow> graph_ref list \<Rightarrow> derivation list \<Rightarrow> carrier" where
  "parts_carrier as ns ss gs = \<lparr>ca_flat = \<lparr>rs_assertions = as, rs_nodes = ns, rs_snapshots = ss\<rparr>, ca_alternatives = gs\<rparr>"

definition node_granted :: "grants \<Rightarrow> value_node \<Rightarrow> bool" where
  "node_granted V n \<longleftrightarrow> carrier_granted V (parts_carrier (nd_premises n) (nd_nodes n) (nd_snapshots n) (nd_derivations n))"

text \<open>The assertions of an edge with alternatives are an index of its groups.\<close>

definition edge_granted :: "grants \<Rightarrow> value_edge \<Rightarrow> bool" where
  "edge_granted V e \<longleftrightarrow>
     carrier_granted V (parts_carrier (if ed_derivations e = [] then ed_premises e else []) (ed_nodes e) (ed_snapshots e) (ed_derivations e))"

definition attachment_granted :: "grants \<Rightarrow> attachment \<Rightarrow> bool" where
  "attachment_granted V a \<longleftrightarrow> carrier_granted V (parts_carrier (am_premises a) (am_nodes a) (am_snapshots a) (am_derivations a))"

lemmas granted_defs = node_granted_def edge_granted_def attachment_granted_def

lemma influence_granted_Some:
  "influence_granted V (Some i) \<longleftrightarrow> carrier_granted V (parts_carrier (in_assertions i) (in_nodes i) (in_snapshots i) (in_derivations i))"
  by (simp add: influence_granted_def parts_carrier_def)

lemma influence_granted_None [simp]: "influence_granted V None"
  by (simp add: influence_granted_def)

lemma parts_granted:
  "carrier_granted (A, N, S) (parts_carrier as ns ss gs) \<longleftrightarrow>
     set as \<subseteq> A \<and> set ns \<subseteq> N \<and> set ss \<subseteq> S \<and> (gs = [] \<or> (\<exists>g \<in> set gs. group_granted (A, N, S) g))"
  by (auto simp: carrier_granted_def parts_carrier_def)

section \<open>Collected references\<close>

lemma collect_ref_Ok:
  assumes "inj key" and "try_fold (collect_ref key others) m rs = Ok m'" and "\<forall>(k, r) \<in> set m. k = key r" and "bm_ok m"
  shows "snd ` set m' = snd ` set m \<union> set rs \<and> (\<forall>(k, r) \<in> set m'. k = key r) \<and> bm_ok m'"
  using assms(2-)
proof (induction rs arbitrary: m)
  case (Cons r rs)
  let ?m = "bm_insert (key r) r m"
  have entries: "set ?m = insert (key r, r) (set m)"
  proof -
    have "p \<in> set ?m \<longleftrightarrow> p \<in> insert (key r, r) (set m)" for p
    proof (cases p)
      case (Pair k v)
      have "map_of m (key r) = Some w \<Longrightarrow> w = r" for w
        using Cons.prems(2) assms(1) by (fastforce dest!: map_of_SomeD dest: injD)
      then show ?thesis unfolding Pair bm_ok_map_of [OF bm_ok_insert [OF Cons.prems(3)]] insert_iff bm_ok_map_of [OF Cons.prems(3)]
        by auto
    qed
    then show ?thesis by blast
  qed
  have rest: "try_fold (collect_ref key others) ?m rs = Ok m'" 
  proof -
    obtain m1 where "collect_ref key others m r = Ok m1" "try_fold (collect_ref key others) m1 rs = Ok m'" using Cons.prems(1) by auto
    then show ?thesis by (simp add: collect_ref_def Let_def)
  qed
  have keys: "\<forall>(k, r) \<in> set ?m. k = key r" unfolding entries using Cons.prems(2) by simp
  show ?case using Cons.IH [OF rest keys bm_ok_insert [OF Cons.prems(3)]] unfolding entries by simp
qed simp

lemma collect_all_Ok: "inj key \<Longrightarrow> try_fold (collect_ref key others) [] rs = Ok m \<Longrightarrow> snd ` set m = set rs"
  using collect_ref_Ok [of key others "[]" rs m] by simp

section \<open>Protection\<close>

lemma gate_node_granted:
  assumes "in_derivations i = []" and "nd_derivations n = []"
  shows "node_granted V (gate_node i n) \<longleftrightarrow> node_granted V n \<and> influence_granted V (Some i)"
  using assms by (cases V) (auto simp: node_granted_def gate_node_def influence_granted_Some parts_granted)

lemma gate_attachment_granted:
  assumes "in_derivations i = []" and "am_derivations a = []"
  shows "attachment_granted V (gate_attachment i a) \<longleftrightarrow> attachment_granted V a \<and> influence_granted V (Some i)"
  using assms by (cases V) (auto simp: attachment_granted_def gate_attachment_def influence_granted_Some parts_granted)

lemma gate_edge_granted:
  assumes "in_derivations i = []" and "\<forall>g \<in> set (ed_derivations e). dv_snapshots g = []"
  shows "edge_granted V (gate_edge i e) \<longleftrightarrow> edge_granted V e \<and> influence_granted V (Some i)"
proof -
  obtain A N S where V: "V = (A, N, S)" by (metis prod_cases3)
  have g: "group_granted (A, N, S) (gate_group i g) \<longleftrightarrow> group_granted (A, N, S) g \<and> set (in_assertions i) \<subseteq> A \<and> set (in_nodes i) \<subseteq> N" for g
    by (auto simp: gate_group_def Let_def group_set_def)
  show ?thesis unfolding V edge_granted_def influence_granted_Some parts_granted using assms
    by (auto simp: gate_edge_def g simp del: refs_granted.simps)
qed

lemma protected_part_Ok:
  assumes "inj js" and "protected_part js envelope as ns ss gs b = Ok (c, b')"
  shows "carrier_granted V c \<longleftrightarrow> carrier_granted V (parts_carrier as ns ss gs) \<and> carrier_granted V envelope"
proof -
  obtain x b1 where x: "from_parts js as ns ss gs b = Ok (x, b1)" "conjunction js x envelope b1 = Ok (c, b')"
    using assms(2) by (auto simp: protected_part_def)
  have "x = parts_carrier as ns ss gs" using x(1) by (auto simp: from_parts_def Let_def parts_carrier_def)
  then show ?thesis using conjunct1 [OF conjunction_Ok [OF assms(1) x(2)]] by simp
qed

lemma set_edge_granted:
  "edge_granted (A, N, S) (set_edge e i) \<longleftrightarrow>
     (if in_derivations i = [] then set (in_assertions i) \<subseteq> A else \<exists>g \<in> set (in_derivations i). group_granted (A, N, S) g)
     \<and> set (in_nodes i) \<subseteq> N \<and> set (in_snapshots i) \<subseteq> S"
  by (auto simp: edge_granted_def parts_granted set_edge_def assertion_index_def)

lemma carrier_granted_split:
  "carrier_granted (A, N, S) c \<longleftrightarrow> set (rs_assertions (ca_flat c)) \<subseteq> A \<and> set (rs_nodes (ca_flat c)) \<subseteq> N
     \<and> set (rs_snapshots (ca_flat c)) \<subseteq> S \<and> (ca_alternatives c = [] \<or> (\<exists>g \<in> set (ca_alternatives c). group_granted (A, N, S) g))"
  by (auto simp: carrier_granted_def)

lemma protected_edge_Ok:
  assumes "inj js" and run: "protected_edge js envelope s e = Ok s'"
  shows "\<exists>i. fst s' = fst s @ [i] \<and> (\<forall>V. edge_granted V (set_edge e i) \<longleftrightarrow> edge_granted V e \<and> carrier_granted V envelope)"
proof -
  let ?as = "if ed_derivations e = [] then ed_premises e else []"
  let ?moved = "\<lambda>c. ca_alternatives c \<noteq> [] \<and> (rs_assertions (ca_flat c) \<noteq> [] \<or> rs_nodes (ca_flat c) \<noteq> [] \<or> rs_snapshots (ca_flat c) \<noteq> [])"
  obtain c b where c: "protected_part js envelope ?as (ed_nodes e) (ed_snapshots e) (ed_derivations e) (snd s) = Ok (c, b)"
    using run by (auto simp: protected_edge_def)
  have own: "carrier_granted V c \<longleftrightarrow> edge_granted V e \<and> carrier_granted V envelope" for V
    unfolding edge_granted_def by (rule protected_part_Ok [OF assms(1) c])
  show ?thesis
  proof (cases "?moved c")
    case False
    then have "fst s' = fst s @ [into_influence c]" using run c by (auto simp: protected_edge_def)
    moreover have "edge_granted V (set_edge e (into_influence c)) \<longleftrightarrow> carrier_granted V c" for V
      using False by (cases V) (auto simp: set_edge_granted carrier_granted_split into_influence_def)
    ultimately show ?thesis using own by blast
  next
    case True
    let ?branch = "\<lparr>ca_flat = no_refs, ca_alternatives = ca_alternatives c\<rparr>" and ?flat = "\<lparr>ca_flat = ca_flat c, ca_alternatives = []\<rparr>"
    obtain d b' where d: "distribute js ?branch ?flat b = Ok (d, b')"
      and s': "fst s' = fst s @ [into_influence (d\<lparr>ca_flat := (ca_flat d)\<lparr>rs_nodes := rs_nodes (ca_flat c), rs_snapshots := rs_snapshots (ca_flat c)\<rparr>\<rparr>)]"
      using run c True by (auto simp: protected_edge_def Let_def)
    have all: "\<forall>V. carrier_granted V d \<longleftrightarrow> carrier_granted V ?branch \<and> carrier_granted V ?flat" and flat: "ca_flat d = no_refs"
      using distribute_Ok [OF assms(1) d] by simp_all
    have dc: "carrier_granted (A, N, S) d \<longleftrightarrow> carrier_granted (A, N, S) c" for A N S
      unfolding all [rule_format] by (auto simp: carrier_granted_split no_refs_def)
    have some: "ca_alternatives d \<noteq> []"
    proof
      assume "ca_alternatives d = []"
      then have "carrier_granted ({}, {}, {}) d" by (simp add: carrier_granted_split flat no_refs_def)
      then show False using True unfolding dc by (auto simp: carrier_granted_split)
    qed
    have "edge_granted V (set_edge e (into_influence (d\<lparr>ca_flat := (ca_flat d)\<lparr>rs_nodes := rs_nodes (ca_flat c), rs_snapshots := rs_snapshots (ca_flat c)\<rparr>\<rparr>)))
        \<longleftrightarrow> carrier_granted V c" for V
    proof -
      obtain A N S where V: "V = (A, N, S)" by (metis prod_cases3)
      have "carrier_granted V d \<longleftrightarrow> (\<exists>g \<in> set (ca_alternatives d). group_granted V g)"
        unfolding V using some by (simp add: carrier_granted_split flat no_refs_def)
      moreover have "carrier_granted V c \<Longrightarrow> set (rs_nodes (ca_flat c)) \<subseteq> N \<and> set (rs_snapshots (ca_flat c)) \<subseteq> S"
        unfolding V by (simp add: carrier_granted_split)
      ultimately show ?thesis using some dc [of A N S] unfolding V by (auto simp: set_edge_granted into_influence_def)
    qed
    then show ?thesis using own s' by blast
  qed
qed

lemma into_parts: "parts_carrier (in_assertions (into_influence c)) (in_nodes (into_influence c)) (in_snapshots (into_influence c))
    (in_derivations (into_influence c)) = c"
  by (cases c) (simp add: parts_carrier_def into_influence_def refs_eta)

text \<open>A record without its references.\<close>

definition bare_node :: "value_node \<Rightarrow> value_node" where
  "bare_node n = n\<lparr>nd_premises := [], nd_nodes := [], nd_snapshots := [], nd_derivations := []\<rparr>"

definition bare_edge :: "value_edge \<Rightarrow> value_edge" where
  "bare_edge e = e\<lparr>ed_premises := [], ed_nodes := [], ed_snapshots := [], ed_derivations := []\<rparr>"

definition bare_attachment :: "attachment \<Rightarrow> attachment" where
  "bare_attachment a = a\<lparr>am_premises := [], am_nodes := [], am_snapshots := [], am_derivations := []\<rparr>"

lemma bare_kept [simp]:
  "bare_node (gate_node i n) = bare_node n" "bare_edge (gate_edge i e) = bare_edge e"
  "bare_attachment (gate_attachment i a) = bare_attachment a" "bare_node (set_node n i) = bare_node n"
  "bare_edge (set_edge e i) = bare_edge e" "bare_attachment (set_attachment a i) = bare_attachment a"
  by (simp_all add: gate_node_def gate_edge_def gate_attachment_def set_node_def set_edge_def set_attachment_def
      bare_node_def bare_edge_def bare_attachment_def)

lemma protected_node_Ok:
  assumes "inj js" and run: "protected_node js envelope s n = Ok s'"
  shows "\<exists>i. fst s' = fst s @ [i] \<and> (\<forall>V. node_granted V (set_node n i) \<longleftrightarrow> node_granted V n \<and> carrier_granted V envelope)"
proof -
  obtain c b where c: "protected_part js envelope (nd_premises n) (nd_nodes n) (nd_snapshots n) (nd_derivations n) (snd s) = Ok (c, b)"
    and s': "fst s' = fst s @ [into_influence c]" using run by (auto simp: protected_node_def)
  have "node_granted V (set_node n (into_influence c)) \<longleftrightarrow> node_granted V n \<and> carrier_granted V envelope" for V
    using protected_part_Ok [OF assms(1) c] by (simp add: node_granted_def set_node_def into_parts)
  then show ?thesis using s' by blast
qed

lemma protected_attachment_Ok:
  assumes "inj js" and run: "protected_attachment js envelope s a = Ok s'"
  shows "\<exists>i. fst s' = fst s @ [i] \<and>
    (\<forall>V. attachment_granted V (set_attachment a i) \<longleftrightarrow> attachment_granted V a \<and> carrier_granted V envelope)"
proof -
  obtain c b where c: "protected_part js envelope (am_premises a) (am_nodes a) (am_snapshots a) (am_derivations a) (snd s) = Ok (c, b)"
    and s': "fst s' = fst s @ [into_influence c]" using run by (auto simp: protected_attachment_def)
  have "attachment_granted V (set_attachment a (into_influence c)) \<longleftrightarrow> attachment_granted V a \<and> carrier_granted V envelope" for V
    using protected_part_Ok [OF assms(1) c] by (simp add: attachment_granted_def set_attachment_def into_parts)
  then show ?thesis using s' by blast
qed

text \<open>A fold that collects one restriction per record.\<close>

lemma protected_all_Ok:
  assumes step: "\<And>s x s'. step s x = Ok s' \<Longrightarrow> \<exists>i. fst s' = fst s @ [i] \<and> P x i"
    and "try_fold step s xs = Ok s'"
  shows "\<exists>ys. fst s' = fst s @ ys \<and> list_all2 P xs ys"
  using assms(2)
proof (induction xs arbitrary: s)
  case (Cons x xs)
  then obtain s1 where s1: "step s x = Ok s1" "try_fold step s1 xs = Ok s'" by auto
  then show ?case using step [OF s1(1)] Cons.IH [OF s1(2)] by fastforce
qed simp

lemma list_all2_map2:
  assumes "list_all2 P xs ys" and "\<And>x i. x \<in> set xs \<Longrightarrow> P x i \<Longrightarrow> Q x (f x i)"
  shows "list_all2 Q xs (map2 f xs ys)"
  using assms by (induction rule: list_all2_induct) auto

lemma list_all2_map_same: "(\<And>x. x \<in> set xs \<Longrightarrow> Q x (f x)) \<Longrightarrow> list_all2 Q xs (map f xs)"
  by (induction xs) auto

text \<open>One record of a result before and after the protection.\<close>

definition protects :: "influence option \<Rightarrow> (grants \<Rightarrow> 'r \<Rightarrow> bool) \<Rightarrow> ('r \<Rightarrow> 'r) \<Rightarrow> 'r \<Rightarrow> 'r \<Rightarrow> bool" where
  "protects i granted bare x x' \<longleftrightarrow> bare x' = bare x \<and> (\<forall>V. granted V x' \<longleftrightarrow> granted V x \<and> influence_granted V i)"

definition graph_protected :: "influence option \<Rightarrow> graph_data \<Rightarrow> graph_data \<Rightarrow> bool" where
  "graph_protected i g g' \<longleftrightarrow>
     list_all2 (protects i node_granted bare_node) (gd_nodes g) (gd_nodes g')
     \<and> list_all2 (protects i edge_granted bare_edge) (gd_edges g) (gd_edges g')
     \<and> list_all2 (protects i attachment_granted bare_attachment) (gd_attachments g) (gd_attachments g')
     \<and> gd_influence g' = gd_influence g \<and> gd_schema g' = gd_schema g \<and> gd_typing g' = gd_typing g"

lemma protect_flat_Ok:
  assumes "protect_flat js i limit r = Ok r'" and "\<not> requires_v019 (qr_graph r)" and "gd_influence (qr_graph r) = Some i"
  shows "graph_protected (Some i) (qr_graph r) (qr_graph r')"
proof -
  let ?g = "qr_graph r"
  have flat: "in_derivations i = []" "\<forall>n \<in> set (gd_nodes ?g). nd_derivations n = []" "\<forall>a \<in> set (gd_attachments ?g). am_derivations a = []"
    "\<forall>e \<in> set (gd_edges ?g). \<forall>d \<in> set (ed_derivations e). dv_snapshots d = []"
    using assms(2,3) by (auto simp: requires_v019_def list_ex_iff option_list_def)
  have "gd_nodes (qr_graph r') = map (gate_node i) (gd_nodes ?g) \<and> gd_edges (qr_graph r') = map (gate_edge i) (gd_edges ?g)
      \<and> gd_attachments (qr_graph r') = map (gate_attachment i) (gd_attachments ?g)
      \<and> gd_influence (qr_graph r') = gd_influence ?g \<and> gd_schema (qr_graph r') = gd_schema ?g \<and> gd_typing (qr_graph r') = gd_typing ?g"
    using assms(1) by (auto simp: protect_flat_def Let_def)
  then show ?thesis
    using flat by (auto simp: graph_protected_def protects_def gate_node_granted gate_edge_granted gate_attachment_granted
        intro!: list_all2_map_same
        simp del: refs_granted.simps)
qed

lemma protect_alternatives_Ok:
  assumes "inj js" and run: "protect_alternatives js i limit r = Ok r'"
  shows "graph_protected (Some i) (qr_graph r) (qr_graph r')"
proof -
  let ?g = "qr_graph r"
  obtain n envelope b ns b1 es b2 as b3 where
      env: "from_influence js i (budget_new (default_limits\<lparr>cl_bytes := n\<rparr>)) = Ok (envelope, b)"
    and folds: "try_fold (protected_node js envelope) ([], b) (gd_nodes ?g) = Ok (ns, b1)"
      "try_fold (protected_edge js envelope) ([], b1) (gd_edges ?g) = Ok (es, b2)"
      "try_fold (protected_attachment js envelope) ([], b2) (gd_attachments ?g) = Ok (as, b3)"
    and out: "gd_nodes (qr_graph r') = map2 set_node (gd_nodes ?g) ns" "gd_edges (qr_graph r') = map2 set_edge (gd_edges ?g) es"
      "gd_attachments (qr_graph r') = map2 set_attachment (gd_attachments ?g) as" "gd_influence (qr_graph r') = gd_influence ?g"
      "gd_schema (qr_graph r') = gd_schema ?g" "gd_typing (qr_graph r') = gd_typing ?g"
    using run by (auto simp: protect_alternatives_def Let_def)
  have e: "carrier_granted V envelope \<longleftrightarrow> influence_granted V (Some i)" for V using from_influence_Ok [OF env] by blast
  have "list_all2 (\<lambda>n i'. protects (Some i) node_granted bare_node n (set_node n i')) (gd_nodes ?g) ns"
    using protected_all_Ok [where P = "\<lambda>n i'. protects (Some i) node_granted bare_node n (set_node n i')", OF _ folds(1)]
      protected_node_Ok [OF assms(1), where envelope = envelope, unfolded e] by (simp add: protects_def)
  moreover have "list_all2 (\<lambda>x i'. protects (Some i) edge_granted bare_edge x (set_edge x i')) (gd_edges ?g) es"
    using protected_all_Ok [where P = "\<lambda>x i'. protects (Some i) edge_granted bare_edge x (set_edge x i')", OF _ folds(2)]
      protected_edge_Ok [OF assms(1), where envelope = envelope, unfolded e] by (simp add: protects_def)
  moreover have "list_all2 (\<lambda>a i'. protects (Some i) attachment_granted bare_attachment a (set_attachment a i')) (gd_attachments ?g) as"
    using protected_all_Ok [where P = "\<lambda>a i'. protects (Some i) attachment_granted bare_attachment a (set_attachment a i')", OF _ folds(3)]
      protected_attachment_Ok [OF assms(1), where envelope = envelope, unfolded e] by (simp add: protects_def)
  ultimately show ?thesis unfolding graph_protected_def out by (auto intro: list_all2_map2)
qed

lemma input_influence_Ok:
  assumes "input_influence js g = Ok r"
  shows "influence_granted (A, N, S) r \<longleftrightarrow>
     influence_granted (A, N, S) (gd_influence g) \<and> set (declared_snapshots g) \<subseteq> S
     \<and> (\<forall>a \<in> set (gd_attachments g). set (am_premises a) \<subseteq> A \<and> set (am_nodes a) \<subseteq> N)"
proof -
  let ?own = "option_list (gd_influence g)"
  obtain ss as ns where ss: "collect_declared_snapshots js g = Ok ss"
    and as: "try_fold (collect_ref assertion_key (length ss)) [] (concat (map in_assertions ?own @ map am_premises (gd_attachments g))) = Ok as"
    and ns: "try_fold (collect_ref node_key (length as + length ss)) [] (concat (map in_nodes ?own @ map am_nodes (gd_attachments g))) = Ok ns"
    and r: "r = (if gd_influence g = None \<and> as = [] \<and> ns = [] \<and> ss = [] then None
      else Some \<lparr>in_derivations = concat (map in_derivations ?own), in_assertions = map snd as, in_nodes = map snd ns, in_snapshots = ss\<rparr>)"
    using assms by (auto simp: input_influence_def Let_def split: if_splits)
  obtain m where "try_fold (collect_ref snapshot_key 0) [] (declared_snapshots g) = Ok m" "ss = map snd m"
    using ss by (auto simp: collect_declared_snapshots_def)
  then have snaps: "set ss = set (declared_snapshots g)" using collect_all_Ok [OF keys_inj(3)] by simp
  note sets = collect_all_Ok [OF keys_inj(1) as] collect_all_Ok [OF keys_inj(2) ns]
  have own: "set (in_snapshots i) \<subseteq> set (declared_snapshots g)" if "gd_influence g = Some i" for i
    using that by (auto simp: declared_snapshots_def option_list_def)
  show ?thesis
  proof (cases "gd_influence g")
    case None
    then show ?thesis using sets snaps by (auto simp: r option_list_def influence_granted_Some parts_granted)
  next
    case (Some i)
    then show ?thesis using sets snaps own by (auto simp: r option_list_def influence_granted_Some parts_granted simp del: refs_granted.simps)
  qed
qed

section \<open>Properties\<close>

lemma protect_generated_Ok:
  assumes "inj js" and "protect_generated_result js limit r = Ok r'"
  shows "graph_protected (gd_influence (qr_graph r)) (qr_graph r) (qr_graph r')"
proof (cases "gd_influence (qr_graph r)")
  case None
  then have "r' = r" using assms(2) by (auto simp: protect_generated_result_def Let_def split: if_splits)
  then show ?thesis unfolding None by (simp add: graph_protected_def protects_def list.rel_refl)
next
  case (Some i)
  then have "(if requires_v019 (qr_graph r) then protect_alternatives js i limit r else protect_flat js i limit r) = Ok r'"
    using assms(2) by (auto simp: protect_generated_result_def Let_def split: if_splits)
  then show ?thesis unfolding Some using protect_flat_Ok [OF _ _ Some] protect_alternatives_Ok [OF assms(1)] by (auto split: if_splits)
qed

text \<open> C31: Protecting a generated result. Every record keeps its place and all but its references, and a reader
  passes it exactly when they passed it before and pass the restriction of the whole value, whether the
  restrictions are flat or alternatives.
\<close>

theorem protection_exact:
  assumes "inj js" and "protect_generated_result js limit r = Ok r'"
  shows "graph_protected (gd_influence (qr_graph r)) (qr_graph r) (qr_graph r')"
  by (rule protect_generated_Ok [OF assms])


end
