(* ===== verification/Value_Examples.thy ===== *)
theory Value_Examples
  imports Influence_Theorems
begin

text \<open>A small graph value: two nodes and an edge under the restriction of the whole value.\<close>

definition value_ref :: graph_ref where
  "value_ref = \<lparr>gr_graph = ''g'', gr_revision = ''r''\<rparr>"

definition value_origin :: "string \<Rightarrow> assertion_ref" where
  "value_origin a = \<lparr>ar_graph = ''g'', ar_revision = ''r'', ar_assertion = a\<rparr>"

definition value_node_at :: "string \<Rightarrow> value_node" where
  "value_node_at n = \<lparr>nd_derivations = [], nd_snapshots = [], nd_nodes = [], nd_premises = [], nd_scope = None, nd_type = None,
     nd_id = n, nd_entity = n, nd_space = ''s'', nd_valid = None, nd_provenance = None, nd_properties = [], nd_metadata = [],
     nd_readers = [], nd_groups = []\<rparr>"

definition value_edge_at :: "string \<Rightarrow> string \<Rightarrow> string \<Rightarrow> value_edge" where
  "value_edge_at e x y = \<lparr>ed_snapshots = [], ed_nodes = [], ed_source = None, ed_context = None, ed_structural = None, ed_claims = [],
     ed_type = None, ed_id = e, ed_predicate = ''p'', ed_from = x, ed_to = y, ed_valid = \<lparr>iv_start = 0, iv_end = None\<rparr>,
     ed_provenance = None, ed_polarity = Positive, ed_properties = [], ed_metadata = [], ed_readers = [], ed_groups = [],
     ed_premises = [], ed_derivations = []\<rparr>"

definition value_graph :: graph_data where
  "value_graph = no_graph\<lparr>gd_influence := Some (demo_influence ''c''), gd_nodes := [value_node_at ''a'', value_node_at ''b''],
     gd_edges := [value_edge_at ''e'' ''a'' ''b'']\<rparr>"

definition value_result :: query_result where
  "value_result = \<lparr>qr_recorded = [], qr_accepted = [], qr_context = None, qr_sources = [], qr_version = contract_version,
     qr_graph = value_graph, qr_snapshots = [(''g'', ''r'')], qr_inputs = [value_ref], qr_coverage = Complete, qr_diagnostics = [],
     qr_provenance = [value_origin ''e''], qr_edge_origins = [(''e'', [value_origin ''e''])],
     qr_node_origins = [(''a'', [\<lparr>nr_graph = ''g'', nr_revision = ''r'', nr_node = ''a''\<rparr>]), (''b'', [\<lparr>nr_graph = ''g'', nr_revision = ''r'', nr_node = ''b''\<rparr>])],
     qr_attachment_origins = [], qr_metadata = [], qr_fact_provenance = [], qr_changes = None, qr_neighbors = [], qr_candidates = [],
     qr_exactness = None\<rparr>"

lemma value_protected: "is_ok (protect_generated_result plain_text 100000 value_result)"
  by code_simp

lemma protection_exact_witness:
  "\<exists>r'. protect_generated_result plain_text 100000 value_result = Ok r'
    \<and> graph_protected (Some (demo_influence ''c'')) value_graph (qr_graph r')"
proof -
  obtain r' where r': "protect_generated_result plain_text 100000 value_result = Ok r'"
    using value_protected by (cases "protect_generated_result plain_text 100000 value_result") auto
  then show ?thesis using protection_exact [OF inj_plain_text r'] by (simp add: value_result_def value_graph_def)
qed

lemma value_gates: "is_ok (input_influence plain_text value_graph)"
  by code_simp


end
