(* ===== verification/Schema_Theorems.thy ===== *)
theory Schema_Theorems
  imports Value_Schema Value_Examples
begin

text \<open>
  A graph value has no diagnostics exactly when it is well formed: its identifiers are unambiguous,
  its claims agree with the contexts of their endpoints, and every object has the type its schema declares.
\<close>

section \<open>Well-formed values\<close>

definition conforms :: "(string, jvalue) btree_map \<Rightarrow> (string, property_schema) btree_map \<Rightarrow> bool \<Rightarrow> bool" where
  "conforms vals shape allow_extra \<longleftrightarrow>
     (\<forall>k d. map_of shape k = Some d \<longrightarrow>
        (case map_of vals k of None \<Rightarrow> \<not> ps_required d | Some v \<Rightarrow> property_valid d v))
     \<and> (allow_extra \<or> dom (map_of vals) \<subseteq> dom (map_of shape))"

definition node_typed :: "graph_schema \<Rightarrow> value_node \<Rightarrow> bool" where
  "node_typed s n \<longleftrightarrow>
     (\<exists>t d. nd_type n = Some t \<and> map_of (gs_nodes s) t = Some d \<and> (ns_space d = None \<or> ns_space d = Some (nd_space n))
        \<and> conforms (nd_properties n) (ns_properties d) (ns_extra d))"

definition edge_typed :: "graph_data \<Rightarrow> graph_schema \<Rightarrow> value_edge \<Rightarrow> bool" where
  "edge_typed g s e \<longleftrightarrow>
     (\<exists>t d a b. ed_type e = Some t \<and> map_of (gs_edges s) t = Some d
        \<and> last_of nd_id (gd_nodes g) (ed_from e) = Some a \<and> last_of nd_id (gd_nodes g) (ed_to e) = Some b
        \<and> nd_type a = Some (es_from d) \<and> nd_type b = Some (es_to d) \<and> (es_cross_space d \<or> nd_space a = nd_space b)
        \<and> conforms (ed_properties e) (es_properties d) (es_extra d))"

definition schema_closed :: "graph_schema \<Rightarrow> bool" where
  "schema_closed s \<longleftrightarrow>
     gs_id s \<noteq> [] \<and> gs_revision s \<noteq> []
     \<and> (\<forall>(k, d) \<in> set (gs_nodes s). k \<noteq> [] \<and> ns_space d \<noteq> Some [] \<and> [] \<notin> fst ` set (ns_properties d))
     \<and> (\<forall>(k, d) \<in> set (gs_edges s). k \<noteq> [] \<and> [] \<notin> fst ` set (es_properties d)
          \<and> {es_from d, es_to d} \<subseteq> dom (map_of (gs_nodes s)))"

definition profile_formed :: "graph_data \<Rightarrow> bool" where
  "profile_formed g \<longleftrightarrow>
     (case gd_profile g of
        LegacyProfile \<Rightarrow> gd_structural g = [] \<and> gd_claims g = []
      | ExplicitProfile \<Rightarrow>
          let ids = map se_id (gd_structural g) @ map cm_id (gd_claims g) @ map am_id (gd_attachments g) in
          gd_edges g = [] \<and> distinct ids \<and> [] \<notin> set ids \<and> set ids \<inter> nd_id ` set (gd_nodes g) = {}
          \<and> (\<forall>a \<in> set (gd_claims g). cm_edge a \<in> se_id ` set (gd_structural g) \<and> cm_source a \<noteq> [] \<and> interval_valid (cm_valid a)))"

definition in_scope :: "graph_data \<Rightarrow> string \<Rightarrow> graph_ref option \<Rightarrow> bool" where
  "in_scope g i c \<longleftrightarrow>
     (\<forall>n s. last_of nd_id (filter (\<lambda>n. nd_scope n \<noteq> None) (gd_nodes g)) i = Some n \<longrightarrow> nd_scope n = Some s \<longrightarrow> reference s = c)"

definition contexts_agree :: "graph_data \<Rightarrow> bool" where
  "contexts_agree g \<longleftrightarrow>
     (\<forall>n \<in> set (gd_nodes g). \<forall>s. nd_scope n = Some s \<longrightarrow> validate_selection s = Ok ())
     \<and> (\<forall>e \<in> set (gd_edges g). in_scope g (ed_from e) (ed_context e) \<and> in_scope g (ed_to e) (ed_context e))
     \<and> (\<forall>a \<in> set (gd_claims g). \<forall>e. last_of se_id (gd_structural g) (cm_edge a) = Some e
          \<longrightarrow> in_scope g (se_from e) (cm_context a) \<and> in_scope g (se_to e) (cm_context a))"

definition value_well_formed :: "graph_data \<Rightarrow> bool" where
  "value_well_formed g \<longleftrightarrow>
     contexts_agree g \<and> profile_formed g \<and> (\<forall>e \<in> set (edges_of g). {ed_from e, ed_to e} \<subseteq> nd_id ` set (gd_nodes g))
     \<and> (case gd_schema g of
          None \<Rightarrow> (\<forall>n \<in> set (gd_nodes g). nd_type n = None) \<and> (\<forall>e \<in> set (edges_of g). ed_type e = None)
        | Some s \<Rightarrow> schema_closed s \<and> (\<forall>n \<in> set (gd_nodes g). node_typed s n) \<and> (\<forall>e \<in> set (edges_of g). edge_typed g s e))"

text \<open>The maps of a schema have each key once, as their type has them.\<close>

definition shapes_ok :: "graph_data \<Rightarrow> bool" where
  "shapes_ok g \<longleftrightarrow>
     (\<forall>s. gd_schema g = Some s \<longrightarrow>
        (\<forall>d \<in> snd ` set (gs_nodes s). distinct (map fst (ns_properties d)))
        \<and> (\<forall>d \<in> snd ` set (gs_edges s). distinct (map fst (es_properties d))))"

section \<open>Diagnostics\<close>

lemma all_entries: "distinct (map fst m) \<Longrightarrow> (\<forall>p \<in> set m. P p) \<longleftrightarrow> (\<forall>k d. map_of m k = Some d \<longrightarrow> P (k, d))"
  by (metis map_of_eq_Some_iff prod.collapse)

lemma properties_errors_Nil:
  assumes "distinct (map fst shape)"
  shows "properties_errors vals shape allow_extra = [] \<longleftrightarrow> conforms vals shape allow_extra"
proof -
  have "concat (map (property_errors vals) shape) = [] \<longleftrightarrow>
      (\<forall>k d. map_of shape k = Some d \<longrightarrow> (case map_of vals k of None \<Rightarrow> \<not> ps_required d | Some v \<Rightarrow> property_valid d v))"
  proof -
    have "property_errors vals (k, d) = [] \<longleftrightarrow> (case map_of vals k of None \<Rightarrow> \<not> ps_required d | Some v \<Rightarrow> property_valid d v)" for k d
      by (simp add: property_errors_def split: option.splits)
    then show ?thesis using all_entries [OF assms, of "\<lambda>p. property_errors vals p = []"] by simp
  qed
  moreover have "filter (\<lambda>kv. map_of shape (fst kv) = None) vals = [] \<longleftrightarrow> dom (map_of vals) \<subseteq> dom (map_of shape)"
    by (auto simp: filter_empty_conv dom_map_of_conv_image_fst map_of_eq_None_iff)
  ultimately show ?thesis unfolding properties_errors_def conforms_def by simp
qed

lemma id_errors_Nil:
  "fst (id_errors seen js) = [] \<longleftrightarrow> distinct js \<and> set js \<inter> set seen = {} \<and> [] \<notin> set js"
  "fst (id_errors seen js) = [] \<Longrightarrow> snd (id_errors seen js) = rev js @ seen"
  by (induction seen js rule: id_errors.induct) (auto simp: Let_def split: prod.splits)

lemma claims_step:
  "fst (claims_errors g seen (a # as)) = [] \<longleftrightarrow>
     cm_id a \<notin> set seen \<and> cm_id a \<noteq> [] \<and> claim_errors g a = [] \<and> fst (claims_errors g (cm_id a # seen) as) = []"
  "fst (claims_errors g seen (a # as)) = [] \<Longrightarrow>
     snd (claims_errors g seen (a # as)) = snd (claims_errors g (cm_id a # seen) as)"
  by (auto simp: Let_def case_prod_beta)

lemma claims_errors_Nil:
  "fst (claims_errors g seen as) = [] \<longleftrightarrow>
     distinct (map cm_id as) \<and> set (map cm_id as) \<inter> set seen = {} \<and> [] \<notin> set (map cm_id as) \<and> list_all (\<lambda>a. claim_errors g a = []) as"
  "fst (claims_errors g seen as) = [] \<Longrightarrow> snd (claims_errors g seen as) = rev (map cm_id as) @ seen"
proof (induction as arbitrary: seen)
  case (Cons a as)
  { case 1
    show ?case unfolding claims_step(1) Cons.IH(1) by auto
  next
    case 2
    then show ?case using claims_step(2) [OF 2] Cons.IH(2) [of "cm_id a # seen"] claims_step(1) [of g seen a as] by simp
  }
qed simp_all

text \<open>Identifiers checked list by list.\<close>

lemma distinct_parts:
  "distinct xs \<and> set xs \<inter> set ns = {} \<and> [] \<notin> set xs
     \<and> (distinct ys \<and> set ys \<inter> set (rev xs @ ns) = {} \<and> [] \<notin> set ys \<and> P)
     \<and> (distinct zs \<and> set zs \<inter> set (rev ys @ rev xs @ ns) = {} \<and> [] \<notin> set zs)
   \<longleftrightarrow> distinct (xs @ ys @ zs) \<and> [] \<notin> set (xs @ ys @ zs) \<and> set (xs @ ys @ zs) \<inter> set ns = {} \<and> P"
  by auto

lemma explicit_errors_Nil:
  assumes "gd_profile g = ExplicitProfile"
  shows "explicit_errors g = [] \<longleftrightarrow> profile_formed g"
proof -
  let ?nodes = "map nd_id (gd_nodes g)" and ?edges = "map se_id (gd_structural g)" and ?claims = "gd_claims g"
    and ?atts = "map am_id (gd_attachments g)"
  let ?A = "fst (id_errors ?nodes ?edges)" and ?B = "fst (claims_errors g (rev ?edges @ ?nodes) ?claims)"
    and ?C = "fst (id_errors (rev (map cm_id ?claims) @ rev ?edges @ ?nodes) ?atts)"
  note e1 = id_errors_Nil [of ?nodes ?edges]
  note e2 = claims_errors_Nil [of g "rev ?edges @ ?nodes" ?claims]
  note e3 = id_errors_Nil [of "rev (map cm_id ?claims) @ rev ?edges @ ?nodes" ?atts]
  have "explicit_errors g = (if gd_edges g \<noteq> [] then [E_ASSERTION_PROFILE] else []) @ ?A
      @ fst (claims_errors g (snd (id_errors ?nodes ?edges)) ?claims)
      @ fst (id_errors (snd (claims_errors g (snd (id_errors ?nodes ?edges)) ?claims)) ?atts)"
    by (simp only: explicit_errors_def Let_def case_prod_beta)
  then have "explicit_errors g = [] \<longleftrightarrow> gd_edges g = [] \<and> ?A = [] \<and> ?B = [] \<and> ?C = []"
    using e1(2) e2(2) by (cases "?A = []"; cases "?B = []") (simp_all only: append_is_Nil_conv, simp_all)
  note passed = this
  have claims: "list_all (\<lambda>a. claim_errors g a = []) ?claims \<longleftrightarrow>
      (\<forall>a \<in> set ?claims. cm_edge a \<in> se_id ` set (gd_structural g) \<and> cm_source a \<noteq> [] \<and> interval_valid (cm_valid a))"
    by (auto simp: claim_errors_def list_all_iff)
  let ?ids = "?edges @ map cm_id ?claims @ ?atts"
  have "profile_formed g \<longleftrightarrow> gd_edges g = [] \<and> (distinct ?ids \<and> [] \<notin> set ?ids \<and> set ?ids \<inter> set ?nodes = {}
      \<and> list_all (\<lambda>a. claim_errors g a = []) ?claims)"
    unfolding profile_formed_def Let_def assms claims by (simp only: graph_profile.case set_map [of nd_id])
  then show ?thesis unfolding passed e1(1) e2(1) e3(1) distinct_parts [symmetric] by (simp only: conj_assoc)
qed

lemma profile_errors_Nil: "profile_errors g = [] \<longleftrightarrow> profile_formed g"
  by (cases "gd_profile g") (simp_all add: profile_errors_def explicit_errors_Nil, simp add: profile_formed_def)

lemma scope_errors_Nil: "scope_errors g x y c = [] \<longleftrightarrow> in_scope g x c \<and> in_scope g y c"
proof -
  have "in_scope g i c \<longleftrightarrow> \<not> (case Option.bind (last_of nd_id (filter (\<lambda>n. nd_scope n \<noteq> None) (gd_nodes g)) i) nd_scope of
      None \<Rightarrow> False | Some s \<Rightarrow> reference s \<noteq> c)" for i
    by (auto simp: in_scope_def split: option.splits bind_splits)
  then show ?thesis unfolding scope_errors_def Let_def by auto
qed

lemma context_errors_Nil: "context_errors g = [] \<longleftrightarrow> contexts_agree g"
proof -
  have valid: "(case validate_selection s of Inl e \<Rightarrow> [e] | Inr _ \<Rightarrow> []) = [] \<longleftrightarrow> validate_selection s = Ok ()" for s
    by (cases "validate_selection s") auto
  show ?thesis unfolding context_errors_def contexts_agree_def
    by (auto simp: valid scope_errors_Nil claim_scope_errors_def option_list_def split: option.splits)
qed

lemma schema_errors_Nil:
  assumes "shapes_ok g"
  shows "schema_errors g = [] \<longleftrightarrow>
     (case gd_schema g of
        None \<Rightarrow> (\<forall>n \<in> set (gd_nodes g). nd_type n = None) \<and> (\<forall>e \<in> set (edges_of g). ed_type e = None)
      | Some s \<Rightarrow> schema_closed s \<and> (\<forall>n \<in> set (gd_nodes g). node_typed s n) \<and> (\<forall>e \<in> set (edges_of g). edge_typed g s e))"
proof (cases "gd_schema g")
  case None
  then show ?thesis by (auto simp: schema_errors_def list_ex_iff)
next
  case (Some s)
  have node: "node_errors s n = [] \<longleftrightarrow> node_typed s n" for n
  proof -
    have "node_errors s n = [] \<longleftrightarrow> node_typed s n" if "nd_type n = Some t" "map_of (gs_nodes s) t = Some d" for t d
    proof -
      have "distinct (map fst (ns_properties d))" using assms Some that(2) by (force simp: shapes_ok_def dest: map_of_SomeD)
      then show ?thesis using that
        by (cases "ns_space d") (auto simp: node_errors_def node_typed_def properties_errors_Nil)
    qed
    then show ?thesis
    proof (cases "Option.bind (nd_type n) (map_of (gs_nodes s))")
      case None
      have "node_errors s n = [E_SCHEMA_NODE_TYPE]" unfolding node_errors_def None by simp
      moreover have "\<not> node_typed s n" using None by (auto simp: node_typed_def)
      ultimately show ?thesis by simp
    qed (auto simp: bind_eq_Some_conv)
  qed
  have edge: "edge_errors g s e = [] \<longleftrightarrow> edge_typed g s e" for e
  proof -
    have "edge_errors g s e = [] \<longleftrightarrow> edge_typed g s e" if "ed_type e = Some t" "map_of (gs_edges s) t = Some d" for t d
    proof -
      have "distinct (map fst (es_properties d))" using assms Some that(2) by (force simp: shapes_ok_def dest: map_of_SomeD)
      then show ?thesis using that
        by (cases "last_of nd_id (gd_nodes g) (ed_from e)"; cases "last_of nd_id (gd_nodes g) (ed_to e)")
          (auto simp: edge_errors_def edge_typed_def properties_errors_Nil typed_endpoint_errors_def)
    qed
    then show ?thesis
    proof (cases "Option.bind (ed_type e) (map_of (gs_edges s))")
      case None
      have "edge_errors g s e = [E_SCHEMA_EDGE_TYPE]" unfolding edge_errors_def None by simp
      moreover have "\<not> edge_typed g s e" using None by (auto simp: edge_typed_def)
      ultimately show ?thesis by simp
    qed (auto simp: bind_eq_Some_conv)
  qed
  have "(if gs_id s = [] \<or> gs_revision s = [] then [E_SCHEMA_ID] else [])
      @ concat (map node_schema_errors (gs_nodes s)) @ concat (map (edge_schema_errors s) (gs_edges s)) = [] \<longleftrightarrow> schema_closed s"
  proof -
    have "node_schema_errors p = [] \<longleftrightarrow> fst p \<noteq> [] \<and> ns_space (snd p) \<noteq> Some [] \<and> [] \<notin> fst ` set (ns_properties (snd p))" for p
      by (force simp: node_schema_errors_def list_ex_iff)
    moreover have "edge_schema_errors s p = [] \<longleftrightarrow> fst p \<noteq> [] \<and> [] \<notin> fst ` set (es_properties (snd p))
        \<and> {es_from (snd p), es_to (snd p)} \<subseteq> dom (map_of (gs_nodes s))" for p
      by (force simp: edge_schema_errors_def list_ex_iff)
    ultimately show ?thesis by (simp add: schema_closed_def case_prod_beta)
  qed
  then show ?thesis unfolding schema_errors_def Some using node edge by auto
qed

section \<open>Properties\<close>

text \<open> C33: A graph value passes the schema validation exactly when it is well formed: identifiers are
  unambiguous, claims agree with the contexts of their endpoints, edges join present nodes, the
  schema is closed, and every node and edge has a declared type, its properties conform and edges join nodes of the declared types.
\<close>

theorem schema_validation_exact:
  assumes "shapes_ok g"
  shows "validate_schema_graph g = [] \<longleftrightarrow> value_well_formed g"
proof -
  have "concat (map (endpoint_errors g) (edges_of g)) = [] \<longleftrightarrow> (\<forall>e \<in> set (edges_of g). {ed_from e, ed_to e} \<subseteq> nd_id ` set (gd_nodes g))"
    by (auto simp: endpoint_errors_def Let_def)
  then show ?thesis
    by (simp add: validate_schema_graph_def value_well_formed_def context_errors_Nil profile_errors_Nil schema_errors_Nil [OF assms])
qed

lemma schema_validation_exact_witness:
  "validate_schema_graph value_graph = [] \<and> value_well_formed value_graph"
proof -
  have "shapes_ok value_graph" by (simp add: shapes_ok_def value_graph_def no_graph_def)
  moreover have "validate_schema_graph value_graph = []" by code_simp
  ultimately show ?thesis using schema_validation_exact by blast
qed

end
