(* ===== verification/Algebra_Theorems.thy ===== *)
theory Algebra_Theorems
  imports Algebra_Model Schema_Theorems
begin

text \<open>
  What union, projection and the selection of a context keep of their inputs: exactly which records, and
  the restrictions of the inputs even where their records are gone.
\<close>

declare split_paired_All [simp del] split_paired_Ex [simp del]

section \<open>Checked results\<close>

lemma own_node_idem [simp]: "own_node ctx (own_node ctx n) = own_node ctx n"
  by (simp add: own_node_def)

lemma own_edge_idem [simp]: "own_edge ctx (own_edge ctx e) = own_edge ctx e"
  by (simp add: own_edge_def)

lemma own_attachment_idem [simp]: "own_attachment ctx (own_attachment ctx a) = own_attachment ctx a"
  by (simp add: own_attachment_def)

lemma own_ids [simp]:
  "nd_id (own_node ctx n) = nd_id n" "nd_scope (own_node ctx n) = nd_scope n" "nd_entity (own_node ctx n) = nd_entity n"
  "nd_readers (own_node ctx n) = [al_principal ctx]" "nd_groups (own_node ctx n) = []"
  "ed_id (own_edge ctx e) = ed_id e" "ed_context (own_edge ctx e) = ed_context e" "ed_from (own_edge ctx e) = ed_from e"
  "ed_to (own_edge ctx e) = ed_to e" "am_context (own_attachment ctx a) = am_context a" "am_host (own_attachment ctx a) = am_host a"
  "am_id (own_attachment ctx a) = am_id a"
  by (simp_all add: own_node_def own_edge_def own_attachment_def)

lemma checked_result_Ok:
  assumes "checked_result cd ctx r = Ok out"
  shows "out = r\<lparr>qr_graph := own_graph ctx (qr_graph r)\<rparr> \<and> validate_schema_graph (qr_graph out) = [] \<and> preflight cd ctx out = Ok ()
    \<and> al_principal ctx \<noteq> []"
  using assms by (auto simp: checked_result_def Let_def split: list.splits)

lemma own_graph_simps [simp]:
  "gd_influence (own_graph ctx g) = gd_influence g" "gd_schema (own_graph ctx g) = gd_schema g" "gd_typing (own_graph ctx g) = gd_typing g"
  "gd_nodes (own_graph ctx g) = map (own_node ctx) (gd_nodes g)" "gd_edges (own_graph ctx g) = map (own_edge ctx) (gd_edges g)"
  "gd_attachments (own_graph ctx g) = map (own_attachment ctx) (gd_attachments g)"
  by (simp_all add: own_graph_def)

lemma with_influence_inputs_simps [simp]:
  "qr_graph (with_influence_inputs cd r) = qr_graph r" "qr_node_origins (with_influence_inputs cd r) = qr_node_origins r"
  "qr_edge_origins (with_influence_inputs cd r) = qr_edge_origins r"
  "qr_attachment_origins (with_influence_inputs cd r) = qr_attachment_origins r" "qr_context (with_influence_inputs cd r) = qr_context r"
  by (simp_all add: with_influence_inputs_def split: option.splits)

section \<open>The gates of an envelope\<close>

text \<open>What a value declares beyond its ordinary records.\<close>

definition gates_granted :: "grants \<Rightarrow> graph_data \<Rightarrow> bool" where
  "gates_granted V g \<longleftrightarrow>
     (case V of (A, N, S) \<Rightarrow> influence_granted V (gd_influence g) \<and> set (declared_snapshots g) \<subseteq> S
        \<and> (\<forall>a \<in> set (gd_attachments g). set (am_premises a) \<subseteq> A \<and> set (am_nodes a) \<subseteq> N))"

lemma input_influence_gates: "input_influence js g = Ok r \<Longrightarrow> influence_granted V r \<longleftrightarrow> gates_granted V g"
  using input_influence_Ok [of js g r] by (cases V) (simp add: gates_granted_def)

lemma envelope_Ok:
  assumes "envelope cd left (Some right) = Ok out" and "inj (cd_js cd)"
  shows "(influence_granted V (gd_influence (qr_graph out)) \<longleftrightarrow> gates_granted V (qr_graph left) \<and> gates_granted V (qr_graph right))
    \<and> gd_nodes (qr_graph out) = [] \<and> gd_edges (qr_graph out) = [] \<and> gd_attachments (qr_graph out) = []"
proof -
  obtain li ri m typing where li: "input_influence (cd_js cd) (qr_graph left) = Ok li"
    and ri: "input_influence (cd_js cd) (qr_graph right) = Ok ri" and m: "influence_merge (cd_js cd) li ri = Ok m"
    and g: "qr_graph out = no_graph\<lparr>gd_influence := m, gd_typing := typing\<rparr>"
    using assms(1) by (auto simp: envelope_def optional_influence_def Let_def both_inputs_def)
  show ?thesis using influence_merge_Ok [OF assms(2) m] input_influence_gates [OF li] input_influence_gates [OF ri]
    unfolding g by (simp add: no_graph_def)
qed

section \<open>Union\<close>

definition res_value :: "'a result \<Rightarrow> 'a" where
  "res_value r = (case r of Inl _ \<Rightarrow> undefined | Inr x \<Rightarrow> x)"

lemma res_value_Ok [simp]: "res_value (Ok x) = x"
  by (simp add: res_value_def)

text \<open>A member of an input as it is in the union: under its key, of its keyed type, between its keyed endpoints.\<close>

definition schema_remap :: "graph_schema option \<Rightarrow> query_result \<Rightarrow> graph_schema option" where
  "schema_remap schema input = (if gd_schema (qr_graph input) = schema then None else gd_schema (qr_graph input))"

definition united_node :: "codec \<Rightarrow> algebra_context \<Rightarrow> graph_schema option \<Rightarrow> query_result \<Rightarrow> value_node \<Rightarrow> value_node" where
  "united_node cd ctx schema input n = keyed_node cd ctx (schema_remap schema input) (res_value (member_node_key cd input n)) n"

definition united_id :: "codec \<Rightarrow> query_result \<Rightarrow> string \<Rightarrow> string" where
  "united_id cd input i = res_value (member_node_key cd input (the (last_of nd_id (gd_nodes (qr_graph input)) i)))"

definition united_edge :: "codec \<Rightarrow> algebra_context \<Rightarrow> graph_schema option \<Rightarrow> query_result \<Rightarrow> value_edge \<Rightarrow> value_edge" where
  "united_edge cd ctx schema input e =
     (let x = united_id cd input (ed_from e); y = united_id cd input (ed_to e) in
      keyed_edge cd ctx (schema_remap schema input) (edge_name cd (res_value (member_edge_key cd input e)) x y) x y e)"

definition keyed_members :: "codec \<Rightarrow> query_result \<Rightarrow> bool" where
  "keyed_members cd input \<longleftrightarrow>
     (\<forall>n \<in> set (gd_nodes (qr_graph input)). is_ok (member_node_key cd input n))
     \<and> (\<forall>e \<in> set (gd_edges (qr_graph input)). is_ok (member_edge_key cd input e))"

lemma keyed_ids [simp]:
  "nd_id (keyed_node cd ctx remap i n) = i" "ed_id (keyed_edge cd ctx remap i x y e) = i"
  "own_node ctx (keyed_node cd ctx remap i n) = keyed_node cd ctx remap i n"
  "own_edge ctx (keyed_edge cd ctx remap i x y e) = keyed_edge cd ctx remap i x y e"
  by (simp_all add: keyed_node_def keyed_edge_def own_node_def own_edge_def)

text \<open>Entries under the identifier of their value.\<close>

definition entries :: "('a \<Rightarrow> string) \<Rightarrow> (string, 'a) btree_map \<Rightarrow> 'a set \<Rightarrow> bool" where
  "entries name m X \<longleftrightarrow> bm_ok m \<and> set m = (\<lambda>x. (name x, x)) ` X"

lemma entries_insert:
  assumes "entries name m X" and "map_of m (name x) = None \<or> map_of m (name x) = Some x"
  shows "entries name (if map_of m (name x) = None then bm_insert (name x) x m else m) (insert x X)"
proof (cases "map_of m (name x)")
  case None
  have "set (bm_insert (name x) x m) = insert (name x, x) (set m)"
  proof -
    have ok: "bm_ok m" using assms(1) by (simp add: entries_def)
    have "p \<in> set (bm_insert (name x) x m) \<longleftrightarrow> p \<in> insert (name x, x) (set m)" for p
      using None by (cases p) (auto simp: bm_ok_map_of [OF ok] bm_ok_map_of [OF bm_ok_insert [OF ok]])
    then show ?thesis by blast
  qed
  then show ?thesis using assms(1) None by (auto simp: entries_def)
next
  case (Some y)
  then have "(name x, x) \<in> set m" using assms(2) by (auto dest: map_of_SomeD)
  then show ?thesis using assms(1) Some by (auto simp: entries_def)
qed

lemma entries_names:
  assumes "entries name m X" and "\<And>x. name (f x) = name x"
  shows "map name (map f (map snd m)) = map fst m"
  using assms by (force simp: entries_def)

lemma entries_step:
  assumes "entries name m X" and "i = name x" and "m' = (if map_of m i = None then bm_insert i x m else m)"
    and "map_of m i = None \<or> map_of m i = Some x"
  shows "entries name m' (insert x X)"
  unfolding assms(3) assms(2) using assms(4) unfolding assms(2) by (rule entries_insert [OF assms(1)])

lemma last_of_Nil [simp]: "last_of key [] k = None"
  by (simp add: last_of_def)

lemma last_of_Cons: "last_of key (x # xs) k = (case last_of key xs k of None \<Rightarrow> if key x = k then Some x else None | Some y \<Rightarrow> Some y)"
  by (auto simp: last_of_def map_add_def split: option.splits)

lemma last_of_Some: "last_of key xs k = Some x \<Longrightarrow> x \<in> set xs \<and> key x = k"
  by (induction xs) (auto simp: last_of_Cons split: option.splits if_splits)

lemma last_of_in: "x \<in> set xs \<Longrightarrow> \<exists>y. last_of key xs (key x) = Some y"
  by (induction xs) (auto simp: last_of_Cons split: option.splits)

lemma union_node_Ok:
  assumes "union_node cd ctx input (schema_remap schema input) (s, ids) n = Ok (s', ids')"
  defines "u \<equiv> united_node cd ctx schema input n"
  shows "member_node_key cd input n = Ok (nd_id u) \<and> ids' = bm_insert (nd_id n) (nd_id u) ids
    \<and> un_nodes s' = (if map_of (un_nodes s) (nd_id u) = None then bm_insert (nd_id u) u (un_nodes s) else un_nodes s)
    \<and> (map_of (un_nodes s) (nd_id u) = None \<or> map_of (un_nodes s) (nd_id u) = Some u)
    \<and> un_edges s' = un_edges s \<and> un_attachments s' = un_attachments s"
proof -
  obtain i where i: "member_node_key cd input n = Ok i" using assms(1) by (auto simp: union_node_def)
  have u: "keyed_node cd ctx (schema_remap schema input) i n = u" "nd_id u = i" using i by (simp_all add: u_def united_node_def)
  show ?thesis
  proof (cases "map_of (un_nodes s) i")
    case None
    then show ?thesis using assms(1) i unfolding union_node_def by (auto simp: u Let_def)
  next
    case (Some old)
    then show ?thesis using assms(1) i unfolding union_node_def by (cases "old = u") (simp_all add: u)
  qed
qed

lemma union_nodes_Ok:
  assumes "try_fold (union_node cd ctx input (schema_remap schema input)) (s, ids) ns = Ok (s', ids')" and "entries nd_id (un_nodes s) X"
  shows "entries nd_id (un_nodes s') (X \<union> united_node cd ctx schema input ` set ns)
    \<and> (\<forall>n \<in> set ns. is_ok (member_node_key cd input n))
    \<and> (\<forall>i. map_of ids' i = (case last_of nd_id ns i of None \<Rightarrow> map_of ids i | Some n \<Rightarrow> Some (res_value (member_node_key cd input n))))
    \<and> un_edges s' = un_edges s \<and> un_attachments s' = un_attachments s"
  using assms
proof (induction ns arbitrary: s ids X)
  case (Cons n ns)
  let ?u = "united_node cd ctx schema input n"
  obtain s1 ids1 where step: "union_node cd ctx input (schema_remap schema input) (s, ids) n = Ok (s1, ids1)"
    and rest: "try_fold (union_node cd ctx input (schema_remap schema input)) (s1, ids1) ns = Ok (s', ids')"
    using Cons.prems(1) by auto
  note st = union_node_Ok [OF step]
  have "entries nd_id (un_nodes s1) (insert ?u X)"
    using st by (blast intro: entries_step [OF Cons.prems(2) refl])
  note ih = Cons.IH [OF rest this]
  have un: "insert ?u X \<union> united_node cd ctx schema input ` set ns = X \<union> united_node cd ctx schema input ` set (n # ns)" by simp
  have key: "member_node_key cd input n = Ok (nd_id ?u)" and ids1: "ids1 = bm_insert (nd_id n) (nd_id ?u) ids" using st by simp_all
  have ids: "map_of ids' i = (case last_of nd_id (n # ns) i of None \<Rightarrow> map_of ids i | Some n \<Rightarrow> Some (res_value (member_node_key cd input n)))" for i
  proof (cases "last_of nd_id ns i")
    case None
    then have "map_of ids' i = map_of ids1 i" using ih by simp
    then show ?thesis using None by (simp add: last_of_Cons ids1 key)
  next
    case (Some m)
    then show ?thesis using ih by (simp add: last_of_Cons)
  qed
  show ?case using ih st ids unfolding un by simp
qed simp

lemma union_edge_Ok:
  assumes "union_edge cd ctx input (schema_remap schema input) node_ids (s, ids) e = Ok (s', ids')"
    and "\<And>i. map_of node_ids i = (case last_of nd_id (gd_nodes (qr_graph input)) i of
        None \<Rightarrow> None | Some n \<Rightarrow> Some (res_value (member_node_key cd input n)))"
  defines "u \<equiv> united_edge cd ctx schema input e"
  shows "is_ok (member_edge_key cd input e) \<and> ids' = bm_insert (ed_id e) (ed_id u) ids
    \<and> un_edges s' = (if map_of (un_edges s) (ed_id u) = None then bm_insert (ed_id u) u (un_edges s) else un_edges s)
    \<and> (map_of (un_edges s) (ed_id u) = None \<or> map_of (un_edges s) (ed_id u) = Some u)
    \<and> un_nodes s' = un_nodes s \<and> un_attachments s' = un_attachments s"
proof -
  obtain k x y where k: "member_edge_key cd input e = Ok k" "map_of node_ids (ed_from e) = Some x" "map_of node_ids (ed_to e) = Some y"
    using assms(1) by (auto simp: union_edge_def)
  have ends: "united_id cd input (ed_from e) = x" "united_id cd input (ed_to e) = y"
    using k(2,3) assms(2) by (auto simp: united_id_def split: option.splits)
  let ?i = "edge_name cd k x y"
  have u: "keyed_edge cd ctx (schema_remap schema input) ?i x y e = u" "ed_id u = ?i"
    using k(1) by (simp_all add: u_def united_edge_def ends Let_def)
  show ?thesis
  proof (cases "map_of (un_edges s) ?i")
    case None
    then show ?thesis using assms(1) k unfolding union_edge_def by (auto simp: u Let_def)
  next
    case (Some old)
    then show ?thesis using assms(1) k unfolding union_edge_def by (cases "old = u") (simp_all add: u)
  qed
qed

lemma union_edges_Ok:
  assumes "try_fold (union_edge cd ctx input (schema_remap schema input) node_ids) (s, ids) es = Ok (s', ids')"
    and "\<And>i. map_of node_ids i = (case last_of nd_id (gd_nodes (qr_graph input)) i of
        None \<Rightarrow> None | Some n \<Rightarrow> Some (res_value (member_node_key cd input n)))"
    and "entries ed_id (un_edges s) X"
  shows "entries ed_id (un_edges s') (X \<union> united_edge cd ctx schema input ` set es)
    \<and> (\<forall>e \<in> set es. is_ok (member_edge_key cd input e)) \<and> un_nodes s' = un_nodes s"
  using assms(1,3)
proof (induction es arbitrary: s ids X)
  case (Cons e es)
  let ?u = "united_edge cd ctx schema input e"
  obtain s1 ids1 where step: "union_edge cd ctx input (schema_remap schema input) node_ids (s, ids) e = Ok (s1, ids1)"
    and rest: "try_fold (union_edge cd ctx input (schema_remap schema input) node_ids) (s1, ids1) es = Ok (s', ids')"
    using Cons.prems(1) by auto
  note st = union_edge_Ok [OF step assms(2)]
  have "entries ed_id (un_edges s1) (insert ?u X)"
    using st by (blast intro: entries_step [OF Cons.prems(2) refl])
  note ih = Cons.IH [OF rest this]
  have un: "insert ?u X \<union> united_edge cd ctx schema input ` set es = X \<union> united_edge cd ctx schema input ` set (e # es)" by simp
  show ?case using ih st unfolding un by simp
qed simp

lemma union_attachments_Ok:
  "try_fold (union_attachment cd ctx input node_ids edge_ids) s as = Ok s' \<Longrightarrow> un_nodes s' = un_nodes s \<and> un_edges s' = un_edges s"
proof (induction as arbitrary: s)
  case (Cons a as)
  then obtain s1 where step: "union_attachment cd ctx input node_ids edge_ids s a = Ok s1"
    and rest: "try_fold (union_attachment cd ctx input node_ids edge_ids) s1 as = Ok s'" by auto
  have "un_nodes s1 = un_nodes s \<and> un_edges s1 = un_edges s"
    using step by (auto simp: union_attachment_def Let_def split: if_splits)
  then show ?case using Cons.IH [OF rest] by simp
qed simp

lemma union_input_Ok:
  assumes "union_input cd ctx schema s input = Ok s'" and "entries nd_id (un_nodes s) X" and "entries ed_id (un_edges s) Y"
  shows "entries nd_id (un_nodes s') (X \<union> united_node cd ctx schema input ` set (gd_nodes (qr_graph input)))
    \<and> entries ed_id (un_edges s') (Y \<union> united_edge cd ctx schema input ` set (gd_edges (qr_graph input)))
    \<and> keyed_members cd input"
proof -
  let ?g = "qr_graph input"
  obtain s1 node_ids s2 edge_ids where
      ns: "try_fold (union_node cd ctx input (schema_remap schema input)) (s, []) (gd_nodes ?g) = Ok (s1, node_ids)"
    and es: "try_fold (union_edge cd ctx input (schema_remap schema input) node_ids) (s1, []) (gd_edges ?g) = Ok (s2, edge_ids)"
    and as: "try_fold (union_attachment cd ctx input node_ids edge_ids) s2 (gd_attachments ?g) = Ok s'"
    using assms(1) by (auto simp: union_input_def Let_def schema_remap_def)
  note n = union_nodes_Ok [OF ns assms(2)]
  have ids: "map_of node_ids i = (case last_of nd_id (gd_nodes ?g) i of None \<Rightarrow> None | Some n \<Rightarrow> Some (res_value (member_node_key cd input n)))" for i
    using n by (simp split: option.splits)
  have "entries ed_id (un_edges s1) Y" using n assms(3) by simp
  from union_edges_Ok [OF es ids this] show ?thesis using n union_attachments_Ok [OF as] by (simp add: keyed_members_def)
qed

section \<open>Projection\<close>

text \<open>The nodes a projection keeps: the named ones and the endpoints of the kept edges.\<close>

definition kept_nodes :: "graph_data \<Rightarrow> string list \<Rightarrow> string list \<Rightarrow> string set" where
  "kept_nodes g ns es = set ns \<union> (\<Union>e \<in> {e \<in> set (gd_edges g). ed_id e \<in> set es}. {ed_from e, ed_to e})"

definition hosted :: "graph_data \<Rightarrow> string list \<Rightarrow> string list \<Rightarrow> value_host \<Rightarrow> bool" where
  "hosted g ns es h \<longleftrightarrow>
     (case h of
        GraphHost \<Rightarrow> True | NodeHost i \<Rightarrow> i \<in> kept_nodes g ns es | EdgeHost i \<Rightarrow> i \<in> set es | AssertionHost i \<Rightarrow> i \<in> set es
      | EntityHost i \<Rightarrow> \<exists>n \<in> set (gd_nodes g). nd_id n \<in> kept_nodes g ns es \<and> nd_entity n = i)"

text \<open>What is left of a graph: the named members with their endpoints and metadata, under the gates of the whole value.\<close>

definition projected :: "algebra_context \<Rightarrow> graph_data \<Rightarrow> string list \<Rightarrow> string list \<Rightarrow> graph_data \<Rightarrow> bool" where
  "projected ctx g ns es out \<longleftrightarrow>
     (\<forall>V. influence_granted V (gd_influence out) \<longleftrightarrow> gates_granted V g)
     \<and> gd_edges out = map (own_edge ctx) (filter (\<lambda>e. ed_id e \<in> set es) (gd_edges g))
     \<and> gd_nodes out = map (own_node ctx) (filter (\<lambda>n. nd_id n \<in> kept_nodes g ns es) (gd_nodes g))
     \<and> gd_attachments out = map (own_attachment ctx) (filter (\<lambda>a. hosted g ns es (am_host a)) (gd_attachments g))
     \<and> gd_schema out = gd_schema g \<and> gd_typing out = gd_typing g"

lemma kept_nodes_list:
  "set (ns @ concat (map (\<lambda>e. [ed_from e, ed_to e]) (filter (\<lambda>e. ed_id e \<in> set es) (gd_edges g)))) = kept_nodes g ns es"
  by (auto simp: kept_nodes_def)

lemma host_kept_hosted:
  assumes "set ks = kept_nodes g ns es"
  shows "host_kept ks es (map nd_entity (filter (\<lambda>n. nd_id n \<in> set ks) (gd_nodes g))) h \<longleftrightarrow> hosted g ns es h"
  by (cases h) (auto simp: host_kept_def hosted_def assms image_iff)

lemma project_Ok:
  assumes "project cd ctx input ns es = Ok out"
  shows "projected ctx (qr_graph input) ns es (qr_graph out) \<and> validate_schema_graph (qr_graph out) = []
    \<and> set ns \<subseteq> nd_id ` set (gd_nodes (qr_graph input)) \<and> set es \<subseteq> ed_id ` set (gd_edges (qr_graph input))"
proof -
  let ?g = "qr_graph input"
  define edges where "edges = filter (\<lambda>e. ed_id e \<in> set es) (gd_edges ?g)"
  define ks where "ks = ns @ concat (map (\<lambda>e. [ed_from e, ed_to e]) edges)"
  define nodes where "nodes = filter (\<lambda>n. nd_id n \<in> set ks) (gd_nodes ?g)"
  define r where "r i = (let m = with_influence_inputs cd (input\<lparr>qr_graph := ?g\<lparr>gd_influence := i\<rparr>\<rparr>);
      attachments = filter (\<lambda>a. host_kept ks es (map nd_entity nodes) (am_host a)) (gd_attachments ?g) in
    m\<lparr>qr_graph := ?g\<lparr>gd_influence := i, gd_edges := edges, gd_nodes := nodes, gd_attachments := attachments\<rparr>,
      qr_node_origins := filter (\<lambda>kv. fst kv \<in> set ks) (qr_node_origins m),
      qr_edge_origins := filter (\<lambda>kv. fst kv \<in> set es) (qr_edge_origins m),
      qr_attachment_origins := filter (\<lambda>kv. fst kv \<in> set (map am_id attachments)) (qr_attachment_origins m)\<rparr>)" for i
  obtain i where i: "input_influence (cd_js cd) ?g = Ok i"
    and ids: "list_all (\<lambda>i. i \<in> set (map nd_id (gd_nodes ?g))) ns" "list_all (\<lambda>i. i \<in> set (map ed_id (gd_edges ?g))) es"
    and out: "checked_result cd ctx (r i) = Ok out"
    using assms unfolding project_def Let_def by (auto simp: r_def Let_def edges_def [symmetric] ks_def [symmetric] nodes_def [symmetric])
  have r: "qr_graph (r i) = ?g\<lparr>gd_influence := i, gd_edges := edges, gd_nodes := nodes,
        gd_attachments := filter (\<lambda>a. host_kept ks es (map nd_entity nodes) (am_host a)) (gd_attachments ?g)\<rparr>"
    by (simp add: r_def Let_def)
  have ks: "set ks = kept_nodes ?g ns es" unfolding ks_def edges_def by (rule kept_nodes_list)
  note checked = checked_result_Ok [OF out]
  then have "qr_graph out = own_graph ctx (qr_graph (r i))" by simp
  moreover have v: "validate_schema_graph (qr_graph out) = []" using checked by blast
  ultimately have "projected ctx ?g ns es (qr_graph out)"
    unfolding projected_def using input_influence_gates [OF i] host_kept_hosted [OF ks]
    by (simp add: r nodes_def edges_def ks)
  then show ?thesis using v ids by (auto simp: list_all_iff)
qed

section \<open>Selection of a context\<close>

lemma context_select_Ok:
  assumes "context_select cd ctx input selection = Ok out"
  defines "g \<equiv> qr_graph input" and "c \<equiv> reference selection"
  defines "es \<equiv> map ed_id (filter (\<lambda>e. ed_context e = c) (gd_edges g))"
    and "ns \<equiv> map nd_id (filter (\<lambda>n. nd_scope n = None \<or> nd_scope n = Some selection) (gd_nodes g))"
  shows "\<exists>p. projected ctx g ns es p \<and> kept_nodes g ns es = set ns
    \<and> gd_edges (qr_graph out) = gd_edges p \<and> gd_nodes (qr_graph out) = gd_nodes p \<and> gd_influence (qr_graph out) = gd_influence p
    \<and> gd_attachments (qr_graph out) = filter (\<lambda>a. am_context a = c) (gd_attachments p)
    \<and> (\<forall>t. gd_typing (qr_graph out) = Some t \<longrightarrow> ct_selected t = None \<or> ct_selected t = c)
    \<and> qr_context out = Some selection \<and> (qr_context input = None \<or> qr_context input = Some selection)"
proof -
  obtain m where scope: "qr_context input = None \<or> qr_context input = Some selection"
    and ends: "\<not> list_ex (\<lambda>e. ed_id e \<in> set es \<and> (ed_from e \<notin> set ns \<or> ed_to e \<notin> set ns)) (gd_edges g)"
    and m: "project cd ctx input ns es = Ok m"
    and out: "gd_edges (qr_graph out) = gd_edges (qr_graph m)" "gd_nodes (qr_graph out) = gd_nodes (qr_graph m)"
      "gd_influence (qr_graph out) = gd_influence (qr_graph m)" "qr_context out = Some selection"
      "gd_attachments (qr_graph out) = filter (\<lambda>a. am_context a = c) (gd_attachments (qr_graph m))"
      "gd_typing (qr_graph out) = map_option (\<lambda>t. if ct_selected t \<noteq> c then t\<lparr>ct_selected := None\<rparr> else t) (gd_typing (qr_graph m))"
    using assms(1) unfolding context_select_def Let_def g_def [symmetric] c_def [symmetric] es_def [symmetric] ns_def [symmetric] by auto
  have "kept_nodes g ns es = set ns" using ends by (auto simp: kept_nodes_def list_ex_iff)
  moreover have "projected ctx g ns es (qr_graph m)" using project_Ok [OF m] by (simp add: g_def)
  moreover have "ct_selected t = None \<or> ct_selected t = c" if t: "gd_typing (qr_graph out) = Some t" for t
  proof -
    obtain t' where "t = (if ct_selected t' \<noteq> c then t'\<lparr>ct_selected := None\<rparr> else t')"
      using t unfolding out(6) map_option_eq_Some by blast
    then show ?thesis by simp
  qed
  ultimately show ?thesis using out(1-5) scope by (intro exI [of _ "qr_graph m"]) simp
qed

section \<open>Properties\<close>

text \<open> C34: A union holds exactly the members of its inputs. Its nodes and edges are those of the two inputs under
  the key of their origin, each once, with edges between the keys of their endpoints and readable by the
  principal alone; its restriction is the gates of both inputs together.
\<close>

theorem union_exact:
  assumes "value_union cd ctx left right = Ok out" and "inj (cd_js cd)"
  shows "(\<forall>V. influence_granted V (gd_influence (qr_graph out)) \<longleftrightarrow> gates_granted V (qr_graph left) \<and> gates_granted V (qr_graph right))
    \<and> keyed_members cd left \<and> keyed_members cd right
    \<and> (\<exists>schema. merge_schema cd (gd_schema (qr_graph left)) (gd_schema (qr_graph right)) = Ok schema
      \<and> distinct (map nd_id (gd_nodes (qr_graph out))) \<and> distinct (map ed_id (gd_edges (qr_graph out)))
      \<and> set (gd_nodes (qr_graph out)) = (\<Union>r \<in> {left, right}. united_node cd ctx schema r ` set (gd_nodes (qr_graph r)))
      \<and> set (gd_edges (qr_graph out)) = (\<Union>r \<in> {left, right}. united_edge cd ctx schema r ` set (gd_edges (qr_graph r))))"
proof -
  obtain env schema s where env: "envelope cd left (Some right) = Ok env"
    and schema: "merge_schema cd (gd_schema (qr_graph left)) (gd_schema (qr_graph right)) = Ok schema"
    and s: "try_fold (union_input cd ctx schema)
       \<lparr>un_nodes = [], un_edges = [], un_attachments = [], un_node_origins = [], un_edge_origins = [], un_attachment_origins = [],
        un_budget = algebra_budget_new ctx\<rparr> [left, right] = Ok s"
    and out: "checked_result cd ctx (env\<lparr>
         qr_graph := (qr_graph env)\<lparr>gd_schema := schema, gd_nodes := map snd (un_nodes s), gd_edges := map snd (un_edges s),
           gd_attachments := map snd (un_attachments s)\<rparr>,
         qr_node_origins := un_node_origins s, qr_edge_origins := un_edge_origins s, qr_attachment_origins := un_attachment_origins s\<rparr>) = Ok out"
    using assms(1) by (auto simp: value_union_def)
  let ?N = "\<lambda>r. united_node cd ctx schema r ` set (gd_nodes (qr_graph r))" and ?E = "\<lambda>r. united_edge cd ctx schema r ` set (gd_edges (qr_graph r))"
  obtain s1 where s1: "union_input cd ctx schema \<lparr>un_nodes = [], un_edges = [], un_attachments = [], un_node_origins = [],
      un_edge_origins = [], un_attachment_origins = [], un_budget = algebra_budget_new ctx\<rparr> left = Ok s1"
    "union_input cd ctx schema s1 right = Ok s" using s by auto
  have "entries nd_id (un_nodes s1) (?N left)" "entries ed_id (un_edges s1) (?E left)" and kl: "keyed_members cd left"
    using union_input_Ok [OF s1(1), of "{}" "{}"] by (simp_all add: entries_def)
  from union_input_Ok [OF s1(2) this(1,2)] have kr: "keyed_members cd right" and e: "entries nd_id (un_nodes s) (?N left \<union> ?N right)" "entries ed_id (un_edges s) (?E left \<union> ?E right)"
    by simp_all
  have nodes: "gd_nodes (qr_graph out) = map (own_node ctx) (map snd (un_nodes s))" "gd_edges (qr_graph out) = map (own_edge ctx) (map snd (un_edges s))"
    "gd_influence (qr_graph out) = gd_influence (qr_graph env)" using checked_result_Ok [OF out] by simp_all
  have same: "\<forall>n \<in> ?N left \<union> ?N right. own_node ctx n = n" "\<forall>x \<in> ?E left \<union> ?E right. own_edge ctx x = x"
    by (auto simp: united_node_def united_edge_def Let_def)
  have names: "map nd_id (gd_nodes (qr_graph out)) = map fst (un_nodes s)" "map ed_id (gd_edges (qr_graph out)) = map fst (un_edges s)"
    unfolding nodes using entries_names [OF e(1), where f = "own_node ctx"] entries_names [OF e(2), where f = "own_edge ctx"] by simp_all
  have distinct: "distinct (map nd_id (gd_nodes (qr_graph out)))" "distinct (map ed_id (gd_edges (qr_graph out)))"
    unfolding names using e by (simp_all add: entries_def bm_ok_distinct)
  have snds: "snd ` set (un_nodes s) = ?N left \<union> ?N right" "snd ` set (un_edges s) = ?E left \<union> ?E right"
    using e unfolding entries_def by (simp_all add: image_image)
  have sets: "set (gd_nodes (qr_graph out)) = ?N left \<union> ?N right" "set (gd_edges (qr_graph out)) = ?E left \<union> ?E right"
    unfolding nodes set_map snds using same by (auto simp: image_iff)
  show ?thesis using schema distinct kl kr sets envelope_Ok [OF env assms(2)] unfolding nodes(3) by auto
qed

definition plain_codec :: codec where
  "plain_codec = \<lparr>cd_js = plain_text, cd_sha = filter (\<lambda>c. c = CHR ''b'')\<rparr>"

definition plain_context :: algebra_context where
  "plain_context = \<lparr>al_principal = ''p'', al_max_objects = 10, al_max_bytes = 100000\<rparr>"

text \<open>The part of the example without its edge.\<close>

definition value_part :: query_result where
  "value_part = value_result\<lparr>qr_graph := no_graph\<lparr>gd_influence := Some (demo_influence ''c''), gd_nodes := [value_node_at ''a'']\<rparr>,
     qr_edge_origins := [], qr_provenance := [],
     qr_node_origins := [(''a'', [\<lparr>nr_graph = ''g'', nr_revision = ''r'', nr_node = ''a''\<rparr>])]\<rparr>"

lemma union_runs: "is_ok (value_union plain_codec plain_context value_part value_part)"
  by code_simp

lemma union_exact_witness:
  "\<exists>out. value_union plain_codec plain_context value_part value_part = Ok out
    \<and> \<not> influence_granted ({}, {}, {}) (gd_influence (qr_graph out))"
proof -
  obtain out where out: "value_union plain_codec plain_context value_part value_part = Ok out"
    using union_runs by (cases "value_union plain_codec plain_context value_part value_part") auto
  have inj: "inj (cd_js plain_codec)" using inj_plain_text by (simp add: plain_codec_def)
  have eq: "gd_influence (qr_graph value_part) = Some (demo_influence ''c'')" by (simp add: value_part_def)
  have "\<not> influence_granted ({}, {}, {}) (Some (demo_influence ''c''))"
    by (simp add: influence_granted_Some parts_granted demo_influence_def)
  then have "\<not> gates_granted ({}, {}, {}) (qr_graph value_part)" unfolding gates_granted_def prod.case eq by blast
  with union_exact [OF out inj, THEN conjunct1, THEN spec, of "({}, {}, {})"] out show ?thesis by (intro exI conjI) simp_all
qed

text \<open> C35: A projection discloses what it names and no more. Its edges are the named ones, its nodes the named ones
  and the endpoints of those edges, its metadata what hangs on the graph or on them, every record readable by the
  principal alone; a name the input does not hold is refused, and the gates of the records left out stay on the value.
\<close>

theorem projection_exact:
  assumes "project cd ctx input ns es = Ok out"
  shows "projected ctx (qr_graph input) ns es (qr_graph out) \<and> set ns \<subseteq> nd_id ` set (gd_nodes (qr_graph input))
    \<and> set es \<subseteq> ed_id ` set (gd_edges (qr_graph input))"
  using project_Ok [OF assms] by blast

lemma part_preflight: "preflight plain_codec plain_context value_part = Ok ()"
  by code_simp

lemma part_influence: "input_influence (cd_js plain_codec) (qr_graph value_part) = Ok (Some (demo_influence ''c''))"
  by code_simp

definition part_out :: query_result where
  "part_out = value_part\<lparr>qr_graph := own_graph plain_context (qr_graph value_part)\<rparr>"

lemma part_project: "project plain_codec plain_context value_part [''a''] [] = Ok part_out"
  unfolding project_def part_preflight part_influence rbind_Inr by code_simp

lemma part_graph:
  "gd_nodes (qr_graph value_part) = [value_node_at ''a'']" "gd_edges (qr_graph value_part) = []" "qr_context value_part = None"
  "nd_id (value_node_at ''a'') = ''a''" "nd_scope (value_node_at ''a'') = None"
  by (simp_all add: value_part_def value_result_def no_graph_def value_node_at_def)

lemma part_out_graph:
  "part_out\<lparr>qr_graph := (qr_graph part_out)\<lparr>gd_attachments := [], gd_typing := None\<rparr>, qr_attachment_origins := [],
     qr_context := Some DefaultContext\<rparr> = part_out\<lparr>qr_context := Some DefaultContext\<rparr>"
  "gd_typing (qr_graph part_out) = None" "gd_attachments (qr_graph part_out) = []" "qr_attachment_origins part_out = []"
  by (simp_all add: part_out_def value_part_def value_result_def no_graph_def own_graph_def)

lemma part_out_preflight: "preflight plain_codec plain_context (part_out\<lparr>qr_context := Some DefaultContext\<rparr>) = Ok ()"
  by code_simp

lemma selection_runs:
  "context_select plain_codec plain_context value_part DefaultContext = Ok (part_out\<lparr>qr_context := Some DefaultContext\<rparr>)"
  unfolding context_select_def part_preflight rbind_Inr Let_def part_graph
  by (simp add: validate_selection_def part_graph part_project part_out_graph part_out_preflight)

lemma projection_exact_witness:
  "projected plain_context (qr_graph value_part) [''a''] [] (qr_graph part_out)"
  using projection_exact [OF part_project] by blast



end
