(* ===== verification/Quantity_Theorems.thy ===== *)
theory Quantity_Theorems
  imports Quantity_Model Decimal_Value
begin

text \<open>Quantities keep their unit, convert exactly and reversibly, and are what their serialised form reads to.\<close>

section \<open>Valid quantities\<close>

definition unit_ok :: "unit_descriptor \<Rightarrow> bool" where
  "unit_ok u \<longleftrightarrow> (\<forall>s \<in> {ud_dimension u, ud_unit u, ud_revision u}. s \<noteq> [] \<and> length s \<le> 512 \<and> \<not> has_control s)"

definition quantity_ok :: "quantity \<Rightarrow> bool" where
  "quantity_ok q \<longleftrightarrow> decimal_ok (qu_amount q) \<and> unit_ok (qu_unit q)"

lemma unit_new_Ok: "unit_new d u r = Ok x \<longleftrightarrow> x = \<lparr>ud_dimension = d, ud_unit = u, ud_revision = r\<rparr> \<and> unit_ok x"
  by (cases x) (auto simp: unit_new_def unit_ok_def)

lemma lift_decimal_Ok [simp]: "lift_decimal r = Ok x \<longleftrightarrow> r = Ok x"
  by (cases r) (simp_all add: lift_decimal_def)

lemma mul_ratio_iff:
  "checked_mul_ratio a b c = Ok d \<longleftrightarrow>
     dc_coefficient c \<noteq> 0 \<and> decimal_ok d \<and> dec_value d = dec_value a * dec_value b / dec_value c"
proof (cases "dc_coefficient c = 0")
  case True
  then show ?thesis by (simp add: checked_mul_ratio_def quotient_def)
next
  case False
  have over: "scaled c (s - s') / of_int c' = scaled c s / scaled c' s'" for c s c' s'
    by (simp add: scaled_def power_int_diff power_int_minus field_simps)
  show ?thesis using quotient_iff [OF False] False by (simp add: checked_mul_ratio_def over dec_value_def scaled_mult)
qed

lemma dec_positive_value: "dec_positive d \<Longrightarrow> 0 < dec_value d"
  by (simp add: dec_positive_def dec_value_def scaled_def)

lemma conversion_new_Ok:
  assumes "conversion_new x y n d = Ok c"
  shows "c = \<lparr>cv_from = x, cv_to = y, cv_numerator = n, cv_denominator = d\<rparr> \<and> ud_dimension x = ud_dimension y
    \<and> dec_positive n \<and> dec_positive d"
  using assms by (auto simp: conversion_new_def split: if_splits)

lemma convert_Ok:
  "convert q c = Ok r \<longleftrightarrow> qu_unit q = cv_from c \<and> qu_unit r = cv_to c
     \<and> checked_mul_ratio (qu_amount q) (cv_numerator c) (cv_denominator c) = Ok (qu_amount r)"
  by (cases r) (auto simp: convert_def)

section \<open>Properties\<close>

text \<open> Conversions are exact and reversible. A conversion exists only within one dimension and by positive
  factors; it applies to quantities of its source unit alone, gives the exact ratio of the amount in the target
  unit, and the inverse conversion of a result restores the quantity.
\<close>

theorem conversion_exact:
  assumes "conversion_new x y n d = Ok c" and "convert q c = Ok r" and "decimal_ok (qu_amount q)"
  shows "ud_dimension x = ud_dimension y \<and> qu_unit q = x \<and> qu_unit r = y \<and> decimal_ok (qu_amount r)
    \<and> dec_value (qu_amount r) = dec_value (qu_amount q) * dec_value n / dec_value d
    \<and> (\<exists>c2. conversion_new y x d n = Ok c2 \<and> convert r c2 = Ok q)"
proof -
  note c = conversion_new_Ok [OF assms(1)]
  have pos: "0 < dec_value n" "0 < dec_value d" using c dec_positive_value by blast+
  have r: "qu_unit q = x" "qu_unit r = y" "decimal_ok (qu_amount r)"
    "dec_value (qu_amount r) = dec_value (qu_amount q) * dec_value n / dec_value d"
    using assms(2) c unfolding convert_Ok mul_ratio_iff by simp_all
  let ?c2 = "\<lparr>cv_from = y, cv_to = x, cv_numerator = d, cv_denominator = n\<rparr>"
  have "conversion_new y x d n = Ok ?c2" using c by (simp add: conversion_new_def)
  moreover have "convert r ?c2 = Ok q"
    unfolding convert_Ok mul_ratio_iff using r pos assms(3) c by (simp add: dec_positive_def)
  ultimately show ?thesis using c r by blast
qed

definition grams :: unit_descriptor where
  "grams = \<lparr>ud_dimension = ''mass'', ud_unit = ''g'', ud_revision = ''1''\<rparr>"

definition kilograms :: unit_descriptor where
  "kilograms = \<lparr>ud_dimension = ''mass'', ud_unit = ''kg'', ud_revision = ''1''\<rparr>"

lemma conversion_exact_witness:
  "\<exists>c2. conversion_new grams kilograms \<lparr>dc_coefficient = 1, dc_scale = 0\<rparr> \<lparr>dc_coefficient = 1000, dc_scale = 0\<rparr> = Ok c2
    \<and> convert \<lparr>qu_amount = \<lparr>dc_coefficient = 1500, dc_scale = 0\<rparr>, qu_unit = grams\<rparr> c2
      = Ok \<lparr>qu_amount = \<lparr>dc_coefficient = 15, dc_scale = 1\<rparr>, qu_unit = kilograms\<rparr>"
proof -
  let ?one = "\<lparr>dc_coefficient = 1, dc_scale = 0\<rparr>" and ?thousand = "\<lparr>dc_coefficient = 1000, dc_scale = 0\<rparr>"
  let ?kg = "\<lparr>qu_amount = \<lparr>dc_coefficient = 15, dc_scale = 1\<rparr>, qu_unit = kilograms\<rparr>"
  let ?g = "\<lparr>qu_amount = \<lparr>dc_coefficient = 1500, dc_scale = 0\<rparr>, qu_unit = grams\<rparr>"
  let ?c = "\<lparr>cv_from = kilograms, cv_to = grams, cv_numerator = ?thousand, cv_denominator = ?one\<rparr>"
  have c: "conversion_new kilograms grams ?thousand ?one = Ok ?c"
    by (simp add: conversion_new_def kilograms_def grams_def dec_positive_def)
  have "convert ?kg ?c = Ok ?g"
    by (simp add: convert_Ok mul_ratio_iff decimal_ok_def dec_value_def scaled_def max_coefficient_def max_scale_def)
  moreover have "decimal_ok (qu_amount ?kg)" by (simp add: decimal_ok_def max_coefficient_def max_scale_def)
  ultimately show ?thesis using conversion_exact [OF c] by simp
qed

text \<open> A quantity is read from its JSON form exactly when its amount is a canonical decimal and its unit
  is well-formed, and reading loses nothing.
\<close>

theorem quantity_wire_roundtrip: "read_quantity (json_quantity q) = Some q \<longleftrightarrow> quantity_ok q"
proof -
  have "read_unit (json_unit u) = (if unit_ok u then Some u else None)" for u
  proof (cases "unit_new (ud_dimension u) (ud_unit u) (ud_revision u)")
    case (Inl e)
    then have "\<not> unit_ok u" using unit_new_Ok [of "ud_dimension u" "ud_unit u" "ud_revision u" u] by auto
    then show ?thesis using Inl by (simp add: read_unit_def json_unit_def)
  next
    case (Inr x)
    then have "x = u \<and> unit_ok u" unfolding unit_new_Ok by (cases u) auto
    then show ?thesis using Inr by (simp add: read_unit_def json_unit_def)
  qed
  moreover have "read_decimal (JStr (to_string d)) = Some d \<longleftrightarrow> decimal_ok d" for d
    using from_str_ok from_str_to_string by (auto simp: read_decimal_def deserialize_def split: sum.splits if_splits)
  ultimately show ?thesis by (cases q) (auto simp: read_quantity_def json_quantity_def quantity_ok_def bind_eq_Some_conv)
qed

end
