(* ===== verification/Evidence_Model.thy ===== *)
theory Evidence_Model
  imports Algebra_Model
begin

text \<open>
  Evidence over graph values (\<open>weave-contract/src/algebra.rs\<close>): the alternative proofs of an edge, how the proofs
  of two edges combine, and the four-valued support of a claim at an instant.
\<close>

section \<open>Alternative proofs\<close>

definition proof_snapshots :: "codec \<Rightarrow> assertion_ref list \<Rightarrow> node_ref list \<Rightarrow> graph_ref list" where
  "proof_snapshots cd assertions nodes = unique_by cd json_snapshot (map assertion_pin assertions @ map node_pin nodes)"

definition source_group :: "assertion_ref list \<Rightarrow> derivation" where
  "source_group origins = \<lparr>dv_snapshots = [], dv_nodes = [], dv_operator = ''weave:source'', dv_premises = origins, dv_parameters = [],
     dv_inputs = []\<rparr>"

text \<open>An alternative with the references of its edge.\<close>

definition edge_group :: "codec \<Rightarrow> value_edge \<Rightarrow> derivation \<Rightarrow> derivation result" where
  "edge_group cd e g =
     rbind (influence_merge (cd_js cd)
         (Some (no_influence\<lparr>in_snapshots := dv_snapshots g, in_assertions := dv_premises g, in_nodes := dv_nodes g\<rparr>))
         (Some (no_influence\<lparr>in_snapshots := ed_snapshots e, in_nodes := ed_nodes e\<rparr>))) (\<lambda>m.
     let merged = the m;
         g = g\<lparr>dv_nodes := in_nodes merged, dv_snapshots := in_snapshots merged\<rparr>;
         pins = proof_snapshots cd (dv_premises g) (dv_nodes g) in
     Ok (g\<lparr>dv_inputs := (if dv_snapshots g = [] then pins
           else unique_by cd json_snapshot (dv_inputs g @ pins @ dv_snapshots g))\<rparr>))"

definition collect_results :: "('a \<Rightarrow> 'b result) \<Rightarrow> 'a list \<Rightarrow> 'b list result" where
  "collect_results f xs = try_fold (\<lambda>ys x. rbind (f x) (\<lambda>y. Ok (ys @ [y]))) [] xs"

definition edge_alternatives :: "codec \<Rightarrow> value_edge \<Rightarrow> assertion_ref list \<Rightarrow> derivation list result" where
  "edge_alternatives cd e origins =
     collect_results (edge_group cd e) (if ed_derivations e = [] then [source_group origins] else ed_derivations e)"

text \<open>One proof from premises that hold together; its parameters keep the proofs it is made of.\<close>

definition joint_proof :: "codec \<Rightarrow> string \<Rightarrow> (string, jvalue) btree_map \<Rightarrow> derivation list \<Rightarrow> derivation result" where
  "joint_proof cd operator parameters parents =
     (let premises = unique_by cd json_assertion (concat (map dv_premises parents));
          nodes = unique_by cd json_node (concat (map dv_nodes parents));
          snapshots = unique_by cd json_snapshot (concat (map dv_snapshots parents)) in
      rbind (validate_record_refs premises nodes snapshots) (\<lambda>_.
        Ok \<lparr>dv_snapshots = snapshots, dv_nodes = nodes, dv_operator = operator, dv_premises = premises,
          dv_parameters = bm_insert ''inputs'' (to_value (json_list json_derivation parents)) parameters,
          dv_inputs = unique_by cd json_snapshot (proof_snapshots cd premises nodes @ snapshots)\<rparr>))"

definition combine_pair :: "codec \<Rightarrow> string \<Rightarrow> (string, jvalue) btree_map \<Rightarrow> algebra_budget \<times> derivation list
    \<Rightarrow> derivation \<times> derivation \<Rightarrow> (algebra_budget \<times> derivation list) result" where
  "combine_pair cd operator parameters s p =
     rbind (joint_proof cd operator parameters [fst p, snd p]) (\<lambda>d.
     rbind (budget_add cd (json_derivation d) (fst s)) (\<lambda>b. Ok (b, snd s @ [d])))"

definition combine_derivations :: "codec \<Rightarrow> algebra_context \<Rightarrow> value_edge \<Rightarrow> assertion_ref list \<Rightarrow> value_edge
    \<Rightarrow> assertion_ref list \<Rightarrow> string \<Rightarrow> (string, jvalue) btree_map \<Rightarrow> derivation list result" where
  "combine_derivations cd ctx left left_origins right right_origins operator parameters =
     rbind (edge_alternatives cd left left_origins) (\<lambda>ls.
     rbind (edge_alternatives cd right right_origins) (\<lambda>rs.
     rbind (ensure (length ls * length rs \<le> min (al_max_objects ctx) 128) (GraphError E_ALGEBRA_LIMIT)) (\<lambda>_.
     rbind (try_fold (combine_pair cd operator parameters) (algebra_budget_new ctx, []) (List.product ls rs)) (\<lambda>(_, out).
       Ok (unique_by cd json_derivation out)))))"

section \<open>Support of a claim\<close>

record entity_space =
  sp_entity :: string
  sp_space :: string

definition json_space :: "entity_space \<Rightarrow> jvalue" where
  "json_space s = JObj [(''entity_id'', JStr (sp_entity s)), (''space_id'', JStr (sp_space s))]"

datatype support_state = Unknown | Supported | Refuted | Conflicted

definition state_name :: "support_state \<Rightarrow> string" where
  "state_name s =
     (case s of Unknown \<Rightarrow> ''unknown'' | Supported \<Rightarrow> ''supported'' | Refuted \<Rightarrow> ''refuted'' | Conflicted \<Rightarrow> ''conflicted'')"

text \<open>The claim that is asked about.\<close>

record support_claim =
  sc_predicate :: string
  sc_from :: entity_space
  sc_to :: entity_space
  sc_at :: int

definition at_space :: "entity_space \<Rightarrow> value_node \<Rightarrow> bool" where
  "at_space s n \<longleftrightarrow> nd_entity n = sp_entity s \<and> nd_space n = sp_space s"

text \<open>The proofs for and against, from one edge of the input.\<close>

definition weigh_edge :: "codec \<Rightarrow> query_result \<Rightarrow> support_claim \<Rightarrow> derivation list \<times> derivation list \<Rightarrow> value_edge
    \<Rightarrow> (derivation list \<times> derivation list) result" where
  "weigh_edge cd input claim s e =
     (if ed_predicate e \<noteq> sc_predicate claim \<or> \<not> contains_time (ed_valid e) (sc_at claim) then Ok s
      else
        case (last_of nd_id (gd_nodes (qr_graph input)) (ed_from e), last_of nd_id (gd_nodes (qr_graph input)) (ed_to e)) of
          (Some x, Some y) \<Rightarrow>
            if \<not> at_space (sc_from claim) x \<or> \<not> at_space (sc_to claim) y then Ok s
            else
              let origins = bm_or_default [] (qr_edge_origins input) (ed_id e) in
              rbind (ensure_consumable (qr_context input) (ed_context e)) (\<lambda>_.
              rbind (ensure (ed_derivations e \<noteq> [] \<or> origins \<noteq> [] \<or> ed_nodes e \<noteq> []) (GraphError E_ORIGIN_MISSING)) (\<lambda>_.
              rbind (edge_alternatives cd e origins) (\<lambda>gs.
                Ok (if ed_polarity e = Positive then (fst s @ gs, snd s) else (fst s, snd s @ gs)))))
        | _ \<Rightarrow> Err (GraphError E_ENDPOINT))"

definition support_of :: "derivation list \<times> derivation list \<Rightarrow> support_state" where
  "support_of s =
     (if fst s = [] then (if snd s = [] then Unknown else Refuted) else if snd s = [] then Supported else Conflicted)"

definition selected_or_default :: "query_result \<Rightarrow> context_selection" where
  "selected_or_default r = (case qr_context r of None \<Rightarrow> DefaultContext | Some c \<Rightarrow> c)"

definition support_parameters :: "query_result \<Rightarrow> support_claim \<Rightarrow> support_state \<Rightarrow> (string, jvalue) btree_map" where
  "support_parameters input claim state =
     [(''context'', to_value (json_context (selected_or_default input))), (''from'', to_value (json_space (sc_from claim))),
      (''predicate'', JStr (sc_predicate claim)), (''state'', JStr (state_name state)), (''to'', to_value (json_space (sc_to claim))),
      (''valid_at'', json_int (sc_at claim))]"

definition append_proof :: "codec \<Rightarrow> (string, jvalue) btree_map \<Rightarrow> algebra_budget \<times> derivation list \<Rightarrow> derivation list
    \<Rightarrow> (algebra_budget \<times> derivation list) result" where
  "append_proof cd parameters s parents =
     rbind (ensure (length (snd s) < 128) (GraphError E_ALGEBRA_LIMIT)) (\<lambda>_.
     rbind (joint_proof cd ''weave:support'' parameters parents) (\<lambda>d.
     rbind (budget_add cd (json_derivation d) (fst s)) (\<lambda>b. Ok (b, snd s @ [d]))))"

text \<open>The parents of each proof: a conflict needs one from each side.\<close>

definition support_parents :: "algebra_context \<Rightarrow> derivation list \<times> derivation list \<Rightarrow> derivation list list result" where
  "support_parents ctx s =
     (case support_of s of
        Conflicted \<Rightarrow>
          rbind (ensure (length (fst s) * length (snd s) \<le> min (al_max_objects ctx) 128) (GraphError E_ALGEBRA_LIMIT)) (\<lambda>_.
            Ok (map (\<lambda>(p, n). [p, n]) (List.product (fst s) (snd s))))
      | Supported \<Rightarrow> Ok (map (\<lambda>p. [p]) (fst s))
      | Refuted \<Rightarrow> Ok (map (\<lambda>n. [n]) (snd s))
      | Unknown \<Rightarrow> Ok [])"

definition add_dependency :: "(string \<times> string \<times> string, node_ref) btree_map \<Rightarrow> node_ref
    \<Rightarrow> (string \<times> string \<times> string, node_ref) btree_map result" where
  "add_dependency m r =
     (let m = bm_insert (node_key r) r m in rbind (ensure (length m \<le> 1000) (GraphError E_PROVENANCE)) (\<lambda>_. Ok m))"

definition node_dependencies :: "node_ref list \<Rightarrow> node_ref list result" where
  "node_dependencies refs = rbind (try_fold add_dependency [] refs) (\<lambda>m. Ok (map snd m))"

definition string_property :: "bool \<Rightarrow> property_schema" where
  "string_property nullable = \<lparr>ps_type = StringType, ps_required = True, ps_nullable = nullable\<rparr>"

definition support_schema :: graph_schema where
  "support_schema = \<lparr>gs_id = ''weave:support:status'', gs_revision = ''2'',
     gs_nodes = [(''Support'', \<lparr>ns_properties = [(''context_graph_id'', string_property True), (''context_revision'', string_property True),
         (''coverage'', string_property False), (''state'', string_property False),
         (''valid_at'', \<lparr>ps_type = IntegerType, ps_required = True, ps_nullable = False\<rparr>)],
       ns_space = Some ''weave:analysis'', ns_extra = False\<rparr>)],
     gs_edges = [(''SupportEvidence'', \<lparr>es_from = ''Support'', es_to = ''Support'', es_properties = [], es_cross_space = False,
       es_extra = False\<rparr>)]\<rparr>"

definition support_properties :: "query_result \<Rightarrow> support_claim \<Rightarrow> support_state \<Rightarrow> (string, jvalue) btree_map" where
  "support_properties input claim state =
     (let c = Option.bind (qr_context input) reference in
      [(''context_graph_id'', json_option (JStr \<circ> gr_graph) c), (''context_revision'', json_option (JStr \<circ> gr_revision) c),
       (''coverage'', JStr (if qr_coverage input = Complete then ''complete'' else ''partial'')), (''state'', JStr (state_name state)),
       (''valid_at'', json_int (sc_at claim))])"

text \<open>The digest of what the answer depends on names it.\<close>

definition support_identity :: "codec \<Rightarrow> query_result \<Rightarrow> (string, jvalue) btree_map \<Rightarrow> graph_ref list \<Rightarrow> string" where
  "support_identity cd input parameters declared =
     value_key cd (JArr ([JObj parameters, json_list json_snapshot (qr_inputs input)]
       @ (if requires_v019 (qr_graph input) then [json_graph (qr_graph input)]
          else if declared = [] then [] else [json_list json_snapshot declared])))"

definition support_node :: "codec \<Rightarrow> algebra_context \<Rightarrow> query_result \<Rightarrow> support_claim \<Rightarrow> support_state \<Rightarrow> string \<Rightarrow> derivation list
    \<Rightarrow> node_ref list \<Rightarrow> value_node" where
  "support_node cd ctx input claim state i derivations dependencies =
     (let carried = requires_v019 (qr_graph input) in
      \<lparr>nd_derivations = (if carried then derivations else []), nd_snapshots = [], nd_nodes = (if carried then [] else dependencies),
       nd_premises = (if carried then []
         else unique_by cd json_assertion (qr_provenance input @ concat (map snd (qr_edge_origins input))
           @ concat (map snd (qr_attachment_origins input)) @ concat (map nd_premises (gd_nodes (qr_graph input))))),
       nd_scope = Some (selected_or_default input), nd_type = Some ''Support'', nd_id = i, nd_entity = i, nd_space = ''weave:analysis'',
       nd_valid = None, nd_provenance = None, nd_properties = support_properties input claim state, nd_metadata = [],
       nd_readers = [al_principal ctx], nd_groups = []\<rparr>)"

text \<open>The next instant, unless it is past the last one.\<close>

definition instant_end :: "int \<Rightarrow> int option" where
  "instant_end t = (if t + 1 < 2 ^ 63 then Some (t + 1) else None)"

definition evidence_edge :: "algebra_context \<Rightarrow> query_result \<Rightarrow> support_claim \<Rightarrow> string \<Rightarrow> assertion_ref list \<Rightarrow> derivation list
    \<Rightarrow> value_edge" where
  "evidence_edge ctx input claim i origins derivations =
     \<lparr>ed_snapshots = [], ed_nodes = [], ed_source = None, ed_context = Option.bind (qr_context input) reference, ed_structural = None,
      ed_claims = [], ed_type = Some ''SupportEvidence'', ed_id = i @ '':evidence'', ed_predicate = ''weave:support:evidence'',
      ed_from = i, ed_to = i, ed_valid = \<lparr>iv_start = sc_at claim, iv_end = instant_end (sc_at claim)\<rparr>, ed_provenance = None,
      ed_polarity = Positive, ed_properties = [], ed_metadata = [], ed_readers = [al_principal ctx], ed_groups = [],
      ed_premises = origins, ed_derivations = derivations\<rparr>"

definition node_influence :: "value_node \<Rightarrow> influence" where
  "node_influence n = \<lparr>in_derivations = nd_derivations n, in_assertions = nd_premises n, in_nodes = nd_nodes n, in_snapshots = nd_snapshots n\<rparr>"

definition merge_node :: "codec \<Rightarrow> influence option \<Rightarrow> value_node \<Rightarrow> influence option result" where
  "merge_node cd i n = influence_merge (cd_js cd) i (Some (node_influence n))"

text \<open>An unknown answer still depends on all nodes that were looked at.\<close>

definition unknown_influence :: "codec \<Rightarrow> query_result \<Rightarrow> derivation list \<Rightarrow> influence option \<Rightarrow> influence option result" where
  "unknown_influence cd input derivations i =
     (if requires_v019 (qr_graph input) \<and> derivations = [] then try_fold (merge_node cd) i (gd_nodes (qr_graph input)) else Ok i)"

definition add_evidence :: "codec \<Rightarrow> algebra_context \<Rightarrow> query_result \<Rightarrow> support_claim \<Rightarrow> string \<Rightarrow> derivation list
    \<Rightarrow> algebra_budget \<Rightarrow> query_result \<Rightarrow> query_result result" where
  "add_evidence cd ctx input claim i derivations b out =
     (if derivations = [] then Ok out
      else
        let origins = unique_by cd json_assertion (concat (map dv_premises derivations));
            e = evidence_edge ctx input claim i origins derivations in
        rbind (budget_add cd (json_value_edge e) b) (\<lambda>_.
          Ok (out\<lparr>qr_edge_origins := bm_insert (ed_id e) origins (qr_edge_origins out),
            qr_graph := (qr_graph out)\<lparr>gd_edges := gd_edges (qr_graph out) @ [e]\<rparr>\<rparr>)))"

definition support_dependencies :: "query_result \<Rightarrow> node_ref list" where
  "support_dependencies input =
     (let g = qr_graph input in
      concat (map nd_nodes (gd_nodes g)) @ concat (map snd (qr_node_origins input)) @ concat (map ed_nodes (gd_edges g))
        @ concat (map dv_nodes (concat (map ed_derivations (gd_edges g)))))"

definition value_support :: "codec \<Rightarrow> algebra_context \<Rightarrow> query_result \<Rightarrow> support_claim \<Rightarrow> query_result result" where
  "value_support cd ctx input claim =
     rbind (preflight cd ctx input) (\<lambda>_.
     rbind (try_fold (weigh_edge cd input claim) ([], []) (gd_edges (qr_graph input))) (\<lambda>s.
     let state = support_of s; parameters = support_parameters input claim state in
     rbind (envelope cd input None) (\<lambda>out.
     rbind (support_parents ctx s) (\<lambda>parents.
     rbind (try_fold (append_proof cd parameters) (algebra_budget_new ctx, []) parents) (\<lambda>(b, derivations).
     rbind (collect_declared_snapshots (cd_js cd) (qr_graph input)) (\<lambda>declared.
     let i = ''support:'' @ support_identity cd input parameters declared in
     rbind (node_dependencies (support_dependencies input)) (\<lambda>dependencies.
     let n = support_node cd ctx input claim state i derivations dependencies in
     rbind (unknown_influence cd input derivations (gd_influence (qr_graph out))) (\<lambda>influence.
     rbind (budget_add cd (json_value_node n) b) (\<lambda>b.
     rbind (add_evidence cd ctx input claim i derivations b
       (out\<lparr>qr_graph := (qr_graph out)\<lparr>gd_influence := influence, gd_schema := Some support_schema,
           gd_nodes := gd_nodes (qr_graph out) @ [n]\<rparr>,
         qr_node_origins := bm_insert i [] (qr_node_origins out)\<rparr>)) (\<lambda>out.
     rbind (protect_typed_result cd (al_max_bytes ctx) out) (\<lambda>out.
     rbind (protect_generated_result (cd_js cd) (al_max_bytes ctx) out) (\<lambda>out.
       checked_result cd ctx out))))))))))))"

end
