(* ===== verification/Evidence_Theorems.thy ===== *)
theory Evidence_Theorems
  imports Evidence_Model Algebra_Theorems
begin

text \<open>
  Proofs and support: who is shown the evidence that operators compose, and that the four states of a claim
  are what its edges say.
\<close>

declare split_paired_All [simp del] split_paired_Ex [simp del]

section \<open>Faithful texts\<close>

definition faithful_codec :: "codec \<Rightarrow> bool" where
  "faithful_codec cd \<longleftrightarrow> inj (cd_js cd) \<and> inj (cd_sha cd)"

lemma json_inj: "inj json_assertion" "inj json_node" "inj json_snapshot" "inj json_derivation"
  using json_derivation_inj by (auto simp: inj_def json_assertion_def json_node_def json_snapshot_def)

lemma value_key_inj: "faithful_codec cd \<Longrightarrow> inj f \<Longrightarrow> inj (\<lambda>x. value_key cd (f x))"
  by (simp add: faithful_codec_def value_key_def inj_def)

lemma entries_put:
  assumes "entries name m X" and "map_of m (name x) = None \<or> map_of m (name x) = Some x"
  shows "entries name (bm_insert (name x) x m) (insert x X)"
proof -
  have ok: "bm_ok m" and m: "set m = (\<lambda>x. (name x, x)) ` X" using assms(1) by (simp_all add: entries_def)
  have "p \<in> set (bm_insert (name x) x m) \<longleftrightarrow> p \<in> insert (name x, x) (set m)" for p
    using assms(2) by (cases p) (auto simp: bm_ok_map_of [OF ok] bm_ok_map_of [OF bm_ok_insert [OF ok]])
  then have "set (bm_insert (name x) x m) = insert (name x, x) (set m)" by blast
  then show ?thesis using bm_ok_insert [OF ok] m by (auto simp: entries_def)
qed

lemma entries_fold:
  assumes "inj name" and "entries name m X"
  shows "entries name (foldl (\<lambda>m x. bm_insert (name x) x m) m xs) (X \<union> set xs)"
  using assms(2)
proof (induction xs arbitrary: m X)
  case (Cons x xs)
  have "map_of m (name x) = None \<or> map_of m (name x) = Some x"
  proof (cases "map_of m (name x)")
    case (Some y)
    then have "(name x, y) \<in> set m" by (rule map_of_SomeD)
    then have "name y = name x" using Cons.prems by (auto simp: entries_def)
    then show ?thesis using Some injD [OF assms(1)] by auto
  qed simp
  from Cons.IH [OF entries_put [OF Cons.prems this]] show ?case by simp
qed simp

lemma set_unique_by [simp]:
  assumes "faithful_codec cd" and "inj f"
  shows "set (unique_by cd f xs) = set xs"
proof -
  have "entries (\<lambda>x. value_key cd (f x)) (foldl (\<lambda>m x. bm_insert (value_key cd (f x)) x m) [] xs) ({} \<union> set xs)"
    by (rule entries_fold [OF value_key_inj [OF assms]]) (simp add: entries_def)
  then show ?thesis by (simp add: unique_by_def entries_def image_image)
qed

section \<open>Joint proofs\<close>

lemma group_granted_parts:
  "group_granted (A, N, S) g \<longleftrightarrow> set (dv_premises g) \<subseteq> A \<and> set (dv_nodes g) \<subseteq> N \<and> set (dv_snapshots g) \<subseteq> S"
  by (simp add: group_set_def)

lemma joint_proof_Ok:
  assumes "faithful_codec cd" and "joint_proof cd operator parameters parents = Ok d"
  shows "group_granted V d \<longleftrightarrow> (\<forall>p \<in> set parents. group_granted V p)"
proof -
  obtain A N S where V: "V = (A, N, S)" by (metis prod_cases3)
  have "dv_premises d = unique_by cd json_assertion (concat (map dv_premises parents))"
    "dv_nodes d = unique_by cd json_node (concat (map dv_nodes parents))"
    "dv_snapshots d = unique_by cd json_snapshot (concat (map dv_snapshots parents))"
    using assms(2) by (auto simp: joint_proof_def Let_def)
  then show ?thesis unfolding V group_granted_parts by (auto simp: assms(1) json_inj)
qed

section \<open>The alternatives of an edge\<close>

lemma influence_merge_flat:
  assumes "influence_merge js (Some x) (Some y) = Ok m" and "in_derivations x = []" and "in_derivations y = []"
  shows "\<exists>i. m = Some i \<and> set (in_nodes i) = set (in_nodes x) \<union> set (in_nodes y)
    \<and> set (in_snapshots i) = set (in_snapshots x) \<union> set (in_snapshots y)"
proof -
  obtain out where out: "try_fold merge_flat no_influence [x, y] = Ok out" "m = Some (influence_canonicalize out)"
    using assms by (auto simp: influence_merge_def Let_def)
  then show ?thesis using merge_all_Ok [OF out(1)] by (simp add: influence_canonicalize_def no_influence_def)
qed

lemma edge_group_Ok:
  assumes "edge_group cd e g = Ok g'"
  shows "group_granted (A, N, S) g' \<longleftrightarrow> group_granted (A, N, S) g \<and> set (ed_nodes e) \<subseteq> N \<and> set (ed_snapshots e) \<subseteq> S"
proof -
  obtain m where m: "influence_merge (cd_js cd)
      (Some (no_influence\<lparr>in_snapshots := dv_snapshots g, in_assertions := dv_premises g, in_nodes := dv_nodes g\<rparr>))
      (Some (no_influence\<lparr>in_snapshots := ed_snapshots e, in_nodes := ed_nodes e\<rparr>)) = Ok m"
    and g': "dv_premises g' = dv_premises g" "dv_nodes g' = in_nodes (the m)" "dv_snapshots g' = in_snapshots (the m)"
    using assms by (auto simp: edge_group_def Let_def)
  from influence_merge_flat [OF m] show ?thesis unfolding group_granted_parts g' by (auto simp: no_influence_def)
qed

lemma collect_results_Ok: "collect_results f xs = Ok ys \<longleftrightarrow> list_all2 (\<lambda>x y. f x = Ok y) xs ys"
proof -
  have "try_fold (\<lambda>ys x. rbind (f x) (\<lambda>y. Ok (ys @ [y]))) zs xs = Ok ys \<longleftrightarrow> (\<exists>ys'. ys = zs @ ys' \<and> list_all2 (\<lambda>x y. f x = Ok y) xs ys')" for zs
  proof (induction xs arbitrary: zs)
    case (Cons x xs)
    then show ?case by (cases "f x") (auto simp: list_all2_Cons1)
  qed auto
  from this [of "[]"] show ?thesis by (simp add: collect_results_def)
qed

lemma bex_list_all2:
  assumes "list_all2 R xs ys" and "\<And>x y. R x y \<Longrightarrow> P y \<longleftrightarrow> Q x"
  shows "(\<exists>y \<in> set ys. P y) \<longleftrightarrow> (\<exists>x \<in> set xs. Q x)"
  using assms(1) by (induction rule: list_all2_induct) (simp_all add: assms(2))

text \<open>Who is shown an edge of an input: the proofs of a derived one, the origins of a source.\<close>

definition edge_shown :: "grants \<Rightarrow> value_edge \<Rightarrow> assertion_ref list \<Rightarrow> bool" where
  "edge_shown V e origins \<longleftrightarrow>
     (case V of (A, N, S) \<Rightarrow> set (ed_nodes e) \<subseteq> N \<and> set (ed_snapshots e) \<subseteq> S
        \<and> (if ed_derivations e = [] then set origins \<subseteq> A else \<exists>g \<in> set (ed_derivations e). group_granted V g))"

lemma edge_alternatives_Ok:
  assumes "edge_alternatives cd e origins = Ok gs"
  shows "((\<exists>g \<in> set gs. group_granted V g) \<longleftrightarrow> edge_shown V e origins) \<and> gs \<noteq> []"
proof -
  obtain A N S where V: "V = (A, N, S)" by (metis prod_cases3)
  let ?gs = "if ed_derivations e = [] then [source_group origins] else ed_derivations e"
  have all: "list_all2 (\<lambda>g g'. edge_group cd e g = Ok g') ?gs gs"
    using assms unfolding edge_alternatives_def collect_results_Ok .
  then have "(\<exists>g \<in> set gs. group_granted V g) \<longleftrightarrow> (\<exists>g \<in> set ?gs. group_granted V g \<and> set (ed_nodes e) \<subseteq> N \<and> set (ed_snapshots e) \<subseteq> S)"
    unfolding V by (rule bex_list_all2) (rule edge_group_Ok)
  moreover have "gs \<noteq> []" using all by (auto split: if_splits)
  ultimately show ?thesis unfolding V edge_shown_def by (auto simp: source_group_def group_set_def)
qed

section \<open>Combination\<close>

lemma combine_all_Ok:
  assumes "try_fold (combine_pair cd operator parameters) s ps = Ok s'"
  shows "\<exists>ds. snd s' = snd s @ ds \<and> list_all2 (\<lambda>p d. joint_proof cd operator parameters [fst p, snd p] = Ok d) ps ds"
  using assms
proof (induction ps arbitrary: s)
  case (Cons p ps)
  obtain s1 where s1: "combine_pair cd operator parameters s p = Ok s1" "try_fold (combine_pair cd operator parameters) s1 ps = Ok s'"
    using Cons.prems by auto
  obtain d where "joint_proof cd operator parameters [fst p, snd p] = Ok d" "snd s1 = snd s @ [d]"
    using s1(1) by (auto simp: combine_pair_def)
  with Cons.IH [OF s1(2)] show ?case by (auto simp: list_all2_Cons1)
qed simp

section \<open>What the edges say of a claim\<close>

definition bears :: "query_result \<Rightarrow> support_claim \<Rightarrow> polarity \<Rightarrow> value_edge \<Rightarrow> bool" where
  "bears input claim p e \<longleftrightarrow>
     ed_polarity e = p \<and> ed_predicate e = sc_predicate claim \<and> contains_time (ed_valid e) (sc_at claim)
     \<and> (case (last_of nd_id (gd_nodes (qr_graph input)) (ed_from e), last_of nd_id (gd_nodes (qr_graph input)) (ed_to e)) of
          (Some x, Some y) \<Rightarrow> at_space (sc_from claim) x \<and> at_space (sc_to claim) y
        | _ \<Rightarrow> False)"

definition says :: "query_result \<Rightarrow> support_claim \<Rightarrow> polarity \<Rightarrow> bool" where
  "says input claim p \<longleftrightarrow> (\<exists>e \<in> set (gd_edges (qr_graph input)). bears input claim p e)"

definition claim_state :: "query_result \<Rightarrow> support_claim \<Rightarrow> support_state" where
  "claim_state input claim =
     (if says input claim Positive then (if says input claim Negative then Conflicted else Supported)
      else if says input claim Negative then Refuted else Unknown)"

definition origins_of :: "query_result \<Rightarrow> value_edge \<Rightarrow> assertion_ref list" where
  "origins_of input e = bm_or_default [] (qr_edge_origins input) (ed_id e)"

definition shows_side :: "grants \<Rightarrow> query_result \<Rightarrow> support_claim \<Rightarrow> polarity \<Rightarrow> bool" where
  "shows_side V input claim p \<longleftrightarrow>
     (\<exists>e \<in> set (gd_edges (qr_graph input)). bears input claim p e \<and> edge_shown V e (origins_of input e))"

text \<open>Whoever is shown the answer is shown evidence for each side it rests on.\<close>

definition shows_answer :: "grants \<Rightarrow> query_result \<Rightarrow> support_claim \<Rightarrow> bool" where
  "shows_answer V input claim \<longleftrightarrow>
     (case claim_state input claim of
        Unknown \<Rightarrow> False
      | Supported \<Rightarrow> shows_side V input claim Positive
      | Refuted \<Rightarrow> shows_side V input claim Negative
      | Conflicted \<Rightarrow> shows_side V input claim Positive \<and> shows_side V input claim Negative)"

definition side :: "polarity \<Rightarrow> 'a \<times> 'a \<Rightarrow> 'a" where
  "side p s = (if p = Positive then fst s else snd s)"

lemma weigh_edge_Ok:
  assumes "weigh_edge cd input claim s e = Ok s'"
  shows "((\<exists>g \<in> set (side p s'). group_granted V g) \<longleftrightarrow>
      (\<exists>g \<in> set (side p s). group_granted V g) \<or> bears input claim p e \<and> edge_shown V e (origins_of input e))
    \<and> (side p s' = [] \<longleftrightarrow> side p s = [] \<and> \<not> bears input claim p e)
    \<and> (bears input claim p e \<longrightarrow> ensure_consumable (qr_context input) (ed_context e) = Ok ())"
proof (cases "\<exists>q. bears input claim q e")
  case False
  then have "s' = s" using assms unfolding weigh_edge_def bears_def by (auto simp: Let_def split: if_splits option.splits)
  with False show ?thesis by simp
next
  case True
  then have b: "bears input claim q e \<longleftrightarrow> q = ed_polarity e" for q by (auto simp: bears_def)
  have cond: "ed_predicate e = sc_predicate claim" "contains_time (ed_valid e) (sc_at claim)"
    "\<exists>x y. last_of nd_id (gd_nodes (qr_graph input)) (ed_from e) = Some x \<and> last_of nd_id (gd_nodes (qr_graph input)) (ed_to e) = Some y
      \<and> at_space (sc_from claim) x \<and> at_space (sc_to claim) y"
    using True unfolding bears_def by (auto split: option.splits)
  then obtain gs where gs: "edge_alternatives cd e (origins_of input e) = Ok gs"
    and c: "ensure_consumable (qr_context input) (ed_context e) = Ok ()"
    and s': "s' = (if ed_polarity e = Positive then (fst s @ gs, snd s) else (fst s, snd s @ gs))"
    using assms unfolding weigh_edge_def by (auto simp: Let_def origins_of_def)
  note alts = edge_alternatives_Ok [OF gs]
  show ?thesis
  proof (cases "p = ed_polarity e")
    case True
    then have "side p s' = side p s @ gs" unfolding s' side_def by (cases p) simp_all
    then show ?thesis using alts [of V] c b [of p] True by (auto simp: bex_Un)
  next
    case False
    then have "side p s' = side p s" unfolding s' side_def by (cases p; cases "ed_polarity e") simp_all
    then show ?thesis using b [of p] False by simp
  qed
qed

lemma weigh_all_Ok:
  assumes "try_fold (weigh_edge cd input claim) s es = Ok s'"
  shows "((\<exists>g \<in> set (side p s'). group_granted V g) \<longleftrightarrow>
      (\<exists>g \<in> set (side p s). group_granted V g) \<or> (\<exists>e \<in> set es. bears input claim p e \<and> edge_shown V e (origins_of input e)))
    \<and> (side p s' = [] \<longleftrightarrow> side p s = [] \<and> \<not> (\<exists>e \<in> set es. bears input claim p e))
    \<and> (\<forall>e \<in> set es. bears input claim p e \<longrightarrow> ensure_consumable (qr_context input) (ed_context e) = Ok ())"
  using assms
proof (induction es arbitrary: s)
  case (Cons e es)
  obtain s1 where s1: "weigh_edge cd input claim s e = Ok s1" "try_fold (weigh_edge cd input claim) s1 es = Ok s'"
    using Cons.prems by auto
  show ?case using Cons.IH [OF s1(2)] weigh_edge_Ok [OF s1(1), of p V] by auto
qed simp

lemma weighed:
  assumes "try_fold (weigh_edge cd input claim) ([], []) (gd_edges (qr_graph input)) = Ok s"
  shows "(\<exists>g \<in> set (side p s). group_granted V g) \<longleftrightarrow> shows_side V input claim p"
    and "side p s = [] \<longleftrightarrow> \<not> says input claim p" and "support_of s = claim_state input claim"
    and "\<forall>e \<in> set (gd_edges (qr_graph input)). bears input claim p e \<longrightarrow> ensure_consumable (qr_context input) (ed_context e) = Ok ()"
proof -
  have empty: "side q ([], []) = []" for q by (simp add: side_def)
  note w = weigh_all_Ok [OF assms]
  show "(\<exists>g \<in> set (side p s). group_granted V g) \<longleftrightarrow> shows_side V input claim p" using w [of p V] by (simp add: empty shows_side_def)
  have says: "side q s = [] \<longleftrightarrow> \<not> says input claim q" for q using w [of q] by (simp add: empty says_def)
  then show "side p s = [] \<longleftrightarrow> \<not> says input claim p" .
  have "fst s = [] \<longleftrightarrow> \<not> says input claim Positive" "snd s = [] \<longleftrightarrow> \<not> says input claim Negative"
    using says [of Positive] says [of Negative] by (simp_all add: side_def)
  then show "support_of s = claim_state input claim" by (simp add: support_of_def claim_state_def)
  show "\<forall>e \<in> set (gd_edges (qr_graph input)). bears input claim p e \<longrightarrow> ensure_consumable (qr_context input) (ed_context e) = Ok ()"
    using w by blast
qed

section \<open>The proofs of an answer\<close>

lemma append_all_Ok:
  assumes "try_fold (append_proof cd parameters) s ps = Ok s'"
  shows "\<exists>ds. snd s' = snd s @ ds \<and> list_all2 (\<lambda>p d. joint_proof cd ''weave:support'' parameters p = Ok d) ps ds"
  using assms
proof (induction ps arbitrary: s)
  case (Cons p ps)
  obtain s1 where s1: "append_proof cd parameters s p = Ok s1" "try_fold (append_proof cd parameters) s1 ps = Ok s'"
    using Cons.prems by auto
  obtain d where "joint_proof cd ''weave:support'' parameters p = Ok d" "snd s1 = snd s @ [d]"
    using s1(1) by (auto simp: append_proof_def)
  with Cons.IH [OF s1(2)] show ?case by (auto simp: list_all2_Cons1)
qed simp

lemma support_parents_Ok:
  assumes "support_parents ctx s = Ok parents"
  shows "((\<exists>ps \<in> set parents. \<forall>p \<in> set ps. P p) \<longleftrightarrow>
      (case support_of s of Unknown \<Rightarrow> False | Supported \<Rightarrow> \<exists>p \<in> set (fst s). P p | Refuted \<Rightarrow> \<exists>n \<in> set (snd s). P n
       | Conflicted \<Rightarrow> (\<exists>p \<in> set (fst s). P p) \<and> (\<exists>n \<in> set (snd s). P n)))
    \<and> (parents = [] \<longleftrightarrow> support_of s = Unknown)"
proof (cases "support_of s")
  case Conflicted
  then obtain p0 ps n0 ns where s: "fst s = p0 # ps" "snd s = n0 # ns" by (cases "fst s"; cases "snd s") (simp_all add: support_of_def)
  have parents: "parents = map (\<lambda>(p, n). [p, n]) (List.product (fst s) (snd s))"
    using assms Conflicted by (auto simp: support_parents_def)
  have "(\<exists>ps \<in> set parents. \<forall>p \<in> set ps. P p) \<longleftrightarrow> (\<exists>x \<in> set (fst s) \<times> set (snd s). P (fst x) \<and> P (snd x))"
    unfolding parents by (simp add: split_beta)
  also have "\<dots> \<longleftrightarrow> (\<exists>p \<in> set (fst s). P p) \<and> (\<exists>n \<in> set (snd s). P n)" by fastforce
  finally have "(\<exists>ps \<in> set parents. \<forall>p \<in> set ps. P p) \<longleftrightarrow> (\<exists>p \<in> set (fst s). P p) \<and> (\<exists>n \<in> set (snd s). P n)" .
  moreover have "parents \<noteq> []" unfolding parents s by simp
  ultimately show ?thesis by (simp add: Conflicted)
next
  case Supported
  then have "fst s \<noteq> []" "parents = map (\<lambda>p. [p]) (fst s)" using assms by (auto simp: support_parents_def support_of_def split: if_splits)
  then show ?thesis by (simp add: Supported)
next
  case Refuted
  then have "snd s \<noteq> []" "parents = map (\<lambda>n. [n]) (snd s)" using assms by (auto simp: support_parents_def support_of_def split: if_splits)
  then show ?thesis by (simp add: Refuted)
next
  case Unknown
  then show ?thesis using assms by (simp add: support_parents_def)
qed

lemma proofs_shown:
  assumes "faithful_codec cd" and s: "try_fold (weigh_edge cd input claim) ([], []) (gd_edges (qr_graph input)) = Ok s"
    and parents: "support_parents ctx s = Ok parents"
    and ds: "try_fold (append_proof cd parameters) (b0, []) parents = Ok (b, derivations)"
  shows "(\<exists>d \<in> set derivations. group_granted V d) \<longleftrightarrow> shows_answer V input claim"
proof -
  have "(\<exists>d \<in> set derivations. group_granted V d) \<longleftrightarrow> (\<exists>ps \<in> set parents. \<forall>p \<in> set ps. group_granted V p)"
    using append_all_Ok [OF ds] by (auto intro!: bex_list_all2 simp: joint_proof_Ok [OF assms(1)])
  then show ?thesis
    using support_parents_Ok [OF parents, of "group_granted V"] weighed(1) [OF s, of Positive V] weighed(1) [OF s, of Negative V]
    by (simp add: shows_answer_def weighed(3) [OF s] side_def split: support_state.splits)
qed

lemma proofs_empty:
  assumes s: "try_fold (weigh_edge cd input claim) ([], []) (gd_edges (qr_graph input)) = Ok s"
    and parents: "support_parents ctx s = Ok parents"
    and ds: "try_fold (append_proof cd parameters) (b0, []) parents = Ok (b, derivations)"
  shows "derivations = [] \<longleftrightarrow> claim_state input claim = Unknown"
  using append_all_Ok [OF ds] support_parents_Ok [OF parents] unfolding weighed(3) [OF s] by auto

section \<open>The answer\<close>

lemma envelope_single:
  assumes "envelope cd input None = Ok out"
  shows "gd_nodes (qr_graph out) = [] \<and> gd_edges (qr_graph out) = [] \<and> gd_attachments (qr_graph out) = []
    \<and> gd_typing (qr_graph out) = gd_typing (qr_graph input)"
  using assms by (auto simp: envelope_def optional_influence_def optional_typing_def Let_def no_graph_def)

lemma add_evidence_Ok:
  assumes "add_evidence cd ctx input claim i derivations b out = Ok out'"
  shows "gd_nodes (qr_graph out') = gd_nodes (qr_graph out) \<and> gd_attachments (qr_graph out') = gd_attachments (qr_graph out)
    \<and> gd_typing (qr_graph out') = gd_typing (qr_graph out) \<and> gd_influence (qr_graph out') = gd_influence (qr_graph out)
    \<and> gd_edges (qr_graph out') = gd_edges (qr_graph out) @ (if derivations = [] then []
        else [evidence_edge ctx input claim i (unique_by cd json_assertion (concat (map dv_premises derivations))) derivations])"
  using assms by (auto simp: add_evidence_def Let_def split: if_splits)

lemma value_support_Ok:
  assumes "value_support cd ctx input claim = Ok out"
  obtains s parents b derivations n i origins out1 out2 out3 where
      "try_fold (weigh_edge cd input claim) ([], []) (gd_edges (qr_graph input)) = Ok s"
      "support_parents ctx s = Ok parents"
      "try_fold (append_proof cd (support_parameters input claim (support_of s))) (algebra_budget_new ctx, []) parents = Ok (b, derivations)"
      "nd_properties n = support_properties input claim (support_of s)"
      "gd_nodes (qr_graph out1) = [n]" "gd_attachments (qr_graph out1) = []" "gd_typing (qr_graph out1) = gd_typing (qr_graph input)"
      "gd_edges (qr_graph out1) = (if derivations = [] then [] else [evidence_edge ctx input claim i origins derivations])"
      "protect_typed_result cd (al_max_bytes ctx) out1 = Ok out2"
      "protect_generated_result (cd_js cd) (al_max_bytes ctx) out2 = Ok out3" "checked_result cd ctx out3 = Ok out"
proof -
  let ?run = "\<lambda>s. support_parameters input claim (support_of s)"
  from assms obtain s out0 parents b derivations declared dependencies inf b1 out1 out2 out3 where
      s: "try_fold (weigh_edge cd input claim) ([], []) (gd_edges (qr_graph input)) = Ok s"
    and out0: "envelope cd input None = Ok out0" and parents: "support_parents ctx s = Ok parents"
    and ds: "try_fold (append_proof cd (?run s)) (algebra_budget_new ctx, []) parents = Ok (b, derivations)"
    and out1: "add_evidence cd ctx input claim (''support:'' @ support_identity cd input (?run s) declared) derivations b1
       (out0\<lparr>qr_graph := (qr_graph out0)\<lparr>gd_influence := inf, gd_schema := Some support_schema,
           gd_nodes := gd_nodes (qr_graph out0) @ [support_node cd ctx input claim (support_of s)
             (''support:'' @ support_identity cd input (?run s) declared) derivations dependencies]\<rparr>,
         qr_node_origins := bm_insert (''support:'' @ support_identity cd input (?run s) declared) [] (qr_node_origins out0)\<rparr>) = Ok out1"
    and fin: "protect_typed_result cd (al_max_bytes ctx) out1 = Ok out2"
      "protect_generated_result (cd_js cd) (al_max_bytes ctx) out2 = Ok out3" "checked_result cd ctx out3 = Ok out"
    unfolding value_support_def Let_def rbind_eq_Inr split_beta by (metis prod.collapse)
  note e = envelope_single [OF out0] and a = add_evidence_Ok [OF out1]
  show thesis
    by (rule that [OF s parents ds _ _ _ _ _ fin]) (use e a in \<open>simp_all add: support_node_def Let_def\<close>)
qed

text \<open>Protection changes only the references of the records.\<close>

lemma bare_typed [simp]: "bare_node (typed_node gates n) = bare_node n" "bare_edge (typed_edge as e) = bare_edge e"
  by (simp_all add: typed_node_def typed_edge_def bare_node_def bare_edge_def)

lemma protect_typed_Ok:
  assumes "protect_typed_result cd limit r = Ok r'"
  shows "map bare_node (gd_nodes (qr_graph r')) = map bare_node (gd_nodes (qr_graph r))
    \<and> map bare_edge (gd_edges (qr_graph r')) = map bare_edge (gd_edges (qr_graph r))
    \<and> (gd_typing (qr_graph r) = None \<longrightarrow> r' = r)"
proof -
  obtain g where g: "protect_typed_graph cd limit (qr_graph r) = Ok g" and r': "qr_graph r' = g" "gd_typing g = None \<longrightarrow> r' = r\<lparr>qr_graph := g\<rparr>"
    using assms by (auto simp: protect_typed_result_def Let_def split: option.splits)
  have "map bare_node (gd_nodes g) = map bare_node (gd_nodes (qr_graph r)) \<and> map bare_edge (gd_edges g) = map bare_edge (gd_edges (qr_graph r))
      \<and> (gd_typing (qr_graph r) = None \<longrightarrow> g = qr_graph r)"
    using g by (auto simp: protect_typed_graph_def split: option.splits)
  then show ?thesis using r' by auto
qed

lemma protects_bare: "list_all2 (protects i granted bare) xs ys \<Longrightarrow> map bare ys = map bare xs"
  by (induction rule: list_all2_induct) (simp_all add: protects_def)

lemma bare_own: "nd_properties (own_node ctx n) = nd_properties (bare_node n)" "edge_granted V (own_edge ctx e) = edge_granted V e"
  by (simp_all add: own_node_def own_edge_def bare_node_def edge_granted_def)

lemma evidence_granted: "derivations \<noteq> [] \<Longrightarrow> edge_granted V (evidence_edge ctx input claim i origins derivations)
    \<longleftrightarrow> (\<exists>d \<in> set derivations. group_granted V d)"
  by (cases V) (simp add: edge_granted_def evidence_edge_def parts_granted)

lemma support_answer:
  assumes cd: "inj (cd_js cd)" and run: "value_support cd ctx input claim = Ok out"
  shows "map nd_properties (gd_nodes (qr_graph out)) = [support_properties input claim (claim_state input claim)]
    \<and> (gd_edges (qr_graph out) = [] \<longleftrightarrow> claim_state input claim = Unknown)
    \<and> (\<forall>e \<in> set (gd_edges (qr_graph input)). \<forall>p. bears input claim p e \<longrightarrow> ensure_consumable (qr_context input) (ed_context e) = Ok ())
    \<and> (faithful_codec cd \<longrightarrow> gd_typing (qr_graph input) = None \<longrightarrow> (\<forall>V. \<forall>e \<in> set (gd_edges (qr_graph out)).
         edge_granted V e \<longleftrightarrow> influence_granted V (gd_influence (qr_graph out)) \<and> shows_answer V input claim))"
proof -
  obtain s parents b derivations n i origins out1 out2 out3 where s: "try_fold (weigh_edge cd input claim) ([], []) (gd_edges (qr_graph input)) = Ok s"
    and parents: "support_parents ctx s = Ok parents"
    and ds: "try_fold (append_proof cd (support_parameters input claim (support_of s))) (algebra_budget_new ctx, []) parents = Ok (b, derivations)"
    and n: "nd_properties n = support_properties input claim (support_of s)" and out1: "gd_nodes (qr_graph out1) = [n]"
      "gd_typing (qr_graph out1) = gd_typing (qr_graph input)"
      "gd_edges (qr_graph out1) = (if derivations = [] then [] else [evidence_edge ctx input claim i origins derivations])"
    and out2: "protect_typed_result cd (al_max_bytes ctx) out1 = Ok out2"
    and out3: "protect_generated_result (cd_js cd) (al_max_bytes ctx) out2 = Ok out3" and out: "checked_result cd ctx out3 = Ok out"
    using run by (rule value_support_Ok) blast
  note typed = protect_typed_Ok [OF out2]
  note flat = protect_generated_Ok [OF cd out3, unfolded graph_protected_def]
  have own: "qr_graph out = own_graph ctx (qr_graph out3)" using checked_result_Ok [OF out] by simp
  have nodes: "map bare_node (gd_nodes (qr_graph out3)) = [bare_node n]"
    using protects_bare [OF flat [THEN conjunct1]] typed out1(1) by simp
  have "map nd_properties (gd_nodes (qr_graph out)) = map nd_properties (map bare_node (gd_nodes (qr_graph out3)))"
    unfolding own by (simp add: bare_own)
  also have "\<dots> = [support_properties input claim (claim_state input claim)]"
    unfolding nodes using n weighed(3) [OF s] by (simp add: bare_node_def)
  finally have A: "map nd_properties (gd_nodes (qr_graph out)) = [support_properties input claim (claim_state input claim)]" .
  have "map bare_edge (gd_edges (qr_graph out3)) = map bare_edge (gd_edges (qr_graph out1))"
    using protects_bare [OF flat [THEN conjunct2, THEN conjunct1]] typed by simp
  then have "gd_edges (qr_graph out3) = [] \<longleftrightarrow> gd_edges (qr_graph out1) = []" by (metis map_is_Nil_conv)
  then have B: "gd_edges (qr_graph out) = [] \<longleftrightarrow> claim_state input claim = Unknown"
    unfolding own out1(3) using proofs_empty [OF s parents ds] by simp
  have C: "edge_granted V e \<longleftrightarrow> influence_granted V (gd_influence (qr_graph out)) \<and> shows_answer V input claim"
    if f: "faithful_codec cd" and untyped: "gd_typing (qr_graph input) = None" and e: "e \<in> set (gd_edges (qr_graph out))" for V e
  proof -
    have 2: "out2 = out1" using typed untyped out1(2) by simp
    obtain e3 where e3: "e3 \<in> set (gd_edges (qr_graph out3))" "e = own_edge ctx e3" using e unfolding own by auto
    have "list_all2 (protects (gd_influence (qr_graph out1)) edge_granted bare_edge) (gd_edges (qr_graph out1)) (gd_edges (qr_graph out3))"
      using flat unfolding 2 by blast
    then obtain e1 where e1: "e1 \<in> set (gd_edges (qr_graph out1))" "protects (gd_influence (qr_graph out1)) edge_granted bare_edge e1 e3"
      using e3(1) by (metis in_set_conv_nth list_all2_conv_all_nth)
    have "derivations \<noteq> []" "e1 = evidence_edge ctx input claim i origins derivations" using e1(1) unfolding out1(3) by (auto split: if_splits)
    then have "edge_granted V e1 \<longleftrightarrow> shows_answer V input claim"
      using evidence_granted proofs_shown [OF f s parents ds] by blast
    moreover have "gd_influence (qr_graph out) = gd_influence (qr_graph out1)" unfolding own using flat 2 by simp
    ultimately show ?thesis using e1(2) unfolding e3(2) bare_own protects_def by auto
  qed
  have D: "\<forall>e \<in> set (gd_edges (qr_graph input)). \<forall>p. bears input claim p e \<longrightarrow> ensure_consumable (qr_context input) (ed_context e) = Ok ()"
    using weighed(4) [OF s] by blast
  show ?thesis using A B C D by blast
qed

section \<open>Properties\<close>

text \<open>
  C37: a relation joined from two edges is shown exactly to those who are shown both. Its alternative proofs
  disclose it to a set of grants exactly when the alternatives of the left edge and those of the right edge do.
\<close>

theorem combination_exact:
  assumes "faithful_codec cd" and "combine_derivations cd ctx left left_origins right right_origins operator parameters = Ok ds"
  shows "(\<exists>d \<in> set ds. group_granted V d) \<longleftrightarrow> edge_shown V left left_origins \<and> edge_shown V right right_origins"
proof -
  obtain ls rs b out where ls: "edge_alternatives cd left left_origins = Ok ls" and rs: "edge_alternatives cd right right_origins = Ok rs"
    and out: "try_fold (combine_pair cd operator parameters) (algebra_budget_new ctx, []) (List.product ls rs) = Ok (b, out)"
    and ds: "ds = unique_by cd json_derivation out"
    using assms(2) by (auto simp: combine_derivations_def)
  have all: "list_all2 (\<lambda>p d. joint_proof cd operator parameters [fst p, snd p] = Ok d) (List.product ls rs) out"
    using combine_all_Ok [OF out] by simp
  have "(\<exists>d \<in> set out. group_granted V d) \<longleftrightarrow> (\<exists>p \<in> set (List.product ls rs). group_granted V (fst p) \<and> group_granted V (snd p))"
    by (rule bex_list_all2 [OF all]) (simp add: joint_proof_Ok [OF assms(1)])
  also have "\<dots> \<longleftrightarrow> (\<exists>l \<in> set ls. group_granted V l) \<and> (\<exists>r \<in> set rs. group_granted V r)" by fastforce
  finally show ?thesis
    unfolding ds set_unique_by [OF assms(1) json_inj(4)] using edge_alternatives_Ok [OF ls] edge_alternatives_Ok [OF rs] by simp
qed

text \<open>
  C38: support is four-valued evidence without a closed world. The answer is a single node whose state says which
  sides any edge of the predicate between the two entities, valid at the instant, speaks for: supported,
  refuted, conflicted, or unknown when none does; evidence is attached exactly when something was said, and every
  edge that was weighed belongs to the selected context.
\<close>

theorem support_exact:
  assumes "inj (cd_js cd)" and "value_support cd ctx input claim = Ok out"
  shows "map nd_properties (gd_nodes (qr_graph out)) = [support_properties input claim (claim_state input claim)]
    \<and> (gd_edges (qr_graph out) = [] \<longleftrightarrow> claim_state input claim = Unknown)
    \<and> (\<forall>e \<in> set (gd_edges (qr_graph input)). \<forall>p. bears input claim p e \<longrightarrow> ensure_consumable (qr_context input) (ed_context e) = Ok ())"
  using support_answer [OF assms] by blast


end
