(* ===== verification/Evidence_Examples.thy ===== *)
theory Evidence_Examples
  imports Evidence_Theorems
begin

text \<open>A node related to itself, and the support of that relation.\<close>

definition id_codec :: codec where
  "id_codec = \<lparr>cd_js = plain_text, cd_sha = id\<rparr>"

definition loop_value :: query_result where
  "loop_value = value_result\<lparr>qr_graph := no_graph\<lparr>gd_nodes := [value_node_at ''a''], gd_edges := [value_edge_at ''e'' ''a'' ''a'']\<rparr>,
     qr_inputs := [], qr_snapshots := [], qr_provenance := [], qr_node_origins := []\<rparr>"

definition loop_claim :: support_claim where
  "loop_claim = \<lparr>sc_predicate = ''p'', sc_from = \<lparr>sp_entity = ''a'', sp_space = ''s''\<rparr>, sc_to = \<lparr>sp_entity = ''a'', sp_space = ''s''\<rparr>,
     sc_at = 0\<rparr>"

lemma id_codec_faithful: "faithful_codec id_codec"
  using inj_plain_text by (simp add: faithful_codec_def id_codec_def)

lemma loop_runs: "is_ok (value_support id_codec plain_context loop_value loop_claim)"
  by code_simp

lemma loop_state: "claim_state loop_value loop_claim = Supported"
  by code_simp

lemma support_exact_witness:
  "\<exists>out. value_support id_codec plain_context loop_value loop_claim = Ok out
    \<and> map nd_properties (gd_nodes (qr_graph out)) = [support_properties loop_value loop_claim Supported]"
proof -
  obtain out where out: "value_support id_codec plain_context loop_value loop_claim = Ok out"
    using loop_runs by (cases "value_support id_codec plain_context loop_value loop_claim") auto
  have "inj (cd_js id_codec)" using id_codec_faithful by (simp add: faithful_codec_def)
  from out support_exact [OF this out, THEN conjunct1, unfolded loop_state] show ?thesis by (intro exI [of _ out] conjI)
qed


definition join_left :: value_edge where
  "join_left = value_edge_at ''e'' ''a'' ''b''"

definition join_right :: value_edge where
  "join_right = value_edge_at ''f'' ''b'' ''c''"

lemma combination_runs:
  "is_ok (combine_derivations id_codec plain_context join_left [value_origin ''e''] join_right [value_origin ''f''] ''join'' [])"
  by code_simp

lemma combination_exact_witness:
  "\<exists>ds. combine_derivations id_codec plain_context join_left [value_origin ''e''] join_right [value_origin ''f''] ''join'' [] = Ok ds
    \<and> filter (group_granted ({value_origin ''e''}, {}, {})) ds = []"
proof -
  obtain ds where ds: "combine_derivations id_codec plain_context join_left [value_origin ''e''] join_right [value_origin ''f''] ''join'' [] = Ok ds"
    using combination_runs
    by (cases "combine_derivations id_codec plain_context join_left [value_origin ''e''] join_right [value_origin ''f''] ''join'' []") auto
  have "\<not> edge_shown ({value_origin ''e''}, {}, {}) join_right [value_origin ''f'']"
    by (simp add: edge_shown_def join_right_def value_edge_at_def value_origin_def)
  then have "\<not> (\<exists>d \<in> set ds. group_granted ({value_origin ''e''}, {}, {}) d)"
    using combination_exact [OF id_codec_faithful ds, of "({value_origin ''e''}, {}, {})"] by blast
  then show ?thesis using ds by (intro exI [of _ ds]) (simp add: filter_empty_conv)
qed

end
