(* ===== verification/Temporal_Relations.thy ===== *)
theory Temporal_Relations
  imports Value_Model
begin

text \<open>
  The relations of valid times (\<open>weave-contract/src/temporal.rs\<close>): an interval is read as the set of its
  instants, and each relation and the intersection are what they say of these sets.
\<close>

section \<open>Relations\<close>

datatype temporal_relation = Before | Meets | Overlaps | Within

definition interval_check :: "interval \<Rightarrow> unit result" where
  "interval_check i = ensure (interval_valid i) E_INTERVAL_BOUNDS"

definition interval_intersection :: "interval \<Rightarrow> interval \<Rightarrow> interval option" where
  "interval_intersection x y =
     (let s = max (iv_start x) (iv_start y);
          e = (case (iv_end x, iv_end y) of (Some a, Some b) \<Rightarrow> Some (min a b) | (a, None) \<Rightarrow> a | (None, a) \<Rightarrow> a) in
      if (case e of None \<Rightarrow> False | Some t \<Rightarrow> t \<le> s) then None else Some \<lparr>iv_start = s, iv_end = e\<rparr>)"

definition temporal_matches :: "temporal_relation \<Rightarrow> interval \<Rightarrow> interval \<Rightarrow> bool result" where
  "temporal_matches r x y =
     rbind (interval_check x) (\<lambda>_. rbind (interval_check y) (\<lambda>_.
       Ok (case r of
             Before \<Rightarrow> (case iv_end x of None \<Rightarrow> False | Some e \<Rightarrow> e < iv_start y)
           | Meets \<Rightarrow> iv_end x = Some (iv_start y)
           | Overlaps \<Rightarrow> interval_intersection x y \<noteq> None
           | Within \<Rightarrow> iv_start y \<le> iv_start x
               \<and> (case (iv_end x, iv_end y) of (_, None) \<Rightarrow> True | (Some a, Some b) \<Rightarrow> a \<le> b | (None, Some _) \<Rightarrow> False))))"

section \<open>Instants\<close>

definition instants :: "interval \<Rightarrow> int set" where
  "instants i = {t. contains_time i t}"

lemma instants_eq: "instants i = (case iv_end i of None \<Rightarrow> {iv_start i..} | Some e \<Rightarrow> {iv_start i..<e})"
  by (auto simp: instants_def contains_time_def split: option.splits)

lemma instants_empty: "instants i = {} \<longleftrightarrow> \<not> interval_valid i"
  by (auto simp: instants_eq interval_valid_def split: option.splits)

lemma intersection_instants:
  "case interval_intersection x y of None \<Rightarrow> instants x \<inter> instants y = {}
     | Some z \<Rightarrow> instants z = instants x \<inter> instants y \<and> interval_valid z"
  by (cases "iv_end x"; cases "iv_end y") (auto simp: interval_intersection_def instants_eq interval_valid_def Let_def)

lemma within_instants:
  assumes "interval_valid x"
  shows "instants x \<subseteq> instants y \<longleftrightarrow>
    iv_start y \<le> iv_start x \<and> (case (iv_end x, iv_end y) of (_, None) \<Rightarrow> True | (Some a, Some b) \<Rightarrow> a \<le> b | (None, Some _) \<Rightarrow> False)"
proof (cases "iv_end x")
  case None
  show ?thesis
  proof (cases "iv_end y")
    case (Some b)
    have "max (iv_start x) b \<in> instants x" "max (iv_start x) b \<notin> instants y" by (simp_all add: instants_eq None Some)
    then show ?thesis by (auto simp: None Some)
  qed (simp add: instants_eq None)
next
  case (Some a)
  then have "iv_start x < a" using assms by (simp add: interval_valid_def)
  then show ?thesis by (cases "iv_end y") (auto simp: instants_eq Some)
qed

text \<open>How two sets of instants can lie.\<close>

definition instants_related :: "temporal_relation \<Rightarrow> interval \<Rightarrow> interval \<Rightarrow> bool" where
  "instants_related r x y \<longleftrightarrow>
     (case r of
        Before \<Rightarrow> \<exists>g. g \<notin> instants x \<and> g \<notin> instants y \<and> (\<forall>s \<in> instants x. s < g) \<and> (\<forall>t \<in> instants y. g < t)
      | Meets \<Rightarrow> (\<forall>s \<in> instants x. s < iv_start y) \<and> iv_start y - 1 \<in> instants x
      | Overlaps \<Rightarrow> instants x \<inter> instants y \<noteq> {}
      | Within \<Rightarrow> instants x \<subseteq> instants y)"

lemma before_instants:
  assumes "interval_valid x" and "interval_valid y"
  shows "instants_related Before x y \<longleftrightarrow> (case iv_end x of None \<Rightarrow> False | Some e \<Rightarrow> e < iv_start y)"
proof (cases "iv_end x")
  case None
  have "\<not> (\<forall>s \<in> instants x. s < g)" for g
    using bexI [of "\<lambda>s. g \<le> s" "max (iv_start x) g" "instants x"] by (auto simp: instants_eq None not_less)
  then show ?thesis by (simp add: instants_related_def None)
next
  case (Some e)
  have "e - 1 \<in> instants x" "iv_start y \<in> instants y" using assms Some by (auto simp: instants_eq interval_valid_def split: option.splits)
  then have "instants_related Before x y \<Longrightarrow> e < iv_start y" by (fastforce simp: instants_related_def)
  moreover have "instants_related Before x y" if "e < iv_start y"
    using that unfolding instants_related_def by (auto intro!: exI [of _ e] simp: instants_eq Some split: option.splits)
  ultimately show ?thesis by (auto simp: Some)
qed

lemma meets_instants:
  assumes "interval_valid x"
  shows "instants_related Meets x y \<longleftrightarrow> iv_end x = Some (iv_start y)"
proof (cases "iv_end x")
  case None
  have "max (iv_start x) (iv_start y) \<in> instants x" by (simp add: instants_eq None)
  then have "\<not> (\<forall>s \<in> instants x. s < iv_start y)" by fastforce
  then show ?thesis by (simp add: instants_related_def None)
next
  case (Some e)
  then have "e - 1 \<in> instants x" using assms by (simp add: instants_eq interval_valid_def)
  then show ?thesis using assms by (auto simp: instants_related_def instants_eq Some interval_valid_def)
qed

section \<open>Properties\<close>

text \<open>
  C40: the relations of valid times mean what they say of instants. Empty intervals are refused; otherwise an
  interval lies before another when at least one instant is strictly between them, meets it when they are adjacent,
  overlaps it when they share an instant and is within it when it is a subset; and an intersection holds exactly
  the shared instants and is missing exactly when there is none.
\<close>

theorem temporal_relations_exact:
  "(temporal_matches r x y = Ok b \<longleftrightarrow> instants x \<noteq> {} \<and> instants y \<noteq> {} \<and> (b \<longleftrightarrow> instants_related r x y))
   \<and> (case interval_intersection x y of None \<Rightarrow> instants x \<inter> instants y = {}
      | Some z \<Rightarrow> instants z = instants x \<inter> instants y \<and> instants z \<noteq> {})"
proof -
  have "interval_intersection x y \<noteq> None \<longleftrightarrow> instants x \<inter> instants y \<noteq> {}"
    using intersection_instants [of x y] instants_empty by (cases "interval_intersection x y") auto
  then have "temporal_matches r x y = Ok b \<longleftrightarrow> interval_valid x \<and> interval_valid y \<and> (b \<longleftrightarrow> instants_related r x y)"
    using before_instants [of x y] meets_instants [of x y] within_instants [of x y]
    by (cases r) (auto simp: temporal_matches_def interval_check_def ensure_def instants_related_def)
  then show ?thesis using intersection_instants [of x y] by (simp add: instants_empty split: option.splits)
qed

end
