(* ===== verification/Spec2Isabelle.thy ===== *)
theory Spec2Isabelle
  imports Memory_Theorems Memory_Contract Registry_Cache Registry_Store Policy_Theorems Decimal_Text Quota Scopes
    Fact_Write_Theorems Table_Time Table_Csv Graph_Paths Rules_Examples Cluster_Examples Algebra_Theorems Quantity_Theorems
    Evidence_Examples Temporal_Relations
begin

text \<open>
  A verification library for the Weave engine, a versioned graph store with principals, capabilities
  and governed writes. Paths below are under \<open>src/crates/\<close>.

  How the parts interact. A request reaches a host with an admission proof: \<open>weave-policy\<close> checks its
  chain of capabilities and its signature. The service counts it against the quota of its principal
  (\<open>weave-service/src/quota.rs\<close>) and hands it to the engine, which opens the operation's scopes (its
  clock, its read budget, its authorization work), resolves the principal in the registry to an access
  and a permission, and reads or writes facts. A write turns its changes into effective operations
  against the state of the branch and appends them to the fact store, which keeps every version of
  every fact and can show the state at any revision. The registry itself is a set of facts in a
  reserved graph, written through the same path.

  Theories, in dependence order:
  \<^item> \<open>Weave_Prelude\<close>: results (\<open>Result\<close> is a sum of an error code and a value, \<open>rbind\<close> is \<open>?\<close>), ordered
    maps and sets, guards, identifiers, checked and saturating arithmetic.
  \<^item> \<open>Fact_Model\<close>: \<open>weave-engine/src/fact_store/mod.rs\<close>, the types of the store and the validation of
    what is appended.
  \<^item> \<open>Memory_Store\<close>, \<open>Memory_Invariant\<close>, \<open>Memory_Laws\<close>, \<open>Memory_Snapshots\<close>, \<open>Memory_Theorems\<close>,
    \<open>Memory_Contract\<close>: \<open>fact_store/memory.rs\<close>. The state with its versions, its log and its savepoint;
    the invariant of reachable stores; the refinement of the versioned log to a finite map; that history
    never changes; the log, the changed keys and the order of a selection. The locale \<open>fact_log\<close> states the
    contract of the trait and is interpreted on the memory store.
  \<^item> \<open>Visibility\<close>: \<open>visibility.rs\<close>, who a record admits and how derived records are restricted.
  \<^item> \<open>Fact_Writes\<close>, \<open>Fact_Write_Theorems\<close>: the write path of \<open>facts.rs\<close>. What a write makes of its
    changes, what it shows of records its writer cannot read, and which dependents keep a record alive.
  \<^item> \<open>Worklist\<close>, \<open>Registry_Model\<close>, \<open>Registry_Changes\<close>, \<open>Registry_Invariant\<close>, \<open>Registry_Preserved\<close>,
    \<open>Registry_Membership\<close>, \<open>Registry_Reachable\<close>, \<open>Registry_Authority\<close>, \<open>Registry_Theorems\<close>,
    \<open>Registry_Change_Theorems\<close>, \<open>Registry_Cache\<close>: \<open>registry.rs\<close>. The state, groups and agents, resolution,
    permissions, write authority and each registry change; the invariant every change keeps; the
    confinement of agents, the bounds on group nesting, what additive changes and suspensions do; that the
    resolution cache is transparent. Reachable registries are those the changes build from the
    enabled registry.
  \<^item> \<open>Registry_Facts\<close>, \<open>Registry_Roundtrip\<close>, \<open>Registry_Service\<close>, \<open>Registry_Store\<close>: the registry as facts and
    the engine operations over it (\<open>render\<close>, \<open>parse\<close>, \<open>registry_write\<close>, the gates, the listings,
    \<open>registry/create.rs\<close>, \<open>registry/manifest.rs\<close>). The locale \<open>access_gate\<close> of the service theory
    and the locale \<open>registry_rendering\<close> are interpreted on the registry's own definitions.
  \<^item> \<open>Hex\<close>, \<open>Policy\<close>, \<open>Policy_Theorems\<close>: \<open>weave-policy/src/lib.rs\<close>, admission by capabilities.
  \<^item> \<open>Decimal\<close>, \<open>Decimal_Value\<close>, \<open>Decimal_Text\<close>: \<open>weave-contract/src/decimal.rs\<close>, exact decimals, their
    values, their text and the ranges of their intermediates.
  \<^item> \<open>Quota\<close>: \<open>weave-service/src/quota.rs\<close>.
  \<^item> \<open>Scopes\<close>: \<open>read_budget.rs\<close>, \<open>authorization.rs\<close> and \<open>operation_clock.rs\<close>. The locale
    \<open>nested_session\<close> is what a session shared by nested scopes keeps; it is interpreted on the read
    budget and on the authorization.
  \<^item> \<open>Civil\<close>, \<open>Table_Time\<close>, \<open>Table_Csv\<close>: \<open>weave-hardware/src/table.rs\<close>, the texts of the tabular importer:
    civil dates and day numbers are inverse, times and rows survive printing and parsing.
  \<^item> \<open>Graph_Model\<close>, \<open>Graph_Search\<close>, \<open>Graph_Components\<close>, \<open>Graph_Topology\<close>, \<open>Graph_Theorems\<close>, \<open>Graph_Paths\<close>:
    \<open>weave-science/src/algorithms.rs\<close>. The analyses with their work budget; what an exploration finds and
    costs; the invariants of the depth-first pass (its finishing order) and of the breadth-first queue; that
    components are classes of reachability, that distances are shortest, and which budgets are enough.
  \<^item> \<open>Carrier_Model\<close>, \<open>Carrier_Theorems\<close>: \<open>weave-contract/src/carrier_algebra.rs\<close> and \<open>influence.rs\<close>, the
    restrictions on derived records: what their conjunction, disjunction and merge admit, and that they are
    canonical and within their budget.
  \<^item> \<open>Quantity_Model\<close>, \<open>Quantity_Theorems\<close>: \<open>weave-contract/src/quantity.rs\<close>, amounts of a unit: conversions
    are exact and reversible, the serialised form is read back.
  \<^item> \<open>Value_Model\<close>, \<open>Value_Schema\<close>, \<open>Schema_Theorems\<close>: \<open>weave-contract/src/lib.rs\<close>, \<open>assertions.rs\<close>, \<open>schema.rs\<close>.
    The records of a graph value and of a query result with their serialised form, and the validation of a
    schema: a value without diagnostics is exactly a well-formed one.
  \<^item> \<open>Context_Model\<close>, \<open>Context_Typing\<close>, \<open>Observations\<close>: \<open>context.rs\<close>, \<open>context_axes.rs\<close>, \<open>context_typing.rs\<close>,
    \<open>recorded_history.rs\<close>, \<open>accepted_history.rs\<close>: which context a value is of, the typed contexts and the
    observations it carries, how they are validated and merged.
  \<^item> \<open>Value_Influence\<close>, \<open>Influence_Theorems\<close>, \<open>Value_Examples\<close>: the walks of \<open>influence.rs\<close> over the records of
    a value: what its restriction is when records are dropped, and that protecting a generated result puts
    that restriction on each of its records.
  \<^item> \<open>Algebra_Model\<close>, \<open>Algebra_Theorems\<close>: \<open>algebra.rs\<close> and the selection of \<open>context.rs\<close>. Union, projection and
    selection: exactly which members they keep, and that the gates of the inputs stay on the result.
  \<^item> \<open>Evidence_Model\<close>, \<open>Evidence_Theorems\<close>, \<open>Evidence_Examples\<close>: the proofs of \<open>algebra.rs\<close>. The alternatives of an
    edge, the combination of the proofs of two edges and the four-valued support of a claim: who is shown a joined
    edge, which state an answer has, and that it is disclosed with evidence for each side it rests on.
  \<^item> \<open>Temporal_Relations\<close>: the relations of valid times in \<open>temporal.rs\<close> and their intersection, read as sets of
    instants.
  \<^item> \<open>Rules_Model\<close>, \<open>Rules_Theorems\<close>, \<open>Rules_Examples\<close>: \<open>weave-contract/src/rules_types.rs\<close> and
    \<open>rules.rs\<close>, the validation of rules and their saturation: its facts are the least model at every
    instant, its proofs disclose what follows from the sources a reader is shown. Its rounds are
    bounded by the code's own budget.
  \<^item> \<open>Cluster_Model\<close>, \<open>Cluster_Invariant\<close>, \<open>Cluster_Theorems\<close>, \<open>Lineage_Model\<close>, \<open>Lineage_Theorems\<close>,
    \<open>Cluster_Examples\<close>: \<open>weave-cluster/src\<close>. A hierarchy over a snapshot, coarsened by matchings: its
    invariant, that its frontier always splits the nodes, that it ends at the classes of linked nodes, its
    aggregate links and pages of evidence, and the overlap of two frontiers.

  Reading the model. Identifiers and texts are byte strings, so \<open>length\<close> is Rust's \<open>len\<close>; \<open>HashMap\<close>s
  whose order is never observed and \<open>BTreeMap\<close>s are ordered association lists; \<open>i64\<close> times and positions
  are integers. A mutex or a database transaction is the state it protects. Error messages are
  dropped, error codes are kept.

  Bounds. Group closures and ancestor searches run a queue whose bound comes from the number of principals; the
  worklist theory shows it suffices. Resolution along ownership recurses at most \<open>max_ownership_chain\<close> deep, as
  the code does. Nothing else needs fuel.

  What is assumed. The hash that names graph and branch nodes is a parameter and injective where a
  theorem needs it, and the names of principals are clear of those nodes (\<open>names_clear\<close>; the
  theory \<open>Registry_Store\<close> shows what happens when they are not). Signatures, digests and encodings are fields of a
  record of parameters; only the theorem on signing assumes that the scheme accepts its own signatures, and only the
  theorems on restrictions, proofs and clusters that texts and digests do not collide.

  Not modelled: SQLite and its transactions, serde, the transports (HTTP, MCP, native, Python, browser),
  the validation of the neighbourhood of a write and the identifier of a revision, the identity queries, the
  temporal windows and sequences, the other operators of the algebra (difference, metadata joins), recorded actors and
  governance, projections and views,
  the floating-point algorithms, the JSON batches and the mapping of the tabular importer. The manifest lists them.
\<close>

end
